(* ===== verification/Prelude.thy ===== *)
theory Prelude
  imports Main "HOL-Library.Word"
begin

unbundle bit_operations_syntax

text \<open>
  What every theory of the development shares: the machine types, the outcome type of a C
  function, byte-addressed memory, and the little-endian representation of integers.

  The target is the 64-bit little-endian platform the application is built for: \<open>size_t\<close> and
  pointers have 64 bits.  Values whose bits matter (varints, tags, checksums) are words.  Sizes
  (\<open>size_t\<close>) are natural numbers, with the reduction modulo \<open>2 ^ 64\<close> written out where an
  operation can leave the range.  An address is an integer, \<open>0\<close> is the null pointer.
\<close>

named_theorems res_simps \<open>rewriting of C-level outcomes\<close>
named_theorems mem_simps \<open>rewriting of memory accesses\<close>

type_synonym u8 = "8 word"
type_synonym u16 = "16 word"
type_synonym u32 = "32 word"
type_synonym u64 = "64 word"
type_synonym addr = int
type_synonym mem = "addr \<Rightarrow> u8"

abbreviation (input) NULL :: addr where
  "NULL \<equiv> 0"

section \<open>Outcomes of C functions\<close>

text \<open>
  A function that returns \<open>bool\<close> and gives its result through a pointer ends in one of four
  ways: \<open>Ok v s\<close> (it returned true, with the result \<open>v\<close> and the state \<open>s\<close>), \<open>Err s\<close> (it
  returned false; \<open>s\<close> is the state it left behind), \<open>Fault\<close> (it ran into behaviour the C
  standard does not define: an access outside an object, a shift by the width, a call through a
  null pointer) and \<open>Diverge\<close> (the fuel of a loop or of the recursion ran out).
\<close>

datatype ('s, 'a) res = Ok 'a 's | Err 's | Fault | Diverge

text \<open>\<open>bind_res r f\<close> is the idiom \<open>if (!r) return false; f\<close>.\<close>

fun bind_res :: "('s, 'a) res \<Rightarrow> ('a \<Rightarrow> 's \<Rightarrow> ('s, 'b) res) \<Rightarrow> ('s, 'b) res" where
  "bind_res (Ok a s) f = f a s"
| "bind_res (Err s) f = Err s"
| "bind_res Fault f = Fault"
| "bind_res Diverge f = Diverge"

fun map_state :: "('s \<Rightarrow> 't) \<Rightarrow> ('s, 'a) res \<Rightarrow> ('t, 'a) res" where
  "map_state h (Ok a s) = Ok a (h s)"
| "map_state h (Err s) = Err (h s)"
| "map_state h Fault = Fault"
| "map_state h Diverge = Diverge"

text \<open>The state an outcome leaves behind, where it leaves one.\<close>

fun res_state :: "('s, 'a) res \<Rightarrow> 's option" where
  "res_state (Ok a s) = Some s"
| "res_state (Err s) = Some s"
| "res_state Fault = None"
| "res_state Diverge = None"

lemma bind_res_Ok_iff [res_simps]:
  "bind_res r f = Ok b t \<longleftrightarrow> (\<exists>a s. r = Ok a s \<and> f a s = Ok b t)"
  by (cases r) auto

lemma bind_res_Err_iff:
  "bind_res r f = Err t \<longleftrightarrow> r = Err t \<or> (\<exists>a s. r = Ok a s \<and> f a s = Err t)"
  by (cases r) auto

lemma bind_res_Fault_iff:
  "bind_res r f = Fault \<longleftrightarrow> r = Fault \<or> (\<exists>a s. r = Ok a s \<and> f a s = Fault)"
  by (cases r) auto

lemma bind_res_Diverge_iff:
  "bind_res r f = Diverge \<longleftrightarrow> r = Diverge \<or> (\<exists>a s. r = Ok a s \<and> f a s = Diverge)"
  by (cases r) auto

lemma bind_res_cong [fundef_cong]:
  assumes "r = r'" and "\<And>a s. r' = Ok a s \<Longrightarrow> f a s = f' a s"
  shows "bind_res r f = bind_res r' f'"
  using assms by (cases r') auto

lemma bind_res_assoc:
  "bind_res (bind_res r f) g = bind_res r (\<lambda>a s. bind_res (f a s) g)"
  by (cases r) auto

text \<open>
  \<open>ends P Q r\<close>: the function returned (it neither ran into undefined behaviour nor out of fuel),
  with \<open>P\<close> when it returned true and \<open>Q\<close> when it returned false.  The safety lemmas are composed in
  this form.
\<close>

definition ends :: "('a \<Rightarrow> 's \<Rightarrow> bool) \<Rightarrow> ('s \<Rightarrow> bool) \<Rightarrow> ('s, 'a) res \<Rightarrow> bool" where
  "ends P Q r = (case r of Ok a s \<Rightarrow> P a s | Err s \<Rightarrow> Q s | Fault \<Rightarrow> False | Diverge \<Rightarrow> False)"

lemma ends_simps [simp]:
  "ends P Q (Ok a s) = P a s"
  "ends P Q (Err s) = Q s"
  "ends P Q Fault = False"
  "ends P Q Diverge = False"
  by (simp_all add: ends_def)

lemma ends_bind:
  assumes "ends P Q r" and "\<And>a s. r = Ok a s \<Longrightarrow> P a s \<Longrightarrow> ends P' Q' (f a s)"
    and "\<And>s. Q s \<Longrightarrow> Q' s"
  shows "ends P' Q' (bind_res r f)"
  using assms by (cases r) auto

lemma ends_mono:
  "ends P Q r \<Longrightarrow> (\<And>a s. P a s \<Longrightarrow> P' a s) \<Longrightarrow> (\<And>s. Q s \<Longrightarrow> Q' s) \<Longrightarrow> ends P' Q' r"
  by (cases r) auto

lemma ends_map_state: "ends P Q (map_state h r) = ends (\<lambda>a s. P a (h s)) (\<lambda>s. Q (h s)) r"
  by (cases r) auto

section \<open>Memory\<close>

fun load_bytes :: "mem \<Rightarrow> addr \<Rightarrow> nat \<Rightarrow> u8 list" where
  "load_bytes m a 0 = []"
| "load_bytes m a (Suc n) = m a # load_bytes m (a + 1) n"

fun store_bytes :: "mem \<Rightarrow> addr \<Rightarrow> u8 list \<Rightarrow> mem" where
  "store_bytes m a [] = m"
| "store_bytes m a (b # bs) = store_bytes (m(a := b)) (a + 1) bs"

lemma length_load_bytes [simp]: "length (load_bytes m a n) = n"
  by (induction n arbitrary: a) auto

lemma nth_load_bytes [simp]: "i < n \<Longrightarrow> load_bytes m a n ! i = m (a + int i)"
proof (induction n arbitrary: a i)
  case (Suc n)
  then show ?case by (cases i) (auto simp: algebra_simps)
qed simp

lemma store_bytes_apply:
  "store_bytes m a bs x =
     (if a \<le> x \<and> x < a + int (length bs) then bs ! nat (x - a) else m x)"
proof (induction bs arbitrary: m a)
  case (Cons b bs)
  have "nat (x - a) = Suc (nat (x - (a + 1)))" if "a < x"
    using that by simp
  with Cons show ?case by (auto simp: nth_Cons')
qed auto

lemma store_bytes_outside [mem_simps]:
  "x < a \<or> a + int (length bs) \<le> x \<Longrightarrow> store_bytes m a bs x = m x"
  by (auto simp: store_bytes_apply)

lemma load_store_same [mem_simps]:
  "n = length bs \<Longrightarrow> load_bytes (store_bytes m a bs) a n = bs"
  by (rule nth_equalityI) (auto simp: store_bytes_apply)

lemma load_bytes_cong:
  "(\<And>x. a \<le> x \<Longrightarrow> x < a + int n \<Longrightarrow> m x = m' x) \<Longrightarrow> load_bytes m a n = load_bytes m' a n"
  by (rule nth_equalityI) auto

lemma load_store_disjoint [mem_simps]:
  "a + int n \<le> b \<or> b + int (length bs) \<le> a \<Longrightarrow>
     load_bytes (store_bytes m b bs) a n = load_bytes m a n"
  by (rule load_bytes_cong) (auto simp: store_bytes_outside)

text \<open>Two memories agree outside the region \<open>R\<close>.\<close>

definition agree_off :: "addr set \<Rightarrow> mem \<Rightarrow> mem \<Rightarrow> bool" where
  "agree_off R m m' \<longleftrightarrow> (\<forall>x. x \<notin> R \<longrightarrow> m' x = m x)"

text \<open>The \<open>n\<close> bytes at address \<open>a\<close>.\<close>

definition reg :: "addr \<Rightarrow> nat \<Rightarrow> addr set" where
  "reg a n = {a..<a + int n}"

lemma mem_reg: "x \<in> reg a n \<longleftrightarrow> a \<le> x \<and> x < a + int n"
  by (simp add: reg_def)

lemma reg_mono: "b \<le> a \<Longrightarrow> a + int n \<le> b + int k \<Longrightarrow> reg a n \<subseteq> reg b k"
  by (auto simp: mem_reg)

lemma reg_mono_size: "n \<le> k \<Longrightarrow> reg a n \<subseteq> reg a k"
  by (rule reg_mono) simp_all

lemma agree_off_refl [simp, intro]: "agree_off R m m"
  by (simp add: agree_off_def)

lemma agree_off_trans [trans]: "agree_off R m m' \<Longrightarrow> agree_off R m' m'' \<Longrightarrow> agree_off R m m''"
  by (simp add: agree_off_def)

lemma agree_off_mono: "agree_off R m m' \<Longrightarrow> R \<subseteq> R' \<Longrightarrow> agree_off R' m m'"
  by (auto simp: agree_off_def)

lemma agree_off_store: "reg a (length bs) \<subseteq> R \<Longrightarrow> agree_off R m (store_bytes m a bs)"
  by (auto simp: agree_off_def store_bytes_apply subset_iff mem_reg)

lemma agree_off_upd: "a \<in> R \<Longrightarrow> agree_off R m (m(a := b))"
  by (auto simp: agree_off_def)

lemma agree_off_load:
  "agree_off R m m' \<Longrightarrow> reg a n \<inter> R = {} \<Longrightarrow> load_bytes m' a n = load_bytes m a n"
  by (rule load_bytes_cong) (auto simp: agree_off_def disjoint_iff mem_reg)

section \<open>Little-endian integers\<close>

fun le_bytes :: "nat \<Rightarrow> 'a::len word \<Rightarrow> u8 list" where
  "le_bytes 0 w = []"
| "le_bytes (Suc n) w = ucast w # le_bytes n (drop_bit 8 w)"

fun le_word :: "u8 list \<Rightarrow> 'a::len word" where
  "le_word [] = 0"
| "le_word (b # bs) = ucast b OR push_bit 8 (le_word bs)"

lemma length_le_bytes [simp]: "length (le_bytes n w) = n"
  by (induction n arbitrary: w) auto

lemma le_word_le_bytes: "le_word (le_bytes n w) = take_bit (8 * n) w"
proof (induction n arbitrary: w)
  case (Suc n)
  show ?case
    by (rule bit_word_eqI)
       (auto simp: Suc.IH bit_simps bit_or_iff bit_take_bit_iff bit_push_bit_iff bit_drop_bit_eq
             algebra_simps)
qed simp

lemma le_word_le_bytes_full [simp]:
  "8 * n \<ge> LENGTH('a) \<Longrightarrow> le_word (le_bytes n (w :: 'a::len word)) = w"
  by (simp add: le_word_le_bytes take_bit_word_eq_self)

lemma le_bytes_take_bit: "8 * n \<le> k \<Longrightarrow> le_bytes n (take_bit k w) = le_bytes n w"
proof (induction n arbitrary: w k)
  case (Suc n)
  have "drop_bit 8 (take_bit k w) = take_bit (k - 8) (drop_bit 8 w)"
    by (rule bit_word_eqI) (use Suc.prems in \<open>auto simp: bit_simps\<close>)
  moreover have "(ucast (take_bit k w) :: u8) = ucast w"
    by (rule bit_word_eqI) (use Suc.prems in \<open>auto simp: bit_simps\<close>)
  ultimately show ?case
    using Suc by simp
qed simp

lemma le_bytes_le_word:
  "8 * length bs \<le> LENGTH('a) \<Longrightarrow> le_bytes (length bs) (le_word bs :: 'a::len word) = bs"
proof (induction bs)
  case (Cons b bs)
  have low: "ucast (le_word (b # bs) :: 'a word) = b"
    by (rule bit_word_eqI) (use Cons.prems in \<open>auto simp: bit_simps\<close>)
  have high: "drop_bit 8 (le_word (b # bs) :: 'a word) =
      take_bit (LENGTH('a) - 8) (le_word bs)"
    by (rule bit_word_eqI) (use Cons.prems in \<open>auto simp: bit_simps dest: bit_imp_le_length\<close>)
  show ?case
    using Cons low by (simp add: high le_bytes_take_bit del: le_word.simps)
qed simp

section \<open>Bits of words\<close>

text \<open>The masks of the sources, as bit operations.\<close>

lemma and_7F: "(x :: 'a::len word) AND 0x7F = take_bit 7 x"
  by (simp add: take_bit_eq_mask mask_eq_exp_minus_1)

lemma and_FF: "(x :: 'a::len word) AND 0xFF = take_bit 8 x"
  by (simp add: take_bit_eq_mask mask_eq_exp_minus_1)

lemma or_80: "(x :: 'a::len word) OR 0x80 = set_bit 7 x"
  by (simp add: set_bit_eq_or)

lemma and_80: "(x :: 'a::len word) AND 0x80 \<noteq> 0 \<longleftrightarrow> bit x 7"
  by (simp add: bit_iff_and_push_bit_not_eq_0)

lemma and_80_eq: "(x :: 'a::len word) AND 0x80 = 0 \<longleftrightarrow> \<not> bit x 7"
  using and_80 [of x] by blast

lemma and_1: "(x :: 'a::len word) AND 1 \<noteq> 0 \<longleftrightarrow> bit x 0"
  by (simp add: and_one_eq bit_0 odd_iff_mod_2_eq_one)

lemma unat_drop_bit_div: "unat (drop_bit n (v :: 'a::len word)) = unat v div 2 ^ n"
  by (subst unat_drop_bit_eq) (rule drop_bit_eq_div)

lemma bit_high_zero: "unat (v :: 'a::len word) < 2 ^ k \<Longrightarrow> k \<le> n \<Longrightarrow> \<not> bit v n"
proof -
  assume v: "unat v < 2 ^ k" and n: "k \<le> n"
  have "unat v < 2 ^ n"
    by (rule order.strict_trans2 [OF v]) (simp add: n)
  then have "\<not> bit (unat v) n"
    by (simp add: bit_iff_odd)
  then show ?thesis
    by (metis bit_unsigned_iff bit_imp_le_length possible_bit_nat)
qed

lemma bit_bounded: "bit (v :: 'a::len word) n \<Longrightarrow> unat v < 2 ^ k \<Longrightarrow> n < k"
  using bit_high_zero [of v k n] by (simp add: linorder_not_le [symmetric]) blast

lemma drop_bit_eq_0: "unat (v :: 'a::len word) < 2 ^ k \<Longrightarrow> drop_bit k v = 0"
  by (rule bit_word_eqI) (auto simp: bit_simps dest: bit_bounded)

lemma unat_of_nat_u32: "n < 2 ^ 32 \<Longrightarrow> unat (of_nat n :: u32) = n"
  by (simp add: unat_of_nat take_bit_nat_eq_self)

lemma bit_u8: "bit (x :: u8) n \<Longrightarrow> n < 8"
  using bit_imp_le_length [of x n] by simp

lemma bit_u32: "bit (x :: u32) n \<Longrightarrow> n < 32"
  using bit_imp_le_length [of x n] by simp

lemma unat_u32: "unat (v :: u32) < 2 ^ 32"
  using unsigned_less [of v] by simp

lemma unat_u64: "unat (v :: u64) < 2 ^ 64"
  using unsigned_less [of v] by simp

lemma unat_ucast_u32 [simp]: "unat (ucast (v :: u32) :: u64) = unat v"
proof -
  have "unat v < 2 ^ 64" using unat_u32 [of v] by simp
  then show ?thesis by (simp only: unsigned_ucast_eq) (simp add: take_bit_nat_eq_self)
qed

lemma ucast_ucast_u32 [simp]: "ucast (ucast (v :: u32) :: u64) = v"
  by (rule bit_word_eqI) (auto simp: bit_simps)

lemma unat_of_nat_u64 [simp]: "n < 2 ^ 64 \<Longrightarrow> unat (of_nat n :: u64) = n"
  by (simp add: unat_of_nat take_bit_nat_eq_self)

lemma unat_ucast_of_nat: "n < 2 ^ 32 \<Longrightarrow> unat (ucast (of_nat n :: u64) :: u32) = n"
  by (simp add: unsigned_ucast_eq unat_of_nat take_bit_nat_eq_self)

end
