(* ===== verification/PbCommon.thy ===== *)
theory PbCommon
  imports Prelude
begin

text \<open>
  nanopb's field descriptors (\<open>pb.h\<close>) and the field iterator (\<open>pb_common.c\<close>), in the
  configuration the application builds (\<open>PB_FIELD_32BIT\<close>, no \<open>PB_ENABLE_MALLOC\<close>): \<open>pb_size_t\<close>
  is an unsigned 32-bit integer.

  A message descriptor is a C array of \<open>pb_field_t\<close> closed by \<open>PB_LAST_FIELD\<close>.  The model keeps
  the entries before the terminator in a list; \<open>field_at\<close> gives the terminator at and after the
  list's end.  The pointer member of an entry is null, a submessage's descriptor, or the bytes of
  a default value.
\<close>

section \<open>Field types\<close>

definition PB_LTYPE_VARINT :: u8 where [simp]: "PB_LTYPE_VARINT = 0x00"
definition PB_LTYPE_UVARINT :: u8 where [simp]: "PB_LTYPE_UVARINT = 0x01"
definition PB_LTYPE_SVARINT :: u8 where [simp]: "PB_LTYPE_SVARINT = 0x02"
definition PB_LTYPE_FIXED32 :: u8 where [simp]: "PB_LTYPE_FIXED32 = 0x03"
definition PB_LTYPE_FIXED64 :: u8 where [simp]: "PB_LTYPE_FIXED64 = 0x04"
definition PB_LTYPE_LAST_PACKABLE :: u8 where [simp]: "PB_LTYPE_LAST_PACKABLE = 0x04"
definition PB_LTYPE_BYTES :: u8 where [simp]: "PB_LTYPE_BYTES = 0x05"
definition PB_LTYPE_STRING :: u8 where [simp]: "PB_LTYPE_STRING = 0x06"
definition PB_LTYPE_SUBMESSAGE :: u8 where [simp]: "PB_LTYPE_SUBMESSAGE = 0x07"
definition PB_LTYPE_EXTENSION :: u8 where [simp]: "PB_LTYPE_EXTENSION = 0x08"
definition PB_LTYPE_FIXED_LENGTH_BYTES :: u8 where [simp]: "PB_LTYPE_FIXED_LENGTH_BYTES = 0x09"
definition PB_HTYPE_REQUIRED :: u8 where [simp]: "PB_HTYPE_REQUIRED = 0x00"
definition PB_HTYPE_OPTIONAL :: u8 where [simp]: "PB_HTYPE_OPTIONAL = 0x10"
definition PB_HTYPE_REPEATED :: u8 where [simp]: "PB_HTYPE_REPEATED = 0x20"
definition PB_HTYPE_ONEOF :: u8 where [simp]: "PB_HTYPE_ONEOF = 0x30"
definition PB_ATYPE_STATIC :: u8 where [simp]: "PB_ATYPE_STATIC = 0x00"
definition PB_ATYPE_POINTER :: u8 where [simp]: "PB_ATYPE_POINTER = 0x80"
definition PB_ATYPE_CALLBACK :: u8 where [simp]: "PB_ATYPE_CALLBACK = 0x40"

definition PB_ATYPE :: "u8 \<Rightarrow> u8" where "PB_ATYPE x = x AND 0xC0"
definition PB_HTYPE :: "u8 \<Rightarrow> u8" where "PB_HTYPE x = x AND 0x30"
definition PB_LTYPE :: "u8 \<Rightarrow> u8" where "PB_LTYPE x = x AND 0x0F"

definition PB_SIZE_MAX :: u32 where "PB_SIZE_MAX = -1"

text \<open>Wire types.  The decoder casts any value of three bits to the enumeration.\<close>

definition PB_WT_VARINT :: u32 where [simp]: "PB_WT_VARINT = 0"
definition PB_WT_64BIT :: u32 where [simp]: "PB_WT_64BIT = 1"
definition PB_WT_STRING :: u32 where [simp]: "PB_WT_STRING = 2"
definition PB_WT_32BIT :: u32 where [simp]: "PB_WT_32BIT = 5"

section \<open>Field descriptors\<close>

datatype pb_field =
  Pb_field (f_tag: u32) (f_type: u8) (f_data_offset: u32) (f_size_offset: "32 word")
    (f_data_size: u32) (f_array_size: u32) (f_ptr: pb_ptr)
and pb_ptr = NullPtr | SubmsgPtr "pb_field list" | DefaultPtr "u8 list"

definition PB_LAST_FIELD :: pb_field where
  "PB_LAST_FIELD = Pb_field 0 0 0 0 0 0 NullPtr"

definition field_at :: "pb_field list \<Rightarrow> nat \<Rightarrow> pb_field" where
  "field_at fs i = (if i < length fs then fs ! i else PB_LAST_FIELD)"

lemma field_at_simps [simp]:
  "field_at [] i = PB_LAST_FIELD"
  "field_at (f # fs) 0 = f"
  "field_at (f # fs) (Suc i) = field_at fs i"
  by (auto simp: field_at_def)

lemma PB_LAST_FIELD_sel [simp]:
  "f_tag PB_LAST_FIELD = 0" "f_type PB_LAST_FIELD = 0" "f_data_size PB_LAST_FIELD = 0"
  "f_data_offset PB_LAST_FIELD = 0" "f_size_offset PB_LAST_FIELD = 0" "f_ptr PB_LAST_FIELD = NullPtr"
  by (simp_all add: PB_LAST_FIELD_def)

section \<open>The field iterator\<close>

record pb_field_iter =
  it_start :: "pb_field list"
  it_pos :: nat
  it_required_field_index :: nat
  it_dest_struct :: addr
  it_pData :: addr
  it_pSize :: addr

definition it_field :: "pb_field_iter \<Rightarrow> pb_field" where
  "it_field iter = field_at (it_start iter) (it_pos iter)"

definition pb_field_iter_begin :: "pb_field list \<Rightarrow> addr \<Rightarrow> bool \<times> pb_field_iter" where
  "pb_field_iter_begin fs dest =
     (let f = field_at fs 0;
          pData = dest + uint (f_data_offset f)
      in (f_tag f \<noteq> 0,
          \<lparr>it_start = fs, it_pos = 0, it_required_field_index = 0, it_dest_struct = dest,
           it_pData = pData, it_pSize = pData + sint (f_size_offset f)\<rparr>))"

definition pb_field_iter_next :: "pb_field_iter \<Rightarrow> bool \<times> pb_field_iter" where
  "pb_field_iter_next iter =
     (let prev_field = it_field iter in
      if f_tag prev_field = 0 then (False, iter)
      else
        let cur = field_at (it_start iter) (it_pos iter + 1) in
        if f_tag cur = 0
        then (False, snd (pb_field_iter_begin (it_start iter) (it_dest_struct iter)))
        else if PB_HTYPE (f_type prev_field) = PB_HTYPE_ONEOF
              \<and> PB_HTYPE (f_type cur) = PB_HTYPE_ONEOF
              \<and> f_data_offset cur = PB_SIZE_MAX
        then (True, iter\<lparr>it_pos := it_pos iter + 1\<rparr>)
        else
          let prev_size =
                (if PB_ATYPE (f_type prev_field) = PB_ATYPE_STATIC
                    \<and> PB_HTYPE (f_type prev_field) = PB_HTYPE_REPEATED
                 then uint (f_data_size prev_field) * uint (f_array_size prev_field)
                 else if PB_ATYPE (f_type prev_field) = PB_ATYPE_POINTER then 8
                 else uint (f_data_size prev_field));
              req = (if PB_HTYPE (f_type prev_field) = PB_HTYPE_REQUIRED
                     then it_required_field_index iter + 1 else it_required_field_index iter);
              pData = it_pData iter + prev_size + uint (f_data_offset cur)
          in (True, iter\<lparr>it_pos := it_pos iter + 1, it_required_field_index := req,
                         it_pData := pData, it_pSize := pData + sint (f_size_offset cur)\<rparr>))"

lemma begin_sel [simp]:
  "it_start (snd (pb_field_iter_begin fs dest)) = fs"
  "it_pos (snd (pb_field_iter_begin fs dest)) = 0"
  "it_dest_struct (snd (pb_field_iter_begin fs dest)) = dest"
  "it_required_field_index (snd (pb_field_iter_begin fs dest)) = 0"
  "it_pData (snd (pb_field_iter_begin fs dest)) = dest + uint (f_data_offset (field_at fs 0))"
  "it_pSize (snd (pb_field_iter_begin fs dest)) =
     dest + uint (f_data_offset (field_at fs 0)) + sint (f_size_offset (field_at fs 0))"
  "fst (pb_field_iter_begin fs dest) \<longleftrightarrow> f_tag (field_at fs 0) \<noteq> 0"
  by (simp_all add: pb_field_iter_begin_def Let_def)

lemma next_start [simp]: "it_start (snd (pb_field_iter_next iter)) = it_start iter"
  by (simp add: pb_field_iter_next_def Let_def)

lemma next_dest [simp]: "it_dest_struct (snd (pb_field_iter_next iter)) = it_dest_struct iter"
  by (simp add: pb_field_iter_next_def Let_def)

text \<open>
  \<open>pb_field_iter_find\<close> and \<open>find_extension_field\<close> (of \<open>pb_decode.c\<close>) are the same
  \<open>do ... while (iter->pos != start)\<close> walk round the descriptor with different tests.
  \<open>None\<close> stands for a walk that never comes back to its first position.
\<close>

partial_function (option) iter_search_loop ::
    "(pb_field \<Rightarrow> bool) \<Rightarrow> nat \<Rightarrow> pb_field_iter \<Rightarrow> (bool \<times> pb_field_iter) option" where
  "iter_search_loop test start iter =
     (if test (it_field iter) then Some (True, iter)
      else
        let iter' = snd (pb_field_iter_next iter) in
        if it_pos iter' \<noteq> start then iter_search_loop test start iter'
        else Some (False, iter'))"

definition pb_field_iter_find :: "pb_field_iter \<Rightarrow> u32 \<Rightarrow> (bool \<times> pb_field_iter) option" where
  "pb_field_iter_find iter tag =
     iter_search_loop (\<lambda>f. f_tag f = tag \<and> PB_LTYPE (f_type f) \<noteq> PB_LTYPE_EXTENSION)
       (it_pos iter) iter"

definition find_extension_field :: "pb_field_iter \<Rightarrow> (bool \<times> pb_field_iter) option" where
  "find_extension_field iter =
     iter_search_loop (\<lambda>f. PB_LTYPE (f_type f) = PB_LTYPE_EXTENSION) (it_pos iter) iter"

section \<open>Loops over the fields, typed memory accesses\<close>

text \<open>\<open>do body while (pb_field_iter_next(&iter))\<close>, over all the fields from the iterator on.\<close>

lemma next_True_bound:
  "fst (pb_field_iter_next iter) \<Longrightarrow>
     it_pos (snd (pb_field_iter_next iter)) = Suc (it_pos iter) \<and>
     Suc (it_pos iter) < length (it_start iter)"
  by (auto simp: pb_field_iter_next_def Let_def field_at_def split: if_splits)

function iter_foreach ::
    "(pb_field_iter \<Rightarrow> 's \<Rightarrow> ('s, unit) res) \<Rightarrow> pb_field_iter \<Rightarrow> 's \<Rightarrow> ('s, unit) res" where
  "iter_foreach body iter s =
     bind_res (body iter s) (\<lambda>_ s.
       if fst (pb_field_iter_next iter)
       then iter_foreach body (snd (pb_field_iter_next iter)) s
       else Ok () s)"
  by pat_completeness auto
termination
  by (relation "measure (\<lambda>(body, iter, s). length (it_start iter) - it_pos iter)")
     (auto dest: next_True_bound)

declare iter_foreach.simps [simp del]

definition load32 :: "mem \<Rightarrow> addr \<Rightarrow> u32" where
  "load32 m a = le_word (load_bytes m a 4)"

definition store32 :: "mem \<Rightarrow> addr \<Rightarrow> u32 \<Rightarrow> mem" where
  "store32 m a v = store_bytes m a (le_bytes 4 v)"

definition load_ptr :: "mem \<Rightarrow> addr \<Rightarrow> addr" where
  "load_ptr m a = uint (le_word (load_bytes m a 8) :: u64)"

text \<open>\<open>offsetof(pb_bytes_array_t, bytes)\<close> is 4.\<close>

definition PB_BYTES_ARRAY_T_ALLOCSIZE :: "nat \<Rightarrow> nat" where
  "PB_BYTES_ARRAY_T_ALLOCSIZE n = (n + 4) mod 2 ^ 64"

lemma ALLOCSIZE_u32 [simp]: "PB_BYTES_ARRAY_T_ALLOCSIZE (unat (w :: u32)) = unat w + 4"
  using unat_u32 [of w] by (simp add: PB_BYTES_ARRAY_T_ALLOCSIZE_def)

section \<open>What the iterator visits\<close>

text \<open>The entries of a descriptor carry non-zero tags; the list stops before the terminator.\<close>

definition wf_fields :: "pb_field list \<Rightarrow> bool" where
  "wf_fields fs \<longleftrightarrow> (\<forall>f\<in>set fs. f_tag f \<noteq> 0)"

fun iter_at :: "pb_field list \<Rightarrow> addr \<Rightarrow> nat \<Rightarrow> pb_field_iter" where
  "iter_at fs dest 0 = snd (pb_field_iter_begin fs dest)"
| "iter_at fs dest (Suc i) = snd (pb_field_iter_next (iter_at fs dest i))"

lemma wf_fields_tag: "wf_fields fs \<Longrightarrow> f_tag (field_at fs i) = 0 \<longleftrightarrow> length fs \<le> i"
  by (auto simp: wf_fields_def field_at_def)

lemma iter_at_frame [simp]:
  "it_start (iter_at fs dest i) = fs" "it_dest_struct (iter_at fs dest i) = dest"
  by (induction i) simp_all

lemma iter_at_pos: "wf_fields fs \<Longrightarrow> i < length fs \<Longrightarrow> it_pos (iter_at fs dest i) = i"
proof (induction i)
  case (Suc i)
  then show ?case
    by (auto simp: pb_field_iter_next_def Let_def it_field_def wf_fields_tag)
qed simp

lemma iter_at_field: "wf_fields fs \<Longrightarrow> i < length fs \<Longrightarrow> it_field (iter_at fs dest i) = fs ! i"
  by (simp add: it_field_def iter_at_pos field_at_def)

lemma next_iter_at:
  assumes "wf_fields fs" and "i < length fs"
  shows "pb_field_iter_next (iter_at fs dest i) =
    (if Suc i < length fs then (True, iter_at fs dest (Suc i)) else (False, iter_at fs dest 0))"
proof -
  have "fst (pb_field_iter_next (iter_at fs dest i)) \<longleftrightarrow> Suc i < length fs"
    using assms by (auto simp: pb_field_iter_next_def Let_def it_field_def iter_at_pos wf_fields_tag)
  moreover have "snd (pb_field_iter_next (iter_at fs dest i)) = iter_at fs dest 0" if "\<not> Suc i < length fs"
    using assms that
    by (auto simp: pb_field_iter_next_def Let_def it_field_def iter_at_pos wf_fields_tag)
  ultimately show ?thesis
    by (auto simp: prod_eq_iff)
qed

declare iter_at.simps [simp del]

text \<open>
  The walk from position \<open>i\<close> tests the positions \<open>i, ..., n - 1, 0, ..., i - 1\<close> in this order and
  stops at the first that passes; when none passes the iterator is back where it was.
\<close>

lemma search_second_round:
  assumes "wf_fields fs" and "i < length fs" and "j < i"
  shows "iter_search_loop P i (iter_at fs dest j) =
    (case find (\<lambda>k. P (fs ! k)) [j..<i] of
       Some k \<Rightarrow> Some (True, iter_at fs dest k)
     | None \<Rightarrow> Some (False, iter_at fs dest i))"
  using assms(3)
proof (induction "i - j" arbitrary: j)
  case (Suc d)
  have j: "j < length fs" using Suc.prems assms(2) by simp
  note unfold = iter_search_loop.simps [of P i "iter_at fs dest j"]
  show ?case
  proof (cases "Suc j < i")
    case True
    have IH: "iter_search_loop P i (iter_at fs dest (Suc j)) =
        (case find (\<lambda>k. P (fs ! k)) [Suc j..<i] of
           Some k \<Rightarrow> Some (True, iter_at fs dest k)
         | None \<Rightarrow> Some (False, iter_at fs dest i))"
      by (rule Suc.hyps(1)) (use Suc.hyps(2) True in auto)
    show ?thesis
      using True assms j IH
      by (subst unfold) (simp add: iter_at_field next_iter_at iter_at_pos upt_conv_Cons)
  next
    case False
    then have i: "i = Suc j" using Suc.prems by simp
    show ?thesis
      using assms(1) assms(2)[unfolded i] j
      by (subst unfold) (simp add: i iter_at_field next_iter_at iter_at_pos)
  qed
qed simp

lemma search_first_round:
  assumes "wf_fields fs" and "i \<le> j" and "j < length fs"
  shows "iter_search_loop P i (iter_at fs dest j) =
    (case find (\<lambda>k. P (fs ! k)) ([j..<length fs] @ [0..<i]) of
       Some k \<Rightarrow> Some (True, iter_at fs dest k)
     | None \<Rightarrow> Some (False, iter_at fs dest i))"
  using assms(2,3)
proof (induction "length fs - j" arbitrary: j)
  case (Suc d)
  note unfold = iter_search_loop.simps [of P i "iter_at fs dest j"]
  have split: "[j..<length fs] = j # [Suc j..<length fs]"
    using Suc.prems by (simp add: upt_conv_Cons)
  show ?case
  proof (cases "Suc j < length fs")
    case True
    have IH: "iter_search_loop P i (iter_at fs dest (Suc j)) =
        (case find (\<lambda>k. P (fs ! k)) ([Suc j..<length fs] @ [0..<i]) of
           Some k \<Rightarrow> Some (True, iter_at fs dest k)
         | None \<Rightarrow> Some (False, iter_at fs dest i))"
      by (rule Suc.hyps(1)) (use Suc True in auto)
    show ?thesis
      using True assms Suc.prems IH
      by (subst unfold) (simp add: iter_at_field next_iter_at iter_at_pos split)
  next
    case False
    then have n: "length fs = Suc j" using Suc.prems by simp
    show ?thesis
      using assms Suc.prems search_second_round [of fs i 0 P dest]
      by (cases "i = 0"; subst unfold)
         (simp_all add: iter_at_field next_iter_at iter_at_pos split n Let_def)
  qed
qed simp

lemma search_iter_at:
  assumes "wf_fields fs" and "i < length fs"
  shows "iter_search_loop P (it_pos (iter_at fs dest i)) (iter_at fs dest i) =
    (case find (\<lambda>k. P (fs ! k)) ([i..<length fs] @ [0..<i]) of
       Some k \<Rightarrow> Some (True, iter_at fs dest k)
     | None \<Rightarrow> Some (False, iter_at fs dest i))"
  using search_first_round [of fs i i P dest] assms by (simp add: iter_at_pos)

section \<open>A descriptor for the witnesses\<close>

text \<open>
  A struct with a required integer, an optional string with its \<open>has_\<close> flag, a repeated zig-zag
  integer with its count, and a required submessage.
\<close>

definition sub_fields :: "pb_field list" where
  "sub_fields = [Pb_field 1 0x03 0 0 4 0 NullPtr]"

definition sample_fields :: "pb_field list" where
  "sample_fields =
     [Pb_field 1 0x01 0 0 4 0 NullPtr, Pb_field 2 0x16 1 (-1) 8 0 NullPtr,
      Pb_field 3 0x22 7 (-4) 4 3 NullPtr, Pb_field 4 0x07 0 0 4 0 (SubmsgPtr sub_fields)]"


end
