(* ===== verification/PbIStream.thy ===== *)
theory PbIStream
  imports PbCommon
begin

text \<open>
  Input streams and the wire-level readers of \<open>pb_decode.c\<close>: \<open>pb_read\<close>, varints, tags, the
  skipping of unknown fields and length-limited substreams.

  A stream is either a memory buffer (callback \<open>buf_read\<close>, the state is the rest of the buffer)
  or a custom stream: the user's callback is a function that takes its state and a byte count and
  tells whether it succeeded, its next state and the bytes it put into the buffer.  Reading past
  the end of a memory buffer is a \<open>Fault\<close>.
\<close>

section \<open>Streams\<close>

datatype 'u in_state = Buffer "u8 list" | UserState 'u

datatype 'u in_callback = BufRead | UserRead "'u \<Rightarrow> nat \<Rightarrow> bool \<times> 'u \<times> u8 list"

record 'u pb_istream =
  is_callback :: "'u in_callback"
  is_state :: "'u in_state"
  bytes_left :: nat
  is_errmsg :: "string option"

type_synonym ('u, 'a) reader = "'u pb_istream \<Rightarrow> ('u pb_istream, 'a) res"

text \<open>\<open>PB_SET_ERROR\<close> keeps the first message; \<open>PB_RETURN_ERROR\<close> also returns false.\<close>

definition PB_SET_ERROR :: "string \<Rightarrow> 'u pb_istream \<Rightarrow> 'u pb_istream" where
  "PB_SET_ERROR msg s =
     s\<lparr>is_errmsg := (case is_errmsg s of None \<Rightarrow> Some msg | Some e \<Rightarrow> Some e)\<rparr>"

definition PB_RETURN_ERROR :: "string \<Rightarrow> ('u, 'a) reader" where
  "PB_RETURN_ERROR msg s = Err (PB_SET_ERROR msg s)"

definition buf_read :: "nat \<Rightarrow> ('u, u8 list) reader" where
  "buf_read count s =
     (case is_state s of
        Buffer bs \<Rightarrow>
          if count \<le> length bs
          then Ok (take count bs) (s\<lparr>is_state := Buffer (drop count bs)\<rparr>)
          else Fault
      | UserState u \<Rightarrow> Fault)"

text \<open>The indirect call \<open>stream->callback(stream, buf, count)\<close>.\<close>

definition call_in_callback :: "nat \<Rightarrow> ('u, u8 list) reader" where
  "call_in_callback count s =
     (case is_callback s of
        BufRead \<Rightarrow> buf_read count s
      | UserRead f \<Rightarrow>
          (case is_state s of
             Buffer bs \<Rightarrow> Fault
           | UserState u \<Rightarrow>
               (case f u count of (ok, u', bs) \<Rightarrow>
                  if ok then Ok bs (s\<lparr>is_state := UserState u'\<rparr>)
                  else Err (s\<lparr>is_state := UserState u'\<rparr>))))"

text \<open>\<open>pb_read\<close> with a buffer to fill; the bytes it puts there are the result.\<close>

definition pb_read :: "nat \<Rightarrow> ('u, u8 list) reader" where
  "pb_read count s =
     (if bytes_left s < count then PB_RETURN_ERROR ''end-of-stream'' s
      else
        case call_in_callback count s of
          Ok bs s' \<Rightarrow> Ok bs (s'\<lparr>bytes_left := bytes_left s' - count\<rparr>)
        | Err s' \<Rightarrow> PB_RETURN_ERROR ''io error'' s'
        | Fault \<Rightarrow> Fault
        | Diverge \<Rightarrow> Diverge)"

text \<open>The loop of \<open>pb_read\<close> that skips the input of a custom stream in chunks of 16 bytes.\<close>

function pb_read_skip :: "nat \<Rightarrow> ('u, unit) reader" where
  "pb_read_skip count s =
     (if 16 < count then bind_res (pb_read 16 s) (\<lambda>_ s. pb_read_skip (count - 16) s)
      else bind_res (pb_read count s) (\<lambda>_ s. Ok () s))"
  by pat_completeness auto
termination
  by (relation "measure fst") auto

declare pb_read_skip.simps [simp del]

text \<open>\<open>pb_read\<close> with a null buffer.\<close>

definition pb_read_null :: "nat \<Rightarrow> ('u, unit) reader" where
  "pb_read_null count s =
     (case is_callback s of
        UserRead f \<Rightarrow> pb_read_skip count s
      | BufRead \<Rightarrow> bind_res (pb_read count s) (\<lambda>_ s. Ok () s))"

definition pb_readbyte :: "('u, u8) reader" where
  "pb_readbyte s =
     (if bytes_left s = 0 then PB_RETURN_ERROR ''end-of-stream'' s
      else
        case call_in_callback 1 s of
          Ok bs s' \<Rightarrow>
            (case bs of
               [] \<Rightarrow> Fault
             | b # _ \<Rightarrow> Ok b (s'\<lparr>bytes_left := bytes_left s' - 1\<rparr>))
        | Err s' \<Rightarrow> PB_RETURN_ERROR ''io error'' s'
        | Fault \<Rightarrow> Fault
        | Diverge \<Rightarrow> Diverge)"

definition pb_istream_from_buffer :: "u8 list \<Rightarrow> nat \<Rightarrow> 'u pb_istream" where
  "pb_istream_from_buffer buf bufsize =
     \<lparr>is_callback = BufRead, is_state = Buffer buf, bytes_left = bufsize, is_errmsg = None\<rparr>"

section \<open>Varints, tags, skipping\<close>

function pb_decode_varint32_loop :: "nat \<Rightarrow> u32 \<Rightarrow> ('u, u32) reader" where
  "pb_decode_varint32_loop bitpos result s =
     (if 32 \<le> bitpos then PB_RETURN_ERROR ''varint overflow'' s
      else bind_res (pb_readbyte s) (\<lambda>byte s.
        let result' = result OR push_bit bitpos (ucast (byte AND 0x7F));
            bitpos' = (bitpos + 7) mod 256
        in if byte AND 0x80 \<noteq> 0 then pb_decode_varint32_loop bitpos' result' s
           else Ok result' s))"
  by pat_completeness auto
termination
  by (relation "measure (\<lambda>(bitpos, result, s). 32 - bitpos)") auto

declare pb_decode_varint32_loop.simps [simp del]

definition pb_decode_varint32 :: "('u, u32) reader" where
  "pb_decode_varint32 s =
     bind_res (pb_readbyte s) (\<lambda>byte s.
       if byte AND 0x80 = 0 then Ok (ucast byte) s
       else pb_decode_varint32_loop 7 (ucast (byte AND 0x7F)) s)"

function pb_decode_varint_loop :: "nat \<Rightarrow> u64 \<Rightarrow> ('u, u64) reader" where
  "pb_decode_varint_loop bitpos result s =
     (if 64 \<le> bitpos then PB_RETURN_ERROR ''varint overflow'' s
      else bind_res (pb_readbyte s) (\<lambda>byte s.
        let result' = result OR push_bit bitpos (ucast (byte AND 0x7F));
            bitpos' = (bitpos + 7) mod 256
        in if byte AND 0x80 \<noteq> 0 then pb_decode_varint_loop bitpos' result' s
           else Ok result' s))"
  by pat_completeness auto
termination
  by (relation "measure (\<lambda>(bitpos, result, s). 64 - bitpos)") auto

declare pb_decode_varint_loop.simps [simp del]

definition pb_decode_varint :: "('u, u64) reader" where
  "pb_decode_varint s = pb_decode_varint_loop 0 0 s"

lemma call_in_callback_bytes_left:
  "call_in_callback n s = Ok bs s' \<Longrightarrow> bytes_left s' = bytes_left s"
  by (auto simp: call_in_callback_def buf_read_def
      split: in_callback.splits in_state.splits prod.splits if_splits)

lemma pb_read_bytes_left:
  "pb_read n s = Ok bs s' \<Longrightarrow> n \<le> bytes_left s \<and> bytes_left s' = bytes_left s - n"
  by (auto simp: pb_read_def PB_RETURN_ERROR_def split: if_splits res.splits
      dest: call_in_callback_bytes_left)

function pb_skip_varint :: "('u, unit) reader" where
  "pb_skip_varint s =
     bind_res (pb_read 1 s) (\<lambda>bs s.
       case bs of
         [] \<Rightarrow> Fault
       | byte # _ \<Rightarrow> if byte AND 0x80 \<noteq> 0 then pb_skip_varint s else Ok () s)"
  by pat_completeness auto
termination
  by (relation "measure bytes_left") (auto dest: pb_read_bytes_left)

declare pb_skip_varint.simps [simp del]

definition pb_skip_string :: "('u, unit) reader" where
  "pb_skip_string s =
     bind_res (pb_decode_varint32 s) (\<lambda>length s. pb_read_null (unat length) s)"

text \<open>
  \<open>pb_decode_tag\<close> has a result on both ways out: the wire type and the tag when it returns true,
  the end-of-message flag when it returns false.
\<close>

datatype 'u tag_result = Tag u32 u32 "'u pb_istream" | NoTag bool "'u pb_istream"
  | TagFault | TagDiverge

definition pb_decode_tag :: "'u pb_istream \<Rightarrow> 'u tag_result" where
  "pb_decode_tag s =
     (case pb_decode_varint32 s of
        Err s' \<Rightarrow> NoTag (bytes_left s' = 0) s'
      | Ok temp s' \<Rightarrow>
          if temp = 0 then NoTag True s'
          else Tag (temp AND 7) (drop_bit 3 temp) s'
      | Fault \<Rightarrow> TagFault
      | Diverge \<Rightarrow> TagDiverge)"

definition pb_skip_field :: "u32 \<Rightarrow> ('u, unit) reader" where
  "pb_skip_field wire_type s =
     (if wire_type = PB_WT_VARINT then pb_skip_varint s
      else if wire_type = PB_WT_64BIT then pb_read_null 8 s
      else if wire_type = PB_WT_STRING then pb_skip_string s
      else if wire_type = PB_WT_32BIT then pb_read_null 4 s
      else PB_RETURN_ERROR ''invalid wire_type'' s)"

text \<open>
  \<open>read_raw_value\<close>: the bytes stored in the caller's buffer, whose number is the final
  \<open>*size\<close>.  \<open>max_size\<close> is the buffer's size.
\<close>

function read_raw_varint :: "nat \<Rightarrow> u8 list \<Rightarrow> ('u, u8 list) reader" where
  "read_raw_varint max_size acc s =
     (if max_size < length acc + 1 then Err s
      else bind_res (pb_read 1 s) (\<lambda>bs s.
        case bs of
          [] \<Rightarrow> Fault
        | byte # _ \<Rightarrow>
            if byte AND 0x80 \<noteq> 0 then read_raw_varint max_size (acc @ [byte]) s
            else Ok (acc @ [byte]) s))"
  by pat_completeness auto
termination
  by (relation "measure (\<lambda>(max_size, acc, s). bytes_left s)") (auto dest: pb_read_bytes_left)

declare read_raw_varint.simps [simp del]

definition read_raw_value :: "u32 \<Rightarrow> nat \<Rightarrow> ('u, u8 list) reader" where
  "read_raw_value wire_type max_size s =
     (if wire_type = PB_WT_VARINT then read_raw_varint max_size [] s
      else if wire_type = PB_WT_64BIT then pb_read 8 s
      else if wire_type = PB_WT_32BIT then pb_read 4 s
      else PB_RETURN_ERROR ''invalid wire_type'' s)"

section \<open>Substreams\<close>

text \<open>The result is the substream; the state is the parent stream.\<close>

definition pb_make_string_substream :: "('u, 'u pb_istream) reader" where
  "pb_make_string_substream s =
     bind_res (pb_decode_varint32 s) (\<lambda>size s.
       if bytes_left s < unat size then PB_RETURN_ERROR ''parent stream too short'' s
       else Ok (s\<lparr>bytes_left := unat size\<rparr>) (s\<lparr>bytes_left := bytes_left s - unat size\<rparr>))"

definition pb_close_string_substream :: "'u pb_istream \<Rightarrow> ('u, unit) reader" where
  "pb_close_string_substream substream s =
     (case (if bytes_left substream \<noteq> 0
            then pb_read_null (bytes_left substream) substream
            else Ok () substream) of
        Ok _ sub \<Rightarrow> Ok () (s\<lparr>is_state := is_state sub, is_errmsg := is_errmsg sub\<rparr>)
      | Err sub \<Rightarrow> Err s
      | Fault \<Rightarrow> Fault
      | Diverge \<Rightarrow> Diverge)"

section \<open>Fixed-width and zig-zag readers\<close>

definition pb_decode_svarint :: "('u, 64 word) reader" where
  "pb_decode_svarint s =
     bind_res (pb_decode_varint s) (\<lambda>value s.
       if value AND 1 \<noteq> 0 then Ok (NOT (drop_bit 1 value)) s else Ok (drop_bit 1 value) s)"

text \<open>
  The fixed-width readers assemble the value byte by byte; the missing bytes of a callback that
  delivered fewer than it was asked for are a \<open>Fault\<close>.
\<close>

definition pb_decode_fixed32 :: "('u, u32) reader" where
  "pb_decode_fixed32 s =
     bind_res (pb_read 4 s) (\<lambda>bytes s.
       if length bytes < 4 then Fault
       else Ok (push_bit 0 (ucast (bytes ! 0)) OR push_bit 8 (ucast (bytes ! 1)) OR
                push_bit 16 (ucast (bytes ! 2)) OR push_bit 24 (ucast (bytes ! 3))) s)"

definition pb_decode_fixed64 :: "('u, u64) reader" where
  "pb_decode_fixed64 s =
     bind_res (pb_read 8 s) (\<lambda>bytes s.
       if length bytes < 8 then Fault
       else Ok (push_bit 0 (ucast (bytes ! 0)) OR push_bit 8 (ucast (bytes ! 1)) OR
                push_bit 16 (ucast (bytes ! 2)) OR push_bit 24 (ucast (bytes ! 3)) OR
                push_bit 32 (ucast (bytes ! 4)) OR push_bit 40 (ucast (bytes ! 5)) OR
                push_bit 48 (ucast (bytes ! 6)) OR push_bit 56 (ucast (bytes ! 7))) s)"

section \<open>Buffer streams\<close>

text \<open>
  A buffer stream is known by its error message, the bytes it may still deliver and what follows
  them in memory (the parent's bytes, when it is a substream).  The readers are rewritten on this
  form.
\<close>

definition bufs :: "string option \<Rightarrow> u8 list \<Rightarrow> u8 list \<Rightarrow> 'u pb_istream" where
  "bufs e bs rest =
     \<lparr>is_callback = BufRead, is_state = Buffer (bs @ rest), bytes_left = length bs, is_errmsg = e\<rparr>"

definition first_error :: "string option \<Rightarrow> string \<Rightarrow> string option" where
  "first_error e msg = (case e of None \<Rightarrow> Some msg | Some m \<Rightarrow> Some m)"

named_theorems stream_simps \<open>the readers on buffer streams\<close>

lemma bufs_sel [simp]:
  "is_callback (bufs e bs rest) = BufRead"
  "is_state (bufs e bs rest) = Buffer (bs @ rest)"
  "bytes_left (bufs e bs rest) = length bs"
  "is_errmsg (bufs e bs rest) = e"
  by (simp_all add: bufs_def)

lemma from_buffer_bufs:
  "n \<le> length buf \<Longrightarrow> pb_istream_from_buffer buf n = bufs None (take n buf) (drop n buf)"
  by (simp add: pb_istream_from_buffer_def bufs_def)

lemma set_error_bufs [stream_simps]: "PB_SET_ERROR msg (bufs e bs rest) = bufs (first_error e msg) bs rest"
  by (simp add: PB_SET_ERROR_def bufs_def first_error_def)

lemma return_error_bufs [stream_simps]:
  "PB_RETURN_ERROR msg (bufs e bs rest) = Err (bufs (first_error e msg) bs rest)"
  by (simp add: PB_RETURN_ERROR_def set_error_bufs)

lemma pb_read_bufs [stream_simps]:
  "pb_read n (bufs e bs rest) =
     (if n \<le> length bs then Ok (take n bs) (bufs e (drop n bs) rest)
      else Err (bufs (first_error e ''end-of-stream'') bs rest))"
  by (simp add: pb_read_def call_in_callback_def buf_read_def bufs_def PB_RETURN_ERROR_def
      PB_SET_ERROR_def first_error_def)

lemma pb_read_null_bufs [stream_simps]:
  "pb_read_null n (bufs e bs rest) =
     (if n \<le> length bs then Ok () (bufs e (drop n bs) rest)
      else Err (bufs (first_error e ''end-of-stream'') bs rest))"
  by (simp add: pb_read_null_def pb_read_bufs)

lemma pb_readbyte_Cons [stream_simps]: "pb_readbyte (bufs e (b # bs) rest) = Ok b (bufs e bs rest)"
  by (simp add: pb_readbyte_def call_in_callback_def buf_read_def bufs_def)

lemma pb_readbyte_Nil [stream_simps]:
  "pb_readbyte (bufs e [] rest) = Err (bufs (first_error e ''end-of-stream'') [] rest)"
  by (simp add: pb_readbyte_def return_error_bufs)

end
