(* ===== verification/PbDecode.thy ===== *)
theory PbDecode
  imports PbIStream
begin

text \<open>
  The field and message decoders of \<open>pb_decode.c\<close>.  The message struct lives in byte-addressed
  memory and is reached through the iterator's \<open>pData\<close> and \<open>pSize\<close> pointers, as in the code.

  User code enters as an environment: the decode callbacks a function pointer in the struct may
  name, and the extension types a pointer in a \<open>pb_extension_t\<close> may name.  Recursion (submessages)
  and the loops that user code can keep alive run on fuel; \<open>Diverge\<close> is fuel that ran out.
\<close>

section \<open>Decoding state, typed memory accesses, user code\<close>

type_synonym 'u dstate = "'u pb_istream \<times> mem"
type_synonym ('u, 'a) decoder = "'u dstate \<Rightarrow> ('u dstate, 'a) res"

definition on_stream :: "('u, 'a) reader \<Rightarrow> ('u, 'a) decoder" where
  "on_stream r st = map_state (\<lambda>s'. (s', snd st)) (r (fst st))"

definition dec_error :: "string \<Rightarrow> ('u, 'a) decoder" where
  "dec_error msg st = Err (PB_SET_ERROR msg (fst st), snd st)"

record 'u pb_extension_type =
  ext_decode :: "(addr \<Rightarrow> u32 \<Rightarrow> u32 \<Rightarrow> ('u, unit) decoder) option"
  ext_arg :: "pb_field list"

record 'u pb_env =
  env_decode_callback :: "addr \<Rightarrow> pb_field \<Rightarrow> addr \<Rightarrow> ('u, unit) decoder"
  env_ext_type :: "addr \<Rightarrow> 'u pb_extension_type"

text \<open>Layout of \<open>pb_extension_t\<close>: \<open>type\<close>, \<open>dest\<close>, \<open>next\<close>, \<open>found\<close>; of \<open>pb_callback_t\<close>: the
  function pointer, then \<open>arg\<close>.\<close>

definition ext_dest_off :: addr where [simp]: "ext_dest_off = 8"
definition ext_next_off :: addr where [simp]: "ext_next_off = 16"
definition ext_found_off :: addr where [simp]: "ext_found_off = 24"
definition callback_arg_off :: addr where [simp]: "callback_arg_off = 8"

section \<open>Decoders of single values\<close>

definition pb_dec_varint :: "pb_field \<Rightarrow> addr \<Rightarrow> ('u, unit) decoder" where
  "pb_dec_varint field dest st =
     bind_res (on_stream pb_decode_varint st) (\<lambda>value st.
       let size = f_data_size field;
           svalue = (if size = 8 then value else scast (ucast value :: 32 word)) :: 64 word;
           finish = (\<lambda>clamped m'.
             if clamped \<noteq> svalue then dec_error ''integer too large'' (fst st, m')
             else Ok () (fst st, m'))
       in if size = 8 then finish svalue (store_bytes (snd st) dest (le_bytes 8 svalue))
          else if size = 4
          then finish (scast (ucast svalue :: 32 word)) (store_bytes (snd st) dest (le_bytes 4 svalue))
          else if size = 2
          then finish (scast (ucast svalue :: 16 word)) (store_bytes (snd st) dest (le_bytes 2 svalue))
          else if size = 1
          then finish (scast (ucast svalue :: 8 word)) (store_bytes (snd st) dest (le_bytes 1 svalue))
          else dec_error ''invalid data_size'' st)"

definition pb_dec_uvarint :: "pb_field \<Rightarrow> addr \<Rightarrow> ('u, unit) decoder" where
  "pb_dec_uvarint field dest st =
     bind_res (on_stream pb_decode_varint st) (\<lambda>value st.
       let size = f_data_size field;
           finish = (\<lambda>clamped m'.
             if clamped \<noteq> value then dec_error ''integer too large'' (fst st, m')
             else Ok () (fst st, m'))
       in if size = 8 then finish value (store_bytes (snd st) dest (le_bytes 8 value))
          else if size = 4
          then finish (ucast (ucast value :: 32 word)) (store_bytes (snd st) dest (le_bytes 4 value))
          else if size = 2
          then finish (ucast (ucast value :: 16 word)) (store_bytes (snd st) dest (le_bytes 2 value))
          else if size = 1
          then finish (ucast (ucast value :: 8 word)) (store_bytes (snd st) dest (le_bytes 1 value))
          else dec_error ''invalid data_size'' st)"

definition pb_dec_svarint :: "pb_field \<Rightarrow> addr \<Rightarrow> ('u, unit) decoder" where
  "pb_dec_svarint field dest st =
     bind_res (on_stream pb_decode_svarint st) (\<lambda>value st.
       let size = f_data_size field;
           finish = (\<lambda>clamped m'.
             if clamped \<noteq> value then dec_error ''integer too large'' (fst st, m')
             else Ok () (fst st, m'))
       in if size = 8 then finish value (store_bytes (snd st) dest (le_bytes 8 value))
          else if size = 4
          then finish (scast (ucast value :: 32 word)) (store_bytes (snd st) dest (le_bytes 4 value))
          else if size = 2
          then finish (scast (ucast value :: 16 word)) (store_bytes (snd st) dest (le_bytes 2 value))
          else if size = 1
          then finish (scast (ucast value :: 8 word)) (store_bytes (snd st) dest (le_bytes 1 value))
          else dec_error ''invalid data_size'' st)"

definition pb_dec_fixed32 :: "pb_field \<Rightarrow> addr \<Rightarrow> ('u, unit) decoder" where
  "pb_dec_fixed32 field dest st =
     bind_res (on_stream pb_decode_fixed32 st) (\<lambda>value st.
       Ok () (fst st, store_bytes (snd st) dest (le_bytes 4 value)))"

definition pb_dec_fixed64 :: "pb_field \<Rightarrow> addr \<Rightarrow> ('u, unit) decoder" where
  "pb_dec_fixed64 field dest st =
     bind_res (on_stream pb_decode_fixed64 st) (\<lambda>value st.
       Ok () (fst st, store_bytes (snd st) dest (le_bytes 8 value)))"

text \<open>\<open>pb_read(stream, dest, count)\<close> with the destination in the message struct.\<close>

definition pb_read_to :: "addr \<Rightarrow> nat \<Rightarrow> ('u, unit) decoder" where
  "pb_read_to dest count st =
     bind_res (on_stream (pb_read count) st) (\<lambda>bs st. Ok () (fst st, store_bytes (snd st) dest bs))"

definition pb_dec_bytes :: "pb_field \<Rightarrow> addr \<Rightarrow> ('u, unit) decoder" where
  "pb_dec_bytes field dest st =
     bind_res (on_stream pb_decode_varint32 st) (\<lambda>size st.
       if PB_SIZE_MAX < size then dec_error ''bytes overflow'' st
       else
         let alloc_size = PB_BYTES_ARRAY_T_ALLOCSIZE (unat size) in
         if alloc_size < unat size then dec_error ''size too large'' st
         else if PB_ATYPE (f_type field) = PB_ATYPE_POINTER
         then dec_error ''no malloc support'' st
         else if unat (f_data_size field) < alloc_size then dec_error ''bytes overflow'' st
         else pb_read_to (dest + 4) (unat size) (fst st, store32 (snd st) dest size))"

definition pb_dec_string :: "pb_field \<Rightarrow> addr \<Rightarrow> ('u, unit) decoder" where
  "pb_dec_string field dest st =
     bind_res (on_stream pb_decode_varint32 st) (\<lambda>size st.
       let alloc_size = unat (size + 1) in
       if alloc_size < unat size then dec_error ''size too large'' st
       else if PB_ATYPE (f_type field) = PB_ATYPE_POINTER
       then dec_error ''no malloc support'' st
       else if unat (f_data_size field) < alloc_size then dec_error ''string overflow'' st
       else map_state (\<lambda>(s, m). (s, m(dest + uint size := 0))) (pb_read_to dest (unat size) st))"

definition pb_dec_fixed_length_bytes :: "pb_field \<Rightarrow> addr \<Rightarrow> ('u, unit) decoder" where
  "pb_dec_fixed_length_bytes field dest st =
     bind_res (on_stream pb_decode_varint32 st) (\<lambda>size st.
       if PB_SIZE_MAX < size then dec_error ''bytes overflow'' st
       else if size = 0
       then Ok () (fst st, store_bytes (snd st) dest (replicate (unat (f_data_size field)) 0))
       else if size \<noteq> f_data_size field
       then dec_error ''incorrect fixed length bytes size'' st
       else pb_read_to dest (unat (f_data_size field)) st)"

text \<open>
  The recursive call into a submessage: \<open>rec True\<close> is \<open>pb_decode\<close>, \<open>rec False\<close> is
  \<open>pb_decode_noinit\<close>, both with what is left of the fuel.
\<close>

type_synonym 'u submsg_rec = "bool \<Rightarrow> pb_field list \<Rightarrow> addr \<Rightarrow> ('u, unit) decoder"

text \<open>\<open>close_after sub status st\<close>: close the substream and return \<open>status\<close>.\<close>

definition close_after :: "'u pb_istream \<Rightarrow> bool \<Rightarrow> ('u, unit) decoder" where
  "close_after substream status st =
     bind_res (on_stream (pb_close_string_substream substream) st) (\<lambda>_ st.
       if status then Ok () st else Err st)"

definition pb_dec_submessage :: "'u submsg_rec \<Rightarrow> pb_field \<Rightarrow> addr \<Rightarrow> ('u, unit) decoder" where
  "pb_dec_submessage rec field dest st =
     bind_res (on_stream pb_make_string_substream st) (\<lambda>substream st.
       case f_ptr field of
         NullPtr \<Rightarrow> dec_error ''invalid field descriptor'' st
       | DefaultPtr _ \<Rightarrow> Fault
       | SubmsgPtr submsg_fields \<Rightarrow>
           (case rec (PB_HTYPE (f_type field) = PB_HTYPE_REPEATED) submsg_fields dest
                   (substream, snd st) of
              Ok _ (sub, m') \<Rightarrow> close_after sub True (fst st, m')
            | Err (sub, m') \<Rightarrow> close_after sub False (fst st, m')
            | Fault \<Rightarrow> Fault
            | Diverge \<Rightarrow> Diverge))"

text \<open>
  \<open>PB_DECODERS[PB_LTYPE(type)]\<close>, called: the table has ten entries, the one for extensions is
  null.
\<close>

definition PB_DECODERS :: "'u submsg_rec \<Rightarrow> u8 \<Rightarrow> pb_field \<Rightarrow> addr \<Rightarrow> ('u, unit) decoder" where
  "PB_DECODERS rec ltype field dest st =
     (if ltype = PB_LTYPE_VARINT then pb_dec_varint field dest st
      else if ltype = PB_LTYPE_UVARINT then pb_dec_uvarint field dest st
      else if ltype = PB_LTYPE_SVARINT then pb_dec_svarint field dest st
      else if ltype = PB_LTYPE_FIXED32 then pb_dec_fixed32 field dest st
      else if ltype = PB_LTYPE_FIXED64 then pb_dec_fixed64 field dest st
      else if ltype = PB_LTYPE_BYTES then pb_dec_bytes field dest st
      else if ltype = PB_LTYPE_STRING then pb_dec_string field dest st
      else if ltype = PB_LTYPE_SUBMESSAGE then pb_dec_submessage rec field dest st
      else if ltype = PB_LTYPE_FIXED_LENGTH_BYTES then pb_dec_fixed_length_bytes field dest st
      else Fault)"

section \<open>Default values\<close>

text \<open>The iterator \<open>iter_from_extension\<close> fakes for the extension at address \<open>ext\<close>.\<close>

definition iter_from_extension :: "'u pb_env \<Rightarrow> mem \<Rightarrow> addr \<Rightarrow> pb_field_iter" where
  "iter_from_extension env m ext =
     (let field = ext_arg (env_ext_type env (load_ptr m ext));
          dest = load_ptr m (ext + ext_dest_off);
          iter = snd (pb_field_iter_begin field dest)
      in iter\<lparr>it_pData := (if PB_ATYPE (f_type (field_at field 0)) = PB_ATYPE_POINTER
                           then ext + ext_dest_off else dest),
              it_pSize := ext + ext_found_off\<rparr>)"

text \<open>The loop over the linked list of extensions in \<open>pb_field_set_to_default\<close>.\<close>

fun set_extensions_to_default ::
    "nat \<Rightarrow> (pb_field_iter \<Rightarrow> mem \<Rightarrow> (mem, unit) res) \<Rightarrow> 'u pb_env \<Rightarrow> addr \<Rightarrow> mem \<Rightarrow> (mem, unit) res"
  where
  "set_extensions_to_default 0 field_rec env ext m = Diverge"
| "set_extensions_to_default (Suc k) field_rec env ext m =
     (if ext = NULL then Ok () m
      else
        let m = m(ext + ext_found_off := 0) in
        bind_res (field_rec (iter_from_extension env m ext) m) (\<lambda>_ m.
          set_extensions_to_default k field_rec env (load_ptr m (ext + ext_next_off)) m))"

text \<open>\<open>pb_message_set_to_defaults\<close>, over the function that sets one field.\<close>

definition pb_message_set_to_defaults ::
    "(pb_field_iter \<Rightarrow> mem \<Rightarrow> (mem, unit) res) \<Rightarrow> pb_field list \<Rightarrow> addr \<Rightarrow> mem \<Rightarrow> (mem, unit) res"
  where
  "pb_message_set_to_defaults field_rec fs dest m =
     (if fst (pb_field_iter_begin fs dest)
      then iter_foreach field_rec (snd (pb_field_iter_begin fs dest)) m
      else Ok () m)"

definition field_default_body ::
    "(pb_field_iter \<Rightarrow> mem \<Rightarrow> (mem, unit) res) \<Rightarrow> nat \<Rightarrow> 'u pb_env \<Rightarrow> pb_field_iter \<Rightarrow> mem
       \<Rightarrow> (mem, unit) res" where
  "field_default_body field_rec fuel env iter m =
     (let f = it_field iter; type = f_type f; pData = it_pData iter; pSize = it_pSize iter in
      if PB_LTYPE type = PB_LTYPE_EXTENSION
      then set_extensions_to_default fuel field_rec env (load_ptr m pData) m
      else if PB_ATYPE type = PB_ATYPE_STATIC
      then
        let no_data = PB_HTYPE type = PB_HTYPE_REPEATED \<or> PB_HTYPE type = PB_HTYPE_ONEOF;
            m = (if PB_HTYPE type = PB_HTYPE_OPTIONAL \<and> pSize \<noteq> pData then m(pSize := 0)
                 else if no_data then store32 m pSize 0
                 else m)
        in if no_data then Ok () m
           else if PB_LTYPE type = PB_LTYPE_SUBMESSAGE
           then (case f_ptr f of
                   SubmsgPtr fs \<Rightarrow> pb_message_set_to_defaults field_rec fs pData m
                 | _ \<Rightarrow> Fault)
           else (case f_ptr f of
                   DefaultPtr bs \<Rightarrow>
                     if unat (f_data_size f) \<le> length bs
                     then Ok () (store_bytes m pData (take (unat (f_data_size f)) bs)) else Fault
                 | NullPtr \<Rightarrow> Ok () (store_bytes m pData (replicate (unat (f_data_size f)) 0))
                 | SubmsgPtr _ \<Rightarrow> Fault)
      else if PB_ATYPE type = PB_ATYPE_POINTER
      then
        let m = store_bytes m pData (replicate 8 0)
        in if PB_HTYPE type = PB_HTYPE_REPEATED \<or> PB_HTYPE type = PB_HTYPE_ONEOF
           then Ok () (store32 m pSize 0) else Ok () m
      else Ok () m)"

primrec pb_field_set_to_default ::
    "nat \<Rightarrow> 'u pb_env \<Rightarrow> pb_field_iter \<Rightarrow> mem \<Rightarrow> (mem, unit) res" where
  "pb_field_set_to_default 0 = (\<lambda>env iter m. Diverge)"
| "pb_field_set_to_default (Suc fuel) =
     (\<lambda>env iter m. field_default_body (pb_field_set_to_default fuel env) fuel env iter m)"

section \<open>Decoding one field\<close>

text \<open>The while loop over the entries of a packed array; the result is \<open>status\<close>.\<close>

fun decode_packed_loop ::
    "nat \<Rightarrow> (pb_field \<Rightarrow> addr \<Rightarrow> ('u, unit) decoder) \<Rightarrow> pb_field_iter \<Rightarrow> 'u dstate \<Rightarrow>
       ('u dstate, bool) res" where
  "decode_packed_loop 0 func iter st = Diverge"
| "decode_packed_loop (Suc k) func iter (sub, m) =
     (let f = it_field iter; count = load32 m (it_pSize iter) in
      if 0 < bytes_left sub \<and> count < f_array_size f
      then
        (case func f (it_pData iter + uint (f_data_size f * count)) (sub, m) of
           Ok _ (sub', m') \<Rightarrow>
             decode_packed_loop k func iter
               (sub', store32 m' (it_pSize iter) (load32 m' (it_pSize iter) + 1))
         | Err st' \<Rightarrow> Ok False st'
         | Fault \<Rightarrow> Fault
         | Diverge \<Rightarrow> Diverge)
      else Ok True (sub, m))"

definition decode_static_field ::
    "'u submsg_rec \<Rightarrow> nat \<Rightarrow> 'u pb_env \<Rightarrow> u32 \<Rightarrow> pb_field_iter \<Rightarrow> ('u, unit) decoder" where
  "decode_static_field rec fuel env wire_type iter st =
     (let f = it_field iter; type = f_type f; func = PB_DECODERS rec (PB_LTYPE type);
          pData = it_pData iter; pSize = it_pSize iter in
      if 10 \<le> PB_LTYPE type then Fault
      else if PB_HTYPE type = PB_HTYPE_REQUIRED then func f pData st
      else if PB_HTYPE type = PB_HTYPE_OPTIONAL
      then func f pData (if pSize \<noteq> pData then (fst st, (snd st)(pSize := 1)) else st)
      else if PB_HTYPE type = PB_HTYPE_REPEATED
      then
        if wire_type = PB_WT_STRING \<and> PB_LTYPE type \<le> PB_LTYPE_LAST_PACKABLE
        then
          bind_res (on_stream pb_make_string_substream st) (\<lambda>substream st.
            case decode_packed_loop fuel func iter (substream, snd st) of
              Ok status (sub, m') \<Rightarrow>
                if bytes_left sub \<noteq> 0 then dec_error ''array overflow'' (fst st, m')
                else close_after sub status (fst st, m')
            | Err _ \<Rightarrow> Fault
            | Fault \<Rightarrow> Fault
            | Diverge \<Rightarrow> Diverge)
        else
          let count = load32 (snd st) pSize in
          if f_array_size f \<le> count then dec_error ''array overflow'' st
          else func f (pData + uint (f_data_size f * count))
                 (fst st, store32 (snd st) pSize (count + 1))
      else
        let m = store32 (snd st) pSize (f_tag f) in
        if PB_LTYPE type = PB_LTYPE_SUBMESSAGE
        then
          (case f_ptr f of
             SubmsgPtr fs \<Rightarrow>
               (case pb_message_set_to_defaults (pb_field_set_to_default fuel env) fs pData
                       (store_bytes m pData (replicate (unat (f_data_size f)) 0)) of
                  Ok _ m' \<Rightarrow> func f pData (fst st, m')
                | Err m' \<Rightarrow> Fault
                | Fault \<Rightarrow> Fault
                | Diverge \<Rightarrow> Diverge)
           | _ \<Rightarrow> Fault)
        else func f pData (fst st, m))"

text \<open>Pointer fields need \<open>PB_ENABLE_MALLOC\<close>, which the application does not define.\<close>

definition decode_pointer_field :: "u32 \<Rightarrow> pb_field_iter \<Rightarrow> ('u, unit) decoder" where
  "decode_pointer_field wire_type iter st = dec_error ''no malloc support'' st"

text \<open>The loop that calls the user's callback until the substream is used up.\<close>

fun decode_callback_loop ::
    "nat \<Rightarrow> ('u, unit) decoder \<Rightarrow> 'u dstate \<Rightarrow> ('u dstate, unit) res" where
  "decode_callback_loop 0 cb st = Diverge"
| "decode_callback_loop (Suc k) cb st =
     bind_res (cb st) (\<lambda>_ st. if bytes_left (fst st) \<noteq> 0 then decode_callback_loop k cb st else Ok () st)"

definition decode_callback_field ::
    "nat \<Rightarrow> 'u pb_env \<Rightarrow> u32 \<Rightarrow> pb_field_iter \<Rightarrow> ('u, unit) decoder" where
  "decode_callback_field fuel env wire_type iter st =
     (let funcs_decode = load_ptr (snd st) (it_pData iter);
          cb = env_decode_callback env funcs_decode (it_field iter) (it_pData iter + callback_arg_off) in
      if funcs_decode = NULL then on_stream (pb_skip_field wire_type) st
      else if wire_type = PB_WT_STRING
      then
        bind_res (on_stream pb_make_string_substream st) (\<lambda>substream st.
          case decode_callback_loop fuel cb (substream, snd st) of
            Ok _ (sub, m') \<Rightarrow> close_after sub True (fst st, m')
          | Err (sub, m') \<Rightarrow> dec_error ''callback failed'' (fst st, m')
          | Fault \<Rightarrow> Fault
          | Diverge \<Rightarrow> Diverge)
      else
        bind_res (on_stream (read_raw_value wire_type 10) st) (\<lambda>buffer st.
          case cb (pb_istream_from_buffer buffer (length buffer), snd st) of
            Ok _ (sub, m') \<Rightarrow> Ok () (fst st, m')
          | Err (sub, m') \<Rightarrow> Err (fst st, m')
          | Fault \<Rightarrow> Fault
          | Diverge \<Rightarrow> Diverge))"

definition decode_field ::
    "'u submsg_rec \<Rightarrow> nat \<Rightarrow> 'u pb_env \<Rightarrow> u32 \<Rightarrow> pb_field_iter \<Rightarrow> ('u, unit) decoder" where
  "decode_field rec fuel env wire_type iter st =
     (let atype = PB_ATYPE (f_type (it_field iter)) in
      if atype = PB_ATYPE_STATIC then decode_static_field rec fuel env wire_type iter st
      else if atype = PB_ATYPE_POINTER then decode_pointer_field wire_type iter st
      else if atype = PB_ATYPE_CALLBACK then decode_callback_field fuel env wire_type iter st
      else dec_error ''invalid field type'' st)"

section \<open>Extensions\<close>

definition default_extension_decoder ::
    "'u submsg_rec \<Rightarrow> nat \<Rightarrow> 'u pb_env \<Rightarrow> addr \<Rightarrow> u32 \<Rightarrow> u32 \<Rightarrow> ('u, unit) decoder" where
  "default_extension_decoder rec fuel env ext tag wire_type st =
     (let field = field_at (ext_arg (env_ext_type env (load_ptr (snd st) ext))) 0 in
      if f_tag field \<noteq> tag then Ok () st
      else decode_field rec fuel env wire_type (iter_from_extension env (snd st) ext)
             (fst st, (snd st)(ext + ext_found_off := 1)))"

fun decode_extension_loop ::
    "nat \<Rightarrow> 'u submsg_rec \<Rightarrow> nat \<Rightarrow> 'u pb_env \<Rightarrow> nat \<Rightarrow> u32 \<Rightarrow> u32 \<Rightarrow> addr \<Rightarrow> ('u, unit) decoder" where
  "decode_extension_loop 0 rec fuel env pos tag wire_type ext st = Diverge"
| "decode_extension_loop (Suc k) rec fuel env pos tag wire_type ext st =
     (if ext \<noteq> NULL \<and> pos = bytes_left (fst st)
      then
        bind_res
          (case ext_decode (env_ext_type env (load_ptr (snd st) ext)) of
             Some f \<Rightarrow> f ext tag wire_type st
           | None \<Rightarrow> default_extension_decoder rec fuel env ext tag wire_type st)
          (\<lambda>_ st. decode_extension_loop k rec fuel env pos tag wire_type
                    (load_ptr (snd st) (ext + ext_next_off)) st)
      else Ok () st)"

definition decode_extension ::
    "'u submsg_rec \<Rightarrow> nat \<Rightarrow> 'u pb_env \<Rightarrow> u32 \<Rightarrow> u32 \<Rightarrow> pb_field_iter \<Rightarrow> ('u, unit) decoder" where
  "decode_extension rec fuel env tag wire_type iter st =
     decode_extension_loop fuel rec fuel env (bytes_left (fst st)) tag wire_type
       (load_ptr (snd st) (it_pData iter)) st"

section \<open>Decoding a message\<close>

definition PB_MAX_REQUIRED_FIELDS :: nat where [simp]: "PB_MAX_REQUIRED_FIELDS = 64"

text \<open>\<open>uint32_t fields_seen[(PB_MAX_REQUIRED_FIELDS + 31) / 32]\<close>\<close>

type_synonym fields_seen = "u32 list"

definition fields_seen_init :: fields_seen where "fields_seen_init = [0, 0]"

definition mark_seen :: "pb_field_iter \<Rightarrow> fields_seen \<Rightarrow> fields_seen" where
  "mark_seen iter seen =
     (let i = it_required_field_index iter in
      if PB_HTYPE (f_type (it_field iter)) = PB_HTYPE_REQUIRED \<and> i < PB_MAX_REQUIRED_FIELDS
      then seen[i div 32 := seen ! (i div 32) OR push_bit (i mod 32) 1]
      else seen)"

text \<open>
  A field no descriptor entry matches: try the extensions when the tag is in their range, else
  skip it.  The result is the new \<open>extension_range_start\<close> and the iterator, which the search for
  the extension field moves.
\<close>

definition decode_unknown ::
    "'u submsg_rec \<Rightarrow> nat \<Rightarrow> 'u pb_env \<Rightarrow> u32 \<Rightarrow> u32 \<Rightarrow> u32 \<Rightarrow> pb_field_iter \<Rightarrow>
       ('u, u32 \<times> pb_field_iter) decoder" where
  "decode_unknown rec fuel env ext_start tag wire_type iter st =
     (let skip = (\<lambda>ext_start iter st.
            bind_res (on_stream (pb_skip_field wire_type) st) (\<lambda>_ st. Ok (ext_start, iter) st))
      in if ext_start \<le> tag
         then
           (case find_extension_field iter of
              None \<Rightarrow> Diverge
            | Some (found, iter') \<Rightarrow>
                let ext_start' = (if found then f_tag (it_field iter') else -1) in
                if ext_start' \<le> tag
                then
                  bind_res (decode_extension rec fuel env tag wire_type iter' st) (\<lambda>_ st'.
                    if bytes_left (fst st) \<noteq> bytes_left (fst st')
                    then Ok (ext_start', iter') st'
                    else skip ext_start' iter' st')
                else skip ext_start' iter' st)
         else skip ext_start iter st)"

fun decode_loop ::
    "nat \<Rightarrow> 'u submsg_rec \<Rightarrow> nat \<Rightarrow> 'u pb_env \<Rightarrow> fields_seen \<Rightarrow> u32 \<Rightarrow> pb_field_iter \<Rightarrow>
       'u dstate \<Rightarrow> ('u dstate, fields_seen \<times> pb_field_iter) res" where
  "decode_loop 0 rec fuel env seen ext_start iter st = Diverge"
| "decode_loop (Suc k) rec fuel env seen ext_start iter st =
     (if bytes_left (fst st) = 0 then Ok (seen, iter) st
      else
        case pb_decode_tag (fst st) of
          TagFault \<Rightarrow> Fault
        | TagDiverge \<Rightarrow> Diverge
        | NoTag eof s \<Rightarrow> if eof then Ok (seen, iter) (s, snd st) else Err (s, snd st)
        | Tag wire_type tag s \<Rightarrow>
            (case pb_field_iter_find iter tag of
               None \<Rightarrow> Diverge
             | Some (found, iter') \<Rightarrow>
                 if found
                 then
                   bind_res (decode_field rec fuel env wire_type iter' (s, snd st)) (\<lambda>_ st'.
                     decode_loop k rec fuel env (mark_seen iter' seen) ext_start iter' st')
                 else
                   bind_res (decode_unknown rec fuel env ext_start tag wire_type iter' (s, snd st))
                     (\<lambda>(ext_start', iter'') st'.
                        decode_loop k rec fuel env seen ext_start' iter'' st')))"

text \<open>Seeking to the end of the field array: the final count and type, and the wrapped iterator.\<close>

function seek_end :: "pb_field_iter \<Rightarrow> nat \<times> u8 \<times> pb_field_iter" where
  "seek_end iter =
     (if fst (pb_field_iter_next iter) then seek_end (snd (pb_field_iter_next iter))
      else (it_required_field_index iter, f_type (it_field iter), snd (pb_field_iter_next iter)))"
  by pat_completeness auto
termination
  by (relation "measure (\<lambda>iter. length (it_start iter) - it_pos iter)")
     (auto dest: next_True_bound)

declare seek_end.simps [simp del]

definition req_field_count :: "pb_field_iter \<Rightarrow> nat" where
  "req_field_count iter =
     (case seek_end iter of (count, last_type, iter') \<Rightarrow>
        if PB_HTYPE last_type = PB_HTYPE_REQUIRED \<and> f_tag (it_field iter') \<noteq> 0 then count + 1
        else count)"

text \<open>
  The check of \<open>fields_seen\<close>.  An index past the array's two words and a shift by 32 are
  undefined.
\<close>

fun check_words :: "nat \<Rightarrow> nat \<Rightarrow> fields_seen \<Rightarrow> ('u, unit) decoder" where
  "check_words i 0 seen st = Ok () st"
| "check_words i (Suc n) seen st =
     (if length seen \<le> i then Fault
      else if seen ! i \<noteq> -1 then dec_error ''missing required field'' st
      else check_words (Suc i) n seen st)"

definition check_required :: "nat \<Rightarrow> fields_seen \<Rightarrow> ('u, unit) decoder" where
  "check_required count seen st =
     (if 0 < count
      then
        bind_res (check_words 0 (count div 32) seen st) (\<lambda>_ st.
          if length seen \<le> count div 32 \<or> count mod 32 = 0 then Fault
          else if seen ! (count div 32) \<noteq> drop_bit (32 - count mod 32) (-1)
          then dec_error ''missing required field'' st
          else Ok () st)
      else Ok () st)"

definition decode_noinit_body ::
    "'u submsg_rec \<Rightarrow> nat \<Rightarrow> 'u pb_env \<Rightarrow> pb_field list \<Rightarrow> addr \<Rightarrow> ('u, unit) decoder" where
  "decode_noinit_body rec fuel env fs dest st =
     bind_res
       (decode_loop fuel rec fuel env fields_seen_init 0 (snd (pb_field_iter_begin fs dest)) st)
       (\<lambda>(seen, iter) st. check_required (req_field_count iter) seen st)"

definition decode_body ::
    "'u submsg_rec \<Rightarrow> nat \<Rightarrow> 'u pb_env \<Rightarrow> pb_field list \<Rightarrow> addr \<Rightarrow> ('u, unit) decoder" where
  "decode_body rec fuel env fs dest st =
     (case pb_message_set_to_defaults (pb_field_set_to_default fuel env) fs dest (snd st) of
        Ok _ m' \<Rightarrow> decode_noinit_body rec fuel env fs dest (fst st, m')
      | Err m' \<Rightarrow> Fault
      | Fault \<Rightarrow> Fault
      | Diverge \<Rightarrow> Diverge)"

text \<open>The knot: the two entry points at a given fuel, for the recursion into submessages.\<close>

primrec decode_rec :: "nat \<Rightarrow> 'u pb_env \<Rightarrow> 'u submsg_rec" where
  "decode_rec 0 = (\<lambda>env init fs dest st. Diverge)"
| "decode_rec (Suc fuel) =
     (\<lambda>env init fs dest st.
        if init then decode_body (decode_rec fuel env) fuel env fs dest st
        else decode_noinit_body (decode_rec fuel env) fuel env fs dest st)"

definition pb_decode_noinit ::
    "nat \<Rightarrow> 'u pb_env \<Rightarrow> pb_field list \<Rightarrow> addr \<Rightarrow> ('u, unit) decoder" where
  "pb_decode_noinit fuel env fs dest st = decode_rec fuel env False fs dest st"

definition pb_decode ::
    "nat \<Rightarrow> 'u pb_env \<Rightarrow> pb_field list \<Rightarrow> addr \<Rightarrow> ('u, unit) decoder" where
  "pb_decode fuel env fs dest st = decode_rec fuel env True fs dest st"

definition pb_decode_delimited ::
    "nat \<Rightarrow> 'u pb_env \<Rightarrow> pb_field list \<Rightarrow> addr \<Rightarrow> ('u, unit) decoder" where
  "pb_decode_delimited fuel env fs dest st =
     bind_res (on_stream pb_make_string_substream st) (\<lambda>substream st.
       case pb_decode fuel env fs dest (substream, snd st) of
         Ok _ (sub, m') \<Rightarrow> close_after sub True (fst st, m')
       | Err (sub, m') \<Rightarrow> close_after sub False (fst st, m')
       | Fault \<Rightarrow> Fault
       | Diverge \<Rightarrow> Diverge)"

end
