(* ===== verification/PbOStream.thy ===== *)
theory PbOStream
  imports PbCommon
begin

text \<open>
  Output streams and the wire-level writers of \<open>pb_encode.c\<close>: \<open>pb_write\<close>, varints, fixed-width
  values, tags and strings.

  A stream writes to a memory buffer (callback \<open>buf_write\<close>; the state is what has been written so
  far and the room left behind it), to a custom sink, or nowhere at all: the null callback marks a
  sizing stream.  Writing past the end of the memory buffer is a \<open>Fault\<close>.
\<close>

section \<open>Streams\<close>

datatype 'u out_state = OutBuffer "u8 list" nat | OutUser 'u

datatype 'u out_callback = BufWrite | UserWrite "'u \<Rightarrow> u8 list \<Rightarrow> bool \<times> 'u"

record 'u pb_ostream =
  os_callback :: "'u out_callback option"
  os_state :: "'u out_state"
  max_size :: nat
  bytes_written :: nat
  os_errmsg :: "string option"

type_synonym 'u writer = "'u pb_ostream \<Rightarrow> ('u pb_ostream, unit) res"

definition PB_SET_ERROR_out :: "string \<Rightarrow> 'u pb_ostream \<Rightarrow> 'u pb_ostream" where
  "PB_SET_ERROR_out msg s =
     s\<lparr>os_errmsg := (case os_errmsg s of None \<Rightarrow> Some msg | Some e \<Rightarrow> Some e)\<rparr>"

definition PB_RETURN_ERROR_out :: "string \<Rightarrow> 'u writer" where
  "PB_RETURN_ERROR_out msg s = Err (PB_SET_ERROR_out msg s)"

definition buf_write :: "u8 list \<Rightarrow> 'u writer" where
  "buf_write bs s =
     (case os_state s of
        OutBuffer out room \<Rightarrow>
          if length bs \<le> room
          then Ok () (s\<lparr>os_state := OutBuffer (out @ bs) (room - length bs)\<rparr>)
          else Fault
      | OutUser u \<Rightarrow> Fault)"

text \<open>\<open>capacity\<close> is the size of the array \<open>buf\<close> points to, \<open>bufsize\<close> what the caller claims it is.\<close>

definition pb_ostream_from_buffer :: "nat \<Rightarrow> nat \<Rightarrow> 'u pb_ostream" where
  "pb_ostream_from_buffer capacity bufsize =
     \<lparr>os_callback = Some BufWrite, os_state = OutBuffer [] capacity, max_size = bufsize,
      bytes_written = 0, os_errmsg = None\<rparr>"

definition PB_OSTREAM_SIZING :: "'u pb_ostream" where
  "PB_OSTREAM_SIZING =
     \<lparr>os_callback = None, os_state = OutBuffer [] 0, max_size = 0, bytes_written = 0,
      os_errmsg = None\<rparr>"

definition call_out_callback :: "'u out_callback \<Rightarrow> u8 list \<Rightarrow> 'u writer" where
  "call_out_callback cb bs s =
     (case cb of
        BufWrite \<Rightarrow> buf_write bs s
      | UserWrite f \<Rightarrow>
          (case os_state s of
             OutBuffer out room \<Rightarrow> Fault
           | OutUser u \<Rightarrow>
               (case f u bs of (ok, u') \<Rightarrow>
                  if ok then Ok () (s\<lparr>os_state := OutUser u'\<rparr>)
                  else Err (s\<lparr>os_state := OutUser u'\<rparr>))))"

text \<open>
  \<open>pb_write(stream, buf, count)\<close>; \<open>None\<close> is the null buffer, which only a sizing stream or an
  empty write can take.  The sum of the bounds check and the counter wrap at \<open>2 ^ 64\<close>.
\<close>

definition pb_write :: "u8 list option \<Rightarrow> nat \<Rightarrow> 'u writer" where
  "pb_write buf count s =
     (case os_callback s of
        None \<Rightarrow> Ok () (s\<lparr>bytes_written := (bytes_written s + count) mod 2 ^ 64\<rparr>)
      | Some cb \<Rightarrow>
          if max_size s < (bytes_written s + count) mod 2 ^ 64
          then PB_RETURN_ERROR_out ''stream full'' s
          else
            case (case buf of
                    Some bs \<Rightarrow> call_out_callback cb (take count bs) s
                  | None \<Rightarrow> if count = 0 then call_out_callback cb [] s else Fault) of
              Ok _ s' \<Rightarrow> Ok () (s'\<lparr>bytes_written := (bytes_written s' + count) mod 2 ^ 64\<rparr>)
            | Err s' \<Rightarrow> PB_RETURN_ERROR_out ''io error'' s'
            | Fault \<Rightarrow> Fault
            | Diverge \<Rightarrow> Diverge)"

section \<open>Varints, fixed-width values, tags, strings\<close>

text \<open>The loop that fills \<open>pb_byte_t buffer[10]\<close>; \<open>None\<close> is a store outside the array.\<close>

function pb_encode_varint_loop :: "u64 \<Rightarrow> u8 list \<Rightarrow> u8 list option" where
  "pb_encode_varint_loop value buffer =
     (if value \<noteq> 0
      then if length buffer < 10
           then pb_encode_varint_loop (drop_bit 7 value) (buffer @ [ucast ((value AND 0x7F) OR 0x80)])
           else None
      else Some buffer)"
  by pat_completeness auto
termination
  by (relation "measure (\<lambda>(value, buffer). 10 - length buffer)") auto

declare pb_encode_varint_loop.simps [simp del]

definition pb_encode_varint :: "u64 \<Rightarrow> 'u writer" where
  "pb_encode_varint value s =
     (if value \<le> 0x7F then pb_write (Some [ucast value]) 1 s
      else
        case pb_encode_varint_loop value [] of
          None \<Rightarrow> Fault
        | Some buffer \<Rightarrow>
            let i = length buffer
            in pb_write (Some (buffer[i - 1 := buffer ! (i - 1) AND 0x7F])) i s)"

definition pb_encode_svarint :: "64 word \<Rightarrow> 'u writer" where
  "pb_encode_svarint value s =
     (let zigzagged = (if sint value < 0 then NOT (push_bit 1 value) else push_bit 1 value)
      in pb_encode_varint zigzagged s)"

definition pb_encode_fixed32 :: "u32 \<Rightarrow> 'u writer" where
  "pb_encode_fixed32 val s =
     pb_write (Some [ucast (val AND 0xFF), ucast (drop_bit 8 val AND 0xFF),
                     ucast (drop_bit 16 val AND 0xFF), ucast (drop_bit 24 val AND 0xFF)]) 4 s"

definition pb_encode_fixed64 :: "u64 \<Rightarrow> 'u writer" where
  "pb_encode_fixed64 val s =
     pb_write (Some [ucast (val AND 0xFF), ucast (drop_bit 8 val AND 0xFF),
                     ucast (drop_bit 16 val AND 0xFF), ucast (drop_bit 24 val AND 0xFF),
                     ucast (drop_bit 32 val AND 0xFF), ucast (drop_bit 40 val AND 0xFF),
                     ucast (drop_bit 48 val AND 0xFF), ucast (drop_bit 56 val AND 0xFF)]) 8 s"

definition pb_encode_tag :: "u32 \<Rightarrow> u32 \<Rightarrow> 'u writer" where
  "pb_encode_tag wiretype field_number s =
     pb_encode_varint (push_bit 3 (ucast field_number) OR ucast wiretype) s"

definition pb_encode_tag_for_field :: "pb_field \<Rightarrow> 'u writer" where
  "pb_encode_tag_for_field field s =
     (let lt = PB_LTYPE (f_type field) in
      if lt = PB_LTYPE_VARINT \<or> lt = PB_LTYPE_UVARINT \<or> lt = PB_LTYPE_SVARINT
      then pb_encode_tag PB_WT_VARINT (f_tag field) s
      else if lt = PB_LTYPE_FIXED32 then pb_encode_tag PB_WT_32BIT (f_tag field) s
      else if lt = PB_LTYPE_FIXED64 then pb_encode_tag PB_WT_64BIT (f_tag field) s
      else if lt = PB_LTYPE_BYTES \<or> lt = PB_LTYPE_STRING \<or> lt = PB_LTYPE_SUBMESSAGE
              \<or> lt = PB_LTYPE_FIXED_LENGTH_BYTES
      then pb_encode_tag PB_WT_STRING (f_tag field) s
      else PB_RETURN_ERROR_out ''invalid field type'' s)"

text \<open>\<open>pb_encode_string\<close>: \<open>None\<close> is the null pointer, passed with size zero.\<close>

definition pb_encode_string :: "u8 list option \<Rightarrow> nat \<Rightarrow> 'u writer" where
  "pb_encode_string buffer sz s =
     bind_res (pb_encode_varint (of_nat sz) s) (\<lambda>_ s. pb_write buffer sz s)"

end
