(* ===== verification/PbWire.thy ===== *)
theory PbWire
  imports PbIStream PbOStream
begin

text \<open>
  The varint encoding as a function on 64-bit values, \<open>varint_bytes\<close>, and the two proofs that tie
  the code to it: the loop of \<open>pb_encode_varint\<close> fills its ten-byte buffer with these bytes, and
  the loops of \<open>pb_decode_varint\<close> and \<open>pb_decode_varint32\<close> read them back.
\<close>

section \<open>The varint encoding\<close>

lemma unat_drop_bit_7: "unat (drop_bit 7 (v :: u64)) = unat v div 128"
  by (simp add: unat_drop_bit_div)

function varint_bytes :: "u64 \<Rightarrow> u8 list" where
  "varint_bytes v =
     (if v < 128 then [ucast v] else ucast (v AND 0x7F OR 0x80) # varint_bytes (drop_bit 7 v))"
  by pat_completeness auto

termination
  by (relation "measure unat") (auto simp: unat_drop_bit_7 word_less_nat_alt)

declare varint_bytes.simps [simp del]

function cont_bytes :: "u64 \<Rightarrow> u8 list" where
  "cont_bytes v =
     (if v = 0 then [] else ucast (v AND 0x7F OR 0x80) # cont_bytes (drop_bit 7 v))"
  by pat_completeness auto
termination
  by (relation "measure unat") (auto simp: unat_drop_bit_7 unat_gt_0)

declare cont_bytes.simps [simp del]

lemma length_cont_bytes: "unat v < 128 ^ k \<Longrightarrow> length (cont_bytes v) \<le> k"
proof (induction k arbitrary: v)
  case 0
  then have "v = 0" by (simp add: unat_eq_0 [symmetric])
  then show ?case by (simp add: cont_bytes.simps)
next
  case (Suc k)
  then have "unat (drop_bit 7 v) < 128 ^ k"
    by (auto simp: unat_drop_bit_7)
  with Suc.IH show ?case
    by (subst cont_bytes.simps) simp
qed

lemma length_cont_bytes_10: "length (cont_bytes v) \<le> 10"
proof (rule length_cont_bytes)
  have "unat v < 2 ^ 64" using unsigned_less [of v] by simp
  then show "unat v < 128 ^ 10" by simp
qed

lemma encode_loop_cont:
  "length buffer + length (cont_bytes v) \<le> 10 \<Longrightarrow>
     pb_encode_varint_loop v buffer = Some (buffer @ cont_bytes v)"
proof (induction v arbitrary: buffer rule: cont_bytes.induct)
  case (1 v)
  show ?case
  proof (cases "v = 0")
    case True
    then show ?thesis by (simp add: pb_encode_varint_loop.simps cont_bytes.simps)
  next
    case False
    then show ?thesis
      using 1 by (subst pb_encode_varint_loop.simps) (auto simp: cont_bytes.simps [of v])
  qed
qed

lemma cont_bytes_nonempty: "v \<noteq> 0 \<Longrightarrow> cont_bytes v \<noteq> []"
  by (simp add: cont_bytes.simps)

lemma small_byte: "(v :: u64) < 128 \<Longrightarrow> ucast (v AND 0x7F OR 0x80) AND (0x7F :: u8) = ucast v"
  unfolding and_7F or_80
  by (rule bit_word_eqI)
     (auto simp: bit_simps word_less_nat_alt dest: bit_bounded [where k = 7, simplified])

lemma mask_last_cont_bytes:
  "v \<noteq> 0 \<Longrightarrow> (cont_bytes v)[length (cont_bytes v) - 1 :=
      cont_bytes v ! (length (cont_bytes v) - 1) AND 0x7F] = varint_bytes v"
proof (induction v rule: varint_bytes.induct)
  case (1 v)
  show ?case
  proof (cases "v < 128")
    case True
    then have "drop_bit 7 v = 0"
      by (simp add: unat_eq_0 [symmetric] unat_drop_bit_7 word_less_nat_alt del: unat_eq_0)
    with True 1 show ?thesis
      by (simp add: cont_bytes.simps varint_bytes.simps small_byte)
  next
    case False
    then have nz: "drop_bit 7 v \<noteq> 0"
      by (simp add: unat_eq_0 [symmetric] unat_drop_bit_7 word_less_nat_alt del: unat_eq_0)
    let ?c = "cont_bytes (drop_bit 7 v)"
    have "?c \<noteq> []" using nz by (rule cont_bytes_nonempty)
    then obtain n where n: "length ?c = Suc n" by (cases ?c) auto
    have "cont_bytes v = ucast (v AND 0x7F OR 0x80) # ?c"
      using 1 by (subst cont_bytes.simps) simp
    then show ?thesis
      using "1.IH" [OF False nz] False n by (simp add: varint_bytes.simps [of v])
  qed
qed

lemma le_7F_iff: "(v :: u64) \<le> 0x7F \<longleftrightarrow> v < 128"
  by (auto simp: word_le_nat_alt word_less_nat_alt)

lemma pb_encode_varint_eq:
  "pb_encode_varint v s = pb_write (Some (varint_bytes v)) (length (varint_bytes v)) s"
proof (cases "v < 128")
  case True
  then show ?thesis
    by (simp add: pb_encode_varint_def le_7F_iff varint_bytes.simps)
next
  case False
  then have nz: "v \<noteq> 0" by auto
  have "pb_encode_varint_loop v [] = Some (cont_bytes v)"
    using encode_loop_cont [of "[]" v] length_cont_bytes_10 [of v] by simp
  moreover have "length (varint_bytes v) = length (cont_bytes v)"
    using arg_cong [OF mask_last_cont_bytes [OF nz], of length] by simp
  ultimately show ?thesis
    using False mask_last_cont_bytes [OF nz]
    by (simp add: pb_encode_varint_def le_7F_iff Let_def)
qed

lemma length_varint_bytes: "unat v < 128 ^ k \<Longrightarrow> 0 < k \<Longrightarrow> length (varint_bytes v) \<le> k"
proof (cases "v = 0")
  case False
  assume "unat v < 128 ^ k"
  then show ?thesis
    using arg_cong [OF mask_last_cont_bytes [OF False], of length] length_cont_bytes [of v k]
    by simp
qed (simp add: varint_bytes.simps)

lemma varint_bytes_nonempty [simp]: "varint_bytes v \<noteq> []"
  by (subst varint_bytes.simps) simp

lemma push_take_drop:
  "push_bit k (take_bit 7 v) OR push_bit (k + 7) (drop_bit 7 v) = push_bit k (v :: 'a::len word)"
proof (rule bit_word_eqI)
  fix n
  have "7 + (n - (k + 7)) = n - k" if "k + 7 \<le> n"
    using that by simp
  then show "bit (push_bit k (take_bit 7 v) OR push_bit (k + 7) (drop_bit 7 v)) n =
      bit (push_bit k v) n"
    by (cases "k + 7 \<le> n") (auto simp: bit_simps)
qed

text \<open>The payload and the continuation bit of the bytes of a varint.\<close>

lemma cont_digit [simp]:
  "bit (ucast (take_bit 7 v OR 0x80) :: u8) 7"
  "ucast (take_bit 7 (ucast (take_bit 7 v OR 0x80) :: u8)) = (take_bit 7 (ucast (v :: u64)) :: 'a::len word)"
  unfolding or_80 by (auto simp: bit_simps intro!: bit_word_eqI)

lemma last_digit:
  "(v :: u64) < 128 \<Longrightarrow> \<not> bit (ucast v :: u8) 7"
  "v < 128 \<Longrightarrow> take_bit 7 (ucast v :: u8) = ucast v"
  "v < 128 \<Longrightarrow> ucast (ucast v :: u8) = (ucast v :: 'a::len word)"
  by (fastforce simp: bit_simps word_less_nat_alt dest: bit_bounded [where k = 7, simplified]
      intro!: bit_word_eqI)+

lemma next_digit_bound:
  fixes v :: u64
  assumes "unat v < 2 ^ (w - b)" and "\<not> v < 128"
  shows "7 < w - b" and "unat (drop_bit 7 v) < 2 ^ (w - (b + 7))"
proof -
  show gt: "7 < w - b"
  proof (rule ccontr)
    assume "\<not> 7 < w - b"
    then have "2 ^ (w - b) \<le> (2 :: nat) ^ 7"
      by (intro power_increasing) auto
    with assms show False by (simp add: word_less_nat_alt)
  qed
  have "w - b = (w - (b + 7)) + 7" using gt by simp
  then have "(2::nat) ^ (w - b) = 2 ^ (w - (b + 7)) * 128"
    by (simp only: power_add) simp
  with assms(1) show "unat (drop_bit 7 v) < 2 ^ (w - (b + 7))"
    by (simp add: unat_drop_bit_7 less_mult_imp_div_less)
qed

lemma decode_varint_loop_bytes:
  "unat v < 2 ^ (64 - bitpos) \<Longrightarrow> bitpos < 64 \<Longrightarrow>
     pb_decode_varint_loop bitpos result (bufs e (varint_bytes v @ bs) rest) =
       Ok (result OR push_bit bitpos v) (bufs e bs rest)"
proof (induction v arbitrary: bitpos result rule: varint_bytes.induct)
  case (1 v)
  show ?case
  proof (cases "v < 128")
    case True
    then show ?thesis
      using 1
      by (subst pb_decode_varint_loop.simps)
         (simp add: varint_bytes.simps stream_simps and_80 and_7F last_digit)
  next
    case False
    note bound = next_digit_bound [OF "1.prems"(1) False]
    show ?thesis
      using False 1 bound
      by (subst pb_decode_varint_loop.simps)
         (simp add: varint_bytes.simps [of v] stream_simps and_80 and_7F or.assoc push_take_drop Let_def)
  qed
qed

lemma push_take_drop_32:
  "push_bit k (take_bit 7 (ucast v)) OR push_bit (k + 7) (ucast (drop_bit 7 v)) =
     (push_bit k (ucast (v :: u64)) :: u32)"
proof (rule bit_word_eqI)
  fix n assume "n < LENGTH(32)"
  moreover have "7 + (n - (k + 7)) = n - k" if "k + 7 \<le> n"
    using that by simp
  ultimately show "bit (push_bit k (take_bit 7 (ucast v)) OR push_bit (k + 7) (ucast (drop_bit 7 v)) :: u32) n =
      bit (push_bit k (ucast v) :: u32) n"
    by (cases "k + 7 \<le> n") (auto simp: bit_simps)
qed

lemma decode_varint32_loop_bytes:
  "unat v < 2 ^ (32 - bitpos) \<Longrightarrow> bitpos < 32 \<Longrightarrow>
     pb_decode_varint32_loop bitpos result (bufs e (varint_bytes v @ bs) rest) =
       Ok (result OR push_bit bitpos (ucast v)) (bufs e bs rest)"
proof (induction v arbitrary: bitpos result rule: varint_bytes.induct)
  case (1 v)
  show ?case
  proof (cases "v < 128")
    case True
    then show ?thesis
      using 1
      by (subst pb_decode_varint32_loop.simps)
         (simp add: varint_bytes.simps stream_simps and_80 and_7F last_digit)
  next
    case False
    note bound = next_digit_bound [OF "1.prems"(1) False]
    show ?thesis
      using False 1 bound push_take_drop_32 [of bitpos v]
      by (subst pb_decode_varint32_loop.simps)
         (simp add: varint_bytes.simps [of v] stream_simps and_80 and_7F or.assoc Let_def)
  qed
qed

lemma decode_varint_bytes [stream_simps]:
  "pb_decode_varint (bufs e (varint_bytes v @ bs) rest) = Ok v (bufs e bs rest)"
  using decode_varint_loop_bytes [of v 0 0] unsigned_less [of v]
  by (simp add: pb_decode_varint_def)

lemma decode_varint32_bytes [stream_simps]:
  "unat v < 2 ^ 32 \<Longrightarrow>
     pb_decode_varint32 (bufs e (varint_bytes v @ bs) rest) = Ok (ucast v) (bufs e bs rest)"
proof (cases "v < 128")
  case True
  then show ?thesis
    by (simp add: pb_decode_varint32_def varint_bytes.simps stream_simps and_80_eq last_digit)
next
  case False
  assume v: "unat v < 2 ^ 32"
  have "pb_decode_varint32_loop 7 (take_bit 7 (ucast v)) (bufs e (varint_bytes (drop_bit 7 v) @ bs) rest) =
      Ok (take_bit 7 (ucast v) OR push_bit 7 (ucast (drop_bit 7 v))) (bufs e bs rest)"
    using next_digit_bound [of v 32 0] v False by (intro decode_varint32_loop_bytes) auto
  with False show ?thesis
    using push_take_drop_32 [of 0 v]
    by (simp add: pb_decode_varint32_def varint_bytes.simps [of v] stream_simps and_80_eq and_7F)
qed

end
