(* ===== verification/PbEmit.thy ===== *)
theory PbEmit
  imports PbWire "HOL-Library.Sublist"
begin

text \<open>
  What a writer puts on an output stream.  \<open>writes w bs\<close> says that the writer \<open>w\<close> stands for the
  byte string \<open>bs\<close>: on a sizing stream and on a memory buffer with room it succeeds and advances
  the stream by exactly \<open>bs\<close>; on a memory buffer that is too small it returns false with the
  message \<open>stream full\<close>, having written a prefix of \<open>bs\<close> and nothing past the limit.  The writers of
  \<open>PbOStream\<close> and \<open>PbEncode\<close> are characterised by this predicate, which sequencing preserves.
\<close>

section \<open>Streams with a bound\<close>

text \<open>
  A sizing stream, or a stream on a memory buffer that holds at least \<open>max_size\<close> bytes.  No object
  is larger than \<open>PTRDIFF_MAX\<close>, so the sums of the bounds checks stay below \<open>2 ^ 64\<close>.  No error
  has been recorded yet.
\<close>

definition os_ok :: "'u pb_ostream \<Rightarrow> bool" where
  "os_ok s \<longleftrightarrow>
     os_errmsg s = None \<and>
     (case os_callback s of
        None \<Rightarrow> bytes_written s < 2 ^ 63
      | Some BufWrite \<Rightarrow>
          (case os_state s of
             OutBuffer out room \<Rightarrow>
               bytes_written s \<le> max_size s \<and> max_size s < 2 ^ 63 \<and> max_size s \<le> bytes_written s + room
           | OutUser _ \<Rightarrow> False)
      | Some (UserWrite _) \<Rightarrow> False)"

definition fits :: "nat \<Rightarrow> 'u pb_ostream \<Rightarrow> bool" where
  "fits n s \<longleftrightarrow> (os_callback s \<noteq> None \<longrightarrow> bytes_written s + n \<le> max_size s)"

definition adv :: "u8 list \<Rightarrow> 'u pb_ostream \<Rightarrow> 'u pb_ostream" where
  "adv bs s =
     s\<lparr>bytes_written := bytes_written s + length bs,
       os_state :=
         (case os_callback s of
            None \<Rightarrow> os_state s
          | Some _ \<Rightarrow>
              (case os_state s of
                 OutBuffer out room \<Rightarrow> OutBuffer (out @ bs) (room - length bs)
               | OutUser u \<Rightarrow> OutUser u))\<rparr>"

abbreviation full :: "'u pb_ostream \<Rightarrow> 'u pb_ostream" where
  "full s \<equiv> PB_SET_ERROR_out ''stream full'' s"

lemma adv_Nil [simp]: "adv [] s = s"
  by (cases s) (auto simp: adv_def split: option.splits out_state.splits)

lemma adv_adv [simp]: "adv b2 (adv b1 s) = adv (b1 @ b2) s"
  by (auto simp: adv_def add.assoc split: option.splits out_state.splits)

lemma adv_sel [simp]:
  "os_callback (adv bs s) = os_callback s" "max_size (adv bs s) = max_size s"
  "os_errmsg (adv bs s) = os_errmsg s" "bytes_written (adv bs s) = bytes_written s + length bs"
  by (simp_all add: adv_def)

lemma fits_adv [simp]: "fits n (adv bs s) \<longleftrightarrow> fits (length bs + n) s"
  by (simp add: fits_def add.assoc)

lemma fits_mono: "fits n s \<Longrightarrow> k \<le> n \<Longrightarrow> fits k s"
  by (auto simp: fits_def)

lemma fits_sizing [simp]: "os_callback s = None \<Longrightarrow> fits n s"
  by (simp add: fits_def)

text \<open>\<open>roomy\<close>: the counter stays in range when \<open>n\<close> more bytes are counted.\<close>

definition roomy :: "nat \<Rightarrow> 'u pb_ostream \<Rightarrow> bool" where
  "roomy n s \<longleftrightarrow> bytes_written s + n < 2 ^ 63"

lemma os_ok_adv: "os_ok s \<Longrightarrow> fits (length bs) s \<Longrightarrow> roomy (length bs) s \<Longrightarrow> os_ok (adv bs s)"
  by (auto simp: os_ok_def adv_def fits_def roomy_def
      split: option.splits out_callback.splits out_state.splits)

section \<open>Writers that stand for a byte string\<close>

definition writes :: "'u writer \<Rightarrow> u8 list \<Rightarrow> bool" where
  "writes w bs \<longleftrightarrow>
     (\<forall>s. os_ok s \<longrightarrow> roomy (length bs) s \<longrightarrow>
        (if fits (length bs) s then w s = Ok () (adv bs s)
         else \<exists>p. prefix p bs \<and> fits (length p) s \<and> w s = Err (full (adv p s))))"

lemma writesI:
  assumes "\<And>s. os_ok s \<Longrightarrow> roomy (length bs) s \<Longrightarrow> fits (length bs) s \<Longrightarrow> w s = Ok () (adv bs s)"
    and "\<And>s. os_ok s \<Longrightarrow> roomy (length bs) s \<Longrightarrow> \<not> fits (length bs) s \<Longrightarrow>
       \<exists>p. prefix p bs \<and> fits (length p) s \<and> w s = Err (full (adv p s))"
  shows "writes w bs"
  using assms by (simp add: writes_def)

lemma writes_Ok:
  "writes w bs \<Longrightarrow> os_ok s \<Longrightarrow> roomy (length bs) s \<Longrightarrow> fits (length bs) s \<Longrightarrow> w s = Ok () (adv bs s)"
  by (simp add: writes_def)

lemma writes_Err:
  assumes "writes w bs" "os_ok s" "roomy (length bs) s" "\<not> fits (length bs) s"
  obtains p where "prefix p bs" "fits (length p) s" "w s = Err (full (adv p s))"
  using assms unfolding writes_def by (metis (full_types))

lemma roomy_append: "roomy (m + n) s \<Longrightarrow> roomy m s"
  by (auto simp: roomy_def)

lemma roomy_adv [simp]: "roomy n (adv bs s) \<longleftrightarrow> roomy (length bs + n) s"
  by (auto simp: roomy_def add.assoc)

lemma writes_nothing [intro]: "writes (\<lambda>s. Ok () s) []"
  by (auto intro!: writesI simp: fits_def os_ok_def
      split: option.splits out_callback.splits out_state.splits)

lemma writes_seq [intro]:
  assumes "writes w1 b1" and "writes w2 b2"
  shows "writes (\<lambda>s. bind_res (w1 s) (\<lambda>_ s. w2 s)) (b1 @ b2)"
proof (rule writesI)
  fix s :: "'a pb_ostream"
  assume s: "os_ok s" "roomy (length (b1 @ b2)) s"
  have r1: "roomy (length b1) s"
    using s(2) by (simp add: roomy_append)
  { assume f: "fits (length (b1 @ b2)) s"
    then have f1: "fits (length b1) s" by (rule fits_mono) simp
    have "os_ok (adv b1 s)" using s(1) f1 r1 by (rule os_ok_adv)
    then have "w2 (adv b1 s) = Ok () (adv b2 (adv b1 s))"
      using assms(2) f s by (intro writes_Ok) auto
    then show "bind_res (w1 s) (\<lambda>_. w2) = Ok () (adv (b1 @ b2) s)"
      using writes_Ok [OF assms(1) s(1) r1 f1] by simp }
  assume nf: "\<not> fits (length (b1 @ b2)) s"
  show "\<exists>p. prefix p (b1 @ b2) \<and> fits (length p) s \<and> bind_res (w1 s) (\<lambda>_. w2) = Err (full (adv p s))"
  proof (cases "fits (length b1) s")
    case True
    have "os_ok (adv b1 s)" using s(1) True r1 by (rule os_ok_adv)
    then obtain p where "prefix p b2" "fits (length p) (adv b1 s)"
        "w2 (adv b1 s) = Err (full (adv p (adv b1 s)))"
      using assms(2) nf s by (auto elim: writes_Err [of w2 b2 "adv b1 s"])
    then show ?thesis
      using writes_Ok [OF assms(1) s(1) r1 True]
      by (intro exI [of _ "b1 @ p"]) simp
  next
    case False
    then obtain p where "prefix p b1" "fits (length p) s" "w1 s = Err (full (adv p s))"
      using writes_Err [OF assms(1) s(1) r1] by metis
    then show ?thesis
      by (intro exI [of _ p]) (auto intro: prefix_order.trans)
  qed
qed

lemma pb_write_writes:
  assumes "n = length bs"
  shows "writes (pb_write (Some bs) n) bs"
proof (rule writesI)
  fix s :: "'a pb_ostream"
  assume s: "os_ok s" "roomy (length bs) s"
  { assume f: "fits (length bs) s"
    show "pb_write (Some bs) n s = Ok () (adv bs s)"
      using s f assms
      by (auto simp: pb_write_def call_out_callback_def buf_write_def os_ok_def roomy_def fits_def
          adv_def split: option.splits out_callback.splits out_state.splits) }
  assume "\<not> fits (length bs) s"
  then show "\<exists>p. prefix p bs \<and> fits (length p) s \<and> pb_write (Some bs) n s = Err (full (adv p s))"
    using s assms
    by (intro exI [of _ "[]"])
       (auto simp: pb_write_def PB_RETURN_ERROR_out_def os_ok_def roomy_def fits_def
        split: option.splits out_callback.splits out_state.splits)
qed

text \<open>On a sizing stream, and for no bytes at all, the buffer may be null.\<close>

lemma pb_write_null_sizing:
  "os_callback s = None \<Longrightarrow> roomy (length bs) s \<Longrightarrow> pb_write None (length bs) s = Ok () (adv bs s)"
  by (simp add: pb_write_def roomy_def adv_def)

lemma pb_write_null_empty: "writes (pb_write None 0) []"
  by (rule writesI)
     (auto simp: pb_write_def call_out_callback_def buf_write_def os_ok_def roomy_def fits_def
      adv_def split: option.splits out_callback.splits out_state.splits)

lemma pb_encode_varint_writes: "writes (pb_encode_varint v) (varint_bytes v)"
  using pb_write_writes [OF refl, of "varint_bytes v"] by (simp add: pb_encode_varint_eq [abs_def])

lemma pb_encode_string_writes:
  "n = length bs \<Longrightarrow> writes (pb_encode_string (Some bs) n) (varint_bytes (of_nat n) @ bs)"
  unfolding pb_encode_string_def [abs_def]
  by (intro writes_seq pb_encode_varint_writes pb_write_writes)

lemma pb_encode_string_null_writes: "writes (pb_encode_string None 0) (varint_bytes 0)"
  using writes_seq [OF pb_encode_varint_writes [of 0] pb_write_null_empty]
  by (simp add: pb_encode_string_def [abs_def])

section \<open>Streams the caller makes\<close>

lemma os_ok_sizing [simp]: "os_ok PB_OSTREAM_SIZING"
  by (simp add: os_ok_def PB_OSTREAM_SIZING_def)

lemma os_ok_from_buffer: "n \<le> capacity \<Longrightarrow> n < 2 ^ 63 \<Longrightarrow> os_ok (pb_ostream_from_buffer capacity n)"
  by (simp add: os_ok_def pb_ostream_from_buffer_def)

lemma sizing_sel [simp]:
  "os_callback PB_OSTREAM_SIZING = None" "bytes_written PB_OSTREAM_SIZING = 0"
  by (simp_all add: PB_OSTREAM_SIZING_def)

lemma writes_sizing:
  "writes w bs \<Longrightarrow> length bs < 2 ^ 63 \<Longrightarrow> w PB_OSTREAM_SIZING = Ok () (adv bs PB_OSTREAM_SIZING)"
  by (rule writes_Ok) (simp_all add: roomy_def)

lemma writes_buffer:
  assumes "writes w bs" "n \<le> capacity" "n < 2 ^ 63" "length bs < 2 ^ 63" "length bs \<le> n"
  shows "\<exists>s. w (pb_ostream_from_buffer capacity n) = Ok () s \<and> bytes_written s = length bs \<and>
    os_state s = OutBuffer bs (capacity - length bs)"
  using assms writes_Ok [OF assms(1) os_ok_from_buffer [OF assms(2,3)]]
  by (simp add: roomy_def fits_def pb_ostream_from_buffer_def adv_def)

lemma writes_buffer_full:
  assumes "writes w bs" "n \<le> capacity" "n < 2 ^ 63" "length bs < 2 ^ 63" "n < length bs"
  shows "\<exists>s p. w (pb_ostream_from_buffer capacity n) = Err s \<and> prefix p bs \<and> length p \<le> n \<and>
    os_state s = OutBuffer p (capacity - length p) \<and> os_errmsg s = Some ''stream full''"
proof -
  let ?s = "pb_ostream_from_buffer capacity n :: 'a pb_ostream"
  have s: "os_ok ?s" using assms by (simp add: os_ok_from_buffer)
  have r: "roomy (length bs) ?s" using assms by (simp add: roomy_def pb_ostream_from_buffer_def)
  have "\<not> fits (length bs) ?s" using assms by (simp add: fits_def pb_ostream_from_buffer_def)
  then obtain p where p: "prefix p bs" "fits (length p) ?s" "w ?s = Err (full (adv p ?s))"
    using writes_Err [OF assms(1) s r] by metis
  then show ?thesis
    by (intro exI [of _ "full (adv p ?s)"] exI [of _ p])
       (simp add: fits_def pb_ostream_from_buffer_def adv_def PB_SET_ERROR_out_def)
qed

end
