(* ===== verification/PbCodec.thy ===== *)
theory PbCodec
  imports PbEmit
begin

text \<open>
  The contract between the writers of \<open>pb_encode.c\<close> and the readers of \<open>pb_decode.c\<close>: a locale
  for a writer and a reader that agree on the bytes of a value, what follows from it (round trips
  through buffers, unique readability of sequences, sizes), and its interpretations on varints,
  zig-zag varints, fixed-width values and length-delimited strings.
\<close>

section \<open>The contract\<close>

locale wire_codec =
  fixes enc :: "'a \<Rightarrow> 'u writer"
    and dec :: "('v, 'a) reader"
    and bytes :: "'a \<Rightarrow> u8 list"
    and valid :: "'a \<Rightarrow> bool"
  assumes enc_writes: "valid a \<Longrightarrow> writes (enc a) (bytes a)"
    and dec_bytes: "valid a \<Longrightarrow> dec (bufs e (bytes a @ bs) rest) = Ok a (bufs e bs rest)"
    and bytes_nonempty: "bytes a \<noteq> []"
    and bytes_bound: "valid a \<Longrightarrow> length (bytes a) < 2 ^ 63"
begin

lemma size_exact:
  "valid a \<Longrightarrow> enc a PB_OSTREAM_SIZING = Ok () (adv (bytes a) PB_OSTREAM_SIZING)"
  by (intro writes_sizing enc_writes bytes_bound)

lemma round_trip:
  assumes "valid a" and "length (bytes a) \<le> n" and "n \<le> capacity" and "n < 2 ^ 63"
  shows "\<exists>s out. enc a (pb_ostream_from_buffer capacity n) = Ok () s \<and>
      os_state s = OutBuffer out (capacity - length out) \<and> bytes_written s = length out \<and>
      dec (bufs e (out @ bs) rest) = Ok a (bufs e bs rest)"
  using writes_buffer [OF enc_writes [OF assms(1)] assms(3,4) bytes_bound [OF assms(1)] assms(2)]
    dec_bytes [OF assms(1)]
  by auto

lemma too_small:
  assumes "valid a" and "n < length (bytes a)" and "n \<le> capacity"
  shows "\<exists>s out. enc a (pb_ostream_from_buffer capacity n) = Err s \<and>
      os_state s = OutBuffer out (capacity - length out) \<and> length out \<le> n \<and>
      os_errmsg s = Some ''stream full''"
  using writes_buffer_full [OF enc_writes [OF assms(1)] assms(3)] bytes_bound [OF assms(1)] assms(2)
  by fastforce

text \<open>No encoding is a prefix of another one, so a sequence of values is read back uniquely.\<close>

lemma prefix_free:
  assumes "valid a" "valid b" "bytes a @ x = bytes b @ y"
  shows "a = b \<and> x = y"
proof -
  have "dec (bufs None (bytes a @ x) []) = Ok a (bufs None x [])"
    by (rule dec_bytes [OF assms(1)])
  moreover have "dec (bufs None (bytes a @ x) []) = Ok b (bufs None y [])"
    unfolding assms(3) by (rule dec_bytes [OF assms(2)])
  ultimately show ?thesis by (simp add: bufs_def)
qed

lemma unique_sequence:
  "\<forall>a\<in>set as. valid a \<Longrightarrow> \<forall>b\<in>set bs. valid b \<Longrightarrow>
     concat (map bytes as) = concat (map bytes bs) \<Longrightarrow> as = bs"
proof (induction as arbitrary: bs)
  case Nil
  then show ?case by (cases bs) (simp_all add: bytes_nonempty)
next
  case (Cons a as)
  have "bs \<noteq> []" using Cons.prems(3) bytes_nonempty [of a] by auto
  then obtain b bs' where bs: "bs = b # bs'" by (cases bs) simp_all
  with Cons.prems have "a = b \<and> concat (map bytes as) = concat (map bytes bs')"
    by (intro prefix_free) simp_all
  with Cons.IH [of bs'] Cons.prems(1,2) bs show ?case by simp
qed

end

section \<open>Zig-zag\<close>

definition zigzag :: "64 word \<Rightarrow> u64" where
  "zigzag v = (if sint v < 0 then NOT (push_bit 1 v) else push_bit 1 v)"

definition unzigzag :: "u64 \<Rightarrow> 64 word" where
  "unzigzag w = (if w AND 1 \<noteq> 0 then NOT (drop_bit 1 w) else drop_bit 1 w)"

lemma sint_neg_bit: "sint (v :: 64 word) < 0 \<longleftrightarrow> bit v 63"
  using bit_last_iff [of v] by simp

lemma unzigzag_zigzag [simp]: "unzigzag (zigzag v) = v"
proof (rule bit_word_eqI)
  fix n assume "n < LENGTH(64)"
  then have "n < 63 \<or> n = 63" by auto
  then show "bit (unzigzag (zigzag v)) n = bit v n"
    unfolding unzigzag_def zigzag_def sint_neg_bit and_1
    by (auto simp: bit_simps mult.commute [of v 2] bit_double_iff)
qed

lemma pb_encode_svarint_writes: "writes (pb_encode_svarint v) (varint_bytes (zigzag v))"
  using pb_encode_varint_writes [of "zigzag v"]
  by (simp add: pb_encode_svarint_def [abs_def] zigzag_def [abs_def])

lemma decode_svarint_bytes [stream_simps]:
  "pb_decode_svarint (bufs e (varint_bytes (zigzag v) @ bs) rest) = Ok v (bufs e bs rest)"
  using unzigzag_zigzag [of v]
  by (auto simp: pb_decode_svarint_def stream_simps unzigzag_def split: if_splits)

section \<open>Fixed-width values\<close>

lemma ucast_and_FF [simp]: "ucast (x AND 0xFF :: 'a::len word) = (ucast x :: u8)"
  unfolding and_FF by (rule bit_word_eqI) (auto simp: bit_simps)

lemma encode_fixed32_eq: "pb_encode_fixed32 v = pb_write (Some (le_bytes 4 v)) 4"
  by (rule ext) (simp add: pb_encode_fixed32_def numeral_eq_Suc drop_bit_drop_bit)

lemma encode_fixed64_eq: "pb_encode_fixed64 v = pb_write (Some (le_bytes 8 v)) 8"
  by (rule ext) (simp add: pb_encode_fixed64_def numeral_eq_Suc drop_bit_drop_bit)

lemma decode_fixed32_bufs [stream_simps]:
  "length w = 4 \<Longrightarrow> pb_decode_fixed32 (bufs e (w @ bs) rest) = Ok (le_word w) (bufs e bs rest)"
  by (auto simp: pb_decode_fixed32_def stream_simps numeral_eq_Suc length_Suc_conv push_bit_or
      or.assoc)

lemma decode_fixed64_bufs [stream_simps]:
  "length w = 8 \<Longrightarrow> pb_decode_fixed64 (bufs e (w @ bs) rest) = Ok (le_word w) (bufs e bs rest)"
  by (auto simp: pb_decode_fixed64_def stream_simps numeral_eq_Suc length_Suc_conv push_bit_or
      or.assoc)

section \<open>The codecs of nanopb\<close>

lemma varint_bytes_10: "length (varint_bytes v) \<le> 10"
  using unat_u64 [of v] by (intro length_varint_bytes) auto

lemma varint_bytes_5: "length (varint_bytes (ucast (v :: u32))) \<le> 5"
  using unat_u32 [of v] by (intro length_varint_bytes) auto

lemma length_varint_small: "length (varint_bytes v) < 2 ^ 63"
  using varint_bytes_10 [of v] by simp

lemma decode_fixed32_le [stream_simps]:
  "pb_decode_fixed32 (bufs e (le_bytes 4 v @ bs) rest) = Ok v (bufs e bs rest)"
  by (simp add: decode_fixed32_bufs)

lemma decode_fixed64_le [stream_simps]:
  "pb_decode_fixed64 (bufs e (le_bytes 8 v @ bs) rest) = Ok v (bufs e bs rest)"
  by (simp add: decode_fixed64_bufs)

lemma le_bytes_nonempty: "0 < n \<Longrightarrow> le_bytes n w \<noteq> []"
  by (cases n) simp_all

interpretation varint: wire_codec pb_encode_varint pb_decode_varint varint_bytes "\<lambda>_. True"
  by unfold_locales
     (rule pb_encode_varint_writes decode_varint_bytes varint_bytes_nonempty length_varint_small)+

interpretation svarint: wire_codec pb_encode_svarint pb_decode_svarint
    "\<lambda>v. varint_bytes (zigzag v)" "\<lambda>_. True"
  by unfold_locales
     (rule pb_encode_svarint_writes decode_svarint_bytes varint_bytes_nonempty length_varint_small)+

lemma decode_varint32_ucast [stream_simps]:
  "pb_decode_varint32 (bufs e (varint_bytes (ucast (v :: u32)) @ bs) rest) = Ok v (bufs e bs rest)"
  using decode_varint32_bytes [of "ucast v" e bs rest] unat_u32 [of v] by simp

interpretation varint32: wire_codec "\<lambda>v. pb_encode_varint (ucast v)" pb_decode_varint32
    "\<lambda>v :: u32. varint_bytes (ucast v)" "\<lambda>_. True"
  by unfold_locales
     (rule pb_encode_varint_writes decode_varint32_ucast varint_bytes_nonempty length_varint_small)+

interpretation fixed32: wire_codec pb_encode_fixed32 pb_decode_fixed32 "le_bytes 4" "\<lambda>_. True"
  by unfold_locales
     (simp_all add: encode_fixed32_eq pb_write_writes decode_fixed32_le le_bytes_nonempty)

interpretation fixed64: wire_codec pb_encode_fixed64 pb_decode_fixed64 "le_bytes 8" "\<lambda>_. True"
  by unfold_locales
     (simp_all add: encode_fixed64_eq pb_write_writes decode_fixed64_le le_bytes_nonempty)

section \<open>Tags and length-delimited strings\<close>

definition tag_word :: "u32 \<Rightarrow> u32 \<Rightarrow> u32" where
  "tag_word wiretype tag = push_bit 3 tag OR wiretype"

lemma tag_word_parts:
  assumes "unat wt < 8" and "unat tag < 2 ^ 29"
  shows "tag_word wt tag AND 7 = wt" and "drop_bit 3 (tag_word wt tag) = tag"
    and "push_bit 3 (ucast tag) OR ucast wt = (ucast (tag_word wt tag) :: u64)"
proof -
  have wt: "\<not> bit wt n" if "3 \<le> n" for n
    using assms(1) that bit_high_zero [of wt 3 n] by simp
  have tag: "\<not> bit tag n" if "29 \<le> n" for n
    using assms(2) that by (rule bit_high_zero)
  have seven: "(7 :: u32) = mask 3" by (simp add: mask_eq_exp_minus_1)
  show "tag_word wt tag AND 7 = wt"
    unfolding seven tag_word_def
    by (rule bit_word_eqI) (use assms(1) in \<open>auto simp: bit_simps dest: bit_bounded [where k = 3, simplified]\<close>)
  show "drop_bit 3 (tag_word wt tag) = tag"
    unfolding tag_word_def
  proof (rule bit_word_eqI)
    fix n assume "n < LENGTH(32)"
    then show "bit (drop_bit 3 (push_bit 3 tag OR wt)) n = bit tag n"
      using wt [of "3 + n"] tag [of n] by (cases "29 \<le> n") (auto simp: bit_simps)
  qed
  show "push_bit 3 (ucast tag) OR ucast wt = (ucast (tag_word wt tag) :: u64)"
    unfolding tag_word_def
  proof (rule bit_word_eqI)
    fix n assume "n < LENGTH(64)"
    then show "bit (push_bit 3 (ucast tag) OR ucast wt :: u64) n =
        bit (ucast (push_bit 3 tag OR wt) :: u64) n"
      using wt [of n] tag [of "n - 3"] by (cases "32 \<le> n") (auto simp: bit_simps)
  qed
qed

text \<open>Protocol buffers limit field numbers to 29 bits.\<close>

definition tag_ok :: "u32 \<Rightarrow> u32 \<Rightarrow> bool" where
  "tag_ok wt tag \<longleftrightarrow> unat wt < 8 \<and> 0 < unat tag \<and> unat tag < 2 ^ 29"

definition tag_bytes :: "u32 \<Rightarrow> u32 \<Rightarrow> u8 list" where
  "tag_bytes wt tag = varint_bytes (push_bit 3 (ucast tag) OR ucast wt)"

lemma pb_encode_tag_writes: "writes (pb_encode_tag wt tag) (tag_bytes wt tag)"
  using pb_encode_varint_writes by (simp add: pb_encode_tag_def [abs_def] tag_bytes_def)

lemma decode_tag_bytes [stream_simps]:
  assumes "tag_ok wt tag"
  shows "pb_decode_tag (bufs e (tag_bytes wt tag @ bs) rest) = Tag wt tag (bufs e bs rest)"
proof -
  have wt: "unat wt < 8" and tag: "unat tag < 2 ^ 29" and "tag \<noteq> 0"
    using assms by (auto simp: tag_ok_def)
  note parts = tag_word_parts [OF wt tag]
  have "tag_word wt tag \<noteq> 0" using parts(2) \<open>tag \<noteq> 0\<close> by auto
  then show ?thesis
    by (simp add: pb_decode_tag_def tag_bytes_def parts stream_simps)
qed

lemma pb_decode_varint32_length [stream_simps]:
  assumes "n < 2 ^ 32"
  shows "pb_decode_varint32 (bufs e (varint_bytes (of_nat n) @ bs) rest) =
    Ok (ucast (of_nat n :: u64)) (bufs e bs rest)"
  using assms by (intro decode_varint32_bytes) simp

text \<open>The parent of a substream keeps its position until the substream is closed.\<close>

definition parent :: "string option \<Rightarrow> u8 list \<Rightarrow> u8 list \<Rightarrow> u8 list \<Rightarrow> 'u pb_istream" where
  "parent e sub bs rest = (bufs e (sub @ bs) rest)\<lparr>bytes_left := length bs\<rparr>"

lemma make_substream_bufs [stream_simps]:
  assumes "length sub < 2 ^ 32"
  shows "pb_make_string_substream (bufs e (varint_bytes (of_nat (length sub)) @ sub @ bs) rest) =
    Ok (bufs e sub (bs @ rest)) (parent e sub bs rest)"
  using assms
  by (simp add: pb_make_string_substream_def stream_simps unat_ucast_of_nat parent_def)

lemma close_substream_bufs [stream_simps]:
  "pb_close_string_substream (bufs e' unread (bs @ rest)) (parent e sub bs rest) =
     Ok () (bufs e' bs rest)"
  by (simp add: pb_close_string_substream_def stream_simps parent_def)

lemma skip_string_bufs [stream_simps]:
  assumes "length sub < 2 ^ 32"
  shows "pb_skip_string (bufs e (varint_bytes (of_nat (length sub)) @ sub @ bs) rest) =
    Ok () (bufs e bs rest)"
  using assms by (simp add: pb_skip_string_def stream_simps unat_ucast_of_nat)

section \<open>Properties of the wire format\<close>

text \<open>
  C16: A varint written by \<open>pb_encode_varint\<close> into a buffer with room takes between one and ten
  bytes, and \<open>pb_decode_varint\<close> on any input that starts with them returns the same 64-bit value
  and leaves exactly the bytes behind it.
\<close>

theorem varint_round_trip:
  assumes "10 \<le> n" and "n \<le> capacity" and "n < 2 ^ 63"
  shows "\<exists>s out. pb_encode_varint v (pb_ostream_from_buffer capacity n) = Ok () s \<and>
      os_state s = OutBuffer out (capacity - length out) \<and> bytes_written s = length out \<and>
      1 \<le> length out \<and> length out \<le> 10 \<and>
      pb_decode_varint (pb_istream_from_buffer (out @ tail) (length out + length tail)) =
        Ok v (pb_istream_from_buffer tail (length tail))"
proof -
  have "length (varint_bytes v) \<le> n" using varint_bytes_10 [of v] assms(1) by simp
  moreover have "1 \<le> length (varint_bytes v)" by (simp add: Suc_le_eq)
  ultimately show ?thesis
    using writes_buffer [OF pb_encode_varint_writes [of v] assms(2,3)] varint_bytes_10 [of v]
      varint.dec_bytes [where a = v and e = None and bs = tail and rest = "[]"]
    by (fastforce simp: from_buffer_bufs)
qed

theorem varint_round_trip_witness:
  "\<exists>s out. pb_encode_varint 300 (pb_ostream_from_buffer 12 10) = Ok () s \<and>
      os_state s = OutBuffer out (12 - length out) \<and> bytes_written s = length out \<and>
      1 \<le> length out \<and> length out \<le> 10 \<and>
      pb_decode_varint (pb_istream_from_buffer (out @ [7]) (length out + length [7 :: u8])) =
        Ok 300 (pb_istream_from_buffer [7] (length [7 :: u8]))"
  by (rule varint_round_trip) simp_all

text \<open>
  \<open>pb_encode_svarint\<close> and \<open>pb_decode_svarint\<close> are inverse on every signed 64-bit value, the
  most negative one included, and the encoding takes at most ten bytes.
\<close>

theorem svarint_round_trip:
  assumes "10 \<le> n" and "n \<le> capacity" and "n < 2 ^ 63"
  shows "\<exists>s out. pb_encode_svarint v (pb_ostream_from_buffer capacity n) = Ok () s \<and>
      os_state s = OutBuffer out (capacity - length out) \<and> length out \<le> 10 \<and>
      pb_decode_svarint (pb_istream_from_buffer (out @ tail) (length out + length tail)) =
        Ok v (pb_istream_from_buffer tail (length tail))"
proof -
  have "length (varint_bytes (zigzag v)) \<le> n" using varint_bytes_10 [of "zigzag v"] assms(1) by simp
  then show ?thesis
    using writes_buffer [OF pb_encode_svarint_writes [of v] assms(2,3)] varint_bytes_10 [of "zigzag v"]
      svarint.dec_bytes [where a = v and e = None and bs = tail and rest = "[]"]
    by (fastforce simp: from_buffer_bufs)
qed

theorem svarint_round_trip_witness:
  "\<exists>s out. pb_encode_svarint (- 1) (pb_ostream_from_buffer 10 10) = Ok () s \<and>
      os_state s = OutBuffer out (10 - length out) \<and> length out \<le> 10 \<and>
      pb_decode_svarint (pb_istream_from_buffer (out @ [1]) (length out + length [1 :: u8])) =
        Ok (- 1) (pb_istream_from_buffer [1] (length [1 :: u8]))"
  by (rule svarint_round_trip) simp_all

text \<open>
  A field key written by \<open>pb_encode_tag\<close> is read back by \<open>pb_decode_tag\<close>, for every field
  number of the protocol (29 bits, not zero) and every wire type.
\<close>

theorem tag_round_trip:
  assumes "tag_ok wt tag" and "10 \<le> n" and "n \<le> capacity" and "n < 2 ^ 63"
  shows "\<exists>s out. pb_encode_tag wt tag (pb_ostream_from_buffer capacity n) = Ok () s \<and>
      os_state s = OutBuffer out (capacity - length out) \<and>
      pb_decode_tag (pb_istream_from_buffer (out @ tail) (length out + length tail)) =
        Tag wt tag (pb_istream_from_buffer tail (length tail))"
proof -
  have "length (tag_bytes wt tag) \<le> 10" by (simp add: tag_bytes_def varint_bytes_10)
  then show ?thesis
    using writes_buffer [OF pb_encode_tag_writes [of wt tag] assms(3,4)] assms(2)
      decode_tag_bytes [OF assms(1), of None tail "[]"]
    by (fastforce simp: from_buffer_bufs)
qed

theorem tag_round_trip_witness:
  "\<exists>s out. pb_encode_tag 2 1000 (pb_ostream_from_buffer 10 10) = Ok () s \<and>
      os_state s = OutBuffer out (10 - length out) \<and>
      pb_decode_tag (pb_istream_from_buffer (out @ []) (length out + length ([] :: u8 list))) =
        Tag 2 1000 (pb_istream_from_buffer [] (length ([] :: u8 list)))"
  by (rule tag_round_trip) (simp_all add: tag_ok_def)

text \<open>
  C17: A string written by \<open>pb_encode_string\<close> is delimited by \<open>pb_make_string_substream\<close>: the
  substream holds exactly its bytes, and whatever part of them the reader leaves unread,
  \<open>pb_close_string_substream\<close> puts the parent behind the string, where \<open>pb_skip_string\<close> goes too.
\<close>

theorem string_round_trip:
  assumes "length str < 2 ^ 32" and "length str + 10 \<le> n" and "n \<le> capacity" and "n < 2 ^ 63"
  shows "\<exists>s out. pb_encode_string (Some str) (length str) (pb_ostream_from_buffer capacity n) = Ok () s \<and>
      os_state s = OutBuffer out (capacity - length out) \<and>
      (let input = pb_istream_from_buffer (out @ tail) (length out + length tail);
           after = pb_istream_from_buffer tail (length tail)
       in (\<exists>par. pb_make_string_substream input = Ok (bufs None str tail) par \<and>
             (\<forall>k. pb_close_string_substream (bufs None (drop k str) tail) par = Ok () after)) \<and>
          pb_skip_string input = Ok () after)"
proof -
  let ?out = "varint_bytes (of_nat (length str)) @ str"
  have "length ?out \<le> length str + 10"
    using varint_bytes_10 [of "of_nat (length str)"] by simp
  then obtain s :: "'a pb_ostream" where s:
      "pb_encode_string (Some str) (length str) (pb_ostream_from_buffer capacity n) = Ok () s"
      "os_state s = OutBuffer ?out (capacity - length ?out)"
    using writes_buffer [OF pb_encode_string_writes [OF refl, of str] assms(3,4)] assms
    by fastforce
  show ?thesis
    using s make_substream_bufs [OF assms(1), of None tail "[]"]
      close_substream_bufs [of None _ tail "[]" None str] skip_string_bufs [OF assms(1), of None tail "[]"]
    by (intro exI [of _ s] exI [of _ ?out]) (auto simp: from_buffer_bufs Let_def)
qed

theorem string_round_trip_witness:
  "\<exists>s out. pb_encode_string (Some [104, 105]) (length [104, 105 :: u8])
        (pb_ostream_from_buffer 20 16) = Ok () s \<and>
      os_state s = OutBuffer out (20 - length out) \<and>
      (let input = pb_istream_from_buffer (out @ [9]) (length out + length [9 :: u8]);
           after = pb_istream_from_buffer [9] (length [9 :: u8])
       in (\<exists>par. pb_make_string_substream input = Ok (bufs None [104, 105] [9]) par \<and>
             (\<forall>k. pb_close_string_substream (bufs None (drop k [104, 105]) [9]) par = Ok () after)) \<and>
          pb_skip_string input = Ok () after)"
  by (rule string_round_trip) simp_all

text \<open>
  The fixed-width codecs are inverse to each other on every value and use exactly four and
  eight bytes, least significant byte first.
\<close>

theorem fixed_round_trip:
  assumes "8 \<le> n" and "n \<le> capacity" and "n < 2 ^ 63"
  shows "(\<exists>s. pb_encode_fixed32 v (pb_ostream_from_buffer capacity n) = Ok () s \<and>
        os_state s = OutBuffer (le_bytes 4 v) (capacity - 4)) \<and>
      (\<exists>s. pb_encode_fixed64 w (pb_ostream_from_buffer capacity n) = Ok () s \<and>
        os_state s = OutBuffer (le_bytes 8 w) (capacity - 8)) \<and>
      pb_decode_fixed32 (pb_istream_from_buffer (le_bytes 4 v @ tail) (4 + length tail)) =
        Ok v (pb_istream_from_buffer tail (length tail)) \<and>
      pb_decode_fixed64 (pb_istream_from_buffer (le_bytes 8 w @ tail) (8 + length tail)) =
        Ok w (pb_istream_from_buffer tail (length tail))"
  using writes_buffer [OF fixed32.enc_writes [OF TrueI, of v] assms(2,3)]
    writes_buffer [OF fixed64.enc_writes [OF TrueI, of w] assms(2,3)] assms(1)
    fixed32.dec_bytes [where a = v and e = None and bs = tail and rest = "[]"] fixed64.dec_bytes [where a = w and e = None and bs = tail and rest = "[]"]
  by (fastforce simp: from_buffer_bufs)

theorem fixed_round_trip_witness:
  "(\<exists>s. pb_encode_fixed32 7 (pb_ostream_from_buffer 8 8) = Ok () s \<and>
        os_state s = OutBuffer (le_bytes 4 (7 :: u32)) (8 - 4)) \<and>
      (\<exists>s. pb_encode_fixed64 9 (pb_ostream_from_buffer 8 8) = Ok () s \<and>
        os_state s = OutBuffer (le_bytes 8 (9 :: u64)) (8 - 8)) \<and>
      pb_decode_fixed32 (pb_istream_from_buffer (le_bytes 4 (7 :: u32) @ [1]) (4 + length [1 :: u8])) =
        Ok 7 (pb_istream_from_buffer [1] (length [1 :: u8])) \<and>
      pb_decode_fixed64 (pb_istream_from_buffer (le_bytes 8 (9 :: u64) @ [1]) (8 + length [1 :: u8])) =
        Ok 9 (pb_istream_from_buffer [1] (length [1 :: u8]))"
  by (rule fixed_round_trip) simp_all

end
