(* ===== verification/PbSafety.thy ===== *)
theory PbSafety
  imports PbDecode PbCodec
begin

text \<open>
  Memory safety and termination of the decoder.  For every input, a decoder that runs on a memory
  buffer returns: it does not read past the buffer, it writes only inside the message struct, no
  undefined behaviour occurs and the fuel suffices.

  The first part treats the wire-level readers, the second the decoders of values and fields, the
  third the message loop and the recursion into submessages.
\<close>

section \<open>Readers on arbitrary input\<close>

text \<open>
  \<open>sfx i bs rest s\<close>: the stream \<open>s\<close> is the buffer stream over \<open>bs\<close> after at least \<open>i\<close> bytes were
  consumed.  \<open>in_buffer rest s\<close>: the bytes \<open>s\<close> may still deliver and the \<open>rest\<close> behind them are
  in the buffer (what holds of the stream an error leaves behind).
\<close>

definition sfx :: "nat \<Rightarrow> u8 list \<Rightarrow> u8 list \<Rightarrow> 'u pb_istream \<Rightarrow> bool" where
  "sfx i bs rest s \<longleftrightarrow> (\<exists>e bs'. suffix bs' bs \<and> length bs' + i \<le> length bs \<and> s = bufs e bs' rest)"

definition in_buffer :: "u8 list \<Rightarrow> 'u pb_istream \<Rightarrow> bool" where
  "in_buffer rest s \<longleftrightarrow>
     is_callback s = BufRead \<and> (\<exists>y. is_state s = Buffer y \<and> bytes_left s + length rest \<le> length y)"

definition rd :: "nat \<Rightarrow> ('u, 'a) reader \<Rightarrow> bool" where
  "rd i r \<longleftrightarrow> (\<forall>e bs rest. ends (\<lambda>_. sfx i bs rest) (sfx 0 bs rest) (r (bufs e bs rest)))"

lemma sfxI: "suffix bs' bs \<Longrightarrow> length bs' + i \<le> length bs \<Longrightarrow> sfx i bs rest (bufs e bs' rest)"
  by (auto simp: sfx_def)

lemma sfxE:
  assumes "sfx i bs rest s"
  obtains e bs' where "suffix bs' bs" "length bs' + i \<le> length bs" "s = bufs e bs' rest"
  using assms by (auto simp: sfx_def)

lemma sfx_refl [simp]: "sfx 0 bs rest (bufs e bs rest)"
  by (rule sfxI) simp_all

lemma sfx_drop: "i \<le> k \<Longrightarrow> k \<le> length bs \<Longrightarrow> sfx i bs rest (bufs e (drop k bs) rest)"
  by (rule sfxI) (simp_all add: suffix_drop)

lemma sfx_mono: "sfx i bs rest s \<Longrightarrow> j \<le> i \<Longrightarrow> sfx j bs rest s"
  by (fastforce simp: sfx_def)

lemma sfx_trans:
  "suffix bs' bs \<Longrightarrow> length bs' + i \<le> length bs \<Longrightarrow> sfx j bs' rest s \<Longrightarrow> sfx (i + j) bs rest s"
  by (elim sfxE, hypsubst, rule sfxI, erule (1) suffix_order.trans) simp

lemma sfx_Cons: "sfx i bs rest s \<Longrightarrow> sfx (Suc i) (b # bs) rest s"
  using sfx_trans [of bs "b # bs" 1 i] by (simp add: suffix_ConsI)

lemma sfx_in_buffer: "sfx i bs rest s \<Longrightarrow> in_buffer rest s"
  by (auto simp: sfx_def in_buffer_def)

lemma in_buffer_bufs [simp]: "in_buffer rest (bufs e bs rest)"
  by (simp add: in_buffer_def)

lemma in_buffer_error [simp]: "in_buffer rest (PB_SET_ERROR msg s) = in_buffer rest s"
  by (simp add: in_buffer_def PB_SET_ERROR_def)

lemma rdI: "(\<And>e bs rest. ends (\<lambda>_. sfx i bs rest) (sfx 0 bs rest) (r (bufs e bs rest))) \<Longrightarrow> rd i r"
  by (simp add: rd_def)

lemma rdD: "rd i r \<Longrightarrow> ends (\<lambda>_. sfx i bs rest) (sfx 0 bs rest) (r (bufs e bs rest))"
  by (simp add: rd_def)

lemma rd_bind:
  fixes r :: "('u, 'a) reader"
  assumes "rd i r" and "\<And>a. rd j (f a)"
  shows "rd (i + j) (\<lambda>s. bind_res (r s) f)"
proof (rule rdI)
  fix e and bs rest :: "u8 list"
  show "ends (\<lambda>_. sfx (i + j) bs rest) (sfx 0 bs rest) (bind_res (r (bufs e bs rest)) f)"
  proof (rule ends_bind [OF rdD [OF assms(1)]])
    fix a and s :: "'u pb_istream"
    assume "sfx i bs rest s"
    then obtain e' bs' where bs': "suffix bs' bs" "length bs' + i \<le> length bs" and s: "s = bufs e' bs' rest"
      by (rule sfxE)
    show "ends (\<lambda>_. sfx (i + j) bs rest) (sfx 0 bs rest) (f a s)"
      unfolding s
      by (rule ends_mono [OF rdD [OF assms(2)]])
         (auto intro: sfx_trans [OF bs'] sfx_mono [OF sfx_trans [OF bs']])
  qed
qed

lemma rd_if [intro]: "(c \<Longrightarrow> rd i f) \<Longrightarrow> (\<not> c \<Longrightarrow> rd i g) \<Longrightarrow> rd i (\<lambda>s. if c then f s else g s)"
  by (cases c) simp_all

lemma rd_mono: "rd i r \<Longrightarrow> j \<le> i \<Longrightarrow> rd j r"
  unfolding rd_def by (blast intro: ends_mono sfx_mono)

lemma rd_Ok [simp]: "rd 0 (\<lambda>s. Ok a s)"
  by (simp add: rd_def)

lemma rd_error [simp]: "rd i (PB_RETURN_ERROR msg)"
  by (simp add: rd_def stream_simps)

lemma rd_read [simp]: "i \<le> n \<Longrightarrow> rd i (pb_read n)" "i \<le> n \<Longrightarrow> rd i (pb_read_null n)"
  by (auto simp: rd_def stream_simps intro: sfx_drop)

lemma rd_readbyte [simp]: "rd (Suc 0) pb_readbyte"
proof (rule rdI)
  fix e and bs rest :: "u8 list"
  show "ends (\<lambda>_. sfx (Suc 0) bs rest) (sfx 0 bs rest) (pb_readbyte (bufs e bs rest))"
    by (cases bs) (auto simp: stream_simps intro: sfxI suffix_ConsI)
qed

lemma rd_varint_loop: "rd (Suc 0) (pb_decode_varint_loop bitpos result)"
proof (rule rdI)
  fix e and bs rest :: "u8 list"
  show "ends (\<lambda>_. sfx (Suc 0) bs rest) (sfx 0 bs rest) (pb_decode_varint_loop bitpos result (bufs e bs rest))"
  proof (induction bs arbitrary: bitpos result)
    case Nil
    show ?case by (subst pb_decode_varint_loop.simps) (simp add: stream_simps)
  next
    case (Cons b bs)
    show ?case
      by (subst pb_decode_varint_loop.simps)
         (auto simp: stream_simps Let_def intro: sfxI suffix_ConsI
          intro!: ends_mono [OF Cons.IH] sfx_mono [OF sfx_Cons])
  qed
qed

lemma rd_varint32_loop: "rd (Suc 0) (pb_decode_varint32_loop bitpos result)"
proof (rule rdI)
  fix e and bs rest :: "u8 list"
  show "ends (\<lambda>_. sfx (Suc 0) bs rest) (sfx 0 bs rest) (pb_decode_varint32_loop bitpos result (bufs e bs rest))"
  proof (induction bs arbitrary: bitpos result)
    case Nil
    show ?case by (subst pb_decode_varint32_loop.simps) (simp add: stream_simps)
  next
    case (Cons b bs)
    show ?case
      by (subst pb_decode_varint32_loop.simps)
         (auto simp: stream_simps Let_def intro: sfxI suffix_ConsI
          intro!: ends_mono [OF Cons.IH] sfx_mono [OF sfx_Cons])
  qed
qed

lemma rd_varint [simp]: "rd (Suc 0) pb_decode_varint"
  using rd_varint_loop by (simp add: pb_decode_varint_def [abs_def])

lemma rd_varint32 [simp]: "rd (Suc 0) pb_decode_varint32"
proof -
  have "rd (Suc 0 + 0) (pb_decode_varint32 :: ('u, u32) reader)"
    unfolding pb_decode_varint32_def [abs_def]
    by (rule rd_bind) (auto intro: rd_mono [OF rd_varint32_loop])
  then show ?thesis by simp
qed

lemma rd_svarint [simp]: "rd (Suc 0) pb_decode_svarint"
proof -
  have "rd (Suc 0 + 0) (pb_decode_svarint :: ('u, 64 word) reader)"
    unfolding pb_decode_svarint_def [abs_def] by (rule rd_bind) auto
  then show ?thesis by simp
qed

lemma rd_fixed [simp]: "rd (Suc 0) pb_decode_fixed32" "rd (Suc 0) pb_decode_fixed64"
  by (auto simp: rd_def pb_decode_fixed32_def pb_decode_fixed64_def stream_simps intro: sfx_drop)

lemma rd_skip_varint [simp]: "rd (Suc 0) pb_skip_varint"
proof (rule rdI)
  fix e and bs rest :: "u8 list"
  show "ends (\<lambda>_. sfx (Suc 0) bs rest) (sfx 0 bs rest) (pb_skip_varint (bufs e bs rest))"
  proof (induction bs)
    case Nil
    show ?case by (subst pb_skip_varint.simps) (simp add: stream_simps)
  next
    case (Cons b bs)
    show ?case
      by (subst pb_skip_varint.simps)
         (auto simp: stream_simps intro: sfxI suffix_ConsI intro!: ends_mono [OF Cons.IH] sfx_mono [OF sfx_Cons])
  qed
qed

lemma rd_skip_string [simp]: "rd 0 pb_skip_string"
proof -
  have "rd (Suc 0 + 0) (pb_skip_string :: ('u, unit) reader)"
    unfolding pb_skip_string_def [abs_def] by (rule rd_bind) auto
  then show ?thesis by (rule rd_mono) simp
qed

lemma rd_skip_field [simp]: "rd 0 (pb_skip_field wt)"
  unfolding pb_skip_field_def [abs_def]
  by (intro rd_if) (auto intro: rd_mono [OF rd_skip_varint])

lemma rd_raw_varint: "rd 0 (read_raw_varint limit acc)"
proof (rule rdI)
  fix e and bs rest :: "u8 list"
  show "ends (\<lambda>_. sfx 0 bs rest) (sfx 0 bs rest) (read_raw_varint limit acc (bufs e bs rest))"
  proof (induction bs arbitrary: acc)
    case Nil
    show ?case by (subst read_raw_varint.simps) (simp add: stream_simps)
  next
    case (Cons b bs)
    show ?case
      by (subst read_raw_varint.simps)
         (auto simp: stream_simps intro: sfxI suffix_ConsI intro!: ends_mono [OF Cons.IH] sfx_mono [OF sfx_Cons])
  qed
qed

lemma rd_raw_value [simp]: "rd 0 (read_raw_value wt limit)"
  unfolding read_raw_value_def [abs_def] by (intro rd_if) (auto intro: rd_raw_varint)

lemma decode_tag_cases:
  fixes e :: "string option" and bs rest :: "u8 list"
  obtains (Tag) wt tag and s :: "'u pb_istream" where
      "pb_decode_tag (bufs e bs rest) = Tag wt tag s" "sfx (Suc 0) bs rest s" "unat tag < 2 ^ 29"
    | (NoTag) eof and s :: "'u pb_istream" where
      "pb_decode_tag (bufs e bs rest) = NoTag eof s" "sfx 0 bs rest s"
proof -
  have tag: "unat (drop_bit 3 w) < 2 ^ 29" for w :: u32
    using unat_u32 [of w] by (simp add: unat_drop_bit_div)
  have fin: "ends (\<lambda>_. sfx (Suc 0) bs rest) (sfx 0 bs rest)
      (pb_decode_varint32 (bufs e bs rest :: 'u pb_istream))"
    by (rule rdD) simp
  show thesis
  proof (cases "pb_decode_varint32 (bufs e bs rest :: 'u pb_istream)")
    case (Ok w s)
    then have s: "sfx (Suc 0) bs rest s" using fin by simp
    show thesis
    proof (cases "w = 0")
      case True
      then show thesis using Ok s NoTag [of True s] sfx_mono [OF s, of 0] by (simp add: pb_decode_tag_def)
    next
      case False
      then show thesis using Ok s Tag [of "w AND 7" "drop_bit 3 w" s] tag by (simp add: pb_decode_tag_def)
    qed
  qed (use fin NoTag in \<open>auto simp: pb_decode_tag_def\<close>)
qed

text \<open>A substream over the bytes \<open>x\<close> and its parent, over \<open>y\<close>.\<close>

lemma make_substream_cases:
  "ends (\<lambda>sub s. \<exists>e' x y. suffix (x @ y) bs \<and> length (x @ y) < length bs \<and>
       sub = bufs e' x (y @ rest) \<and> s = parent e' x y rest)
     (in_buffer rest) (pb_make_string_substream (bufs e bs rest))"
  unfolding pb_make_string_substream_def
proof (rule ends_bind [OF rdD [OF rd_varint32]])
  fix size and s :: "'a pb_istream"
  assume "sfx (Suc 0) bs rest s"
  then obtain e' bs' where bs': "suffix bs' bs" "length bs' + Suc 0 \<le> length bs" and s: "s = bufs e' bs' rest"
    by (rule sfxE)
  let ?n = "unat size"
  show "ends (\<lambda>sub s. \<exists>e' x y. suffix (x @ y) bs \<and> length (x @ y) < length bs \<and>
        sub = bufs e' x (y @ rest) \<and> s = parent e' x y rest) (in_buffer rest)
      (if bytes_left s < ?n then PB_RETURN_ERROR ''parent stream too short'' s
       else Ok (s\<lparr>bytes_left := ?n\<rparr>) (s\<lparr>bytes_left := bytes_left s - ?n\<rparr>))"
  proof (cases "bytes_left s < ?n")
    case False
    then have "suffix (take ?n bs' @ drop ?n bs') bs" "s\<lparr>bytes_left := ?n\<rparr> = bufs e' (take ?n bs') (drop ?n bs' @ rest)"
        "s\<lparr>bytes_left := bytes_left s - ?n\<rparr> = parent e' (take ?n bs') (drop ?n bs') rest"
      using bs' by (simp_all add: s parent_def bufs_def flip: append_assoc)
    with False bs' show ?thesis
      by (simp del: append_take_drop_id)
         (intro exI [of _ e'] exI [of _ "take ?n bs'"] exI [of _ "drop ?n bs'"], simp)
  qed (simp add: s stream_simps)
qed (rule sfx_in_buffer)

section \<open>Decoders of values\<close>

text \<open>
  \<open>dc R i n d\<close>: on every buffer stream with at most \<open>n\<close> bytes left, the decoder \<open>d\<close> returns, consumes
  at least \<open>i\<close> bytes when it succeeds, stays within the buffer and writes only inside \<open>R\<close>.
\<close>

definition dc_ok :: "addr set \<Rightarrow> nat \<Rightarrow> u8 list \<Rightarrow> u8 list \<Rightarrow> mem \<Rightarrow> 'a \<Rightarrow> 'u dstate \<Rightarrow> bool" where
  "dc_ok R i bs rest m a st \<longleftrightarrow> sfx i bs rest (fst st) \<and> agree_off R m (snd st)"

definition dc_err :: "addr set \<Rightarrow> u8 list \<Rightarrow> mem \<Rightarrow> 'u dstate \<Rightarrow> bool" where
  "dc_err R rest m st \<longleftrightarrow> in_buffer rest (fst st) \<and> agree_off R m (snd st)"

definition dc :: "addr set \<Rightarrow> nat \<Rightarrow> nat \<Rightarrow> ('u, 'a) decoder \<Rightarrow> bool" where
  "dc R i n d \<longleftrightarrow>
     (\<forall>e bs rest m. length bs \<le> n \<longrightarrow>
        ends (dc_ok R i bs rest m) (dc_err R rest m) (d (bufs e bs rest, m)))"

lemma dcI:
  "(\<And>e bs rest m. length bs \<le> n \<Longrightarrow>
      ends (dc_ok R i bs rest m) (dc_err R rest m) (d (bufs e bs rest, m))) \<Longrightarrow> dc R i n d"
  by (simp add: dc_def)

lemma dcD:
  "dc R i n d \<Longrightarrow> length bs \<le> n \<Longrightarrow>
     ends (dc_ok R i bs rest m) (dc_err R rest m) (d (bufs e bs rest, m))"
  by (simp add: dc_def)

lemma dc_stream: "rd i r \<Longrightarrow> dc R i n (on_stream r)"
  by (rule dcI, rule ends_mono [of "\<lambda>_ st. sfx i _ _ (fst st) \<and> snd st = _" "\<lambda>st. sfx 0 _ _ (fst st) \<and> snd st = _"])
     (auto simp: on_stream_def ends_map_state dc_ok_def dc_err_def dest: rdD sfx_in_buffer)

lemma dc_mono: "dc R i n d \<Longrightarrow> j \<le> i \<Longrightarrow> k \<le> n \<Longrightarrow> dc R j k d"
  unfolding dc_def dc_ok_def by (blast intro: ends_mono sfx_mono order.trans)

lemma dc_Ok [simp]: "dc R 0 n (\<lambda>st. Ok a st)"
  by (simp add: dc_def dc_ok_def)

lemma dc_error [simp]: "dc R i n (dec_error msg)"
  by (simp add: dc_def dec_error_def dc_err_def)

lemma dc_if [intro]:
  "(c \<Longrightarrow> dc R i n f) \<Longrightarrow> (\<not> c \<Longrightarrow> dc R i n g) \<Longrightarrow> dc R i n (\<lambda>st. if c then f st else g st)"
  by (cases c) simp_all

lemma dc_bind:
  fixes d :: "('u, 'a) decoder"
  assumes "dc R i n d" and "\<And>a. dc R j (n - i) (f a)"
  shows "dc R (i + j) n (\<lambda>st. bind_res (d st) f)"
proof (rule dcI)
  fix e and bs rest :: "u8 list" and m
  assume n: "length bs \<le> n"
  show "ends (dc_ok R (i + j) bs rest m) (dc_err R rest m) (bind_res (d (bufs e bs rest, m)) f)"
  proof (rule ends_bind [OF dcD [OF assms(1) n]])
    fix a :: 'a and st :: "'u dstate"
    assume st: "dc_ok R i bs rest m a st"
    then obtain e' bs' where bs': "suffix bs' bs" "length bs' + i \<le> length bs"
        and s: "st = (bufs e' bs' rest, snd st)"
      by (auto simp: dc_ok_def prod_eq_iff elim: sfxE)
    have agree: "agree_off R m (snd st)" using st by (simp add: dc_ok_def)
    have "ends (dc_ok R j bs' rest (snd st)) (dc_err R rest (snd st)) (f a st)"
      using n bs' by (subst s, intro dcD [OF assms(2)]) simp
    then show "ends (dc_ok R (i + j) bs rest m) (dc_err R rest m) (f a st)"
      by (rule ends_mono)
         (auto simp: dc_ok_def dc_err_def intro: sfx_trans [OF bs'] agree_off_trans [OF agree])
  qed
qed

lemma dc_upd:
  assumes "\<And>m. agree_off R m (g m)" and "dc R i n d"
  shows "dc R i n (\<lambda>st. d (fst st, g (snd st)))"
proof (rule dcI)
  fix e and bs rest :: "u8 list" and m
  assume "length bs \<le> n"
  then have "ends (dc_ok R i bs rest (g m)) (dc_err R rest (g m)) (d (bufs e bs rest, g m))"
    by (rule dcD [OF assms(2)])
  then show "ends (dc_ok R i bs rest m) (dc_err R rest m)
      (d (fst (bufs e bs rest, m), g (snd (bufs e bs rest, m))))"
    unfolding fst_conv snd_conv
    by (rule ends_mono) (auto simp: dc_ok_def dc_err_def intro: agree_off_trans [OF assms(1)])
qed

lemma dc_store: "reg a (length bs) \<subseteq> R \<Longrightarrow> dc R 0 n (\<lambda>st. Ok () (fst st, store_bytes (snd st) a bs))"
  by (simp add: dc_def dc_ok_def agree_off_store)

text \<open>The common ending of the integer decoders: store, then compare with the stored value.\<close>

lemma dc_clamp:
  "reg a (length bs) \<subseteq> R \<Longrightarrow>
     dc R 0 n (\<lambda>st. if c then dec_error msg (fst st, store_bytes (snd st) a bs)
                     else Ok () (fst st, store_bytes (snd st) a bs))"
  by (auto simp: dc_def dc_ok_def dc_err_def dec_error_def agree_off_store)

lemma dc_after: "rd (Suc 0) r \<Longrightarrow> (\<And>a. dc R 0 (n - Suc 0) (f a)) \<Longrightarrow>
    dc R (Suc 0) n (\<lambda>st. bind_res (on_stream r st) f)"
  using dc_bind [OF dc_stream, of "Suc 0" r R 0 n f] by simp

lemma dc_varints:
  assumes "reg a (unat (f_data_size f)) \<subseteq> R"
  shows "dc R (Suc 0) n (pb_dec_varint f a)" and "dc R (Suc 0) n (pb_dec_uvarint f a)"
    and "dc R (Suc 0) n (pb_dec_svarint f a)"
  unfolding pb_dec_varint_def [abs_def] pb_dec_uvarint_def [abs_def] pb_dec_svarint_def [abs_def] Let_def
  using assms by (intro dc_after dc_if dc_clamp; simp)+

lemma dc_fixed:
  "reg a 4 \<subseteq> R \<Longrightarrow> dc R (Suc 0) n (pb_dec_fixed32 f a)"
  "reg a 8 \<subseteq> R \<Longrightarrow> dc R (Suc 0) n (pb_dec_fixed64 f a)"
  unfolding pb_dec_fixed32_def [abs_def] pb_dec_fixed64_def [abs_def]
  by (intro dc_after dc_store; simp)+

lemma dc_read_to: "reg a k \<subseteq> R \<Longrightarrow> dc R 0 n (pb_read_to a k)"
  by (rule dcI)
     (auto simp: pb_read_to_def on_stream_def stream_simps dc_ok_def dc_err_def
      intro!: agree_off_store sfx_drop)

lemma dc_map_mem:
  assumes "\<And>m. agree_off R m (g m)" and "dc R i n d"
  shows "dc R i n (\<lambda>st. map_state (\<lambda>(s, m). (s, g m)) (d st))"
proof (rule dcI)
  fix e and bs rest :: "u8 list" and m
  assume "length bs \<le> n"
  then show "ends (dc_ok R i bs rest m) (dc_err R rest m)
      (map_state (\<lambda>(s, m). (s, g m)) (d (bufs e bs rest, m)))"
    unfolding ends_map_state
    by (rule ends_mono [OF dcD [OF assms(2)]])
       (auto simp: dc_ok_def dc_err_def intro: agree_off_trans [OF _ assms(1)])
qed

lemma unat_plus_1_cases:
  fixes w :: u32
  shows "unat (w + 1) < unat w \<or> unat (w + 1) = unat w + 1"
proof (cases "unat w + 1 = 2 ^ 32")
  case True
  then show ?thesis by (simp add: unat_word_ariths)
next
  case False
  then have "unat w + 1 < 2 ^ 32" using unat_u32 [of w] by simp
  then show ?thesis by (simp add: unat_word_ariths)
qed

lemma dc_bytes:
  assumes "reg a (unat (f_data_size f)) \<subseteq> R"
  shows "dc R (Suc 0) n (pb_dec_bytes f a)" and "dc R (Suc 0) n (pb_dec_string f a)"
    and "dc R (Suc 0) n (pb_dec_fixed_length_bytes f a)"
proof -
  have sub: "reg (a + int j) k \<subseteq> R" if "j + k \<le> unat (f_data_size f)" for j k
  proof -
    have "int (j + k) \<le> int (unat (f_data_size f))" using that by (simp only: of_nat_le_iff)
    then show ?thesis by (intro order.trans [OF reg_mono assms]) simp_all
  qed
  show "dc R (Suc 0) n (pb_dec_bytes f a)"
    unfolding pb_dec_bytes_def [abs_def] Let_def store32_def
  proof (intro dc_after dc_if dc_upd [where g = "\<lambda>m. store_bytes m _ _"] dc_read_to agree_off_store)
    fix w :: u32
    assume "\<not> unat (f_data_size f) < PB_BYTES_ARRAY_T_ALLOCSIZE (unat w)"
    then have w: "4 + unat w \<le> unat (f_data_size f)" by simp
    show "reg (a + 4) (unat w) \<subseteq> R" using sub [OF w] by simp
    show "reg a (length (le_bytes 4 w)) \<subseteq> R" using sub [of 0 4] w by simp
  qed simp_all
  show "dc R (Suc 0) n (pb_dec_string f a)"
    unfolding pb_dec_string_def [abs_def] Let_def
  proof (intro dc_after dc_if dc_map_mem dc_read_to agree_off_upd)
    fix w :: u32
    assume "\<not> unat (w + 1) < unat w" and "\<not> unat (f_data_size f) < unat (w + 1)"
    then have w: "unat w + 1 \<le> unat (f_data_size f)" using unat_plus_1_cases [of w] by simp
    then show "reg a (unat w) \<subseteq> R" using sub [of 0 "unat w"] by simp
    show "a + uint w \<in> R" using sub [of "unat w" 1] w by (auto simp: subset_iff mem_reg)
  qed simp_all
  show "dc R (Suc 0) n (pb_dec_fixed_length_bytes f a)"
    unfolding pb_dec_fixed_length_bytes_def [abs_def]
    using assms by (intro dc_after dc_if dc_store dc_read_to) auto
qed

section \<open>Substreams\<close>

lemma close_in_buffer:
  assumes "in_buffer (y @ rest) sub"
  shows "\<exists>s. pb_close_string_substream sub (parent e x y rest) = Ok () s \<and> in_buffer rest s"
proof -
  obtain z where z: "is_callback sub = BufRead" "is_state sub = Buffer z"
      "bytes_left sub + length (y @ rest) \<le> length z"
    using assms by (auto simp: in_buffer_def)
  show ?thesis
    using z
    by (simp add: pb_close_string_substream_def pb_read_null_def pb_read_def call_in_callback_def
        buf_read_def in_buffer_def parent_def) linarith
qed

text \<open>Decoding from a substream and closing it, whatever the outcome.\<close>

lemma close_both:
  fixes r :: "('u dstate, unit) res"
  assumes "ends (dc_ok R 0 x (y @ rest) m) (dc_err R (y @ rest) m) r"
    and "suffix (x @ y) bs" and "length (x @ y) < length bs"
  shows "ends (dc_ok R (Suc 0) bs rest m) (dc_err R rest m)
    (case r of
       Ok _ (sub, m') \<Rightarrow> close_after sub True (parent e x y rest, m')
     | Err (sub, m') \<Rightarrow> close_after sub False (parent e x y rest, m')
     | Fault \<Rightarrow> Fault | Diverge \<Rightarrow> Diverge)"
proof (cases r)
  case (Ok u st)
  then obtain e' x' where st: "st = (bufs e' x' (y @ rest), snd st)" and agree: "agree_off R m (snd st)"
    using assms(1) by (auto simp: dc_ok_def prod_eq_iff elim: sfxE)
  have "suffix y bs" using assms(2) by (simp add: suffix_appendD)
  then have "sfx (Suc 0) bs rest (bufs e' y rest)" using assms(3) by (intro sfxI) auto
  then show ?thesis
    using Ok agree by (subst (asm) st) (simp add: close_after_def on_stream_def stream_simps dc_ok_def)
next
  case (Err st)
  then have "in_buffer (y @ rest) (fst st)" and agree: "agree_off R m (snd st)"
    using assms(1) by (auto simp: dc_err_def)
  then obtain s where "pb_close_string_substream (fst st) (parent e x y rest) = Ok () s" "in_buffer rest s"
    using close_in_buffer by blast
  then show ?thesis
    using Err agree by (cases st) (simp add: close_after_def on_stream_def dc_err_def)
qed (use assms(1) in simp_all)

lemma dc_make_substream:
  fixes f :: "'u pb_istream \<Rightarrow> ('u, unit) decoder"
  assumes "\<And>e x y rest bs m. suffix (x @ y) bs \<Longrightarrow> length (x @ y) < length bs \<Longrightarrow> length bs \<le> n \<Longrightarrow>
    ends (dc_ok R (Suc 0) bs rest m) (dc_err R rest m) (f (bufs e x (y @ rest)) (parent e x y rest, m))"
  shows "dc R (Suc 0) n (\<lambda>st. bind_res (on_stream pb_make_string_substream st) f)"
proof (rule dcI)
  fix e and bs rest :: "u8 list" and m
  assume n: "length bs \<le> n"
  let ?P = "\<lambda>sub s. \<exists>e' x y. suffix (x @ y) bs \<and> length (x @ y) < length bs \<and>
       sub = bufs e' x (y @ rest) \<and> s = parent e' x y rest"
  have "ends (\<lambda>sub st. ?P sub (fst st) \<and> snd st = m) (\<lambda>st. in_buffer rest (fst st) \<and> snd st = m)
      (on_stream pb_make_string_substream (bufs e bs rest, m))"
    unfolding on_stream_def ends_map_state fst_conv snd_conv
    by (rule ends_mono [OF make_substream_cases]) auto
  then show "ends (dc_ok R (Suc 0) bs rest m) (dc_err R rest m)
      (bind_res (on_stream pb_make_string_substream (bufs e bs rest, m)) f)"
    by (rule ends_bind) (use assms n in \<open>auto simp: dc_err_def\<close>)
qed

lemma dc_substream:
  fixes d :: "('u, unit) decoder"
  assumes "dc R 0 (n - Suc 0) d"
  shows "dc R (Suc 0) n (\<lambda>st. bind_res (on_stream pb_make_string_substream st) (\<lambda>sub st.
    case d (sub, snd st) of
      Ok _ (sub, m') \<Rightarrow> close_after sub True (fst st, m')
    | Err (sub, m') \<Rightarrow> close_after sub False (fst st, m')
    | Fault \<Rightarrow> Fault | Diverge \<Rightarrow> Diverge))"
  unfolding snd_conv fst_conv
proof (rule dc_make_substream, unfold snd_conv fst_conv)
  fix e and x y rest bs :: "u8 list" and m
  assume a: "suffix (x @ y) bs" "length (x @ y) < length bs" "length bs \<le> n"
  then have "length x \<le> n - Suc 0" by simp
  from close_both [OF dcD [OF assms this] a(1,2)]
  show "ends (dc_ok R (Suc 0) bs rest m) (dc_err R rest m)
      (case d (bufs e x (y @ rest), m) of
         Ok _ (sub, m') \<Rightarrow> close_after sub True (parent e x y rest, m')
       | Err (sub, m') \<Rightarrow> close_after sub False (parent e x y rest, m')
       | Fault \<Rightarrow> Fault | Diverge \<Rightarrow> Diverge)" .
qed

section \<open>Descriptors that fit their struct\<close>

text \<open>
  \<open>layout_ok d fs sz\<close>: the descriptor \<open>fs\<close> describes a struct of \<open>sz\<close> bytes.  Every field's data and
  its flag, count or selector lie inside the struct, default values are as long as their fields,
  submessages are described by descriptors that fit their fields, and are nested at most \<open>d\<close> deep.
  The number of required fields is one the check at the end of \<open>pb_decode_noinit\<close> can handle.  There
  is no extension field.
\<close>

definition req_count :: "pb_field list \<Rightarrow> nat" where
  "req_count fs = length (filter (\<lambda>f. PB_HTYPE (f_type f) = PB_HTYPE_REQUIRED) fs)"

definition req_count_ok :: "nat \<Rightarrow> bool" where
  "req_count_ok n \<longleftrightarrow> n = 0 \<or> n < 64 \<and> n mod 32 \<noteq> 0"

definition default_ok :: "pb_field \<Rightarrow> bool" where
  "default_ok f =
     (case f_ptr f of
        NullPtr \<Rightarrow> True
      | DefaultPtr bs \<Rightarrow> unat (f_data_size f) \<le> length bs
      | SubmsgPtr _ \<Rightarrow> False)"

definition inside :: "nat \<Rightarrow> addr \<Rightarrow> nat \<Rightarrow> bool" where
  "inside sz a n \<longleftrightarrow> 0 \<le> a \<and> a + int n \<le> int sz"

definition value_ok :: "(pb_field list \<Rightarrow> nat \<Rightarrow> bool) \<Rightarrow> pb_field \<Rightarrow> bool" where
  "value_ok sub f \<longleftrightarrow>
     (let lt = PB_LTYPE (f_type f); ds = unat (f_data_size f) in
      lt < 10 \<and> (lt = PB_LTYPE_FIXED32 \<longrightarrow> 4 \<le> ds) \<and> (lt = PB_LTYPE_FIXED64 \<longrightarrow> 8 \<le> ds) \<and>
      (if lt = PB_LTYPE_SUBMESSAGE then (case f_ptr f of SubmsgPtr fs \<Rightarrow> sub fs ds | _ \<Rightarrow> False)
       else default_ok f))"

definition entry_ok :: "(pb_field list \<Rightarrow> nat \<Rightarrow> bool) \<Rightarrow> nat \<Rightarrow> pb_field \<Rightarrow> addr \<Rightarrow> addr \<Rightarrow> bool" where
  "entry_ok sub sz f pData pSize \<longleftrightarrow>
     (let type = f_type f; ds = unat (f_data_size f);
          counted = (PB_HTYPE type = PB_HTYPE_REPEATED \<or> PB_HTYPE type = PB_HTYPE_ONEOF) in
      PB_LTYPE type \<noteq> PB_LTYPE_EXTENSION \<and>
      (if PB_ATYPE type = PB_ATYPE_STATIC
       then value_ok sub f \<and> (counted \<longrightarrow> inside sz pSize 4) \<and>
            (PB_HTYPE type = PB_HTYPE_OPTIONAL \<longrightarrow> pSize = pData \<or> inside sz pSize 1) \<and>
            (if PB_HTYPE type = PB_HTYPE_REPEATED
             then inside sz pData (ds * unat (f_array_size f)) \<and> uint (f_data_size f) * uint (f_array_size f) < 2 ^ 32
             else inside sz pData ds)
       else PB_ATYPE type = PB_ATYPE_POINTER \<longrightarrow>
            inside sz pData 8 \<and> (counted \<longrightarrow> inside sz pSize 4)))"

primrec layout_ok :: "nat \<Rightarrow> pb_field list \<Rightarrow> nat \<Rightarrow> bool" where
  "layout_ok 0 = (\<lambda>fs sz. False)"
| "layout_ok (Suc d) =
     (\<lambda>fs sz. wf_fields fs \<and> req_count_ok (req_count fs) \<and>
        list_all (\<lambda>i. entry_ok (layout_ok d) sz (fs ! i) (it_pData (iter_at fs 0 i)) (it_pSize (iter_at fs 0 i)))
          [0..<length fs])"

text \<open>The iterator's pointers move with the struct.\<close>

lemma iter_at_shift:
  "wf_fields fs \<Longrightarrow> i < length fs \<Longrightarrow>
     it_pData (iter_at fs dest i) = dest + it_pData (iter_at fs 0 i) \<and>
     it_pSize (iter_at fs dest i) = dest + it_pSize (iter_at fs 0 i) \<and>
     it_required_field_index (iter_at fs dest i) = it_required_field_index (iter_at fs 0 i)"
proof (induction i)
  case 0
  then show ?case by (simp add: iter_at.simps)
next
  case (Suc i)
  then have "i < length fs" and IH: "it_pData (iter_at fs dest i) = dest + it_pData (iter_at fs 0 i)"
      "it_pSize (iter_at fs dest i) = dest + it_pSize (iter_at fs 0 i)"
      "it_required_field_index (iter_at fs dest i) = it_required_field_index (iter_at fs 0 i)"
    by simp_all
  with Suc.prems show ?case
    unfolding iter_at.simps
    by (simp add: pb_field_iter_next_def Let_def iter_at_field iter_at_pos wf_fields_tag)
qed

lemma layout_entry:
  assumes "layout_ok (Suc d) fs sz" and "i < length fs"
  shows "entry_ok (layout_ok d) sz (fs ! i) (it_pData (iter_at fs dest i) - dest) (it_pSize (iter_at fs dest i) - dest)"
proof -
  have "wf_fields fs" using assms(1) by simp
  from iter_at_shift [OF this assms(2), of dest] show ?thesis
    using assms by (simp add: list_all_iff)
qed

lemma inside_reg: "inside sz (a - dest) n \<Longrightarrow> reg dest sz \<subseteq> R \<Longrightarrow> reg a n \<subseteq> R"
  by (auto simp: inside_def subset_iff mem_reg)

lemma inside_mem: "inside sz (a - dest) (Suc 0) \<Longrightarrow> reg dest sz \<subseteq> R \<Longrightarrow> a \<in> R"
  by (auto simp: inside_def subset_iff mem_reg)

lemma agree_off_store32: "reg a 4 \<subseteq> R \<Longrightarrow> agree_off R m (store32 m a v)"
  by (simp add: store32_def agree_off_store)

section \<open>Default values\<close>

definition md :: "addr set \<Rightarrow> mem \<Rightarrow> (mem, 'a) res \<Rightarrow> bool" where
  "md R m r \<longleftrightarrow> ends (\<lambda>_. agree_off R m) (\<lambda>_. False) r"

lemma iter_foreach_ends:
  assumes "wf_fields fs" and "i < length fs"
    and "\<And>j s. j < length fs \<Longrightarrow> I s \<Longrightarrow> ends (\<lambda>_. I) Q (body (iter_at fs dest j) s)" and "I s"
  shows "ends (\<lambda>_. I) Q (iter_foreach body (iter_at fs dest i) s)"
  using assms(2,4)
proof (induction "length fs - i" arbitrary: i s)
  case (Suc k)
  show ?case
  proof (subst iter_foreach.simps, rule ends_bind [OF assms(3) [OF Suc.prems]])
    fix a s' assume s': "I s'"
    show "ends (\<lambda>_. I) Q
        (if fst (pb_field_iter_next (iter_at fs dest i))
         then iter_foreach body (snd (pb_field_iter_next (iter_at fs dest i))) s' else Ok () s')"
      using Suc s' next_iter_at [OF assms(1) Suc.prems(1)] by simp
  qed
qed simp

lemma md_Ok [simp]: "md R m (Ok a m') = agree_off R m m'"
  by (simp add: md_def)

lemma md_trans: "agree_off R m m' \<Longrightarrow> md R m' r \<Longrightarrow> md R m r"
  unfolding md_def by (erule ends_mono) (auto intro: agree_off_trans)

lemma field_default_safe:
  fixes it :: pb_field_iter
  defines "f \<equiv> it_field it"
  assumes entry: "entry_ok sub sz f (it_pData it - dest) (it_pSize it - dest)" and R: "reg dest sz \<subseteq> R"
    and rec: "\<And>gs a m. sub gs (unat (f_data_size f)) \<Longrightarrow> reg a (unat (f_data_size f)) \<subseteq> R \<Longrightarrow>
      md R m (pb_message_set_to_defaults field_rec gs a m)"
  shows "md R m (field_default_body field_rec fuel env it m)"
proof (cases "PB_ATYPE (f_type f) = PB_ATYPE_STATIC")
  case False
  let ?m = "store_bytes m (it_pData it) (replicate 8 0)"
  show ?thesis
  proof (cases "PB_ATYPE (f_type f) = PB_ATYPE_POINTER")
    case True
    then have "reg (it_pData it) 8 \<subseteq> R"
      using entry False inside_reg [OF _ R] by (auto simp: entry_ok_def Let_def)
    then have m: "agree_off R m ?m" by (intro agree_off_store) simp
    have "agree_off R ?m (store32 ?m (it_pSize it) 0)"
      if "PB_HTYPE (f_type f) = PB_HTYPE_REPEATED \<or> PB_HTYPE (f_type f) = PB_HTYPE_ONEOF"
      using entry False True that inside_reg [OF _ R]
      by (intro agree_off_store32) (auto simp: entry_ok_def Let_def)
    then show ?thesis
      using True entry m agree_off_trans [OF m]
      by (auto simp: field_default_body_def f_def [symmetric] Let_def entry_ok_def)
  qed (use False entry in \<open>auto simp: field_default_body_def f_def [symmetric] Let_def entry_ok_def\<close>)
next
  case static: True
  have lt: "PB_LTYPE (f_type f) \<noteq> PB_LTYPE_EXTENSION" and val: "value_ok sub f"
    using entry static by (simp_all add: entry_ok_def Let_def)
  let ?counted = "PB_HTYPE (f_type f) = PB_HTYPE_REPEATED \<or> PB_HTYPE (f_type f) = PB_HTYPE_ONEOF"
  show ?thesis
  proof (cases ?counted)
    case True
    then have "reg (it_pSize it) 4 \<subseteq> R"
      using entry static inside_reg [OF _ R] by (auto simp: entry_ok_def Let_def)
    then show ?thesis
      using True static lt by (auto simp: field_default_body_def f_def [symmetric] Let_def agree_off_store32)
  next
    case False
    let ?m = "if PB_HTYPE (f_type f) = PB_HTYPE_OPTIONAL \<and> it_pSize it \<noteq> it_pData it
      then m(it_pSize it := 0) else m"
    have "agree_off R m ?m"
      using entry static inside_mem [OF _ R] by (auto simp: entry_ok_def Let_def intro: agree_off_upd)
    moreover have data: "reg (it_pData it) (unat (f_data_size f)) \<subseteq> R"
      using entry static False inside_reg [OF _ R] by (auto simp: entry_ok_def Let_def)
    moreover have "md R ?m (field_default_body field_rec fuel env it m)"
      using False static lt val rec [OF _ data]
      by (auto simp: field_default_body_def f_def [symmetric] Let_def value_ok_def default_ok_def
          intro!: agree_off_store order.trans [OF _ data] split: pb_ptr.splits if_splits)
    ultimately show ?thesis by (blast intro: md_trans)
  qed
qed

lemma message_defaults_safe:
  "layout_ok d fs sz \<Longrightarrow> d \<le> fuel \<Longrightarrow> reg dest sz \<subseteq> R \<Longrightarrow>
     md R m (pb_message_set_to_defaults (pb_field_set_to_default fuel env) fs dest m)"
proof (induction d arbitrary: fs sz fuel dest m)
  case (Suc d)
  then obtain fuel' where fuel: "fuel = Suc fuel'" and "d \<le> fuel'" by (cases fuel) auto
  have wf: "wf_fields fs" using Suc.prems(1) by simp
  have field: "ends (\<lambda>_. agree_off R m) (\<lambda>_. False) (pb_field_set_to_default fuel env (iter_at fs dest i) m')"
    if i: "i < length fs" and m': "agree_off R m m'" for i m'
  proof -
    let ?it = "iter_at fs dest i"
    have entry: "entry_ok (layout_ok d) sz (fs ! i) (it_pData ?it - dest) (it_pSize ?it - dest)"
      using layout_entry [OF Suc.prems(1) i] .
    have "md R m' (pb_field_set_to_default fuel env ?it m')"
      unfolding fuel pb_field_set_to_default.simps
      using entry wf i by (intro field_default_safe [where sub = "layout_ok d", OF _ Suc.prems(3)] Suc.IH \<open>d \<le> fuel'\<close>)
        (simp_all add: iter_at_field)
    from md_trans [OF m' this] show ?thesis by (simp add: md_def)
  qed
  show ?case
  proof (cases "fs = []")
    case True
    then show ?thesis by (simp add: md_def pb_message_set_to_defaults_def)
  next
    case False
    have "ends (\<lambda>_. agree_off R m) (\<lambda>_. False)
        (iter_foreach (pb_field_set_to_default fuel env) (iter_at fs dest 0) m)"
      using False by (intro iter_foreach_ends [OF wf] field) simp_all
    then show ?thesis
      using False wf by (simp add: md_def pb_message_set_to_defaults_def iter_at.simps wf_fields_tag)
  qed
qed simp

section \<open>Decoding one field\<close>

text \<open>The contract of the recursive call into submessages.\<close>

definition sub_ok :: "addr set \<Rightarrow> nat \<Rightarrow> nat \<Rightarrow> 'u submsg_rec \<Rightarrow> bool" where
  "sub_ok R d n rec \<longleftrightarrow>
     (\<forall>init fs sz dest. layout_ok d fs sz \<longrightarrow> reg dest sz \<subseteq> R \<longrightarrow> dc R 0 n (rec init fs dest))"

lemma sub_ok_mono: "sub_ok R d n rec \<Longrightarrow> k \<le> n \<Longrightarrow> sub_ok R d k rec"
  unfolding sub_ok_def by (blast intro: dc_mono)

lemma dc_submessage:
  assumes "sub_ok R d (n - Suc 0) rec" and "f_ptr f = SubmsgPtr fs"
    and "layout_ok d fs (unat (f_data_size f))" and "reg a (unat (f_data_size f)) \<subseteq> R"
  shows "dc R (Suc 0) n (pb_dec_submessage rec f a)"
  unfolding pb_dec_submessage_def [abs_def] assms(2) pb_ptr.case
  by (rule dc_substream) (use assms in \<open>auto simp: sub_ok_def\<close>)

lemma less_10_cases:
  fixes w :: u8
  assumes "w < 10"
  shows "w = 0 \<or> w = 1 \<or> w = 2 \<or> w = 3 \<or> w = 4 \<or> w = 5 \<or> w = 6 \<or> w = 7 \<or> w = 8 \<or> w = 9"
proof -
  have "unat w < 10" using assms by (simp add: word_less_nat_alt)
  then show ?thesis unfolding word_unat_eq_iff by simp arith
qed

lemma dc_PB_DECODERS:
  assumes "sub_ok R d (n - Suc 0) rec" and val: "value_ok (layout_ok d) f"
    and "PB_LTYPE (f_type f) \<noteq> PB_LTYPE_EXTENSION" and R: "reg a (unat (f_data_size f)) \<subseteq> R"
  shows "dc R (Suc 0) n (PB_DECODERS rec (PB_LTYPE (f_type f)) f a)"
proof -
  have "PB_LTYPE (f_type f) < 10" using val by (simp add: value_ok_def Let_def)
  note lt = less_10_cases [OF this]
  have "dc R (Suc 0) n (pb_dec_fixed32 f a)" if "PB_LTYPE (f_type f) = PB_LTYPE_FIXED32"
    using val that by (intro dc_fixed order.trans [OF reg_mono_size R]) (auto simp: value_ok_def)
  moreover have "dc R (Suc 0) n (pb_dec_fixed64 f a)" if "PB_LTYPE (f_type f) = PB_LTYPE_FIXED64"
    using val that by (intro dc_fixed order.trans [OF reg_mono_size R]) (auto simp: value_ok_def)
  moreover have "dc R (Suc 0) n (pb_dec_submessage rec f a)" if "PB_LTYPE (f_type f) = PB_LTYPE_SUBMESSAGE"
    using val that assms by (auto simp: value_ok_def Let_def intro: dc_submessage split: pb_ptr.splits)
  ultimately show ?thesis
    unfolding PB_DECODERS_def [abs_def]
    using dc_varints [OF R] dc_bytes [OF R] lt assms(3)
    by (intro dc_if) auto
qed

lemma dc_mem: "(\<And>m. dc R i n (d m)) \<Longrightarrow> dc R i n (\<lambda>st. d (snd st) st)"
  by (simp add: dc_def)

text \<open>The entries of a static array, addressed by 32-bit arithmetic.\<close>

lemma item_reg:
  assumes "inside sz (p - dest) (unat ds * unat as)" and "uint ds * uint as < 2 ^ 32"
    and "reg dest sz \<subseteq> R" and "(c :: u32) < as"
  shows "reg (p + uint (ds * c)) (unat ds) \<subseteq> R"
proof -
  have "int (unat ds * unat as) < int (2 ^ 32)" using assms(2) by simp
  then have nowrap: "unat ds * unat as < 2 ^ 32" by (simp only: of_nat_less_iff)
  have "unat c < unat as" using assms(4) by (simp add: word_less_nat_alt)
  then have le: "unat ds * unat c + unat ds \<le> unat ds * unat as"
    by (metis Suc_leI add.commute mult_Suc_right mult_le_mono2)
  then have "unat (ds * c) = unat ds * unat c"
    using nowrap by (simp add: unat_word_ariths)
  then have "uint (ds * c) = int (unat ds * unat c)" by (metis uint_nat)
  moreover have "int (unat ds * unat c + unat ds) \<le> int (unat ds * unat as)"
    using le by (simp only: of_nat_le_iff)
  ultimately have "reg (p + uint (ds * c)) (unat ds) \<subseteq> reg p (unat ds * unat as)"
    by (intro reg_mono) simp_all
  then show ?thesis using inside_reg [OF assms(1,3)] by blast
qed

lemma packed_loop_safe:
  assumes func: "\<And>c n. c < f_array_size (it_field iter) \<Longrightarrow> n \<le> N \<Longrightarrow>
      dc R (Suc 0) n (func (it_field iter) (it_pData iter + uint (f_data_size (it_field iter) * c)))"
    and size: "reg (it_pSize iter) 4 \<subseteq> R"
  shows "length bs < k \<Longrightarrow> length bs \<le> N \<Longrightarrow>
    ends (\<lambda>status st. if status then dc_ok R 0 bs rest m () st else dc_err R rest m st) (\<lambda>_. False)
      (decode_packed_loop k func iter (bufs e bs rest, m))"
proof (induction k arbitrary: e bs m)
  case (Suc k)
  let ?f = "it_field iter" and ?c = "load32 m (it_pSize iter)"
  show ?case
  proof (cases "bs \<noteq> [] \<and> ?c < f_array_size ?f")
    case False
    then show ?thesis by (auto simp: Let_def dc_ok_def)
  next
    case True
    then have "ends (dc_ok R (Suc 0) bs rest m) (dc_err R rest m)
        (func ?f (it_pData iter + uint (f_data_size ?f * ?c)) (bufs e bs rest, m))"
      using Suc.prems by (intro dcD [OF func]) auto
    then show ?thesis
    proof (cases "func ?f (it_pData iter + uint (f_data_size ?f * ?c)) (bufs e bs rest, m)")
      case (Ok u st)
      with \<open>ends _ _ _\<close> have st: "dc_ok R (Suc 0) bs rest m u st" by simp
      then obtain e' bs' where bs': "suffix bs' bs" "length bs' + Suc 0 \<le> length bs"
          and s: "fst st = bufs e' bs' rest" and agree: "agree_off R m (snd st)"
        by (auto simp: dc_ok_def elim: sfxE)
      let ?m = "store32 (snd st) (it_pSize iter) (load32 (snd st) (it_pSize iter) + 1)"
      have m: "agree_off R m ?m" using agree agree_off_store32 [OF size] by (rule agree_off_trans)
      have "ends (\<lambda>status st. if status then dc_ok R 0 bs' rest ?m () st else dc_err R rest ?m st) (\<lambda>_. False)
          (decode_packed_loop k func iter (bufs e' bs' rest, ?m))"
        using Suc.prems bs' by (intro Suc.IH) auto
      then have "ends (\<lambda>status st. if status then dc_ok R 0 bs rest m () st else dc_err R rest m st) (\<lambda>_. False)
          (decode_packed_loop k func iter (bufs e' bs' rest, ?m))"
        by (rule ends_mono)
           (auto simp: dc_ok_def dc_err_def split: if_splits
            intro: agree_off_trans [OF m] sfx_mono [OF sfx_trans [OF bs']])
      with True Ok s show ?thesis by (cases st) (simp add: Let_def)
    qed (use True in \<open>auto simp: Let_def\<close>)
  qed
qed simp

lemma dc_packed:
  assumes func: "\<And>c k. c < f_array_size (it_field iter) \<Longrightarrow> k \<le> n \<Longrightarrow>
      dc R (Suc 0) k (func (it_field iter) (it_pData iter + uint (f_data_size (it_field iter) * c)))"
    and size: "reg (it_pSize iter) 4 \<subseteq> R" and fuel: "n \<le> fuel"
  shows "dc R (Suc 0) n (\<lambda>st. bind_res (on_stream pb_make_string_substream st) (\<lambda>substream st.
      case decode_packed_loop fuel func iter (substream, snd st) of
        Ok status (sub, m') \<Rightarrow>
          if bytes_left sub \<noteq> 0 then dec_error ''array overflow'' (fst st, m')
          else close_after sub status (fst st, m')
      | Err _ \<Rightarrow> Fault | Fault \<Rightarrow> Fault | Diverge \<Rightarrow> Diverge))"
proof (rule dc_make_substream, unfold snd_conv fst_conv)
  fix e and x y rest bs :: "u8 list" and m
  assume a: "suffix (x @ y) bs" "length (x @ y) < length bs" "length bs \<le> n"
  have "ends (\<lambda>status st. if status then dc_ok R 0 x (y @ rest) m () st else dc_err R (y @ rest) m st) (\<lambda>_. False)
      (decode_packed_loop fuel func iter (bufs e x (y @ rest), m))"
    using a fuel by (intro packed_loop_safe [where N = n] func size) auto
  then show "ends (dc_ok R (Suc 0) bs rest m) (dc_err R rest m)
      (case decode_packed_loop fuel func iter (bufs e x (y @ rest), m) of
        Ok status (sub, m') \<Rightarrow>
          if bytes_left sub \<noteq> 0 then dec_error ''array overflow'' (parent e x y rest, m')
          else close_after sub status (parent e x y rest, m')
      | Err _ \<Rightarrow> Fault | Fault \<Rightarrow> Fault | Diverge \<Rightarrow> Diverge)"
  proof (cases "decode_packed_loop fuel func iter (bufs e x (y @ rest), m)")
    case (Ok status st)
    let ?r = "if status then Ok () st else Err st"
    have r: "ends (dc_ok R 0 x (y @ rest) m) (dc_err R (y @ rest) m) ?r"
      and agree: "agree_off R m (snd st)"
      using \<open>ends _ _ _\<close> Ok by (auto simp: dc_ok_def dc_err_def split: if_splits)
    have par: "in_buffer rest (parent e x y rest)" by (simp add: in_buffer_def parent_def)
    show ?thesis
      using close_both [OF r a(1,2), of e] Ok agree par
      by (cases st) (auto simp: dec_error_def dc_err_def split: if_splits)
  qed simp_all
qed

lemma dc_defaults_then:
  assumes "\<And>m. md R m (g m)" and "dc R i n d"
  shows "dc R i n (\<lambda>st. case g (snd st) of Ok _ m' \<Rightarrow> d (fst st, m') | Err m' \<Rightarrow> Fault
    | Fault \<Rightarrow> Fault | Diverge \<Rightarrow> Diverge)"
proof (rule dcI)
  fix e and bs rest :: "u8 list" and m
  assume n: "length bs \<le> n"
  obtain u m' where m': "g m = Ok u m'" "agree_off R m m'"
    using assms(1) [of m] by (cases "g m") (auto simp: md_def)
  have "ends (dc_ok R i bs rest m') (dc_err R rest m') (d (bufs e bs rest, m'))"
    using assms(2) n by (rule dcD)
  then have "ends (dc_ok R i bs rest m) (dc_err R rest m) (d (bufs e bs rest, m'))"
    by (rule ends_mono) (auto simp: dc_ok_def dc_err_def intro: agree_off_trans [OF m'(2)])
  then show "ends (dc_ok R i bs rest m) (dc_err R rest m)
      (case g (snd (bufs e bs rest, m)) of Ok _ m' \<Rightarrow> d (fst (bufs e bs rest, m), m') | Err m' \<Rightarrow> Fault
       | Fault \<Rightarrow> Fault | Diverge \<Rightarrow> Diverge)"
    by (simp add: m'(1))
qed

lemma htype_cases:
  "PB_HTYPE t = PB_HTYPE_REQUIRED \<or> PB_HTYPE t = PB_HTYPE_OPTIONAL \<or> PB_HTYPE t = PB_HTYPE_REPEATED \<or>
     PB_HTYPE t = PB_HTYPE_ONEOF"
proof -
  have "t AND 0x30 = (if bit t 4 then 0x10 else 0 :: u8) OR (if bit t 5 then 0x20 else 0)"
  proof (rule bit_word_eqI)
    fix n assume "n < LENGTH(8)"
    then have "n = 0 \<or> n = 1 \<or> n = 2 \<or> n = 3 \<or> n = 4 \<or> n = 5 \<or> n = 6 \<or> n = 7" by auto
    then show "bit (t AND 0x30) n = bit ((if bit t 4 then 0x10 else 0 :: u8) OR (if bit t 5 then 0x20 else 0)) n"
      by (elim disjE) (simp_all add: bit_and_iff bit_or_iff)
  qed
  then show ?thesis by (auto simp: PB_HTYPE_def)
qed

lemma dc_upd_if:
  assumes "c \<Longrightarrow> (\<And>m. agree_off R m (g m))" and "dc R i n d"
  shows "dc R i n (\<lambda>st. d (if c then (fst st, g (snd st)) else st))"
  using assms(2) dc_upd [OF assms(1,2)] by (cases c) simp_all

lemma dc_static_field:
  fixes iter :: pb_field_iter
  defines "f \<equiv> it_field iter"
  assumes rec: "sub_ok R d n rec" and static: "PB_ATYPE (f_type f) = PB_ATYPE_STATIC"
    and entry: "entry_ok (layout_ok d) sz f (it_pData iter - dest) (it_pSize iter - dest)"
    and R: "reg dest sz \<subseteq> R" and fuel: "n \<le> fuel" "d \<le> fuel"
  shows "dc R 0 n (decode_static_field rec fuel env wt iter)"
proof -
  have val: "value_ok (layout_ok d) f" and lt: "PB_LTYPE (f_type f) \<noteq> PB_LTYPE_EXTENSION"
    using entry static by (simp_all add: entry_ok_def Let_def)
  have small: "\<not> 10 \<le> PB_LTYPE (f_type f)" using val by (simp add: value_ok_def Let_def not_le)
  have func: "dc R (Suc 0) k (PB_DECODERS rec (PB_LTYPE (f_type f)) f a)"
    if "reg a (unat (f_data_size f)) \<subseteq> R" "k \<le> n" for a k
    using that by (intro dc_PB_DECODERS [OF _ val lt] sub_ok_mono [OF rec]) simp_all
  note func0 = dc_mono [OF func [OF _ order.refl] zero_le order.refl]
  show ?thesis
  proof (cases "PB_HTYPE (f_type f) = PB_HTYPE_REPEATED")
    case True
    have size: "reg (it_pSize iter) 4 \<subseteq> R"
      using entry static True inside_reg [OF _ R] by (simp add: entry_ok_def Let_def)
    have item: "reg (it_pData iter + uint (f_data_size f * c)) (unat (f_data_size f)) \<subseteq> R"
      if "c < f_array_size f" for c
      using entry static True that by (intro item_reg [OF _ _ R]) (simp_all add: entry_ok_def Let_def)
    have plain: "dc R 0 n (\<lambda>st. let count = load32 (snd st) (it_pSize iter) in
        if f_array_size f \<le> count then dec_error ''array overflow'' st
        else PB_DECODERS rec (PB_LTYPE (f_type f)) f (it_pData iter + uint (f_data_size f * count))
          (fst st, store32 (snd st) (it_pSize iter) (count + 1)))"
      unfolding Let_def
    proof (rule dc_mem [where d = "\<lambda>m st. if f_array_size f \<le> load32 m (it_pSize iter)
        then dec_error ''array overflow'' st
        else PB_DECODERS rec (PB_LTYPE (f_type f)) f (it_pData iter + uint (f_data_size f * load32 m (it_pSize iter)))
          (fst st, store32 (snd st) (it_pSize iter) (load32 m (it_pSize iter) + 1))"])
      fix m
      let ?c = "load32 m (it_pSize iter)"
      show "dc R 0 n (\<lambda>st. if f_array_size f \<le> ?c then dec_error ''array overflow'' st
          else PB_DECODERS rec (PB_LTYPE (f_type f)) f (it_pData iter + uint (f_data_size f * ?c))
            (fst st, store32 (snd st) (it_pSize iter) (?c + 1)))"
        by (intro dc_if dc_upd [where g = "\<lambda>m. store32 m (it_pSize iter) (?c + 1)"]
            agree_off_store32 size func0 item) auto
    qed
    have packed: "dc R 0 n (\<lambda>st. bind_res (on_stream pb_make_string_substream st) (\<lambda>substream st.
        case decode_packed_loop fuel (PB_DECODERS rec (PB_LTYPE (f_type f))) iter (substream, snd st) of
          Ok status (sub, m') \<Rightarrow>
            if bytes_left sub \<noteq> 0 then dec_error ''array overflow'' (fst st, m')
            else close_after sub status (fst st, m')
        | Err _ \<Rightarrow> Fault | Fault \<Rightarrow> Fault | Diverge \<Rightarrow> Diverge))"
      by (rule dc_mono [OF dc_packed [OF _ size fuel(1)]])
         (use item func in \<open>auto simp: f_def\<close>)
    show ?thesis
      unfolding decode_static_field_def [abs_def] f_def [symmetric] Let_def [of f] Let_def [of "f_type f"]
        Let_def [of "it_pData iter"] Let_def [of "it_pSize iter"] Let_def [of "PB_DECODERS rec (PB_LTYPE (f_type f))"]
      by (intro dc_if packed plain) (use True small in auto)
  next
    case False
    have data: "reg (it_pData iter) (unat (f_data_size f)) \<subseteq> R"
      using entry static False inside_reg [OF _ R] by (simp add: entry_ok_def Let_def)
    have opt: "dc R 0 n (\<lambda>st. PB_DECODERS rec (PB_LTYPE (f_type f)) f (it_pData iter)
        (if it_pSize iter \<noteq> it_pData iter then (fst st, (snd st)(it_pSize iter := 1)) else st))"
      if "PB_HTYPE (f_type f) = PB_HTYPE_OPTIONAL"
      using entry static that inside_mem [OF _ R]
      by (intro dc_upd_if [where g = "\<lambda>m. m(it_pSize iter := 1)"] func0 data agree_off_upd)
         (auto simp: entry_ok_def Let_def)
    have size: "agree_off R m (store32 m (it_pSize iter) (f_tag f))" if "PB_HTYPE (f_type f) = PB_HTYPE_ONEOF" for m
      using entry static that inside_reg [OF _ R] by (intro agree_off_store32) (simp add: entry_ok_def Let_def)
    have zero: "agree_off R m (store_bytes m (it_pData iter) (replicate (unat (f_data_size f)) 0))" for m
      using data by (intro agree_off_store) simp
    have oneof: "dc R 0 n (\<lambda>st. PB_DECODERS rec (PB_LTYPE (f_type f)) f (it_pData iter)
        (fst st, store32 (snd st) (it_pSize iter) (f_tag f)))" if "PB_HTYPE (f_type f) = PB_HTYPE_ONEOF"
      using size that by (intro dc_upd [where g = "\<lambda>m. store32 m (it_pSize iter) (f_tag f)"] func0 data) simp_all
    have oneof_sub: "dc R 0 n (\<lambda>st. case f_ptr f of
        SubmsgPtr fs \<Rightarrow>
          (case pb_message_set_to_defaults (pb_field_set_to_default fuel env) fs (it_pData iter)
                  (store_bytes (store32 (snd st) (it_pSize iter) (f_tag f)) (it_pData iter)
                    (replicate (unat (f_data_size f)) 0)) of
             Ok _ m' \<Rightarrow> PB_DECODERS rec (PB_LTYPE (f_type f)) f (it_pData iter) (fst st, m')
           | Err m' \<Rightarrow> Fault | Fault \<Rightarrow> Fault | Diverge \<Rightarrow> Diverge)
      | _ \<Rightarrow> Fault)"
      if one: "PB_HTYPE (f_type f) = PB_HTYPE_ONEOF" and sub: "PB_LTYPE (f_type f) = PB_LTYPE_SUBMESSAGE"
    proof -
      obtain gs where gs: "f_ptr f = SubmsgPtr gs" "layout_ok d gs (unat (f_data_size f))"
        using val sub by (auto simp: value_ok_def Let_def split: pb_ptr.splits)
      have "md R m (pb_message_set_to_defaults (pb_field_set_to_default fuel env) gs (it_pData iter)
          (store_bytes (store32 m (it_pSize iter) (f_tag f)) (it_pData iter)
            (replicate (unat (f_data_size f)) 0)))" for m
        by (rule md_trans [OF agree_off_trans [OF size [OF one] zero] message_defaults_safe [OF gs(2) fuel(2) data]])
      then show ?thesis
        unfolding gs(1) pb_ptr.case by (rule dc_defaults_then [OF _ func0 [OF data]])
    qed
    have "PB_HTYPE (f_type f) = PB_HTYPE_ONEOF"
      if "PB_HTYPE (f_type f) \<noteq> PB_HTYPE_REQUIRED" "PB_HTYPE (f_type f) \<noteq> PB_HTYPE_OPTIONAL"
      using htype_cases [of "f_type f"] that False by blast
    then show ?thesis
      unfolding decode_static_field_def [abs_def] f_def [symmetric] Let_def
      by (intro dc_if opt oneof oneof_sub func0 data) (use False small in auto)
  qed
qed

section \<open>User callbacks\<close>

text \<open>
  What the documentation of \<open>pb_callback_t\<close> asks of a decode callback: it reads from the limited
  stream it is given, consumes something of it or fails, and writes only to memory of its own (part
  of \<open>R\<close>).
\<close>

definition callback_ok :: "addr set \<Rightarrow> ('u, unit) decoder \<Rightarrow> bool" where
  "callback_ok R cb \<longleftrightarrow>
     (\<forall>e bs rest m. ends (dc_ok R (if bs = [] then 0 else 1) bs rest m) (dc_err R rest m) (cb (bufs e bs rest, m)))"

definition callbacks_ok :: "addr set \<Rightarrow> 'u pb_env \<Rightarrow> bool" where
  "callbacks_ok R env \<longleftrightarrow> (\<forall>fn f arg. callback_ok R (env_decode_callback env fn f arg))"

lemma callback_loop_safe:
  assumes "callback_ok R cb"
  shows "length bs < k \<Longrightarrow>
    ends (dc_ok R 0 bs rest m) (dc_err R rest m) (decode_callback_loop k cb (bufs e bs rest, m))"
proof (induction k arbitrary: e bs m)
  case (Suc k)
  let ?i = "if bs = [] then 0 else 1 :: nat"
  show ?case
    unfolding decode_callback_loop.simps
  proof (rule ends_bind)
    show "ends (dc_ok R ?i bs rest m) (dc_err R rest m) (cb (bufs e bs rest, m))"
      using assms by (simp add: callback_ok_def)
    fix u :: unit and st :: "'a dstate"
    assume "dc_ok R ?i bs rest m u st"
    then obtain e' bs' where bs': "suffix bs' bs" "length bs' + ?i \<le> length bs"
        and s: "st = (bufs e' bs' rest, snd st)" and agree: "agree_off R m (snd st)"
      by (auto simp: dc_ok_def prod_eq_iff elim: sfxE)
    have suf: "suffix bs' bs" "length bs' + 0 \<le> length bs" using bs' by auto
    show "ends (dc_ok R 0 bs rest m) (dc_err R rest m)
        (if bytes_left (fst st) \<noteq> 0 then decode_callback_loop k cb st else Ok () st)"
    proof (cases "bs' = []")
      case True
      then show ?thesis using suf agree by (subst s, subst s) (auto simp: dc_ok_def intro: sfxI)
    next
      case False
      then have "length bs' < k" using bs' Suc.prems by (cases "bs = []") auto
      from Suc.IH [OF this, of "snd st" e'] have "ends (dc_ok R 0 bs rest m) (dc_err R rest m)
          (decode_callback_loop k cb (bufs e' bs' rest, snd st))"
        by (rule ends_mono)
           (auto simp: dc_ok_def dc_err_def intro: agree_off_trans [OF agree] sfx_mono [OF sfx_trans [OF suf]])
      then show ?thesis using False by (subst s, subst s, subst s) simp
    qed
  qed
qed simp

lemma dc_callback_string:
  assumes "callback_ok R cb" and fuel: "n \<le> fuel"
  shows "dc R (Suc 0) n (\<lambda>st. bind_res (on_stream pb_make_string_substream st) (\<lambda>substream st.
    case decode_callback_loop fuel cb (substream, snd st) of
      Ok _ (sub, m') \<Rightarrow> close_after sub True (fst st, m')
    | Err (sub, m') \<Rightarrow> dec_error ''callback failed'' (fst st, m')
    | Fault \<Rightarrow> Fault | Diverge \<Rightarrow> Diverge))"
proof (rule dc_make_substream, unfold snd_conv fst_conv)
  fix e and x y rest bs :: "u8 list" and m
  assume a: "suffix (x @ y) bs" "length (x @ y) < length bs" "length bs \<le> n"
  have run: "ends (dc_ok R 0 x (y @ rest) m) (dc_err R (y @ rest) m)
      (decode_callback_loop fuel cb (bufs e x (y @ rest), m))"
    using a fuel by (intro callback_loop_safe [OF assms(1)]) auto
  have "in_buffer rest (parent e x y rest)" by (simp add: in_buffer_def parent_def)
  then show "ends (dc_ok R (Suc 0) bs rest m) (dc_err R rest m)
      (case decode_callback_loop fuel cb (bufs e x (y @ rest), m) of
        Ok _ (sub, m') \<Rightarrow> close_after sub True (parent e x y rest, m')
      | Err (sub, m') \<Rightarrow> dec_error ''callback failed'' (parent e x y rest, m')
      | Fault \<Rightarrow> Fault | Diverge \<Rightarrow> Diverge)"
    using close_both [OF run a(1,2), of e] run
    by (auto simp: dec_error_def dc_err_def split: res.splits)
qed

lemma dc_callback_scalar:
  assumes "callback_ok R cb"
  shows "dc R 0 n (\<lambda>st. bind_res (on_stream (read_raw_value wt 10) st) (\<lambda>buffer st.
    case cb (pb_istream_from_buffer buffer (length buffer), snd st) of
      Ok _ (sub, m') \<Rightarrow> Ok () (fst st, m')
    | Err (sub, m') \<Rightarrow> Err (fst st, m')
    | Fault \<Rightarrow> Fault | Diverge \<Rightarrow> Diverge))"
proof -
  have "dc R 0 n (\<lambda>st. case cb (pb_istream_from_buffer buffer (length buffer), snd st) of
      Ok _ (sub, m') \<Rightarrow> Ok () (fst st, m')
    | Err (sub, m') \<Rightarrow> Err (fst st, m')
    | Fault \<Rightarrow> Fault | Diverge \<Rightarrow> Diverge)" for buffer n
  proof (rule dcI, unfold snd_conv fst_conv)
    fix e and bs rest :: "u8 list" and m
    have buf: "pb_istream_from_buffer buffer (length buffer) = (bufs None buffer [] :: 'a pb_istream)"
      by (simp add: from_buffer_bufs)
    have "ends (dc_ok R (if buffer = [] then 0 else 1) buffer [] m) (dc_err R [] m) (cb (bufs None buffer [], m))"
      using assms unfolding callback_ok_def by blast
    then show "ends (dc_ok R 0 bs rest m) (dc_err R rest m)
        (case cb (pb_istream_from_buffer buffer (length buffer), m) of
           Ok _ (sub, m') \<Rightarrow> Ok () (bufs e bs rest, m')
         | Err (sub, m') \<Rightarrow> Err (bufs e bs rest, m')
         | Fault \<Rightarrow> Fault | Diverge \<Rightarrow> Diverge)"
      unfolding buf by (cases "cb (bufs None buffer [], m)") (auto simp: dc_ok_def dc_err_def)
  qed
  from dc_bind [OF dc_stream [OF rd_raw_value [of wt 10]] this, of n] show ?thesis by simp
qed

lemma dc_callback_field:
  assumes "callbacks_ok R env" and fuel: "n \<le> fuel"
  shows "dc R 0 n (decode_callback_field fuel env wt iter)"
proof -
  have cb: "callback_ok R (env_decode_callback env fn f arg)" for fn f arg
    using assms(1) by (simp add: callbacks_ok_def)
  show ?thesis
    unfolding decode_callback_field_def [abs_def] Let_def
  proof (rule dc_mem [where d = "\<lambda>m st. if load_ptr m (it_pData iter) = NULL then on_stream (pb_skip_field wt) st
      else if wt = PB_WT_STRING
      then bind_res (on_stream pb_make_string_substream st) (\<lambda>substream st.
          case decode_callback_loop fuel (env_decode_callback env (load_ptr m (it_pData iter)) (it_field iter)
              (it_pData iter + callback_arg_off)) (substream, snd st) of
            Ok _ (sub, m') \<Rightarrow> close_after sub True (fst st, m')
          | Err (sub, m') \<Rightarrow> dec_error ''callback failed'' (fst st, m')
          | Fault \<Rightarrow> Fault | Diverge \<Rightarrow> Diverge)
      else bind_res (on_stream (read_raw_value wt 10) st) (\<lambda>buffer st.
          case env_decode_callback env (load_ptr m (it_pData iter)) (it_field iter)
              (it_pData iter + callback_arg_off) (pb_istream_from_buffer buffer (length buffer), snd st) of
            Ok _ (sub, m') \<Rightarrow> Ok () (fst st, m')
          | Err (sub, m') \<Rightarrow> Err (fst st, m')
          | Fault \<Rightarrow> Fault | Diverge \<Rightarrow> Diverge)"])
  qed (intro dc_if dc_stream rd_skip_field dc_callback_scalar cb dc_mono [OF dc_callback_string [OF cb fuel]]
      zero_le order.refl)
qed

text \<open>\<open>decode_field\<close>, on an entry that fits the struct.\<close>

lemma dc_decode_field:
  assumes "sub_ok R d n rec" and "callbacks_ok R env" and "reg dest sz \<subseteq> R" and "n \<le> fuel" and "d \<le> fuel"
    and "entry_ok (layout_ok d) sz (it_field iter) (it_pData iter - dest) (it_pSize iter - dest)"
  shows "dc R 0 n (decode_field rec fuel env wt iter)"
  unfolding decode_field_def [abs_def] Let_def decode_pointer_field_def
  by (intro dc_if dc_static_field [OF assms(1) _ assms(6,3-5)] dc_callback_field [OF assms(2,4)] dc_error)

section \<open>The iterator during decoding\<close>

text \<open>The iterator stands on an entry, or on the terminator of an empty descriptor.\<close>

definition iter_in :: "pb_field list \<Rightarrow> addr \<Rightarrow> pb_field_iter \<Rightarrow> bool" where
  "iter_in fs dest iter \<longleftrightarrow>
     (\<exists>i<length fs. iter = iter_at fs dest i) \<or> fs = [] \<and> iter = iter_at [] dest 0"

lemma iter_in_begin: "iter_in fs dest (snd (pb_field_iter_begin fs dest))"
  by (cases fs) (auto simp: iter_in_def iter_at.simps intro: exI [of _ 0])

lemma search_empty:
  "iter_search_loop P 0 (iter_at [] dest 0) = Some (P PB_LAST_FIELD, iter_at [] dest 0)"
  by (subst iter_search_loop.simps)
     (simp add: it_field_def iter_at.simps pb_field_iter_next_def Let_def)

lemma search_iter_in:
  assumes "wf_fields fs" and "iter_in fs dest iter"
  obtains found iter' where "iter_search_loop P (it_pos iter) iter = Some (found, iter')"
    and "iter_in fs dest iter'" and "found \<Longrightarrow> P (it_field iter')"
    and "\<not> found \<Longrightarrow> \<forall>f\<in>set fs. \<not> P f"
proof (cases "fs = []")
  case True
  then have iter: "iter = iter_at [] dest 0" using assms(2) by (simp add: iter_in_def)
  then have "it_pos iter = 0" and "it_field iter = PB_LAST_FIELD"
    by (simp_all add: iter_at.simps it_field_def)
  then show thesis
    using that [of "P PB_LAST_FIELD" iter] assms(2) True search_empty [of P dest] iter by simp
next
  case False
  then obtain i where i: "i < length fs" and iter: "iter = iter_at fs dest i"
    using assms(2) by (auto simp: iter_in_def)
  let ?ks = "[i..<length fs] @ [0..<i]"
  note run = search_iter_at [OF assms(1) i, of P dest, folded iter]
  show thesis
  proof (cases "find (\<lambda>k. P (fs ! k)) ?ks")
    case None
    then have "\<forall>k<length fs. \<not> P (fs ! k)" by (fastforce simp: find_None_iff)
    then have "\<forall>f\<in>set fs. \<not> P f" by (auto simp: in_set_conv_nth)
    then show thesis
      using that [of False iter] run None assms(2) iter by simp
  next
    case (Some k)
    then have "k \<in> set ?ks" and "P (fs ! k)" unfolding find_Some_iff by (auto simp del: set_append)
    then have "k < length fs" using i by auto
    with \<open>P (fs ! k)\<close> show thesis
      using that [of True "iter_at fs dest k"] run Some assms(1) by (auto simp: iter_in_def iter_at_field)
  qed
qed

section \<open>The number of required fields\<close>

lemma req_count_snoc:
  "i < length fs \<Longrightarrow> req_count (take (Suc i) fs) =
     (if PB_HTYPE (f_type (fs ! i)) = PB_HTYPE_REQUIRED then Suc (req_count (take i fs)) else req_count (take i fs))"
  by (simp add: req_count_def take_Suc_conv_app_nth)

lemma required_index:
  "wf_fields fs \<Longrightarrow> i < length fs \<Longrightarrow> it_required_field_index (iter_at fs dest i) = req_count (take i fs)"
proof (induction i)
  case 0
  then show ?case by (simp add: iter_at.simps req_count_def)
next
  case (Suc i)
  then have "it_required_field_index (iter_at fs dest i) = req_count (take i fs)"
      and "f_tag (fs ! i) \<noteq> 0" by (simp_all add: wf_fields_def)
  with Suc.prems show ?case
    by (auto simp: iter_at.simps(2) pb_field_iter_next_def Let_def iter_at_field iter_at_pos wf_fields_tag
        req_count_snoc)
qed

lemma seek_end_at:
  "wf_fields fs \<Longrightarrow> i < length fs \<Longrightarrow>
     seek_end (iter_at fs dest i) =
       (req_count (take (length fs - 1) fs), f_type (fs ! (length fs - 1)), iter_at fs dest 0)"
proof (induction "length fs - i" arbitrary: i)
  case (Suc k)
  show ?case
  proof (cases "Suc i < length fs")
    case True
    then show ?thesis
      using Suc by (subst seek_end.simps) (simp add: next_iter_at)
  next
    case False
    then have "i = length fs - 1" using Suc.prems by simp
    with False Suc.prems show ?thesis
      by (subst seek_end.simps) (simp add: next_iter_at required_index iter_at_field)
  qed
qed simp

lemma req_field_count_eq:
  assumes "wf_fields fs" and "iter_in fs dest iter"
  shows "req_field_count iter = req_count fs"
proof (cases "fs = []")
  case True
  then have "iter = iter_at [] dest 0" using assms(2) by (simp add: iter_in_def)
  moreover have "seek_end (snd (pb_field_iter_begin [] dest)) = (0, 0, snd (pb_field_iter_begin [] dest))"
    by (subst seek_end.simps) (simp add: it_field_def pb_field_iter_next_def Let_def)
  ultimately show ?thesis
    using True by (simp add: req_field_count_def it_field_def iter_at.simps req_count_def)
next
  case False
  then obtain i where i: "i < length fs" and iter: "iter = iter_at fs dest i"
    using assms(2) by (auto simp: iter_in_def)
  have "f_tag (it_field (iter_at fs dest 0)) \<noteq> 0"
    using False assms(1) by (simp add: iter_at_field wf_fields_def)
  moreover have "fs = take (Suc (length fs - 1)) fs" using False by simp
  then have "req_count fs = req_count (take (Suc (length fs - 1)) fs)" by simp
  ultimately show ?thesis
    using False req_count_snoc [of "length fs - 1" fs]
    by (simp add: req_field_count_def iter seek_end_at [OF assms(1) i])
qed

section \<open>The message loop\<close>

lemma check_words_ok:
  "i + k \<le> length seen \<Longrightarrow> dc R 0 n (check_words i k seen)"
proof (induction k arbitrary: i)
  case 0
  show ?case by (simp add: dc_def dc_ok_def)
next
  case (Suc k)
  have eq: "check_words i (Suc k) seen = (\<lambda>st. if length seen \<le> i then Fault
      else if seen ! i \<noteq> -1 then dec_error ''missing required field'' st else check_words (Suc i) k seen st)"
    by (rule ext) simp
  show ?case
    unfolding eq using Suc by (intro dc_if) auto
qed

lemma dc_check_required:
  assumes "req_count_ok count" and "length seen = 2"
  shows "dc R 0 n (check_required count seen)"
proof (cases "count = 0")
  case False
  then have "count div 32 < 2" and "count mod 32 \<noteq> 0"
    using assms(1) by (auto simp: req_count_ok_def)
  then have "dc R (0 + 0) n (\<lambda>st. bind_res (check_words 0 (count div 32) seen st) (\<lambda>_ st.
      if length seen \<le> count div 32 \<or> count mod 32 = 0 then Fault
      else if seen ! (count div 32) \<noteq> drop_bit (32 - count mod 32) (-1)
      then dec_error ''missing required field'' st else Ok () st))"
    using assms(2) by (intro dc_bind check_words_ok dc_if) auto
  then show ?thesis using False by (simp add: check_required_def [abs_def])
qed (simp add: check_required_def [abs_def])

lemma length_mark_seen [simp]: "length (mark_seen iter seen) = length seen"
  by (simp add: mark_seen_def Let_def)

text \<open>A descriptor without extension field skips what it does not know.\<close>

lemma unknown_skips:
  assumes "wf_fields fs" and "iter_in fs dest iter" and "unat tag < 2 ^ 29"
    and "\<forall>f\<in>set fs. PB_LTYPE (f_type f) \<noteq> PB_LTYPE_EXTENSION"
  shows "\<exists>es iter'. iter_in fs dest iter' \<and> decode_unknown rec fuel env ext_start tag wt iter =
    (\<lambda>st. bind_res (on_stream (pb_skip_field wt) st) (\<lambda>_ st. Ok (es, iter') st))"
proof -
  obtain found iter' where run: "find_extension_field iter = Some (found, iter')"
      and iter': "iter_in fs dest iter'" and "found \<Longrightarrow> PB_LTYPE (f_type (it_field iter')) = PB_LTYPE_EXTENSION"
    unfolding find_extension_field_def
    by (rule search_iter_in [OF assms(1,2), where P = "\<lambda>f. PB_LTYPE (f_type f) = PB_LTYPE_EXTENSION"]) blast
  moreover have "PB_LTYPE (f_type (it_field iter')) \<noteq> PB_LTYPE_EXTENSION"
    using iter' assms(1,4)
    by (auto simp: iter_in_def iter_at_field) (simp add: it_field_def iter_at.simps PB_LTYPE_def)
  ultimately have "\<not> found" by blast
  moreover have "\<not> (-1) \<le> tag" using assms(3) by (simp add: word_le_nat_alt unsigned_minus_1_eq_mask mask_eq_exp_minus_1)
  ultimately have "decode_unknown rec fuel env ext_start tag wt iter =
      (\<lambda>st. bind_res (on_stream (pb_skip_field wt) st)
        (\<lambda>_ st. Ok (if ext_start \<le> tag then (-1, iter') else (ext_start, iter)) st))"
    using run by (intro ext) (simp add: decode_unknown_def Let_def)
  then show ?thesis
    using iter' assms(2) by (cases "ext_start \<le> tag") auto
qed

lemma iter_in_entry:
  assumes "layout_ok (Suc d) fs sz" and "iter_in fs dest iter"
  shows "entry_ok (layout_ok d) sz (it_field iter) (it_pData iter - dest) (it_pSize iter - dest)"
proof (cases "fs = []")
  case True
  then have "iter = iter_at [] dest 0" using assms(2) by (simp add: iter_in_def)
  then show ?thesis
    by (simp add: it_field_def iter_at.simps entry_ok_def value_ok_def default_ok_def inside_def Let_def
        PB_ATYPE_def PB_HTYPE_def PB_LTYPE_def)
next
  case False
  then obtain i where i: "i < length fs" and iter: "iter = iter_at fs dest i"
    using assms(2) by (auto simp: iter_in_def)
  with layout_entry [OF assms(1) i, of dest] assms(1) show ?thesis by (simp add: iter_at_field)
qed

lemma decode_loop_safe:
  assumes layout: "layout_ok (Suc d) fs sz" and R: "reg dest sz \<subseteq> R" and rec: "sub_ok R d N rec"
    and cb: "callbacks_ok R env" and fuel: "N \<le> fuel" "d \<le> fuel"
  shows "iter_in fs dest iter \<Longrightarrow> length seen = 2 \<Longrightarrow> length bs < k \<Longrightarrow> length bs \<le> Suc N \<Longrightarrow>
    ends (\<lambda>(seen', iter') st. dc_ok R 0 bs rest m () st \<and> iter_in fs dest iter' \<and> length seen' = 2)
      (dc_err R rest m) (decode_loop k rec fuel env seen es iter (bufs e bs rest, m))"
proof (induction k arbitrary: e bs m iter seen es)
  case (Suc k)
  have wf: "wf_fields fs" using layout by simp
  have noext: "\<forall>f\<in>set fs. PB_LTYPE (f_type f) \<noteq> PB_LTYPE_EXTENSION"
    using layout by (auto simp: list_all_iff in_set_conv_nth entry_ok_def Let_def)
  show ?case (is "ends ?P _ _")
  proof (cases "bs = []")
    case True
    then show ?thesis using Suc.prems by (simp add: dc_ok_def)
  next
    case False
    show ?thesis
    proof (rule decode_tag_cases [of e bs rest])
      fix eof and s :: "'a pb_istream"
      assume "pb_decode_tag (bufs e bs rest) = NoTag eof s" "sfx 0 bs rest s"
      then show ?thesis using False Suc.prems by (simp add: dc_ok_def dc_err_def sfx_in_buffer)
    next
      fix wt tag and s :: "'a pb_istream"
      assume tag: "pb_decode_tag (bufs e bs rest) = Tag wt tag s" "sfx (Suc 0) bs rest s" "unat tag < 2 ^ 29"
      then obtain e1 bs1 where bs1: "suffix bs1 bs" "length bs1 + Suc 0 \<le> length bs" and s: "s = bufs e1 bs1 rest"
        by (auto elim: sfxE)
      have cont: "ends ?P (dc_err R rest m) (bind_res (D (s, m)) (\<lambda>_ st. decode_loop k rec fuel env sn ex it st))"
        if D: "dc R 0 N D" and it: "iter_in fs dest it" "length sn = 2"
        for D :: "('a, 'b) decoder" and sn ex it
        unfolding s
      proof (rule ends_bind)
        show "ends (dc_ok R 0 bs1 rest m) (dc_err R rest m) (D (bufs e1 bs1 rest, m))"
          using bs1 Suc.prems by (intro dcD [OF D]) simp
        fix a :: 'b and st :: "'a dstate"
        assume "dc_ok R 0 bs1 rest m a st"
        then obtain e2 bs2 where bs2: "suffix bs2 bs1" "length bs2 + 0 \<le> length bs1"
            and st: "st = (bufs e2 bs2 rest, snd st)" and agree: "agree_off R m (snd st)"
          by (auto simp: dc_ok_def prod_eq_iff elim: sfxE)
        have suf: "suffix bs2 bs" "length bs2 + 0 \<le> length bs"
          using bs1 bs2 by (auto intro: suffix_order.trans)
        have "ends (\<lambda>(seen', iter') st'. dc_ok R 0 bs2 rest (snd st) () st' \<and> iter_in fs dest iter' \<and> length seen' = 2)
            (dc_err R rest (snd st)) (decode_loop k rec fuel env sn ex it (bufs e2 bs2 rest, snd st))"
          using Suc.prems bs1 bs2 by (intro Suc.IH it) auto
        then have "ends ?P (dc_err R rest m) (decode_loop k rec fuel env sn ex it (bufs e2 bs2 rest, snd st))"
          by (rule ends_mono)
             (auto simp: dc_ok_def dc_err_def intro: agree_off_trans [OF agree] sfx_mono [OF sfx_trans [OF suf]])
        then show "ends ?P (dc_err R rest m) (decode_loop k rec fuel env sn ex it st)"
          using st by simp
      qed
      obtain found iter' where find: "pb_field_iter_find iter tag = Some (found, iter')"
          and iter': "iter_in fs dest iter'"
        unfolding pb_field_iter_find_def
        by (rule search_iter_in [OF wf Suc.prems(1),
              where P = "\<lambda>f. f_tag f = tag \<and> PB_LTYPE (f_type f) \<noteq> PB_LTYPE_EXTENSION"]) blast
      show ?thesis
      proof (cases found)
        case True
        then show ?thesis
          using cont [OF dc_decode_field [OF rec cb R fuel iter_in_entry [OF layout iter']] iter']
            False tag(1) find Suc.prems(2) by simp
      next
        case nf: False
        obtain es' iter'' where "iter_in fs dest iter''" and unk: "decode_unknown rec fuel env es tag wt iter' =
            (\<lambda>st. bind_res (on_stream (pb_skip_field wt) st) (\<lambda>_ st. Ok (es', iter'') st))"
          using unknown_skips [OF wf iter' tag(3) noext] by blast
        then show ?thesis
          using cont [OF dc_stream [OF rd_skip_field], of iter'' seen wt es'] nf False tag(1) find Suc.prems(2)
          by (simp add: bind_res_assoc)
      qed
    qed
  qed
qed simp

section \<open>The recursion\<close>

lemma dc_noinit_body:
  assumes layout: "layout_ok (Suc d) fs sz" and R: "reg dest sz \<subseteq> R" and rec: "sub_ok R d (n - 1) rec"
    and cb: "callbacks_ok R env" and fuel: "n < fuel" "d \<le> fuel"
  shows "dc R 0 n (decode_noinit_body rec fuel env fs dest)"
proof (rule dcI, unfold decode_noinit_body_def)
  fix e and bs rest :: "u8 list" and m
  assume n: "length bs \<le> n"
  let ?P = "\<lambda>(seen' :: fields_seen, iter') st. dc_ok R 0 bs rest m () st \<and> iter_in fs dest iter' \<and> length seen' = 2"
  have "ends ?P (dc_err R rest m) (decode_loop fuel rec fuel env fields_seen_init 0
      (snd (pb_field_iter_begin fs dest)) (bufs e bs rest, m))"
    using n fuel by (intro decode_loop_safe [OF layout R rec cb] iter_in_begin) (auto simp: fields_seen_init_def)
  then show "ends (dc_ok R 0 bs rest m) (dc_err R rest m)
      (bind_res (decode_loop fuel rec fuel env fields_seen_init 0 (snd (pb_field_iter_begin fs dest))
         (bufs e bs rest, m)) (\<lambda>(seen, iter) st. check_required (req_field_count iter) seen st))"
  proof (rule ends_bind)
    fix a :: "fields_seen \<times> pb_field_iter" and st :: "'a dstate"
    assume P: "?P a st"
    obtain seen iter where a: "a = (seen, iter)" by (cases a)
    obtain e' bs' where bs': "suffix bs' bs" "length bs' + 0 \<le> length bs"
        and st: "st = (bufs e' bs' rest, snd st)" and agree: "agree_off R m (snd st)"
      using P by (auto simp: a dc_ok_def prod_eq_iff elim: sfxE)
    have "dc R 0 n (check_required (req_field_count iter) seen)"
      using P layout by (intro dc_check_required) (auto simp: a req_field_count_eq)
    then have "ends (dc_ok R 0 bs' rest (snd st)) (dc_err R rest (snd st))
        (check_required (req_field_count iter) seen (bufs e' bs' rest, snd st))"
      using n bs' by (intro dcD [where n = n]) auto
    then have "ends (dc_ok R 0 bs rest m) (dc_err R rest m)
        (check_required (req_field_count iter) seen (bufs e' bs' rest, snd st))"
      by (rule ends_mono)
         (auto simp: dc_ok_def dc_err_def intro: agree_off_trans [OF agree] sfx_mono [OF sfx_trans [OF bs']])
    then show "ends (dc_ok R 0 bs rest m) (dc_err R rest m)
        ((\<lambda>(seen, iter) st. check_required (req_field_count iter) seen st) a st)"
      unfolding a prod.case by (subst st)
  qed
qed

lemma decode_rec_safe:
  "layout_ok d fs sz \<Longrightarrow> reg dest sz \<subseteq> R \<Longrightarrow> callbacks_ok R env \<Longrightarrow> n + d < fuel \<Longrightarrow>
     dc R 0 n (decode_rec fuel env init fs dest)"
proof (induction fuel arbitrary: d fs sz dest n init)
  case (Suc fuel)
  then obtain d' where d: "d = Suc d'" by (cases d) auto
  have "sub_ok R d' (n - 1) (decode_rec fuel env)"
    unfolding sub_ok_def using Suc.prems d by (auto intro: Suc.IH)
  then have body: "dc R 0 n (decode_noinit_body (decode_rec fuel env) fuel env fs dest)"
    using Suc.prems d by (intro dc_noinit_body [where d = d']) auto
  have "dc R 0 n (decode_body (decode_rec fuel env) fuel env fs dest)"
    unfolding decode_body_def [abs_def]
    using Suc.prems by (intro dc_defaults_then [OF _ body] message_defaults_safe [of d]) auto
  with body show ?case by (cases init) simp_all
qed simp

section \<open>Properties of the decoder: safety and termination\<close>

lemma pb_decode_ends:
  assumes "layout_ok d fs sz" and "callbacks_ok R env" and "reg dest sz \<subseteq> R" and "length bs + d < fuel"
  shows "ends (dc_ok R 0 bs rest m) (dc_err R rest m) (pb_decode fuel env fs dest (bufs e bs rest, m))"
  unfolding pb_decode_def using decode_rec_safe [OF assms(1,3,2,4)] by (rule dcD) simp


definition no_decoders :: "unit pb_env" where
  "no_decoders =
     \<lparr>env_decode_callback = (\<lambda>_ _ _ st. Err st),
      env_ext_type = (\<lambda>_. \<lparr>ext_decode = None, ext_arg = []\<rparr>)\<rparr>"

lemma no_decoders_ok [simp]: "callbacks_ok R no_decoders"
  by (simp add: callbacks_ok_def callback_ok_def no_decoders_def dc_err_def)

lemma sample_layout: "layout_ok 2 sample_fields 36"
  by code_simp


end
