(* ===== verification/PbEncode.thy ===== *)
theory PbEncode
  imports PbOStream
begin

text \<open>
  The field and message encoders of \<open>pb_encode.c\<close>.  The message struct is read from memory through
  the iterator's pointers; the state is the output stream.  User code is an environment of encode
  callbacks and extension types, as in the decoder.  Recursion into submessages and the walk over
  the linked list of extensions run on fuel.
\<close>

section \<open>User code\<close>

record 'u enc_extension_type =
  eext_encode :: "(mem \<Rightarrow> addr \<Rightarrow> 'u writer) option"
  eext_arg :: "pb_field list"

record 'u enc_env =
  env_encode_callback :: "addr \<Rightarrow> mem \<Rightarrow> pb_field \<Rightarrow> addr \<Rightarrow> 'u writer"
  env_eext_type :: "addr \<Rightarrow> 'u enc_extension_type"

type_synonym 'u enc_rec = "pb_field list \<Rightarrow> addr \<Rightarrow> 'u writer"

section \<open>Encoders of single values\<close>

definition load_signed :: "mem \<Rightarrow> addr \<Rightarrow> u32 \<Rightarrow> 64 word option" where
  "load_signed m src sz =
     (if sz = 1 then Some (scast (le_word (load_bytes m src 1) :: 8 word))
      else if sz = 2 then Some (scast (le_word (load_bytes m src 2) :: 16 word))
      else if sz = 4 then Some (scast (le_word (load_bytes m src 4) :: 32 word))
      else if sz = 8 then Some (le_word (load_bytes m src 8))
      else None)"

definition pb_enc_varint :: "mem \<Rightarrow> pb_field \<Rightarrow> addr \<Rightarrow> 'u writer" where
  "pb_enc_varint m field src s =
     (case load_signed m src (f_data_size field) of
        None \<Rightarrow> PB_RETURN_ERROR_out ''invalid data_size'' s
      | Some value \<Rightarrow> pb_encode_varint value s)"

definition pb_enc_uvarint :: "mem \<Rightarrow> pb_field \<Rightarrow> addr \<Rightarrow> 'u writer" where
  "pb_enc_uvarint m field src s =
     (let size = f_data_size field in
      if size = 1 then pb_encode_varint (ucast (le_word (load_bytes m src 1) :: 8 word)) s
      else if size = 2 then pb_encode_varint (ucast (le_word (load_bytes m src 2) :: 16 word)) s
      else if size = 4 then pb_encode_varint (ucast (le_word (load_bytes m src 4) :: 32 word)) s
      else if size = 8 then pb_encode_varint (le_word (load_bytes m src 8)) s
      else PB_RETURN_ERROR_out ''invalid data_size'' s)"

definition pb_enc_svarint :: "mem \<Rightarrow> pb_field \<Rightarrow> addr \<Rightarrow> 'u writer" where
  "pb_enc_svarint m field src s =
     (case load_signed m src (f_data_size field) of
        None \<Rightarrow> PB_RETURN_ERROR_out ''invalid data_size'' s
      | Some value \<Rightarrow> pb_encode_svarint value s)"

definition pb_enc_fixed64 :: "mem \<Rightarrow> pb_field \<Rightarrow> addr \<Rightarrow> 'u writer" where
  "pb_enc_fixed64 m field src s = pb_encode_fixed64 (le_word (load_bytes m src 8)) s"

definition pb_enc_fixed32 :: "mem \<Rightarrow> pb_field \<Rightarrow> addr \<Rightarrow> 'u writer" where
  "pb_enc_fixed32 m field src s = pb_encode_fixed32 (le_word (load_bytes m src 4)) s"

definition pb_enc_bytes :: "mem \<Rightarrow> pb_field \<Rightarrow> addr \<Rightarrow> 'u writer" where
  "pb_enc_bytes m field src s =
     (if src = NULL then pb_encode_string None 0 s
      else
        let size = load32 m src in
        if PB_ATYPE (f_type field) = PB_ATYPE_STATIC
           \<and> unat (f_data_size field) < PB_BYTES_ARRAY_T_ALLOCSIZE (unat size)
        then PB_RETURN_ERROR_out ''bytes size exceeded'' s
        else pb_encode_string (Some (load_bytes m (src + 4) (unat size))) (unat size) s)"

text \<open>The loop that stands in for \<open>strnlen\<close>.\<close>

function strnlen_loop :: "mem \<Rightarrow> addr \<Rightarrow> nat \<Rightarrow> nat \<Rightarrow> nat" where
  "strnlen_loop m p limit n =
     (if n < limit \<and> m p \<noteq> 0 then strnlen_loop m (p + 1) limit (n + 1) else n)"
  by pat_completeness auto
termination
  by (relation "measure (\<lambda>(m, p, limit, n). limit - n)") auto

declare strnlen_loop.simps [simp del]

definition pb_enc_string :: "mem \<Rightarrow> pb_field \<Rightarrow> addr \<Rightarrow> 'u writer" where
  "pb_enc_string m field src s =
     (let max_size = (if PB_ATYPE (f_type field) = PB_ATYPE_POINTER then 2 ^ 64 - 1
                      else unat (f_data_size field))
      in if src = NULL then pb_encode_string None 0 s
         else
           let n = strnlen_loop m src max_size 0
           in pb_encode_string (Some (load_bytes m src n)) n s)"

definition pb_enc_fixed_length_bytes :: "mem \<Rightarrow> pb_field \<Rightarrow> addr \<Rightarrow> 'u writer" where
  "pb_enc_fixed_length_bytes m field src s =
     pb_encode_string (Some (load_bytes m src (unat (f_data_size field)))) (unat (f_data_size field)) s"

section \<open>Submessages\<close>

text \<open>
  \<open>pb_encode_submessage\<close> runs the encoder twice: on a sizing stream, then on a substream limited to
  the size found.  \<open>rec\<close> is \<open>pb_encode\<close> with what is left of the fuel.
\<close>

definition pb_encode_submessage :: "'u enc_rec \<Rightarrow> pb_field list \<Rightarrow> addr \<Rightarrow> 'u writer" where
  "pb_encode_submessage rec fs src s =
     (case rec fs src PB_OSTREAM_SIZING of
        Fault \<Rightarrow> Fault
      | Diverge \<Rightarrow> Diverge
      | Err sub \<Rightarrow> Err (s\<lparr>os_errmsg := os_errmsg sub\<rparr>)
      | Ok _ sub \<Rightarrow>
          let sz = bytes_written sub in
          bind_res (pb_encode_varint (of_nat sz) s) (\<lambda>_ s.
            if os_callback s = None then pb_write None sz s
            else if max_size s < (bytes_written s + sz) mod 2 ^ 64
            then PB_RETURN_ERROR_out ''stream full'' s
            else
              let finish = (\<lambda>status sub.
                    let s' = s\<lparr>bytes_written := (bytes_written s + bytes_written sub) mod 2 ^ 64,
                               os_state := os_state sub, os_errmsg := os_errmsg sub\<rparr>
                    in if bytes_written sub \<noteq> sz then PB_RETURN_ERROR_out ''submsg size changed'' s'
                       else if status then Ok () s' else Err s')
              in case rec fs src (sub\<lparr>os_callback := os_callback s, os_state := os_state s,
                                      max_size := sz, bytes_written := 0, os_errmsg := None\<rparr>) of
                   Ok _ sub' \<Rightarrow> finish True sub'
                 | Err sub' \<Rightarrow> finish False sub'
                 | Fault \<Rightarrow> Fault
                 | Diverge \<Rightarrow> Diverge))"

definition pb_enc_submessage :: "'u enc_rec \<Rightarrow> pb_field \<Rightarrow> addr \<Rightarrow> 'u writer" where
  "pb_enc_submessage rec field src s =
     (case f_ptr field of
        NullPtr \<Rightarrow> PB_RETURN_ERROR_out ''invalid field descriptor'' s
      | SubmsgPtr fs \<Rightarrow> pb_encode_submessage rec fs src s
      | DefaultPtr _ \<Rightarrow> Fault)"

definition PB_ENCODERS :: "'u enc_rec \<Rightarrow> mem \<Rightarrow> u8 \<Rightarrow> pb_field \<Rightarrow> addr \<Rightarrow> 'u writer" where
  "PB_ENCODERS rec m ltype field src s =
     (if ltype = PB_LTYPE_VARINT then pb_enc_varint m field src s
      else if ltype = PB_LTYPE_UVARINT then pb_enc_uvarint m field src s
      else if ltype = PB_LTYPE_SVARINT then pb_enc_svarint m field src s
      else if ltype = PB_LTYPE_FIXED32 then pb_enc_fixed32 m field src s
      else if ltype = PB_LTYPE_FIXED64 then pb_enc_fixed64 m field src s
      else if ltype = PB_LTYPE_BYTES then pb_enc_bytes m field src s
      else if ltype = PB_LTYPE_STRING then pb_enc_string m field src s
      else if ltype = PB_LTYPE_SUBMESSAGE then pb_enc_submessage rec field src s
      else if ltype = PB_LTYPE_FIXED_LENGTH_BYTES then pb_enc_fixed_length_bytes m field src s
      else Fault)"

section \<open>Fields\<close>

text \<open>\<open>for (i = 0; i < count; i++) { step(p); p += data_size; }\<close>\<close>

fun encode_items :: "nat \<Rightarrow> (addr \<Rightarrow> 'u writer) \<Rightarrow> addr \<Rightarrow> addr \<Rightarrow> 'u writer" where
  "encode_items 0 step p stride s = Ok () s"
| "encode_items (Suc n) step p stride s =
     bind_res (step p s) (\<lambda>_ s. encode_items n step (p + stride) stride s)"

definition packed_size ::
    "nat \<Rightarrow> (addr \<Rightarrow> 'u writer) \<Rightarrow> pb_field \<Rightarrow> addr \<Rightarrow> ('u pb_ostream, nat) res" where
  "packed_size count func field pData =
     (if PB_LTYPE (f_type field) = PB_LTYPE_FIXED32 then Ok ((4 * count) mod 2 ^ 64) PB_OSTREAM_SIZING
      else if PB_LTYPE (f_type field) = PB_LTYPE_FIXED64
      then Ok ((8 * count) mod 2 ^ 64) PB_OSTREAM_SIZING
      else
        bind_res (encode_items count func pData (uint (f_data_size field)) PB_OSTREAM_SIZING)
          (\<lambda>_ sizestream. Ok (bytes_written sizestream) sizestream))"

definition encode_array ::
    "mem \<Rightarrow> pb_field \<Rightarrow> addr \<Rightarrow> nat \<Rightarrow> (pb_field \<Rightarrow> addr \<Rightarrow> 'u writer) \<Rightarrow> 'u writer" where
  "encode_array m field pData count func s =
     (let type = f_type field; stride = uint (f_data_size field) in
      if count = 0 then Ok () s
      else if PB_ATYPE type \<noteq> PB_ATYPE_POINTER \<and> unat (f_array_size field) < count
      then PB_RETURN_ERROR_out ''array max size exceeded'' s
      else if PB_LTYPE type \<le> PB_LTYPE_LAST_PACKABLE
      then
        bind_res (pb_encode_tag PB_WT_STRING (f_tag field) s) (\<lambda>_ s.
          case packed_size count (func field) field pData of
            Fault \<Rightarrow> Fault
          | Diverge \<Rightarrow> Diverge
          | Err _ \<Rightarrow> Err s
          | Ok sz _ \<Rightarrow>
              bind_res (pb_encode_varint (of_nat sz) s) (\<lambda>_ s.
                if os_callback s = None then pb_write None sz s
                else encode_items count (func field) pData stride s))
      else
        encode_items count
          (\<lambda>p s. bind_res (pb_encode_tag_for_field field s) (\<lambda>_ s.
             if PB_ATYPE type = PB_ATYPE_POINTER
                \<and> (PB_LTYPE type = PB_LTYPE_STRING \<or> PB_LTYPE type = PB_LTYPE_BYTES)
             then func field (load_ptr m p) s
             else func field p s))
          pData stride s)"

text \<open>
  \<open>pb_check_proto3_default_value\<close>; the do-while over the fields of a submessage stops at the first
  that is not at its zero value.
\<close>

function all_default ::
    "(pb_field \<Rightarrow> addr \<Rightarrow> (unit, bool) res) \<Rightarrow> pb_field_iter \<Rightarrow> (unit, bool) res" where
  "all_default check iter =
     bind_res (check (it_field iter) (it_pData iter)) (\<lambda>zero _.
       if \<not> zero then Ok False ()
       else if fst (pb_field_iter_next iter) then all_default check (snd (pb_field_iter_next iter))
       else Ok True ())"
  by pat_completeness auto
termination
  by (relation "measure (\<lambda>(check, iter). length (it_start iter) - it_pos iter)")
     (auto dest: next_True_bound)

declare all_default.simps [simp del]

primrec pb_check_proto3_default_value ::
    "nat \<Rightarrow> mem \<Rightarrow> pb_field \<Rightarrow> addr \<Rightarrow> (unit, bool) res" where
  "pb_check_proto3_default_value 0 = (\<lambda>m field pData. Diverge)"
| "pb_check_proto3_default_value (Suc fuel) =
     (\<lambda>m field pData.
        let type = f_type field; lt = PB_LTYPE type; static = (PB_ATYPE type = PB_ATYPE_STATIC) in
        if static \<and> lt = PB_LTYPE_BYTES then Ok (load32 m pData = 0) ()
        else if static \<and> lt = PB_LTYPE_STRING then Ok (m pData = 0) ()
        else if static \<and> lt = PB_LTYPE_FIXED_LENGTH_BYTES then Ok (f_data_size field = 0) ()
        else if static \<and> lt = PB_LTYPE_SUBMESSAGE
        then
          (case f_ptr field of
             SubmsgPtr fs \<Rightarrow>
               if fst (pb_field_iter_begin fs pData)
               then all_default (pb_check_proto3_default_value fuel m) (snd (pb_field_iter_begin fs pData))
               else Ok True ()
           | _ \<Rightarrow> Fault)
        else Ok (list_all (\<lambda>b. b = 0) (load_bytes m pData (unat (f_data_size field)))) ())"

definition encode_basic_field ::
    "'u enc_rec \<Rightarrow> nat \<Rightarrow> mem \<Rightarrow> pb_field \<Rightarrow> addr \<Rightarrow> 'u writer" where
  "encode_basic_field rec fuel m field pData0 s =
     (let type = f_type field;
          func = PB_ENCODERS rec m (PB_LTYPE type);
          explicit = f_size_offset field \<noteq> 0;
          pSize = pData0 + sint (f_size_offset field);
          pointer = (PB_ATYPE type = PB_ATYPE_POINTER);
          pData = (if pointer then load_ptr m pData0 else pData0);
          implicit0 = (if explicit then Ok False ()
                       else if PB_HTYPE type = PB_HTYPE_OPTIONAL
                       then bind_res (pb_check_proto3_default_value fuel m field pData0)
                              (\<lambda>zero _. Ok (\<not> zero) ())
                       else Ok True ()) :: (unit, bool) res;
          put = (\<lambda>s. bind_res (pb_encode_tag_for_field field s) (\<lambda>_ s. func field pData s))
      in if 10 \<le> PB_LTYPE type then Fault
         else
           case implicit0 of
             Fault \<Rightarrow> Fault
           | Err _ \<Rightarrow> Fault
           | Diverge \<Rightarrow> Diverge
           | Ok implicit1 _ \<Rightarrow>
               let implicit_has = (if pointer then pData \<noteq> NULL else implicit1) in
               if PB_HTYPE type = PB_HTYPE_REQUIRED
               then if pData = NULL then PB_RETURN_ERROR_out ''missing required field'' s else put s
               else if PB_HTYPE type = PB_HTYPE_OPTIONAL
               then if (if explicit then m pSize \<noteq> 0 else implicit_has) then put s else Ok () s
               else if PB_HTYPE type = PB_HTYPE_REPEATED
               then if explicit then encode_array m field pData (unat (load32 m pSize)) func s
                    else Fault
               else if explicit then (if load32 m pSize = f_tag field then put s else Ok () s)
               else Fault)"

definition encode_callback_field :: "'u enc_env \<Rightarrow> mem \<Rightarrow> pb_field \<Rightarrow> addr \<Rightarrow> 'u writer" where
  "encode_callback_field env m field pData s =
     (let funcs_encode = load_ptr m pData in
      if funcs_encode \<noteq> NULL
      then
        (case env_encode_callback env funcs_encode m field (pData + 8) s of
           Err s' \<Rightarrow> PB_RETURN_ERROR_out ''callback error'' s'
         | r \<Rightarrow> r)
      else Ok () s)"

definition encode_field ::
    "'u enc_rec \<Rightarrow> nat \<Rightarrow> 'u enc_env \<Rightarrow> mem \<Rightarrow> pb_field \<Rightarrow> addr \<Rightarrow> 'u writer" where
  "encode_field rec fuel env m field pData s =
     (let atype = PB_ATYPE (f_type field) in
      if atype = PB_ATYPE_STATIC \<or> atype = PB_ATYPE_POINTER
      then encode_basic_field rec fuel m field pData s
      else if atype = PB_ATYPE_CALLBACK then encode_callback_field env m field pData s
      else PB_RETURN_ERROR_out ''invalid field type'' s)"

definition default_extension_encoder ::
    "'u enc_rec \<Rightarrow> nat \<Rightarrow> 'u enc_env \<Rightarrow> mem \<Rightarrow> addr \<Rightarrow> 'u writer" where
  "default_extension_encoder rec fuel env m ext s =
     (let field = field_at (eext_arg (env_eext_type env (load_ptr m ext))) 0 in
      if PB_ATYPE (f_type field) = PB_ATYPE_POINTER
      then encode_field rec fuel env m field (ext + 8) s
      else encode_field rec fuel env m field (load_ptr m (ext + 8)) s)"

fun encode_extension_loop ::
    "nat \<Rightarrow> 'u enc_rec \<Rightarrow> nat \<Rightarrow> 'u enc_env \<Rightarrow> mem \<Rightarrow> addr \<Rightarrow> 'u writer" where
  "encode_extension_loop 0 rec fuel env m ext s = Diverge"
| "encode_extension_loop (Suc k) rec fuel env m ext s =
     (if ext = NULL then Ok () s
      else
        bind_res
          (case eext_encode (env_eext_type env (load_ptr m ext)) of
             Some f \<Rightarrow> f m ext s
           | None \<Rightarrow> default_extension_encoder rec fuel env m ext s)
          (\<lambda>_ s. encode_extension_loop k rec fuel env m (load_ptr m (ext + 16)) s))"

definition encode_extension_field ::
    "'u enc_rec \<Rightarrow> nat \<Rightarrow> 'u enc_env \<Rightarrow> mem \<Rightarrow> addr \<Rightarrow> 'u writer" where
  "encode_extension_field rec fuel env m pData s =
     encode_extension_loop fuel rec fuel env m (load_ptr m pData) s"

section \<open>Messages\<close>

definition encode_one ::
    "'u enc_rec \<Rightarrow> nat \<Rightarrow> 'u enc_env \<Rightarrow> mem \<Rightarrow> pb_field_iter \<Rightarrow> 'u writer" where
  "encode_one rec fuel env m iter s =
     (if PB_LTYPE (f_type (it_field iter)) = PB_LTYPE_EXTENSION
      then encode_extension_field rec fuel env m (it_pData iter) s
      else encode_field rec fuel env m (it_field iter) (it_pData iter) s)"

primrec pb_encode :: "nat \<Rightarrow> 'u enc_env \<Rightarrow> mem \<Rightarrow> pb_field list \<Rightarrow> addr \<Rightarrow> 'u writer" where
  "pb_encode 0 = (\<lambda>env m fs src s. Diverge)"
| "pb_encode (Suc fuel) =
     (\<lambda>env m fs src s.
        if fst (pb_field_iter_begin fs src)
        then iter_foreach (encode_one (pb_encode fuel env m) fuel env m)
               (snd (pb_field_iter_begin fs src)) s
        else Ok () s)"

definition pb_encode_delimited ::
    "nat \<Rightarrow> 'u enc_env \<Rightarrow> mem \<Rightarrow> pb_field list \<Rightarrow> addr \<Rightarrow> 'u writer" where
  "pb_encode_delimited fuel env m fs src s = pb_encode_submessage (pb_encode fuel env m) fs src s"

definition pb_get_encoded_size ::
    "nat \<Rightarrow> 'u enc_env \<Rightarrow> mem \<Rightarrow> pb_field list \<Rightarrow> addr \<Rightarrow> ('u pb_ostream, nat) res" where
  "pb_get_encoded_size fuel env m fs src =
     bind_res (pb_encode fuel env m fs src PB_OSTREAM_SIZING) (\<lambda>_ s. Ok (bytes_written s) s)"

end
