(* ===== verification/PbMessage.thy ===== *)
theory PbMessage
  imports PbCodec PbEncode
begin

text \<open>
  What the encoder writes, as a specification: the abstraction \<open>msg_of\<close> reads the message struct in
  memory as a list of protocol-buffer records (field number and wire value), and \<open>ser_msg\<close> is the
  wire format of such a list.  The encoder of \<open>PbEncode\<close> refines it: \<open>pb_encode\<close> stands for
  \<open>ser_msg (msg_of ...)\<close> in the sense of \<open>writes\<close>.
\<close>

section \<open>Records and their wire format\<close>

datatype wval = WVarint u64 | WFixed32 u32 | WFixed64 u64 | WBytes "u8 list"

fun wval_bytes :: "wval \<Rightarrow> u8 list" where
  "wval_bytes (WVarint v) = varint_bytes v"
| "wval_bytes (WFixed32 v) = le_bytes 4 v"
| "wval_bytes (WFixed64 v) = le_bytes 8 v"
| "wval_bytes (WBytes bs) = varint_bytes (of_nat (length bs)) @ bs"

fun wval_wt :: "wval \<Rightarrow> u32" where
  "wval_wt (WVarint v) = PB_WT_VARINT"
| "wval_wt (WFixed32 v) = PB_WT_32BIT"
| "wval_wt (WFixed64 v) = PB_WT_64BIT"
| "wval_wt (WBytes bs) = PB_WT_STRING"

type_synonym wrec = "u32 \<times> wval"

definition ser :: "wrec \<Rightarrow> u8 list" where
  "ser r = tag_bytes (wval_wt (snd r)) (fst r) @ wval_bytes (snd r)"

definition ser_msg :: "wrec list \<Rightarrow> u8 list" where
  "ser_msg rs = concat (map ser rs)"

lemma ser_msg_simps [simp]:
  "ser_msg [] = []" "ser_msg (r # rs) = ser r @ ser_msg rs" "ser_msg (rs @ rs') = ser_msg rs @ ser_msg rs'"
  by (simp_all add: ser_msg_def)

lemma ser_msg_concat: "ser_msg (concat rss) = concat (map ser_msg rss)"
  by (induction rss) simp_all

section \<open>The message struct as records\<close>

text \<open>
  The abstraction mirrors what a field's type says about the bytes at its address: \<open>None\<close> is a
  struct the encoder refuses (a count above the array's size, a size member above the array, an
  integer of an unknown width) or a field whose content only user code knows.
\<close>

definition load_unsigned :: "mem \<Rightarrow> addr \<Rightarrow> u32 \<Rightarrow> u64 option" where
  "load_unsigned m src sz =
     (if sz = 1 then Some (ucast (le_word (load_bytes m src 1) :: 8 word))
      else if sz = 2 then Some (ucast (le_word (load_bytes m src 2) :: 16 word))
      else if sz = 4 then Some (ucast (le_word (load_bytes m src 4) :: 32 word))
      else if sz = 8 then Some (le_word (load_bytes m src 8))
      else None)"

definition bytes_value :: "mem \<Rightarrow> pb_field \<Rightarrow> addr \<Rightarrow> u8 list option" where
  "bytes_value m f a =
     (if a = NULL then Some []
      else if PB_ATYPE (f_type f) = PB_ATYPE_STATIC \<and> unat (f_data_size f) < unat (load32 m a) + 4
      then None
      else Some (load_bytes m (a + 4) (unat (load32 m a))))"

definition string_value :: "mem \<Rightarrow> pb_field \<Rightarrow> addr \<Rightarrow> u8 list" where
  "string_value m f a =
     (if a = NULL then []
      else load_bytes m a (strnlen_loop m a
        (if PB_ATYPE (f_type f) = PB_ATYPE_POINTER then 2 ^ 64 - 1 else unat (f_data_size f)) 0))"

type_synonym msg_rec = "pb_field list \<Rightarrow> addr \<Rightarrow> wrec list option"

definition value_of :: "msg_rec \<Rightarrow> mem \<Rightarrow> pb_field \<Rightarrow> addr \<Rightarrow> wval option" where
  "value_of rec m f a =
     (let lt = PB_LTYPE (f_type f) in
      if lt = PB_LTYPE_VARINT then map_option WVarint (load_signed m a (f_data_size f))
      else if lt = PB_LTYPE_UVARINT then map_option WVarint (load_unsigned m a (f_data_size f))
      else if lt = PB_LTYPE_SVARINT
      then map_option (WVarint \<circ> zigzag) (load_signed m a (f_data_size f))
      else if lt = PB_LTYPE_FIXED32 then Some (WFixed32 (le_word (load_bytes m a 4)))
      else if lt = PB_LTYPE_FIXED64 then Some (WFixed64 (le_word (load_bytes m a 8)))
      else if lt = PB_LTYPE_BYTES then map_option WBytes (bytes_value m f a)
      else if lt = PB_LTYPE_STRING then Some (WBytes (string_value m f a))
      else if lt = PB_LTYPE_SUBMESSAGE
      then (case f_ptr f of SubmsgPtr fs \<Rightarrow> map_option (WBytes \<circ> ser_msg) (rec fs a) | _ \<Rightarrow> None)
      else if lt = PB_LTYPE_FIXED_LENGTH_BYTES
      then Some (WBytes (load_bytes m a (unat (f_data_size f))))
      else None)"

section \<open>Single values\<close>

lemma pb_encode_string_load:
  "writes (pb_encode_string (Some (load_bytes m a n)) n) (wval_bytes (WBytes (load_bytes m a n)))"
  using pb_encode_string_writes [of n "load_bytes m a n"] by simp

lemma bytes_value_writes:
  "bytes_value m f a = Some bs \<Longrightarrow> writes (pb_enc_bytes m f a) (wval_bytes (WBytes bs))"
  using pb_encode_string_null_writes pb_encode_string_load [of m "a + 4" "unat (load32 m a)"]
  by (auto simp: bytes_value_def pb_enc_bytes_def [abs_def] Let_def split: if_splits)

lemma string_value_writes:
  "writes (pb_enc_string m f a) (wval_bytes (WBytes (string_value m f a)))"
  using pb_encode_string_null_writes pb_encode_string_load [of m a]
  by (auto simp: string_value_def pb_enc_string_def [abs_def] Let_def)

lemma ostream_all_updates [simp]:
  "(s :: 'u pb_ostream)\<lparr>os_callback := c, os_state := st, max_size := n, bytes_written := k,
       os_errmsg := e\<rparr> =
     \<lparr>os_callback = c, os_state = st, max_size = n, bytes_written = k, os_errmsg = e\<rparr>"
  by (cases s) simp

text \<open>
  A submessage is encoded twice, first to find its size; the second run sees a stream limited to
  that size, so it neither overflows nor changes its size.
\<close>

lemma pb_encode_submessage_writes:
  assumes "writes (rec fs a) bs"
  shows "writes (pb_encode_submessage rec fs a) (wval_bytes (WBytes bs))"
proof (rule writesI)
  fix s :: "'a pb_ostream"
  let ?v = "varint_bytes (of_nat (length bs))"
  let ?t = "adv ?v s"
  let ?sub = "\<lparr>os_callback = os_callback s, os_state = os_state ?t, max_size = length bs,
      bytes_written = 0, os_errmsg = None\<rparr>"
  assume s: "os_ok s" "roomy (length (wval_bytes (WBytes bs))) s"
  then have rv: "roomy (length ?v) s" and len: "length bs < 2 ^ 63"
    by (auto simp: roomy_def)
  have sizing: "rec fs a PB_OSTREAM_SIZING = Ok () (adv bs PB_OSTREAM_SIZING)"
    using assms len by (rule writes_sizing)
  { assume f: "fits (length (wval_bytes (WBytes bs))) s"
    then have fv: "fits (length ?v) s" by (rule fits_mono) simp
    have var: "pb_encode_varint (of_nat (length bs)) s = Ok () ?t"
      using writes_Ok [OF pb_encode_varint_writes s(1) rv fv] .
    show "pb_encode_submessage rec fs a s = Ok () (adv (wval_bytes (WBytes bs)) s)"
    proof (cases "os_callback s = None")
      case True
      then show ?thesis
        using sizing var s pb_write_null_sizing [of ?t bs]
        by (simp add: pb_encode_submessage_def Let_def roomy_def)
    next
      case False
      have "os_ok ?sub" using s f fv False
        by (auto simp: os_ok_def fits_def adv_def roomy_def
            split: option.splits out_callback.splits out_state.splits)
      moreover have "fits (length bs) ?sub" "roomy (length bs) ?sub"
        using len by (simp_all add: fits_def roomy_def)
      ultimately have sub: "rec fs a ?sub = Ok () (adv bs ?sub)"
        using assms by (intro writes_Ok)
      show ?thesis
        using sizing var sub False f s
        by (simp add: pb_encode_submessage_def Let_def fits_def roomy_def)
           (auto simp: adv_def os_ok_def split: option.splits out_state.splits)
    qed }
  assume nf: "\<not> fits (length (wval_bytes (WBytes bs))) s"
  show "\<exists>p. prefix p (wval_bytes (WBytes bs)) \<and> fits (length p) s \<and>
      pb_encode_submessage rec fs a s = Err (full (adv p s))"
  proof (cases "fits (length ?v) s")
    case True
    have "pb_encode_varint (of_nat (length bs)) s = Ok () ?t"
      using writes_Ok [OF pb_encode_varint_writes s(1) rv True] .
    then show ?thesis
      using sizing nf True s
      by (intro exI [of _ ?v])
         (auto simp: pb_encode_submessage_def Let_def fits_def roomy_def PB_RETURN_ERROR_out_def)
  next
    case False
    then obtain p where "prefix p ?v" "fits (length p) s"
        "pb_encode_varint (of_nat (length bs)) s = Err (full (adv p s))"
      using writes_Err [OF pb_encode_varint_writes s(1) rv] by metis
    then show ?thesis
      using sizing by (intro exI [of _ p]) (auto simp: pb_encode_submessage_def Let_def)
  qed
qed

text \<open>The contract of the recursive call: the encoder stands for the records of the submessage.\<close>

definition rec_writes :: "'u enc_rec \<Rightarrow> msg_rec \<Rightarrow> bool" where
  "rec_writes rec spec \<longleftrightarrow> (\<forall>fs a rs. spec fs a = Some rs \<longrightarrow> writes (rec fs a) (ser_msg rs))"

lemma value_of_writes:
  assumes "rec_writes rec spec" and "value_of spec m f a = Some v"
  shows "writes (PB_ENCODERS rec m (PB_LTYPE (f_type f)) f a) (wval_bytes v)"
proof -
  have sub: "writes (pb_enc_submessage rec f a) (wval_bytes v)"
    if "PB_LTYPE (f_type f) = 7" using that assms pb_encode_submessage_writes [of rec]
    by (auto simp: rec_writes_def value_of_def pb_enc_submessage_def [abs_def] split: pb_ptr.splits)
  show ?thesis
    using assms(2) sub pb_encode_varint_writes pb_encode_svarint_writes fixed32.enc_writes
      fixed64.enc_writes bytes_value_writes string_value_writes [of m f a]
      pb_encode_string_load [of m a "unat (f_data_size f)"]
    unfolding value_of_def PB_ENCODERS_def [abs_def] Let_def
    by (auto simp: pb_enc_varint_def [abs_def] pb_enc_uvarint_def [abs_def]
        pb_enc_svarint_def [abs_def] pb_enc_fixed32_def [abs_def] pb_enc_fixed64_def [abs_def]
        pb_enc_fixed_length_bytes_def [abs_def] load_unsigned_def Let_def split: if_splits)
qed

lemma tag_for_field_writes:
  "value_of spec m f a = Some v \<Longrightarrow>
     writes (pb_encode_tag_for_field f) (tag_bytes (wval_wt v) (f_tag f))"
  using pb_encode_tag_writes
  by (auto simp: value_of_def pb_encode_tag_for_field_def [abs_def] Let_def
      split: if_splits pb_ptr.splits)

lemma record_writes:
  assumes "rec_writes rec spec" and "value_of spec m f a = Some v"
  shows "writes (\<lambda>s. bind_res (pb_encode_tag_for_field f s)
      (\<lambda>_ s. PB_ENCODERS rec m (PB_LTYPE (f_type f)) f a s)) (ser (f_tag f, v))"
  unfolding ser_def
  using writes_seq [OF tag_for_field_writes [OF assms(2)] value_of_writes [OF assms]] by simp

section \<open>Arrays\<close>

lemma encode_items_eqs:
  "encode_items 0 step p stride = Ok ()"
  "encode_items (Suc n) step p stride =
     (\<lambda>s. bind_res (step p s) (\<lambda>_. encode_items n step (p + stride) stride))"
  by (rule ext, simp)+

lemma encode_items_writes:
  "(\<And>i. i < n \<Longrightarrow> writes (step (p + int i * stride)) (bs i)) \<Longrightarrow>
     writes (encode_items n step p stride) (concat (map bs [0..<n]))"
proof (induction n arbitrary: p bs)
  case 0
  show ?case using writes_nothing by (simp add: encode_items_eqs)
next
  case (Suc n)
  have "writes (step p) (bs 0)" using Suc.prems [of 0] by simp
  moreover have "writes (encode_items n step (p + stride) stride) (concat (map (\<lambda>i. bs (Suc i)) [0..<n]))"
  proof (rule Suc.IH)
    fix i assume "i < n"
    then show "writes (step (p + stride + int i * stride)) (bs (Suc i))"
      using Suc.prems [of "Suc i"] by (simp add: algebra_simps)
  qed
  ultimately show ?case
    using writes_seq by (simp add: encode_items_eqs map_upt_Suc del: upt_Suc)
qed

text \<open>All the values of an array, or nothing when one of them is refused.\<close>

lemma those_map_Some:
  "those (map f xs) = Some ys \<longleftrightarrow> length ys = length xs \<and> (\<forall>i<length xs. f (xs ! i) = Some (ys ! i))"
proof (induction xs arbitrary: ys)
  case (Cons x xs)
  have "(\<forall>i<Suc (length xs). f ((x # xs) ! i) = Some (ys ! i)) \<longleftrightarrow>
      f x = Some (ys ! 0) \<and> (\<forall>i<length xs. f (xs ! i) = Some (ys ! Suc i))" for ys
    by (auto simp: less_Suc_eq_0_disj)
  with Cons show ?case
    by (cases ys) (auto split: option.splits)
qed auto

lemma those_upt_Some:
  "those (map g [0..<n]) = Some ys \<longleftrightarrow> length ys = n \<and> (\<forall>i<n. g i = Some (ys ! i))"
  by (auto simp: those_map_Some)

definition array_recs ::
    "(pb_field \<Rightarrow> addr \<Rightarrow> wval option) \<Rightarrow> mem \<Rightarrow> pb_field \<Rightarrow> addr \<Rightarrow> nat \<Rightarrow> wrec list option" where
  "array_recs val_at m f p count =
     (let item = (\<lambda>i. p + int i * uint (f_data_size f));
          indirect = PB_ATYPE (f_type f) = PB_ATYPE_POINTER
            \<and> (PB_LTYPE (f_type f) = PB_LTYPE_STRING \<or> PB_LTYPE (f_type f) = PB_LTYPE_BYTES)
      in if count = 0 then Some []
         else if PB_ATYPE (f_type f) \<noteq> PB_ATYPE_POINTER \<and> unat (f_array_size f) < count then None
         else if PB_LTYPE (f_type f) \<le> PB_LTYPE_LAST_PACKABLE
         then map_option (\<lambda>vs. [(f_tag f, WBytes (concat (map wval_bytes vs)))])
                (those (map (\<lambda>i. val_at f (item i)) [0..<count]))
         else map_option (map (Pair (f_tag f)))
                (those (map (\<lambda>i. val_at f (if indirect then load_ptr m (item i) else item i)) [0..<count])))"

lemma writes_large: "2 ^ 63 \<le> length bs \<Longrightarrow> writes w bs"
  by (simp add: writes_def roomy_def)

lemma writes_unless_sizing:
  assumes "writes w bs"
  shows "writes (\<lambda>s. if os_callback s = None then pb_write None (length bs) s else w s) bs"
proof (rule writesI)
  fix s :: "'a pb_ostream"
  assume s: "os_ok s" "roomy (length bs) s"
  { assume "fits (length bs) s"
    then show "(if os_callback s = None then pb_write None (length bs) s else w s) = Ok () (adv bs s)"
      using pb_write_null_sizing [OF _ s(2)] writes_Ok [OF assms s] by simp }
  assume "\<not> fits (length bs) s"
  then show "\<exists>p. prefix p bs \<and> fits (length p) s \<and>
      (if os_callback s = None then pb_write None (length bs) s else w s) = Err (full (adv p s))"
    using writes_Err [OF assms s] by (metis fits_sizing)
qed

lemma map_nth_upt: "length ys = n \<Longrightarrow> map (\<lambda>i. g (ys ! i)) [0..<n] = map g ys"
  by (rule nth_equalityI) simp_all

lemma items_write:
  assumes "rec_writes rec spec" and "those (map (\<lambda>i. value_of spec m f (p + int i * stride)) [0..<count]) = Some vs"
  shows "writes (encode_items count (PB_ENCODERS rec m (PB_LTYPE (f_type f)) f) p stride)
    (concat (map wval_bytes vs))"
proof -
  have vs: "length vs = count" "\<And>i. i < count \<Longrightarrow> value_of spec m f (p + int i * stride) = Some (vs ! i)"
    using assms(2) by (simp_all add: those_upt_Some)
  have "writes (encode_items count (PB_ENCODERS rec m (PB_LTYPE (f_type f)) f) p stride)
      (concat (map (\<lambda>i. wval_bytes (vs ! i)) [0..<count]))"
    by (intro encode_items_writes value_of_writes [OF assms(1)] vs(2))
  then show ?thesis by (simp add: map_nth_upt vs(1))
qed

lemma fixed_width_values:
  "value_of spec m f a = Some v \<Longrightarrow> PB_LTYPE (f_type f) = PB_LTYPE_FIXED32 \<Longrightarrow> length (wval_bytes v) = 4"
  "value_of spec m f a = Some v \<Longrightarrow> PB_LTYPE (f_type f) = PB_LTYPE_FIXED64 \<Longrightarrow> length (wval_bytes v) = 8"
  by (auto simp: value_of_def)

lemma length_concat_const: "(\<forall>v\<in>set vs. length (g v) = k) \<Longrightarrow> length (concat (map g vs)) = k * length vs"
  by (induction vs) auto

lemma packed_size_exact:
  assumes "rec_writes rec spec"
    and vs: "those (map (\<lambda>i. value_of spec m f (p + int i * uint (f_data_size f))) [0..<count]) = Some vs"
    and small: "length (concat (map wval_bytes vs)) < 2 ^ 63"
  shows "\<exists>t. packed_size count (PB_ENCODERS rec m (PB_LTYPE (f_type f)) f) f p =
    Ok (length (concat (map wval_bytes vs))) t"
proof -
  have len: "length vs = count" and val: "\<forall>v\<in>set vs. \<exists>a. value_of spec m f a = Some v"
    using vs by (auto simp: those_map_Some in_set_conv_nth) blast
  have run: "encode_items count (PB_ENCODERS rec m (PB_LTYPE (f_type f)) f) p (uint (f_data_size f))
      PB_OSTREAM_SIZING = Ok () (adv (concat (map wval_bytes vs)) PB_OSTREAM_SIZING)"
    using items_write [OF assms(1) vs] small by (rule writes_sizing)
  have "length (concat (map wval_bytes vs)) = 4 * count" if "PB_LTYPE (f_type f) = PB_LTYPE_FIXED32"
    using fixed_width_values(1) [OF _ that] val length_concat_const [of vs wval_bytes 4] len by blast
  moreover have "length (concat (map wval_bytes vs)) = 8 * count" if "PB_LTYPE (f_type f) = PB_LTYPE_FIXED64"
    using fixed_width_values(2) [OF _ that] val length_concat_const [of vs wval_bytes 8] len by blast
  ultimately show ?thesis
    using run small by (auto simp: packed_size_def)
qed

lemma packed_writes:
  assumes "rec_writes rec spec"
    and vs: "those (map (\<lambda>i. value_of spec m f (p + int i * uint (f_data_size f))) [0..<count]) = Some vs"
    and "count \<noteq> 0" and "PB_ATYPE (f_type f) = PB_ATYPE_POINTER \<or> count \<le> unat (f_array_size f)"
    and "PB_LTYPE (f_type f) \<le> PB_LTYPE_LAST_PACKABLE"
  shows "writes (encode_array m f p count (PB_ENCODERS rec m (PB_LTYPE (f_type f))))
    (ser (f_tag f, WBytes (concat (map wval_bytes vs))))"
proof (cases "length (concat (map wval_bytes vs)) < 2 ^ 63")
  case True
  let ?b = "concat (map wval_bytes vs)"
  let ?items = "encode_items count (PB_ENCODERS rec m (PB_LTYPE (f_type f)) f) p (uint (f_data_size f))"
  obtain t where t: "packed_size count (PB_ENCODERS rec m (PB_LTYPE (f_type f)) f) f p = Ok (length ?b) t"
    using packed_size_exact [OF assms(1) vs True] by blast
  have "writes (\<lambda>s. bind_res (pb_encode_tag PB_WT_STRING (f_tag f) s) (\<lambda>_ s.
      bind_res (pb_encode_varint (of_nat (length ?b)) s) (\<lambda>_ s.
        if os_callback s = None then pb_write None (length ?b) s else ?items s)))
      (tag_bytes PB_WT_STRING (f_tag f) @ varint_bytes (of_nat (length ?b)) @ ?b)"
    by (intro writes_seq pb_encode_tag_writes pb_encode_varint_writes writes_unless_sizing
        items_write [OF assms(1) vs])
  then show ?thesis
    using assms t by (auto simp: encode_array_def [abs_def] Let_def ser_def not_less)
next
  case False
  then show ?thesis by (intro writes_large) (simp add: ser_def)
qed

lemma array_recs_writes:
  assumes "rec_writes rec spec" and "array_recs (value_of spec m) m f p count = Some rs"
  shows "writes (encode_array m f p count (PB_ENCODERS rec m (PB_LTYPE (f_type f)))) (ser_msg rs)"
proof -
  let ?item = "\<lambda>i. p + int i * uint (f_data_size f)"
  let ?ind = "PB_ATYPE (f_type f) = PB_ATYPE_POINTER
      \<and> (PB_LTYPE (f_type f) = PB_LTYPE_STRING \<or> PB_LTYPE (f_type f) = PB_LTYPE_BYTES)"
  let ?at = "\<lambda>a. if ?ind then load_ptr m a else a"
  consider (empty) "count = 0" "rs = []"
    | (packed) vs where "count \<noteq> 0" "PB_ATYPE (f_type f) = PB_ATYPE_POINTER \<or> count \<le> unat (f_array_size f)"
        "PB_LTYPE (f_type f) \<le> PB_LTYPE_LAST_PACKABLE"
        "those (map (\<lambda>i. value_of spec m f (?item i)) [0..<count]) = Some vs"
        "rs = [(f_tag f, WBytes (concat (map wval_bytes vs)))]"
    | (plain) vs where "count \<noteq> 0" "PB_ATYPE (f_type f) = PB_ATYPE_POINTER \<or> count \<le> unat (f_array_size f)"
        "\<not> PB_LTYPE (f_type f) \<le> PB_LTYPE_LAST_PACKABLE"
        "those (map (\<lambda>i. value_of spec m f (?at (?item i))) [0..<count]) = Some vs"
        "rs = map (Pair (f_tag f)) vs"
    using assms(2) by (auto simp: array_recs_def Let_def split: if_splits)
  then show ?thesis
  proof cases
    case empty
    then show ?thesis using writes_nothing by (simp add: encode_array_def [abs_def] Let_def)
  next
    case packed
    then show ?thesis using packed_writes [OF assms(1)] by simp
  next
    case plain
    have vs: "length vs = count" "\<And>i. i < count \<Longrightarrow> value_of spec m f (?at (?item i)) = Some (vs ! i)"
      using plain(4) unfolding those_upt_Some by blast+
    let ?step = "\<lambda>a s. bind_res (pb_encode_tag_for_field f s)
        (\<lambda>_ s. PB_ENCODERS rec m (PB_LTYPE (f_type f)) f (?at a) s)"
    have "writes (encode_items count ?step p (uint (f_data_size f)))
        (concat (map (\<lambda>i. ser (f_tag f, vs ! i)) [0..<count]))"
      by (intro encode_items_writes record_writes [OF assms(1)] vs(2))
    moreover have "concat (map (\<lambda>i. ser (f_tag f, vs ! i)) [0..<count]) = ser_msg rs"
      unfolding plain(5) ser_msg_def map_map comp_def
      by (subst map_nth_upt [where g = "\<lambda>v. ser (f_tag f, v)", OF vs(1)]) (rule refl)
    ultimately show ?thesis
      using plain(1-3) by (auto simp: encode_array_def [abs_def] Let_def if_distrib if_distribR)
  qed
qed

section \<open>Fields and messages\<close>

definition field_recs :: "msg_rec \<Rightarrow> nat \<Rightarrow> mem \<Rightarrow> pb_field \<Rightarrow> addr \<Rightarrow> wrec list option" where
  "field_recs spec fuel m f a =
     (let type = f_type f; explicit = f_size_offset f \<noteq> 0; pSize = a + sint (f_size_offset f);
          pointer = (PB_ATYPE type = PB_ATYPE_POINTER);
          pData = (if pointer then load_ptr m a else a);
          one = map_option (\<lambda>v. [(f_tag f, v)]) (value_of spec m f pData)
      in if 10 \<le> PB_LTYPE type then None
         else if PB_HTYPE type = PB_HTYPE_REQUIRED then if pData = NULL then None else one
         else if PB_HTYPE type = PB_HTYPE_OPTIONAL
         then if explicit then if m pSize \<noteq> 0 then one else Some []
              else (case pb_check_proto3_default_value fuel m f a of
                      Ok zero _ \<Rightarrow>
                        if (if pointer then pData \<noteq> NULL else \<not> zero) then one else Some []
                    | _ \<Rightarrow> None)
         else if \<not> explicit then None
         else if PB_HTYPE type = PB_HTYPE_REPEATED
         then array_recs (value_of spec m) m f pData (unat (load32 m pSize))
         else if load32 m pSize = f_tag f then one else Some [])"

lemma field_recs_writes:
  assumes "rec_writes rec spec" and "field_recs spec fuel m f a = Some rs"
  shows "writes (encode_basic_field rec fuel m f a) (ser_msg rs)"
proof -
  let ?p = "if PB_ATYPE (f_type f) = PB_ATYPE_POINTER then load_ptr m a else a"
  have one: "writes (\<lambda>s. bind_res (pb_encode_tag_for_field f s)
      (\<lambda>_ s. PB_ENCODERS rec m (PB_LTYPE (f_type f)) f ?p s)) (ser_msg [(f_tag f, v)])"
    if "value_of spec m f ?p = Some v" for v
    using record_writes [OF assms(1) that] by simp
  show ?thesis
  proof (cases "PB_HTYPE (f_type f) = PB_HTYPE_OPTIONAL \<and> f_size_offset f = 0")
    case True
    then obtain zero u where chk: "pb_check_proto3_default_value fuel m f a = Ok zero u"
        and ten: "\<not> 10 \<le> PB_LTYPE (f_type f)"
        and rs: "(if (if PB_ATYPE (f_type f) = PB_ATYPE_POINTER then ?p \<noteq> NULL else \<not> zero)
          then map_option (\<lambda>v. [(f_tag f, v)]) (value_of spec m f ?p) else Some []) = Some rs"
      using assms(2) by (auto simp: field_recs_def Let_def split: if_splits res.splits)
    show ?thesis
      using True chk ten rs one writes_nothing
      by (auto simp: encode_basic_field_def [abs_def] Let_def split: if_splits)
  next
    case False
    then show ?thesis
      using assms(2) one writes_nothing array_recs_writes [OF assms(1)]
      by (auto simp: encode_basic_field_def [abs_def] field_recs_def Let_def split: if_splits)
  qed
qed

text \<open>
  Callback fields whose function pointer is null and empty lists of extensions write nothing; what
  the others write only the user's code knows.
\<close>

definition one_recs :: "msg_rec \<Rightarrow> nat \<Rightarrow> mem \<Rightarrow> pb_field_iter \<Rightarrow> wrec list option" where
  "one_recs spec fuel m iter =
     (let f = it_field iter; a = it_pData iter; atype = PB_ATYPE (f_type f) in
      if PB_LTYPE (f_type f) = PB_LTYPE_EXTENSION
      then if load_ptr m a = NULL \<and> 0 < fuel then Some [] else None
      else if atype = PB_ATYPE_STATIC \<or> atype = PB_ATYPE_POINTER then field_recs spec fuel m f a
      else if atype = PB_ATYPE_CALLBACK \<and> load_ptr m a = NULL then Some []
      else None)"

primrec msg_of :: "nat \<Rightarrow> mem \<Rightarrow> msg_rec" where
  "msg_of 0 = (\<lambda>m fs src. None)"
| "msg_of (Suc fuel) =
     (\<lambda>m fs src.
        if wf_fields fs
        then map_option concat
               (those (map (\<lambda>i. one_recs (msg_of fuel m) fuel m (iter_at fs src i)) [0..<length fs]))
        else None)"

lemma one_recs_writes:
  assumes "rec_writes rec spec" and "one_recs spec fuel m iter = Some rs"
  shows "writes (encode_one rec fuel env m iter) (ser_msg rs)"
proof -
  have "encode_extension_loop fuel rec fuel env m 0 s = Ok () s" if "0 < fuel" for s :: "'a pb_ostream"
    using that by (cases fuel) simp_all
  then show ?thesis
    using assms(2) field_recs_writes [OF assms(1)] writes_nothing
    by (auto simp: one_recs_def encode_one_def [abs_def] encode_extension_field_def
        encode_field_def [abs_def] encode_callback_field_def Let_def split: if_splits)
qed

lemma iter_foreach_writes:
  assumes "wf_fields fs" and "i < length fs"
    and "\<And>j. i \<le> j \<Longrightarrow> j < length fs \<Longrightarrow> writes (body (iter_at fs src j)) (bs j)"
  shows "writes (iter_foreach body (iter_at fs src i)) (concat (map bs [i..<length fs]))"
  using assms(2,3)
proof (induction "length fs - i" arbitrary: i)
  case (Suc d)
  have here: "writes (body (iter_at fs src i)) (bs i)" using Suc.prems by simp
  have split: "[i..<length fs] = i # [Suc i..<length fs]"
    using Suc.prems(1) by (simp add: upt_conv_Cons)
  show ?case
  proof (cases "Suc i < length fs")
    case True
    then have "writes (iter_foreach body (iter_at fs src (Suc i))) (concat (map bs [Suc i..<length fs]))"
      using Suc by (intro Suc.hyps(1)) auto
    from writes_seq [OF here this] show ?thesis
      using True Suc.prems(1) next_iter_at [OF assms(1)]
      by (simp add: iter_foreach.simps [of body "iter_at fs src i", abs_def] split)
  next
    case False
    from writes_seq [OF here writes_nothing] show ?thesis
      using False Suc.prems(1) next_iter_at [OF assms(1)]
      by (simp add: iter_foreach.simps [of body "iter_at fs src i", abs_def] split)
  qed
qed simp

lemma pb_encode_writes:
  "msg_of fuel m fs src = Some rs \<Longrightarrow> writes (pb_encode fuel env m fs src) (ser_msg rs)"
proof (induction fuel arbitrary: fs src rs)
  case (Suc fuel)
  then obtain rss where wf: "wf_fields fs"
      and rss: "length rss = length fs"
        "\<And>i. i < length fs \<Longrightarrow> one_recs (msg_of fuel m) fuel m (iter_at fs src i) = Some (rss ! i)"
      and rs: "rs = concat rss"
    by (auto simp: those_upt_Some split: if_splits)
  have rec: "rec_writes (pb_encode fuel env m) (msg_of fuel m)"
    using Suc.IH by (simp add: rec_writes_def)
  show ?case
  proof (cases "fs = []")
    case True
    then show ?thesis using rss(1) rs writes_nothing by simp
  next
    case False
    have "writes (iter_foreach (encode_one (pb_encode fuel env m) fuel env m) (iter_at fs src 0))
        (concat (map (\<lambda>i. ser_msg (rss ! i)) [0..<length fs]))"
      using False by (intro iter_foreach_writes [OF wf] one_recs_writes [OF rec] rss(2)) simp_all
    then show ?thesis
      using False wf rss(1)
      by (simp add: rs ser_msg_concat map_nth_upt iter_at.simps(1) wf_fields_tag)
  qed
qed simp

section \<open>A message for the witnesses\<close>

definition sample_mem :: mem where
  "sample_mem = store_bytes (\<lambda>_. 0) 1000
     [150, 0, 0, 0, 1, 104, 105, 0, 0, 0, 0, 0, 0, 0, 0, 0, 2, 0, 0, 0,
      3, 0, 0, 0, 255, 255, 255, 255, 0, 0, 0, 0, 7, 0, 0, 0]"

definition sample_records :: "wrec list" where
  "sample_records =
     [(1, WVarint 150), (2, WBytes [104, 105]), (3, WBytes [6, 1]), (4, WBytes [13, 7, 0, 0, 0])]"

definition no_encoders :: "unit enc_env" where
  "no_encoders =
     \<lparr>env_encode_callback = (\<lambda>_ _ _ _ s. Err s),
      env_eext_type = (\<lambda>_. \<lparr>eext_encode = None, eext_arg = []\<rparr>)\<rparr>"

lemma sample_msg_of: "msg_of 3 sample_mem sample_fields 1000 = Some sample_records"
  by code_simp

lemma sample_length: "length (ser_msg sample_records) = 18"
  by code_simp

section \<open>Properties of the encoder\<close>

text \<open>
  C13: When the buffer is large enough, \<open>pb_encode\<close> writes exactly the protocol-buffer
  serialisation of the records the message struct holds, for every descriptor and every content of
  the struct, through optional, repeated, packed, oneof and nested fields, and counts its bytes.
\<close>

theorem pb_encode_refines_message:
  assumes "msg_of fuel m fs src = Some rs"
    and "length (ser_msg rs) \<le> n" and "n \<le> capacity" and "n < 2 ^ 63"
  shows "\<exists>s. pb_encode fuel env m fs src (pb_ostream_from_buffer capacity n) = Ok () s \<and>
      os_state s = OutBuffer (ser_msg rs) (capacity - length (ser_msg rs)) \<and>
      bytes_written s = length (ser_msg rs)"
  using writes_buffer [OF pb_encode_writes [OF assms(1)] assms(3,4)] assms(2,4) by fastforce

theorem pb_encode_refines_message_witness:
  "\<exists>s. pb_encode 3 no_encoders sample_mem sample_fields 1000 (pb_ostream_from_buffer 64 20) = Ok () s \<and>
      os_state s = OutBuffer (ser_msg sample_records) (64 - length (ser_msg sample_records)) \<and>
      bytes_written s = length (ser_msg sample_records)"
  by (rule pb_encode_refines_message [OF sample_msg_of]) (simp_all add: sample_length)

text \<open>
  C14: When the message does not fit, \<open>pb_encode\<close> returns false with the error \<open>stream full\<close>; what
  it has written is a prefix of the serialisation and stays within the limit the caller gave.  It
  never writes past the buffer.
\<close>

theorem pb_encode_stream_full:
  assumes "msg_of fuel m fs src = Some rs" and "length (ser_msg rs) < 2 ^ 63"
    and "n < length (ser_msg rs)" and "n \<le> capacity"
  shows "\<exists>s out. pb_encode fuel env m fs src (pb_ostream_from_buffer capacity n) = Err s \<and>
      prefix out (ser_msg rs) \<and> length out \<le> n \<and>
      os_state s = OutBuffer out (capacity - length out) \<and> os_errmsg s = Some ''stream full''"
  using writes_buffer_full [OF pb_encode_writes [OF assms(1)] assms(4)] assms(2,3) by fastforce

theorem pb_encode_stream_full_witness:
  "\<exists>s out. pb_encode 3 no_encoders sample_mem sample_fields 1000 (pb_ostream_from_buffer 10 10) = Err s \<and>
      prefix out (ser_msg sample_records) \<and> length out \<le> 10 \<and>
      os_state s = OutBuffer out (10 - length out) \<and> os_errmsg s = Some ''stream full''"
  by (rule pb_encode_stream_full [OF sample_msg_of]) (simp_all add: sample_length)

text \<open>
  C15: \<open>pb_get_encoded_size\<close> returns the exact number of bytes \<open>pb_encode\<close> writes for the same
  message, and \<open>pb_encode_delimited\<close> writes that number as a varint in front of them.
\<close>

theorem encoded_size_exact:
  assumes "msg_of fuel m fs src = Some rs" and "length (ser_msg rs) + 10 \<le> n"
    and "n \<le> capacity" and "n < 2 ^ 63"
  shows "(\<exists>t. pb_get_encoded_size fuel env m fs src = Ok (length (ser_msg rs)) t) \<and>
      (\<exists>s. pb_encode_delimited fuel env m fs src (pb_ostream_from_buffer capacity n) = Ok () s \<and>
        (let out = varint_bytes (of_nat (length (ser_msg rs))) @ ser_msg rs
         in os_state s = OutBuffer out (capacity - length out)))"
proof -
  note w = pb_encode_writes [OF assms(1), of env]
  have "writes (pb_encode_delimited fuel env m fs src) (wval_bytes (WBytes (ser_msg rs)))"
    using pb_encode_submessage_writes [of "pb_encode fuel env m", OF w] by (simp add: pb_encode_delimited_def [abs_def])
  moreover have "length (wval_bytes (WBytes (ser_msg rs))) \<le> n"
    using assms(2) varint_bytes_10 [of "of_nat (length (ser_msg rs))"] by simp
  ultimately have "\<exists>s. pb_encode_delimited fuel env m fs src (pb_ostream_from_buffer capacity n) = Ok () s \<and>
      os_state s = OutBuffer (wval_bytes (WBytes (ser_msg rs))) (capacity - length (wval_bytes (WBytes (ser_msg rs))))"
    using writes_buffer [OF _ assms(3,4)] assms(4) by fastforce
  then show ?thesis
    using writes_sizing [OF w] assms(2,4) by (simp add: pb_get_encoded_size_def Let_def)
qed

theorem encoded_size_exact_witness:
  "(\<exists>t. pb_get_encoded_size 3 no_encoders sample_mem sample_fields 1000 = Ok (length (ser_msg sample_records)) t) \<and>
      (\<exists>s. pb_encode_delimited 3 no_encoders sample_mem sample_fields 1000 (pb_ostream_from_buffer 40 30) = Ok () s \<and>
        (let out = varint_bytes (of_nat (length (ser_msg sample_records))) @ ser_msg sample_records
         in os_state s = OutBuffer out (40 - length out)))"
  by (rule encoded_size_exact [OF sample_msg_of]) (simp_all add: sample_length)

end
