(* ===== verification/PbProps.thy ===== *)
theory PbProps
  imports PbSafety PbMessage
begin

text \<open>
  Functional properties of the decoder: the search for a field, the skipping of unknown fields, the
  check for required fields, and error reporting.
\<close>

section \<open>Looking up a field\<close>

definition is_field :: "u32 \<Rightarrow> pb_field \<Rightarrow> bool" where
  "is_field tag f \<longleftrightarrow> f_tag f = tag \<and> PB_LTYPE (f_type f) \<noteq> PB_LTYPE_EXTENSION"

text \<open>
  C20: \<open>pb_field_iter_find\<close> always ends, and it finds a tag exactly when an entry that is not the
  extension placeholder carries it.  The iterator is then on such an entry; otherwise it is back
  where it was.
\<close>

theorem pb_field_iter_find_correct:
  assumes "wf_fields fs" and "i < length fs"
  shows "\<exists>found k. pb_field_iter_find (iter_at fs dest i) tag = Some (found, iter_at fs dest k) \<and>
      k < length fs \<and> (found \<longleftrightarrow> (\<exists>f\<in>set fs. is_field tag f)) \<and>
      (if found then is_field tag (fs ! k) else k = i)"
proof (cases "find (\<lambda>k. is_field tag (fs ! k)) ([i..<length fs] @ [0..<i])")
  case None
  then have "\<forall>k<length fs. \<not> is_field tag (fs ! k)" by (fastforce simp: find_None_iff)
  then have "\<not> (\<exists>f\<in>set fs. is_field tag f)" by (auto simp: in_set_conv_nth)
  moreover have "pb_field_iter_find (iter_at fs dest i) tag = Some (False, iter_at fs dest i)"
    using search_iter_at [OF assms, of "is_field tag" dest] None
    by (simp add: pb_field_iter_find_def is_field_def [abs_def])
  ultimately show ?thesis using assms(2) by (intro exI [of _ False] exI [of _ i]) simp
next
  case (Some k)
  then have "k \<in> set ([i..<length fs] @ [0..<i])" and here: "is_field tag (fs ! k)"
    unfolding find_Some_iff by (auto simp del: set_append)
  then have "k < length fs" using assms(2) by auto
  moreover have "pb_field_iter_find (iter_at fs dest i) tag = Some (True, iter_at fs dest k)"
    using search_iter_at [OF assms, of "is_field tag" dest] Some
    by (simp add: pb_field_iter_find_def is_field_def [abs_def])
  ultimately show ?thesis using here by (intro exI [of _ True] exI [of _ k]) auto
qed

theorem pb_field_iter_find_correct_witness:
  "\<exists>found k. pb_field_iter_find (iter_at sample_fields 1000 2) 1 = Some (found, iter_at sample_fields 1000 k) \<and>
      k < length sample_fields \<and> (found \<longleftrightarrow> (\<exists>f\<in>set sample_fields. is_field 1 f)) \<and>
      (if found then is_field 1 (sample_fields ! k) else k = 2)"
  by (rule pb_field_iter_find_correct) (simp_all add: sample_fields_def wf_fields_def)

section \<open>Unknown fields\<close>

definition wval_ok :: "wval \<Rightarrow> bool" where
  "wval_ok v = (case v of WBytes bs \<Rightarrow> length bs < 2 ^ 32 | _ \<Rightarrow> True)"

lemma skip_varint_bytes [stream_simps]:
  "pb_skip_varint (bufs e (varint_bytes v @ bs) rest) = Ok () (bufs e bs rest)"
proof (induction v rule: varint_bytes.induct)
  case (1 v)
  show ?case
  proof (cases "v < 128")
    case True
    then show ?thesis
      by (subst pb_skip_varint.simps) (simp add: varint_bytes.simps stream_simps and_80_eq last_digit)
  next
    case False
    then show ?thesis
      using 1 by (subst pb_skip_varint.simps)
        (simp add: varint_bytes.simps [of v] stream_simps and_80_eq and_7F)
  qed
qed

lemma skip_wval:
  "wval_ok v \<Longrightarrow> pb_skip_field (wval_wt v) (bufs e (wval_bytes v @ bs) rest) = Ok () (bufs e bs rest)"
  by (cases v) (simp_all add: pb_skip_field_def stream_simps wval_ok_def)

definition unknown_rec :: "pb_field list \<Rightarrow> wrec \<Rightarrow> bool" where
  "unknown_rec fs r \<longleftrightarrow>
     tag_ok (wval_wt (snd r)) (fst r) \<and> wval_ok (snd r) \<and> (\<forall>f\<in>set fs. f_tag f \<noteq> fst r)"

lemma ser_nonempty [simp]: "ser r \<noteq> []"
  by (simp add: ser_def tag_bytes_def)

lemma decode_loop_unknown:
  assumes wf: "wf_fields fs" and noext: "\<forall>f\<in>set fs. PB_LTYPE (f_type f) \<noteq> PB_LTYPE_EXTENSION"
    and iter: "iter_in fs dest iter" and r: "unknown_rec fs r"
  shows "\<exists>es' iter'. iter_in fs dest iter' \<and>
    decode_loop (Suc k) rec fuel env seen es iter (bufs e (ser r @ bs) rest, m) =
    decode_loop k rec fuel env seen es' iter' (bufs e bs rest, m)"
proof -
  obtain tag v where r': "r = (tag, v)" by (cases r)
  have ok: "tag_ok (wval_wt v) tag" "wval_ok v" "\<forall>f\<in>set fs. f_tag f \<noteq> tag"
    using r by (simp_all add: unknown_rec_def r')
  then have tag: "unat tag < 2 ^ 29" "tag \<noteq> 0" by (auto simp: tag_ok_def)
  obtain found iter1 where find: "pb_field_iter_find iter tag = Some (found, iter1)"
      and iter1: "iter_in fs dest iter1" and hit: "found \<Longrightarrow> f_tag (it_field iter1) = tag"
    unfolding pb_field_iter_find_def
    by (rule search_iter_in [OF wf iter,
          where P = "\<lambda>f. f_tag f = tag \<and> PB_LTYPE (f_type f) \<noteq> PB_LTYPE_EXTENSION"]) blast
  have "f_tag (it_field iter1) \<noteq> tag"
    using iter1 ok(3) wf tag(2)
    by (auto simp: iter_in_def iter_at_field) (simp add: it_field_def iter_at.simps)
  then have nf: "\<not> found" using hit by blast
  obtain es' iter' where iter': "iter_in fs dest iter'" and unk: "decode_unknown rec fuel env es tag (wval_wt v) iter1 =
      (\<lambda>st. bind_res (on_stream (pb_skip_field (wval_wt v)) st) (\<lambda>_ st. Ok (es', iter') st))"
    using unknown_skips [OF wf iter1 tag(1) noext] by blast
  have "decode_loop (Suc k) rec fuel env seen es iter (bufs e (ser r @ bs) rest, m) =
      decode_loop k rec fuel env seen es' iter' (bufs e bs rest, m)"
    using find nf unk ok(1)
    by (simp add: r' ser_def stream_simps on_stream_def skip_wval [OF ok(2)]) (simp add: tag_bytes_def)
  with iter' show ?thesis by blast
qed

lemma decode_loop_all_unknown:
  assumes wf: "wf_fields fs" and noext: "\<forall>f\<in>set fs. PB_LTYPE (f_type f) \<noteq> PB_LTYPE_EXTENSION"
  shows "iter_in fs dest iter \<Longrightarrow> \<forall>r\<in>set rs. unknown_rec fs r \<Longrightarrow> length rs < k \<Longrightarrow>
    \<exists>iter'. iter_in fs dest iter' \<and>
      decode_loop k rec fuel env seen es iter (bufs e (ser_msg rs) rest, m) = Ok (seen, iter') (bufs e [] rest, m)"
proof (induction rs arbitrary: k iter es)
  case Nil
  then show ?case by (cases k) auto
next
  case (Cons r rs)
  then obtain k' where k: "k = Suc k'" and "length rs < k'" by (cases k) auto
  have "unknown_rec fs r" using Cons.prems(2) by simp
  note unknown = decode_loop_unknown [OF wf noext Cons.prems(1) this,
      where k = k' and rec = rec and fuel = fuel and env = env and seen = seen and es = es and e = e
        and bs = "ser_msg rs" and rest = rest and m = m]
  obtain es' iter' where "iter_in fs dest iter'"
      and step: "decode_loop k rec fuel env seen es iter (bufs e (ser r @ ser_msg rs) rest, m) =
        decode_loop k' rec fuel env seen es' iter' (bufs e (ser_msg rs) rest, m)"
    using unknown unfolding k by blast
  with Cons.IH [OF \<open>iter_in fs dest iter'\<close> _ \<open>length rs < k'\<close>] Cons.prems(2) show ?case by simp
qed


definition one_optional :: "pb_field list" where
  "one_optional = [Pb_field 1 0x11 0 0 4 0 NullPtr]"

lemma one_optional_layout: "layout_ok (Suc 0) one_optional 4"
  by code_simp

definition two_unknown :: "wrec list" where
  "two_unknown = [(2, WVarint 300), (1000, WBytes [1, 2])]"


section \<open>Required fields\<close>

definition required :: "pb_field \<Rightarrow> bool" where
  "required f \<longleftrightarrow> PB_HTYPE (f_type f) = PB_HTYPE_REQUIRED"

definition seen_bit :: "fields_seen \<Rightarrow> nat \<Rightarrow> bool" where
  "seen_bit seen i = bit (seen ! (i div 32)) (i mod 32)"

text \<open>What the loop records when it visits the fields at the positions \<open>ks\<close>.\<close>

definition visit :: "pb_field list \<Rightarrow> addr \<Rightarrow> nat list \<Rightarrow> fields_seen" where
  "visit fs dest ks = fold (\<lambda>k. mark_seen (iter_at fs dest k)) ks fields_seen_init"

lemma req_count_mono: "j \<le> k \<Longrightarrow> req_count (take j fs) \<le> req_count (take k fs)"
proof -
  assume "j \<le> k"
  then obtain d where "k = j + d" by (auto simp: le_iff_add)
  then show ?thesis by (simp add: req_count_def take_add)
qed

lemma req_count_strict:
  "j < k \<Longrightarrow> j < length fs \<Longrightarrow> required (fs ! j) \<Longrightarrow> req_count (take j fs) < req_count (take k fs)"
  using req_count_mono [of "Suc j" k fs] req_count_snoc [of j fs] by (simp add: required_def)

lemma req_index_inj:
  "j < length fs \<Longrightarrow> k < length fs \<Longrightarrow> required (fs ! j) \<Longrightarrow> required (fs ! k) \<Longrightarrow>
     req_count (take j fs) = req_count (take k fs) \<Longrightarrow> j = k"
  using req_count_strict [of j k fs] req_count_strict [of k j fs] by (cases j k rule: linorder_cases) auto

lemma req_index_lt: "k < length fs \<Longrightarrow> required (fs ! k) \<Longrightarrow> req_count (take k fs) < req_count fs"
  using req_count_strict [of k "length fs" fs] by simp

lemma req_index_ex: "i < req_count fs \<Longrightarrow> \<exists>k<length fs. required (fs ! k) \<and> req_count (take k fs) = i"
proof (induction fs rule: rev_induct)
  case (snoc f fs)
  show ?case
  proof (cases "i < req_count fs")
    case True
    with snoc.IH obtain k where "k < length fs" "required (fs ! k)" "req_count (take k fs) = i" by blast
    then show ?thesis by (intro exI [of _ k]) (simp add: nth_append)
  next
    case False
    with snoc.prems have "required f" "i = req_count fs"
      by (auto simp: req_count_def required_def split: if_splits)
    then show ?thesis by (intro exI [of _ "length fs"]) simp
  qed
qed (simp add: req_count_def)

lemma seen_bit_mark:
  assumes "wf_fields fs" and "k < length fs" and "length seen = 2" and "i < 64"
  shows "seen_bit (mark_seen (iter_at fs dest k) seen) i \<longleftrightarrow>
    seen_bit seen i \<or> required (fs ! k) \<and> req_count (take k fs) = i"
proof -
  let ?j = "req_count (take k fs)"
  have "i = ?j \<longleftrightarrow> i div 32 = ?j div 32 \<and> i mod 32 = ?j mod 32"
    by (metis div_mult_mod_eq)
  then show ?thesis
    using assms
    by (auto simp: seen_bit_def mark_seen_def Let_def iter_at_field required_index required_def
        nth_list_update bit_simps split: if_splits)
qed

lemma length_visit: "length (visit fs dest ks) = 2"
proof -
  have "length (fold (\<lambda>k. mark_seen (iter_at fs dest k)) ks seen) = length seen" for seen
    by (induction ks arbitrary: seen) simp_all
  then show ?thesis by (simp add: visit_def fields_seen_init_def)
qed

lemma seen_bit_visit:
  assumes "wf_fields fs" and "\<forall>k\<in>set ks. k < length fs" and "i < 64"
  shows "seen_bit (visit fs dest ks) i \<longleftrightarrow> (\<exists>k\<in>set ks. required (fs ! k) \<and> req_count (take k fs) = i)"
proof -
  have "seen_bit (fold (\<lambda>k. mark_seen (iter_at fs dest k)) ks seen) i \<longleftrightarrow>
      seen_bit seen i \<or> (\<exists>k\<in>set ks. required (fs ! k) \<and> req_count (take k fs) = i)" if "length seen = 2" for seen
    using assms(2) that
  proof (induction ks arbitrary: seen)
    case (Cons k ks)
    then show ?case using seen_bit_mark [OF assms(1) _ _ assms(3), of k seen dest] by auto
  qed simp
  moreover have "\<not> seen_bit fields_seen_init i"
    using assms(3) by (auto simp: seen_bit_def fields_seen_init_def nth_Cons split: nat.split)
  ultimately show ?thesis by (simp add: visit_def fields_seen_init_def)
qed

text \<open>All the required fields were visited exactly when the first \<open>req_count\<close> bits are set.\<close>

lemma visited_all_iff:
  assumes "wf_fields fs" and "\<forall>k\<in>set ks. k < length fs" and "req_count fs \<le> 64"
  shows "(\<forall>i<req_count fs. seen_bit (visit fs dest ks) i) \<longleftrightarrow>
    (\<forall>k<length fs. required (fs ! k) \<longrightarrow> k \<in> set ks)"
proof
  assume all: "\<forall>i<req_count fs. seen_bit (visit fs dest ks) i"
  show "\<forall>k<length fs. required (fs ! k) \<longrightarrow> k \<in> set ks"
  proof (intro allI impI)
    fix k assume k: "k < length fs" "required (fs ! k)"
    then have "req_count (take k fs) < req_count fs" by (rule req_index_lt)
    with all assms obtain j where "j \<in> set ks" "required (fs ! j)" "req_count (take j fs) = req_count (take k fs)"
      using seen_bit_visit [OF assms(1,2)] by (meson order.strict_trans2)
    with k assms(2) show "k \<in> set ks" using req_index_inj by blast
  qed
next
  assume "\<forall>k<length fs. required (fs ! k) \<longrightarrow> k \<in> set ks"
  then show "\<forall>i<req_count fs. seen_bit (visit fs dest ks) i"
    using seen_bit_visit [OF assms(1,2)] req_index_ex assms(3) by (meson order.strict_trans2)
qed

lemma unvisited_above:
  assumes "wf_fields fs" and "\<forall>k\<in>set ks. k < length fs" and "req_count fs \<le> i" and "i < 64"
  shows "\<not> seen_bit (visit fs dest ks) i"
  using seen_bit_visit [OF assms(1,2,4)] req_index_lt assms(2,3) by fastforce

lemma low_bits_iff:
  assumes "k < 32" and "\<And>j. k \<le> j \<Longrightarrow> j < 32 \<Longrightarrow> \<not> bit w j"
  shows "(w :: u32) = drop_bit (32 - k) (-1) \<longleftrightarrow> (\<forall>j<k. bit w j)"
proof
  assume w: "w = drop_bit (32 - k) (-1)"
  show "\<forall>j<k. bit w j" using assms(1) unfolding w by (auto simp: bit_simps)
next
  assume "\<forall>j<k. bit w j"
  with assms show "w = drop_bit (32 - k) (-1)"
    by (intro bit_word_eqI) (auto simp: bit_simps, (metis not_less)+)
qed

lemma full_word_iff: "(w :: u32) = -1 \<longleftrightarrow> (\<forall>j<32. bit w j)"
  by (auto intro: bit_word_eqI)

lemma seen_bit_words:
  "j < 32 \<Longrightarrow> seen_bit seen j = bit (seen ! 0) j" "j < 32 \<Longrightarrow> seen_bit seen (32 + j) = bit (seen ! 1) j"
proof -
  assume j: "j < 32"
  then have "(32 + j) div 32 = 1" by (intro div_nat_eqI) simp_all
  with j show "seen_bit seen j = bit (seen ! 0) j" and "seen_bit seen (32 + j) = bit (seen ! 1) j"
    by (simp_all add: seen_bit_def)
qed

lemma check_required_bits:
  assumes "length seen = 2" and "0 < n" and "n < 64" and "n mod 32 \<noteq> 0"
    and above: "\<And>i. n \<le> i \<Longrightarrow> i < 64 \<Longrightarrow> \<not> seen_bit seen i"
  shows "check_required n seen st =
    (if \<forall>i<n. seen_bit seen i then Ok () st else dec_error ''missing required field'' st)"
proof (cases "n < 32")
  case True
  have "\<not> bit (seen ! 0) j" if "n \<le> j" "j < 32" for j
    using above [of j] seen_bit_words(1) [of j seen] that by simp
  then have "seen ! 0 = drop_bit (32 - n) (-1) \<longleftrightarrow> (\<forall>j<n. bit (seen ! 0) j)"
    using True by (rule low_bits_iff [rotated])
  also have "\<dots> \<longleftrightarrow> (\<forall>i<n. seen_bit seen i)"
    using True seen_bit_words(1) by auto
  finally show ?thesis
    using True assms(1,2) by (auto simp: check_required_def)
next
  case False
  define k where "k = n - 32"
  have k: "n = 32 + k" "k < 32" "k \<noteq> 0" using False assms(3,4) by (auto simp: k_def)
  have "n div 32 = 1" "n mod 32 = k" using k by simp_all
  have "\<not> bit (seen ! 1) j" if "k \<le> j" "j < 32" for j
    using above [of "32 + j"] seen_bit_words(2) [of j seen] that k by simp
  then have "seen ! 1 = drop_bit (32 - k) (-1) \<longleftrightarrow> (\<forall>j<k. bit (seen ! 1) j)"
    using k(2) by (rule low_bits_iff [rotated])
  moreover have "(\<forall>i<n. seen_bit seen i) \<longleftrightarrow> (\<forall>j<32. bit (seen ! 0) j) \<and> (\<forall>j<k. bit (seen ! 1) j)"
  proof -
    have "(\<forall>i<n. seen_bit seen i) \<longleftrightarrow> (\<forall>j<32. seen_bit seen j) \<and> (\<forall>j<k. seen_bit seen (32 + j))"
      unfolding k(1)
    proof (intro iffI conjI allI impI; (elim conjE)?)
      fix i assume "\<forall>j<32. seen_bit seen j" "\<forall>j<k. seen_bit seen (32 + j)" "i < 32 + k"
      then show "seen_bit seen i" by (cases "i < 32") (auto dest: spec [of _ "i - 32"])
    qed auto
    then show ?thesis using seen_bit_words k(2) by (auto dest: order.strict_trans)
  qed
  ultimately show ?thesis
    using assms(1,2) \<open>n div 32 = 1\<close> \<open>n mod 32 = k\<close> k(3)
    by (auto simp: check_required_def full_word_iff dec_error_def)
qed



text \<open>
  C21: For a descriptor with 32 required fields the same check is undefined: when all of them are
  present it shifts a 32-bit value by 32, where it should accept the message.
\<close>

theorem required_fields_32_undefined:
  assumes "wf_fields fs" and "\<forall>k\<in>set ks. k < length fs" and "req_count fs = 32"
    and "\<forall>k<length fs. required (fs ! k) \<longrightarrow> k \<in> set ks"
  shows "check_required (req_count fs) (visit fs dest ks) st = Fault"
proof -
  have "\<forall>i<32. seen_bit (visit fs dest ks) i"
    using visited_all_iff [OF assms(1,2), of dest] assms(3,4) by simp
  then have "visit fs dest ks ! 0 = -1" by (simp add: full_word_iff seen_bit_words)
  then show ?thesis
    using length_visit [of fs dest ks] by (simp add: check_required_def assms(3))
qed

definition fields_32 :: "pb_field list" where
  "fields_32 = map (\<lambda>i. Pb_field (of_nat (Suc i)) 0x01 0 0 4 0 NullPtr) [0..<32]"

theorem required_fields_32_undefined_witness:
  "check_required (req_count fields_32) (visit fields_32 0 [0..<32])
     (bufs None [] [] :: unit pb_istream, \<lambda>_. 0) = Fault"
  by (rule required_fields_32_undefined) code_simp+

section \<open>Truncated messages\<close>



end
