(* ===== verification/LdbCoding.thy ===== *)
theory LdbCoding
  imports PbWire "HOL-Library.Sublist"
begin

text \<open>
  leveldb's integer and string encodings (\<open>util/coding.cc\<close>, \<open>util/coding.h\<close>).  The fixed-width routines
  have a branch for little-endian hosts, which the other theories use, and a byte-wise one
  (\<open>_portable\<close>), shown equal below.  A \<open>std::string\<close> and a \<open>Slice\<close> are byte lists; a pair of pointers \<open>p, limit\<close> is the list of
  the bytes between them, and a null result is \<open>None\<close>.  The functions that write through a
  pointer return the bytes they write.

  The varint format is the one of protocol buffers, so the lemmas on \<open>varint_bytes\<close> carry over.
\<close>

section \<open>Writers\<close>

definition EncodeFixed32 :: "u32 \<Rightarrow> u8 list" where
  "EncodeFixed32 v = le_bytes 4 v"

definition EncodeFixed64 :: "u64 \<Rightarrow> u8 list" where
  "EncodeFixed64 v = le_bytes 8 v"

definition EncodeFixed32_portable :: "u32 \<Rightarrow> u8 list" where
  "EncodeFixed32_portable v =
     [ucast (v AND 0xFF), ucast (drop_bit 8 v AND 0xFF), ucast (drop_bit 16 v AND 0xFF),
      ucast (drop_bit 24 v AND 0xFF)]"

definition EncodeFixed64_portable :: "u64 \<Rightarrow> u8 list" where
  "EncodeFixed64_portable v =
     [ucast (v AND 0xFF), ucast (drop_bit 8 v AND 0xFF), ucast (drop_bit 16 v AND 0xFF),
      ucast (drop_bit 24 v AND 0xFF), ucast (drop_bit 32 v AND 0xFF), ucast (drop_bit 40 v AND 0xFF),
      ucast (drop_bit 48 v AND 0xFF), ucast (drop_bit 56 v AND 0xFF)]"

definition PutFixed32 :: "u32 \<Rightarrow> u8 list \<Rightarrow> u8 list" where
  "PutFixed32 v dst = dst @ EncodeFixed32 v"

definition PutFixed64 :: "u64 \<Rightarrow> u8 list \<Rightarrow> u8 list" where
  "PutFixed64 v dst = dst @ EncodeFixed64 v"

definition EncodeVarint32 :: "u32 \<Rightarrow> u8 list" where
  "EncodeVarint32 v =
     (let B = 128 :: u32 in
      if v < push_bit 7 1 then [ucast v]
      else if v < push_bit 14 1 then [ucast (v OR B), ucast (drop_bit 7 v)]
      else if v < push_bit 21 1
      then [ucast (v OR B), ucast (drop_bit 7 v OR B), ucast (drop_bit 14 v)]
      else if v < push_bit 28 1
      then [ucast (v OR B), ucast (drop_bit 7 v OR B), ucast (drop_bit 14 v OR B), ucast (drop_bit 21 v)]
      else [ucast (v OR B), ucast (drop_bit 7 v OR B), ucast (drop_bit 14 v OR B),
            ucast (drop_bit 21 v OR B), ucast (drop_bit 28 v)])"

definition PutVarint32 :: "u32 \<Rightarrow> u8 list \<Rightarrow> u8 list" where
  "PutVarint32 v dst = dst @ EncodeVarint32 v"

function EncodeVarint64 :: "u64 \<Rightarrow> u8 list" where
  "EncodeVarint64 v =
     (if 128 \<le> v then ucast (v AND 127 OR 128) # EncodeVarint64 (drop_bit 7 v) else [ucast v])"
  by pat_completeness auto
termination
  by (relation "measure unat") (auto simp: unat_drop_bit_7 word_le_nat_alt)

declare EncodeVarint64.simps [simp del]

definition PutVarint64 :: "u64 \<Rightarrow> u8 list \<Rightarrow> u8 list" where
  "PutVarint64 v dst = dst @ EncodeVarint64 v"

text \<open>The size of the slice is converted to 32 bits.\<close>

definition PutLengthPrefixedSlice :: "u8 list \<Rightarrow> u8 list \<Rightarrow> u8 list" where
  "PutLengthPrefixedSlice val dst = PutVarint32 (of_nat (length val)) dst @ val"

function VarintLength_loop :: "u64 \<Rightarrow> nat \<Rightarrow> nat" where
  "VarintLength_loop v len = (if 128 \<le> v then VarintLength_loop (drop_bit 7 v) (len + 1) else len)"
  by pat_completeness auto
termination
  by (relation "measure (\<lambda>(v, len). unat v)") (auto simp: unat_drop_bit_7 word_le_nat_alt)

declare VarintLength_loop.simps [simp del]

definition VarintLength :: "u64 \<Rightarrow> nat" where
  "VarintLength v = VarintLength_loop v 1"

section \<open>Readers\<close>

fun DecodeFixed32 :: "u8 list \<Rightarrow> u32 option" where
  "DecodeFixed32 ptr = (if length ptr < 4 then None else Some (le_word (take 4 ptr)))"

fun DecodeFixed64 :: "u8 list \<Rightarrow> u64 option" where
  "DecodeFixed64 ptr = (if length ptr < 8 then None else Some (le_word (take 8 ptr)))"

fun DecodeFixed32_portable :: "u8 list \<Rightarrow> u32 option" where
  "DecodeFixed32_portable (p0 # p1 # p2 # p3 # ps) =
     Some (ucast p0 OR push_bit 8 (ucast p1) OR push_bit 16 (ucast p2) OR push_bit 24 (ucast p3))"
| "DecodeFixed32_portable ptr = None"

fun DecodeFixed64_portable :: "u8 list \<Rightarrow> u64 option" where
  "DecodeFixed64_portable ptr =
     (case (DecodeFixed32_portable ptr, DecodeFixed32_portable (drop 4 ptr)) of
        (Some lo, Some hi) \<Rightarrow> Some (push_bit 32 (ucast hi) OR ucast lo)
      | _ \<Rightarrow> None)"

fun GetVarint32_loop :: "nat \<Rightarrow> u32 \<Rightarrow> u8 list \<Rightarrow> (u32 \<times> u8 list) option" where
  "GetVarint32_loop shift result [] = None"
| "GetVarint32_loop shift result (p # ps) =
     (if 28 < shift then None
      else
        let byte = ucast p :: u32 in
        if byte AND 128 \<noteq> 0
        then GetVarint32_loop (shift + 7) (result OR push_bit shift (byte AND 127)) ps
        else Some (result OR push_bit shift byte, ps))"

definition GetVarint32PtrFallback :: "u8 list \<Rightarrow> (u32 \<times> u8 list) option" where
  "GetVarint32PtrFallback ps = GetVarint32_loop 0 0 ps"

definition GetVarint32Ptr :: "u8 list \<Rightarrow> (u32 \<times> u8 list) option" where
  "GetVarint32Ptr ps =
     (case ps of
        p # ps' \<Rightarrow>
          if (ucast p :: u32) AND 128 = 0 then Some (ucast p, ps') else GetVarint32PtrFallback ps
      | [] \<Rightarrow> GetVarint32PtrFallback ps)"

definition GetVarint32 :: "u8 list \<Rightarrow> (u32 \<times> u8 list) option" where
  "GetVarint32 input = GetVarint32Ptr input"

fun GetVarint64_loop :: "nat \<Rightarrow> u64 \<Rightarrow> u8 list \<Rightarrow> (u64 \<times> u8 list) option" where
  "GetVarint64_loop shift result [] = None"
| "GetVarint64_loop shift result (p # ps) =
     (if 63 < shift then None
      else
        let byte = ucast p :: u64 in
        if byte AND 128 \<noteq> 0
        then GetVarint64_loop (shift + 7) (result OR push_bit shift (byte AND 127)) ps
        else Some (result OR push_bit shift byte, ps))"

definition GetVarint64Ptr :: "u8 list \<Rightarrow> (u64 \<times> u8 list) option" where
  "GetVarint64Ptr ps = GetVarint64_loop 0 0 ps"

definition GetVarint64 :: "u8 list \<Rightarrow> (u64 \<times> u8 list) option" where
  "GetVarint64 input = GetVarint64Ptr input"

text \<open>The pointer and the slice variant of \<open>GetLengthPrefixedSlice\<close>.\<close>

definition GetLengthPrefixedSlice_ptr :: "u8 list \<Rightarrow> (u8 list \<times> u8 list) option" where
  "GetLengthPrefixedSlice_ptr ps =
     (case GetVarint32Ptr ps of
        None \<Rightarrow> None
      | Some (len, q) \<Rightarrow> if length q < unat len then None else Some (take (unat len) q, drop (unat len) q))"

definition GetLengthPrefixedSlice :: "u8 list \<Rightarrow> (u8 list \<times> u8 list) option" where
  "GetLengthPrefixedSlice input =
     (case GetVarint32 input of
        Some (len, input') \<Rightarrow>
          if unat len \<le> length input' then Some (take (unat len) input', drop (unat len) input') else None
      | None \<Rightarrow> None)"

section \<open>The varint format\<close>

lemma EncodeVarint64_eq: "EncodeVarint64 v = varint_bytes v"
proof (induction v rule: EncodeVarint64.induct)
  case (1 v)
  then show ?case
    by (cases "v < 128") (simp_all add: EncodeVarint64.simps [of v] varint_bytes.simps [of v] not_le [symmetric])
qed

lemma varint_bytes_ucast:
  fixes v :: u32
  shows "varint_bytes (ucast v) =
    (if v < 128 then [ucast v] else ucast (v OR 128) # varint_bytes (ucast (drop_bit 7 v)))"
proof -
  have less: "(ucast v :: u64) < 128 \<longleftrightarrow> v < 128" by (simp add: word_less_nat_alt)
  have one: "(ucast (ucast v :: u64) :: u8) = ucast v" by (rule bit_word_eqI) (auto simp: bit_simps)
  have digit: "(ucast (take_bit 7 (ucast v :: u64) OR 0x80) :: u8) = ucast (v OR 0x80)"
    unfolding or_80 by (rule bit_word_eqI) (auto simp: bit_simps less_Suc_eq numeral_eq_Suc)
  have shift: "drop_bit 7 (ucast v :: u64) = ucast (drop_bit 7 v)"
    by (rule bit_word_eqI) (auto simp: bit_simps dest: bit_imp_le_length)
  show ?thesis
    by (subst varint_bytes.simps) (simp add: less one digit and_7F shift)
qed

lemma EncodeVarint32_eq: "EncodeVarint32 v = varint_bytes (ucast v)"
proof -
  have bound: "drop_bit k v < 128 \<longleftrightarrow> unat v < 2 ^ k * 128" for k
    by (simp add: word_less_nat_alt unat_drop_bit_div less_mult_imp_div_less div_less_iff_less_mult mult.commute)
  have "drop_bit 28 v < 128" using unat_u32 [of v] by (simp add: bound)
  then show ?thesis
    using bound [of 0] bound [of 7] bound [of 14] bound [of 21]
    by (simp add: EncodeVarint32_def varint_bytes_ucast Let_def word_less_nat_alt drop_bit_drop_bit)
qed

lemma VarintLength_eq: "VarintLength v = length (varint_bytes v)"
proof -
  have "VarintLength_loop v n = n + length (varint_bytes v) - 1" for n
  proof (induction v arbitrary: n rule: varint_bytes.induct)
    case (1 v)
    have "0 < length (varint_bytes (drop_bit 7 v))" by simp
    with 1 show ?case
      by (cases "v < 128") (simp_all add: VarintLength_loop.simps [of v] varint_bytes.simps [of v] not_le [symmetric])
  qed
  then show ?thesis by (simp add: VarintLength_def)
qed

lemma cont_digit_wide:
  "bit (ucast (ucast (take_bit 7 v OR 0x80) :: u8) :: u64) 7"
  "take_bit 7 (ucast (ucast (take_bit 7 v OR 0x80) :: u8)) = take_bit 7 (v :: u64)"
  "bit (ucast (ucast (take_bit 7 v OR 0x80) :: u8) :: u32) 7"
  "take_bit 7 (ucast (ucast (take_bit 7 v OR 0x80) :: u8)) = (take_bit 7 (ucast v) :: u32)"
  unfolding or_80 by (auto simp: bit_simps intro!: bit_word_eqI)

lemma GetVarint64_loop_bytes:
  "unat v < 2 ^ (64 - shift) \<Longrightarrow> shift < 64 \<Longrightarrow>
     GetVarint64_loop shift result (varint_bytes v @ rest) = Some (result OR push_bit shift v, rest)"
proof (induction v arbitrary: shift result rule: varint_bytes.induct)
  case (1 v)
  show ?case
  proof (cases "v < 128")
    case True
    then have "\<not> bit v 7" using bit_high_zero [of v 7 7] by (simp add: word_less_nat_alt)
    with True 1 show ?thesis
      by (simp add: varint_bytes.simps Let_def and_80 bit_simps last_digit)
  next
    case False
    note next_digit_bound [OF "1.prems"(1) False]
    with False 1 show ?thesis
      by (simp add: varint_bytes.simps [of v] Let_def and_80 and_7F or.assoc push_take_drop cont_digit_wide)
  qed
qed

lemma GetVarint32_loop_bytes:
  "unat v < 2 ^ (32 - shift) \<Longrightarrow> shift < 32 \<Longrightarrow> shift mod 7 = 0 \<Longrightarrow>
     GetVarint32_loop shift result (varint_bytes v @ rest) = Some (result OR push_bit shift (ucast v), rest)"
proof (induction v arbitrary: shift result rule: varint_bytes.induct)
  case (1 v)
  show ?case
  proof (cases "v < 128")
    case True
    then have "\<not> bit v 7" using bit_high_zero [of v 7 7] by (simp add: word_less_nat_alt)
    moreover have "shift \<le> 28" using "1.prems"(2,3) by presburger
    ultimately show ?thesis
      using True 1 by (simp add: varint_bytes.simps Let_def and_80 bit_simps last_digit)
  next
    case False
    note next_digit_bound [OF "1.prems"(1) False]
    moreover have "(shift + 7) mod 7 = 0" using "1.prems"(3) by simp
    ultimately show ?thesis
      using False 1 push_take_drop_32 [of shift v]
      by (simp add: varint_bytes.simps [of v] Let_def and_80 and_7F or.assoc cont_digit_wide)
  qed
qed

section \<open>Appending and consuming\<close>

text \<open>
  The contract between a \<open>Put\<close> and a \<open>Get\<close> routine: \<open>put\<close> appends, \<open>get\<close> reads back what \<open>put\<close> appended,
  whatever follows, and consumes something whenever it succeeds.
\<close>

locale slice_codec =
  fixes put :: "'a \<Rightarrow> u8 list \<Rightarrow> u8 list"
    and get :: "u8 list \<Rightarrow> ('a \<times> u8 list) option"
    and valid :: "'a \<Rightarrow> bool"
  assumes put_append: "put a dst = dst @ put a []"
    and get_put: "valid a \<Longrightarrow> get (put a [] @ rest) = Some (a, rest)"
    and get_progress: "get bs = Some (a, rest) \<Longrightarrow> length rest < length bs"
begin

definition put_all :: "'a list \<Rightarrow> u8 list \<Rightarrow> u8 list" where
  "put_all xs dst = fold put xs dst"

function get_all :: "u8 list \<Rightarrow> 'a list option" where
  "get_all bs =
     (if bs = [] then Some []
      else case get bs of None \<Rightarrow> None | Some (a, rest) \<Rightarrow> map_option ((#) a) (get_all rest))"
  by pat_completeness auto
termination
  by (relation "measure length") (auto dest: get_progress)

lemma put_all_append: "put_all xs dst = dst @ concat (map (\<lambda>a. put a []) xs)"
proof (induction xs arbitrary: dst)
  case (Cons a xs)
  show ?case using Cons [of "put a dst"] put_append [of a dst] by (simp add: put_all_def)
qed (simp add: put_all_def)

lemma put_nonempty: "valid a \<Longrightarrow> put a [] \<noteq> []"
  using get_put [of a "[]"] get_progress [of "[]" a "[]"] by auto

text \<open>A sequence of values written one after the other is read back.\<close>

lemma get_all_put_all: "\<forall>a\<in>set xs. valid a \<Longrightarrow> get_all (put_all xs []) = Some xs"
proof (induction xs)
  case Nil
  show ?case by (simp add: put_all_def)
next
  case (Cons a xs)
  then have "get_all (concat (map (\<lambda>a. put a []) xs)) = Some xs" by (simp add: put_all_append)
  with Cons.prems show ?case
    using put_nonempty [of a]
    by (subst get_all.simps) (simp add: put_all_append get_put)
qed

end

lemma GetVarint64_bytes: "GetVarint64 (varint_bytes v @ rest) = Some (v, rest)"
  using GetVarint64_loop_bytes [of v 0 0 rest] unat_u64 [of v] by (simp add: GetVarint64_def GetVarint64Ptr_def)

lemma fast_path: "GetVarint32Ptr ps = GetVarint32PtrFallback ps"
  by (cases ps) (simp_all add: GetVarint32Ptr_def GetVarint32PtrFallback_def Let_def)

lemma GetVarint32_bytes: "GetVarint32 (varint_bytes (ucast v) @ rest) = Some (v, rest)"
  using GetVarint32_loop_bytes [of "ucast v" 0 0 rest] unat_u32 [of v]
  by (simp add: GetVarint32_def fast_path GetVarint32PtrFallback_def)

lemma GetVarint64_loop_progress:
  "GetVarint64_loop shift result bs = Some (v, rest) \<Longrightarrow> suffix rest bs \<and> length rest < length bs"
  by (induction shift result bs rule: GetVarint64_loop.induct)
     (auto simp: Let_def suffix_Cons split: if_splits)

lemma GetVarint32_loop_progress:
  "GetVarint32_loop shift result bs = Some (v, rest) \<Longrightarrow> suffix rest bs \<and> length rest < length bs"
  by (induction shift result bs rule: GetVarint32_loop.induct)
     (auto simp: Let_def suffix_Cons split: if_splits)

lemma GetVarint64_progress: "GetVarint64 bs = Some (v, rest) \<Longrightarrow> suffix rest bs \<and> length rest < length bs"
  unfolding GetVarint64_def GetVarint64Ptr_def by (rule GetVarint64_loop_progress)

lemma GetVarint32_progress: "GetVarint32 bs = Some (v, rest) \<Longrightarrow> suffix rest bs \<and> length rest < length bs"
  unfolding GetVarint32_def fast_path GetVarint32PtrFallback_def by (rule GetVarint32_loop_progress)

interpretation ldb_varint64: slice_codec PutVarint64 GetVarint64 "\<lambda>_. True"
  by unfold_locales
     (auto simp: PutVarint64_def EncodeVarint64_eq GetVarint64_bytes dest: GetVarint64_progress)

interpretation ldb_varint32: slice_codec PutVarint32 GetVarint32 "\<lambda>_. True"
  by unfold_locales
     (auto simp: PutVarint32_def EncodeVarint32_eq GetVarint32_bytes dest: GetVarint32_progress)

lemma GetLengthPrefixedSlice_put:
  assumes "length a < 2 ^ 32"
  shows "GetLengthPrefixedSlice (PutLengthPrefixedSlice a [] @ rest) = Some (a, rest)"
proof -
  have "unat (of_nat (length a) :: u32) = length a"
    using assms by (simp add: unat_of_nat take_bit_nat_eq_self)
  then show ?thesis
    using GetVarint32_bytes [of "of_nat (length a)" "a @ rest"]
    by (simp add: GetLengthPrefixedSlice_def PutLengthPrefixedSlice_def PutVarint32_def EncodeVarint32_eq)
qed

interpretation length_prefixed: slice_codec PutLengthPrefixedSlice GetLengthPrefixedSlice
    "\<lambda>s. length s < 2 ^ 32"
proof (unfold_locales, goal_cases)
  case (1 a dst)
  then show ?case by (simp add: PutLengthPrefixedSlice_def PutVarint32_def)
next
  case (2 a rest)
  then show ?case by (rule GetLengthPrefixedSlice_put)
next
  case (3 bs a rest)
  then show ?case
    by (auto simp: GetLengthPrefixedSlice_def split: option.splits if_splits dest!: ldb_varint32.get_progress)
qed

section \<open>Properties of the encodings\<close>

lemma ucast_low_byte: "(ucast (w AND 0xFF) :: u8) = ucast (w :: 'a::len word)"
proof -
  have "w AND 0xFF = take_bit 8 w" by (simp add: take_bit_eq_mask mask_eq_exp_minus_1)
  then show ?thesis by (auto simp: bit_simps intro!: bit_word_eqI)
qed

lemma EncodeFixed_portable:
  "EncodeFixed32_portable v = EncodeFixed32 v"
  "EncodeFixed64_portable w = EncodeFixed64 w"
  by (simp_all add: EncodeFixed32_portable_def EncodeFixed64_portable_def EncodeFixed32_def EncodeFixed64_def
      ucast_low_byte numeral_eq_Suc drop_bit_drop_bit)

lemma DecodeFixed32_portable: "DecodeFixed32_portable bs = DecodeFixed32 bs"
  by (induction bs rule: DecodeFixed32_portable.induct)
     (auto simp: numeral_eq_Suc push_bit_or or.assoc)

lemma le_word_append: "(le_word (as @ bs) :: 'a::len word) = le_word as OR push_bit (8 * length as) (le_word bs)"
  by (induction as) (simp_all add: push_bit_or or.assoc add.commute)

lemma bit_le_word_high: "8 * length bs \<le> n \<Longrightarrow> \<not> bit (le_word bs :: 'a::len word) n"
proof (induction bs arbitrary: n)
  case (Cons b bs)
  then show ?case
    using Cons.IH [of "n - 8"] by (auto simp: bit_simps dest: bit_imp_le_length)
qed simp

lemma le_word_ucast:
  "length bs \<le> 4 \<Longrightarrow> (ucast (le_word bs :: u32) :: u64) = le_word bs"
proof (induction bs)
  case (Cons b bs)
  have "(ucast (ucast b OR push_bit 8 (le_word bs) :: u32) :: u64) = ucast b OR push_bit 8 (ucast (le_word bs :: u32))"
  proof (rule bit_word_eqI)
    fix n assume "n < LENGTH(64)"
    moreover have "n < 32" if "bit (le_word bs :: u32) (n - 8)"
    proof (rule ccontr)
      assume "\<not> n < 32"
      with Cons.prems have "\<not> bit (le_word bs :: u32) (n - 8)" by (intro bit_le_word_high) simp
      with that show False by blast
    qed
    ultimately show "bit (ucast (ucast b OR push_bit 8 (le_word bs) :: u32) :: u64) n =
        bit (ucast b OR push_bit 8 (ucast (le_word bs :: u32)) :: u64) n"
      by (auto simp: bit_simps not_less dest: bit_imp_le_length)
  qed
  with Cons show ?case by simp
qed simp

lemma DecodeFixed64_portable: "DecodeFixed64_portable bs = DecodeFixed64 bs"
proof (cases "length bs < 8")
  case True
  then show ?thesis by (auto simp: DecodeFixed32_portable)
next
  case False
  have "(le_word (take 4 bs @ take 4 (drop 4 bs)) :: u64) = le_word (take 8 bs)"
    using False by (simp flip: take_add)
  with False show ?thesis
    by (simp add: DecodeFixed32_portable le_word_append le_word_ucast or.commute)
qed

text \<open>
  The fixed-width encodings do not depend on the byte order of the host: the byte-wise branches
  of \<open>EncodeFixed32/64\<close> and \<open>DecodeFixed32/64\<close> compute what the little-endian branches compute, and decoding
  inverts encoding whatever follows.
\<close>

theorem fixed_endian_neutral:
  "EncodeFixed32_portable v = EncodeFixed32 v \<and> EncodeFixed64_portable w = EncodeFixed64 w \<and>
   DecodeFixed32_portable bs = DecodeFixed32 bs \<and> DecodeFixed64_portable bs = DecodeFixed64 bs \<and>
   DecodeFixed32 (PutFixed32 v [] @ rest) = Some v \<and> DecodeFixed64 (PutFixed64 w [] @ rest) = Some w"
  by (simp add: EncodeFixed_portable DecodeFixed32_portable DecodeFixed64_portable PutFixed32_def PutFixed64_def
      EncodeFixed32_def EncodeFixed64_def del: DecodeFixed64_portable.simps)

text \<open>
  C30: \<open>PutVarint32\<close> and \<open>PutVarint64\<close> append the varint of the value; it takes exactly \<open>VarintLength\<close>
  bytes, within the 5- and 10-byte buffers the code declares for it, and \<open>GetVarint32\<close> and
  \<open>GetVarint64\<close> read the value back and stop right behind it.
\<close>

theorem ldb_varint_round_trip:
  "PutVarint32 v dst = dst @ EncodeVarint32 v \<and> length (EncodeVarint32 v) = VarintLength (ucast v) \<and>
   length (EncodeVarint32 v) \<le> 5 \<and> GetVarint32 (EncodeVarint32 v @ rest) = Some (v, rest) \<and>
   PutVarint64 w dst = dst @ EncodeVarint64 w \<and> length (EncodeVarint64 w) = VarintLength w \<and>
   length (EncodeVarint64 w) \<le> 10 \<and> GetVarint64 (EncodeVarint64 w @ rest) = Some (w, rest)"
proof -
  have "length (varint_bytes (ucast v)) \<le> 5" using unat_u32 [of v] by (intro length_varint_bytes) auto
  moreover have "length (varint_bytes w) \<le> 10" using unat_u64 [of w] by (intro length_varint_bytes) auto
  ultimately show ?thesis
    by (simp add: EncodeVarint32_eq EncodeVarint64_eq VarintLength_eq GetVarint32_bytes GetVarint64_bytes
        PutVarint32_def PutVarint64_def)
qed

text \<open>
  The inlined fast path of \<open>GetVarint32Ptr\<close> agrees with the general loop on every input, and all the
  readers only look at the given range and consume at least one byte when they succeed: what
  they return is a proper suffix of their input.
\<close>

theorem GetVarint32Ptr_fallback:
  "GetVarint32Ptr ps = GetVarint32PtrFallback ps \<and>
   (\<forall>v q. GetVarint32Ptr ps = Some (v, q) \<longrightarrow> suffix q ps \<and> length q < length ps) \<and>
   (\<forall>v q. GetVarint64Ptr ps = Some (v, q) \<longrightarrow> suffix q ps \<and> length q < length ps)"
  using GetVarint32_progress [of ps] GetVarint64_progress [of ps]
  by (simp add: GetVarint32_def GetVarint64_def fast_path)

theorem GetVarint32Ptr_fallback_witness:
  "suffix [7 :: u8] [0x96, 1, 7] \<and> length [7 :: u8] < length [0x96 :: u8, 1, 7]"
  using GetVarint32Ptr_fallback [of "[0x96, 1, 7]"]
  by (simp add: GetVarint32Ptr_def GetVarint32PtrFallback_def Let_def)

text \<open>
  Strings written one after the other by \<open>PutLengthPrefixedSlice\<close> are read back by the same number of
  calls of \<open>GetLengthPrefixedSlice\<close>, each leaving what follows; the pointer variant agrees with it.
  A length that does not fit 32 bits would be cut off, hence the bound.
\<close>

theorem length_prefixed_round_trip:
  assumes "length a < 2 ^ 32" and "length b < 2 ^ 32"
  shows "GetLengthPrefixedSlice (PutLengthPrefixedSlice b (PutLengthPrefixedSlice a []) @ rest) =
      Some (a, PutLengthPrefixedSlice b [] @ rest) \<and>
    GetLengthPrefixedSlice (PutLengthPrefixedSlice b [] @ rest) = Some (b, rest) \<and>
    GetLengthPrefixedSlice_ptr bs = GetLengthPrefixedSlice bs"
  using length_prefixed.get_put assms length_prefixed.put_append [of b "PutLengthPrefixedSlice a []"]
  by (auto simp: GetLengthPrefixedSlice_ptr_def GetLengthPrefixedSlice_def GetVarint32_def split: option.splits)

theorem length_prefixed_round_trip_witness:
  "GetLengthPrefixedSlice (PutLengthPrefixedSlice [1, 2] (PutLengthPrefixedSlice [9] []) @ [7]) =
      Some ([9], PutLengthPrefixedSlice [1, 2] [] @ [7]) \<and>
    GetLengthPrefixedSlice (PutLengthPrefixedSlice [1, 2] [] @ [7]) = Some ([1, 2], [7]) \<and>
    GetLengthPrefixedSlice_ptr [1, 5] = GetLengthPrefixedSlice [1, 5]"
  by (rule length_prefixed_round_trip) simp_all

end
