(* ===== verification/LdbBase.thy ===== *)
theory LdbBase
  imports LdbCoding "HOL-Library.List_Lexorder"
begin

text \<open>
  The value types and the key order of leveldb: \<open>Slice\<close> (\<open>include/leveldb/slice.h\<close>), \<open>Status\<close>
  (\<open>include/leveldb/status.h\<close>, \<open>util/status.cc\<close>) and the bytewise comparator (\<open>util/comparator.cc\<close>).

  A \<open>Slice\<close> is the list of the bytes it refers to.  A \<open>Status\<close> keeps the representation of the
  source: \<open>None\<close> is the null \<open>state_\<close> of success, otherwise the array with the length, the code and
  the message.  An operation guarded by \<open>assert\<close> returns \<open>None\<close> where the assertion fails.

  The locale \<open>comparator\<close> is the contract of \<open>include/leveldb/comparator.h\<close>; \<open>key_comparator\<close> adds the
  two key-shortening operations.
\<close>

section \<open>Slices\<close>

type_synonym slice = "u8 list"

definition str :: "string \<Rightarrow> slice" where
  "str s = map of_char s"

definition Slice_index :: "slice \<Rightarrow> nat \<Rightarrow> u8 option" where
  "Slice_index s n = (if n < length s then Some (s ! n) else None)"

definition remove_prefix :: "nat \<Rightarrow> slice \<Rightarrow> slice option" where
  "remove_prefix n s = (if n \<le> length s then Some (drop n s) else None)"

text \<open>\<open>memcmp\<close> on two ranges of the same length; only the sign of its result is specified.\<close>

fun memcmp :: "slice \<Rightarrow> slice \<Rightarrow> int" where
  "memcmp (a # as) (b # bs) = (if a = b then memcmp as bs else if a < b then -1 else 1)"
| "memcmp _ _ = 0"

definition starts_with :: "slice \<Rightarrow> slice \<Rightarrow> bool" where
  "starts_with s x \<longleftrightarrow> length x \<le> length s \<and> memcmp (take (length x) s) x = 0"

definition Slice_eq :: "slice \<Rightarrow> slice \<Rightarrow> bool" where
  "Slice_eq x y \<longleftrightarrow> length x = length y \<and> memcmp x y = 0"

definition Slice_compare :: "slice \<Rightarrow> slice \<Rightarrow> int" where
  "Slice_compare a b =
     (let min_len = if length a < length b then length a else length b;
          r = memcmp (take min_len a) (take min_len b)
      in if r = 0 then (if length a < length b then -1 else if length b < length a then 1 else r) else r)"

lemma Slice_compare_simps [simp]:
  "Slice_compare [] [] = 0"
  "Slice_compare [] (b # bs) = -1"
  "Slice_compare (a # as) [] = 1"
  "Slice_compare (a # as) (b # bs) = (if a = b then Slice_compare as bs else if a < b then -1 else 1)"
  by (auto simp: Slice_compare_def Let_def)

lemma Slice_compare_order: "Slice_compare a b = (if a < b then -1 else if a = b then 0 else 1)"
proof (induction a arbitrary: b)
  case Nil
  show ?case by (cases b) auto
next
  case (Cons x a)
  then show ?case by (cases b) auto
qed

lemma memcmp_0: "length x = length y \<Longrightarrow> memcmp x y = 0 \<longleftrightarrow> x = y"
  by (induction x y rule: memcmp.induct) auto

lemma starts_with_prefix: "starts_with s x \<longleftrightarrow> prefix x s"
proof -
  have "take (length x) s = x \<and> length x \<le> length s \<longleftrightarrow> prefix x s"
    by (metis append_eq_conv_conj append_take_drop_id length_take min.absorb2 nat_le_linear prefixE prefixI prefix_length_le)
  then show ?thesis
    using memcmp_0 [of "take (length x) s" x] by (auto simp: starts_with_def)
qed

text \<open>
  \<open>Slice::compare\<close> is the lexicographic order of unsigned bytes with a proper prefix first; the
  equality operator is equality of the contents, and \<open>starts_with\<close> is the prefix test.
\<close>

theorem Slice_order:
  "(Slice_compare a b < 0 \<longleftrightarrow> a < b) \<and> (Slice_compare a b = 0 \<longleftrightarrow> a = b) \<and>
   (Slice_compare a b > 0 \<longleftrightarrow> b < a) \<and> (Slice_eq a b \<longleftrightarrow> a = b) \<and> (starts_with a b \<longleftrightarrow> prefix b a)"
  by (auto simp: Slice_compare_order Slice_eq_def memcmp_0 starts_with_prefix)

section \<open>Status\<close>

datatype Code = kOk | kNotFound | kCorruption | kNotSupported | kInvalidArgument | kIOError

type_synonym status = "u8 list option"

fun code_byte :: "Code \<Rightarrow> u8" where
  "code_byte kOk = 0"
| "code_byte kNotFound = 1"
| "code_byte kCorruption = 2"
| "code_byte kNotSupported = 3"
| "code_byte kInvalidArgument = 4"
| "code_byte kIOError = 5"

definition Status_OK :: status where
  "Status_OK = None"

definition Status_size :: "slice \<Rightarrow> slice \<Rightarrow> u32" where
  "Status_size msg msg2 =
     (let len1 = of_nat (length msg) :: u32; len2 = of_nat (length msg2) :: u32
      in len1 + (if len2 \<noteq> 0 then 2 + len2 else 0))"

definition Status_new :: "Code \<Rightarrow> slice \<Rightarrow> slice \<Rightarrow> status" where
  "Status_new c msg msg2 =
     (let len1 = of_nat (length msg) :: u32; len2 = of_nat (length msg2) :: u32;
          size = Status_size msg msg2
      in Some (le_bytes 4 size @ [code_byte c] @ take (unat len1) msg @
           (if len2 \<noteq> 0 then str '': '' @ take (unat len2) msg2 else [])))"

definition NotFound :: "slice \<Rightarrow> slice \<Rightarrow> status" where
  "NotFound msg msg2 = Status_new kNotFound msg msg2"

definition Corruption :: "slice \<Rightarrow> slice \<Rightarrow> status" where
  "Corruption msg msg2 = Status_new kCorruption msg msg2"

definition NotSupported :: "slice \<Rightarrow> slice \<Rightarrow> status" where
  "NotSupported msg msg2 = Status_new kNotSupported msg msg2"

definition InvalidArgument :: "slice \<Rightarrow> slice \<Rightarrow> status" where
  "InvalidArgument msg msg2 = Status_new kInvalidArgument msg msg2"

definition IOError :: "slice \<Rightarrow> slice \<Rightarrow> status" where
  "IOError msg msg2 = Status_new kIOError msg msg2"

definition Status_ok :: "status \<Rightarrow> bool" where
  "Status_ok s \<longleftrightarrow> s = None"

definition Status_code :: "status \<Rightarrow> u8" where
  "Status_code s = (case s of None \<Rightarrow> 0 | Some state \<Rightarrow> state ! 4)"

definition IsNotFound :: "status \<Rightarrow> bool" where
  "IsNotFound s \<longleftrightarrow> Status_code s = code_byte kNotFound"

definition IsCorruption :: "status \<Rightarrow> bool" where
  "IsCorruption s \<longleftrightarrow> Status_code s = code_byte kCorruption"

definition IsIOError :: "status \<Rightarrow> bool" where
  "IsIOError s \<longleftrightarrow> Status_code s = code_byte kIOError"

definition CopyState :: "u8 list \<Rightarrow> u8 list" where
  "CopyState state = (let size = le_word (take 4 state) :: u32 in take (unat (size + 5)) state)"

text \<open>The decimal digits \<open>snprintf\<close> prints for an integer.\<close>

fun digits :: "nat \<Rightarrow> string" where
  "digits n = (if n < 10 then [char_of (48 + n)] else digits (n div 10) @ [char_of (48 + n mod 10)])"

declare digits.simps [simp del]

definition print_int :: "int \<Rightarrow> string" where
  "print_int i = (if i < 0 then ''-'' @ digits (nat (- i)) else digits (nat i))"

definition Status_kind :: "u8 \<Rightarrow> string" where
  "Status_kind c =
     (if c = 0 then ''OK'' else if c = 1 then ''NotFound: '' else if c = 2 then ''Corruption: ''
      else if c = 3 then ''Not implemented: '' else if c = 4 then ''Invalid argument: ''
      else if c = 5 then ''IO error: ''
      else ''Unknown code('' @ print_int (sint c) @ ''): '')"

definition Status_ToString :: "status \<Rightarrow> slice" where
  "Status_ToString s =
     (case s of
        None \<Rightarrow> str ''OK''
      | Some state \<Rightarrow>
          let length = le_word (take 4 state) :: u32
          in str (Status_kind (Status_code s)) @ take (unat length) (drop 5 state))"

lemma Status_new_layout:
  assumes "length msg + length msg2 + 7 < 2 ^ 32"
  shows "Status_new c msg msg2 = Some (le_bytes 4 (Status_size msg msg2) @ code_byte c #
      msg @ (if msg2 = [] then [] else str '': '' @ msg2))"
    and "unat (Status_size msg msg2) = length msg + (if msg2 = [] then 0 else 2 + length msg2)"
    and "unat (Status_size msg msg2 + 5) = unat (Status_size msg msg2) + 5"
proof -
  have cast: "unat (of_nat n :: u32) = n" if "n < 2 ^ 32" for n
    using that by (simp add: unat_of_nat take_bit_nat_eq_self)
  have zero: "(of_nat (length msg2) :: u32) = 0 \<longleftrightarrow> msg2 = []"
  proof
    assume "(of_nat (length msg2) :: u32) = 0"
    moreover have "length msg2 < 2 ^ 32" using assms by simp
    ultimately show "msg2 = []" using cast [of "length msg2"] by simp
  qed simp
  have size: "Status_size msg msg2 = of_nat (length msg + (if msg2 = [] then 0 else 2 + length msg2))"
    using zero by (auto simp: Status_size_def Let_def)
  show "unat (Status_size msg msg2) = length msg + (if msg2 = [] then 0 else 2 + length msg2)"
    unfolding size using assms by (intro cast) auto
  have "Status_size msg msg2 + 5 = of_nat (length msg + (if msg2 = [] then 0 else 2 + length msg2) + 5)"
    by (simp add: size)
  moreover have "unat \<dots> = length msg + (if msg2 = [] then 0 else 2 + length msg2) + 5"
    using assms by (intro cast) auto
  ultimately show "unat (Status_size msg msg2 + 5) = unat (Status_size msg msg2) + 5"
    unfolding size using assms by (subst cast) auto
  have "unat (of_nat (length msg) :: u32) = length msg" "unat (of_nat (length msg2) :: u32) = length msg2"
    using assms by (intro cast; simp)+
  then show "Status_new c msg msg2 = Some (le_bytes 4 (Status_size msg msg2) @ code_byte c #
      msg @ (if msg2 = [] then [] else str '': '' @ msg2))"
    using zero by (simp add: Status_new_def Let_def)
qed

text \<open>
  An error status keeps its code and its message: the constructor fills exactly the array it
  allocates, copying the state gives the same status, the code is read back, and \<open>ToString\<close> prints
  the kind, the message and, after a colon, the second message.  (The sizes are 32-bit numbers,
  hence the bound on the messages.)
\<close>

theorem Status_round_trip:
  assumes "c \<noteq> kOk" and "length msg + length msg2 + 7 < 2 ^ 32"
  shows "\<exists>state. Status_new c msg msg2 = Some state \<and> length state = unat (Status_size msg msg2 + 5) \<and>
      CopyState state = state \<and> \<not> Status_ok (Some state) \<and> Status_code (Some state) = code_byte c \<and>
      (IsNotFound (Some state) \<longleftrightarrow> c = kNotFound) \<and> (IsCorruption (Some state) \<longleftrightarrow> c = kCorruption) \<and>
      (IsIOError (Some state) \<longleftrightarrow> c = kIOError) \<and>
      Status_ToString (Some state) =
        str (Status_kind (code_byte c)) @ msg @ (if msg2 = [] then [] else str '': '' @ msg2)"
proof -
  note layout = Status_new_layout [OF assms(2)]
  let ?state = "le_bytes 4 (Status_size msg msg2) @ code_byte c # msg @ (if msg2 = [] then [] else str '': '' @ msg2)"
  have len: "length ?state = unat (Status_size msg msg2 + 5)"
    using layout(2,3) by (simp add: str_def)
  have code: "Status_code (Some ?state) = code_byte c" by (simp add: Status_code_def nth_append)
  have copy: "CopyState ?state = ?state"
    using len by (simp add: CopyState_def Let_def del: unat_plus_if')
  have print: "Status_ToString (Some ?state) =
      str (Status_kind (code_byte c)) @ msg @ (if msg2 = [] then [] else str '': '' @ msg2)"
    using layout(2) by (simp add: Status_ToString_def code Let_def str_def)
  show ?thesis
    using layout(1) len copy code print assms(1)
    by (intro exI [of _ ?state]) (cases c; auto simp: Status_ok_def IsNotFound_def IsCorruption_def IsIOError_def)
qed

theorem Status_round_trip_witness:
  "\<exists>state. Status_new kIOError [65, 66] [67] = Some state \<and> length state = unat (Status_size [65, 66] [67] + 5) \<and>
      CopyState state = state \<and> \<not> Status_ok (Some state) \<and> Status_code (Some state) = code_byte kIOError \<and>
      (IsNotFound (Some state) \<longleftrightarrow> kIOError = kNotFound) \<and> (IsCorruption (Some state) \<longleftrightarrow> kIOError = kCorruption) \<and>
      (IsIOError (Some state) \<longleftrightarrow> kIOError = kIOError) \<and>
      Status_ToString (Some state) =
        str (Status_kind (code_byte kIOError)) @ [65, 66] @ (if [67 :: u8] = [] then [] else str '': '' @ [67])"
  by (rule Status_round_trip) simp_all

section \<open>The comparator contract\<close>

text \<open>
  \<open>compare\<close> is a total preorder on the keys that satisfy \<open>valid\<close>; its sign is antisymmetric.
\<close>

locale comparator =
  fixes compare :: "'k \<Rightarrow> 'k \<Rightarrow> int"
    and valid :: "'k \<Rightarrow> bool"
  assumes flip: "valid a \<Longrightarrow> valid b \<Longrightarrow> sgn (compare b a) = - sgn (compare a b)"
    and le_trans: "valid a \<Longrightarrow> valid b \<Longrightarrow> valid c \<Longrightarrow> compare a b \<le> 0 \<Longrightarrow> compare b c \<le> 0 \<Longrightarrow> compare a c \<le> 0"
begin

lemma refl [simp]: "valid a \<Longrightarrow> compare a a = 0"
  using flip [of a a] by (simp add: sgn_if split: if_splits)

lemma gt_iff: "valid a \<Longrightarrow> valid b \<Longrightarrow> compare a b > 0 \<longleftrightarrow> compare b a < 0"
  using flip [of a b] by (auto simp: sgn_if split: if_splits)

lemma eq_sym: "valid a \<Longrightarrow> valid b \<Longrightarrow> compare a b = 0 \<longleftrightarrow> compare b a = 0"
  using flip [of a b] by (auto simp: sgn_if split: if_splits)

lemma not_less: "valid a \<Longrightarrow> valid b \<Longrightarrow> \<not> compare a b < 0 \<longleftrightarrow> compare b a \<le> 0"
  using flip [of a b] by (auto simp: sgn_if split: if_splits)

lemma less_le_trans:
  assumes "valid a" "valid b" "valid c" "compare a b < 0" "compare b c \<le> 0"
  shows "compare a c < 0"
proof (rule ccontr)
  assume "\<not> compare a c < 0"
  then have "compare c a \<le> 0" using assms by (simp add: not_less)
  then have "compare b a \<le> 0" using assms le_trans [of b c a] by blast
  then show False using assms not_less [of a b] by simp
qed

lemma le_less_trans:
  assumes "valid a" "valid b" "valid c" "compare a b \<le> 0" "compare b c < 0"
  shows "compare a c < 0"
proof (rule ccontr)
  assume "\<not> compare a c < 0"
  then have "compare c a \<le> 0" using assms by (simp add: not_less)
  then have "compare c b \<le> 0" using assms le_trans [of c a b] by blast
  then show False using assms not_less [of b c] by simp
qed

lemma less_trans:
  "valid a \<Longrightarrow> valid b \<Longrightarrow> valid c \<Longrightarrow> compare a b < 0 \<Longrightarrow> compare b c < 0 \<Longrightarrow> compare a c < 0"
  by (rule less_le_trans [of a b c]) auto

end

text \<open>
  The key-shortening operations.  \<open>separator_same\<close> is what \<open>InternalKeyComparator\<close> needs of the user
  comparator when both keys carry the same user key.
\<close>

locale key_comparator = comparator +
  fixes separator :: "'a \<Rightarrow> 'a \<Rightarrow> 'a"
    and successor :: "'a \<Rightarrow> 'a"
  assumes separator_bounds:
      "valid start \<Longrightarrow> valid limit \<Longrightarrow> compare start limit < 0 \<Longrightarrow>
        valid (separator start limit) \<and> compare start (separator start limit) \<le> 0 \<and>
        compare (separator start limit) limit < 0"
    and separator_same: "valid start \<Longrightarrow> valid limit \<Longrightarrow> compare start limit = 0 \<Longrightarrow> separator start limit = start"
    and successor_bounds: "valid key \<Longrightarrow> valid (successor key) \<and> compare key (successor key) \<le> 0"

section \<open>The bytewise comparator\<close>

definition BytewiseCompare :: "slice \<Rightarrow> slice \<Rightarrow> int" where
  "BytewiseCompare a b = Slice_compare a b"

fun diff_index :: "slice \<Rightarrow> slice \<Rightarrow> nat" where
  "diff_index (a # as) (b # bs) = (if a = b then diff_index as bs + 1 else 0)"
| "diff_index _ _ = 0"

definition BytewiseShortestSeparator :: "slice \<Rightarrow> slice \<Rightarrow> slice" where
  "BytewiseShortestSeparator start limit =
     (let min_length = min (length start) (length limit);
          d = diff_index start limit
      in if min_length \<le> d then start
         else
           let diff_byte = start ! d in
           if diff_byte < 0xFF \<and> unat diff_byte + 1 < unat (limit ! d)
           then take (d + 1) (start[d := diff_byte + 1]) else start)"

fun BytewiseShortSuccessor :: "slice \<Rightarrow> slice" where
  "BytewiseShortSuccessor [] = []"
| "BytewiseShortSuccessor (byte # key) = (if byte \<noteq> 0xFF then [byte + 1] else byte # BytewiseShortSuccessor key)"

lemma diff_index_split:
  assumes "diff_index s t < min (length s) (length t)"
  shows "\<exists>p a b s' t'. s = p @ a # s' \<and> t = p @ b # t' \<and> a \<noteq> b \<and> diff_index s t = length p"
  using assms
proof (induction s t rule: diff_index.induct)
  case (1 a as b bs)
  show ?case
  proof (cases "a = b")
    case True
    with 1 obtain p x y s' t' where "as = p @ x # s'" "bs = p @ y # t'" "x \<noteq> y" "diff_index as bs = length p"
      by auto
    with True show ?thesis by (intro exI [of _ "a # p"]) auto
  next
    case False
    then show ?thesis by (intro exI [of _ "[]"]) auto
  qed
qed simp_all

lemma append_less_append: "p @ s < p @ t \<longleftrightarrow> s < (t :: slice)"
  by (induction p) auto

lemma less_inc: "(a :: u8) \<noteq> 0xFF \<Longrightarrow> a < a + 1 \<and> unat (a + 1) = unat a + 1"
proof -
  assume "a \<noteq> 0xFF"
  then have "unat a \<noteq> 255" using word_unat_eq_iff [of a "0xFF"] by simp
  moreover have "unat a < 256" using unsigned_less [of a] by simp
  ultimately have "unat a + 1 < 256" by simp
  then have "unat (a + 1) = unat a + 1" by (simp add: unat_word_ariths)
  then show ?thesis by (simp add: word_less_nat_alt)
qed

lemma ShortestSeparator_cases:
  "BytewiseShortestSeparator s t = s \<or>
   (\<exists>p a b s' t'. s = p @ a # s' \<and> t = p @ b # t' \<and> a < a + 1 \<and> a + 1 < b \<and>
     BytewiseShortestSeparator s t = p @ [a + 1])"
proof (cases "diff_index s t < min (length s) (length t)")
  case False
  then have "BytewiseShortestSeparator s t = s" by (simp only: BytewiseShortestSeparator_def Let_def not_less if_True)
  then show ?thesis by blast
next
  case True
  then obtain p a b s' t' where split: "s = p @ a # s'" "t = p @ b # t'" "diff_index s t = length p"
    using diff_index_split by blast
  show ?thesis
  proof (cases "a < 0xFF \<and> unat a + 1 < unat b")
    case inc: True
    then have "a \<noteq> 0xFF" by auto
    from less_inc [OF this] inc have "a < a + 1" "a + 1 < b" by (simp_all add: word_less_nat_alt)
    moreover have "BytewiseShortestSeparator s t = p @ [a + 1]"
      using True inc split by (simp add: BytewiseShortestSeparator_def Let_def)
    ultimately show ?thesis using split(1,2) by blast
  next
    case False
    then have "BytewiseShortestSeparator s t = s" using True split by (simp add: BytewiseShortestSeparator_def Let_def)
    then show ?thesis by blast
  qed
qed

lemma ShortestSeparator_between:
  "s < t \<Longrightarrow> s \<le> BytewiseShortestSeparator s t \<and> BytewiseShortestSeparator s t < t"
  using ShortestSeparator_cases [of s t] by (auto simp: append_less_append less_imp_le)

lemma diff_index_same: "diff_index s s = length s"
  by (induction s) auto

lemma ShortestSeparator_same: "BytewiseShortestSeparator s s = s"
  by (simp add: BytewiseShortestSeparator_def diff_index_same)

lemma ShortSuccessor_ge: "key \<le> BytewiseShortSuccessor key"
  by (induction key rule: BytewiseShortSuccessor.induct) (auto simp: less_inc)

lemma ShortSuccessor_length: "length (BytewiseShortSuccessor key) \<le> length key"
  by (induction key rule: BytewiseShortSuccessor.induct) auto

interpretation bytewise: key_comparator BytewiseCompare "\<lambda>_. True" BytewiseShortestSeparator BytewiseShortSuccessor
  by unfold_locales
     (auto simp: BytewiseCompare_def Slice_compare_order ShortestSeparator_same not_le not_less less_le [of _ "BytewiseShortSuccessor _"]
       split: if_splits dest: ShortestSeparator_between intro: ShortSuccessor_ge)

text \<open>
  \<open>FindShortestSeparator\<close> of the bytewise comparator turns \<open>start\<close>, below \<open>limit\<close>, into a string that is
  no longer, not below the old \<open>start\<close> and still below \<open>limit\<close>; \<open>FindShortSuccessor\<close> gives a string that
  is no longer and not below the key.
\<close>

theorem bytewise_separators:
  assumes "BytewiseCompare start limit < 0"
  shows "BytewiseCompare start (BytewiseShortestSeparator start limit) \<le> 0 \<and>
    BytewiseCompare (BytewiseShortestSeparator start limit) limit < 0 \<and>
    length (BytewiseShortestSeparator start limit) \<le> length start \<and>
    BytewiseCompare key (BytewiseShortSuccessor key) \<le> 0 \<and> length (BytewiseShortSuccessor key) \<le> length key"
  using bytewise.separator_bounds [OF TrueI TrueI assms] bytewise.successor_bounds [OF TrueI, of key]
    ShortestSeparator_cases [of start limit] ShortSuccessor_length [of key]
  by auto

theorem bytewise_separators_witness:
  "BytewiseCompare [1, 2, 3] (BytewiseShortestSeparator [1, 2, 3] [1, 9]) \<le> 0 \<and>
    BytewiseCompare (BytewiseShortestSeparator [1, 2, 3] [1, 9]) [1, 9] < 0 \<and>
    length (BytewiseShortestSeparator [1, 2, 3] [1, 9]) \<le> length [1 :: u8, 2, 3] \<and>
    BytewiseCompare [0xFF, 5, 6] (BytewiseShortSuccessor [0xFF, 5, 6]) \<le> 0 \<and>
    length (BytewiseShortSuccessor [0xFF, 5, 6]) \<le> length [0xFF :: u8, 5, 6]"
  by (rule bytewise_separators) (simp add: BytewiseCompare_def)

end
