(* ===== verification/LdbBloom.thy ===== *)
theory LdbBloom
  imports LdbBase
begin

text \<open>
  The hash function (\<open>util/hash.cc\<close>), the Bloom filter policy (\<open>util/bloom.cc\<close>) and the contract of a
  filter policy (\<open>include/leveldb/filter_policy.h\<close>): a filter made from a set of keys matches each of
  them.

  \<open>bits_per_key\<close> times 0.69 is computed by the source in floating point and rounded down; the number
  of probes \<open>k\<close> is therefore a field of the policy, and the theorems hold for every value the
  constructor can give it (1 to 30).
\<close>

unbundle bit_operations_syntax

section \<open>The hash function\<close>

function Hash_words :: "u32 \<Rightarrow> slice \<Rightarrow> u32 \<times> slice" where
  "Hash_words h ps =
     (if 4 \<le> length ps then
        let w = le_word (take 4 ps) :: u32;
            h = (h + w) * 0xC6A4A793;
            h = h XOR drop_bit 16 h
        in Hash_words h (drop 4 ps)
      else (h, ps))"
  by pat_completeness auto
termination
  by (relation "measure (\<lambda>(h, ps). length ps)") auto

declare Hash_words.simps [simp del]

definition Hash_tail :: "u32 \<Rightarrow> slice \<Rightarrow> u32" where
  "Hash_tail h ps =
     (let h = (if length ps = 3 then h + push_bit 16 (ucast (ps ! 2)) else h);
          h = (if length ps = 3 \<or> length ps = 2 then h + push_bit 8 (ucast (ps ! 1)) else h)
      in if length ps = 3 \<or> length ps = 2 \<or> length ps = 1 then
           let h = (h + ucast (ps ! 0)) * 0xC6A4A793 in h XOR drop_bit 24 h
         else h)"

definition Hash :: "slice \<Rightarrow> u32 \<Rightarrow> u32" where
  "Hash data seed =
     (let h = seed XOR (of_nat (length data) * 0xC6A4A793); (h, ps) = Hash_words h data in Hash_tail h ps)"

section \<open>The Bloom filter policy\<close>

record BloomFilterPolicy =
  bits_per_key :: u64
  k_probes :: nat

text \<open>The constructor, given the product rounded down.\<close>

definition BloomFilterPolicy_new :: "u64 \<Rightarrow> nat \<Rightarrow> BloomFilterPolicy" where
  "BloomFilterPolicy_new bpk k =
     (let k = (if k < 1 then 1 else k); k = (if 30 < k then 30 else k) in \<lparr>bits_per_key = bpk, k_probes = k\<rparr>)"

definition BloomHash :: "slice \<Rightarrow> u32" where
  "BloomHash key = Hash key 0xBC9F1D34"

text \<open>The number of bytes of the bit array for \<open>n\<close> keys; all arithmetic is 64-bit.\<close>

definition filter_bytes :: "BloomFilterPolicy \<Rightarrow> nat \<Rightarrow> u64" where
  "filter_bytes pol n =
     (let bits = of_nat n * bits_per_key pol; bits = (if bits < 64 then 64 else bits) in (bits + 7) div 8)"

text \<open>\<open>h % bits\<close> is computed in 64 bits and stored in 32.\<close>

definition bitpos :: "u32 \<Rightarrow> u64 \<Rightarrow> u32" where
  "bitpos h bits = ucast ((ucast h :: u64) mod bits)"

definition set_bit_at :: "u32 \<Rightarrow> slice \<Rightarrow> slice" where
  "set_bit_at p array =
     (let i = unat (p div 8) in array[i := array ! i OR push_bit (unat (p mod 8)) 1])"

definition test_bit_at :: "u32 \<Rightarrow> slice \<Rightarrow> bool" where
  "test_bit_at p array \<longleftrightarrow> array ! unat (p div 8) AND push_bit (unat (p mod 8)) 1 \<noteq> 0"

fun add_probes :: "nat \<Rightarrow> u64 \<Rightarrow> u32 \<Rightarrow> u32 \<Rightarrow> slice \<Rightarrow> slice" where
  "add_probes 0 bits delta h array = array"
| "add_probes (Suc j) bits delta h array =
     add_probes j bits delta (h + delta) (set_bit_at (bitpos h bits) array)"

definition add_key :: "nat \<Rightarrow> u64 \<Rightarrow> slice \<Rightarrow> slice \<Rightarrow> slice" where
  "add_key k bits key array =
     (let h = BloomHash key; delta = drop_bit 17 h OR push_bit 15 h in add_probes k bits delta h array)"

definition CreateFilter :: "BloomFilterPolicy \<Rightarrow> slice list \<Rightarrow> slice \<Rightarrow> slice" where
  "CreateFilter pol keys dst =
     (let bytes = filter_bytes pol (length keys); bits = bytes * 8;
          array = replicate (unat bytes) 0 @ [of_nat (k_probes pol)]
      in dst @ fold (add_key (k_probes pol) bits) keys array)"

fun check_probes :: "nat \<Rightarrow> u64 \<Rightarrow> u32 \<Rightarrow> u32 \<Rightarrow> slice \<Rightarrow> bool" where
  "check_probes 0 bits delta h array \<longleftrightarrow> True"
| "check_probes (Suc j) bits delta h array \<longleftrightarrow>
     (if \<not> test_bit_at (bitpos h bits) array then False
      else check_probes j bits delta (h + delta) array)"

definition KeyMayMatch :: "slice \<Rightarrow> slice \<Rightarrow> bool" where
  "KeyMayMatch key bloom_filter \<longleftrightarrow>
     (let len = length bloom_filter in
      if len < 2 then False
      else
        let bits = (of_nat len - 1) * 8 :: u64;
            k = scast (bloom_filter ! (len - 1)) :: u64
        in if 30 < k then True
           else
             let h = BloomHash key; delta = drop_bit 17 h OR push_bit 15 h
             in check_probes (unat k) bits delta h bloom_filter)"

section \<open>No false negatives\<close>

lemma test_bit_at_bit: "test_bit_at p array \<longleftrightarrow> bit (array ! unat (p div 8)) (unat (p mod 8))"
  by (simp add: test_bit_at_def push_bit_of_1 and_exp_eq_0_iff_not_bit)

text \<open>Nothing is cleared and the byte at \<open>n\<close>, the number of probes, is not touched.\<close>

definition grows :: "nat \<Rightarrow> slice \<Rightarrow> slice \<Rightarrow> bool" where
  "grows n a b \<longleftrightarrow> length b = length a \<and> b ! n = a ! n \<and> (\<forall>p. test_bit_at p a \<longrightarrow> test_bit_at p b)"

lemma grows_refl [simp]: "grows n a a"
  by (simp add: grows_def)

lemma grows_trans [trans]: "grows n a b \<Longrightarrow> grows n b c \<Longrightarrow> grows n a c"
  by (simp add: grows_def)

lemma grows_set_bit_at: "unat (p div 8) \<noteq> n \<Longrightarrow> grows n a (set_bit_at p a)"
proof -
  assume "unat (p div 8) \<noteq> n"
  moreover have "test_bit_at q a \<longrightarrow> test_bit_at q (set_bit_at p a)" for q
    by (cases "unat (p div 8) < length a"; cases "unat (q div 8) = unat (p div 8)")
       (auto simp: test_bit_at_bit set_bit_at_def Let_def bit_or_iff not_less list_update_beyond)
  ultimately show ?thesis by (simp add: grows_def set_bit_at_def Let_def)
qed

lemma test_set_bit_at: "unat (p div 8) < length a \<Longrightarrow> test_bit_at p (set_bit_at p a)"
proof -
  assume "unat (p div 8) < length a"
  moreover have "unat (p mod 8) < 8" by (simp add: unat_mod)
  ultimately show ?thesis by (simp add: test_bit_at_bit set_bit_at_def Let_def bit_simps)
qed

lemma bitpos_bound:
  assumes "0 < n" "n < 2 ^ 61"
  shows "unat (bitpos h (of_nat n * 8) div 8) < n"
proof -
  have bits: "unat (of_nat n * 8 :: u64) = n * 8"
    using assms(2) by (simp add: unat_word_ariths unat_of_nat take_bit_nat_eq_self)
  have "unat h mod (n * 8) < 2 ^ 32" using unat_u32 [of h] by (meson le_less_trans mod_less_eq_dividend)
  then have "unat (bitpos h (of_nat n * 8)) = unat h mod (n * 8)"
    using bits by (simp add: bitpos_def unsigned_ucast_eq unat_mod take_bit_nat_eq_self)
  moreover have "unat h mod (n * 8) < n * 8" using assms(1) by (intro mod_less_divisor) simp
  ultimately show ?thesis by (simp add: unat_div less_mult_imp_div_less)
qed

lemma add_probes_grows:
  assumes "0 < n" "n < 2 ^ 61"
  shows "grows n a (add_probes k (of_nat n * 8) delta h a)"
proof (induction k arbitrary: h a)
  case (Suc k)
  have "grows n a (set_bit_at (bitpos h (of_nat n * 8)) a)"
    using bitpos_bound [OF assms, of h] by (intro grows_set_bit_at) simp
  also have "grows n \<dots> (add_probes (Suc k) (of_nat n * 8) delta h a)" using Suc by simp
  finally show ?case .
qed simp

lemma add_probes_check:
  assumes n: "0 < n" "n < 2 ^ 61" and "length a = n + 1"
    and "grows n (add_probes k (of_nat n * 8) delta h a) b"
  shows "check_probes k (of_nat n * 8) delta h b"
  using assms(3,4)
proof (induction k arbitrary: h a)
  case (Suc k)
  let ?p = "bitpos h (of_nat n * 8)" and ?a = "set_bit_at (bitpos h (of_nat n * 8)) a"
  have "test_bit_at ?p ?a"
    using bitpos_bound [OF n, of h] Suc.prems(1) by (intro test_set_bit_at) simp
  moreover have "grows n ?a b"
    using Suc.prems(2) add_probes_grows [OF n, of ?a k delta "h + delta"] by (auto intro: grows_trans)
  ultimately have "test_bit_at ?p b" by (simp add: grows_def)
  moreover have "length ?a = n + 1" using Suc.prems(1) by (simp add: set_bit_at_def Let_def)
  ultimately show ?case using Suc by simp
qed simp

lemma add_keys_grows:
  assumes "0 < n" "n < 2 ^ 61"
  shows "grows n a (fold (add_key k (of_nat n * 8)) keys a)"
proof (induction keys arbitrary: a)
  case (Cons x keys)
  have "grows n a (add_key k (of_nat n * 8) x a)"
    using add_probes_grows [OF assms] by (simp add: add_key_def Let_def)
  also have "grows n \<dots> (fold (add_key k (of_nat n * 8)) (x # keys) a)" using Cons by simp
  finally show ?case .
qed simp

lemma add_keys_check:
  assumes n: "0 < n" "n < 2 ^ 61" and "length a = n + 1" and "key \<in> set keys"
  shows "check_probes k (of_nat n * 8) (drop_bit 17 (BloomHash key) OR push_bit 15 (BloomHash key))
      (BloomHash key) (fold (add_key k (of_nat n * 8)) keys a)"
  using assms(3,4)
proof (induction keys arbitrary: a)
  case (Cons x keys)
  let ?a = "add_key k (of_nat n * 8) x a"
  have len: "length ?a = n + 1"
    using add_keys_grows [OF n, of a k "[x]"] Cons.prems(1) by (simp add: grows_def)
  show ?case
  proof (cases "key \<in> set keys")
    case True
    then show ?thesis using Cons.IH [OF len] by simp
  next
    case False
    with Cons.prems(2) have "x = key" by simp
    moreover have "grows n ?a (fold (add_key k (of_nat n * 8)) (x # keys) a)"
      using add_keys_grows [OF n, of ?a k keys] by simp
    ultimately show ?thesis
      by (intro add_probes_check [OF n Cons.prems(1)]) (simp only: add_key_def [of k _ key a] Let_def)
  qed
qed simp

lemma filter_bytes_bound:
  assumes "n * unat (bits_per_key pol) + 7 < 2 ^ 64"
  shows "\<exists>m. filter_bytes pol n = of_nat m \<and> 8 \<le> m \<and> m < 2 ^ 61"
proof -
  define B where "B = (if n * unat (bits_per_key pol) < 64 then 64 else n * unat (bits_per_key pol))"
  have B: "64 \<le> B" "B + 7 < 2 ^ 64" using assms by (auto simp: B_def)
  have bits: "(of_nat n * bits_per_key pol :: u64) = of_nat (n * unat (bits_per_key pol))" by simp
  have small: "unat (of_nat m :: u64) = m" if "m < 2 ^ 64" for m
    using that by (simp add: unat_of_nat take_bit_nat_eq_self)
  have "(if of_nat n * bits_per_key pol < 64 then 64 else of_nat n * bits_per_key pol) = (of_nat B :: u64)"
    unfolding bits using small [of "n * unat (bits_per_key pol)"] assms
    by (auto simp: B_def word_less_nat_alt)
  then have eq: "filter_bytes pol n = of_nat (B + 7) div 8" by (simp add: filter_bytes_def Let_def)
  have "unat (filter_bytes pol n) = (B + 7) div 8"
    using small [OF B(2)] by (simp only: eq unat_div) simp
  moreover have "filter_bytes pol n = of_nat (unat (filter_bytes pol n))" by simp
  ultimately have "filter_bytes pol n = of_nat ((B + 7) div 8)" by (simp only:)
  moreover have "8 \<le> (B + 7) div 8" "(B + 7) div 8 < 2 ^ 61" using B by auto
  ultimately show ?thesis by blast
qed

text \<open>The contract of a filter policy.\<close>

locale filter_policy =
  fixes create :: "slice list \<Rightarrow> slice \<Rightarrow> slice"
    and may_match :: "slice \<Rightarrow> slice \<Rightarrow> bool"
    and admissible :: "slice list \<Rightarrow> bool"
  assumes create_append: "create keys dst = dst @ create keys []"
    and no_false_negative: "admissible keys \<Longrightarrow> key \<in> set keys \<Longrightarrow> may_match key (create keys [])"

definition BloomFilterPolicy_ok :: "BloomFilterPolicy \<Rightarrow> bool" where
  "BloomFilterPolicy_ok pol \<longleftrightarrow> 1 \<le> k_probes pol \<and> k_probes pol \<le> 30"

lemma BloomFilterPolicy_new_ok: "BloomFilterPolicy_ok (BloomFilterPolicy_new bpk k)"
  by (auto simp: BloomFilterPolicy_ok_def BloomFilterPolicy_new_def Let_def)

lemma probes_byte: "k \<le> 30 \<Longrightarrow> (scast (of_nat k :: u8) :: u64) = of_nat k"
proof -
  assume "k \<le> 30"
  then have "sint (of_nat k :: u8) = int k"
    by (simp add: signed_of_nat signed_take_bit_int_eq_self)
  then show ?thesis by (simp add: scast_eq)
qed

lemma CreateFilter_layout:
  assumes "length keys * unat (bits_per_key pol) + 7 < 2 ^ 64"
  obtains m where "filter_bytes pol (length keys) = of_nat m" "8 \<le> m" "m < 2 ^ 61"
    "length (CreateFilter pol keys []) = m + 1"
    "CreateFilter pol keys [] ! m = of_nat (k_probes pol)"
    "CreateFilter pol keys [] =
       fold (add_key (k_probes pol) (of_nat m * 8)) keys (replicate m 0 @ [of_nat (k_probes pol)])"
proof -
  obtain m where m: "filter_bytes pol (length keys) = of_nat m" "8 \<le> m" "m < 2 ^ 61"
    using filter_bytes_bound [OF assms] by blast
  have "unat (of_nat m :: u64) = m" using m(3) by (simp add: unat_of_nat take_bit_nat_eq_self)
  then have eq: "CreateFilter pol keys [] =
       fold (add_key (k_probes pol) (of_nat m * 8)) keys (replicate m 0 @ [of_nat (k_probes pol)])"
    by (simp add: CreateFilter_def m(1))
  have "grows m (replicate m 0 @ [of_nat (k_probes pol)]) (CreateFilter pol keys [])"
    unfolding eq using m by (intro add_keys_grows) auto
  then show ?thesis using that [OF m] eq by (simp add: grows_def nth_append)
qed

lemma KeyMayMatch_CreateFilter:
  assumes "BloomFilterPolicy_ok pol" "length keys * unat (bits_per_key pol) + 7 < 2 ^ 64" "key \<in> set keys"
  shows "KeyMayMatch key (CreateFilter pol keys [])"
proof -
  obtain m where m: "8 \<le> m" "m < 2 ^ 61" "length (CreateFilter pol keys []) = m + 1"
      "CreateFilter pol keys [] ! m = of_nat (k_probes pol)"
    and eq: "CreateFilter pol keys [] =
       fold (add_key (k_probes pol) (of_nat m * 8)) keys (replicate m 0 @ [of_nat (k_probes pol)])"
    using CreateFilter_layout [OF assms(2)] by metis
  have k: "k_probes pol \<le> 30" using assms(1) by (simp add: BloomFilterPolicy_ok_def)
  then have probes: "(scast (CreateFilter pol keys [] ! m) :: u64) = of_nat (k_probes pol)"
    "unat (of_nat (k_probes pol) :: u64) = k_probes pol"
    using m(4) by (simp_all add: probes_byte unat_of_nat take_bit_nat_eq_self)
  have "check_probes (k_probes pol) (of_nat m * 8)
      (drop_bit 17 (BloomHash key) OR push_bit 15 (BloomHash key)) (BloomHash key) (CreateFilter pol keys [])"
    unfolding eq using m assms(3) by (intro add_keys_check) auto
  then show ?thesis using m(1,3) probes by (simp add: KeyMayMatch_def Let_def)
qed

interpretation bloom: filter_policy "CreateFilter (BloomFilterPolicy_new bpk k)" KeyMayMatch
    "\<lambda>keys. length keys * unat bpk + 7 < 2 ^ 64" for bpk k
proof (unfold_locales, goal_cases)
  case (1 keys dst)
  show ?case by (simp add: CreateFilter_def Let_def)
next
  case (2 keys key)
  moreover have "bits_per_key (BloomFilterPolicy_new bpk k) = bpk"
    by (simp add: BloomFilterPolicy_new_def Let_def)
  ultimately show ?case by (intro KeyMayMatch_CreateFilter BloomFilterPolicy_new_ok) simp_all
qed

text \<open>
  A Bloom filter has no false negatives: whatever the number of bits per key, the number of
  probes and the filters before it, every key it was created from matches the part of the
  string that \<open>CreateFilter\<close> appended.
\<close>

theorem bloom_no_false_negative:
  assumes "length keys * unat bpk + 7 < 2 ^ 64" "key \<in> set keys"
  shows "\<exists>filter. CreateFilter (BloomFilterPolicy_new bpk k) keys dst = dst @ filter \<and> KeyMayMatch key filter"
  using bloom.create_append [of bpk k keys dst] bloom.no_false_negative [OF assms, of k] by blast

theorem bloom_no_false_negative_witness:
  "\<exists>filter. CreateFilter (BloomFilterPolicy_new 10 6) [[1, 2], [3]] [9] = [9] @ filter \<and> KeyMayMatch [3] filter"
  by (rule bloom_no_false_negative) simp_all

end
