(* ===== verification/LdbKeys.thy ===== *)
theory LdbKeys
  imports LdbBloom
begin

unbundle bit_operations_syntax

text \<open>
  Internal keys (\<open>db/dbformat.h\<close>, \<open>db/dbformat.cc\<close>): a user key followed by eight bytes that pack a
  sequence number and a value type.  The internal comparator and the internal filter policy
  wrap those of the user; both are shown to satisfy the same contract again.

  The preconditions the source states as assertions (a key of at least eight bytes, a sequence
  number below 2 to the 56) are hypotheses of the theorems; the assertions inside the
  comparator are proved.
\<close>

section \<open>Encoding\<close>

definition kTypeDeletion :: u8 where
  "kTypeDeletion = 0"

definition kTypeValue :: u8 where
  "kTypeValue = 1"

definition kValueTypeForSeek :: u8 where
  "kValueTypeForSeek = kTypeValue"

definition kMaxSequenceNumber :: u64 where
  "kMaxSequenceNumber = push_bit 56 1 - 1"

record ParsedInternalKey =
  pk_user_key :: slice
  pk_sequence :: u64
  pk_type :: u8

definition InternalKeyEncodingLength :: "ParsedInternalKey \<Rightarrow> nat" where
  "InternalKeyEncodingLength key = length (pk_user_key key) + 8"

definition PackSequenceAndType :: "u64 \<Rightarrow> u8 \<Rightarrow> u64" where
  "PackSequenceAndType seq t = push_bit 8 seq OR ucast t"

definition AppendInternalKey :: "slice \<Rightarrow> ParsedInternalKey \<Rightarrow> slice" where
  "AppendInternalKey result key =
     PutFixed64 (PackSequenceAndType (pk_sequence key) (pk_type key)) (result @ pk_user_key key)"

definition ExtractUserKey :: "slice \<Rightarrow> slice" where
  "ExtractUserKey internal_key = take (length internal_key - 8) internal_key"

text \<open>The packed number in the last eight bytes.\<close>

definition key_num :: "slice \<Rightarrow> u64" where
  "key_num internal_key = the (DecodeFixed64 (drop (length internal_key - 8) internal_key))"

definition ExtractValueType :: "slice \<Rightarrow> u8" where
  "ExtractValueType internal_key = ucast (key_num internal_key AND 0xFF)"

definition ParseInternalKey :: "slice \<Rightarrow> ParsedInternalKey option" where
  "ParseInternalKey internal_key =
     (let n = length internal_key in
      if n < 8 then None
      else
        let num = key_num internal_key; c = ucast (num AND 0xFF) :: u8
        in if c \<le> kTypeValue
           then Some \<lparr>pk_user_key = take (n - 8) internal_key, pk_sequence = drop_bit 8 num, pk_type = c\<rparr>
           else None)"

section \<open>The comparator and the filter policy\<close>

definition InternalKeyCompare :: "(slice \<Rightarrow> slice \<Rightarrow> int) \<Rightarrow> slice \<Rightarrow> slice \<Rightarrow> int" where
  "InternalKeyCompare ucmp akey bkey =
     (let r = ucmp (ExtractUserKey akey) (ExtractUserKey bkey) in
      if r = 0 then
        let anum = key_num akey; bnum = key_num bkey
        in if anum > bnum then -1 else if anum < bnum then 1 else r
      else r)"

definition InternalShortestSeparator ::
    "(slice \<Rightarrow> slice \<Rightarrow> int) \<Rightarrow> (slice \<Rightarrow> slice \<Rightarrow> slice) \<Rightarrow> slice \<Rightarrow> slice \<Rightarrow> slice" where
  "InternalShortestSeparator ucmp usep start limit =
     (let user_start = ExtractUserKey start; user_limit = ExtractUserKey limit;
          tmp = usep user_start user_limit
      in if length tmp < length user_start \<and> ucmp user_start tmp < 0
         then PutFixed64 (PackSequenceAndType kMaxSequenceNumber kValueTypeForSeek) tmp
         else start)"

definition InternalShortSuccessor ::
    "(slice \<Rightarrow> slice \<Rightarrow> int) \<Rightarrow> (slice \<Rightarrow> slice) \<Rightarrow> slice \<Rightarrow> slice" where
  "InternalShortSuccessor ucmp usucc key =
     (let user_key = ExtractUserKey key; tmp = usucc user_key
      in if length tmp < length user_key \<and> ucmp user_key tmp < 0
         then PutFixed64 (PackSequenceAndType kMaxSequenceNumber kValueTypeForSeek) tmp
         else key)"

definition InternalCreateFilter :: "(slice list \<Rightarrow> slice \<Rightarrow> slice) \<Rightarrow> slice list \<Rightarrow> slice \<Rightarrow> slice" where
  "InternalCreateFilter ucreate keys dst = ucreate (map ExtractUserKey keys) dst"

definition InternalKeyMayMatch :: "(slice \<Rightarrow> slice \<Rightarrow> bool) \<Rightarrow> slice \<Rightarrow> slice \<Rightarrow> bool" where
  "InternalKeyMayMatch umatch key f \<longleftrightarrow> umatch (ExtractUserKey key) f"

section \<open>Internal keys and lookup keys\<close>

type_synonym InternalKey = slice

definition InternalKey_new :: "slice \<Rightarrow> u64 \<Rightarrow> u8 \<Rightarrow> InternalKey" where
  "InternalKey_new user_key s t = AppendInternalKey [] \<lparr>pk_user_key = user_key, pk_sequence = s, pk_type = t\<rparr>"

definition InternalKey_DecodeFrom :: "slice \<Rightarrow> InternalKey" where
  "InternalKey_DecodeFrom s = s"

definition InternalKey_Encode :: "InternalKey \<Rightarrow> slice option" where
  "InternalKey_Encode rep = (if rep = [] then None else Some rep)"

definition InternalKey_user_key :: "InternalKey \<Rightarrow> slice" where
  "InternalKey_user_key rep = ExtractUserKey rep"

definition InternalKey_SetFrom :: "ParsedInternalKey \<Rightarrow> InternalKey" where
  "InternalKey_SetFrom p = AppendInternalKey [] p"

text \<open>The array of a \<open>LookupKey\<close> from \<open>start_\<close> to \<open>end_\<close>, and the offset of \<open>kstart_\<close>.\<close>

record LookupKey =
  lk_bytes :: slice
  lk_kstart :: nat

definition LookupKey_new :: "slice \<Rightarrow> u64 \<Rightarrow> LookupKey" where
  "LookupKey_new user_key s =
     (let usize = length user_key;
          dst = EncodeVarint32 (of_nat (usize + 8))
      in \<lparr>lk_bytes = dst @ user_key @ EncodeFixed64 (PackSequenceAndType s kValueTypeForSeek),
          lk_kstart = length dst\<rparr>)"

definition memtable_key :: "LookupKey \<Rightarrow> slice" where
  "memtable_key k = lk_bytes k"

definition internal_key :: "LookupKey \<Rightarrow> slice" where
  "internal_key k = drop (lk_kstart k) (lk_bytes k)"

definition lookup_user_key :: "LookupKey \<Rightarrow> slice" where
  "lookup_user_key k = take (length (lk_bytes k) - lk_kstart k - 8) (drop (lk_kstart k) (lk_bytes k))"

section \<open>Packing and parsing\<close>

lemma key_num_put [simp]: "key_num (PutFixed64 w k) = w"
  by (simp add: key_num_def PutFixed64_def EncodeFixed64_def)

lemma user_key_put [simp]: "ExtractUserKey (PutFixed64 w k) = k" "length (PutFixed64 w k) = length k + 8"
  "take (length k) (PutFixed64 w k) = k"
  by (simp_all add: ExtractUserKey_def PutFixed64_def EncodeFixed64_def)

lemma key_split: "8 \<le> length k \<Longrightarrow> k = PutFixed64 (key_num k) (ExtractUserKey k)"
proof -
  assume "8 \<le> length k"
  then have "length (drop (length k - 8) k) = 8" by simp
  moreover from this have "le_bytes 8 (le_word (drop (length k - 8) k) :: u64) = drop (length k - 8) k"
    using le_bytes_le_word [of "drop (length k - 8) k", where 'a = 64] by simp
  ultimately show ?thesis
    by (simp add: key_num_def PutFixed64_def EncodeFixed64_def ExtractUserKey_def)
qed

lemma unat_seq_le_max: "seq \<le> kMaxSequenceNumber \<longleftrightarrow> unat seq < 2 ^ 56"
  by (simp add: kMaxSequenceNumber_def word_le_nat_alt push_bit_of_1) linarith

lemma unpack:
  assumes "seq \<le> kMaxSequenceNumber"
  shows "drop_bit 8 (PackSequenceAndType seq t) = seq" "ucast (PackSequenceAndType seq t AND 0xFF) = t"
    "unat (PackSequenceAndType seq t) = unat seq * 256 + unat t"
proof -
  let ?p = "PackSequenceAndType seq t"
  have low: "(w :: u64) AND 0xFF = take_bit 8 w" for w by (simp add: take_bit_eq_mask mask_eq_exp_minus_1)
  show seq: "drop_bit 8 ?p = seq"
  proof (rule bit_word_eqI)
    fix n assume "n < LENGTH(64)"
    moreover have "bit seq n \<Longrightarrow> n < 56"
      using bit_high_zero [of seq 56 n] assms by (cases "n < 56") (auto simp: unat_seq_le_max)
    ultimately show "bit (drop_bit 8 ?p) n = bit seq n"
      using bit_u8 [of t "8 + n"] by (auto simp: PackSequenceAndType_def bit_simps)
  qed
  show t: "ucast (?p AND 0xFF) = t"
    unfolding low by (rule bit_word_eqI) (auto simp: PackSequenceAndType_def bit_simps dest: bit_u8)
  have "unat ?p mod 256 = unat (ucast (?p AND 0xFF) :: u8)"
    unfolding low by (simp add: unsigned_ucast_eq unsigned_take_bit_eq take_bit_eq_mod unat_mod)
  then have "unat ?p mod 256 = unat t" using t by simp
  moreover have "unat ?p div 256 = unat seq"
    using arg_cong [OF seq, of unat] by (simp add: unat_drop_bit_div)
  ultimately show "unat ?p = unat seq * 256 + unat t"
    using div_mult_mod_eq [of "unat ?p" 256] by simp
qed

lemma repack: "PackSequenceAndType (drop_bit 8 num) (ucast (num AND 0xFF)) = num"
proof -
  have "num AND 0xFF = take_bit 8 num" by (simp add: take_bit_eq_mask mask_eq_exp_minus_1)
  moreover have "bit num n \<Longrightarrow> n < 64" for n using bit_imp_le_length [of num n] by simp
  ultimately show ?thesis
    by (auto simp: PackSequenceAndType_def bit_simps intro!: bit_word_eqI)
qed

lemma ParseInternalKey_put:
  "ParseInternalKey (PutFixed64 w u) =
     (if (ucast (w AND 0xFF) :: u8) \<le> kTypeValue
      then Some \<lparr>pk_user_key = u, pk_sequence = drop_bit 8 w, pk_type = ucast (w AND 0xFF)\<rparr> else None)"
  unfolding ParseInternalKey_def Let_def ExtractUserKey_def [symmetric] key_num_put user_key_put by simp

lemma ParseInternalKey_sound: "ParseInternalKey bs = Some p \<Longrightarrow> AppendInternalKey [] p = bs"
  using key_split [of bs]
  by (auto simp: ParseInternalKey_def AppendInternalKey_def Let_def repack ExtractUserKey_def not_less split: if_splits)

text \<open>
  A parsed internal key survives encoding: \<open>ParseInternalKey\<close> returns exactly what
  \<open>AppendInternalKey\<close> wrote, the encoding has the announced length, and whatever
  \<open>ParseInternalKey\<close> accepts is the encoding of its result.
\<close>

theorem internal_key_round_trip:
  assumes "pk_sequence k \<le> kMaxSequenceNumber" "pk_type k \<le> kTypeValue"
  shows "ParseInternalKey (AppendInternalKey [] k) = Some k \<and>
    length (AppendInternalKey [] k) = InternalKeyEncodingLength k \<and>
    ExtractUserKey (AppendInternalKey [] k) = pk_user_key k \<and>
    ExtractValueType (AppendInternalKey [] k) = pk_type k \<and>
    (\<forall>bs p. ParseInternalKey bs = Some p \<longrightarrow> AppendInternalKey [] p = bs)"
  using ParseInternalKey_sound unpack [OF assms(1), of "pk_type k"] assms(2)
  by (simp add: AppendInternalKey_def InternalKeyEncodingLength_def ExtractValueType_def ParseInternalKey_put)

theorem internal_key_round_trip_witness:
  "ParseInternalKey (AppendInternalKey [] \<lparr>pk_user_key = [5, 6], pk_sequence = 300, pk_type = 1\<rparr>) =
      Some \<lparr>pk_user_key = [5, 6], pk_sequence = 300, pk_type = 1\<rparr> \<and>
    ExtractValueType (AppendInternalKey [] \<lparr>pk_user_key = [5, 6], pk_sequence = 300, pk_type = 1\<rparr>) = 1"
  using internal_key_round_trip [of "\<lparr>pk_user_key = [5, 6], pk_sequence = 300, pk_type = 1\<rparr>"]
  by (simp add: kMaxSequenceNumber_def kTypeValue_def push_bit_of_1)

section \<open>The internal comparator\<close>

definition valid_ikey :: "(slice \<Rightarrow> bool) \<Rightarrow> slice \<Rightarrow> bool" where
  "valid_ikey uvalid k \<longleftrightarrow> 8 \<le> length k \<and> uvalid (ExtractUserKey k)"

lemma valid_ikey_put [simp]: "valid_ikey v (PutFixed64 n k) \<longleftrightarrow> v k"
  by (simp add: valid_ikey_def)

lemma InternalKeyCompare_sign:
  "InternalKeyCompare c a b < 0 \<longleftrightarrow>
     c (ExtractUserKey a) (ExtractUserKey b) < 0 \<or>
     c (ExtractUserKey a) (ExtractUserKey b) = 0 \<and> key_num b < key_num a"
  "InternalKeyCompare c a b = 0 \<longleftrightarrow>
     c (ExtractUserKey a) (ExtractUserKey b) = 0 \<and> key_num b = key_num a"
  "InternalKeyCompare c a b \<le> 0 \<longleftrightarrow>
     c (ExtractUserKey a) (ExtractUserKey b) < 0 \<or>
     c (ExtractUserKey a) (ExtractUserKey b) = 0 \<and> key_num b \<le> key_num a"
  by (auto simp: InternalKeyCompare_def Let_def)

text \<open>A user comparator on byte strings gives a comparator of internal keys with the same contract.\<close>

locale user_comparator = key_comparator compare valid separator successor
  for compare :: "slice \<Rightarrow> slice \<Rightarrow> int" and valid separator successor
begin

lemma internal_key_comparator:
  "key_comparator (InternalKeyCompare compare) (valid_ikey valid)
     (InternalShortestSeparator compare separator) (InternalShortSuccessor compare successor)"
proof (unfold_locales, goal_cases)
  case (1 a b)
  then show ?case
    using flip [of "ExtractUserKey a" "ExtractUserKey b"]
    by (auto simp: InternalKeyCompare_def Let_def valid_ikey_def sgn_if split: if_splits)
next
  case (2 a b c)
  let ?a = "ExtractUserKey a" and ?b = "ExtractUserKey b" and ?c = "ExtractUserKey c"
  have v: "valid ?a" "valid ?b" "valid ?c" using 2 by (auto simp: valid_ikey_def)
  have "compare ?a ?c < 0" if "compare ?a ?b < 0 \<or> compare ?b ?c < 0" "compare ?a ?b \<le> 0" "compare ?b ?c \<le> 0"
    using that less_le_trans [OF v] le_less_trans [OF v] by blast
  moreover have "compare ?a ?c \<le> 0" if "compare ?a ?b = 0" "compare ?b ?c = 0"
    using that le_trans [OF v] by simp
  moreover have "compare ?c ?a \<le> 0" if "compare ?a ?b = 0" "compare ?b ?c = 0"
    using that le_trans [OF v(3,2,1)] eq_sym [OF v(1,2)] eq_sym [OF v(2,3)] by simp
  ultimately show ?case
    using 2(4,5) not_less [OF v(1,3)] unfolding InternalKeyCompare_sign by force
next
  case (3 start limit)
  let ?s = "ExtractUserKey start" and ?l = "ExtractUserKey limit" and ?t = "separator (ExtractUserKey start) (ExtractUserKey limit)"
  have v: "valid ?s" "valid ?l" using 3 by (auto simp: valid_ikey_def)
  show ?case
  proof (cases "length ?t < length ?s \<and> compare ?s ?t < 0")
    case False
    then have "InternalShortestSeparator compare separator start limit = start"
      by (auto simp: InternalShortestSeparator_def Let_def)
    then show ?thesis using 3 v by (simp add: InternalKeyCompare_sign)
  next
    case True
    then have "compare ?s ?l \<noteq> 0" using separator_same [OF v] by auto
    then have "compare ?s ?l < 0" using 3(3) by (auto simp: InternalKeyCompare_sign)
    with True show ?thesis
      using separator_bounds [OF v] by (auto simp: InternalShortestSeparator_def Let_def InternalKeyCompare_sign)
  qed
next
  case (4 start limit)
  then show ?case
    using separator_same [of "ExtractUserKey start" "ExtractUserKey limit"]
    by (auto simp: InternalShortestSeparator_def Let_def InternalKeyCompare_sign valid_ikey_def)
next
  case (5 key)
  then show ?case
    using successor_bounds [of "ExtractUserKey key"]
    by (auto simp: InternalShortSuccessor_def Let_def InternalKeyCompare_sign valid_ikey_def)
qed

end

interpretation user_bytewise: user_comparator BytewiseCompare "\<lambda>_. True" BytewiseShortestSeparator BytewiseShortSuccessor
  by unfold_locales

interpretation internal_bytewise: key_comparator
    "InternalKeyCompare BytewiseCompare" "valid_ikey (\<lambda>_. True)"
    "InternalShortestSeparator BytewiseCompare BytewiseShortestSeparator"
    "InternalShortSuccessor BytewiseCompare BytewiseShortSuccessor"
  by (rule user_bytewise.internal_key_comparator)

lemma InternalKey_new_parts [simp]:
  "ExtractUserKey (InternalKey_new u s t) = u" "key_num (InternalKey_new u s t) = PackSequenceAndType s t"
  "length (InternalKey_new u s t) = length u + 8" "valid_ikey v (InternalKey_new u s t) \<longleftrightarrow> v u"
  by (simp_all add: InternalKey_new_def AppendInternalKey_def)

lemma pack_less:
  assumes "s \<le> kMaxSequenceNumber" "s' \<le> kMaxSequenceNumber"
  shows "PackSequenceAndType s t < PackSequenceAndType s' t' \<longleftrightarrow> s < s' \<or> s = s' \<and> t < t'"
proof -
  have "unat t < 256" "unat t' < 256" using unsigned_less [of t] unsigned_less [of t'] by simp_all
  then have "unat s * 256 + unat t < unat s' * 256 + unat t' \<longleftrightarrow> unat s < unat s' \<or> unat s = unat s' \<and> unat t < unat t'"
    by auto
  then show ?thesis
    using unpack(3) [OF assms(1), of t] unpack(3) [OF assms(2), of t']
    by (simp add: word_less_nat_alt word_unat_eq_iff)
qed

text \<open>
  C28: Internal keys are ordered by increasing user key, then by decreasing sequence number, then
  by decreasing type, for every user comparator.
\<close>

theorem internal_key_order:
  assumes "s \<le> kMaxSequenceNumber" "s' \<le> kMaxSequenceNumber"
  shows "InternalKeyCompare ucmp (InternalKey_new u s t) (InternalKey_new u' s' t') < 0 \<longleftrightarrow>
    ucmp u u' < 0 \<or> ucmp u u' = 0 \<and> (s' < s \<or> s' = s \<and> t' < t)"
  using pack_less [OF assms(2,1), of t' t] by (simp add: InternalKeyCompare_sign)

theorem internal_key_order_witness:
  "InternalKeyCompare BytewiseCompare (InternalKey_new [1] 9 0) (InternalKey_new [1] 7 1) < 0 \<longleftrightarrow>
    BytewiseCompare [1] [1] < 0 \<or> BytewiseCompare [1] [1] = 0 \<and> ((7 :: u64) < 9 \<or> (7 :: u64) = 9 \<and> (1 :: u8) < 0)"
  by (rule internal_key_order) (simp_all add: kMaxSequenceNumber_def push_bit_of_1)



section \<open>Lookup keys\<close>

lemma LookupKey_new_parts:
  "memtable_key (LookupKey_new u s) = PutLengthPrefixedSlice (InternalKey_new u s kValueTypeForSeek) []"
  "internal_key (LookupKey_new u s) = InternalKey_new u s kValueTypeForSeek"
  "lookup_user_key (LookupKey_new u s) = u"
  by (simp_all add: memtable_key_def internal_key_def lookup_user_key_def LookupKey_new_def Let_def
      InternalKey_new_def AppendInternalKey_def PutFixed64_def PutLengthPrefixedSlice_def PutVarint32_def EncodeFixed64_def
      add.commute)

text \<open>
  A lookup key is the length-prefixed internal key with the largest tag of its sequence
  number: it fits the array reserved for it (the key plus 13 bytes), gives back its three
  views, and sorts at or before exactly those entries of its user key that are not newer.
\<close>

theorem lookup_key_correct:
  assumes "length u + 8 < 2 ^ 32" "s \<le> kMaxSequenceNumber" "s' \<le> kMaxSequenceNumber" "t' \<le> kTypeValue"
  shows "length (memtable_key (LookupKey_new u s)) \<le> length u + 13 \<and>
    GetLengthPrefixedSlice (memtable_key (LookupKey_new u s) @ rest) = Some (internal_key (LookupKey_new u s), rest) \<and>
    lookup_user_key (LookupKey_new u s) = u \<and>
    (InternalKeyCompare BytewiseCompare (internal_key (LookupKey_new u s)) (InternalKey_new u s' t') \<le> 0 \<longleftrightarrow> s' \<le> s)"
proof -
  have "length (varint_bytes (ucast (of_nat (length u + 8) :: u32))) \<le> 5"
    using unat_u32 [of "of_nat (length u + 8)"] by (intro length_varint_bytes) auto
  then have "length (memtable_key (LookupKey_new u s)) \<le> length u + 13"
    by (simp add: LookupKey_new_parts PutLengthPrefixedSlice_def PutVarint32_def EncodeVarint32_eq)
  moreover have "PackSequenceAndType s' t' \<le> PackSequenceAndType s kTypeValue \<longleftrightarrow> s' \<le> s"
    using pack_less [OF assms(2,3), of kTypeValue t'] assms(4) by (auto simp flip: not_less)
  then have "InternalKeyCompare BytewiseCompare (internal_key (LookupKey_new u s)) (InternalKey_new u s' t') \<le> 0 \<longleftrightarrow> s' \<le> s"
    by (simp add: LookupKey_new_parts InternalKeyCompare_sign kValueTypeForSeek_def)
  moreover have "GetLengthPrefixedSlice (memtable_key (LookupKey_new u s) @ rest) = Some (internal_key (LookupKey_new u s), rest)"
    using assms(1) unfolding LookupKey_new_parts by (intro GetLengthPrefixedSlice_put) simp
  ultimately show ?thesis by (simp add: LookupKey_new_parts(3))
qed

theorem lookup_key_correct_witness:
  "length (memtable_key (LookupKey_new [1, 2] 40)) \<le> length [1 :: u8, 2] + 13 \<and>
    GetLengthPrefixedSlice (memtable_key (LookupKey_new [1, 2] 40) @ [7]) =
      Some (internal_key (LookupKey_new [1, 2] 40), [7]) \<and>
    lookup_user_key (LookupKey_new [1, 2] 40) = [1, 2] \<and>
    (InternalKeyCompare BytewiseCompare (internal_key (LookupKey_new [1, 2] 40)) (InternalKey_new [1, 2] 12 0) \<le> 0
      \<longleftrightarrow> (12 :: u64) \<le> 40)"
  by (rule lookup_key_correct) (simp_all add: kMaxSequenceNumber_def kTypeValue_def push_bit_of_1)

section \<open>The internal filter policy\<close>

context filter_policy
begin

lemma internal_filter_policy:
  "filter_policy (InternalCreateFilter create) (InternalKeyMayMatch may_match) (\<lambda>keys. admissible (map ExtractUserKey keys))"
  by unfold_locales
     (auto simp: InternalCreateFilter_def InternalKeyMayMatch_def intro: create_append no_false_negative)

end

interpretation internal_bloom: filter_policy "InternalCreateFilter (CreateFilter (BloomFilterPolicy_new bpk k))"
    "InternalKeyMayMatch KeyMayMatch" "\<lambda>keys. length (map ExtractUserKey keys) * unat bpk + 7 < 2 ^ 64" for bpk k
  by (rule bloom.internal_filter_policy)

text \<open>
  Wrapped for internal keys, the Bloom filter still has no false negatives, and it matches every
  version of a user key it was created from: the sequence number and the type do not matter.
\<close>

theorem internal_filter_no_false_negative:
  assumes "length keys * unat bpk + 7 < 2 ^ 64" "InternalKey_new u s t \<in> set keys"
  shows "InternalKeyMayMatch KeyMayMatch (InternalKey_new u s' t')
    (InternalCreateFilter (CreateFilter (BloomFilterPolicy_new bpk k)) keys [])"
  using internal_bloom.no_false_negative [of keys bpk "InternalKey_new u s t" k] assms
  by (simp add: InternalKeyMayMatch_def)

theorem internal_filter_no_false_negative_witness:
  "InternalKeyMayMatch KeyMayMatch (InternalKey_new [1] 5 1)
    (InternalCreateFilter (CreateFilter (BloomFilterPolicy_new 10 6)) [InternalKey_new [2] 8 1, InternalKey_new [1] 9 0] [])"
  by (rule internal_filter_no_false_negative [where s = 9 and t = 0]) simp_all

end
