(* ===== verification/LdbSkipList.thy ===== *)
theory LdbSkipList
  imports LdbBase
begin

unbundle bit_operations_syntax

text \<open>
  The skip list of the memtable (\<open>db/skiplist.h\<close>) and its random number generator
  (\<open>util/random.h\<close>).

  The nodes live in a list, and an address is an index into it: the arena never frees a node, so
  allocation appends, and the head is the node at address 0.  A null pointer is \<open>None\<close>.  A
  node's \<open>next_\<close> array has as many entries as the node is high.  The search loops are
  \<open>partial_function (option)\<close>: \<open>None\<close> stands for an access outside a node's array or a loop that does
  not end, and the theorems show that it does not happen on a well-formed list.  The three
  search loops of the source (\<open>FindGreaterOrEqual\<close>, \<open>FindLessThan\<close>, \<open>FindLast\<close>) have one shape, \<open>descend\<close>,
  and differ in the test that lets them advance.
\<close>

section \<open>The random number generator\<close>

definition Random_new :: "u32 \<Rightarrow> u32" where
  "Random_new s = (let seed = s AND 0x7FFFFFFF in if seed = 0 \<or> seed = 2147483647 then 1 else seed)"

definition Random_Next :: "u32 \<Rightarrow> u32" where
  "Random_Next seed =
     (let M = 2147483647 :: u32; A = 16807 :: u64;
          product = ucast seed * A;
          seed' = ucast (drop_bit 31 product + (product AND ucast M)) :: u32
      in if seed' > M then seed' - M else seed')"

definition Random_Uniform :: "u32 \<Rightarrow> u32 \<Rightarrow> u32 \<times> u32" where
  "Random_Uniform n seed = (let seed' = Random_Next seed in (seed' mod n, seed'))"

definition Random_OneIn :: "u32 \<Rightarrow> u32 \<Rightarrow> bool \<times> u32" where
  "Random_OneIn n seed = (let seed' = Random_Next seed in (seed' mod n = 0, seed'))"

definition Random_Skewed :: "u32 \<Rightarrow> u32 \<Rightarrow> u32 \<times> u32" where
  "Random_Skewed max_log seed =
     (let (base, seed') = Random_Uniform (max_log + 1) seed in Random_Uniform (push_bit (unat base) 1) seed')"

section \<open>Nodes\<close>

record 'k node =
  node_key :: 'k
  node_next :: "nat option list"

record 'k SkipList =
  sl_nodes :: "'k node list"
  max_height :: nat
  sl_rnd :: u32

definition kMaxHeight :: nat where
  "kMaxHeight = 12"

definition sl_head :: nat where
  "sl_head = 0"

text \<open>\<open>x->Next(n)\<close>: the outer \<open>None\<close> is an access outside the array.\<close>

definition Node_Next :: "'k SkipList \<Rightarrow> nat \<Rightarrow> nat \<Rightarrow> nat option option" where
  "Node_Next s x n =
     (if x < length (sl_nodes s) \<and> n < length (node_next (sl_nodes s ! x)) then Some (node_next (sl_nodes s ! x) ! n)
      else None)"

definition Node_SetNext :: "'k SkipList \<Rightarrow> nat \<Rightarrow> nat \<Rightarrow> nat option \<Rightarrow> 'k SkipList option" where
  "Node_SetNext s x n v =
     (if x < length (sl_nodes s) \<and> n < length (node_next (sl_nodes s ! x)) then
        let nd = sl_nodes s ! x
        in Some (s\<lparr>sl_nodes := (sl_nodes s)[x := nd\<lparr>node_next := (node_next nd)[n := v]\<rparr>]\<rparr>)
      else None)"

definition NewNode :: "'k SkipList \<Rightarrow> 'k \<Rightarrow> nat \<Rightarrow> nat \<times> 'k SkipList" where
  "NewNode s key height =
     (length (sl_nodes s), s\<lparr>sl_nodes := sl_nodes s @ [\<lparr>node_key = key, node_next = replicate height None\<rparr>]\<rparr>)"

definition key_at :: "'k SkipList \<Rightarrow> nat \<Rightarrow> 'k" where
  "key_at s x = node_key (sl_nodes s ! x)"

section \<open>Operations\<close>

definition SkipList_new :: "'k \<Rightarrow> 'k SkipList" where
  "SkipList_new any =
     \<lparr>sl_nodes = [\<lparr>node_key = any, node_next = replicate kMaxHeight None\<rparr>], max_height = 1,
      sl_rnd = Random_new 0xDEADBEEF\<rparr>"

function RandomHeight_loop :: "nat \<Rightarrow> u32 \<Rightarrow> nat \<times> u32" where
  "RandomHeight_loop height seed =
     (if height < kMaxHeight then
        let seed' = Random_Next seed
        in if seed' mod 4 = 0 then RandomHeight_loop (height + 1) seed' else (height, seed')
      else (height, seed))"
  by pat_completeness auto
termination
  by (relation "measure (\<lambda>(height, seed). kMaxHeight - height)") auto

declare RandomHeight_loop.simps [simp del]

definition RandomHeight :: "'k SkipList \<Rightarrow> nat \<times> 'k SkipList" where
  "RandomHeight s = (let (height, seed) = RandomHeight_loop 1 (sl_rnd s) in (height, s\<lparr>sl_rnd := seed\<rparr>))"

definition KeyIsAfterNode :: "('k \<Rightarrow> 'k \<Rightarrow> int) \<Rightarrow> 'k SkipList \<Rightarrow> 'k \<Rightarrow> nat option \<Rightarrow> bool" where
  "KeyIsAfterNode cmp s key n = (case n of None \<Rightarrow> False | Some a \<Rightarrow> cmp (key_at s a) key < 0)"

partial_function (option) descend ::
    "'k SkipList \<Rightarrow> (nat option \<Rightarrow> bool) \<Rightarrow> nat \<Rightarrow> nat \<Rightarrow> nat list option \<Rightarrow> (nat \<times> nat option \<times> nat list option) option" where
  "descend s go x level prev =
     (case Node_Next s x level of
        None \<Rightarrow> None
      | Some next \<Rightarrow>
          if go next then descend s go (the next) level prev
          else
            let prev = map_option (\<lambda>p. p[level := x]) prev
            in if level = 0 then Some (x, next, prev) else descend s go x (level - 1) prev)"

declare descend.simps [code]

definition FindGreaterOrEqual ::
    "('k \<Rightarrow> 'k \<Rightarrow> int) \<Rightarrow> 'k SkipList \<Rightarrow> 'k \<Rightarrow> nat list option \<Rightarrow> (nat option \<times> nat list option) option" where
  "FindGreaterOrEqual cmp s key prev =
     (case descend s (KeyIsAfterNode cmp s key) sl_head (max_height s - 1) prev of
        None \<Rightarrow> None | Some (x, next, prev) \<Rightarrow> Some (next, prev))"

definition FindLessThan :: "('k \<Rightarrow> 'k \<Rightarrow> int) \<Rightarrow> 'k SkipList \<Rightarrow> 'k \<Rightarrow> nat option" where
  "FindLessThan cmp s key =
     map_option fst (descend s (\<lambda>next. \<not> (next = None \<or> cmp (key_at s (the next)) key \<ge> 0)) sl_head
       (max_height s - 1) None)"

definition FindLast :: "'k SkipList \<Rightarrow> nat option" where
  "FindLast s = map_option fst (descend s (\<lambda>next. next \<noteq> None) sl_head (max_height s - 1) None)"

fun link_levels :: "nat \<Rightarrow> nat list \<Rightarrow> nat \<Rightarrow> nat \<Rightarrow> 'k SkipList \<Rightarrow> 'k SkipList option" where
  "link_levels x prev i 0 s = Some s"
| "link_levels x prev i (Suc n) s =
     (case Node_Next s (prev ! i) i of
        None \<Rightarrow> None
      | Some next \<Rightarrow>
          (case Node_SetNext s x i next of
             None \<Rightarrow> None
           | Some s \<Rightarrow>
               (case Node_SetNext s (prev ! i) i (Some x) of
                  None \<Rightarrow> None
                | Some s \<Rightarrow> link_levels x prev (i + 1) n s)))"

text \<open>\<open>Insert\<close>; \<open>None\<close> also where the assertion against duplicates fails.\<close>

definition Insert :: "('k \<Rightarrow> 'k \<Rightarrow> int) \<Rightarrow> 'k SkipList \<Rightarrow> 'k \<Rightarrow> 'k SkipList option" where
  "Insert cmp s key =
     (case FindGreaterOrEqual cmp s key (Some (replicate kMaxHeight 0)) of
        Some (x, Some prev) \<Rightarrow>
          if x \<noteq> None \<and> cmp key (key_at s (the x)) = 0 then None
          else
            let (height, s) = RandomHeight s;
                prev = (if height > max_height s
                  then fold (\<lambda>i p. p[i := sl_head]) [max_height s..<height] prev else prev);
                s = (if height > max_height s then s\<lparr>max_height := height\<rparr> else s);
                (x, s) = NewNode s key height
            in link_levels x prev 0 height s
      | _ \<Rightarrow> None)"

definition Contains :: "('k \<Rightarrow> 'k \<Rightarrow> int) \<Rightarrow> 'k SkipList \<Rightarrow> 'k \<Rightarrow> bool option" where
  "Contains cmp s key =
     (case FindGreaterOrEqual cmp s key None of
        None \<Rightarrow> None
      | Some (x, _) \<Rightarrow> Some (x \<noteq> None \<and> cmp key (key_at s (the x)) = 0))"

section \<open>Iterators\<close>

text \<open>An iterator is its \<open>node_\<close>; the operations take the list it belongs to.\<close>

type_synonym sl_iter = "nat option"

definition Iterator_new :: sl_iter where
  "Iterator_new = None"

definition Iterator_Valid :: "sl_iter \<Rightarrow> bool" where
  "Iterator_Valid it \<longleftrightarrow> it \<noteq> None"

definition Iterator_key :: "'k SkipList \<Rightarrow> sl_iter \<Rightarrow> 'k option" where
  "Iterator_key s it = map_option (key_at s) it"

definition Iterator_Next :: "'k SkipList \<Rightarrow> sl_iter \<Rightarrow> sl_iter option" where
  "Iterator_Next s it = (case it of None \<Rightarrow> None | Some x \<Rightarrow> Node_Next s x 0)"

definition Iterator_Prev :: "('k \<Rightarrow> 'k \<Rightarrow> int) \<Rightarrow> 'k SkipList \<Rightarrow> sl_iter \<Rightarrow> sl_iter option" where
  "Iterator_Prev cmp s it =
     (case it of None \<Rightarrow> None
      | Some x \<Rightarrow> map_option (\<lambda>y. if y = sl_head then None else Some y) (FindLessThan cmp s (key_at s x)))"

definition Iterator_Seek :: "('k \<Rightarrow> 'k \<Rightarrow> int) \<Rightarrow> 'k SkipList \<Rightarrow> 'k \<Rightarrow> sl_iter option" where
  "Iterator_Seek cmp s target = map_option fst (FindGreaterOrEqual cmp s target None)"

definition Iterator_SeekToFirst :: "'k SkipList \<Rightarrow> sl_iter option" where
  "Iterator_SeekToFirst s = Node_Next s sl_head 0"

definition Iterator_SeekToLast :: "'k SkipList \<Rightarrow> sl_iter option" where
  "Iterator_SeekToLast s = map_option (\<lambda>y. if y = sl_head then None else Some y) (FindLast s)"

section \<open>Chains of pointers\<close>

fun chain :: "(nat \<Rightarrow> nat option) \<Rightarrow> nat \<Rightarrow> nat list \<Rightarrow> bool" where
  "chain f x [] \<longleftrightarrow> f x = None"
| "chain f x (a # as) \<longleftrightarrow> f x = Some a \<and> chain f a as"

fun hd_opt :: "'a list \<Rightarrow> 'a option" where
  "hd_opt [] = None"
| "hd_opt (a # as) = Some a"

lemma chain_next: "chain f x as \<Longrightarrow> f x = hd_opt as"
  by (cases as) auto

lemma chain_tail: "chain f x (as @ a # bs) \<Longrightarrow> chain f a bs"
  by (induction as arbitrary: x) auto

lemma chain_cong: "(\<And>a. a \<in> set (x # as) \<Longrightarrow> f a = g a) \<Longrightarrow> chain f x as = chain g x as"
  by (induction as arbitrary: x) auto

lemma chain_start: "g n = f x \<Longrightarrow> (\<And>a. a \<in> set as \<Longrightarrow> g a = f a) \<Longrightarrow> chain g n as = chain f x as"
proof (cases as)
  case (Cons b bs)
  assume "g n = f x" "\<And>a. a \<in> set as \<Longrightarrow> g a = f a"
  with Cons show ?thesis using chain_cong [of b bs g f] by simp
qed simp

lemma chain_insert:
  assumes "chain f x (as @ bs)" "distinct (x # as @ bs)" "n \<notin> set (x # as @ bs)"
  shows "chain (f(n := f (last (x # as)), last (x # as) := Some n)) x (as @ n # bs)"
  using assms
proof (induction as arbitrary: x)
  case Nil
  have "chain (f(n := f x, x := Some n)) n bs = chain f x bs"
    using Nil by (intro chain_start) auto
  moreover have "(f(n := f x, x := Some n)) x = Some n" by simp
  ultimately show ?case using Nil by (simp del: fun_upd_apply)
next
  case (Cons a as)
  then have "x \<noteq> last (a # as)" "x \<noteq> n" by (auto dest: last_in_set split: if_splits)
  with Cons show ?case by auto
qed

section \<open>Well-formed lists\<close>

definition nxt :: "'k SkipList \<Rightarrow> nat \<Rightarrow> nat \<Rightarrow> nat option" where
  "nxt s l a = node_next (sl_nodes s ! a) ! l"

definition height :: "'k SkipList \<Rightarrow> nat \<Rightarrow> nat" where
  "height s a = length (node_next (sl_nodes s ! a))"

definition level_path :: "'k SkipList \<Rightarrow> nat list \<Rightarrow> nat \<Rightarrow> nat list" where
  "level_path s ns l = filter (\<lambda>a. l < height s a) ns"

text \<open>\<open>ns\<close> are the addresses of the linked nodes in order; level \<open>l\<close> links those of them that are higher than \<open>l\<close>.\<close>

definition linked :: "'k SkipList \<Rightarrow> nat list \<Rightarrow> bool" where
  "linked s ns \<longleftrightarrow>
     1 \<le> max_height s \<and> max_height s \<le> kMaxHeight \<and> sl_nodes s \<noteq> [] \<and> height s sl_head = kMaxHeight \<and>
     distinct (sl_head # ns) \<and>
     (\<forall>a\<in>set ns. a < length (sl_nodes s) \<and> 1 \<le> height s a \<and> height s a \<le> max_height s) \<and>
     (\<forall>l<kMaxHeight. chain (nxt s l) sl_head (level_path s ns l))"

lemma Node_Next_nxt: "a < length (sl_nodes s) \<Longrightarrow> l < height s a \<Longrightarrow> Node_Next s a l = Some (nxt s l a)"
  by (simp add: Node_Next_def height_def nxt_def)

lemma level_path_append [simp]: "level_path s (as @ bs) l = level_path s as l @ level_path s bs l"
  by (simp add: level_path_def)

lemma level_path_0: "linked s ns \<Longrightarrow> set as \<subseteq> set ns \<Longrightarrow> level_path s as 0 = as"
  unfolding level_path_def by (rule filter_True) (force simp: linked_def)

lemma next_in_path:
  assumes "linked s (A @ B)" "l < kMaxHeight" "x = sl_head \<and> A' = A \<or> (\<exists>A1. A = A1 @ x # A') \<and> l < height s x"
  shows "Node_Next s x l = Some (hd_opt (level_path s A' l @ level_path s B l))"
proof -
  have chain: "chain (nxt s l) sl_head (level_path s A l @ level_path s B l)"
    using assms(1,2) by (simp add: linked_def)
  have "x < length (sl_nodes s)" "l < height s x"
    using assms by (auto simp: linked_def sl_head_def)
  moreover have "nxt s l x = hd_opt (level_path s A' l @ level_path s B l)"
    using assms(3)
  proof
    assume "x = sl_head \<and> A' = A"
    then show ?thesis using chain_next [OF chain] by simp
  next
    assume "(\<exists>A1. A = A1 @ x # A') \<and> l < height s x"
    then obtain A1 where "level_path s A l = level_path s A1 l @ x # level_path s A' l"
      by (auto simp: level_path_def)
    then show ?thesis using chain chain_tail [of "nxt s l"] by (auto intro!: chain_next)
  qed
  ultimately show ?thesis by (simp add: Node_Next_nxt)
qed

definition found_prev :: "'k SkipList \<Rightarrow> nat list \<Rightarrow> nat \<Rightarrow> nat list \<Rightarrow> nat list" where
  "found_prev s A l p = map (\<lambda>i. if i \<le> l then last (sl_head # level_path s A i) else p ! i) [0..<length p]"

lemma found_prev_step:
  assumes "x = last (sl_head # level_path s A (Suc l))"
  shows "found_prev s A l (p[Suc l := x]) = found_prev s A (Suc l) p"
  unfolding found_prev_def length_list_update
proof (intro map_cong HOL.refl)
  fix i assume "i \<in> set [0..<length p]"
  then show "(if i \<le> l then last (sl_head # level_path s A i) else p[Suc l := x] ! i) =
      (if i \<le> Suc l then last (sl_head # level_path s A i) else p ! i)"
    using assms by (cases "i = Suc l") auto
qed

lemma found_prev_0:
  assumes "x = last (sl_head # level_path s A 0)"
  shows "p[0 := x] = found_prev s A 0 p"
  using assms by (intro nth_equalityI) (auto simp: found_prev_def nth_list_update)

lemma descend_found:
  assumes "linked s (A @ B)" and go: "\<And>a. a \<in> set A \<Longrightarrow> go (Some a)" "\<And>b. b \<in> set B \<Longrightarrow> \<not> go (Some b)" "\<not> go None"
  shows "l < kMaxHeight \<Longrightarrow> x = sl_head \<and> A' = A \<or> (\<exists>A1. A = A1 @ x # A') \<and> l < height s x \<Longrightarrow>
    descend s go x l prev = Some (last (sl_head # A), hd_opt B, map_option (found_prev s A l) prev)"
proof (induction "l + length A'" arbitrary: l x A' prev rule: less_induct)
  case less
  note step = next_in_path [OF assms(1) less.prems]
  show ?case
  proof (cases "level_path s A' l")
    case (Cons y ys)
    then obtain us vs where A': "A' = us @ y # vs" "l < height s y"
      by (auto simp: level_path_def filter_eq_Cons_iff)
    have "y \<in> set A" using less.prems(2) A'(1) by auto
    moreover have "\<exists>A1. A = A1 @ y # vs"
      using less.prems(2) A'(1) by (metis append.assoc append_Cons)
    ultimately have "descend s go y l prev = Some (last (sl_head # A), hd_opt B, map_option (found_prev s A l) prev)"
      using A' less.prems(1) by (intro less.hyps [of l vs]) auto
    moreover have "Node_Next s x l = Some (Some y)" "go (Some y)"
      using step Cons go(1) \<open>y \<in> set A\<close> by simp_all
    ultimately show ?thesis by (subst descend.simps) simp
  next
    case Nil
    have stop: "\<not> go (hd_opt (level_path s B l))"
      using go(2,3) by (cases "level_path s B l") (force simp: level_path_def filter_eq_Cons_iff)+
    have last: "x = last (sl_head # level_path s A l)"
      using less.prems(2) Nil by (auto simp: level_path_def)
    show ?thesis
    proof (cases l)
      case 0
      have "level_path s A 0 = A" "level_path s B 0 = B" using level_path_0 [OF assms(1)] by auto
      moreover from this have "x = last (sl_head # A)" using last 0 by simp
      moreover have "(\<lambda>p. p[0 := x]) = found_prev s A 0"
        using last 0 by (intro ext found_prev_0) simp
      ultimately show ?thesis using 0 step Nil stop by (subst descend.simps) (simp add: Let_def)
    next
      case (Suc k)
      have "descend s go x k (map_option (\<lambda>p. p[l := x]) prev) =
          Some (last (sl_head # A), hd_opt B, map_option (found_prev s A k) (map_option (\<lambda>p. p[l := x]) prev))"
        using less.prems Suc by (intro less.hyps [of k A']) auto
      with Suc step Nil stop last show ?thesis
        by (subst descend.simps) (simp add: option.map_comp comp_def found_prev_step)
    qed
  qed
qed

section \<open>Searching\<close>

lemma fge_found:
  assumes "linked s (A @ B)" "\<And>a. a \<in> set A \<Longrightarrow> cmp (key_at s a) key < 0" "\<And>b. b \<in> set B \<Longrightarrow> \<not> cmp (key_at s b) key < 0"
  shows "FindGreaterOrEqual cmp s key prev = Some (hd_opt B, map_option (found_prev s A (max_height s - 1)) prev)"
proof -
  have "max_height s - 1 < kMaxHeight" using assms(1) by (simp add: linked_def) linarith
  then have "descend s (KeyIsAfterNode cmp s key) sl_head (max_height s - 1) prev =
      Some (last (sl_head # A), hd_opt B, map_option (found_prev s A (max_height s - 1)) prev)"
    using assms(2,3) by (intro descend_found [OF assms(1), where A' = A]) (auto simp: KeyIsAfterNode_def)
  then show ?thesis by (simp add: FindGreaterOrEqual_def)
qed

lemma flt_found:
  assumes "linked s (A @ B)" "\<And>a. a \<in> set A \<Longrightarrow> cmp (key_at s a) key < 0" "\<And>b. b \<in> set B \<Longrightarrow> \<not> cmp (key_at s b) key < 0"
  shows "FindLessThan cmp s key = Some (last (sl_head # A))"
proof -
  have "max_height s - 1 < kMaxHeight" using assms(1) by (simp add: linked_def) linarith
  then have "descend s (\<lambda>next. \<not> (next = None \<or> cmp (key_at s (the next)) key \<ge> 0)) sl_head (max_height s - 1) None =
      Some (last (sl_head # A), hd_opt B, map_option (found_prev s A (max_height s - 1)) None)"
    using assms(2,3) by (intro descend_found [OF assms(1), where A' = A]) fastforce+
  then show ?thesis by (simp add: FindLessThan_def)
qed

lemma last_found:
  assumes "linked s ns"
  shows "FindLast s = Some (last (sl_head # ns))"
proof -
  have "max_height s - 1 < kMaxHeight" using assms by (simp add: linked_def) linarith
  then have "descend s (\<lambda>next. next \<noteq> None) sl_head (max_height s - 1) None =
      Some (last (sl_head # ns), hd_opt [], map_option (found_prev s ns (max_height s - 1)) None)"
    using assms by (intro descend_found [where B = "[]" and A' = ns]) auto
  then show ?thesis by (simp add: FindLast_def)
qed

section \<open>Insertion\<close>

lemma RandomHeight_loop_range: "h \<le> kMaxHeight \<Longrightarrow> h \<le> fst (RandomHeight_loop h seed) \<and> fst (RandomHeight_loop h seed) \<le> kMaxHeight"
proof (induction h seed rule: RandomHeight_loop.induct)
  case (1 h seed)
  then show ?case by (subst (1 2) RandomHeight_loop.simps) (force simp: Let_def)
qed

text \<open>The effect of linking the levels below \<open>i + n\<close>: each gets the new node behind its predecessor.\<close>

lemma nodes_SetNext:
  assumes "Node_SetNext s x l v = Some s'"
  shows "nxt s' k a = (if k = l \<and> a = x then v else nxt s k a)" "height s' a = height s a"
    "key_at s' a = key_at s a" "length (sl_nodes s') = length (sl_nodes s)" "max_height s' = max_height s" "sl_rnd s' = sl_rnd s"
  using assms
  by (auto simp: Node_SetNext_def nxt_def height_def key_at_def Let_def nth_list_update split: if_splits)

lemma SetNext_defined: "x < length (sl_nodes s) \<Longrightarrow> l < height s x \<Longrightarrow> \<exists>s'. Node_SetNext s x l v = Some s'"
  by (simp add: Node_SetNext_def height_def Let_def)

lemma link_levels_effect:
  assumes "x < length (sl_nodes s)" "i + n \<le> height s x"
    and "\<And>j. i \<le> j \<Longrightarrow> j < i + n \<Longrightarrow> prev ! j < length (sl_nodes s) \<and> j < height s (prev ! j) \<and> prev ! j \<noteq> x"
  shows "\<exists>s'. link_levels x prev i n s = Some s' \<and> length (sl_nodes s') = length (sl_nodes s) \<and>
    max_height s' = max_height s \<and> (\<forall>a. height s' a = height s a \<and> key_at s' a = key_at s a) \<and>
    (\<forall>l a. nxt s' l a =
      (if i \<le> l \<and> l < i + n then ((nxt s l)(x := nxt s l (prev ! l), prev ! l := Some x)) a else nxt s l a))"
  using assms
proof (induction n arbitrary: i s)
  case 0
  then show ?case by auto
next
  case (Suc n)
  have p: "prev ! i < length (sl_nodes s)" "i < height s (prev ! i)" "prev ! i \<noteq> x"
    using Suc.prems(3) [of i] by auto
  obtain s1 where s1: "Node_SetNext s x i (nxt s i (prev ! i)) = Some s1"
    using SetNext_defined [of x s i] Suc.prems(1,2) by auto
  note n1 = nodes_SetNext [OF s1]
  obtain s2 where s2: "Node_SetNext s1 (prev ! i) i (Some x) = Some s2"
    using SetNext_defined [of "prev ! i" s1 i "Some x"] p n1(2,4) by auto
  note n2 = nodes_SetNext [OF s2]
  have eq: "link_levels x prev i (Suc n) s = link_levels x prev (i + 1) n s2"
    using p s1 s2 by (simp add: Node_Next_nxt)
  have "\<exists>s'. link_levels x prev (i + 1) n s2 = Some s' \<and> length (sl_nodes s') = length (sl_nodes s2) \<and>
    max_height s' = max_height s2 \<and> (\<forall>a. height s' a = height s2 a \<and> key_at s' a = key_at s2 a) \<and>
    (\<forall>l a. nxt s' l a =
      (if i + 1 \<le> l \<and> l < i + 1 + n then ((nxt s2 l)(x := nxt s2 l (prev ! l), prev ! l := Some x)) a else nxt s2 l a))"
  proof (rule Suc.IH)
    fix j assume "i + 1 \<le> j" "j < i + 1 + n"
    then show "prev ! j < length (sl_nodes s2) \<and> j < height s2 (prev ! j) \<and> prev ! j \<noteq> x"
      using Suc.prems(3) [of j] n1(2,4) n2(2,4) by simp
  qed (use Suc.prems(1,2) n1(2,4) n2(2,4) in simp_all)
  then obtain s' where s': "link_levels x prev (i + 1) n s2 = Some s'" "length (sl_nodes s') = length (sl_nodes s2)"
      "max_height s' = max_height s2" "\<forall>a. height s' a = height s2 a \<and> key_at s' a = key_at s2 a"
    and step: "\<forall>l a. nxt s' l a =
      (if i + 1 \<le> l \<and> l < i + 1 + n then ((nxt s2 l)(x := nxt s2 l (prev ! l), prev ! l := Some x)) a else nxt s2 l a)"
    by blast
  have "nxt s' l a =
      (if i \<le> l \<and> l < i + Suc n then ((nxt s l)(x := nxt s l (prev ! l), prev ! l := Some x)) a else nxt s l a)" for l a
    using step p(3) by (cases "l = i") (simp_all add: n1(1) n2(1))
  then show ?case using eq s' n1(2-5) n2(2-5) by simp
qed

lemma fold_set_range:
  "length (fold (\<lambda>i p. p[i := v]) is p) = length p"
  "j < length p \<Longrightarrow> fold (\<lambda>i p. p[i := v]) is p ! j = (if j \<in> set is then v else p ! j)"
  by (induction "is" arbitrary: p) (auto simp: nth_list_update)

definition insert_prev :: "'k SkipList \<Rightarrow> nat list \<Rightarrow> nat \<Rightarrow> nat list" where
  "insert_prev s A h =
     (let prev = found_prev s A (max_height s - 1) (replicate kMaxHeight 0)
      in if h > max_height s then fold (\<lambda>i p. p[i := sl_head]) [max_height s..<h] prev else prev)"

lemma insert_prev_nth:
  assumes "linked s (A @ B)" "h \<le> kMaxHeight" "j < h"
  shows "insert_prev s A h ! j = last (sl_head # level_path s A j)"
proof -
  have j: "j < kMaxHeight" and mh: "1 \<le> max_height s" using assms by (simp_all add: linked_def)
  have found: "found_prev s A (max_height s - 1) (replicate kMaxHeight 0) ! j = last (sl_head # level_path s A j)"
    if "j < max_height s"
  proof -
    have "j \<le> max_height s - 1" using that by simp
    with j show ?thesis by (simp add: found_prev_def)
  qed
  show ?thesis
  proof (cases "j < max_height s")
    case True
    with found j show ?thesis by (simp add: insert_prev_def Let_def fold_set_range found_prev_def)
  next
    case False
    have "\<not> j < height s a" if "a \<in> set A" for a
    proof -
      have "height s a \<le> max_height s" using assms(1) that by (simp add: linked_def)
      with False show ?thesis by simp
    qed
    then have "level_path s A j = []" by (simp add: level_path_def)
    with False assms(3) j show ?thesis by (simp add: insert_prev_def Let_def fold_set_range found_prev_def)
  qed
qed

definition with_node :: "'k SkipList \<Rightarrow> 'k \<Rightarrow> nat \<Rightarrow> u32 \<Rightarrow> 'k SkipList" where
  "with_node s key h seed =
     s\<lparr>sl_rnd := seed, max_height := max (max_height s) h,
       sl_nodes := sl_nodes s @ [\<lparr>node_key = key, node_next = replicate h None\<rparr>]\<rparr>"

lemma with_node_simps [simp]:
  "length (sl_nodes (with_node s key h seed)) = Suc (length (sl_nodes s))"
  "max_height (with_node s key h seed) = max (max_height s) h"
  "a < length (sl_nodes s) \<Longrightarrow> nxt (with_node s key h seed) l a = nxt s l a"
  "a < length (sl_nodes s) \<Longrightarrow> height (with_node s key h seed) a = height s a"
  "a < length (sl_nodes s) \<Longrightarrow> key_at (with_node s key h seed) a = key_at s a"
  "height (with_node s key h seed) (length (sl_nodes s)) = h"
  "key_at (with_node s key h seed) (length (sl_nodes s)) = key"
  by (auto simp: with_node_def nxt_def height_def key_at_def nth_append)

lemma Insert_steps:
  assumes "linked s (A @ B)" "\<And>a. a \<in> set A \<Longrightarrow> cmp (key_at s a) key < 0" "\<And>b. b \<in> set B \<Longrightarrow> \<not> cmp (key_at s b) key < 0"
    and "B = [] \<or> cmp key (key_at s (hd B)) \<noteq> 0"
  obtains h seed where "1 \<le> h" "h \<le> kMaxHeight"
    "Insert cmp s key = link_levels (length (sl_nodes s)) (insert_prev s A h) 0 h (with_node s key h seed)"
proof -
  obtain h seed where h: "RandomHeight_loop 1 (sl_rnd s) = (h, seed)" by fastforce
  then have "1 \<le> h" "h \<le> kMaxHeight"
    using RandomHeight_loop_range [of 1 "sl_rnd s"] by (simp_all add: kMaxHeight_def)
  moreover have "\<not> (hd_opt B \<noteq> None \<and> cmp key (key_at s (the (hd_opt B))) = 0)"
    using assms(4) by (cases B) auto
  then have "Insert cmp s key = link_levels (length (sl_nodes s)) (insert_prev s A h) 0 h (with_node s key h seed)"
    using fge_found [of s A B cmp key "Some (replicate kMaxHeight 0)", OF assms(1) assms(2) assms(3)]
    by (auto simp: Insert_def RandomHeight_def h [unfolded One_nat_def] insert_prev_def with_node_def NewNode_def Let_def max_def)
  ultimately show thesis using that by blast
qed

lemma linked_nodes: "linked s ns \<Longrightarrow> a \<in> set ns \<Longrightarrow> a < length (sl_nodes s) \<and> 1 \<le> height s a \<and> height s a \<le> max_height s"
  by (auto simp: linked_def)

lemma linked_head: "linked s ns \<Longrightarrow> sl_head < length (sl_nodes s) \<and> height s sl_head = kMaxHeight"
  by (auto simp: linked_def sl_head_def)

lemma insert_prev_bounds:
  assumes "linked s (A @ B)" "h \<le> kMaxHeight" "j < h"
  shows "insert_prev s A h ! j < length (sl_nodes s) \<and> j < height s (insert_prev s A h ! j)"
proof (cases "level_path s A j")
  case Nil
  then show ?thesis using insert_prev_nth [OF assms] linked_head [OF assms(1)] assms(2,3) by simp
next
  case (Cons b bs)
  then have "insert_prev s A h ! j \<in> set (level_path s A j)"
    using insert_prev_nth [OF assms] last_in_set [of "level_path s A j"] by simp
  then show ?thesis using linked_nodes [OF assms(1)] by (auto simp: level_path_def)
qed

text \<open>A list with one more node, linked behind its predecessor on the levels below its height.\<close>

lemma chain_with_node:
  fixes s :: "'k SkipList" and key h seed
  assumes "linked s (A @ B)" "l < kMaxHeight"
  defines "x \<equiv> length (sl_nodes s)" and "f \<equiv> nxt (with_node s key h seed) l"
  shows "chain f sl_head (level_path s A l @ level_path s B l)"
    and "chain (f(x := f (last (sl_head # level_path s A l)), last (sl_head # level_path s A l) := Some x)) sl_head
      (level_path s A l @ x # level_path s B l)"
proof -
  have mem: "set (sl_head # level_path s A l @ level_path s B l) \<subseteq> {..<x}" "distinct (sl_head # level_path s A l @ level_path s B l)"
    using linked_nodes [OF assms(1)] linked_head [OF assms(1)] assms(1) by (auto simp: level_path_def linked_def x_def)
  have "chain (nxt s l) sl_head (level_path s A l @ level_path s B l)"
    using assms(1,2) by (simp add: linked_def)
  then show chain: "chain f sl_head (level_path s A l @ level_path s B l)"
    using mem(1) by (subst chain_cong [of _ _ _ "nxt s l"]) (auto simp: x_def f_def)
  show "chain (f(x := f (last (sl_head # level_path s A l)), last (sl_head # level_path s A l) := Some x)) sl_head
      (level_path s A l @ x # level_path s B l)"
    using mem(1) by (intro chain_insert chain mem(2)) auto
qed

lemma linked_insert:
  fixes s s' :: "'k SkipList" and key h seed
  assumes "linked s (A @ B)" "1 \<le> h" "h \<le> kMaxHeight"
  defines "x \<equiv> length (sl_nodes s)" and "s1 \<equiv> with_node s key h seed"
  assumes s': "length (sl_nodes s') = Suc x" "max_height s' = max (max_height s) h" "\<And>a. height s' a = height s1 a"
    and nxt': "\<And>l. nxt s' l = (if l < h then (nxt s1 l)(x := nxt s1 l (insert_prev s A h ! l), insert_prev s A h ! l := Some x) else nxt s1 l)"
  shows "linked s' (A @ x # B)"
proof -
  note nodes = linked_nodes [OF assms(1)] and head = linked_head [OF assms(1)]
  have path: "level_path s' (A @ x # B) l = level_path s A l @ (if l < h then [x] else []) @ level_path s B l" for l
  proof -
    have "level_path s' as l = level_path s as l" if "set as \<subseteq> set (A @ B)" for as
      unfolding level_path_def using that nodes by (intro filter_cong) (auto simp: s'(3) s1_def)
    then show ?thesis by (simp add: level_path_def s'(3) x_def s1_def)
  qed
  have "chain (nxt s' l) sl_head (level_path s' (A @ x # B) l)" if "l < kMaxHeight" for l
    using chain_with_node [OF assms(1) that, where key = key and h = h and seed = seed, folded x_def s1_def] insert_prev_nth [OF assms(1,3), of l]
    by (cases "l < h") (simp_all only: path nxt' if_True if_False append.simps simp_thms)
  moreover have "distinct (sl_head # A @ x # B)" using assms(1) nodes head by (fastforce simp: linked_def x_def)
  moreover have "\<forall>a\<in>set (A @ x # B). a < length (sl_nodes s') \<and> 1 \<le> height s' a \<and> height s' a \<le> max_height s'"
    using nodes assms(2) by (fastforce simp: s' x_def s1_def)
  moreover have "1 \<le> max_height s'" "max_height s' \<le> kMaxHeight" "sl_nodes s' \<noteq> []" "height s' sl_head = kMaxHeight"
    using assms(1-3) s' head by (auto simp: linked_def s1_def)
  ultimately show ?thesis unfolding linked_def by blast
qed

lemma Insert_linked:
  assumes "linked s (A @ B)" "\<And>a. a \<in> set A \<Longrightarrow> cmp (key_at s a) key < 0" "\<And>b. b \<in> set B \<Longrightarrow> \<not> cmp (key_at s b) key < 0"
    and "B = [] \<or> cmp key (key_at s (hd B)) \<noteq> 0"
  defines "x \<equiv> length (sl_nodes s)"
  obtains s' where "Insert cmp s key = Some s'" "linked s' (A @ x # B)" "key_at s' x = key"
    "\<forall>a<x. key_at s' a = key_at s a" "length (sl_nodes s') = Suc x"
proof -
  obtain h seed where h: "1 \<le> h" "h \<le> kMaxHeight"
    and ins: "Insert cmp s key = link_levels x (insert_prev s A h) 0 h (with_node s key h seed)"
    using Insert_steps [of s A B cmp key, OF assms(1) assms(2) assms(3) assms(4)] unfolding x_def by blast
  let ?s = "with_node s key h seed" and ?p = "insert_prev s A h"
  have "?p ! j < length (sl_nodes ?s) \<and> j < height ?s (?p ! j) \<and> ?p ! j \<noteq> x" if "j < h" for j
    using insert_prev_bounds [OF assms(1) h(2) that] by (simp add: x_def)
  then obtain s' where s': "link_levels x ?p 0 h ?s = Some s'" "length (sl_nodes s') = Suc x"
      "max_height s' = max (max_height s) h" "\<forall>a. height s' a = height ?s a \<and> key_at s' a = key_at ?s a"
    and nxt': "\<forall>l a. nxt s' l a = (if 0 \<le> l \<and> l < 0 + h then ((nxt ?s l)(x := nxt ?s l (?p ! l), ?p ! l := Some x)) a else nxt ?s l a)"
    using link_levels_effect [of x ?s 0 h ?p] by (auto simp: x_def)
  have "linked s' (A @ x # B)"
    unfolding x_def
  proof (rule linked_insert [OF assms(1) h, where key = key and seed = seed])
    show "nxt s' l = (if l < h then (nxt ?s l)(length (sl_nodes s) := nxt ?s l (?p ! l), ?p ! l := Some (length (sl_nodes s)))
        else nxt ?s l)" for l
      using nxt' by (intro ext) (simp add: x_def)
  qed (use s' in \<open>simp_all add: x_def\<close>)
  then show thesis using that ins s' by (simp add: x_def)
qed

section \<open>The sorted sequence of a skip list\<close>

fun walk :: "'k SkipList \<Rightarrow> nat \<Rightarrow> nat option \<Rightarrow> nat list" where
  "walk s (Suc n) (Some a) = a # walk s n (nxt s 0 a)"
| "walk s n a = []"

text \<open>The addresses of the linked nodes, following the lowest level, and their keys.\<close>

definition sl_addrs :: "'k SkipList \<Rightarrow> nat list" where
  "sl_addrs s = walk s (length (sl_nodes s)) (nxt s 0 sl_head)"

definition sl_keys :: "'k SkipList \<Rightarrow> 'k list" where
  "sl_keys s = map (key_at s) (sl_addrs s)"

definition sl_inv :: "('k \<Rightarrow> 'k \<Rightarrow> int) \<Rightarrow> ('k \<Rightarrow> bool) \<Rightarrow> 'k SkipList \<Rightarrow> bool" where
  "sl_inv cmp valid s \<longleftrightarrow>
     linked s (sl_addrs s) \<and> list_all valid (sl_keys s) \<and> sorted_wrt (\<lambda>a b. cmp a b < 0) (sl_keys s)"

lemma walk_chain: "chain (nxt s 0) x as \<Longrightarrow> length as \<le> n \<Longrightarrow> walk s n (nxt s 0 x) = as"
proof (induction as arbitrary: x n)
  case Nil
  then show ?case by (cases n) auto
next
  case (Cons a as)
  then obtain m where "n = Suc m" by (cases n) auto
  with Cons show ?case by simp
qed

lemma sl_addrs_linked: "linked s ns \<Longrightarrow> sl_addrs s = ns"
proof -
  assume linked: "linked s ns"
  then have "chain (nxt s 0) sl_head (level_path s ns 0)" by (simp add: linked_def kMaxHeight_def)
  then have "chain (nxt s 0) sl_head ns" using level_path_0 [OF linked, of ns] by simp
  moreover have "length ns \<le> length (sl_nodes s)"
  proof -
    have "set ns \<subseteq> {..<length (sl_nodes s)}" using linked by (auto simp: linked_def)
    then have "card (set ns) \<le> length (sl_nodes s)" using card_mono [of "{..<length (sl_nodes s)}"] by simp
    then show ?thesis using linked by (simp add: linked_def distinct_card)
  qed
  ultimately show ?thesis unfolding sl_addrs_def by (rule walk_chain)
qed

lemma sorted_split:
  assumes "sorted_wrt (\<lambda>a b. cmp a b < (0 :: int)) xs" "\<And>a b c. a \<in> set xs \<Longrightarrow> b \<in> set xs \<Longrightarrow> cmp a b < 0 \<Longrightarrow> cmp b key < 0 \<Longrightarrow> cmp a key < 0"
  shows "takeWhile (\<lambda>a. cmp a key < 0) xs = filter (\<lambda>a. cmp a key < 0) xs"
    and "dropWhile (\<lambda>a. cmp a key < 0) xs = filter (\<lambda>a. \<not> cmp a key < 0) xs"
  using assms
proof (induction xs)
  case (Cons x xs)
  {
    case 1
    then have "\<not> cmp x key < 0 \<Longrightarrow> \<forall>a\<in>set xs. \<not> cmp a key < 0" by auto
    with 1 Cons(1) show ?case by (auto simp: filter_empty_conv)
  next
    case 2
    then have "\<not> cmp x key < 0 \<Longrightarrow> \<forall>a\<in>set xs. \<not> cmp a key < 0" by auto
    with 2 Cons(2) show ?case by auto
  }
qed simp_all

context comparator
begin

lemma sl_split:
  assumes "sl_inv compare valid s" "valid key"
  defines "A \<equiv> takeWhile (\<lambda>a. compare (key_at s a) key < 0) (sl_addrs s)"
    and "B \<equiv> dropWhile (\<lambda>a. compare (key_at s a) key < 0) (sl_addrs s)"
  shows "linked s (A @ B)" "a \<in> set A \<Longrightarrow> compare (key_at s a) key < 0" "b \<in> set B \<Longrightarrow> \<not> compare (key_at s b) key < 0"
    and "map (key_at s) A = filter (\<lambda>k. compare k key < 0) (sl_keys s)"
    and "map (key_at s) B = filter (\<lambda>k. \<not> compare k key < 0) (sl_keys s)"
proof -
  have keys: "sorted_wrt (\<lambda>a b. compare a b < 0) (sl_keys s)" "list_all valid (sl_keys s)"
    using assms(1) by (simp_all add: sl_inv_def)
  have lt: "compare a key < 0" if "a \<in> set (sl_keys s)" "b \<in> set (sl_keys s)" "compare a b < 0" "compare b key < 0" for a b
    using that keys(2) assms(2) by (auto simp: list_all_iff intro: less_trans)
  show "linked s (A @ B)" using assms(1) by (simp add: sl_inv_def A_def B_def)
  show "a \<in> set A \<Longrightarrow> compare (key_at s a) key < 0" unfolding A_def by (auto dest: set_takeWhileD)
  show A: "map (key_at s) A = filter (\<lambda>k. compare k key < 0) (sl_keys s)"
    using sorted_split(1) [OF keys(1) lt] by (simp add: A_def sl_keys_def takeWhile_map comp_def)
  show B: "map (key_at s) B = filter (\<lambda>k. \<not> compare k key < 0) (sl_keys s)"
    using sorted_split(2) [OF keys(1) lt] by (simp add: B_def sl_keys_def dropWhile_map comp_def)
  show "b \<in> set B \<Longrightarrow> \<not> compare (key_at s b) key < 0"
    using arg_cong [OF B, of set] by auto
qed

lemma no_equal:
  assumes "sl_inv compare valid s" "valid key" "\<forall>k\<in>set (sl_keys s). compare key k \<noteq> 0"
  shows "filter (\<lambda>k. \<not> compare k key < 0) (sl_keys s) = filter (\<lambda>k. compare key k < 0) (sl_keys s)"
proof (rule filter_cong [OF HOL.refl])
  fix k assume k: "k \<in> set (sl_keys s)"
  then have "valid k" using assms(1) by (auto simp: sl_inv_def list_all_iff)
  then show "\<not> compare k key < 0 \<longleftrightarrow> compare key k < 0"
    using not_less [of k key] assms(2,3) k by auto
qed

lemma Insert_correct:
  assumes "sl_inv compare valid s" "valid key" "\<forall>k\<in>set (sl_keys s). compare key k \<noteq> 0"
  obtains s' where "Insert compare s key = Some s'" "sl_inv compare valid s'"
    "sl_keys s' = filter (\<lambda>k. compare k key < 0) (sl_keys s) @ key # filter (\<lambda>k. compare key k < 0) (sl_keys s)"
proof -
  define A where "A = takeWhile (\<lambda>a. compare (key_at s a) key < 0) (sl_addrs s)"
  define B where "B = dropWhile (\<lambda>a. compare (key_at s a) key < 0) (sl_addrs s)"
  note split = sl_split [OF assms(1,2), folded A_def B_def]
  have "set (map (key_at s) B) \<subseteq> set (sl_keys s)" unfolding split(5) by auto
  then have "B = [] \<or> compare key (key_at s (hd B)) \<noteq> 0" using assms(3) by (cases B) auto
  then obtain s' where s': "Insert compare s key = Some s'" "linked s' (A @ length (sl_nodes s) # B)"
      "key_at s' (length (sl_nodes s)) = key" "\<forall>a<length (sl_nodes s). key_at s' a = key_at s a"
    using Insert_linked [of s A B compare key, OF split(1) split(2) split(3)] by blast
  have old: "map (key_at s') A = map (key_at s) A" "map (key_at s') B = map (key_at s) B"
    using s'(4) linked_nodes [OF split(1)] by auto
  have keys: "sl_keys s' = filter (\<lambda>k. compare k key < 0) (sl_keys s) @ key # filter (\<lambda>k. compare key k < 0) (sl_keys s)"
    unfolding sl_keys_def [of s'] sl_addrs_linked [OF s'(2)]
    by (simp only: map_append list.map old s'(3) split(4,5) no_equal [OF assms])
  moreover have valid: "list_all valid (sl_keys s)" "sorted_wrt (\<lambda>a b. compare a b < 0) (sl_keys s)"
    using assms(1) by (simp_all add: sl_inv_def)
  moreover have "compare a b < 0" if "a \<in> set (sl_keys s)" "compare a key < 0" "b \<in> set (sl_keys s)" "compare key b < 0" for a b
    using that valid(1) assms(2) less_trans [of a key b] by (simp add: list_all_iff)
  ultimately have "sl_inv compare valid s'"
    using s'(2) sl_addrs_linked [OF s'(2)] assms(2)
    by (auto simp: sl_inv_def list_all_iff sorted_wrt_append sorted_wrt_filter)
  then show thesis using that s'(1) keys by blast
qed

lemma equal_at_head:
  assumes "sl_inv compare valid s" "valid key"
  defines "B \<equiv> dropWhile (\<lambda>a. compare (key_at s a) key < 0) (sl_addrs s)"
  shows "(\<exists>k\<in>set (sl_keys s). compare key k = 0) \<longleftrightarrow> B \<noteq> [] \<and> compare key (key_at s (hd B)) = 0"
proof
  note B = sl_split(3,5) [OF assms(1,2), folded B_def]
  have v: "\<forall>k\<in>set (sl_keys s). valid k" and sorted: "sorted_wrt (\<lambda>a b. compare a b < 0) (sl_keys s)"
    using assms(1) by (auto simp: sl_inv_def list_all_iff)
  assume "\<exists>k\<in>set (sl_keys s). compare key k = 0"
  then obtain k where k: "k \<in> set (sl_keys s)" "compare key k = 0" by blast
  then have eq: "compare k key = 0" using v assms(2) eq_sym [of key k] by auto
  then have mem: "k \<in> set (map (key_at s) B)" using k(1) by (simp only: B(2)) simp
  then obtain b bs where cons: "B = b # bs" by (cases B) auto
  have "sorted_wrt (\<lambda>a b. compare a b < 0) (map (key_at s) B)" unfolding B(2) using sorted by (rule sorted_wrt_filter)
  then have "k = key_at s b \<or> compare (key_at s b) k < 0" using mem cons by auto
  moreover have "valid (key_at s b)" "\<not> compare (key_at s b) key < 0"
    using B(1) [of b] cons arg_cong [OF B(2), of set] v by auto
  ultimately have "k = key_at s b"
    using less_le_trans [of "key_at s b" k key] v k(1) assms(2) eq by auto
  then show "B \<noteq> [] \<and> compare key (key_at s (hd B)) = 0" using k(2) cons by simp
next
  assume "B \<noteq> [] \<and> compare key (key_at s (hd B)) = 0"
  moreover have "set B \<subseteq> set (sl_addrs s)" unfolding B_def by (auto dest: set_dropWhileD)
  ultimately show "\<exists>k\<in>set (sl_keys s). compare key k = 0"
    unfolding sl_keys_def by (metis hd_in_set image_eqI list.set_map subsetD)
qed

lemma fge_split:
  assumes "sl_inv compare valid s" "valid key"
  shows "FindGreaterOrEqual compare s key prev =
    Some (hd_opt (dropWhile (\<lambda>a. compare (key_at s a) key < 0) (sl_addrs s)),
      map_option (found_prev s (takeWhile (\<lambda>a. compare (key_at s a) key < 0) (sl_addrs s)) (max_height s - 1)) prev)"
proof (rule fge_found [OF sl_split(1) [OF assms]])
  fix a assume "a \<in> set (takeWhile (\<lambda>a. compare (key_at s a) key < 0) (sl_addrs s))"
  then show "compare (key_at s a) key < 0" by (rule sl_split(2) [OF assms])
next
  fix b assume "b \<in> set (dropWhile (\<lambda>a. compare (key_at s a) key < 0) (sl_addrs s))"
  then show "\<not> compare (key_at s b) key < 0" by (rule sl_split(3) [OF assms])
qed

lemma Insert_duplicate:
  assumes "sl_inv compare valid s" "valid key" "k \<in> set (sl_keys s)" "compare key k = 0"
  shows "Insert compare s key = None"
proof -
  let ?B = "dropWhile (\<lambda>a. compare (key_at s a) key < 0) (sl_addrs s)"
  have "?B \<noteq> [] \<and> compare key (key_at s (hd ?B)) = 0" using equal_at_head [OF assms(1,2)] assms(3,4) by blast
  then obtain b bs where "?B = b # bs" "compare key (key_at s b) = 0" by (cases ?B) auto
  then show ?thesis using fge_split [OF assms(1,2)] by (simp add: Insert_def)
qed

lemma Contains_correct:
  assumes "sl_inv compare valid s" "valid key"
  shows "Contains compare s key = Some (\<exists>k\<in>set (sl_keys s). compare key k = 0)"
  unfolding equal_at_head [OF assms] using fge_split [OF assms, of None]
  by (cases "dropWhile (\<lambda>a. compare (key_at s a) key < 0) (sl_addrs s)") (simp_all add: Contains_def)

lemma Seek_correct:
  assumes "sl_inv compare valid s" "valid key"
  shows "FindGreaterOrEqual compare s key None =
    Some (hd_opt (drop (length (filter (\<lambda>k. compare k key < 0) (sl_keys s))) (sl_addrs s)), None)"
proof -
  define A where "A = takeWhile (\<lambda>a. compare (key_at s a) key < 0) (sl_addrs s)"
  define B where "B = dropWhile (\<lambda>a. compare (key_at s a) key < 0) (sl_addrs s)"
  note split = sl_split [OF assms, folded A_def B_def]
  have "sl_addrs s = A @ B" by (simp add: A_def B_def)
  moreover have "length A = length (filter (\<lambda>k. compare k key < 0) (sl_keys s))"
    using arg_cong [OF split(4), of length] by simp
  ultimately have "drop (length (filter (\<lambda>k. compare k key < 0) (sl_keys s))) (sl_addrs s) = B" by simp
  then show ?thesis using fge_found [of s A B compare key None, OF split(1) split(2) split(3)] by simp
qed

lemma Prev_correct:
  assumes "sl_inv compare valid s" "i < length (sl_addrs s)"
  shows "Iterator_Prev compare s (Some (sl_addrs s ! i)) = Some (if i = 0 then None else Some (sl_addrs s ! (i - 1)))"
proof -
  let ?k = "key_at s (sl_addrs s ! i)" and ?A = "take i (sl_addrs s)" and ?B = "drop i (sl_addrs s)"
  have v: "list_all valid (sl_keys s)" and sorted: "sorted_wrt (\<lambda>a b. compare a b < 0) (sl_keys s)"
    and linked: "linked s (sl_addrs s)"
    using assms(1) by (simp_all add: sl_inv_def)
  have key: "valid (key_at s (sl_addrs s ! j))" if "j < length (sl_addrs s)" for j
    using v that by (simp add: sl_keys_def list_all_length)
  have less: "compare (key_at s (sl_addrs s ! j)) (key_at s (sl_addrs s ! l)) < 0" if "j < l" "l < length (sl_addrs s)" for j l
    using sorted that by (simp add: sl_keys_def sorted_wrt_iff_nth_less)
  have "compare (key_at s a) ?k < 0" if "a \<in> set ?A" for a
    using that assms(2) less by (auto simp: in_set_conv_nth)
  moreover have "\<not> compare (key_at s b) ?k < 0" if "b \<in> set ?B" for b
  proof -
    from that obtain j where j: "b = sl_addrs s ! (i + j)" "i + j < length (sl_addrs s)" by (auto simp: in_set_conv_nth)
    show ?thesis using less [of i "i + j"] j key [of i] key [of "i + j"] assms(2) not_less by (cases j) auto
  qed
  ultimately have "FindLessThan compare s ?k = Some (last (sl_head # ?A))"
    using linked by (intro flt_found [where B = ?B]) auto
  moreover have "sl_addrs s ! (i - 1) \<noteq> sl_head"
  proof -
    have "sl_addrs s ! (i - 1) \<in> set (sl_addrs s)" using assms(2) by (intro nth_mem) simp
    then show ?thesis using linked by (auto simp: linked_def)
  qed
  moreover have "0 < i \<Longrightarrow> last ?A = sl_addrs s ! (i - 1)" using assms(2) by (subst last_conv_nth) auto
  ultimately show ?thesis using assms(2) by (cases i) (auto simp: Iterator_Prev_def)
qed

end

section \<open>Properties of the skip list\<close>

lemma chain_nth: "chain f x as \<Longrightarrow> i < length as \<Longrightarrow> f (as ! i) = (if Suc i < length as then Some (as ! Suc i) else None)"
proof (induction as arbitrary: x i)
  case (Cons a as)
  then show ?case by (cases i; cases as) auto
qed simp

lemma Iterator_Next_correct:
  assumes "linked s ns" "i < length ns"
  shows "Iterator_Next s (Some (ns ! i)) = Some (if Suc i < length ns then Some (ns ! Suc i) else None)"
proof -
  have "chain (nxt s 0) sl_head (level_path s ns 0)" using assms(1) by (simp add: linked_def kMaxHeight_def)
  then have "chain (nxt s 0) sl_head ns" using level_path_0 [OF assms(1), of ns] by simp
  then have "nxt s 0 (ns ! i) = (if Suc i < length ns then Some (ns ! Suc i) else None)"
    using assms(2) by (rule chain_nth)
  then show ?thesis
    using linked_nodes [OF assms(1), of "ns ! i"] assms(2) by (simp add: Iterator_Next_def Node_Next_nxt)
qed

lemma SkipList_new_linked: "linked (SkipList_new any) []"
  by (simp add: linked_def SkipList_new_def kMaxHeight_def sl_head_def height_def level_path_def nxt_def)

lemma SkipList_new_inv: "sl_inv cmp valid (SkipList_new any)" "sl_keys (SkipList_new any) = []"
  using sl_addrs_linked [OF SkipList_new_linked, of any]
  by (simp_all add: sl_inv_def sl_keys_def SkipList_new_linked)

text \<open>
  What the memtable relies on: a table is a sorted sequence of keys, insertion puts a new key in
  its place, and a search finds the first key that is not smaller.
\<close>

locale sorted_table = comparator compare valid
  for compare :: "'k \<Rightarrow> 'k \<Rightarrow> int" and valid +
  fixes create :: "'k \<Rightarrow> 't"
    and inv :: "'t \<Rightarrow> bool"
    and keys :: "'t \<Rightarrow> 'k list"
    and insert :: "'t \<Rightarrow> 'k \<Rightarrow> 't option"
    and seek :: "'t \<Rightarrow> 'k \<Rightarrow> 'k option option"
  assumes create: "inv (create any)" "keys (create any) = []"
    and sorted: "inv t \<Longrightarrow> sorted_wrt (\<lambda>a b. compare a b < 0) (keys t)"
    and valid_keys: "inv t \<Longrightarrow> list_all valid (keys t)"
    and insert: "inv t \<Longrightarrow> valid k \<Longrightarrow> \<forall>x\<in>set (keys t). compare k x \<noteq> 0 \<Longrightarrow>
      \<exists>t'. insert t k = Some t' \<and> inv t' \<and>
        keys t' = filter (\<lambda>x. compare x k < 0) (keys t) @ k # filter (\<lambda>x. compare k x < 0) (keys t)"
    and seek: "inv t \<Longrightarrow> valid k \<Longrightarrow> seek t k = Some (hd_opt (filter (\<lambda>x. \<not> compare x k < 0) (keys t)))"

text \<open>The key an iterator is at after \<open>Seek\<close>.\<close>

definition seek_key :: "('k \<Rightarrow> 'k \<Rightarrow> int) \<Rightarrow> 'k SkipList \<Rightarrow> 'k \<Rightarrow> 'k option option" where
  "seek_key cmp s target = map_option (Iterator_key s) (Iterator_Seek cmp s target)"

context comparator
begin

lemma seek_key_correct:
  assumes "sl_inv compare valid s" "valid key"
  shows "seek_key compare s key = Some (hd_opt (filter (\<lambda>k. \<not> compare k key < 0) (sl_keys s)))"
proof -
  have "map_option (key_at s) (hd_opt as) = hd_opt (map (key_at s) as)" for as by (cases as) auto
  then show ?thesis
    using fge_split [OF assms, of None] sl_split(5) [OF assms]
    by (simp add: seek_key_def Iterator_Seek_def Iterator_key_def)
qed

lemma skip_list_table:
  "sorted_table compare valid SkipList_new (sl_inv compare valid) sl_keys (Insert compare) (seek_key compare)"
proof (unfold_locales, goal_cases)
  case (5 t k)
  then show ?case using Insert_correct [of t k] by blast
qed (simp_all add: SkipList_new_inv seek_key_correct, simp_all add: sl_inv_def)

end

interpretation skip_list: sorted_table BytewiseCompare "\<lambda>_. True" SkipList_new
    "sl_inv BytewiseCompare (\<lambda>_. True)" sl_keys "Insert BytewiseCompare" "seek_key BytewiseCompare"
  by (rule bytewise.skip_list_table)

text \<open>
  C23: \<open>Insert\<close> on a well-formed skip list with any comparator: if no key compares equal, it returns
  (without leaving a node's array), the list is well-formed again and its sequence of keys is the
  old one with the key at its place; otherwise the assertion against duplicates fails.  The empty
  list is well-formed.
\<close>

theorem skip_list_insert:
  assumes "comparator cmp valid" "sl_inv cmp valid s" "valid key"
  shows "(if \<forall>k\<in>set (sl_keys s). cmp key k \<noteq> 0
      then \<exists>s'. Insert cmp s key = Some s' \<and> sl_inv cmp valid s' \<and>
        sl_keys s' = filter (\<lambda>k. cmp k key < 0) (sl_keys s) @ key # filter (\<lambda>k. cmp key k < 0) (sl_keys s)
      else Insert cmp s key = None) \<and>
    sl_inv cmp valid (SkipList_new any) \<and> sl_keys (SkipList_new any) = []"
proof (cases "\<forall>k\<in>set (sl_keys s). cmp key k \<noteq> 0")
  case True
  then obtain s' where "Insert cmp s key = Some s'" "sl_inv cmp valid s'"
      "sl_keys s' = filter (\<lambda>k. cmp k key < 0) (sl_keys s) @ key # filter (\<lambda>k. cmp key k < 0) (sl_keys s)"
    by (rule comparator.Insert_correct [OF assms])
  with True show ?thesis by (simp add: SkipList_new_inv)
next
  case False
  then obtain k where "k \<in> set (sl_keys s)" "cmp key k = 0" by blast
  then have "Insert cmp s key = None" by (rule comparator.Insert_duplicate [OF assms])
  with False show ?thesis by (simp add: SkipList_new_inv)
qed

lemma sample_list: "sl_inv BytewiseCompare (\<lambda>_. True) (SkipList_new [])" "sl_keys (SkipList_new [] :: slice SkipList) = []"
  by (rule SkipList_new_inv)+

theorem skip_list_insert_witness:
  "(if \<forall>k\<in>set (sl_keys (SkipList_new [])). BytewiseCompare [5] k \<noteq> 0
      then \<exists>s'. Insert BytewiseCompare (SkipList_new []) [5] = Some s' \<and> sl_inv BytewiseCompare (\<lambda>_. True) s' \<and>
        sl_keys s' = filter (\<lambda>k. BytewiseCompare k [5] < 0) (sl_keys (SkipList_new [])) @ [5] #
          filter (\<lambda>k. BytewiseCompare [5] k < 0) (sl_keys (SkipList_new []))
      else Insert BytewiseCompare (SkipList_new []) [5] = None) \<and>
    sl_inv BytewiseCompare (\<lambda>_. True) (SkipList_new []) \<and> sl_keys (SkipList_new [] :: slice SkipList) = []"
  by (rule skip_list_insert [OF bytewise.comparator_axioms]) (simp_all add: sample_list)

text \<open>
  C27: Reading a well-formed skip list follows its sorted sequence: \<open>Contains\<close> decides membership,
  \<open>SeekToFirst\<close>, \<open>SeekToLast\<close> and \<open>Seek\<close> position at the first node, the last node and the first node
  whose key is not smaller, and \<open>Next\<close> and \<open>Prev\<close> move by one.  All searches end.
\<close>

theorem skip_list_iterate:
  assumes "comparator cmp valid" "sl_inv cmp valid s" "valid key" "i < length (sl_addrs s)"
  shows "Contains cmp s key = Some (\<exists>k\<in>set (sl_keys s). cmp key k = 0) \<and>
    Iterator_SeekToFirst s = Some (hd_opt (sl_addrs s)) \<and>
    Iterator_SeekToLast s = Some (hd_opt (rev (sl_addrs s))) \<and>
    Iterator_Seek cmp s key = Some (hd_opt (drop (length (filter (\<lambda>k. cmp k key < 0) (sl_keys s))) (sl_addrs s))) \<and>
    Iterator_Next s (Some (sl_addrs s ! i)) =
      Some (if Suc i < length (sl_addrs s) then Some (sl_addrs s ! Suc i) else None) \<and>
    Iterator_Prev cmp s (Some (sl_addrs s ! i)) = Some (if i = 0 then None else Some (sl_addrs s ! (i - 1)))"
proof -
  have linked: "linked s (sl_addrs s)" using assms(2) by (simp add: sl_inv_def)
  have "Iterator_SeekToFirst s = Some (hd_opt (sl_addrs s))"
    using next_in_path [of s "sl_addrs s" "[]" 0 sl_head "sl_addrs s"] level_path_0 [OF linked, of "sl_addrs s"]
      level_path_0 [OF linked, of "[]"] linked
    by (simp add: Iterator_SeekToFirst_def kMaxHeight_def)
  moreover have "Iterator_SeekToLast s = Some (hd_opt (rev (sl_addrs s)))"
    using last_found [OF linked] linked
    by (cases "sl_addrs s" rule: rev_cases) (auto simp: Iterator_SeekToLast_def linked_def)
  ultimately show ?thesis
    using comparator.Contains_correct [OF assms(1-3)] comparator.Seek_correct [OF assms(1-3)]
      comparator.Prev_correct [OF assms(1,2,4)] Iterator_Next_correct [OF linked assms(4)]
    by (simp add: Iterator_Seek_def)
qed

lemma sample_list_one: "\<exists>s. sl_inv BytewiseCompare (\<lambda>_. True) s \<and> sl_keys s = [[5]]"
proof -
  have "\<exists>s. Insert BytewiseCompare (SkipList_new []) [5] = Some s \<and> sl_inv BytewiseCompare (\<lambda>_. True) s \<and>
    sl_keys s = filter (\<lambda>k. BytewiseCompare k [5] < 0) (sl_keys (SkipList_new [])) @ [5] #
      filter (\<lambda>k. BytewiseCompare [5] k < 0) (sl_keys (SkipList_new []))"
    by (rule skip_list.insert [OF sample_list(1)]) (simp_all add: sample_list(2))
  then show ?thesis using sample_list(2) by auto
qed

theorem skip_list_iterate_witness:
  "\<exists>s. sl_keys s = [[5]] \<and> Contains BytewiseCompare s [7] = Some (\<exists>k\<in>set (sl_keys s). BytewiseCompare [7] k = 0) \<and>
    Iterator_Prev BytewiseCompare s (Some (sl_addrs s ! 0)) = Some (if 0 = (0 :: nat) then None else Some (sl_addrs s ! (0 - 1)))"
proof -
  obtain s where s: "sl_inv BytewiseCompare (\<lambda>_. True) s" "sl_keys s = [[5]]" using sample_list_one by blast
  then have "0 < length (sl_addrs s)" by (auto simp: sl_keys_def)
  from skip_list_iterate [OF bytewise.comparator_axioms s(1) TrueI this, of "[7]"] s(2) show ?thesis by blast
qed

section \<open>Properties of the random number generator\<close>

lemma mod_mersenne:
  fixes P :: nat
  assumes "P mod M \<noteq> 0" "q + r < 2 * M" "P = q * M + (q + r)"
  shows "(if q + r > M then q + r - M else q + r) = P mod M"
proof -
  have "P mod M = (q + r) mod M" using assms(3) by simp
  moreover have "q + r \<noteq> M" using assms(1) calculation by auto
  ultimately show ?thesis using assms(2) by (auto simp: mod_if)
qed

lemma seed_product_mod:
  assumes "0 < n" "n < (2147483647 :: nat)"
  shows "n * 16807 mod 2147483647 \<noteq> 0"
proof
  assume "n * 16807 mod 2147483647 = 0"
  then have "2147483647 dvd n * 16807" by (simp add: dvd_eq_mod_eq_0)
  moreover have "coprime (2147483647 :: nat) 16807" by (simp add: coprime_iff_gcd_eq_1 gcd_non_0_nat)
  ultimately have "2147483647 dvd n" by (simp add: coprime_dvd_mult_left_iff)
  with assms show False by (auto dest: dvd_imp_le)
qed

lemma Random_Next_mod:
  assumes "0 < seed" "seed < 2147483647"
  shows "unat (Random_Next seed) = unat seed * 16807 mod 2147483647"
proof -
  define P where "P = unat seed * 16807"
  define q where "q = P div 2 ^ 31"
  define r where "r = P mod 2 ^ 31"
  have n: "0 < unat seed" "unat seed < 2147483647" using assms by (simp_all add: word_less_nat_alt)
  have bounds: "q < 2 ^ 15" "r < 2 ^ 31" using n by (simp_all add: q_def r_def P_def div_less_iff_less_mult)
  have P: "P = q * 2147483647 + (q + r)"
    using div_mult_mod_eq [of P "2 ^ 31"] by (simp add: q_def r_def)
  let ?prod = "ucast seed * 16807 :: u64"
  have prod: "unat ?prod = P" using n by (simp add: unat_word_ariths P_def)
  have mask: "?prod AND ucast (2147483647 :: u32) = take_bit 31 ?prod"
    by (simp add: take_bit_eq_mask mask_eq_exp_minus_1)
  have "unat (drop_bit 31 ?prod + (?prod AND ucast (2147483647 :: u32))) = q + r"
    unfolding mask using bounds prod
    by (simp add: unat_word_ariths unat_drop_bit_div unsigned_take_bit_eq take_bit_eq_mod q_def r_def)
  then have "unat (ucast (drop_bit 31 ?prod + (?prod AND ucast (2147483647 :: u32))) :: u32) = q + r"
    using bounds by (simp add: unsigned_ucast_eq take_bit_nat_eq_self)
  then have "unat (Random_Next seed) = (if q + r > 2147483647 then q + r - 2147483647 else q + r)"
    by (simp add: Random_Next_def Let_def word_less_nat_alt unat_sub word_le_nat_alt)
  also have "\<dots> = P mod 2147483647"
    using seed_product_mod [OF n] bounds P by (intro mod_mersenne) (simp_all add: P_def)
  finally show ?thesis by (simp add: P_def)
qed

text \<open>
  \<open>Random::Next\<close> computes the next seed modulo 2 to the 31 minus 1 without a division, as its comment
  says, and never reaches the bad seeds 0 and 2147483647; the constructor never starts with one.
  The heights the skip list draws from it are between 1 and \<open>kMaxHeight\<close>.
\<close>

theorem Random_Next_correct:
  assumes "0 < seed" "seed < 2147483647"
  shows "unat (Random_Next seed) = unat seed * 16807 mod 2147483647 \<and>
    0 < Random_Next seed \<and> Random_Next seed < 2147483647 \<and>
    0 < Random_new v \<and> Random_new v < 2147483647 \<and>
    1 \<le> fst (RandomHeight s) \<and> fst (RandomHeight s) \<le> kMaxHeight"
proof -
  have n: "0 < unat seed" "unat seed < 2147483647" using assms by (simp_all add: word_less_nat_alt)
  have seed': "0 < Random_Next seed" "Random_Next seed < 2147483647"
    using Random_Next_mod [OF assms] seed_product_mod [OF n] by (simp_all add: word_less_nat_alt)
  define w where "w = v AND 0x7FFFFFFF"
  have "w \<le> 2147483647" unfolding w_def using word_and_le1 [of v "0x7FFFFFFF"] by simp
  then have "w \<noteq> 2147483647 \<Longrightarrow> w < 2147483647" by (simp add: order_le_less)
  moreover have "w \<noteq> 0 \<Longrightarrow> 0 < w" by (simp add: word_neq_0_conv)
  moreover have "Random_new v = (if w = 0 \<or> w = 2147483647 then 1 else w)" by (simp add: Random_new_def w_def Let_def)
  ultimately have "0 < Random_new v" "Random_new v < 2147483647" by (simp_all split: if_splits)
  with Random_Next_mod [OF assms] seed' show ?thesis
    using RandomHeight_loop_range [of 1 "sl_rnd s"] by (simp add: RandomHeight_def kMaxHeight_def case_prod_unfold Let_def)
qed

theorem Random_Next_correct_witness:
  "unat (Random_Next 12345) = unat (12345 :: u32) * 16807 mod 2147483647 \<and>
    0 < Random_Next 12345 \<and> Random_Next 12345 < 2147483647 \<and>
    0 < Random_new 0 \<and> Random_new 0 < 2147483647 \<and>
    1 \<le> fst (RandomHeight (SkipList_new [7 :: u8])) \<and> fst (RandomHeight (SkipList_new [7 :: u8])) \<le> kMaxHeight"
  by (rule Random_Next_correct) simp_all

end
