(* ===== verification/LdbMemTable.thy ===== *)
theory LdbMemTable
  imports LdbKeys LdbSkipList
begin

unbundle bit_operations_syntax

text \<open>
  The memtable (\<open>db/memtable.h\<close>, \<open>db/memtable.cc\<close>): a skip list of entries, each a length-prefixed
  internal key followed by a length-prefixed value.  The skip list stores pointers to entries;
  here an entry is the list of the bytes from that pointer on.

  The specification is the history of the operations added to the table: \<open>Get\<close> at a sequence
  number returns what the last operation on the key up to that number did.
\<close>

section \<open>Entries\<close>

text \<open>
  \<open>GetLengthPrefixedSlice(data)\<close>: the varint is read from at most five bytes; the result is the
  string behind it and what follows the string.  \<open>None\<close> stands for the null pointer a malformed
  varint would give.
\<close>

definition GetLengthPrefixedSlice_data :: "slice \<Rightarrow> (slice \<times> slice) option" where
  "GetLengthPrefixedSlice_data data =
     (case GetVarint32Ptr (take 5 data) of
        None \<Rightarrow> None
      | Some (len, q) \<Rightarrow>
          let p = drop (length (take 5 data) - length q) data
          in Some (take (unat len) p, drop (unat len) p))"

definition EncodeKey :: "slice \<Rightarrow> slice" where
  "EncodeKey target = PutVarint32 (of_nat (length target)) [] @ target"

definition entry_key :: "slice \<Rightarrow> slice" where
  "entry_key data = fst (the (GetLengthPrefixedSlice_data data))"

definition KeyComparator :: "(slice \<Rightarrow> slice \<Rightarrow> int) \<Rightarrow> slice \<Rightarrow> slice \<Rightarrow> int" where
  "KeyComparator ucmp aptr bptr = InternalKeyCompare ucmp (entry_key aptr) (entry_key bptr)"

section \<open>The memtable\<close>

record MemTable =
  mt_refs :: int
  mt_table :: "slice SkipList"

definition MemTable_new :: MemTable where
  "MemTable_new = \<lparr>mt_refs = 0, mt_table = SkipList_new []\<rparr>"

definition MemTable_Ref :: "MemTable \<Rightarrow> MemTable" where
  "MemTable_Ref m = m\<lparr>mt_refs := mt_refs m + 1\<rparr>"

text \<open>\<open>Unref\<close>: \<open>Some None\<close> once the table has been deleted, \<open>None\<close> where the assertion fails.\<close>

definition MemTable_Unref :: "MemTable \<Rightarrow> MemTable option option" where
  "MemTable_Unref m =
     (let refs = mt_refs m - 1 in
      if refs < 0 then None else if refs \<le> 0 then Some None else Some (Some (m\<lparr>mt_refs := refs\<rparr>)))"

definition mem_entry :: "u64 \<Rightarrow> u8 \<Rightarrow> slice \<Rightarrow> slice \<Rightarrow> slice" where
  "mem_entry s type key value =
     (let key_size = length key; val_size = length value; internal_key_size = key_size + 8
      in EncodeVarint32 (of_nat internal_key_size) @ key @ EncodeFixed64 (push_bit 8 s OR ucast type) @
         EncodeVarint32 (of_nat val_size) @ value)"

definition encoded_len :: "slice \<Rightarrow> slice \<Rightarrow> nat" where
  "encoded_len key value =
     (let internal_key_size = length key + 8
      in VarintLength (of_nat internal_key_size) + internal_key_size + VarintLength (of_nat (length value)) + length value)"

text \<open>\<open>Add\<close>; \<open>None\<close> where an assertion fails (the entry's length, a duplicate in the skip list).\<close>

definition MemTable_Add ::
    "(slice \<Rightarrow> slice \<Rightarrow> int) \<Rightarrow> u64 \<Rightarrow> u8 \<Rightarrow> slice \<Rightarrow> slice \<Rightarrow> MemTable \<Rightarrow> MemTable option" where
  "MemTable_Add ucmp s type key value m =
     (let buf = mem_entry s type key value in
      if length buf \<noteq> encoded_len key value then None
      else map_option (\<lambda>t. m\<lparr>mt_table := t\<rparr>) (Insert (KeyComparator ucmp) (mt_table m) buf))"

datatype get_result = GetValue slice | GetDeleted status | GetMiss

text \<open>What \<open>Get\<close> makes of the entry the iterator is at.\<close>

definition Get_entry :: "(slice \<Rightarrow> slice \<Rightarrow> int) \<Rightarrow> slice \<Rightarrow> slice \<Rightarrow> get_result option" where
  "Get_entry ucmp user_key entry =
     (case GetVarint32Ptr (take 5 entry) of
        None \<Rightarrow> None
      | Some (key_length, q) \<Rightarrow>
          let key_ptr = drop (length (take 5 entry) - length q) entry in
          if ucmp (take (unat (key_length - 8)) key_ptr) user_key = 0 then
            (case DecodeFixed64 (drop (unat (key_length - 8)) key_ptr) of
               None \<Rightarrow> None
             | Some tag \<Rightarrow>
                 if tag AND 0xFF = ucast kTypeValue then
                   (case GetLengthPrefixedSlice_data (drop (unat key_length) key_ptr) of
                      None \<Rightarrow> None | Some (v, _) \<Rightarrow> Some (GetValue v))
                 else if tag AND 0xFF = ucast kTypeDeletion then Some (GetDeleted (NotFound [] []))
                 else Some GetMiss)
          else Some GetMiss)"

definition MemTable_Get :: "(slice \<Rightarrow> slice \<Rightarrow> int) \<Rightarrow> LookupKey \<Rightarrow> MemTable \<Rightarrow> get_result option" where
  "MemTable_Get ucmp key m =
     (case Iterator_Seek (KeyComparator ucmp) (mt_table m) (memtable_key key) of
        None \<Rightarrow> None
      | Some iter \<Rightarrow>
          (case Iterator_key (mt_table m) iter of
             None \<Rightarrow> Some GetMiss
           | Some entry \<Rightarrow> Get_entry ucmp (lookup_user_key key) entry))"

section \<open>The iterator of the memtable\<close>

definition MemTableIterator_Seek :: "(slice \<Rightarrow> slice \<Rightarrow> int) \<Rightarrow> MemTable \<Rightarrow> slice \<Rightarrow> sl_iter option" where
  "MemTableIterator_Seek ucmp m k = Iterator_Seek (KeyComparator ucmp) (mt_table m) (EncodeKey k)"

definition MemTableIterator_SeekToFirst :: "MemTable \<Rightarrow> sl_iter option" where
  "MemTableIterator_SeekToFirst m = Iterator_SeekToFirst (mt_table m)"

definition MemTableIterator_SeekToLast :: "MemTable \<Rightarrow> sl_iter option" where
  "MemTableIterator_SeekToLast m = Iterator_SeekToLast (mt_table m)"

definition MemTableIterator_Next :: "MemTable \<Rightarrow> sl_iter \<Rightarrow> sl_iter option" where
  "MemTableIterator_Next m it = Iterator_Next (mt_table m) it"

definition MemTableIterator_Prev :: "(slice \<Rightarrow> slice \<Rightarrow> int) \<Rightarrow> MemTable \<Rightarrow> sl_iter \<Rightarrow> sl_iter option" where
  "MemTableIterator_Prev ucmp m it = Iterator_Prev (KeyComparator ucmp) (mt_table m) it"

definition MemTableIterator_key :: "MemTable \<Rightarrow> sl_iter \<Rightarrow> slice option" where
  "MemTableIterator_key m it =
     (case Iterator_key (mt_table m) it of None \<Rightarrow> None | Some e \<Rightarrow> map_option fst (GetLengthPrefixedSlice_data e))"

definition MemTableIterator_value :: "MemTable \<Rightarrow> sl_iter \<Rightarrow> slice option" where
  "MemTableIterator_value m it =
     (case Iterator_key (mt_table m) it of
        None \<Rightarrow> None
      | Some e \<Rightarrow>
          (case GetLengthPrefixedSlice_data e of
             None \<Rightarrow> None
           | Some (key_slice, rest) \<Rightarrow> map_option fst (GetLengthPrefixedSlice_data rest)))"

section \<open>Encoding and decoding entries\<close>

lemma GetVarint32Ptr_eq: "GetVarint32Ptr bs = GetVarint32 bs"
  by (simp add: GetVarint32_def)

lemma take5_varint: "take 5 (varint_bytes (ucast (v :: u32)) @ rest) =
    varint_bytes (ucast v) @ take (5 - length (varint_bytes (ucast v))) rest"
proof -
  have "length (varint_bytes (ucast v)) \<le> 5" using unat_u32 [of v] by (intro length_varint_bytes) auto
  then show ?thesis by simp
qed

lemma varint_entry:
  "GetVarint32Ptr (take 5 (EncodeVarint32 v @ rest)) = Some (v, take (5 - length (EncodeVarint32 v)) rest)"
  "drop (length (take 5 (EncodeVarint32 v @ rest)) - length (take (5 - length (EncodeVarint32 v)) rest)) (EncodeVarint32 v @ rest) = rest"
  by (simp_all only: EncodeVarint32_eq take5_varint GetVarint32Ptr_eq GetVarint32_bytes length_append) simp_all

lemma length_prefixed_data:
  assumes "length a < 2 ^ 32"
  shows "GetLengthPrefixedSlice_data (PutLengthPrefixedSlice a [] @ rest) = Some (a, rest)"
proof -
  have "unat (of_nat (length a) :: u32) = length a" using assms by (simp add: unat_of_nat take_bit_nat_eq_self)
  moreover have "PutLengthPrefixedSlice a [] @ rest = EncodeVarint32 (of_nat (length a)) @ a @ rest"
    by (simp add: PutLengthPrefixedSlice_def PutVarint32_def)
  ultimately show ?thesis
    by (simp only: GetLengthPrefixedSlice_data_def varint_entry Let_def option.case prod.case) simp
qed

text \<open>An operation added to the table: sequence number, type, key and value.\<close>

type_synonym mem_op = "u64 \<times> u8 \<times> slice \<times> slice"

fun op_seq :: "mem_op \<Rightarrow> u64" where
  "op_seq (s, t, k, v) = s"

fun op_key :: "mem_op \<Rightarrow> slice" where
  "op_key (s, t, k, v) = k"

fun op_ikey :: "mem_op \<Rightarrow> slice" where
  "op_ikey (s, t, k, v) = InternalKey_new k s t"

fun op_entry :: "mem_op \<Rightarrow> slice" where
  "op_entry (s, t, k, v) = mem_entry s t k v"

fun op_ok :: "mem_op \<Rightarrow> bool" where
  "op_ok (s, t, k, v) \<longleftrightarrow> s \<le> kMaxSequenceNumber \<and> t \<le> kTypeValue \<and> length k + 8 < 2 ^ 32 \<and> length v < 2 ^ 32"

lemma mem_entry_layout:
  "mem_entry s t k v = PutLengthPrefixedSlice (InternalKey_new k s t) [] @ PutLengthPrefixedSlice v []"
  by (simp add: mem_entry_def Let_def PutLengthPrefixedSlice_def PutVarint32_def InternalKey_new_def AppendInternalKey_def
      PutFixed64_def PackSequenceAndType_def EncodeFixed64_def)

lemma entry_key_put: "length ik < 2 ^ 32 \<Longrightarrow> entry_key (PutLengthPrefixedSlice ik [] @ rest) = ik"
  by (simp add: entry_key_def length_prefixed_data)

lemma entry_key_op: "op_ok p \<Longrightarrow> entry_key (op_entry p) = op_ikey p"
  by (cases p) (simp add: mem_entry_layout entry_key_put)

lemma VarintLength_32: "n < 2 ^ 32 \<Longrightarrow> VarintLength (of_nat n) = length (EncodeVarint32 (of_nat n))"
proof -
  assume "n < 2 ^ 32"
  then have "(ucast (of_nat n :: u32) :: u64) = of_nat n"
    by (intro word_unat_eq_iff [THEN iffD2]) (simp add: unsigned_ucast_eq unat_of_nat take_bit_nat_eq_self)
  then show ?thesis by (simp add: EncodeVarint32_eq VarintLength_eq)
qed

text \<open>The length computed before the entry is allocated is the length of the entry.\<close>

lemma encoded_len_exact: "op_ok (s, t, k, v) \<Longrightarrow> length (mem_entry s t k v) = encoded_len k v"
  using VarintLength_32 [of "length k + 8"] VarintLength_32 [of "length v"]
  by (simp add: mem_entry_def encoded_len_def Let_def EncodeFixed64_def)

section \<open>The order of entries\<close>

definition valid_entry :: "(slice \<Rightarrow> bool) \<Rightarrow> slice \<Rightarrow> bool" where
  "valid_entry uvalid e \<longleftrightarrow> valid_ikey uvalid (entry_key e)"

context user_comparator
begin

lemma entry_comparator: "comparator (KeyComparator compare) (valid_entry valid)"
proof -
  note ik = key_comparator.axioms(1) [OF internal_key_comparator]
  show ?thesis
    by unfold_locales
       (auto simp: KeyComparator_def valid_entry_def intro: comparator.flip [OF ik] comparator.le_trans [OF ik])
qed

end

section \<open>Lookup in one entry\<close>

definition op_result :: "mem_op \<Rightarrow> get_result" where
  "op_result p = (case p of (s, t, k, v) \<Rightarrow> if t = kTypeValue then GetValue v else GetDeleted (NotFound [] []))"

lemma type_byte:
  assumes "s \<le> kMaxSequenceNumber"
  shows "PackSequenceAndType s t AND 0xFF = ucast c \<longleftrightarrow> t = c"
proof
  assume "PackSequenceAndType s t AND 0xFF = ucast c"
  then have "(ucast (PackSequenceAndType s t AND 0xFF) :: u8) = ucast (ucast c :: u64)" by simp
  also have "(ucast (ucast c :: u64) :: u8) = c" by (rule bit_word_eqI) (auto simp: bit_simps)
  finally show "t = c" using unpack(2) [OF assms, of t] by simp
next
  assume "t = c"
  have "PackSequenceAndType s c AND 0xFF = take_bit 8 (PackSequenceAndType s c)"
    by (simp add: take_bit_eq_mask mask_eq_exp_minus_1)
  also have "\<dots> = ucast c" by (rule bit_word_eqI) (auto simp: PackSequenceAndType_def bit_simps dest: bit_u8)
  finally show "PackSequenceAndType s t AND 0xFF = ucast c" using \<open>t = c\<close> by simp
qed

lemma Get_entry_op:
  assumes "op_ok p"
  shows "Get_entry ucmp u (op_entry p) = Some (if ucmp (op_key p) u = 0 then op_result p else GetMiss)"
proof -
  obtain s t k v where p: "p = (s, t, k, v)" by (cases p)
  let ?n = "of_nat (length k + 8) :: u32"
    and ?rest = "k @ EncodeFixed64 (PackSequenceAndType s t) @ PutLengthPrefixedSlice v []"
  have ok: "s \<le> kMaxSequenceNumber" "t \<le> kTypeValue" "length k + 8 < 2 ^ 32" "length v < 2 ^ 32"
    using assms by (simp_all add: p)
  have n: "unat ?n = length k + 8" using ok(3) by (rule unat_of_nat_u32)
  have "?n - 8 = of_nat (length k)" by simp
  then have n8: "unat (?n - 8) = length k" using ok(3) by (simp add: unat_of_nat take_bit_nat_eq_self)
  have entry: "op_entry p = EncodeVarint32 ?n @ ?rest"
    by (simp add: p mem_entry_layout PutLengthPrefixedSlice_def PutVarint32_def InternalKey_new_def AppendInternalKey_def PutFixed64_def
        EncodeFixed64_def)
  have tag: "DecodeFixed64 (drop (length k) ?rest) = Some (PackSequenceAndType s t)"
    by (simp add: EncodeFixed64_def)
  have val: "GetLengthPrefixedSlice_data (drop (length k + 8) ?rest) = Some (v, [])"
    using length_prefixed_data [OF ok(4), of "[]"] by (simp add: EncodeFixed64_def)
  have "t = kTypeValue \<or> t = kTypeDeletion"
    using ok(2) by (auto simp: kTypeValue_def kTypeDeletion_def word_le_nat_alt word_unat_eq_iff le_Suc_eq)
  moreover have "Get_entry ucmp u (op_entry p) =
      Some (if ucmp k u = 0 then if t = kTypeValue then GetValue v else if t = kTypeDeletion then GetDeleted (NotFound [] []) else GetMiss
        else GetMiss)"
    unfolding Get_entry_def entry varint_entry option.case prod.case Let_def n n8 tag val type_byte [OF ok(1)] by simp
  ultimately show ?thesis by (auto simp: p op_result_def kTypeValue_def kTypeDeletion_def)
qed

section \<open>The history of a memtable\<close>

text \<open>The last operation on the key up to a sequence number.\<close>

definition latest :: "(slice \<Rightarrow> slice \<Rightarrow> int) \<Rightarrow> mem_op list \<Rightarrow> slice \<Rightarrow> u64 \<Rightarrow> mem_op option" where
  "latest ucmp ops u s = hd_opt (rev (filter (\<lambda>p. ucmp (op_key p) u = 0 \<and> op_seq p \<le> s) ops))"

definition history_result :: "(slice \<Rightarrow> slice \<Rightarrow> int) \<Rightarrow> mem_op list \<Rightarrow> slice \<Rightarrow> u64 \<Rightarrow> get_result" where
  "history_result ucmp ops u s = (case latest ucmp ops u s of None \<Rightarrow> GetMiss | Some p \<Rightarrow> op_result p)"

definition history_ok :: "(slice \<Rightarrow> bool) \<Rightarrow> mem_op list \<Rightarrow> bool" where
  "history_ok uvalid ops \<longleftrightarrow>
     list_all (\<lambda>p. op_ok p \<and> uvalid (op_key p)) ops \<and> sorted_wrt (\<lambda>p q. op_seq p < op_seq q) ops"

definition mem_rel :: "(slice \<Rightarrow> slice \<Rightarrow> int) \<Rightarrow> (slice \<Rightarrow> bool) \<Rightarrow> MemTable \<Rightarrow> mem_op list \<Rightarrow> bool" where
  "mem_rel ucmp uvalid m ops \<longleftrightarrow>
     sl_inv (KeyComparator ucmp) (valid_entry uvalid) (mt_table m) \<and> history_ok uvalid ops \<and>
     set (sl_keys (mt_table m)) = op_entry ` set ops"

lemma op_ikey_parts:
  "ExtractUserKey (op_ikey p) = op_key p" "key_num (op_ikey p) = PackSequenceAndType (op_seq p) (fst (snd p))"
  by (cases p; simp)+

lemma key_num_less:
  assumes "op_ok p" "op_ok q"
  shows "key_num (op_ikey p) < key_num (op_ikey q) \<longleftrightarrow>
      op_seq p < op_seq q \<or> op_seq p = op_seq q \<and> fst (snd p) < fst (snd q)"
    and "key_num (op_ikey p) = key_num (op_ikey q) \<Longrightarrow> op_seq p = op_seq q"
proof -
  obtain s t k v s' t' k' v' where pq: "p = (s, t, k, v)" "q = (s', t', k', v')" by (cases p; cases q)
  have seq: "s \<le> kMaxSequenceNumber" "s' \<le> kMaxSequenceNumber" using assms by (simp_all add: pq)
  show "key_num (op_ikey p) < key_num (op_ikey q) \<longleftrightarrow>
      op_seq p < op_seq q \<or> op_seq p = op_seq q \<and> fst (snd p) < fst (snd q)"
    using pack_less [OF seq, of t t'] by (simp add: pq)
  show "op_seq p = op_seq q" if "key_num (op_ikey p) = key_num (op_ikey q)"
    using unpack(1) [OF seq(1), of t] unpack(1) [OF seq(2), of t'] that by (simp add: pq)
qed

lemma latest_spec:
  assumes "sorted_wrt (\<lambda>p q. op_seq p < op_seq q) ops" "latest ucmp ops u s = Some p"
  shows "p \<in> set ops" "ucmp (op_key p) u = 0" "op_seq p \<le> s"
    "q \<in> set ops \<Longrightarrow> ucmp (op_key q) u = 0 \<Longrightarrow> op_seq q \<le> s \<Longrightarrow> q = p \<or> op_seq q < op_seq p"
proof -
  let ?f = "filter (\<lambda>p. ucmp (op_key p) u = 0 \<and> op_seq p \<le> s) ops"
  obtain ps where f: "?f = ps @ [p]" using assms(2) by (cases ?f rule: rev_cases) (auto simp: latest_def)
  then have "p \<in> set ?f" by simp
  then show "p \<in> set ops" "ucmp (op_key p) u = 0" "op_seq p \<le> s" by auto
  have "sorted_wrt (\<lambda>p q. op_seq p < op_seq q) ?f" using assms(1) by (rule sorted_wrt_filter)
  then have "sorted_wrt (\<lambda>p q. op_seq p < op_seq q) (ps @ [p])" by (simp only: f)
  moreover assume "q \<in> set ops" "ucmp (op_key q) u = 0" "op_seq q \<le> s"
  then have "q \<in> set ?f" by simp
  then have "q \<in> set (ps @ [p])" by (simp only: f)
  ultimately show "q = p \<or> op_seq q < op_seq p" by (auto simp: sorted_wrt_append)
qed

lemma latest_None: "latest ucmp ops u s = None \<Longrightarrow> p \<in> set ops \<Longrightarrow> ucmp (op_key p) u = 0 \<Longrightarrow> \<not> op_seq p \<le> s"
  by (cases "rev (filter (\<lambda>p. ucmp (op_key p) u = 0 \<and> op_seq p \<le> s) ops)") (auto simp: latest_def filter_empty_conv)

context user_comparator
begin

lemma op_order:
  assumes "op_ok p" "op_ok q"
  shows "KeyComparator compare (op_entry p) (op_entry q) < 0 \<longleftrightarrow>
      compare (op_key p) (op_key q) < 0 \<or> compare (op_key p) (op_key q) = 0 \<and> key_num (op_ikey q) < key_num (op_ikey p)"
    and "KeyComparator compare (op_entry p) (op_entry q) = 0 \<Longrightarrow> op_seq p = op_seq q"
  using key_num_less(2) [OF assms]
  by (auto simp: KeyComparator_def entry_key_op assms InternalKeyCompare_sign op_ikey_parts)

lemma valid_op: "op_ok p \<Longrightarrow> valid (op_key p) \<Longrightarrow> valid_entry valid (op_entry p)"
  by (cases p) (simp add: valid_entry_def entry_key_op [of p, simplified] mem_entry_layout entry_key_put)

lemma MemTable_Add_correct:
  assumes "mem_rel compare valid m ops" "op_ok (s, t, k, v)" "valid k" "\<forall>p\<in>set ops. op_seq p < s"
  obtains m' where "MemTable_Add compare s t k v m = Some m'" "mem_rel compare valid m' (ops @ [(s, t, k, v)])"
    "mt_refs m' = mt_refs m"
proof -
  note entries = comparator.skip_list_table [OF entry_comparator]
  let ?cmp = "KeyComparator compare" and ?e = "op_entry (s, t, k, v)"
  have inv: "sl_inv ?cmp (valid_entry valid) (mt_table m)" and hist: "history_ok valid ops"
    and keys: "set (sl_keys (mt_table m)) = op_entry ` set ops"
    using assms(1) by (simp_all add: mem_rel_def)
  have "\<forall>x\<in>set (sl_keys (mt_table m)). ?cmp ?e x \<noteq> 0"
    using keys op_order(2) [OF assms(2)] assms(4) hist by (fastforce simp: history_ok_def list_all_iff)
  then obtain T where T: "Insert ?cmp (mt_table m) ?e = Some T" "sl_inv ?cmp (valid_entry valid) T"
      "sl_keys T = filter (\<lambda>x. ?cmp x ?e < 0) (sl_keys (mt_table m)) @ ?e # filter (\<lambda>x. ?cmp ?e x < 0) (sl_keys (mt_table m))"
    using sorted_table.insert [OF entries inv valid_op [OF assms(2)]] assms(3) by auto
  have "x \<in> set (sl_keys (mt_table m)) \<Longrightarrow> ?cmp x ?e < 0 \<or> ?cmp ?e x < 0" for x
  proof -
    assume x: "x \<in> set (sl_keys (mt_table m))"
    then have "valid_entry valid x" using inv by (auto simp: sl_inv_def list_all_iff)
    moreover have "valid_entry valid ?e" using valid_op [OF assms(2)] assms(3) by simp
    ultimately have "\<not> ?cmp x ?e < 0 \<longleftrightarrow> ?cmp ?e x \<le> 0" by (rule comparator.not_less [OF entry_comparator])
    then show ?thesis using \<open>\<forall>x\<in>set (sl_keys (mt_table m)). ?cmp ?e x \<noteq> 0\<close> x by (auto simp: order_le_less)
  qed
  then have "set (sl_keys T) = op_entry ` set (ops @ [(s, t, k, v)])" using T(3) keys by auto
  moreover have "history_ok valid (ops @ [(s, t, k, v)])"
    using hist assms(2-4) by (auto simp: history_ok_def sorted_wrt_append)
  ultimately have "mem_rel compare valid (m\<lparr>mt_table := T\<rparr>) (ops @ [(s, t, k, v)])"
    using T(2) by (simp add: mem_rel_def)
  moreover have "MemTable_Add compare s t k v m = Some (m\<lparr>mt_table := T\<rparr>)"
    using T(1) encoded_len_exact [OF assms(2)] by (simp add: MemTable_Add_def Let_def)
  ultimately show thesis using that by simp
qed

text \<open>An entry not before the lookup key: a larger user key, or an operation on the key that is not newer.\<close>

lemma not_before_lookup:
  assumes "op_ok p" "length u + 8 < 2 ^ 32" "s \<le> kMaxSequenceNumber"
  shows "\<not> KeyComparator compare (op_entry p) (memtable_key (LookupKey_new u s)) < 0 \<longleftrightarrow>
    compare (op_key p) u > 0 \<or> compare (op_key p) u = 0 \<and> op_seq p \<le> s"
proof -
  let ?k = "InternalKey_new u s kValueTypeForSeek"
  have key: "entry_key (memtable_key (LookupKey_new u s)) = ?k"
    using entry_key_put [of ?k "[]"] assms(2) by (simp add: LookupKey_new_parts)
  obtain s' t k v where p: "p = (s', t, k, v)" by (cases p)
  have "key_num ?k < key_num (op_ikey p) \<longleftrightarrow> s < op_seq p"
    using pack_less [OF assms(3), of s' kValueTypeForSeek t] assms(1) by (auto simp: p kValueTypeForSeek_def)
  then show ?thesis
    unfolding KeyComparator_def key entry_key_op [OF assms(1)] InternalKeyCompare_sign op_ikey_parts(1) InternalKey_new_parts(1)
    by auto
qed

lemma latest_is_first:
  assumes "history_ok valid ops" "valid u" "length u + 8 < 2 ^ 32" "s \<le> kMaxSequenceNumber"
    and latest: "latest compare ops u s = Some q"
    and p: "p \<in> set ops" "\<not> KeyComparator compare (op_entry p) (memtable_key (LookupKey_new u s)) < 0"
  shows "\<not> KeyComparator compare (op_entry p) (op_entry q) < 0"
proof
  assume "KeyComparator compare (op_entry p) (op_entry q) < 0"
  have ops: "\<forall>p\<in>set ops. op_ok p \<and> valid (op_key p)" "sorted_wrt (\<lambda>p q. op_seq p < op_seq q) ops"
    using assms(1) by (auto simp: history_ok_def list_all_iff)
  note q = latest_spec [OF ops(2) latest]
  have v: "valid (op_key p)" "valid (op_key q)" "op_ok p" "op_ok q" using ops(1) p(1) q(1) by auto
  have pu: "compare (op_key p) u > 0 \<or> compare (op_key p) u = 0 \<and> op_seq p \<le> s"
    using p(2) not_before_lookup [OF v(3) assms(3,4)] by blast
  have pq: "compare (op_key p) (op_key q) < 0 \<or> compare (op_key p) (op_key q) = 0 \<and> key_num (op_ikey q) < key_num (op_ikey p)"
    using \<open>KeyComparator compare (op_entry p) (op_entry q) < 0\<close> op_order(1) [OF v(3,4)] by blast
  have "\<not> compare (op_key p) (op_key q) < 0"
  proof
    assume "compare (op_key p) (op_key q) < 0"
    then have "compare (op_key p) u < 0" using less_le_trans [OF v(1,2) assms(2)] q(2) by simp
    with pu show False by simp
  qed
  then have num: "compare (op_key p) (op_key q) = 0" "key_num (op_ikey q) < key_num (op_ikey p)" using pq by auto
  have "compare (op_key p) u \<le> 0" using le_trans [OF v(1,2) assms(2)] num(1) q(2) by auto
  then have "compare (op_key p) u = 0" "op_seq p \<le> s" using pu by auto
  then have "p = q \<or> op_seq p < op_seq q" using q(4) [OF p(1)] by blast
  then show False using num(2) key_num_less(1) [OF v(4,3)] by (auto simp: order_less_asym)
qed

lemma first_not_before:
  assumes "mem_rel compare valid m ops" "valid u" "length u + 8 < 2 ^ 32" "s \<le> kMaxSequenceNumber"
    and first: "hd_opt (filter (\<lambda>x. \<not> KeyComparator compare x (memtable_key (LookupKey_new u s)) < 0) (sl_keys (mt_table m))) = r"
  shows "case latest compare ops u s of
      Some p \<Rightarrow> r = Some (op_entry p)
    | None \<Rightarrow> r = None \<or> (\<exists>p\<in>set ops. r = Some (op_entry p) \<and> compare (op_key p) u \<noteq> 0)"
proof -
  let ?P = "\<lambda>x. \<not> KeyComparator compare x (memtable_key (LookupKey_new u s)) < 0"
  have sorted: "sorted_wrt (\<lambda>a b. KeyComparator compare a b < 0) (sl_keys (mt_table m))"
    and keys: "set (sl_keys (mt_table m)) = op_entry ` set ops"
    and ops: "\<forall>p\<in>set ops. op_ok p \<and> valid (op_key p)" "sorted_wrt (\<lambda>p q. op_seq p < op_seq q) ops"
    using assms(1) by (auto simp: mem_rel_def sl_inv_def history_ok_def list_all_iff)
  have P: "?P (op_entry p) \<longleftrightarrow> compare (op_key p) u > 0 \<or> compare (op_key p) u = 0 \<and> op_seq p \<le> s" if "p \<in> set ops" for p
    using not_before_lookup ops(1) that assms(3,4) by blast
  show ?thesis
  proof (cases "filter ?P (sl_keys (mt_table m))")
    case Nil
    then have "\<not> ?P (op_entry p)" if "p \<in> set ops" for p using keys that by (auto simp: filter_empty_conv)
    then have "latest compare ops u s = None" using P latest_spec [OF ops(2)] by (metis not_Some_eq)
    then show ?thesis using Nil first by simp
  next
    case (Cons e es)
    then have "e \<in> set (filter ?P (sl_keys (mt_table m)))" by simp
    then obtain p where p: "e = op_entry p" "p \<in> set ops" "?P e" using keys by auto
    have r: "r = Some (op_entry p)" using first Cons p(1) by simp
    show ?thesis
    proof (cases "latest compare ops u s")
      case None
      then have "compare (op_key p) u \<noteq> 0" using latest_None [OF None p(2)] P [OF p(2)] p(1,3) by auto
      then show ?thesis using None r p(2) by auto
    next
      case (Some q)
      note q = latest_spec [OF ops(2) Some]
      have "op_entry q \<in> set (e # es)" unfolding Cons [symmetric] using P [OF q(1)] q keys by simp
      moreover have "sorted_wrt (\<lambda>a b. KeyComparator compare a b < 0) (e # es)"
        unfolding Cons [symmetric] using sorted by (rule sorted_wrt_filter)
      ultimately consider "op_entry q = e" | "KeyComparator compare (op_entry p) (op_entry q) < 0" using p(1) by auto
      moreover have "\<not> KeyComparator compare (op_entry p) (op_entry q) < 0"
        using assms(1) p(1,3) by (intro latest_is_first [OF _ assms(2-4) Some p(2)]) (simp_all only: mem_rel_def simp_thms)
      ultimately have "op_entry q = op_entry p" using p(1) by blast
      then show ?thesis using Some r by simp
    qed
  qed
qed

lemma MemTable_Get_correct:
  assumes "mem_rel compare valid m ops" "valid u" "length u + 8 < 2 ^ 32" "s \<le> kMaxSequenceNumber"
  shows "MemTable_Get compare (LookupKey_new u s) m = Some (history_result compare ops u s)"
proof -
  let ?lk = "memtable_key (LookupKey_new u s)" and ?cmp = "KeyComparator compare"
  let ?r = "hd_opt (filter (\<lambda>x. \<not> ?cmp x ?lk < 0) (sl_keys (mt_table m)))"
  have "entry_key ?lk = InternalKey_new u s kValueTypeForSeek"
    using entry_key_put [of "InternalKey_new u s kValueTypeForSeek" "[]"] assms(3) by (simp add: LookupKey_new_parts)
  then have "valid_entry valid ?lk" using assms(2) by (simp add: valid_entry_def)
  then have "seek_key ?cmp (mt_table m) ?lk = Some ?r"
    using assms(1) comparator.seek_key_correct [OF entry_comparator] by (simp add: mem_rel_def)
  then have get: "MemTable_Get compare (LookupKey_new u s) m =
      (case ?r of None \<Rightarrow> Some GetMiss | Some e \<Rightarrow> Get_entry compare u e)"
    by (auto simp: MemTable_Get_def seek_key_def LookupKey_new_parts(3) split: option.splits)
  have ok: "op_ok p" if "p \<in> set ops" for p using assms(1) that by (auto simp: mem_rel_def history_ok_def list_all_iff)
  have sorted: "sorted_wrt (\<lambda>p q. op_seq p < op_seq q) ops" using assms(1) by (simp add: mem_rel_def history_ok_def)
  show ?thesis
  proof (cases "latest compare ops u s")
    case None
    with first_not_before [OF assms HOL.refl]
    consider "?r = None" | p where "p \<in> set ops" "?r = Some (op_entry p)" "compare (op_key p) u \<noteq> 0" by auto
    then show ?thesis
    proof cases
      case 1
      then show ?thesis using get None by (simp add: history_result_def)
    next
      case 2
      then show ?thesis using get None Get_entry_op [OF ok] by (simp add: history_result_def)
    qed
  next
    case (Some p)
    note p = latest_spec [OF sorted Some]
    have "?r = Some (op_entry p)" using first_not_before [OF assms HOL.refl] Some by simp
    then show ?thesis using get Some p(2) Get_entry_op [OF ok [OF p(1)]] by (simp add: history_result_def)
  qed
qed

lemma MemTable_new_rel: "mem_rel compare valid MemTable_new []"
  by (simp add: mem_rel_def MemTable_new_def history_ok_def SkipList_new_inv)

end

end
