(* ===== verification/LdbBatch.thy ===== *)
theory LdbBatch
  imports LdbMemTable
begin

text \<open>
  Write batches (\<open>db/write_batch.cc\<close>, \<open>db/write_batch_internal.h\<close>): a string with a sequence number, a
  count and a record per operation, replayed into a handler by \<open>Iterate\<close> and into a memtable by
  \<open>InsertInto\<close>.  A handler is a pair of functions on its state; \<open>None\<close> is a failed assertion in it.
\<close>

section \<open>The representation\<close>

type_synonym WriteBatch = slice

definition kHeader :: nat where
  "kHeader = 12"

definition WriteBatch_Clear :: WriteBatch where
  "WriteBatch_Clear = replicate kHeader 0"

definition Batch_Count :: "WriteBatch \<Rightarrow> u32" where
  "Batch_Count rep = the (DecodeFixed32 (drop 8 rep))"

definition Batch_SetCount :: "WriteBatch \<Rightarrow> u32 \<Rightarrow> WriteBatch" where
  "Batch_SetCount rep n = take 8 rep @ EncodeFixed32 n @ drop 12 rep"

definition Batch_Sequence :: "WriteBatch \<Rightarrow> u64" where
  "Batch_Sequence rep = the (DecodeFixed64 rep)"

definition Batch_SetSequence :: "WriteBatch \<Rightarrow> u64 \<Rightarrow> WriteBatch" where
  "Batch_SetSequence rep seq = EncodeFixed64 seq @ drop 8 rep"

definition Batch_Put :: "slice \<Rightarrow> slice \<Rightarrow> WriteBatch \<Rightarrow> WriteBatch" where
  "Batch_Put key value rep =
     (let rep = Batch_SetCount rep (Batch_Count rep + 1);
          rep = rep @ [kTypeValue];
          rep = PutLengthPrefixedSlice key rep
      in PutLengthPrefixedSlice value rep)"

definition Batch_Delete :: "slice \<Rightarrow> WriteBatch \<Rightarrow> WriteBatch" where
  "Batch_Delete key rep =
     (let rep = Batch_SetCount rep (Batch_Count rep + 1);
          rep = rep @ [kTypeDeletion]
      in PutLengthPrefixedSlice key rep)"

definition Batch_SetContents :: "slice \<Rightarrow> WriteBatch option" where
  "Batch_SetContents contents = (if kHeader \<le> length contents then Some contents else None)"

definition Batch_Append :: "WriteBatch \<Rightarrow> WriteBatch \<Rightarrow> WriteBatch option" where
  "Batch_Append dst src =
     (let dst = Batch_SetCount dst (Batch_Count dst + Batch_Count src) in
      if kHeader \<le> length src then Some (dst @ drop kHeader src) else None)"

section \<open>Iteration\<close>

lemma GetLengthPrefixedSlice_shorter: "GetLengthPrefixedSlice bs = Some (a, rest) \<Longrightarrow> length rest < length bs"
  by (rule length_prefixed.get_progress)

text \<open>The loop returns the status of a malformed record, or the number of records.\<close>

function Iterate_loop ::
    "(slice \<Rightarrow> slice \<Rightarrow> 'h \<Rightarrow> 'h option) \<Rightarrow> (slice \<Rightarrow> 'h \<Rightarrow> 'h option) \<Rightarrow> slice \<Rightarrow> nat \<Rightarrow> 'h \<Rightarrow> ((status + nat) \<times> 'h) option" where
  "Iterate_loop put del [] found h = Some (Inr found, h)"
| "Iterate_loop put del (tag # input) found h =
     (if tag = kTypeValue then
        (case GetLengthPrefixedSlice input of
           None \<Rightarrow> Some (Inl (Corruption (str ''bad WriteBatch Put'') []), h)
         | Some (key, input) \<Rightarrow>
             (case GetLengthPrefixedSlice input of
                None \<Rightarrow> Some (Inl (Corruption (str ''bad WriteBatch Put'') []), h)
              | Some (value, input) \<Rightarrow>
                  (case put key value h of None \<Rightarrow> None | Some h \<Rightarrow> Iterate_loop put del input (found + 1) h)))
      else if tag = kTypeDeletion then
        (case GetLengthPrefixedSlice input of
           None \<Rightarrow> Some (Inl (Corruption (str ''bad WriteBatch Delete'') []), h)
         | Some (key, input) \<Rightarrow>
             (case del key h of None \<Rightarrow> None | Some h \<Rightarrow> Iterate_loop put del input (found + 1) h))
      else Some (Inl (Corruption (str ''unknown WriteBatch tag'') []), h))"
  by pat_completeness auto
termination
  by (relation "measure (\<lambda>(put, del, input, found, h). length input)")
     (force dest!: GetLengthPrefixedSlice_shorter)+

definition Batch_Iterate ::
    "(slice \<Rightarrow> slice \<Rightarrow> 'h \<Rightarrow> 'h option) \<Rightarrow> (slice \<Rightarrow> 'h \<Rightarrow> 'h option) \<Rightarrow> WriteBatch \<Rightarrow> 'h \<Rightarrow> (status \<times> 'h) option" where
  "Batch_Iterate put del rep h =
     (if length rep < kHeader then Some (Corruption (str ''malformed WriteBatch (too small)'') [], h)
      else
        case Iterate_loop put del (drop kHeader rep) 0 h of
          None \<Rightarrow> None
        | Some (Inl e, h) \<Rightarrow> Some (e, h)
        | Some (Inr found, h) \<Rightarrow>
            if int found \<noteq> sint (Batch_Count rep) then Some (Corruption (str ''WriteBatch has wrong count'') [], h)
            else Some (Status_OK, h))"

section \<open>Insertion into a memtable\<close>

record MemTableInserter =
  ins_sequence :: u64
  ins_mem :: MemTable

definition Inserter_Put :: "(slice \<Rightarrow> slice \<Rightarrow> int) \<Rightarrow> slice \<Rightarrow> slice \<Rightarrow> MemTableInserter \<Rightarrow> MemTableInserter option" where
  "Inserter_Put ucmp key value h =
     (case MemTable_Add ucmp (ins_sequence h) kTypeValue key value (ins_mem h) of
        None \<Rightarrow> None | Some m \<Rightarrow> Some \<lparr>ins_sequence = ins_sequence h + 1, ins_mem = m\<rparr>)"

definition Inserter_Delete :: "(slice \<Rightarrow> slice \<Rightarrow> int) \<Rightarrow> slice \<Rightarrow> MemTableInserter \<Rightarrow> MemTableInserter option" where
  "Inserter_Delete ucmp key h =
     (case MemTable_Add ucmp (ins_sequence h) kTypeDeletion key [] (ins_mem h) of
        None \<Rightarrow> None | Some m \<Rightarrow> Some \<lparr>ins_sequence = ins_sequence h + 1, ins_mem = m\<rparr>)"

definition Batch_InsertInto :: "(slice \<Rightarrow> slice \<Rightarrow> int) \<Rightarrow> WriteBatch \<Rightarrow> MemTable \<Rightarrow> (status \<times> MemTable) option" where
  "Batch_InsertInto ucmp b memtable =
     map_option (\<lambda>(st, h). (st, ins_mem h))
       (Batch_Iterate (Inserter_Put ucmp) (Inserter_Delete ucmp) b
         \<lparr>ins_sequence = Batch_Sequence b, ins_mem = memtable\<rparr>)"

section \<open>Batches as lists of operations\<close>

datatype batch_op = BPut slice slice | BDelete slice

fun op_bytes :: "batch_op \<Rightarrow> slice" where
  "op_bytes (BPut k v) = kTypeValue # PutLengthPrefixedSlice k [] @ PutLengthPrefixedSlice v []"
| "op_bytes (BDelete k) = kTypeDeletion # PutLengthPrefixedSlice k []"

fun batch_apply :: "batch_op \<Rightarrow> WriteBatch \<Rightarrow> WriteBatch" where
  "batch_apply (BPut k v) rep = Batch_Put k v rep"
| "batch_apply (BDelete k) rep = Batch_Delete k rep"

fun batch_op_ok :: "batch_op \<Rightarrow> bool" where
  "batch_op_ok (BPut k v) \<longleftrightarrow> length k + 8 < 2 ^ 32 \<and> length v < 2 ^ 32"
| "batch_op_ok (BDelete k) \<longleftrightarrow> length k + 8 < 2 ^ 32"

definition batch_rep :: "u64 \<Rightarrow> u32 \<Rightarrow> slice \<Rightarrow> WriteBatch" where
  "batch_rep seq count data = EncodeFixed64 seq @ EncodeFixed32 count @ data"

lemma batch_rep_simps [simp]:
  "Batch_Count (batch_rep seq n d) = n" "Batch_Sequence (batch_rep seq n d) = seq"
  "Batch_SetCount (batch_rep seq n d) n' = batch_rep seq n' d"
  "Batch_SetSequence (batch_rep seq n d) seq' = batch_rep seq' n d"
  "drop kHeader (batch_rep seq n d) = d" "length (batch_rep seq n d) = kHeader + length d"
  "batch_rep seq n d @ e = batch_rep seq n (d @ e)"
  by (simp_all add: batch_rep_def Batch_Count_def Batch_Sequence_def Batch_SetCount_def Batch_SetSequence_def
      EncodeFixed64_def EncodeFixed32_def kHeader_def)

lemma Clear_rep: "WriteBatch_Clear = batch_rep 0 0 []"
  by (simp add: WriteBatch_Clear_def batch_rep_def kHeader_def EncodeFixed64_def EncodeFixed32_def numeral_eq_Suc)

lemma put_put: "PutLengthPrefixedSlice v dst = dst @ PutLengthPrefixedSlice v []"
  by (rule length_prefixed.put_append)

lemma batch_apply_rep: "batch_apply p (batch_rep seq n d) = batch_rep seq (n + 1) (d @ op_bytes p)"
  by (cases p)
     (simp_all add: Batch_Put_def Batch_Delete_def Let_def put_put [of _ "_ @ _"] put_put [of _ "batch_rep _ _ _"])

lemma batch_build: "fold batch_apply ps (batch_rep seq n d) = batch_rep seq (n + of_nat (length ps)) (d @ concat (map op_bytes ps))"
  by (induction ps arbitrary: n d) (simp_all add: batch_apply_rep add.assoc)

section \<open>Replaying a batch\<close>

fun handle :: "(slice \<Rightarrow> slice \<Rightarrow> 'h \<Rightarrow> 'h option) \<Rightarrow> (slice \<Rightarrow> 'h \<Rightarrow> 'h option) \<Rightarrow> batch_op \<Rightarrow> 'h \<Rightarrow> 'h option" where
  "handle put del (BPut k v) h = put k v h"
| "handle put del (BDelete k) h = del k h"

fun replay :: "(slice \<Rightarrow> slice \<Rightarrow> 'h \<Rightarrow> 'h option) \<Rightarrow> (slice \<Rightarrow> 'h \<Rightarrow> 'h option) \<Rightarrow> batch_op list \<Rightarrow> 'h \<Rightarrow> 'h option" where
  "replay put del [] h = Some h"
| "replay put del (p # ps) h = (case handle put del p h of None \<Rightarrow> None | Some h \<Rightarrow> replay put del ps h)"

lemma Iterate_loop_op:
  assumes "batch_op_ok p"
  shows "Iterate_loop put del (op_bytes p @ rest) found h =
    (case handle put del p h of None \<Rightarrow> None | Some h \<Rightarrow> Iterate_loop put del rest (found + 1) h)"
  using assms by (cases p) (simp_all add: GetLengthPrefixedSlice_put kTypeValue_def kTypeDeletion_def)

lemma Iterate_loop_ops:
  "\<forall>p\<in>set ps. batch_op_ok p \<Longrightarrow>
     Iterate_loop put del (concat (map op_bytes ps)) found h = map_option (\<lambda>h. (Inr (found + length ps), h)) (replay put del ps h)"
proof (induction ps arbitrary: found h)
  case (Cons p ps)
  then show ?case
    using Iterate_loop_op [of p put del "concat (map op_bytes ps)" found h]
    by (simp split: option.split)
qed simp

lemma Iterate_rep:
  assumes "\<forall>p\<in>set ps. batch_op_ok p" "length ps < 2 ^ 31"
  shows "Batch_Iterate put del (batch_rep seq (of_nat (length ps)) (concat (map op_bytes ps))) h =
    map_option (\<lambda>h. (Status_OK, h)) (replay put del ps h)"
proof -
  have "sint (of_nat (length ps) :: u32) = int (length ps)"
    using assms(2) by (simp add: signed_of_nat signed_take_bit_int_eq_self)
  then show ?thesis
    using Iterate_loop_ops [OF assms(1), of put del 0 h]
    by (cases "replay put del ps h") (simp_all add: Batch_Iterate_def)
qed

definition batch_of :: "u64 \<Rightarrow> batch_op list \<Rightarrow> WriteBatch" where
  "batch_of seq ps = Batch_SetSequence (fold batch_apply ps WriteBatch_Clear) seq"

lemma batch_of_rep: "batch_of seq ps = batch_rep seq (of_nat (length ps)) (concat (map op_bytes ps))"
  by (simp add: batch_of_def Clear_rep batch_build)

text \<open>
  C25: A batch built by \<open>Put\<close> and \<open>Delete\<close> replays exactly these operations in order: \<open>Iterate\<close> calls the
  handler for each, whatever the handler does, and returns OK; the count and the sequence number
  are right, and appending a batch to another replays the operations of both.
\<close>

theorem batch_replay:
  assumes "\<forall>p\<in>set (ps @ qs). batch_op_ok p" "length (ps @ qs) < 2 ^ 31"
  shows "Batch_Iterate put del (batch_of seq ps) h = map_option (\<lambda>h. (Status_OK, h)) (replay put del ps h) \<and>
    Batch_Count (batch_of seq ps) = of_nat (length ps) \<and> Batch_Sequence (batch_of seq ps) = seq \<and>
    Batch_Append (batch_of seq ps) (batch_of seq' qs) = Some (batch_of seq (ps @ qs)) \<and>
    Batch_Iterate put del (batch_of seq (ps @ qs)) h = map_option (\<lambda>h. (Status_OK, h)) (replay put del (ps @ qs) h)"
  using assms Iterate_rep [of ps put del seq h] Iterate_rep [of "ps @ qs" put del seq h]
  by (simp add: batch_of_rep Batch_Append_def Let_def)

theorem batch_replay_witness:
  "Batch_Iterate (\<lambda>k v h. Some (h @ [(k, v)])) (\<lambda>k h. Some (h @ [(k, [])])) (batch_of 9 [BPut [1] [2, 3]]) [] =
      map_option (\<lambda>h. (Status_OK, h)) (replay (\<lambda>k v h. Some (h @ [(k, v)])) (\<lambda>k h. Some (h @ [(k, [])])) [BPut [1] [2, 3]] []) \<and>
    Batch_Count (batch_of 9 [BPut [1] [2, 3]]) = of_nat (length [BPut [1] [2, 3]]) \<and>
    Batch_Sequence (batch_of 9 [BPut [1] [2, 3]]) = 9 \<and>
    Batch_Append (batch_of 9 [BPut [1] [2, 3]]) (batch_of 0 [BDelete [4]]) = Some (batch_of 9 ([BPut [1] [2, 3]] @ [BDelete [4]])) \<and>
    Batch_Iterate (\<lambda>k v h. Some (h @ [(k, v)])) (\<lambda>k h. Some (h @ [(k, [])])) (batch_of 9 ([BPut [1] [2, 3]] @ [BDelete [4]])) [] =
      map_option (\<lambda>h. (Status_OK, h))
        (replay (\<lambda>k v h. Some (h @ [(k, v)])) (\<lambda>k h. Some (h @ [(k, [])])) ([BPut [1] [2, 3]] @ [BDelete [4]]) [])"
  by (rule batch_replay) simp_all

section \<open>Writing and reading\<close>

fun to_mem_op :: "u64 \<Rightarrow> batch_op \<Rightarrow> mem_op" where
  "to_mem_op s (BPut k v) = (s, kTypeValue, k, v)"
| "to_mem_op s (BDelete k) = (s, kTypeDeletion, k, [])"

text \<open>The operations of a batch with consecutive sequence numbers.\<close>

fun numbered :: "u64 \<Rightarrow> batch_op list \<Rightarrow> mem_op list" where
  "numbered s [] = []"
| "numbered s (p # ps) = to_mem_op s p # numbered (s + 1) ps"

fun batch_key :: "batch_op \<Rightarrow> slice" where
  "batch_key (BPut k v) = k"
| "batch_key (BDelete k) = k"

lemma to_mem_op_parts [simp]: "op_seq (to_mem_op s p) = s" "op_key (to_mem_op s p) = batch_key p"
  by (cases p; simp)+

lemma to_mem_op_ok: "batch_op_ok p \<Longrightarrow> s \<le> kMaxSequenceNumber \<Longrightarrow> op_ok (to_mem_op s p)"
  by (cases p) (simp_all add: kTypeDeletion_def kTypeValue_def)

lemma unat_Suc_seq: "unat (s :: u64) + 1 < 2 ^ 64 \<Longrightarrow> unat (s + 1) = unat s + 1"
  by (simp add: unat_word_ariths)

context user_comparator
begin

lemma insert_one:
  assumes "mem_rel compare valid m ops" "batch_op_ok p" "valid (batch_key p)" "s \<le> kMaxSequenceNumber" "\<forall>q\<in>set ops. op_seq q < s"
  obtains m' where
    "handle (Inserter_Put compare) (Inserter_Delete compare) p \<lparr>ins_sequence = s, ins_mem = m\<rparr> =
      Some \<lparr>ins_sequence = s + 1, ins_mem = m'\<rparr>"
    "mem_rel compare valid m' (ops @ [to_mem_op s p])"
proof -
  obtain t k v where op: "to_mem_op s p = (s, t, k, v)" by (cases "to_mem_op s p") (metis op_seq.simps to_mem_op_parts(1))
  then have "k = batch_key p" using to_mem_op_parts(2) [of s p] by simp
  then obtain m' where "MemTable_Add compare s t k v m = Some m'" "mem_rel compare valid m' (ops @ [(s, t, k, v)])"
    using MemTable_Add_correct [OF assms(1), of s t k v] to_mem_op_ok [OF assms(2,4)] assms(3,5) op by auto
  then show thesis
    using that [of m'] op by (cases p) (auto simp: Inserter_Put_def Inserter_Delete_def)
qed

lemma insert_all:
  assumes "mem_rel compare valid m ops" "\<forall>p\<in>set ps. batch_op_ok p \<and> valid (batch_key p)"
    "unat s + length ps \<le> 2 ^ 56" "\<forall>q\<in>set ops. op_seq q < s"
  shows "\<exists>m' s'. replay (Inserter_Put compare) (Inserter_Delete compare) ps \<lparr>ins_sequence = s, ins_mem = m\<rparr> =
      Some \<lparr>ins_sequence = s', ins_mem = m'\<rparr> \<and> mem_rel compare valid m' (ops @ numbered s ps)"
  using assms
proof (induction ps arbitrary: s m ops)
  case (Cons p ps)
  have s: "s \<le> kMaxSequenceNumber" "unat (s + 1) = unat s + 1"
    using Cons.prems(3) by (simp_all add: unat_seq_le_max unat_Suc_seq)
  obtain m' where m': "handle (Inserter_Put compare) (Inserter_Delete compare) p \<lparr>ins_sequence = s, ins_mem = m\<rparr> =
      Some \<lparr>ins_sequence = s + 1, ins_mem = m'\<rparr>" "mem_rel compare valid m' (ops @ [to_mem_op s p])"
    using insert_one [OF Cons.prems(1) _ _ s(1) Cons.prems(4), of p] Cons.prems(2) by auto
  have "\<forall>q\<in>set (ops @ [to_mem_op s p]). op_seq q < s + 1"
    using Cons.prems(4) s(2) by (auto simp: word_less_nat_alt)
  then show ?case
    using Cons.IH [OF m'(2), of "s + 1"] Cons.prems(2,3) m'(1) s(2) by simp
qed simp

end

text \<open>
  C3: A memtable refines the history of its operations: inserting a batch succeeds and extends
  the history by the operations of the batch with consecutive sequence numbers, and \<open>Get\<close> at a
  snapshot returns the value of the last operation on the key up to it, NotFound if that one was a
  deletion, and no result if there is none.  A new memtable has the empty history.
\<close>

theorem memtable_refines_history:
  assumes "user_comparator ucmp valid usep usucc" "mem_rel ucmp valid m ops"
    and "\<forall>p\<in>set ps. batch_op_ok p \<and> valid (batch_key p)" "length ps < 2 ^ 31"
    and "unat seq + length ps \<le> 2 ^ 56" "\<forall>q\<in>set ops. op_seq q < seq"
    and "valid u" "length u + 8 < 2 ^ 32" "s \<le> kMaxSequenceNumber"
  shows "\<exists>m'. Batch_InsertInto ucmp (batch_of seq ps) m = Some (Status_OK, m') \<and>
    mem_rel ucmp valid m' (ops @ numbered seq ps) \<and>
    MemTable_Get ucmp (LookupKey_new u s) m' = Some (history_result ucmp (ops @ numbered seq ps) u s) \<and>
    mem_rel ucmp valid MemTable_new []"
proof -
  obtain m' s' where m': "replay (Inserter_Put ucmp) (Inserter_Delete ucmp) ps \<lparr>ins_sequence = seq, ins_mem = m\<rparr> =
      Some \<lparr>ins_sequence = s', ins_mem = m'\<rparr>" "mem_rel ucmp valid m' (ops @ numbered seq ps)"
    using user_comparator.insert_all [OF assms(1,2,3,5,6)] by blast
  then have "Batch_InsertInto ucmp (batch_of seq ps) m = Some (Status_OK, m')"
    using Iterate_rep [of ps "Inserter_Put ucmp" "Inserter_Delete ucmp" seq] assms(3,4)
    by (simp add: Batch_InsertInto_def batch_of_rep)
  then show ?thesis
    using m'(2) user_comparator.MemTable_Get_correct [OF assms(1) m'(2) assms(7-9)] user_comparator.MemTable_new_rel [OF assms(1)]
    by blast
qed

theorem memtable_refines_history_witness:
  "\<exists>m'. Batch_InsertInto BytewiseCompare (batch_of 7 [BPut [1] [5], BDelete [1]]) MemTable_new = Some (Status_OK, m') \<and>
    mem_rel BytewiseCompare (\<lambda>_. True) m' ([] @ numbered 7 [BPut [1] [5], BDelete [1]]) \<and>
    MemTable_Get BytewiseCompare (LookupKey_new [1] 7) m' =
      Some (history_result BytewiseCompare ([] @ numbered 7 [BPut [1] [5], BDelete [1]]) [1] 7) \<and>
    mem_rel BytewiseCompare (\<lambda>_. True) MemTable_new []"
  by (rule memtable_refines_history [OF user_bytewise.user_comparator_axioms user_bytewise.MemTable_new_rel])
     (simp_all add: kMaxSequenceNumber_def push_bit_of_1)

end
