(* ===== verification/LdbCrc.thy ===== *)
theory LdbCrc
  imports LdbCoding
begin

unbundle bit_operations_syntax

text \<open>
  The checksum of leveldb's log and table files: \<open>util/crc32c.cc\<close> and \<open>util/crc32c.h\<close>.  The four
  tables are the ones of the source.  \<open>Extend\<close> works on the address \<open>pval\<close> of the buffer, because it
  aligns its loop to four bytes; an address is a natural number, as an object does not wrap
  around the address space.

  \<open>crc_bits\<close> is the specification: the bit-serial shift register of CRC-32C.  The table-driven
  routine equals it for every alignment.
\<close>

section \<open>The table-driven routine\<close>

definition table0 :: "u32 list" where
  "table0 = [
     0x0, 0xF26B8303, 0xE13B70F7, 0x1350F3F4, 0xC79A971F, 0x35F1141C, 0x26A1E7E8, 0xD4CA64EB,
     0x8AD958CF, 0x78B2DBCC, 0x6BE22838, 0x9989AB3B, 0x4D43CFD0, 0xBF284CD3, 0xAC78BF27, 0x5E133C24,
     0x105EC76F, 0xE235446C, 0xF165B798, 0x30E349B, 0xD7C45070, 0x25AFD373, 0x36FF2087, 0xC494A384,
     0x9A879FA0, 0x68EC1CA3, 0x7BBCEF57, 0x89D76C54, 0x5D1D08BF, 0xAF768BBC, 0xBC267848, 0x4E4DFB4B,
     0x20BD8EDE, 0xD2D60DDD, 0xC186FE29, 0x33ED7D2A, 0xE72719C1, 0x154C9AC2, 0x61C6936, 0xF477EA35,
     0xAA64D611, 0x580F5512, 0x4B5FA6E6, 0xB93425E5, 0x6DFE410E, 0x9F95C20D, 0x8CC531F9, 0x7EAEB2FA,
     0x30E349B1, 0xC288CAB2, 0xD1D83946, 0x23B3BA45, 0xF779DEAE, 0x5125DAD, 0x1642AE59, 0xE4292D5A,
     0xBA3A117E, 0x4851927D, 0x5B016189, 0xA96AE28A, 0x7DA08661, 0x8FCB0562, 0x9C9BF696, 0x6EF07595,
     0x417B1DBC, 0xB3109EBF, 0xA0406D4B, 0x522BEE48, 0x86E18AA3, 0x748A09A0, 0x67DAFA54, 0x95B17957,
     0xCBA24573, 0x39C9C670, 0x2A993584, 0xD8F2B687, 0xC38D26C, 0xFE53516F, 0xED03A29B, 0x1F682198,
     0x5125DAD3, 0xA34E59D0, 0xB01EAA24, 0x42752927, 0x96BF4DCC, 0x64D4CECF, 0x77843D3B, 0x85EFBE38,
     0xDBFC821C, 0x2997011F, 0x3AC7F2EB, 0xC8AC71E8, 0x1C661503, 0xEE0D9600, 0xFD5D65F4, 0xF36E6F7,
     0x61C69362, 0x93AD1061, 0x80FDE395, 0x72966096, 0xA65C047D, 0x5437877E, 0x4767748A, 0xB50CF789,
     0xEB1FCBAD, 0x197448AE, 0xA24BB5A, 0xF84F3859, 0x2C855CB2, 0xDEEEDFB1, 0xCDBE2C45, 0x3FD5AF46,
     0x7198540D, 0x83F3D70E, 0x90A324FA, 0x62C8A7F9, 0xB602C312, 0x44694011, 0x5739B3E5, 0xA55230E6,
     0xFB410CC2, 0x92A8FC1, 0x1A7A7C35, 0xE811FF36, 0x3CDB9BDD, 0xCEB018DE, 0xDDE0EB2A, 0x2F8B6829,
     0x82F63B78, 0x709DB87B, 0x63CD4B8F, 0x91A6C88C, 0x456CAC67, 0xB7072F64, 0xA457DC90, 0x563C5F93,
     0x82F63B7, 0xFA44E0B4, 0xE9141340, 0x1B7F9043, 0xCFB5F4A8, 0x3DDE77AB, 0x2E8E845F, 0xDCE5075C,
     0x92A8FC17, 0x60C37F14, 0x73938CE0, 0x81F80FE3, 0x55326B08, 0xA759E80B, 0xB4091BFF, 0x466298FC,
     0x1871A4D8, 0xEA1A27DB, 0xF94AD42F, 0xB21572C, 0xDFEB33C7, 0x2D80B0C4, 0x3ED04330, 0xCCBBC033,
     0xA24BB5A6, 0x502036A5, 0x4370C551, 0xB11B4652, 0x65D122B9, 0x97BAA1BA, 0x84EA524E, 0x7681D14D,
     0x2892ED69, 0xDAF96E6A, 0xC9A99D9E, 0x3BC21E9D, 0xEF087A76, 0x1D63F975, 0xE330A81, 0xFC588982,
     0xB21572C9, 0x407EF1CA, 0x532E023E, 0xA145813D, 0x758FE5D6, 0x87E466D5, 0x94B49521, 0x66DF1622,
     0x38CC2A06, 0xCAA7A905, 0xD9F75AF1, 0x2B9CD9F2, 0xFF56BD19, 0xD3D3E1A, 0x1E6DCDEE, 0xEC064EED,
     0xC38D26C4, 0x31E6A5C7, 0x22B65633, 0xD0DDD530, 0x417B1DB, 0xF67C32D8, 0xE52CC12C, 0x1747422F,
     0x49547E0B, 0xBB3FFD08, 0xA86F0EFC, 0x5A048DFF, 0x8ECEE914, 0x7CA56A17, 0x6FF599E3, 0x9D9E1AE0,
     0xD3D3E1AB, 0x21B862A8, 0x32E8915C, 0xC083125F, 0x144976B4, 0xE622F5B7, 0xF5720643, 0x7198540,
     0x590AB964, 0xAB613A67, 0xB831C993, 0x4A5A4A90, 0x9E902E7B, 0x6CFBAD78, 0x7FAB5E8C, 0x8DC0DD8F,
     0xE330A81A, 0x115B2B19, 0x20BD8ED, 0xF0605BEE, 0x24AA3F05, 0xD6C1BC06, 0xC5914FF2, 0x37FACCF1,
     0x69E9F0D5, 0x9B8273D6, 0x88D28022, 0x7AB90321, 0xAE7367CA, 0x5C18E4C9, 0x4F48173D, 0xBD23943E,
     0xF36E6F75, 0x105EC76, 0x12551F82, 0xE03E9C81, 0x34F4F86A, 0xC69F7B69, 0xD5CF889D, 0x27A40B9E,
     0x79B737BA, 0x8BDCB4B9, 0x988C474D, 0x6AE7C44E, 0xBE2DA0A5, 0x4C4623A6, 0x5F16D052, 0xAD7D5351]"

definition table1 :: "u32 list" where
  "table1 = [
     0x0, 0x13A29877, 0x274530EE, 0x34E7A899, 0x4E8A61DC, 0x5D28F9AB, 0x69CF5132, 0x7A6DC945,
     0x9D14C3B8, 0x8EB65BCF, 0xBA51F356, 0xA9F36B21, 0xD39EA264, 0xC03C3A13, 0xF4DB928A, 0xE7790AFD,
     0x3FC5F181, 0x2C6769F6, 0x1880C16F, 0xB225918, 0x714F905D, 0x62ED082A, 0x560AA0B3, 0x45A838C4,
     0xA2D13239, 0xB173AA4E, 0x859402D7, 0x96369AA0, 0xEC5B53E5, 0xFFF9CB92, 0xCB1E630B, 0xD8BCFB7C,
     0x7F8BE302, 0x6C297B75, 0x58CED3EC, 0x4B6C4B9B, 0x310182DE, 0x22A31AA9, 0x1644B230, 0x5E62A47,
     0xE29F20BA, 0xF13DB8CD, 0xC5DA1054, 0xD6788823, 0xAC154166, 0xBFB7D911, 0x8B507188, 0x98F2E9FF,
     0x404E1283, 0x53EC8AF4, 0x670B226D, 0x74A9BA1A, 0xEC4735F, 0x1D66EB28, 0x298143B1, 0x3A23DBC6,
     0xDD5AD13B, 0xCEF8494C, 0xFA1FE1D5, 0xE9BD79A2, 0x93D0B0E7, 0x80722890, 0xB4958009, 0xA737187E,
     0xFF17C604, 0xECB55E73, 0xD852F6EA, 0xCBF06E9D, 0xB19DA7D8, 0xA23F3FAF, 0x96D89736, 0x857A0F41,
     0x620305BC, 0x71A19DCB, 0x45463552, 0x56E4AD25, 0x2C896460, 0x3F2BFC17, 0xBCC548E, 0x186ECCF9,
     0xC0D23785, 0xD370AFF2, 0xE797076B, 0xF4359F1C, 0x8E585659, 0x9DFACE2E, 0xA91D66B7, 0xBABFFEC0,
     0x5DC6F43D, 0x4E646C4A, 0x7A83C4D3, 0x69215CA4, 0x134C95E1, 0xEE0D96, 0x3409A50F, 0x27AB3D78,
     0x809C2506, 0x933EBD71, 0xA7D915E8, 0xB47B8D9F, 0xCE1644DA, 0xDDB4DCAD, 0xE9537434, 0xFAF1EC43,
     0x1D88E6BE, 0xE2A7EC9, 0x3ACDD650, 0x296F4E27, 0x53028762, 0x40A01F15, 0x7447B78C, 0x67E52FFB,
     0xBF59D487, 0xACFB4CF0, 0x981CE469, 0x8BBE7C1E, 0xF1D3B55B, 0xE2712D2C, 0xD69685B5, 0xC5341DC2,
     0x224D173F, 0x31EF8F48, 0x50827D1, 0x16AABFA6, 0x6CC776E3, 0x7F65EE94, 0x4B82460D, 0x5820DE7A,
     0xFBC3FAF9, 0xE861628E, 0xDC86CA17, 0xCF245260, 0xB5499B25, 0xA6EB0352, 0x920CABCB, 0x81AE33BC,
     0x66D73941, 0x7575A136, 0x419209AF, 0x523091D8, 0x285D589D, 0x3BFFC0EA, 0xF186873, 0x1CBAF004,
     0xC4060B78, 0xD7A4930F, 0xE3433B96, 0xF0E1A3E1, 0x8A8C6AA4, 0x992EF2D3, 0xADC95A4A, 0xBE6BC23D,
     0x5912C8C0, 0x4AB050B7, 0x7E57F82E, 0x6DF56059, 0x1798A91C, 0x43A316B, 0x30DD99F2, 0x237F0185,
     0x844819FB, 0x97EA818C, 0xA30D2915, 0xB0AFB162, 0xCAC27827, 0xD960E050, 0xED8748C9, 0xFE25D0BE,
     0x195CDA43, 0xAFE4234, 0x3E19EAAD, 0x2DBB72DA, 0x57D6BB9F, 0x447423E8, 0x70938B71, 0x63311306,
     0xBB8DE87A, 0xA82F700D, 0x9CC8D894, 0x8F6A40E3, 0xF50789A6, 0xE6A511D1, 0xD242B948, 0xC1E0213F,
     0x26992BC2, 0x353BB3B5, 0x1DC1B2C, 0x127E835B, 0x68134A1E, 0x7BB1D269, 0x4F567AF0, 0x5CF4E287,
     0x4D43CFD, 0x1776A48A, 0x23910C13, 0x30339464, 0x4A5E5D21, 0x59FCC556, 0x6D1B6DCF, 0x7EB9F5B8,
     0x99C0FF45, 0x8A626732, 0xBE85CFAB, 0xAD2757DC, 0xD74A9E99, 0xC4E806EE, 0xF00FAE77, 0xE3AD3600,
     0x3B11CD7C, 0x28B3550B, 0x1C54FD92, 0xFF665E5, 0x759BACA0, 0x663934D7, 0x52DE9C4E, 0x417C0439,
     0xA6050EC4, 0xB5A796B3, 0x81403E2A, 0x92E2A65D, 0xE88F6F18, 0xFB2DF76F, 0xCFCA5FF6, 0xDC68C781,
     0x7B5FDFFF, 0x68FD4788, 0x5C1AEF11, 0x4FB87766, 0x35D5BE23, 0x26772654, 0x12908ECD, 0x13216BA,
     0xE64B1C47, 0xF5E98430, 0xC10E2CA9, 0xD2ACB4DE, 0xA8C17D9B, 0xBB63E5EC, 0x8F844D75, 0x9C26D502,
     0x449A2E7E, 0x5738B609, 0x63DF1E90, 0x707D86E7, 0xA104FA2, 0x19B2D7D5, 0x2D557F4C, 0x3EF7E73B,
     0xD98EEDC6, 0xCA2C75B1, 0xFECBDD28, 0xED69455F, 0x97048C1A, 0x84A6146D, 0xB041BCF4, 0xA3E32483]"

definition table2 :: "u32 list" where
  "table2 = [
     0x0, 0xA541927E, 0x4F6F520D, 0xEA2EC073, 0x9EDEA41A, 0x3B9F3664, 0xD1B1F617, 0x74F06469,
     0x38513EC5, 0x9D10ACBB, 0x773E6CC8, 0xD27FFEB6, 0xA68F9ADF, 0x3CE08A1, 0xE9E0C8D2, 0x4CA15AAC,
     0x70A27D8A, 0xD5E3EFF4, 0x3FCD2F87, 0x9A8CBDF9, 0xEE7CD990, 0x4B3D4BEE, 0xA1138B9D, 0x45219E3,
     0x48F3434F, 0xEDB2D131, 0x79C1142, 0xA2DD833C, 0xD62DE755, 0x736C752B, 0x9942B558, 0x3C032726,
     0xE144FB14, 0x4405696A, 0xAE2BA919, 0xB6A3B67, 0x7F9A5F0E, 0xDADBCD70, 0x30F50D03, 0x95B49F7D,
     0xD915C5D1, 0x7C5457AF, 0x967A97DC, 0x333B05A2, 0x47CB61CB, 0xE28AF3B5, 0x8A433C6, 0xADE5A1B8,
     0x91E6869E, 0x34A714E0, 0xDE89D493, 0x7BC846ED, 0xF382284, 0xAA79B0FA, 0x40577089, 0xE516E2F7,
     0xA9B7B85B, 0xCF62A25, 0xE6D8EA56, 0x43997828, 0x37691C41, 0x92288E3F, 0x78064E4C, 0xDD47DC32,
     0xC76580D9, 0x622412A7, 0x880AD2D4, 0x2D4B40AA, 0x59BB24C3, 0xFCFAB6BD, 0x16D476CE, 0xB395E4B0,
     0xFF34BE1C, 0x5A752C62, 0xB05BEC11, 0x151A7E6F, 0x61EA1A06, 0xC4AB8878, 0x2E85480B, 0x8BC4DA75,
     0xB7C7FD53, 0x12866F2D, 0xF8A8AF5E, 0x5DE93D20, 0x29195949, 0x8C58CB37, 0x66760B44, 0xC337993A,
     0x8F96C396, 0x2AD751E8, 0xC0F9919B, 0x65B803E5, 0x1148678C, 0xB409F5F2, 0x5E273581, 0xFB66A7FF,
     0x26217BCD, 0x8360E9B3, 0x694E29C0, 0xCC0FBBBE, 0xB8FFDFD7, 0x1DBE4DA9, 0xF7908DDA, 0x52D11FA4,
     0x1E704508, 0xBB31D776, 0x511F1705, 0xF45E857B, 0x80AEE112, 0x25EF736C, 0xCFC1B31F, 0x6A802161,
     0x56830647, 0xF3C29439, 0x19EC544A, 0xBCADC634, 0xC85DA25D, 0x6D1C3023, 0x8732F050, 0x2273622E,
     0x6ED23882, 0xCB93AAFC, 0x21BD6A8F, 0x84FCF8F1, 0xF00C9C98, 0x554D0EE6, 0xBF63CE95, 0x1A225CEB,
     0x8B277743, 0x2E66E53D, 0xC448254E, 0x6109B730, 0x15F9D359, 0xB0B84127, 0x5A968154, 0xFFD7132A,
     0xB3764986, 0x1637DBF8, 0xFC191B8B, 0x595889F5, 0x2DA8ED9C, 0x88E97FE2, 0x62C7BF91, 0xC7862DEF,
     0xFB850AC9, 0x5EC498B7, 0xB4EA58C4, 0x11ABCABA, 0x655BAED3, 0xC01A3CAD, 0x2A34FCDE, 0x8F756EA0,
     0xC3D4340C, 0x6695A672, 0x8CBB6601, 0x29FAF47F, 0x5D0A9016, 0xF84B0268, 0x1265C21B, 0xB7245065,
     0x6A638C57, 0xCF221E29, 0x250CDE5A, 0x804D4C24, 0xF4BD284D, 0x51FCBA33, 0xBBD27A40, 0x1E93E83E,
     0x5232B292, 0xF77320EC, 0x1D5DE09F, 0xB81C72E1, 0xCCEC1688, 0x69AD84F6, 0x83834485, 0x26C2D6FB,
     0x1AC1F1DD, 0xBF8063A3, 0x55AEA3D0, 0xF0EF31AE, 0x841F55C7, 0x215EC7B9, 0xCB7007CA, 0x6E3195B4,
     0x2290CF18, 0x87D15D66, 0x6DFF9D15, 0xC8BE0F6B, 0xBC4E6B02, 0x190FF97C, 0xF321390F, 0x5660AB71,
     0x4C42F79A, 0xE90365E4, 0x32DA597, 0xA66C37E9, 0xD29C5380, 0x77DDC1FE, 0x9DF3018D, 0x38B293F3,
     0x7413C95F, 0xD1525B21, 0x3B7C9B52, 0x9E3D092C, 0xEACD6D45, 0x4F8CFF3B, 0xA5A23F48, 0xE3AD36,
     0x3CE08A10, 0x99A1186E, 0x738FD81D, 0xD6CE4A63, 0xA23E2E0A, 0x77FBC74, 0xED517C07, 0x4810EE79,
     0x4B1B4D5, 0xA1F026AB, 0x4BDEE6D8, 0xEE9F74A6, 0x9A6F10CF, 0x3F2E82B1, 0xD50042C2, 0x7041D0BC,
     0xAD060C8E, 0x8479EF0, 0xE2695E83, 0x4728CCFD, 0x33D8A894, 0x96993AEA, 0x7CB7FA99, 0xD9F668E7,
     0x9557324B, 0x3016A035, 0xDA386046, 0x7F79F238, 0xB899651, 0xAEC8042F, 0x44E6C45C, 0xE1A75622,
     0xDDA47104, 0x78E5E37A, 0x92CB2309, 0x378AB177, 0x437AD51E, 0xE63B4760, 0xC158713, 0xA954156D,
     0xE5F54FC1, 0x40B4DDBF, 0xAA9A1DCC, 0xFDB8FB2, 0x7B2BEBDB, 0xDE6A79A5, 0x3444B9D6, 0x91052BA8]"

definition table3 :: "u32 list" where
  "table3 = [
     0x0, 0xDD45AAB8, 0xBF672381, 0x62228939, 0x7B2231F3, 0xA6679B4B, 0xC4451272, 0x1900B8CA,
     0xF64463E6, 0x2B01C95E, 0x49234067, 0x9466EADF, 0x8D665215, 0x5023F8AD, 0x32017194, 0xEF44DB2C,
     0xE964B13D, 0x34211B85, 0x560392BC, 0x8B463804, 0x924680CE, 0x4F032A76, 0x2D21A34F, 0xF06409F7,
     0x1F20D2DB, 0xC2657863, 0xA047F15A, 0x7D025BE2, 0x6402E328, 0xB9474990, 0xDB65C0A9, 0x6206A11,
     0xD725148B, 0xA60BE33, 0x6842370A, 0xB5079DB2, 0xAC072578, 0x71428FC0, 0x136006F9, 0xCE25AC41,
     0x2161776D, 0xFC24DDD5, 0x9E0654EC, 0x4343FE54, 0x5A43469E, 0x8706EC26, 0xE524651F, 0x3861CFA7,
     0x3E41A5B6, 0xE3040F0E, 0x81268637, 0x5C632C8F, 0x45639445, 0x98263EFD, 0xFA04B7C4, 0x27411D7C,
     0xC805C650, 0x15406CE8, 0x7762E5D1, 0xAA274F69, 0xB327F7A3, 0x6E625D1B, 0xC40D422, 0xD1057E9A,
     0xABA65FE7, 0x76E3F55F, 0x14C17C66, 0xC984D6DE, 0xD0846E14, 0xDC1C4AC, 0x6FE34D95, 0xB2A6E72D,
     0x5DE23C01, 0x80A796B9, 0xE2851F80, 0x3FC0B538, 0x26C00DF2, 0xFB85A74A, 0x99A72E73, 0x44E284CB,
     0x42C2EEDA, 0x9F874462, 0xFDA5CD5B, 0x20E067E3, 0x39E0DF29, 0xE4A57591, 0x8687FCA8, 0x5BC25610,
     0xB4868D3C, 0x69C32784, 0xBE1AEBD, 0xD6A40405, 0xCFA4BCCF, 0x12E11677, 0x70C39F4E, 0xAD8635F6,
     0x7C834B6C, 0xA1C6E1D4, 0xC3E468ED, 0x1EA1C255, 0x7A17A9F, 0xDAE4D027, 0xB8C6591E, 0x6583F3A6,
     0x8AC7288A, 0x57828232, 0x35A00B0B, 0xE8E5A1B3, 0xF1E51979, 0x2CA0B3C1, 0x4E823AF8, 0x93C79040,
     0x95E7FA51, 0x48A250E9, 0x2A80D9D0, 0xF7C57368, 0xEEC5CBA2, 0x3380611A, 0x51A2E823, 0x8CE7429B,
     0x63A399B7, 0xBEE6330F, 0xDCC4BA36, 0x181108E, 0x1881A844, 0xC5C402FC, 0xA7E68BC5, 0x7AA3217D,
     0x52A0C93F, 0x8FE56387, 0xEDC7EABE, 0x30824006, 0x2982F8CC, 0xF4C75274, 0x96E5DB4D, 0x4BA071F5,
     0xA4E4AAD9, 0x79A10061, 0x1B838958, 0xC6C623E0, 0xDFC69B2A, 0x2833192, 0x60A1B8AB, 0xBDE41213,
     0xBBC47802, 0x6681D2BA, 0x4A35B83, 0xD9E6F13B, 0xC0E649F1, 0x1DA3E349, 0x7F816A70, 0xA2C4C0C8,
     0x4D801BE4, 0x90C5B15C, 0xF2E73865, 0x2FA292DD, 0x36A22A17, 0xEBE780AF, 0x89C50996, 0x5480A32E,
     0x8585DDB4, 0x58C0770C, 0x3AE2FE35, 0xE7A7548D, 0xFEA7EC47, 0x23E246FF, 0x41C0CFC6, 0x9C85657E,
     0x73C1BE52, 0xAE8414EA, 0xCCA69DD3, 0x11E3376B, 0x8E38FA1, 0xD5A62519, 0xB784AC20, 0x6AC10698,
     0x6CE16C89, 0xB1A4C631, 0xD3864F08, 0xEC3E5B0, 0x17C35D7A, 0xCA86F7C2, 0xA8A47EFB, 0x75E1D443,
     0x9AA50F6F, 0x47E0A5D7, 0x25C22CEE, 0xF8878656, 0xE1873E9C, 0x3CC29424, 0x5EE01D1D, 0x83A5B7A5,
     0xF90696D8, 0x24433C60, 0x4661B559, 0x9B241FE1, 0x8224A72B, 0x5F610D93, 0x3D4384AA, 0xE0062E12,
     0xF42F53E, 0xD2075F86, 0xB025D6BF, 0x6D607C07, 0x7460C4CD, 0xA9256E75, 0xCB07E74C, 0x16424DF4,
     0x106227E5, 0xCD278D5D, 0xAF050464, 0x7240AEDC, 0x6B401616, 0xB605BCAE, 0xD4273597, 0x9629F2F,
     0xE6264403, 0x3B63EEBB, 0x59416782, 0x8404CD3A, 0x9D0475F0, 0x4041DF48, 0x22635671, 0xFF26FCC9,
     0x2E238253, 0xF36628EB, 0x9144A1D2, 0x4C010B6A, 0x5501B3A0, 0x88441918, 0xEA669021, 0x37233A99,
     0xD867E1B5, 0x5224B0D, 0x6700C234, 0xBA45688C, 0xA345D046, 0x7E007AFE, 0x1C22F3C7, 0xC167597F,
     0xC747336E, 0x1A0299D6, 0x782010EF, 0xA565BA57, 0xBC65029D, 0x6120A825, 0x302211C, 0xDE478BA4,
     0x31035088, 0xEC46FA30, 0x8E647309, 0x5321D9B1, 0x4A21617B, 0x9764CBC3, 0xF54642FA, 0x2803E842]"

definition LE_LOAD32 :: "u8 list \<Rightarrow> u32" where
  "LE_LOAD32 p = le_word (take 4 p)"

definition STEP1 :: "u32 \<Rightarrow> u8 \<Rightarrow> u32" where
  "STEP1 l p = (let c = (l AND 0xFF) XOR ucast p in table0 ! unat c XOR drop_bit 8 l)"

definition STEP4 :: "u32 \<Rightarrow> u8 list \<Rightarrow> u32" where
  "STEP4 l p =
     (let c = l XOR LE_LOAD32 p in
      table3 ! unat (c AND 0xFF) XOR table2 ! unat (drop_bit 8 c AND 0xFF) XOR
      table1 ! unat (drop_bit 16 c AND 0xFF) XOR table0 ! unat (drop_bit 24 c))"

fun bytes_loop :: "u32 \<Rightarrow> u8 list \<Rightarrow> u32" where
  "bytes_loop l [] = l"
| "bytes_loop l (p # ps) = bytes_loop (STEP1 l p) ps"

function words_loop :: "u32 \<Rightarrow> u8 list \<Rightarrow> u32 \<times> u8 list" where
  "words_loop l ps = (if 4 \<le> length ps then words_loop (STEP4 l ps) (drop 4 ps) else (l, ps))"
  by pat_completeness auto
termination
  by (relation "measure (\<lambda>(l, ps). length ps)") auto

function quads_loop :: "u32 \<Rightarrow> u8 list \<Rightarrow> u32 \<times> u8 list" where
  "quads_loop l ps =
     (if 16 \<le> length ps
      then quads_loop (STEP4 (STEP4 (STEP4 (STEP4 l ps) (drop 4 ps)) (drop 8 ps)) (drop 12 ps)) (drop 16 ps)
      else (l, ps))"
  by pat_completeness auto
termination
  by (relation "measure (\<lambda>(l, ps). length ps)") auto

declare words_loop.simps [simp del] quads_loop.simps [simp del]

definition Extend :: "nat \<Rightarrow> u32 \<Rightarrow> u8 list \<Rightarrow> u32" where
  "Extend pval crc buf =
     (let l = crc XOR 0xFFFFFFFF;
          x = push_bit 2 (drop_bit 2 (pval + 3));
          n = (if x \<le> pval + length buf then x - pval else 0);
          l = bytes_loop l (take n buf);
          (l, ps) = quads_loop l (drop n buf);
          (l, ps) = words_loop l ps;
          l = bytes_loop l ps
      in l XOR 0xFFFFFFFF)"

definition Value :: "nat \<Rightarrow> u8 list \<Rightarrow> u32" where
  "Value pval data = Extend pval 0 data"

definition kMaskDelta :: u32 where
  "kMaskDelta = 0xA282EAD8"

definition Mask :: "u32 \<Rightarrow> u32" where
  "Mask crc = (drop_bit 15 crc OR push_bit 17 crc) + kMaskDelta"

definition Unmask :: "u32 \<Rightarrow> u32" where
  "Unmask masked_crc = (let rot = masked_crc - kMaskDelta in drop_bit 17 rot OR push_bit 15 rot)"

section \<open>The shift register\<close>

definition crc_bit :: "u32 \<Rightarrow> u32" where
  "crc_bit l = (if bit l 0 then 0x82F63B78 else 0) XOR drop_bit 1 l"

definition crc_bits :: "nat \<Rightarrow> u32 \<Rightarrow> u32" where
  "crc_bits n = crc_bit ^^ n"

definition crc_bytes :: "u32 \<Rightarrow> u8 list \<Rightarrow> u32" where
  "crc_bytes l bs = fold (\<lambda>b l. crc_bits 8 (l XOR ucast b)) bs l"

section \<open>The tables\<close>

text \<open>
  A table is determined by its entries at the powers of two: the other ones are their sums.
  This is what the kernel evaluates on the constants of the source.
\<close>

fun span :: "'a::len word list \<Rightarrow> 'a word list" where
  "span [] = [0]"
| "span (b # bs) = (let t = span bs in t @ map (\<lambda>x. x XOR b) t)"

lemma length_span [simp]: "length (span bs) = 2 ^ length bs"
  by (induction bs) (auto simp: Let_def)

lemma of_nat_xor_top:
  assumes "n < 2 ^ m" "m < LENGTH('a)"
  shows "(of_nat n :: 'a::len word) XOR 2 ^ m = of_nat (2 ^ m + n)"
proof -
  have off: "\<not> bit n m" using assms(1) by (simp add: bit_iff_odd)
  have "n XOR 2 ^ m = n OR 2 ^ m"
    using off by (auto intro!: bit_eqI simp: bit_simps)
  also have "\<dots> = 2 ^ m + n"
  proof -
    have "n AND 2 ^ m = 0" using off by (auto intro!: bit_eqI simp: bit_simps)
    then show ?thesis by (simp add: disjunctive_add_eq_or [symmetric] add.commute)
  qed
  finally have "(of_nat (n XOR 2 ^ m) :: 'a word) = of_nat (2 ^ m + n)" by (rule arg_cong)
  then show ?thesis by (simp add: of_nat_xor_eq)
qed

lemma span_nth:
  assumes lin: "\<And>x y. f (x XOR y) = f x XOR f y" and "m \<le> LENGTH('a)" and "n < 2 ^ m"
  shows "span (map (\<lambda>k. f (2 ^ k)) (rev [0..<m])) ! n = f (of_nat n :: 'a::len word)"
  using assms(2,3)
proof (induction m arbitrary: n)
  case 0
  then show ?case using lin [of 0 0] by simp
next
  case (Suc m)
  show ?case
  proof (cases "n < 2 ^ m")
    case True
    with Suc show ?thesis by (simp add: Let_def nth_append)
  next
    case False
    with Suc.prems have "n - 2 ^ m < 2 ^ m" by simp
    with False Suc show ?thesis
      using of_nat_xor_top [of "n - 2 ^ m" m, where 'a = 'a]
      by (simp add: Let_def nth_append flip: lin)
  qed
qed

lemma crc_bit_xor: "crc_bit (x XOR y) = crc_bit x XOR crc_bit y"
  by (simp add: crc_bit_def bit_simps xor.assoc xor.left_commute)

lemma crc_bits_xor: "crc_bits n (x XOR y) = crc_bits n x XOR crc_bits n y"
  by (induction n) (simp_all add: crc_bits_def crc_bit_xor)

lemma crc_bits_add: "crc_bits (m + n) x = crc_bits n (crc_bits m x)"
  by (simp add: crc_bits_def funpow_add add.commute [of m])

lemma crc_bits_low_zero: "(\<And>i. i < n \<Longrightarrow> \<not> bit x i) \<Longrightarrow> crc_bits n x = drop_bit n x"
proof (induction n arbitrary: x)
  case 0
  then show ?case by (simp add: crc_bits_def)
next
  case (Suc n)
  have "crc_bit x = drop_bit 1 x" using Suc.prems [of 0] by (simp add: crc_bit_def)
  then have "crc_bits (Suc n) x = crc_bits n (drop_bit 1 x)" by (simp add: crc_bits_def funpow_swap1)
  also have "\<dots> = drop_bit n (drop_bit 1 x)"
    using Suc.prems by (intro Suc.IH) (simp add: bit_simps)
  finally show ?case by (simp add: drop_bit_drop_bit)
qed

lemma crc_bits_push: "n \<le> m \<Longrightarrow> crc_bits m (push_bit n x) = crc_bits (m - n) (drop_bit n (push_bit n x))"
  using crc_bits_add [of n "m - n" "push_bit n x"] crc_bits_low_zero [of n "push_bit n x"]
  by (simp add: bit_simps)

lemma low_byte: "(x :: 'a::len word) AND 0xFF = take_bit 8 x"
  by (simp add: take_bit_eq_mask mask_eq_exp_minus_1)

lemma unat_low_byte: "unat (x AND 0xFF :: u32) < 256"
  using word_and_le1 [of x "0xFF"] by (simp add: word_le_nat_alt)

lemma split_byte: "(x AND 0xFF) XOR push_bit 8 (drop_bit 8 (x :: u32)) = x"
  unfolding low_byte by (auto intro!: bit_word_eqI simp: bit_simps)

lemma crc_byte: "crc_bits 8 x = crc_bits 8 (x AND 0xFF) XOR drop_bit 8 x"
proof -
  have "crc_bits 8 x = crc_bits 8 (x AND 0xFF) XOR crc_bits 8 (push_bit 8 (drop_bit 8 x))"
    by (subst (1) split_byte [of x, symmetric]) (rule crc_bits_xor)
  also have "crc_bits 8 (push_bit 8 (drop_bit 8 x)) = drop_bit 8 (push_bit 8 (drop_bit 8 x))"
    by (rule crc_bits_low_zero) (simp add: bit_simps)
  also have "\<dots> = drop_bit 8 x"
    by (rule bit_word_eqI) (use bit_u32 [of x] in \<open>fastforce simp: bit_simps\<close>)
  finally show ?thesis .
qed

lemma crc_bits_8: "crc_bits 8 x = crc_bit (crc_bit (crc_bit (crc_bit (crc_bit (crc_bit (crc_bit (crc_bit x)))))))"
  by (simp add: crc_bits_def numeral_eq_Suc)

text \<open>The entries at the powers of two; each table continues the previous one by a byte of zeros.\<close>

definition basis :: "nat \<Rightarrow> u32 list" where
  "basis n = map (\<lambda>k. crc_bits n (2 ^ k)) (rev [0..<8])"

lemma basis_add: "basis (m + n) = map (crc_bits n) (basis m)"
  by (simp add: basis_def crc_bits_add)

lemma span_basis: "n < 256 \<Longrightarrow> span (basis m) ! n = crc_bits m (of_nat n)"
  using span_nth [of "crc_bits m" 8 n, OF crc_bits_xor] by (simp add: basis_def)

lemma basis_8: "basis 8 =
    [0x82F63B78, 0x417B1DBC, 0x20BD8EDE, 0x105EC76F, 0x8AD958CF, 0xC79A971F, 0xE13B70F7, 0xF26B8303]"
  by (simp add: basis_def upt_rec crc_bits_8 crc_bit_def)

lemma basis_16: "basis 16 =
    [0xFBC3FAF9, 0xFF17C604, 0x7F8BE302, 0x3FC5F181, 0x9D14C3B8, 0x4E8A61DC, 0x274530EE, 0x13A29877]"
  using basis_add [of 8 8] by (simp add: basis_8 crc_bits_8 crc_bit_def)

lemma basis_24: "basis 24 =
    [0x8B277743, 0xC76580D9, 0xE144FB14, 0x70A27D8A, 0x38513EC5, 0x9EDEA41A, 0x4F6F520D, 0xA541927E]"
  using basis_add [of 16 8] by (simp add: basis_16 crc_bits_8 crc_bit_def)

lemma basis_32: "basis 32 =
    [0x52A0C93F, 0xABA65FE7, 0xD725148B, 0xE964B13D, 0xF64463E6, 0x7B2231F3, 0xBF672381, 0xDD45AAB8]"
  using basis_add [of 24 8] by (simp add: basis_24 crc_bits_8 crc_bit_def)

lemma tables_span: "table0 = span (basis 8)" "table1 = span (basis 16)" "table2 = span (basis 24)" "table3 = span (basis 32)"
  unfolding basis_8 basis_16 basis_24 basis_32 table0_def table1_def table2_def table3_def
  by (simp_all add: Let_def)

section \<open>Table lookups are steps of the shift register\<close>

lemma table_byte [simp]:
  "table0 ! unat (x AND 0xFF) = crc_bits 8 (x AND 0xFF)"
  "table1 ! unat (x AND 0xFF) = crc_bits 16 (x AND 0xFF)"
  "table2 ! unat (x AND 0xFF) = crc_bits 24 (x AND 0xFF)"
  "table3 ! unat (x AND 0xFF) = crc_bits 32 (x AND 0xFF)"
  using unat_low_byte [of x] by (simp_all add: tables_span span_basis)

lemma STEP1_bits: "STEP1 l p = crc_bits 8 (l XOR ucast p)"
proof -
  have low: "(l AND 0xFF) XOR ucast p = (l XOR ucast p) AND 0xFF"
    unfolding low_byte by (auto intro!: bit_word_eqI simp: bit_simps dest: bit_u8 bit_u32)
  have high: "drop_bit 8 (l XOR ucast p) = drop_bit 8 l"
    by (rule bit_word_eqI) (auto simp: bit_simps dest: bit_u8)
  show ?thesis
    using crc_byte [of "l XOR ucast p"] by (simp only: STEP1_def Let_def low high table_byte)
qed

lemma split_word: "(x :: u32) = (x AND 0xFF) XOR push_bit 8 (drop_bit 8 x AND 0xFF) XOR
    push_bit 16 (drop_bit 16 x AND 0xFF) XOR push_bit 24 (drop_bit 24 x)"
  unfolding low_byte by (rule bit_word_eqI) (auto simp: bit_simps)

lemma STEP4_word: "STEP4 l p = crc_bits 32 (l XOR LE_LOAD32 p)"
proof -
  let ?c = "l XOR LE_LOAD32 p"
  have top: "drop_bit 24 ?c AND 0xFF = drop_bit 24 ?c"
    unfolding low_byte by (rule bit_word_eqI) (auto simp: bit_simps dest: bit_u8 bit_u32)
  have push: "crc_bits 32 (push_bit k (w AND 0xFF)) = crc_bits (32 - k) (w AND 0xFF)" if "k \<le> 24" for k and w :: u32
  proof -
    have "drop_bit k (push_bit k (w AND 0xFF)) = w AND 0xFF"
      using that unfolding low_byte by (intro bit_word_eqI) (auto simp: bit_simps)
    moreover have "k \<le> 32" using that by simp
    ultimately show ?thesis using crc_bits_push [of k 32 "w AND 0xFF"] by (simp only:)
  qed
  have "crc_bits 32 ?c = crc_bits 32 (?c AND 0xFF) XOR crc_bits 32 (push_bit 8 (drop_bit 8 ?c AND 0xFF)) XOR
      crc_bits 32 (push_bit 16 (drop_bit 16 ?c AND 0xFF)) XOR crc_bits 32 (push_bit 24 (drop_bit 24 ?c AND 0xFF))"
    by (subst (1) split_word) (simp only: crc_bits_xor top)
  also have "\<dots> = table3 ! unat (?c AND 0xFF) XOR table2 ! unat (drop_bit 8 ?c AND 0xFF) XOR
      table1 ! unat (drop_bit 16 ?c AND 0xFF) XOR table0 ! unat (drop_bit 24 ?c AND 0xFF)"
    using push [of 8 "drop_bit 8 ?c"] push [of 16 "drop_bit 16 ?c"] push [of 24 "drop_bit 24 ?c"]
    by (simp only: table_byte) simp
  finally show ?thesis by (simp only: STEP4_def Let_def top)
qed

section \<open>Whole buffers\<close>

lemma crc_bytes_simps [simp]:
  "crc_bytes l [] = l"
  "crc_bytes l (b # bs) = crc_bytes (crc_bits 8 (l XOR ucast b)) bs"
  "crc_bytes l (as @ bs) = crc_bytes (crc_bytes l as) bs"
  by (simp_all add: crc_bytes_def)

lemma crc_bytes_word:
  "length bs \<le> 4 \<Longrightarrow> crc_bytes l bs = crc_bits (8 * length bs) (l XOR le_word bs)"
proof (induction bs arbitrary: l)
  case Nil
  show ?case by (simp add: crc_bits_def)
next
  case (Cons b bs)
  let ?w = "le_word bs :: u32"
  have high: "\<not> bit ?w n" if "24 \<le> n" for n
    using that Cons.prems by (intro bit_le_word_high) simp
  have "drop_bit 8 (push_bit 8 ?w) = ?w"
    by (rule bit_word_eqI) (use high in \<open>auto simp: bit_simps not_le [symmetric]\<close>)
  then have w: "crc_bits 8 (push_bit 8 ?w) = ?w"
    using crc_bits_low_zero [of 8 "push_bit 8 ?w"] by (simp add: bit_simps)
  have disj: "ucast b XOR push_bit 8 ?w = ucast b OR push_bit 8 ?w"
    by (rule bit_word_eqI) (auto simp: bit_simps dest: bit_u8)
  have "crc_bytes l (b # bs) = crc_bits (8 * length bs) (crc_bits 8 (l XOR ucast b) XOR crc_bits 8 (push_bit 8 ?w))"
    using Cons by (simp add: w)
  also have "\<dots> = crc_bits (8 + 8 * length bs) (l XOR (ucast b XOR push_bit 8 ?w))"
    by (simp only: crc_bits_add xor.assoc flip: crc_bits_xor)
  finally show ?case by (simp add: disj)
qed

lemma STEP4_bytes: "4 \<le> length ps \<Longrightarrow> STEP4 l ps = crc_bytes l (take 4 ps)"
  by (simp add: STEP4_word LE_LOAD32_def crc_bytes_word)

lemma crc_bytes_split: "crc_bytes (crc_bytes l (take n ps)) (drop n ps) = crc_bytes l ps"
  by (simp flip: crc_bytes_simps(3))

lemma bytes_loop_bytes: "bytes_loop l ps = crc_bytes l ps"
  by (induction l ps rule: bytes_loop.induct) (simp_all add: STEP1_bits)

lemma words_loop_bytes: "words_loop l ps = (l', ps') \<Longrightarrow> crc_bytes l' ps' = crc_bytes l ps"
proof (induction l ps rule: words_loop.induct)
  case (1 l ps)
  then show ?case
    by (cases "4 \<le> length ps")
       (simp_all add: words_loop.simps [of l ps] STEP4_bytes crc_bytes_split)
qed

lemma quads_loop_bytes: "quads_loop l ps = (l', ps') \<Longrightarrow> crc_bytes l' ps' = crc_bytes l ps"
proof (induction l ps rule: quads_loop.induct)
  case (1 l ps)
  have "crc_bytes (STEP4 (STEP4 (STEP4 (STEP4 l ps) (drop 4 ps)) (drop 8 ps)) (drop 12 ps)) (drop 16 ps) =
      crc_bytes l ps" if "16 \<le> length ps"
  proof -
    have *: "crc_bytes (crc_bytes k (take 4 (drop n ps))) (drop (n + 4) ps) = crc_bytes k (drop n ps)" for k n
      using crc_bytes_split [of k 4 "drop n ps"] by (simp add: add.commute)
    from * [of _ 0] * [of _ 4] * [of _ 8] * [of _ 12] that show ?thesis by (simp add: STEP4_bytes)
  qed
  with 1 show ?case by (cases "16 \<le> length ps") (simp_all add: quads_loop.simps [of l ps])
qed

lemma Extend_bytes: "Extend pval crc buf = crc_bytes (crc XOR 0xFFFFFFFF) buf XOR 0xFFFFFFFF"
  by (auto simp: Extend_def Let_def bytes_loop_bytes crc_bytes_split split: prod.split
      dest!: words_loop_bytes quads_loop_bytes)

lemma Extend_Extend: "Extend p (Extend q crc as) bs = Extend r crc (as @ bs)"
  by (simp add: Extend_bytes xor.assoc)

text \<open>
  C24: The table-driven, four-bytes-at-a-time \<open>Extend\<close> computes CRC-32C: for every alignment of the
  buffer it is the bit-serial shift register with the polynomial 0x82F63B78, complemented at
  both ends.  This covers all 1024 constants of the tables.
\<close>

theorem Extend_is_crc32c:
  "Extend pval crc buf =
     fold (\<lambda>b l. crc_bits 8 (l XOR ucast b)) buf (crc XOR 0xFFFFFFFF) XOR 0xFFFFFFFF"
  using Extend_bytes by (simp add: crc_bytes_def)

section \<open>Masking\<close>

lemma rotate_17_15: "drop_bit 17 (drop_bit 15 c OR push_bit 17 c) OR push_bit 15 (drop_bit 15 c OR push_bit 17 c) = (c :: u32)"
proof (rule bit_word_eqI)
  fix n assume "n < LENGTH(32)"
  then show "bit (drop_bit 17 (drop_bit 15 c OR push_bit 17 c) OR push_bit 15 (drop_bit 15 c OR push_bit 17 c)) n = bit c n"
    by (cases "n < 15") (auto simp: bit_simps not_less dest: bit_u32)
qed

lemma rotate_15_17: "drop_bit 15 (drop_bit 17 c OR push_bit 15 c) OR push_bit 17 (drop_bit 17 c OR push_bit 15 c) = (c :: u32)"
proof (rule bit_word_eqI)
  fix n assume "n < LENGTH(32)"
  then show "bit (drop_bit 15 (drop_bit 17 c OR push_bit 15 c) OR push_bit 17 (drop_bit 17 c OR push_bit 15 c)) n = bit c n"
    by (cases "n < 17") (auto simp: bit_simps not_less dest: bit_u32)
qed

lemma Unmask_Mask [simp]: "Unmask (Mask crc) = crc"
  using rotate_17_15 [of crc] by (simp only: Mask_def Unmask_def Let_def add_diff_cancel_right')

lemma Mask_Unmask [simp]: "Mask (Unmask m) = m"
  using rotate_15_17 [of "m - kMaskDelta"] by (simp only: Mask_def Unmask_def Let_def diff_add_cancel)

section \<open>Error detection\<close>

lemma crc_bit_inj: "crc_bit x = 0 \<Longrightarrow> x = 0"
proof -
  assume zero: "crc_bit x = 0"
  have "bit (crc_bit x) 31 = bit x 0"
    by (auto simp: crc_bit_def bit_simps dest: bit_u32)
  with zero have even: "\<not> bit x 0" by simp
  with zero have "drop_bit 1 x = 0" by (simp add: crc_bit_def)
  then have "\<not> bit x (Suc n)" for n using bit_drop_bit_eq [of 1 x] by (simp add: fun_eq_iff)
  with even have "\<not> bit x n" for n by (cases n) auto
  then show "x = 0" by (auto intro: bit_word_eqI)
qed

lemma xor_right_cancel: "(x :: 'a::len word) XOR y = z XOR y \<longleftrightarrow> x = z"
proof
  assume "x XOR y = z XOR y"
  then have "(x XOR y) XOR y = (z XOR y) XOR y" by simp
  then show "x = z" by (simp add: xor.assoc)
qed simp

lemma crc_bits_inj: "crc_bits n x = crc_bits n y \<longleftrightarrow> x = y"
proof -
  have "crc_bits n z = 0 \<Longrightarrow> z = 0" for z
    by (induction n arbitrary: z) (auto simp: crc_bits_def dest: crc_bit_inj)
  then have "crc_bits n x = crc_bits n y \<Longrightarrow> x XOR y = 0" by (simp add: crc_bits_xor)
  moreover have "x XOR y = 0 \<Longrightarrow> x = y"
    using xor.assoc [of x y y] by simp
  ultimately show ?thesis by auto
qed

lemma crc_bytes_inj: "crc_bytes l bs = crc_bytes l' bs \<longleftrightarrow> l = l'"
proof (induction bs arbitrary: l l')
  case (Cons b bs)
  show ?case by (simp add: Cons crc_bits_inj xor_right_cancel)
qed simp

lemma le_word_inj:
  assumes "length xs = length ys" "8 * length xs \<le> LENGTH('a)" "le_word xs = (le_word ys :: 'a::len word)"
  shows "xs = ys"
proof -
  have "8 * length ys \<le> LENGTH('a)" using assms(1,2) by simp
  then have "ys = le_bytes (length ys) (le_word ys :: 'a word)" by (simp only: le_bytes_le_word)
  also have "\<dots> = le_bytes (length xs) (le_word xs :: 'a word)" by (simp only: assms(1,3))
  also have "\<dots> = xs" using assms(2) by (rule le_bytes_le_word)
  finally show ?thesis by (rule sym)
qed

text \<open>Two buffers that differ only in at most four consecutive bytes have different checksums.\<close>

lemma Value_burst:
  assumes "length xs = length ys" "length xs \<le> 4" "xs \<noteq> ys"
  shows "Value p (as @ xs @ bs) \<noteq> Value q (as @ ys @ bs)"
proof
  assume "Value p (as @ xs @ bs) = Value q (as @ ys @ bs)"
  then have "crc_bytes (crc_bytes 0xFFFFFFFF as) xs = crc_bytes (crc_bytes 0xFFFFFFFF as) ys"
    by (simp only: Value_def Extend_bytes crc_bytes_inj xor_right_cancel crc_bytes_simps xor.left_neutral)
  with assms(1,2) have "crc_bytes 0xFFFFFFFF as XOR le_word xs = crc_bytes 0xFFFFFFFF as XOR le_word ys"
    by (simp add: crc_bytes_word crc_bits_inj)
  then have "le_word xs = (le_word ys :: u32)"
    by (simp only: xor.commute [of "crc_bytes 0xFFFFFFFF as"] xor_right_cancel)
  with assms show False using le_word_inj [of xs ys, where 'a = 32] by simp
qed

end
