(* ===== verification/LdbLog.thy ===== *)
theory LdbLog
  imports LdbCrc LdbBase
begin

unbundle bit_operations_syntax

text \<open>
  The write-ahead log (\<open>db/log_format.h\<close>, \<open>db/log_writer.cc\<close>, \<open>db/log_reader.cc\<close>) over the file classes
  of \<open>util/env_posix.cc\<close>.

  A file opened for reading is the bytes that are still to be read and a flag that says whether
  the device fails behind them; a file opened for writing is the bytes written so far and the
  space left.  \<open>errno\<close> enters only as the text of the error message.  The checksum does not depend
  on the address of the data (\<open>Extend_Extend\<close>), so the model computes it at address 0.
\<close>

section \<open>Files\<close>

record SequentialFile =
  sf_name :: slice
  sf_data :: slice
  sf_fails :: bool
  sf_error :: slice

definition SequentialFile_Read :: "nat \<Rightarrow> SequentialFile \<Rightarrow> status \<times> slice \<times> SequentialFile" where
  "SequentialFile_Read n f =
     (let result = take n (sf_data f);
          s = (if length result < n \<and> sf_fails f then IOError (sf_name f) (sf_error f) else Status_OK)
      in (s, result, f\<lparr>sf_data := drop n (sf_data f)\<rparr>))"

definition SequentialFile_Skip :: "u64 \<Rightarrow> SequentialFile \<Rightarrow> status \<times> SequentialFile" where
  "SequentialFile_Skip n f =
     (if sf_fails f then (IOError (sf_name f) (sf_error f), f)
      else (Status_OK, f\<lparr>sf_data := drop (unat n) (sf_data f)\<rparr>))"

record WritableFile =
  wf_name :: slice
  wf_data :: slice
  wf_space :: nat
  wf_flushes :: bool
  wf_error :: slice

definition WritableFile_Append :: "slice \<Rightarrow> WritableFile \<Rightarrow> status \<times> WritableFile" where
  "WritableFile_Append data f =
     (let r = min (length data) (wf_space f);
          f' = f\<lparr>wf_data := wf_data f @ take r data, wf_space := wf_space f - r\<rparr>
      in (if r \<noteq> length data then IOError (wf_name f) (wf_error f) else Status_OK, f'))"

definition WritableFile_Flush :: "WritableFile \<Rightarrow> status" where
  "WritableFile_Flush f = (if wf_flushes f then Status_OK else IOError (wf_name f) (wf_error f))"

section \<open>The format\<close>

definition kZeroType :: u32 where "kZeroType = 0"

definition kFullType :: u32 where "kFullType = 1"

definition kFirstType :: u32 where "kFirstType = 2"

definition kMiddleType :: u32 where "kMiddleType = 3"

definition kLastType :: u32 where "kLastType = 4"

definition kMaxRecordType :: u32 where "kMaxRecordType = kLastType"

definition kBlockSize :: nat where "kBlockSize = 32768"

definition kHeaderSize :: nat where "kHeaderSize = 4 + 2 + 1"

definition kEof :: u32 where "kEof = kMaxRecordType + 1"

definition kBadRecord :: u32 where "kBadRecord = kMaxRecordType + 2"

section \<open>The writer\<close>

record Writer =
  w_dest :: WritableFile
  block_offset :: nat
  type_crc :: "u32 list"

definition Writer_new :: "WritableFile \<Rightarrow> Writer" where
  "Writer_new dest =
     \<lparr>w_dest = dest, block_offset = 0, type_crc = map (\<lambda>i. Value 0 [of_nat i]) [0..<unat kMaxRecordType + 1]\<rparr>"

definition EmitPhysicalRecord :: "u32 \<Rightarrow> slice \<Rightarrow> Writer \<Rightarrow> (status \<times> Writer) option" where
  "EmitPhysicalRecord t data w =
     (let n = length data in
      if 0xFFFF < n \<or> kBlockSize < block_offset w + kHeaderSize + n then None
      else
        let crc = Mask (Extend 0 (type_crc w ! unat t) data);
            buf = EncodeFixed32 crc @ [of_nat (n mod 256), of_nat (n div 256), ucast t];
            (s, f) = WritableFile_Append buf (w_dest w);
            (s, f) = (if Status_ok s then WritableFile_Append data f else (s, f));
            s = (if Status_ok s then WritableFile_Flush f else s)
        in Some (s, w\<lparr>w_dest := f, block_offset := block_offset w + kHeaderSize + n\<rparr>))"

text \<open>The switch to a new block; the status of the append is not looked at.\<close>

definition switch_block :: "Writer \<Rightarrow> Writer" where
  "switch_block w =
     (let leftover = kBlockSize - block_offset w in
      if leftover < kHeaderSize then
        w\<lparr>w_dest := (if 0 < leftover then snd (WritableFile_Append (replicate leftover 0) (w_dest w)) else w_dest w),
          block_offset := 0\<rparr>
      else w)"

lemma block_offset_switch:
  "block_offset w \<le> kBlockSize \<Longrightarrow> block_offset (switch_block w) + kHeaderSize \<le> kBlockSize"
  by (auto simp: switch_block_def Let_def kBlockSize_def kHeaderSize_def)

lemma block_offset_Emit:
  "EmitPhysicalRecord t data w = Some (s, w') \<Longrightarrow> block_offset w' = block_offset w + kHeaderSize + length data"
  by (auto simp: EmitPhysicalRecord_def Let_def split: if_splits prod.splits)

definition record_type :: "bool \<Rightarrow> bool \<Rightarrow> u32" where
  "record_type is_begin is_end =
     (if is_begin \<and> is_end then kFullType else if is_begin then kFirstType else if is_end then kLastType else kMiddleType)"

text \<open>The loop of \<open>AddRecord\<close>; \<open>None\<close> where an assertion fails.\<close>

function AddRecord_loop :: "bool \<Rightarrow> slice \<Rightarrow> Writer \<Rightarrow> (status \<times> Writer) option" where
  "AddRecord_loop is_begin data w =
     (if kBlockSize < block_offset w then None
      else
        let w = switch_block w;
            left = length data;
            avail = kBlockSize - block_offset w - kHeaderSize;
            fragment_length = (if left < avail then left else avail);
            is_end = (left = fragment_length)
        in case EmitPhysicalRecord (record_type is_begin is_end) (take fragment_length data) w of
             None \<Rightarrow> None
           | Some (s, w) \<Rightarrow>
               if Status_ok s \<and> 0 < left - fragment_length then AddRecord_loop False (drop fragment_length data) w
               else Some (s, w))"
  by pat_completeness auto

termination
proof (relation "inv_image (less_than <*lex*> less_than)
    (\<lambda>(b, data, w). (length data, if block_offset (switch_block w) + kHeaderSize = kBlockSize then 1 else 0 :: nat))", goal_cases)
  case (2 b data w w1 left avail flen is_end a s w2)
  have off: "block_offset w1 + kHeaderSize \<le> kBlockSize"
    using 2 block_offset_switch [of w] by simp
  show ?case
  proof (cases "flen = 0")
    case False
    then show ?thesis using 2 by auto
  next
    case True
    then have avail: "block_offset w1 + kHeaderSize = kBlockSize" using 2 off by (auto split: if_splits)
    then have "block_offset w2 = kBlockSize" using 2 True block_offset_Emit [of _ _ w1 s w2] by auto
    then have "block_offset (switch_block w2) = 0" by (simp add: switch_block_def Let_def kHeaderSize_def)
    then have "block_offset (switch_block w2) + kHeaderSize \<noteq> kBlockSize" by (simp add: kHeaderSize_def kBlockSize_def)
    then show ?thesis using 2 True avail by auto
  qed
qed auto

declare AddRecord_loop.simps [simp del]

definition AddRecord :: "slice \<Rightarrow> Writer \<Rightarrow> (status \<times> Writer) option" where
  "AddRecord data w = AddRecord_loop True data w"

section \<open>The reader\<close>

record Reader =
  r_file :: SequentialFile
  r_reports :: "(u64 \<times> status) list option"
  r_checksum :: bool
  r_buffer :: slice
  r_eof :: bool
  last_record_offset :: u64
  end_of_buffer_offset :: u64
  initial_offset :: u64

definition Reader_new :: "SequentialFile \<Rightarrow> bool \<Rightarrow> bool \<Rightarrow> u64 \<Rightarrow> Reader" where
  "Reader_new file reporter checksum initial =
     \<lparr>r_file = file, r_reports = (if reporter then Some [] else None), r_checksum = checksum, r_buffer = [], r_eof = False,
      last_record_offset = 0, end_of_buffer_offset = 0, initial_offset = initial\<rparr>"

definition ReportDrop :: "u64 \<Rightarrow> status \<Rightarrow> Reader \<Rightarrow> Reader" where
  "ReportDrop bytes reason r =
     (case r_reports r of
        None \<Rightarrow> r
      | Some reports \<Rightarrow>
          if end_of_buffer_offset r - of_nat (length (r_buffer r)) - bytes \<ge> initial_offset r
          then r\<lparr>r_reports := Some (reports @ [(bytes, reason)])\<rparr> else r)"

definition ReportCorruption :: "u64 \<Rightarrow> string \<Rightarrow> Reader \<Rightarrow> Reader" where
  "ReportCorruption bytes reason r = ReportDrop bytes (Corruption (str reason) []) r"

definition SkipToInitialBlock :: "Reader \<Rightarrow> bool \<times> Reader" where
  "SkipToInitialBlock r =
     (let offset_in_block = initial_offset r mod of_nat kBlockSize;
          block_start_location = initial_offset r - offset_in_block;
          block_start_location =
            (if offset_in_block > of_nat kBlockSize - 6 then block_start_location + of_nat kBlockSize else block_start_location);
          r = r\<lparr>end_of_buffer_offset := block_start_location\<rparr>
      in if block_start_location > 0 then
           let (skip_status, f) = SequentialFile_Skip block_start_location (r_file r); r = r\<lparr>r_file := f\<rparr>
           in if \<not> Status_ok skip_status then (False, ReportDrop block_start_location skip_status r) else (True, r)
         else (True, r))"

text \<open>The header and the checks of one physical record in the buffer.\<close>

definition parse_record :: "Reader \<Rightarrow> u32 \<times> slice \<times> Reader" where
  "parse_record r =
     (let header = r_buffer r;
          a = scast (header ! 4) AND 0xFF :: u32;
          b = scast (header ! 5) AND 0xFF :: u32;
          type = scast (header ! 6) :: u32;
          len = unat (a OR push_bit 8 b)
      in if kHeaderSize + len > length (r_buffer r) then
           let drop_size = length (r_buffer r); r = r\<lparr>r_buffer := []\<rparr>
           in if \<not> r_eof r then (kBadRecord, [], ReportCorruption (of_nat drop_size) ''bad record length'' r)
              else (kEof, [], r)
         else if type = kZeroType \<and> len = 0 then (kBadRecord, [], r\<lparr>r_buffer := []\<rparr>)
         else if r_checksum r \<and>
             Value 0 (take (1 + len) (drop 6 header)) \<noteq> Unmask (the (DecodeFixed32 header)) then
           let drop_size = length (r_buffer r); r = r\<lparr>r_buffer := []\<rparr>
           in (kBadRecord, [], ReportCorruption (of_nat drop_size) ''checksum mismatch'' r)
         else
           let r = r\<lparr>r_buffer := drop (kHeaderSize + len) (r_buffer r)\<rparr>
           in if end_of_buffer_offset r - of_nat (length (r_buffer r)) - of_nat kHeaderSize - of_nat len < initial_offset r
              then (kBadRecord, [], r)
              else (type, take len (drop kHeaderSize header), r))"

text \<open>Reading the next block into the buffer.\<close>

definition refill :: "Reader \<Rightarrow> status \<times> Reader" where
  "refill r =
     (let (status, buf, f) = SequentialFile_Read kBlockSize (r_file r);
          r = r\<lparr>r_file := f, r_buffer := buf, end_of_buffer_offset := end_of_buffer_offset r + of_nat (length buf)\<rparr>
      in if \<not> Status_ok status then
           let r = ReportDrop (of_nat kBlockSize) status (r\<lparr>r_buffer := []\<rparr>) in (status, r\<lparr>r_eof := True\<rparr>)
         else (status, if length buf < kBlockSize then r\<lparr>r_eof := True\<rparr> else r))"

function ReadPhysicalRecord :: "Reader \<Rightarrow> u32 \<times> slice \<times> Reader" where
  "ReadPhysicalRecord r =
     (if length (r_buffer r) < kHeaderSize then
        if \<not> r_eof r then
          (case refill r of (status, r) \<Rightarrow> if \<not> Status_ok status then (kEof, [], r) else ReadPhysicalRecord r)
        else (kEof, [], r\<lparr>r_buffer := []\<rparr>)
      else parse_record r)"
  by pat_completeness auto
termination
  by (relation "measure (\<lambda>r. if length (r_buffer r) < kHeaderSize \<and> \<not> r_eof r then 1 else 0)")
     (auto simp: refill_def SequentialFile_Read_def kHeaderSize_def kBlockSize_def Let_def split: if_splits)

declare ReadPhysicalRecord.simps [simp del]

definition unread :: "Reader \<Rightarrow> nat" where
  "unread r = length (r_buffer r) + length (sf_data (r_file r))"

lemma Report_unread [simp]:
  "unread (ReportDrop n st r) = unread r" "unread (ReportCorruption n t r) = unread r"
  by (auto simp: unread_def ReportDrop_def ReportCorruption_def split: option.splits)

lemma parse_record_unread:
  "parse_record r = (t, frag, r') \<Longrightarrow> kHeaderSize \<le> length (r_buffer r) \<Longrightarrow> t = kEof \<or> unread r' < unread r"
  by (auto simp: parse_record_def Let_def kHeaderSize_def split: if_splits) (auto simp: unread_def)

text \<open>Every physical record takes bytes from the input.\<close>

lemma refill_unread: "refill r = (st, r') \<Longrightarrow> unread r' \<le> unread r"
  by (auto simp: refill_def SequentialFile_Read_def Let_def split: if_splits) (auto simp: unread_def ReportDrop_def split: option.splits)

lemma ReadPhysicalRecord_unread: "ReadPhysicalRecord r = (t, frag, r') \<Longrightarrow> t = kEof \<or> unread r' < unread r"
proof (induction r rule: ReadPhysicalRecord.induct)
  case (1 r)
  consider "\<not> length (r_buffer r) < kHeaderSize" | "length (r_buffer r) < kHeaderSize" "r_eof r"
    | "length (r_buffer r) < kHeaderSize" "\<not> r_eof r" by blast
  then show ?case
  proof cases
    case 1
    then show ?thesis using "1.prems" parse_record_unread by (auto simp: ReadPhysicalRecord.simps [of r])
  next
    case 2
    then show ?thesis using "1.prems" by (simp add: ReadPhysicalRecord.simps [of r])
  next
    case 3
    obtain st r2 where r2: "refill r = (st, r2)" by fastforce
    then show ?thesis
      using "1.prems" "1.IH" [OF 3 r2 [symmetric]] 3 refill_unread [OF r2]
      by (cases "Status_ok st") (auto simp: ReadPhysicalRecord.simps [of r])
  qed
qed

text \<open>
  The loop of \<open>ReadRecord\<close>, with \<open>in_fragmented_record\<close>, \<open>*scratch\<close> and \<open>prospective_record_offset\<close>;
  the result is the record, or \<open>None\<close> at the end of the input.
\<close>

function ReadRecord_loop :: "bool \<Rightarrow> slice \<Rightarrow> u64 \<Rightarrow> Reader \<Rightarrow> slice option \<times> Reader" where
  "ReadRecord_loop in_frag scratch prospective r =
     (let physical_record_offset = end_of_buffer_offset r - of_nat (length (r_buffer r));
          (record_type, fragment, r) = ReadPhysicalRecord r
      in if record_type = kEof then (None, r)
         else if record_type = kFullType then
           let r = (if in_frag \<and> scratch \<noteq> [] then ReportCorruption (of_nat (length scratch)) ''partial record without end(1)'' r else r)
           in (Some fragment, r\<lparr>last_record_offset := physical_record_offset\<rparr>)
         else if record_type = kFirstType then
           let r = (if in_frag \<and> scratch \<noteq> [] then ReportCorruption (of_nat (length scratch)) ''partial record without end(2)'' r else r)
           in ReadRecord_loop True fragment physical_record_offset r
         else if record_type = kMiddleType then
           (if \<not> in_frag then
              ReadRecord_loop in_frag scratch prospective
                (ReportCorruption (of_nat (length fragment)) ''missing start of fragmented record(1)'' r)
            else ReadRecord_loop in_frag (scratch @ fragment) prospective r)
         else if record_type = kLastType then
           (if \<not> in_frag then
              ReadRecord_loop in_frag scratch prospective
                (ReportCorruption (of_nat (length fragment)) ''missing start of fragmented record(2)'' r)
            else (Some (scratch @ fragment), r\<lparr>last_record_offset := prospective\<rparr>))
         else if record_type = kBadRecord then
           (if in_frag then
              ReadRecord_loop False [] prospective (ReportCorruption (of_nat (length scratch)) ''error in middle of record'' r)
            else ReadRecord_loop in_frag scratch prospective r)
         else
           ReadRecord_loop False [] prospective
             (ReportCorruption (of_nat (length fragment + (if in_frag then length scratch else 0)))
               (''unknown record type '' @ print_int (uint record_type)) r))"
  by pat_completeness auto
termination
  by (relation "measure (\<lambda>(in_frag, scratch, prospective, r). unread r)")
     (auto dest!: sym [of _ "ReadPhysicalRecord _"] ReadPhysicalRecord_unread)

declare ReadRecord_loop.simps [simp del]

definition ReadRecord :: "Reader \<Rightarrow> slice option \<times> Reader" where
  "ReadRecord r =
     (let (ok, r) = (if last_record_offset r < initial_offset r then SkipToInitialBlock r else (True, r))
      in if \<not> ok then (None, r) else ReadRecord_loop False [] 0 r)"

end
