(* ===== verification/LdbLogSpec.thy ===== *)
theory LdbLogSpec
  imports LdbLog "HOL-Library.Sublist"
begin

unbundle bit_operations_syntax

text \<open>
  The log file as a format, and the proof that the writer produces it and the reader accepts it.

  \<open>log_record\<close> is the grammar of \<open>doc/log_format.txt\<close>: a logical record is a sequence of physical
  records, each inside one block of 32 KiB, with a trailer of zeros where the rest of a block is
  too short for a header.  \<open>log_at off S r\<close> says that the reader \<open>r\<close> stands \<open>off\<close> bytes into a block and
  still has the bytes \<open>S\<close> in front of it, part of them in its buffer and the rest in the file.
\<close>

section \<open>The format\<close>

definition physical_record :: "u32 \<Rightarrow> slice \<Rightarrow> slice" where
  "physical_record t data =
     EncodeFixed32 (Mask (Value 0 (ucast t # data))) @
     [of_nat (length data mod 256), of_nat (length data div 256), ucast t] @ data"

definition trailer :: "nat \<Rightarrow> slice" where
  "trailer off = (if kBlockSize - off < kHeaderSize then replicate (kBlockSize - off) 0 else [])"

definition record_start :: "nat \<Rightarrow> nat" where
  "record_start off = (if kBlockSize - off < kHeaderSize then 0 else off)"

inductive log_record :: "bool \<Rightarrow> slice \<Rightarrow> nat \<Rightarrow> slice \<Rightarrow> nat \<Rightarrow> bool" where
  whole: "off \<le> kBlockSize \<Longrightarrow> record_start off + kHeaderSize + length d \<le> kBlockSize \<Longrightarrow>
    log_record b d off (trailer off @ physical_record (record_type b True) d) (record_start off + kHeaderSize + length d)"
| split: "off \<le> kBlockSize \<Longrightarrow> record_start off + kHeaderSize + length f = kBlockSize \<Longrightarrow>
    log_record False d kBlockSize bytes off' \<Longrightarrow>
    log_record b (f @ d) off (trailer off @ physical_record (record_type b False) f @ bytes) off'"

inductive log_file :: "slice list \<Rightarrow> nat \<Rightarrow> slice \<Rightarrow> nat \<Rightarrow> bool" where
  log_file_Nil: "off \<le> kBlockSize \<Longrightarrow> log_file [] off [] off"
| log_file_Cons: "log_record True d off bytes off1 \<Longrightarrow> log_file ds off1 rest off' \<Longrightarrow> log_file (d # ds) off (bytes @ rest) off'"

inductive_cases log_file_ConsE: "log_file (d # ds) off bytes off'"

lemmas sizes = kBlockSize_def kHeaderSize_def

lemma length_physical_record [simp]: "length (physical_record t d) = kHeaderSize + length d"
  by (simp add: physical_record_def EncodeFixed32_def kHeaderSize_def)

lemma record_start_room: "off \<le> kBlockSize \<Longrightarrow> record_start off + kHeaderSize \<le> kBlockSize"
  by (auto simp: record_start_def sizes)

lemma log_record_offset: "log_record b d off bytes off' \<Longrightarrow> off' \<le> kBlockSize"
  by (induction rule: log_record.induct) auto

lemma log_file_offset: "log_file ds off bytes off' \<Longrightarrow> off' \<le> kBlockSize"
  by (induction rule: log_file.induct) auto

lemma log_record_nonempty: "log_record b d off bytes off' \<Longrightarrow> bytes \<noteq> []"
  by (erule log_record.cases) (auto dest!: arg_cong [of _ "[]" length] simp: kHeaderSize_def)

section \<open>The position of the reader\<close>

definition log_at :: "nat \<Rightarrow> slice \<Rightarrow> Reader \<Rightarrow> bool" where
  "log_at off S r \<longleftrightarrow> off \<le> kBlockSize \<and> r_buffer r = take (kBlockSize - off) S \<and>
     sf_data (r_file r) = drop (kBlockSize - off) S \<and> \<not> sf_fails (r_file r) \<and>
     r_eof r = (length S < kBlockSize - off) \<and> initial_offset r = 0"

lemma log_at_new: "\<not> sf_fails f \<Longrightarrow> log_at kBlockSize (sf_data f) (Reader_new f reporter checksum 0)"
  by (simp add: log_at_def Reader_new_def)

text \<open>A trailer is skipped by reading the next block.\<close>

lemma refill_ok:
  "\<not> sf_fails (r_file r) \<Longrightarrow> refill r =
     (let buf = take kBlockSize (sf_data (r_file r)) in
      (Status_OK, r\<lparr>r_file := r_file r\<lparr>sf_data := drop kBlockSize (sf_data (r_file r))\<rparr>, r_buffer := buf,
         end_of_buffer_offset := end_of_buffer_offset r + of_nat (length buf),
         r_eof := r_eof r \<or> length buf < kBlockSize\<rparr>))"
  by (cases "length (take kBlockSize (sf_data (r_file r))) < kBlockSize")
     (simp_all add: refill_def SequentialFile_Read_def Status_ok_def Status_OK_def Let_def)

lemma log_at_refill:
  assumes at: "log_at off (trailer off @ S) r" and short: "kBlockSize - off < kHeaderSize"
  shows "\<exists>r'. log_at 0 S r' \<and> r_reports r' = r_reports r \<and> ReadPhysicalRecord r = ReadPhysicalRecord r'"
proof -
  have len: "length (trailer off) = kBlockSize - off" using short by (simp add: trailer_def)
  have buf: "r_buffer r = trailer off" "sf_data (r_file r) = S" and r: "\<not> sf_fails (r_file r)" "\<not> r_eof r" "initial_offset r = 0"
    using at len by (auto simp: log_at_def)
  have "ReadPhysicalRecord r = ReadPhysicalRecord (snd (refill r))"
    using short r len by (simp add: ReadPhysicalRecord.simps [of r] refill_ok Let_def buf Status_ok_def Status_OK_def)
  moreover have "log_at 0 S (snd (refill r))" "r_reports (snd (refill r)) = r_reports r"
    using r by (auto simp: refill_ok Let_def buf log_at_def)
  ultimately show ?thesis by blast
qed

lemma scast_byte: "(scast (x :: u8) AND 0xFF :: u32) = ucast x"
proof (rule bit_word_eqI)
  fix n
  assume "n < LENGTH(32)"
  then show "bit (scast x AND 0xFF :: u32) n = bit (ucast x :: u32) n"
    by (cases "n < 7") (auto simp: bit_simps low_byte min_def less_Suc_eq eval_nat_numeral dest: bit_u8)
qed

lemma unat_u8: "unat (x :: u8) < 256"
  using unsigned_less [of x] by simp

lemma unat_length_field: "unat ((ucast (x :: u8) :: u32) OR push_bit 8 (ucast (y :: u8))) = unat x + 256 * unat y"
proof -
  have x: "unat (ucast x :: u32) = unat x" "unat x < 256" and y: "unat (ucast y :: u32) = unat y" "unat y < 256"
    using unat_u8 [of x] unat_u8 [of y]
    by (simp_all add: unsigned_ucast_eq take_bit_nat_eq_self)
  have "(ucast x :: u32) OR push_bit 8 (ucast y) = ucast x + push_bit 8 (ucast y)"
    by (rule disjunctive_add [symmetric]) (auto simp: bit_simps dest: bit_u8)
  then show ?thesis using x y by (simp add: push_bit_eq_mult unat_word_ariths)
qed

lemma length_field:
  assumes "n < 65536"
  shows "unat ((ucast (of_nat (n mod 256) :: u8) :: u32) OR push_bit 8 (ucast (of_nat (n div 256) :: u8))) = n"
  using assms by (simp add: unat_length_field unat_of_nat take_bit_nat_eq_self)

lemma record_type_byte [simp]: "scast (ucast (record_type b e) :: u8) = record_type b e"
  by (simp add: record_type_def kFullType_def kFirstType_def kLastType_def kMiddleType_def)

lemma record_type_neq [simp]:
  "record_type b e \<noteq> kZeroType" "record_type b e \<noteq> kEof" "record_type b e \<noteq> kBadRecord"
  by (simp_all add: record_type_def kFullType_def kFirstType_def kLastType_def kMiddleType_def kZeroType_def
      kEof_def kBadRecord_def kMaxRecordType_def)

lemma header_fields:
  assumes S: "take 7 S = take 7 (physical_record t d)"
  shows "S ! 4 = of_nat (length d mod 256)" "S ! 5 = of_nat (length d div 256)" "S ! 6 = ucast t"
    "DecodeFixed32 S = Some (Mask (Value 0 (ucast t # d)))"
proof -
  have take: "take 7 S = EncodeFixed32 (Mask (Value 0 (ucast t # d))) @ [of_nat (length d mod 256), of_nat (length d div 256), ucast t]"
    by (simp add: S physical_record_def EncodeFixed32_def)
  have nth: "i < 7 \<Longrightarrow> S ! i = take 7 S ! i" for i by simp
  show "S ! 4 = of_nat (length d mod 256)" "S ! 5 = of_nat (length d div 256)" "S ! 6 = ucast t"
    by (simp_all add: nth take nth_append EncodeFixed32_def)
  have "take 4 S = take 4 (take 7 S)" by simp
  then have "take 4 S = le_bytes 4 (Mask (Value 0 (ucast t # d)))" by (simp only: take) (simp add: EncodeFixed32_def)
  moreover have "4 \<le> length S" using arg_cong [OF S, of length] by (simp add: kHeaderSize_def)
  ultimately show "DecodeFixed32 S = Some (Mask (Value 0 (ucast t # d)))" by simp
qed

lemma parse_physical_record:
  assumes at: "log_at off (physical_record t d @ rest) r" and fits: "off + kHeaderSize + length d \<le> kBlockSize"
    and t: "scast (ucast t :: u8) = t" "t \<noteq> kZeroType"
  shows "\<exists>r'. parse_record r = (t, d, r') \<and> log_at (off + kHeaderSize + length d) rest r' \<and> r_reports r' = r_reports r"
proof -
  let ?rest = "take (kBlockSize - off - (kHeaderSize + length d)) rest"
  have buf: "r_buffer r = physical_record t d @ ?rest"
    using at fits by (simp add: log_at_def)
  have len: "length d < 65536" using fits by (simp add: sizes)
  have drop: "drop 6 (physical_record t d) = ucast t # d" "drop 7 (physical_record t d) = d"
    by (simp_all add: physical_record_def EncodeFixed32_def kHeaderSize_def)
  have "take 7 (r_buffer r) = take 7 (physical_record t d)" by (simp add: buf kHeaderSize_def)
  note hd = header_fields [OF this]
  have "parse_record r = (t, d, r\<lparr>r_buffer := ?rest\<rparr>)"
    using t at by (simp add: parse_record_def hd scast_byte length_field [OF len] Let_def del: DecodeFixed32.simps)
      (simp add: buf drop log_at_def kHeaderSize_def)
  moreover have "log_at (off + kHeaderSize + length d) rest (r\<lparr>r_buffer := ?rest\<rparr>)"
    using at fits by (auto simp: log_at_def diff_diff_left add.assoc)
  ultimately show ?thesis by auto
qed

lemma parse_truncated_record:
  assumes at: "log_at off S r" and fits: "off + kHeaderSize + length d \<le> kBlockSize"
    and S: "strict_prefix S (physical_record t d)" "kHeaderSize \<le> length S"
  shows "\<exists>r'. parse_record r = (kEof, [], r') \<and> r_reports r' = r_reports r"
proof -
  have "length S < kHeaderSize + length d" using S(1) by (metis length_physical_record prefix_length_less)
  then have short: "length S < kBlockSize - off" using fits by simp
  then have buf: "r_buffer r = S" and eof: "r_eof r" using at by (auto simp: log_at_def)
  have len: "length d < 65536" using fits by (simp add: sizes)
  have "take 7 S = take 7 (physical_record t d)"
    using S by (auto simp: strict_prefix_def prefix_def kHeaderSize_def)
  note hd = header_fields [OF this]
  show ?thesis
    using \<open>length S < kHeaderSize + length d\<close> eof
    by (simp add: parse_record_def buf hd scast_byte length_field [OF len] Let_def del: DecodeFixed32.simps)
qed

section \<open>Reading what was written\<close>

lemma log_at_eof:
  assumes at: "log_at off S r" and short: "length S < kBlockSize - off" "length S < kHeaderSize"
  shows "\<exists>r'. ReadPhysicalRecord r = (kEof, [], r') \<and> r_reports r' = r_reports r"
proof -
  have "r_buffer r = S" "r_eof r" using at short by (auto simp: log_at_def)
  then show ?thesis using short by (simp add: ReadPhysicalRecord.simps [of r])
qed

text \<open>A physical record with its trailer, read in full.\<close>

lemma ReadPhysicalRecord_whole:
  assumes at: "log_at off (trailer off @ physical_record (record_type b e) d @ rest) r"
    and fits: "record_start off + kHeaderSize + length d \<le> kBlockSize"
  shows "\<exists>r'. ReadPhysicalRecord r = (record_type b e, d, r') \<and>
    log_at (record_start off + kHeaderSize + length d) rest r' \<and> r_reports r' = r_reports r"
proof -
  obtain r1 where r1: "log_at (record_start off) (physical_record (record_type b e) d @ rest) r1"
    "r_reports r1 = r_reports r" "ReadPhysicalRecord r = ReadPhysicalRecord r1"
    using at log_at_refill [OF at] by (cases "kBlockSize - off < kHeaderSize") (auto simp: record_start_def trailer_def)
  have "kHeaderSize \<le> length (r_buffer r1)" using r1(1) fits by (auto simp: log_at_def)
  then have "ReadPhysicalRecord r1 = parse_record r1" by (simp add: ReadPhysicalRecord.simps [of r1])
  then show ?thesis using parse_physical_record [OF r1(1) fits] r1(2,3) by auto
qed

lemma strict_prefix_append_cases:
  assumes "strict_prefix S (A @ B)"
  obtains "strict_prefix S A" | T where "S = A @ T" "strict_prefix T B"
  using assms by (cases "S = A") (auto simp: strict_prefix_def prefix_append)

text \<open>A file that ends inside a trailer or inside a physical record.\<close>

lemma ReadPhysicalRecord_truncated:
  assumes at: "log_at off S r" and S: "strict_prefix S (trailer off @ physical_record (record_type b e) d)"
    and fits: "record_start off + kHeaderSize + length d \<le> kBlockSize"
  shows "\<exists>r'. ReadPhysicalRecord r = (kEof, [], r') \<and> r_reports r' = r_reports r"
  using S
proof (cases rule: strict_prefix_append_cases)
  case 1
  then have "length S < kBlockSize - off" "length S < kHeaderSize"
    using prefix_length_less [OF 1] by (auto simp: trailer_def split: if_splits)
  then show ?thesis by (rule log_at_eof [OF at])
next
  case T: (2 T)
  obtain r1 where r1: "log_at (record_start off) T r1"
    "r_reports r1 = r_reports r" "ReadPhysicalRecord r = ReadPhysicalRecord r1"
    using at log_at_refill [OF at [unfolded T(1)]]
    by (cases "kBlockSize - off < kHeaderSize") (auto simp: record_start_def trailer_def T(1))
  have len: "length T < kHeaderSize + length d" using T(2) by (metis length_physical_record prefix_length_less)
  show ?thesis
  proof (cases "length T < kHeaderSize")
    case True
    then show ?thesis using log_at_eof [OF r1(1)] r1(2,3) len fits by auto
  next
    case False
    then have "ReadPhysicalRecord r1 = parse_record r1"
      using r1(1) fits len by (auto simp: log_at_def ReadPhysicalRecord.simps [of r1])
    then show ?thesis using parse_truncated_record [OF r1(1) fits T(2)] False r1(2,3) by auto
  qed
qed

lemma record_type_cases [simp]:
  "record_type True True = kFullType" "record_type True False = kFirstType"
  "record_type False True = kLastType" "record_type False False = kMiddleType"
  by (simp_all add: record_type_def)

lemma types_distinct [simp]:
  "kFirstType \<noteq> kFullType" "kMiddleType \<noteq> kFullType" "kLastType \<noteq> kFullType" "kMiddleType \<noteq> kFirstType"
  "kLastType \<noteq> kFirstType" "kLastType \<noteq> kMiddleType" "kFullType \<noteq> kEof" "kFirstType \<noteq> kEof" "kMiddleType \<noteq> kEof" "kLastType \<noteq> kEof"
  by (simp_all add: kFullType_def kFirstType_def kLastType_def kMiddleType_def kEof_def kMaxRecordType_def)

text \<open>One logical record: read in full, and a file that ends inside it.\<close>

lemma log_at_upd [simp]: "log_at off S (r\<lparr>last_record_offset := x\<rparr>) = log_at off S r"
  by (simp add: log_at_def)

lemma ReadRecord_whole:
  "log_record b d off bytes off' \<Longrightarrow> log_at off (bytes @ rest) r \<Longrightarrow> (b \<longrightarrow> scratch = []) \<Longrightarrow>
    \<exists>r'. ReadRecord_loop (\<not> b) scratch p r = (Some (scratch @ d), r') \<and> log_at off' rest r' \<and> r_reports r' = r_reports r"
proof (induction arbitrary: r scratch p rule: log_record.induct)
  case (whole off d b)
  obtain r1 where "ReadPhysicalRecord r = (record_type b True, d, r1)"
    "log_at (record_start off + kHeaderSize + length d) rest r1" "r_reports r1 = r_reports r"
    using ReadPhysicalRecord_whole [of off b True d rest r] whole by auto
  then show ?case using whole by (cases b) (simp_all add: ReadRecord_loop.simps [of _ _ _ r] Let_def)
next
  case (split off f d bytes off' b)
  obtain r1 where r1: "ReadPhysicalRecord r = (record_type b False, f, r1)"
    "log_at kBlockSize (bytes @ rest) r1" "r_reports r1 = r_reports r"
    using ReadPhysicalRecord_whole [of off b False f "bytes @ rest" r] split.prems split.hyps by auto
  then show ?case
    using split.IH [OF r1(2), of "scratch @ f"] split.prems(2)
    by (cases b) (simp_all add: ReadRecord_loop.simps [of _ _ _ r] Let_def)
qed

lemma ReadRecord_truncated:
  "log_record b d off bytes off' \<Longrightarrow> log_at off S r \<Longrightarrow> strict_prefix S bytes \<Longrightarrow> (b \<longrightarrow> scratch = []) \<Longrightarrow>
    \<exists>r'. ReadRecord_loop (\<not> b) scratch p r = (None, r') \<and> r_reports r' = r_reports r"
proof (induction arbitrary: r scratch p S rule: log_record.induct)
  case (whole off d b)
  then show ?case
    using ReadPhysicalRecord_truncated [of off S r b True d] by (auto simp: ReadRecord_loop.simps [of _ _ _ r] Let_def)
next
  case (split off f d bytes off' b)
  let ?hd = "trailer off @ physical_record (record_type b False) f"
  have "strict_prefix S (?hd @ bytes)" using split.prems(2) by simp
  then show ?case
  proof (cases rule: strict_prefix_append_cases)
    case 1
    then show ?thesis
      using ReadPhysicalRecord_truncated [of off S r b False f] split
      by (auto simp: ReadRecord_loop.simps [of _ _ _ r] Let_def)
  next
    case (2 T)
    obtain r1 where r1: "ReadPhysicalRecord r = (record_type b False, f, r1)"
      "log_at kBlockSize T r1" "r_reports r1 = r_reports r"
      using ReadPhysicalRecord_whole [of off b False f T r] split.prems(1) split.hyps 2 by auto
    then show ?thesis
      using split.IH [OF r1(2) 2(2), of "scratch @ f"] split.prems(3)
      by (cases b) (simp_all add: ReadRecord_loop.simps [of _ _ _ r] Let_def)
  qed
qed

section \<open>What the writer appends\<close>

definition advance :: "slice \<Rightarrow> WritableFile \<Rightarrow> WritableFile" where
  "advance bytes f = f\<lparr>wf_data := wf_data f @ take (wf_space f) bytes, wf_space := wf_space f - length bytes\<rparr>"

lemma advance_simps [simp]:
  "wf_data (advance a f) = wf_data f @ take (wf_space f) a" "wf_space (advance a f) = wf_space f - length a"
  "wf_flushes (advance a f) = wf_flushes f" "wf_name (advance a f) = wf_name f" "wf_error (advance a f) = wf_error f"
  by (simp_all add: advance_def)

lemma advance_advance [simp]: "advance b (advance a f) = advance (a @ b) f"
  by (simp add: advance_def)

lemma advance_Nil [simp]: "advance [] f = f"
  by (simp add: advance_def)

lemma advance_full: "wf_space f \<le> length a \<Longrightarrow> advance (a @ b) f = advance a f"
  by (simp add: advance_def)

lemma Append_advance: "WritableFile_Append data f =
    (if length data \<le> wf_space f then Status_OK else IOError (wf_name f) (wf_error f), advance data f)"
  by (auto simp: WritableFile_Append_def advance_def Let_def min_def)

lemma Status_ok_simps [simp]: "Status_ok Status_OK" "\<not> Status_ok (IOError a b)"
  by (simp_all add: Status_ok_def Status_OK_def IOError_def Status_new_def Let_def)

lemma Flush_ok [simp]: "Status_ok (WritableFile_Flush f) = wf_flushes f"
  by (simp add: WritableFile_Flush_def)

definition Writer_wf :: "Writer \<Rightarrow> bool" where
  "Writer_wf w \<longleftrightarrow> block_offset w \<le> kBlockSize \<and> (\<forall>t. t \<le> kMaxRecordType \<longrightarrow> type_crc w ! unat t = Value 0 [ucast t])"

lemma Writer_wf_new [simp]: "Writer_wf (Writer_new f)"
proof -
  have "type_crc (Writer_new f) ! unat t = Value 0 [ucast t]" if "t \<le> kMaxRecordType" for t
  proof -
    have "unat t < unat kMaxRecordType + 1" using that by (simp add: word_le_nat_alt)
    then show ?thesis by (simp add: Writer_new_def del: upt_Suc upt.simps) 
  qed
  then show ?thesis by (simp add: Writer_wf_def Writer_new_def)
qed

lemma Emit_advance:
  assumes wf: "Writer_wf w" and t: "t \<le> kMaxRecordType" and fits: "block_offset w + kHeaderSize + length d \<le> kBlockSize"
  shows "\<exists>s. EmitPhysicalRecord t d w =
      Some (s, w\<lparr>w_dest := advance (physical_record t d) (w_dest w), block_offset := block_offset w + kHeaderSize + length d\<rparr>) \<and>
    Status_ok s = (length (physical_record t d) \<le> wf_space (w_dest w) \<and> wf_flushes (w_dest w))"
proof -
  have crc: "type_crc w ! unat t = Value 0 [ucast t]" using wf t by (simp add: Writer_wf_def)
  define hdr where "hdr = EncodeFixed32 (Mask (Value 0 (ucast t # d))) @ [of_nat (length d mod 256), of_nat (length d div 256), ucast t]"
  have rec: "physical_record t d = hdr @ d" and len: "length hdr = kHeaderSize"
    by (simp_all add: physical_record_def hdr_def EncodeFixed32_def kHeaderSize_def)
  have "length d \<le> 0xFFFF" using fits by (simp add: sizes)
  then have "EmitPhysicalRecord t d w =
      (let (s, f) = WritableFile_Append hdr (w_dest w);
           (s, f) = (if Status_ok s then WritableFile_Append d f else (s, f));
           s = (if Status_ok s then WritableFile_Flush f else s)
       in Some (s, w\<lparr>w_dest := f, block_offset := block_offset w + kHeaderSize + length d\<rparr>))"
    using fits by (simp add: EmitPhysicalRecord_def hdr_def crc Value_def Extend_Extend [where r = 0] Let_def)
  then show ?thesis
    by (cases "kHeaderSize \<le> wf_space (w_dest w)") (auto simp: Append_advance rec advance_full len Let_def)
qed

lemma switch_block_advance:
  "block_offset w \<le> kBlockSize \<Longrightarrow>
    switch_block w = w\<lparr>w_dest := advance (trailer (block_offset w)) (w_dest w), block_offset := record_start (block_offset w)\<rparr>"
  by (auto simp: switch_block_def trailer_def record_start_def Let_def Append_advance)

lemma Writer_wf_upd [simp]: "Writer_wf (w\<lparr>w_dest := f, block_offset := off\<rparr>) = (off \<le> kBlockSize \<and> Writer_wf (w\<lparr>block_offset := 0\<rparr>))"
  by (auto simp: Writer_wf_def)

lemma record_type_le [simp]: "record_type b e \<le> kMaxRecordType"
  by (simp add: record_type_def kFullType_def kFirstType_def kLastType_def kMiddleType_def kMaxRecordType_def)

text \<open>The loop of \<open>AddRecord\<close> writes a logical record of the format, or, when it fails, a prefix of one.\<close>

lemma log_record_exists_block: "\<exists>bytes off'. log_record b d kBlockSize bytes off'"
proof (induction d arbitrary: b rule: length_induct)
  case (1 d)
  let ?n = "kBlockSize - kHeaderSize"
  have start: "record_start kBlockSize = 0" by (simp add: record_start_def kHeaderSize_def)
  show ?case
  proof (cases "length d \<le> ?n")
    case True
    then have "record_start kBlockSize + kHeaderSize + length d \<le> kBlockSize" by (simp add: start) (simp add: sizes)
    then show ?thesis using whole [of kBlockSize d b] by blast
  next
    case False
    then have "\<exists>bytes off'. log_record False (drop ?n d) kBlockSize bytes off'"
      by (intro "1.IH" [rule_format]) (simp add: sizes)
    moreover have "record_start kBlockSize + kHeaderSize + length (take ?n d) = kBlockSize"
      using False by (simp add: start) (simp add: sizes)
    ultimately show ?thesis using split [of kBlockSize "take ?n d" "drop ?n d" _ _ b] by (metis append_take_drop_id order_refl)
  qed
qed

definition appends :: "Writer \<Rightarrow> bool \<Rightarrow> slice \<Rightarrow> (status \<times> Writer) option \<Rightarrow> bool" where
  "appends w b d res \<longleftrightarrow> (\<exists>s w' bytes off'. res = Some (s, w') \<and> log_record b d (block_offset w) bytes off' \<and>
     Status_ok s = (length bytes \<le> wf_space (w_dest w) \<and> wf_flushes (w_dest w)) \<and>
     (Status_ok s \<longrightarrow> w' = w\<lparr>w_dest := advance bytes (w_dest w), block_offset := off'\<rparr>) \<and>
     (\<not> Status_ok s \<longrightarrow> (\<exists>out. prefix out bytes \<and> wf_data (w_dest w') = wf_data (w_dest w) @ out)))"

lemma appendsI:
  "log_record b d (block_offset w) bytes off' \<Longrightarrow> Status_ok s \<Longrightarrow> length bytes \<le> wf_space (w_dest w) \<Longrightarrow> wf_flushes (w_dest w) \<Longrightarrow>
    appends w b d (Some (s, w\<lparr>w_dest := advance bytes (w_dest w), block_offset := off'\<rparr>))"
  by (auto simp: appends_def)

lemma appendsI_fail:
  "log_record b d (block_offset w) bytes off' \<Longrightarrow> \<not> Status_ok s \<Longrightarrow> \<not> (length bytes \<le> wf_space (w_dest w) \<and> wf_flushes (w_dest w)) \<Longrightarrow>
    prefix out bytes \<Longrightarrow> wf_data (w_dest w') = wf_data (w_dest w) @ out \<Longrightarrow> appends w b d (Some (s, w'))"
  by (auto simp: appends_def)

lemma appends_split:
  assumes res: "appends (w\<lparr>w_dest := advance a (w_dest w), block_offset := kBlockSize\<rparr>) False d2 res"
    and a: "length a \<le> wf_space (w_dest w)"
    and rec: "\<And>bytes off'. log_record False d2 kBlockSize bytes off' \<Longrightarrow> log_record b d (block_offset w) (a @ bytes) off'"
  shows "appends w b d res"
proof -
  obtain s w' bytes off' where res: "res = Some (s, w')" "log_record False d2 kBlockSize bytes off'"
    and ok: "Status_ok s = (length bytes \<le> wf_space (w_dest w) - length a \<and> wf_flushes (w_dest w))"
    and w': "Status_ok s \<Longrightarrow> w' = w\<lparr>w_dest := advance (a @ bytes) (w_dest w), block_offset := off'\<rparr>"
      "\<not> Status_ok s \<Longrightarrow> \<exists>out. prefix out bytes \<and> wf_data (w_dest w') = wf_data (w_dest w) @ a @ out"
    using res a unfolding appends_def by (elim exE conjE) simp
  have ok: "Status_ok s = (length (a @ bytes) \<le> wf_space (w_dest w) \<and> wf_flushes (w_dest w))" using ok a by auto
  show ?thesis
  proof (cases "Status_ok s")
    case True
    then show ?thesis using appendsI [OF rec [OF res(2)] True] w' ok a res(1) by simp
  next
    case False
    then obtain out where "prefix (a @ out) (a @ bytes)" "wf_data (w_dest w') = wf_data (w_dest w) @ a @ out" using w' by auto
    then show ?thesis using appendsI_fail [OF rec [OF res(2)] False, of "a @ out" w'] ok False a res(1) by simp
  qed
qed

lemma AddRecord_loop_appends: "Writer_wf w \<Longrightarrow> appends w b d (AddRecord_loop b d w)"
proof (induction b d w rule: AddRecord_loop.induct)
  case (1 b d w)
  let ?off = "block_offset w" and ?f = "w_dest w"
  let ?start = "record_start ?off"
  define n where "n = min (length d) (kBlockSize - ?start - kHeaderSize)"
  let ?t = "record_type b (length d = n)"
  let ?bytes = "trailer ?off @ physical_record ?t (take n d)"
  let ?w1 = "w\<lparr>w_dest := advance ?bytes ?f, block_offset := ?start + kHeaderSize + n\<rparr>"
  have off: "?off \<le> kBlockSize" using "1.prems" by (simp add: Writer_wf_def)
  have room: "?start + kHeaderSize + n \<le> kBlockSize" using record_start_room [OF off] by (simp add: n_def)
  have n: "(if length d < kBlockSize - ?start - kHeaderSize then length d else kBlockSize - ?start - kHeaderSize) = n"
    by (simp add: n_def)
  have len: "length (take n d) = n" by (simp add: n_def)
  have start: "block_offset (switch_block w) = ?start" using off by (simp add: switch_block_advance)
  have wf: "Writer_wf (switch_block w)" "Writer_wf ?w1"
    using "1.prems" room off by (auto simp: switch_block_advance Writer_wf_def)
  have space: "kHeaderSize + n \<le> wf_space ?f - length (trailer ?off) \<longleftrightarrow> length (trailer ?off) + (kHeaderSize + n) \<le> wf_space ?f"
    by (auto simp: kHeaderSize_def)
  obtain s where emit: "EmitPhysicalRecord ?t (take n d) (switch_block w) = Some (s, ?w1)"
    and ok: "Status_ok s = (length ?bytes \<le> wf_space ?f \<and> wf_flushes ?f)"
    using Emit_advance [OF wf(1) record_type_le [of b "length d = n"], of "take n d"] room off len
    by (auto simp: switch_block_advance space)
  have loop: "AddRecord_loop b d w =
      (if Status_ok s \<and> 0 < length d - n then AddRecord_loop False (drop n d) ?w1 else Some (s, ?w1))"
  proof -
    have "AddRecord_loop b d w = (case EmitPhysicalRecord ?t (take n d) (switch_block w) of None \<Rightarrow> None
      | Some (s, w) \<Rightarrow> if Status_ok s \<and> 0 < length d - n then AddRecord_loop False (drop n d) w else Some (s, w))"
      unfolding AddRecord_loop.simps [of b d w] Let_def start n by (rule if_not_P) (use off in simp)
    then show ?thesis by (simp add: emit)
  qed
  have out: "prefix (take (wf_space ?f) ?bytes) (?bytes @ bytes)" for bytes
    by (metis take_is_prefix prefix_append)
  show ?case
  proof (cases "length d = n")
    case True
    then have rec: "log_record b d ?off ?bytes (?start + kHeaderSize + n)"
      using whole [of ?off d b] off room by simp
    have "appends w b d (Some (s, ?w1))"
    proof (cases "Status_ok s")
      case True
      then show ?thesis using appendsI [OF rec True] ok by simp
    next
      case False
      then show ?thesis using appendsI_fail [OF rec False _ out [of "[]", simplified]] ok by simp
    qed
    then show ?thesis using loop True by simp
  next
    case False
    then have full: "?start + kHeaderSize + n = kBlockSize" "n < length d"
      using record_start_room [OF off] by (auto simp: n_def)
    have rec: "log_record b d ?off (?bytes @ bytes) off'" if "log_record False (drop n d) kBlockSize bytes off'" for bytes off'
      using split [of ?off "take n d" "drop n d" bytes off' b] that off full len False by simp
    show ?thesis
    proof (cases "Status_ok s")
      case fail: False
      obtain bytes off' where "log_record False (drop n d) kBlockSize bytes off'" using log_record_exists_block by blast
      from appendsI_fail [OF rec [OF this] fail _ out, of ?w1] have "appends w b d (Some (s, ?w1))" using fail ok by simp
      then show ?thesis using loop fail by simp
    next
      case True
      have "appends ?w1 False (drop n d) (AddRecord_loop False (drop n d) ?w1)"
        using "1.IH" [OF _ refl refl refl refl refl, unfolded start n, OF _ emit refl] off True full(2) wf(2) by simp
      then have "appends w b d (AddRecord_loop False (drop n d) ?w1)"
        using appends_split [where a = ?bytes, OF _ _ rec] full(1) ok True by simp
      then show ?thesis using loop True full(2) by simp
    qed
  qed
qed

section \<open>Whole files\<close>

text \<open>
  A client that logs records until one fails, as \<open>DBImpl::Write\<close> does with its batches; the number
  is that of the records that were acknowledged.
\<close>

fun AddRecords :: "slice list \<Rightarrow> Writer \<Rightarrow> (nat \<times> Writer) option" where
  "AddRecords [] w = Some (0, w)"
| "AddRecords (d # ds) w =
     (case AddRecord d w of
        None \<Rightarrow> None
      | Some (s, w) \<Rightarrow> if Status_ok s then map_option (apfst Suc) (AddRecords ds w) else Some (0, w))"

text \<open>A client that reads to the end, as the loop of \<open>DBImpl::RecoverLogFile\<close> does.\<close>

lemma unread_upd [simp]: "unread (r\<lparr>last_record_offset := x\<rparr>) = unread r" "unread (r\<lparr>end_of_buffer_offset := x\<rparr>) = unread r"
  by (simp_all add: unread_def)

lemma ReadRecord_loop_unread: "ReadRecord_loop f sc p r = (Some d, r') \<Longrightarrow> unread r' < unread r"
proof (induction "unread r" arbitrary: f sc p r rule: less_induct)
  case less
  obtain t frag r1 where r1: "ReadPhysicalRecord r = (t, frag, r1)" by (metis prod_cases3)
  show ?case
  proof (cases "t = kEof")
    case True
    then show ?thesis using less.prems r1 by (simp add: ReadRecord_loop.simps [of f sc p r] Let_def)
  next
    case False
    then have sub: "unread r1 < unread r" using ReadPhysicalRecord_unread [OF r1] by blast
    then have IH: "unread r' < unread r" if "ReadRecord_loop f sc p r2 = (Some d, r')" "unread r2 = unread r1" for f sc p r2
      using less.hyps [of r2 f sc p] that by simp
    show ?thesis
      using less.prems sub False
      by (auto simp: ReadRecord_loop.simps [of f sc p r] r1 Let_def split: if_splits dest: IH)
  qed
qed

lemma ReadRecord_unread: "ReadRecord r = (Some d, r') \<Longrightarrow> unread r' < unread r"
proof -
  assume r': "ReadRecord r = (Some d, r')"
  have "unread (snd (SkipToInitialBlock r)) \<le> unread r"
    by (auto simp: SkipToInitialBlock_def SequentialFile_Skip_def Let_def) (auto simp: unread_def)
  then show ?thesis
    using r' ReadRecord_loop_unread [of False "[]" 0 _ d r']
    by (fastforce simp: ReadRecord_def split: prod.splits if_splits)
qed

function read_all :: "Reader \<Rightarrow> slice list \<times> Reader" where
  "read_all r = (case ReadRecord r of
       (None, r) \<Rightarrow> ([], r)
     | (Some d, r) \<Rightarrow> apfst (Cons d) (read_all r))"
  by pat_completeness auto
termination
  by (relation "measure unread") (auto dest!: sym [of _ "ReadRecord _"] ReadRecord_unread)

declare read_all.simps [simp del]

lemma ReadRecord_zero: "initial_offset r = 0 \<Longrightarrow> ReadRecord r = ReadRecord_loop False [] 0 r"
  by (simp add: ReadRecord_def)

lemma log_at_initial: "log_at off S r \<Longrightarrow> initial_offset r = 0"
  by (simp add: log_at_def)

lemma read_all_step:
  assumes "log_record True d off bytes off'" "log_at off (bytes @ rest) r"
  shows "\<exists>r'. read_all r = apfst (Cons d) (read_all r') \<and> log_at off' rest r' \<and> r_reports r' = r_reports r"
  using ReadRecord_whole [OF assms, of "[]" 0] ReadRecord_zero [OF log_at_initial [OF assms(2)]]
  by (auto simp: read_all.simps [of r])

lemma read_all_truncated:
  assumes "log_record True d off bytes off'" "log_at off S r" "strict_prefix S bytes"
  shows "\<exists>r'. read_all r = ([], r') \<and> r_reports r' = r_reports r"
  using ReadRecord_truncated [OF assms, of "[]" 0] ReadRecord_zero [OF log_at_initial [OF assms(2)]]
  by (auto simp: read_all.simps [of r])

lemma read_all_files:
  "log_file ds off bytes off' \<Longrightarrow> log_at off (bytes @ rest) r \<Longrightarrow>
    \<exists>r'. read_all r = apfst (append ds) (read_all r') \<and> log_at off' rest r' \<and> r_reports r' = r_reports r"
proof (induction arbitrary: r rule: log_file.induct)
  case (log_file_Nil off)
  then show ?case by (intro exI [of _ r]) (simp add: apfst_def map_prod_def split: prod.splits)
next
  case (log_file_Cons d off bytes off1 ds more off')
  obtain r1 where r1: "read_all r = apfst (Cons d) (read_all r1)" "log_at off1 (more @ rest) r1" "r_reports r1 = r_reports r"
    using read_all_step [OF log_file_Cons.hyps(1)] log_file_Cons.prems by fastforce
  obtain r2 where "read_all r1 = apfst (append ds) (read_all r2)" "log_at off' rest r2" "r_reports r2 = r_reports r1"
    using log_file_Cons.IH [OF r1(2)] by blast
  with r1 show ?case by (intro exI [of _ r2]) (simp add: apfst_def map_prod_def split: prod.splits)
qed

lemma read_all_end: "log_at off [] r \<Longrightarrow> \<exists>r'. read_all r = ([], r') \<and> r_reports r' = r_reports r"
proof -
  assume at: "log_at off [] r"
  then have "off \<le> kBlockSize" by (simp add: log_at_def)
  then have rec: "log_record True [] off (trailer off @ physical_record kFullType []) (record_start off + kHeaderSize)"
    using whole [of off "[]" True] record_start_room by simp
  show ?thesis
    using read_all_truncated [OF rec at] log_record_nonempty [OF rec] by (simp add: strict_prefix_def)
qed

lemma read_all_prefix:
  "log_file ds off bytes off' \<Longrightarrow> log_at off S r \<Longrightarrow> prefix S bytes \<Longrightarrow>
    \<exists>m r'. read_all r = (take m ds, r') \<and> r_reports r' = r_reports r"
proof (induction arbitrary: r S rule: log_file.induct)
  case (log_file_Nil off)
  then show ?case using read_all_end [of off r] by simp
next
  case (log_file_Cons d off bytes off1 ds more off')
  consider "strict_prefix S bytes" | T where "S = bytes @ T" "prefix T more"
    using log_file_Cons.prems(2) by (cases "S = bytes") (auto simp: prefix_append strict_prefix_def)
  then show ?case
  proof cases
    case 1
    then show ?thesis
      using read_all_truncated [OF log_file_Cons.hyps(1) log_file_Cons.prems(1)] by (intro exI [of _ 0]) simp
  next
    case 2
    then obtain r1 where r1: "read_all r = apfst (Cons d) (read_all r1)" "log_at off1 T r1" "r_reports r1 = r_reports r"
      using read_all_step [OF log_file_Cons.hyps(1)] log_file_Cons.prems by fastforce
    obtain m r2 where "read_all r1 = (take m ds, r2)" "r_reports r2 = r_reports r1"
      using log_file_Cons.IH [OF r1(2) 2(2)] by blast
    with r1 show ?thesis by (intro exI [of _ "Suc m"]) simp
  qed
qed

lemma log_file_exists: "off \<le> kBlockSize \<Longrightarrow> \<exists>bytes off'. log_file ds off bytes off'"
proof (induction ds arbitrary: off)
  case Nil
  then show ?case by (auto intro: log_file_Nil)
next
  case (Cons d ds)
  have "Writer_wf (Writer_new undefined\<lparr>block_offset := off\<rparr>)"
    using Writer_wf_new [of undefined] Cons.prems by (simp add: Writer_wf_def)
  from AddRecord_loop_appends [OF this, where b = True and d = d] obtain bytes1 off1 where rec: "log_record True d off bytes1 off1"
    by (auto simp: appends_def)
  then show ?case using Cons.IH [OF log_record_offset [OF rec]] log_file_Cons [OF rec] by blast
qed

lemma AddRecords_log_file:
  "Writer_wf w \<Longrightarrow> \<exists>n w' bytes off' out. AddRecords ds w = Some (n, w') \<and> log_file ds (block_offset w) bytes off' \<and>
    prefix out bytes \<and> wf_data (w_dest w') = wf_data (w_dest w) @ out \<and> n \<le> length ds \<and>
    (n = length ds \<longrightarrow> out = bytes \<and> block_offset w' = off' \<and> Writer_wf w')"
proof (induction ds arbitrary: w)
  case Nil
  then show ?case by (auto simp: Writer_wf_def intro: log_file_Nil)
next
  case (Cons d ds)
  obtain s w1 bytes1 off1 where add: "AddRecord d w = Some (s, w1)" and rec: "log_record True d (block_offset w) bytes1 off1"
    and ok: "Status_ok s = (length bytes1 \<le> wf_space (w_dest w) \<and> wf_flushes (w_dest w))"
      "Status_ok s \<longrightarrow> w1 = w\<lparr>w_dest := advance bytes1 (w_dest w), block_offset := off1\<rparr>"
      "\<not> Status_ok s \<longrightarrow> (\<exists>out. prefix out bytes1 \<and> wf_data (w_dest w1) = wf_data (w_dest w) @ out)"
    using AddRecord_loop_appends [OF Cons.prems, of True d] unfolding appends_def AddRecord_def by blast
  have off1: "off1 \<le> kBlockSize" using rec by (rule log_record_offset)
  show ?case
  proof (cases "Status_ok s")
    case False
    obtain out where "prefix out bytes1" "wf_data (w_dest w1) = wf_data (w_dest w) @ out" using ok(3) False by blast
    moreover obtain bytes off' where "log_file ds off1 bytes off'" using log_file_exists [OF off1] by blast
    ultimately show ?thesis
      using False log_file_Cons [OF rec] by (fastforce simp: add intro: prefix_prefix)
  next
    case True
    then have w1: "w1 = w\<lparr>w_dest := advance bytes1 (w_dest w), block_offset := off1\<rparr>" "length bytes1 \<le> wf_space (w_dest w)"
      using ok by auto
    then have "Writer_wf w1" using Cons.prems off1 by (simp add: Writer_wf_def)
    from Cons.IH [OF this] obtain n w' bytes off' out where IH: "AddRecords ds w1 = Some (n, w')"
      "log_file ds off1 bytes off'" "prefix out bytes" "wf_data (w_dest w') = wf_data (w_dest w) @ bytes1 @ out" "n \<le> length ds"
      "n = length ds \<longrightarrow> out = bytes \<and> block_offset w' = off' \<and> Writer_wf w'"
      using w1 by (simp only: w1(1)) fastforce
    have "AddRecords (d # ds) w = Some (Suc n, w')" using IH(1) True by (simp add: add)
    then show ?thesis using IH(3-) log_file_Cons [OF rec IH(2)] by fastforce
  qed
qed


lemma Writer_wf_offset: "Writer_wf w \<Longrightarrow> block_offset w \<le> kBlockSize"
  by (simp add: Writer_wf_def)

lemma block_offset_new [simp]: "block_offset (Writer_new f) = 0" "w_dest (Writer_new f) = f"
  by (simp_all add: Writer_new_def)

text \<open>
  The reader starts with an empty buffer, as if at the end of a block, the writer at the start of
  one; reading the first block does not change the offset the reader computes.
\<close>

lemma read_all_start:
  assumes "\<not> sf_fails f"
  shows "\<exists>r'. log_at 0 (sf_data f) r' \<and> r_reports r' = (if reporter then Some [] else None) \<and>
    read_all (Reader_new f reporter checksum 0) = read_all r'"
proof -
  define r where "r = Reader_new f reporter checksum 0"
  let ?r = r and ?r' = "snd (refill r)"
  have sel: "r_file r = f" "r_buffer r = []" "\<not> r_eof r" "initial_offset r = 0" "r_reports r = (if reporter then Some [] else None)"
    by (simp_all add: r_def Reader_new_def)
  have r: "\<not> sf_fails (r_file r)" using assms sel by simp
  have at: "log_at 0 (sf_data f) ?r'" "r_reports ?r' = (if reporter then Some [] else None)"
    using assms by (auto simp: refill_ok [OF r] Let_def log_at_def sel)
  have offset: "end_of_buffer_offset ?r' - of_nat (length (r_buffer ?r')) = end_of_buffer_offset ?r - of_nat (length (r_buffer ?r))"
    by (simp add: refill_ok [OF r] Let_def sel)
  have "ReadPhysicalRecord ?r = ReadPhysicalRecord ?r'"
    by (simp add: ReadPhysicalRecord.simps [of ?r] refill_ok [OF r] Let_def sel kHeaderSize_def)
  then have "ReadRecord_loop False [] 0 ?r = ReadRecord_loop False [] 0 ?r'"
    by (simp only: ReadRecord_loop.simps [of _ _ _ ?r] ReadRecord_loop.simps [of _ _ _ ?r'] offset)
  then have "ReadRecord ?r = ReadRecord ?r'"
    using ReadRecord_zero [OF log_at_initial [OF at(1)]] ReadRecord_zero [of ?r] sel by simp
  then have "read_all ?r = read_all ?r'" by (simp only: read_all.simps [of ?r] read_all.simps [of ?r'])
  then show ?thesis using at r_def by blast
qed

text \<open>The file of a reader that finds the first \<open>k\<close> bytes of what a writer wrote.\<close>

definition surviving :: "nat \<Rightarrow> Writer \<Rightarrow> SequentialFile" where
  "surviving k w = \<lparr>sf_name = wf_name (w_dest w), sf_data = take k (wf_data (w_dest w)), sf_fails = False, sf_error = []\<rparr>"


section \<open>The space a record takes\<close>

lemma log_record_length_block:
  "log_record b d off bytes off' \<Longrightarrow> off = kBlockSize \<Longrightarrow> length bytes \<le> length d + 7 * (length d div 32761 + 1)"
  by (induction rule: log_record.induct) (auto simp: trailer_def record_start_def sizes div_add_self1)

lemma log_record_length:
  assumes "log_record b d off bytes off'" shows "length bytes \<le> length d + 7 * (length d div 32761) + 20"
  using assms
proof cases
  case whole
  then show ?thesis by (auto simp: trailer_def sizes)
next
  case (split f d2 bytes2)
  have "length d2 div 32761 \<le> length d div 32761" using split by (simp add: div_le_mono)
  then show ?thesis
    using split log_record_length_block [OF split(5) refl] by (auto simp: trailer_def sizes)
qed

definition log_space :: "slice list \<Rightarrow> nat" where
  "log_space ds = sum_list (map (\<lambda>d. length d + 7 * (length d div 32761) + 20) ds)"

lemma AddRecords_space:
  "Writer_wf w \<Longrightarrow> wf_flushes (w_dest w) \<Longrightarrow> log_space ds \<le> wf_space (w_dest w) \<Longrightarrow> \<exists>w'. AddRecords ds w = Some (length ds, w')"
proof (induction ds arbitrary: w)
  case (Cons d ds)
  obtain s w1 bytes1 off1 where add: "AddRecord d w = Some (s, w1)" and rec: "log_record True d (block_offset w) bytes1 off1"
    and ok: "Status_ok s = (length bytes1 \<le> wf_space (w_dest w) \<and> wf_flushes (w_dest w))"
      "Status_ok s \<longrightarrow> w1 = w\<lparr>w_dest := advance bytes1 (w_dest w), block_offset := off1\<rparr>"
    using AddRecord_loop_appends [OF Cons.prems(1), of True d] unfolding appends_def AddRecord_def by blast
  have s: "Status_ok s" using ok(1) Cons.prems log_record_length [OF rec] by (simp add: log_space_def)
  then have "\<exists>w'. AddRecords ds w1 = Some (length ds, w')"
    using ok Cons.prems log_record_length [OF rec] log_record_offset [OF rec]
    by (intro Cons.IH) (auto simp: log_space_def Writer_wf_def)
  then show ?case using add s by auto
qed simp

text \<open>
  C12: The log is a faithful store of byte strings.  On an empty file with room for the records (each takes at
  most 20 bytes and 7 more per full block besides its own bytes) every \<open>AddRecord\<close> succeeds, and
  reading the file from its start returns exactly the records that were added, of any length
  (empty and longer than a block included), in order, and reports no corruption.
\<close>

theorem log_round_trip:
  assumes "wf_data f = []" and "wf_flushes f" and "log_space ds \<le> wf_space f"
  shows "\<exists>w r. AddRecords ds (Writer_new f) = Some (length ds, w) \<and>
    read_all (Reader_new (surviving (length (wf_data (w_dest w))) w) True checksum 0) = (ds, r) \<and> r_reports r = Some []"
proof -
  obtain w where w: "AddRecords ds (Writer_new f) = Some (length ds, w)"
    using AddRecords_space [of "Writer_new f" ds] assms by auto
  obtain bytes where b: "log_file ds 0 bytes (block_offset w)" "wf_data (w_dest w) = bytes" "Writer_wf w"
    using AddRecords_log_file [OF Writer_wf_new, of ds f] w assms(1) by auto
  let ?f = "surviving (length (wf_data (w_dest w))) w"
  have found: "sf_data ?f = bytes @ []" "\<not> sf_fails ?f" using b(2) by (simp_all add: surviving_def)
  obtain r where r: "log_at 0 (bytes @ []) r" "r_reports r = Some []" "read_all (Reader_new ?f True checksum 0) = read_all r"
    using read_all_start [OF found(2), of True checksum] found(1) by auto
  obtain r1 where r1: "read_all r = apfst (append ds) (read_all r1)" "log_at (block_offset w) [] r1" "r_reports r1 = Some []"
    using read_all_files [OF b(1) r(1)] r(2) by auto
  show ?thesis using w r(3) r1 read_all_end [OF r1(2)] by auto
qed

theorem log_round_trip_witness:
  "\<exists>w r. AddRecords [[], replicate 40000 7, [1, 2]] (Writer_new \<lparr>wf_name = [], wf_data = [], wf_space = 50000, wf_flushes = True, wf_error = []\<rparr>) = Some (3, w) \<and>
    read_all (Reader_new (surviving (length (wf_data (w_dest w))) w) True True 0) = ([[], replicate 40000 7, [1, 2]], r) \<and> r_reports r = Some []"
  using log_round_trip [of "\<lparr>wf_name = [], wf_data = [], wf_space = 50000, wf_flushes = True, wf_error = []\<rparr>" "[[], replicate 40000 7, [1, 2]]" True]
  by (simp add: log_space_def numeral_3_eq_3 del: AddRecords.simps)


section \<open>What a checksum guarantees\<close>

lemma length_field_bytes:
  "n = unat ((ucast (x :: u8) :: u32) OR push_bit 8 (ucast (y :: u8))) \<Longrightarrow> of_nat (n mod 256) = x \<and> of_nat (n div 256) = y"
  using unat_u8 [of x] unat_u8 [of y]
  by (simp add: unat_length_field)

lemma ucast_scast_byte [simp]: "ucast (scast (x :: u8) :: u32) = x"
  by (rule bit_word_eqI) (auto simp: bit_simps)

lemma crc_field:
  "4 \<le> length h \<Longrightarrow> Value 0 bs = Unmask (the (DecodeFixed32 h)) \<Longrightarrow> EncodeFixed32 (Mask (Value 0 bs)) = take 4 h"
  using le_bytes_le_word [of "take 4 h", where ?'a = 32] by (simp add: EncodeFixed32_def)

lemma split_header:
  assumes "7 \<le> length h"
  shows "h = take 4 h @ [h ! 4, h ! 5, h ! 6] @ drop 7 h"
proof -
  have "drop 4 h = h ! 4 # drop 5 h" "drop 5 h = h ! 5 # drop 6 h" "drop 6 h = h ! 6 # drop 7 h"
    using assms Cons_nth_drop_Suc [of 4 h] Cons_nth_drop_Suc [of 5 h] Cons_nth_drop_Suc [of 6 h] by simp_all
  then show ?thesis using append_take_drop_id [of 4 h] by simp
qed

lemma parse_record_sound:
  assumes rec: "parse_record r = (t, d, r')" and chk: "r_checksum r" and hd: "kHeaderSize \<le> length (r_buffer r)"
    and t: "t \<noteq> kEof" "t \<noteq> kBadRecord"
  shows "r_buffer r = physical_record t d @ r_buffer r' \<and> r_file r' = r_file r"
proof -
  let ?h = "r_buffer r"
  define n where "n = unat ((ucast (?h ! 4) :: u32) OR push_bit 8 (ucast (?h ! 5)))"
  have len: "kHeaderSize + n \<le> length ?h" and crc: "Value 0 (take (1 + n) (drop 6 ?h)) = Unmask (the (DecodeFixed32 ?h))"
    and res: "t = scast (?h ! 6)" "d = take n (drop 7 ?h)" "r_buffer r' = drop (7 + n) ?h" "r_file r' = r_file r"
    using rec chk t unfolding parse_record_def Let_def scast_byte n_def [symmetric]
    by (auto simp: kHeaderSize_def simp del: DecodeFixed32.simps split: if_splits)
  have h: "?h = take 4 ?h @ [?h ! 4, ?h ! 5, ?h ! 6] @ drop 7 ?h" using hd by (intro split_header) (simp add: kHeaderSize_def)
  have "length d = n" using res(2) len by (simp add: kHeaderSize_def)
  have "drop 6 ?h = ?h ! 6 # drop 7 ?h"
    using hd Cons_nth_drop_Suc [of 6 ?h] by (simp add: kHeaderSize_def)
  then have body: "take (1 + n) (drop 6 ?h) = ucast t # d" using res by simp
  have "EncodeFixed32 (Mask (Value 0 (ucast t # d))) = take 4 ?h"
    using crc_field [OF _ crc] hd unfolding body by (simp add: kHeaderSize_def)
  moreover have "of_nat (n mod 256) = ?h ! 4" "of_nat (n div 256) = ?h ! 5" using length_field_bytes [OF n_def] by simp_all
  ultimately have "physical_record t d = take 4 ?h @ [?h ! 4, ?h ! 5, ?h ! 6] @ take n (drop 7 ?h)"
    using \<open>length d = n\<close> by (simp add: physical_record_def res)
  moreover have "take n (drop 7 ?h) @ r_buffer r' = drop 7 ?h"
    using append_take_drop_id [of n "drop 7 ?h"] by (simp add: res add.commute)
  ultimately show ?thesis
    using h res(4) by (simp del: append_take_drop_id)
qed

text \<open>The bytes a reader has not consumed yet.\<close>

definition remaining :: "Reader \<Rightarrow> slice" where
  "remaining r = r_buffer r @ sf_data (r_file r)"

text \<open>
  C26: With checksums on, whatever the file holds, a physical record that the reader returns is one the file
  holds with a matching checksum: the bytes in front of the reader are what it skips (a
  trailer), then exactly the encoding of the type and the payload it returns (checksum, length,
  type, payload), then the bytes it goes on with.
\<close>

theorem ReadPhysicalRecord_sound:
  assumes rec: "ReadPhysicalRecord r = (t, d, r')" and chk: "r_checksum r" and t: "t \<noteq> kEof" "t \<noteq> kBadRecord"
  shows "\<exists>skipped. remaining r = skipped @ physical_record t d @ remaining r' \<and> length skipped < kHeaderSize"
proof (cases "kHeaderSize \<le> length (r_buffer r)")
  case True
  then have "parse_record r = (t, d, r')" using rec by (simp add: ReadPhysicalRecord.simps [of r])
  from parse_record_sound [OF this chk True t] show ?thesis
    by (intro exI [of _ "[]"]) (simp add: remaining_def kHeaderSize_def)
next
  case False
  obtain st r2 where r2: "refill r = (st, r2)" by fastforce
  have st: "Status_ok st" "ReadPhysicalRecord r2 = (t, d, r')"
    using rec False t r2 by (auto simp: ReadPhysicalRecord.simps [of r] split: if_splits)
  then have buf: "r_buffer r2 @ sf_data (r_file r2) = sf_data (r_file r)" "r_checksum r2 = r_checksum r"
    "length (r_buffer r2) < kHeaderSize \<Longrightarrow> r_eof r2"
    using r2 by (auto simp: refill_def SequentialFile_Read_def Let_def sizes split: if_splits)
  then have parse: "kHeaderSize \<le> length (r_buffer r2)" "parse_record r2 = (t, d, r')"
    using st(2) t by (auto simp: ReadPhysicalRecord.simps [of r2] not_less [symmetric] split: if_splits)
  from parse_record_sound [OF parse(2) _ parse(1) t] chk buf show ?thesis
    using False by (intro exI [of _ "r_buffer r"]) (simp add: remaining_def)
qed

theorem ReadPhysicalRecord_sound_witness:
  "\<exists>r' skipped. ReadPhysicalRecord (Reader_new \<lparr>sf_name = [], sf_data = physical_record kFullType [1, 2], sf_fails = False, sf_error = []\<rparr> True True 0)
      = (kFullType, [1, 2], r') \<and>
    remaining (Reader_new \<lparr>sf_name = [], sf_data = physical_record kFullType [1, 2], sf_fails = False, sf_error = []\<rparr> True True 0) =
      skipped @ physical_record kFullType [1, 2] @ remaining r' \<and> length skipped < kHeaderSize"
proof -
  let ?f = "\<lparr>sf_name = [], sf_data = physical_record kFullType [1, 2], sf_fails = False, sf_error = []\<rparr>"
  let ?r = "Reader_new ?f True True 0"
  have "log_at kBlockSize (trailer kBlockSize @ physical_record (record_type True True) [1, 2] @ []) ?r"
    using log_at_new [of ?f True True] by (simp add: trailer_def kHeaderSize_def)
  then obtain r' where r': "ReadPhysicalRecord ?r = (kFullType, [1, 2], r')"
    using ReadPhysicalRecord_whole [of kBlockSize True True "[1, 2]" "[]" ?r] by (auto simp: record_start_def sizes)
  have "r_checksum ?r" by (simp add: Reader_new_def)
  moreover have "kFullType \<noteq> kBadRecord" by (simp add: kFullType_def kBadRecord_def kMaxRecordType_def kLastType_def)
  ultimately show ?thesis using ReadPhysicalRecord_sound [OF r'] r' by simp
qed

end
