(* ===== verification/LdbIterator.thy ===== *)
theory LdbIterator
  imports LdbKeys
begin

text \<open>
  The iterator interface of \<open>include/leveldb/iterator.h\<close> as a locale: an iterator stands for a list of
  key-value pairs and a position in it, \<open>None\<close> where it is not valid.  What holds of every
  implementation is proved here once: a scan from the first entry by \<open>Next\<close> or from the last one
  by \<open>Prev\<close> visits all entries, a scan after \<open>Seek\<close> those that are not below the target.
\<close>

type_synonym kv = "slice \<times> slice"

definition entry_pos :: "'a list \<Rightarrow> nat \<Rightarrow> nat option" where
  "entry_pos es i = (if i < length es then Some i else None)"

definition last_pos :: "'a list \<Rightarrow> nat option" where
  "last_pos es = (if es = [] then None else Some (length es - 1))"

text \<open>The position of the first entry whose key is not below the target.\<close>

definition seek_pos :: "('k \<Rightarrow> 'k \<Rightarrow> int) \<Rightarrow> ('k \<times> 'v) list \<Rightarrow> 'k \<Rightarrow> nat" where
  "seek_pos cmp es target = length (takeWhile (\<lambda>e. cmp (fst e) target < 0) es)"

lemma seek_pos_le: "seek_pos cmp es target \<le> length es"
  by (simp add: seek_pos_def length_takeWhile_le)

lemma seek_pos_less: "i < seek_pos cmp es target \<Longrightarrow> cmp (fst (es ! i)) target < 0"
  unfolding seek_pos_def using nth_mem [of i "takeWhile (\<lambda>e. cmp (fst e) target < 0) es"]
  by (auto simp: takeWhile_nth dest: set_takeWhileD)

lemma seek_pos_at: "seek_pos cmp es target < length es \<Longrightarrow> \<not> cmp (fst (es ! seek_pos cmp es target)) target < 0"
  unfolding seek_pos_def by (rule nth_length_takeWhile)

lemma drop_seek_pos: "drop (seek_pos cmp es target) es = dropWhile (\<lambda>e. cmp (fst e) target < 0) es"
  by (simp add: seek_pos_def dropWhile_eq_drop)

text \<open>
  The virtual functions of an iterator class, over the state of the class.  The operations return
  \<open>None\<close> where the code would fail an assertion.
\<close>

record 'i Iterator =
  it_Valid :: "'i \<Rightarrow> bool"
  it_key :: "'i \<Rightarrow> slice option"
  it_value :: "'i \<Rightarrow> slice option"
  it_status :: "'i \<Rightarrow> status"
  it_SeekToFirst :: "'i \<Rightarrow> 'i option"
  it_SeekToLast :: "'i \<Rightarrow> 'i option"
  it_Seek :: "slice \<Rightarrow> 'i \<Rightarrow> 'i option"
  it_Next :: "'i \<Rightarrow> 'i option"
  it_Prev :: "'i \<Rightarrow> 'i option"

text \<open>A client that collects entries until the iterator is not valid any more.\<close>

fun iter_scan :: "'i Iterator \<Rightarrow> ('i \<Rightarrow> 'i option) \<Rightarrow> nat \<Rightarrow> 'i \<Rightarrow> kv list option" where
  "iter_scan ops move 0 it = None"
| "iter_scan ops move (Suc n) it =
     (if it_Valid ops it then
        (case (it_key ops it, it_value ops it, move it) of
           (Some k, Some v, Some it') \<Rightarrow> map_option ((#) (k, v)) (iter_scan ops move n it')
         | _ \<Rightarrow> None)
      else Some [])"

definition scan_forward :: "'i Iterator \<Rightarrow> nat \<Rightarrow> 'i \<Rightarrow> kv list option" where
  "scan_forward ops n it = Option.bind (it_SeekToFirst ops it) (iter_scan ops (it_Next ops) n)"

definition scan_backward :: "'i Iterator \<Rightarrow> nat \<Rightarrow> 'i \<Rightarrow> kv list option" where
  "scan_backward ops n it = Option.bind (it_SeekToLast ops it) (iter_scan ops (it_Prev ops) n)"

definition scan_from :: "'i Iterator \<Rightarrow> slice \<Rightarrow> nat \<Rightarrow> 'i \<Rightarrow> kv list option" where
  "scan_from ops target n it = Option.bind (it_Seek ops target it) (iter_scan ops (it_Next ops) n)"

locale iterator =
  fixes ops :: "'i Iterator"
    and rep :: "'i \<Rightarrow> kv list \<Rightarrow> nat option \<Rightarrow> bool"
    and cmp :: "slice \<Rightarrow> slice \<Rightarrow> int"
    and good :: "slice \<Rightarrow> bool"
  assumes at_none: "rep it es None \<Longrightarrow> \<not> it_Valid ops it"
    and at_some: "rep it es (Some i) \<Longrightarrow>
      i < length es \<and> it_Valid ops it \<and> it_key ops it = Some (fst (es ! i)) \<and> it_value ops it = Some (snd (es ! i))"
    and status: "rep it es pos \<Longrightarrow> it_status ops it = Status_OK"
    and to_first: "rep it es pos \<Longrightarrow> \<exists>it'. it_SeekToFirst ops it = Some it' \<and> rep it' es (entry_pos es 0)"
    and to_last: "rep it es pos \<Longrightarrow> \<exists>it'. it_SeekToLast ops it = Some it' \<and> rep it' es (last_pos es)"
    and to_target: "rep it es pos \<Longrightarrow> good target \<Longrightarrow>
      \<exists>it'. it_Seek ops target it = Some it' \<and> rep it' es (entry_pos es (seek_pos cmp es target))"
    and step: "rep it es (Some i) \<Longrightarrow> \<exists>it'. it_Next ops it = Some it' \<and> rep it' es (entry_pos es (Suc i))"
    and step_back: "rep it es (Some i) \<Longrightarrow> \<exists>it'. it_Prev ops it = Some it' \<and> rep it' es (if i = 0 then None else Some (i - 1))"
begin

lemma forward:
  "rep it es (entry_pos es i) \<Longrightarrow> length es - i < n \<Longrightarrow> iter_scan ops (it_Next ops) n it = Some (drop i es)"
proof (induction n arbitrary: i it)
  case (Suc n)
  show ?case
  proof (cases "i < length es")
    case True
    then have at: "rep it es (Some i)" using Suc.prems by (simp add: entry_pos_def)
    obtain it' where it': "it_Next ops it = Some it'" "rep it' es (entry_pos es (Suc i))" using step [OF at] by blast
    then have "iter_scan ops (it_Next ops) n it' = Some (drop (Suc i) es)" using Suc.IH [OF it'(2)] Suc.prems True by simp
    then show ?thesis using at_some [OF at] it'(1) by (simp add: Cons_nth_drop_Suc [symmetric])
  next
    case False
    then show ?thesis using Suc.prems at_none by (simp add: entry_pos_def)
  qed
qed simp

lemma backward:
  "rep it es (entry_pos es i) \<Longrightarrow> i < length es \<Longrightarrow> Suc i < n \<Longrightarrow> iter_scan ops (it_Prev ops) n it = Some (rev (take (Suc i) es))"
proof (induction n arbitrary: i it)
  case (Suc n)
  then have at: "rep it es (Some i)" by (simp add: entry_pos_def)
  obtain it' where it': "it_Prev ops it = Some it'" "rep it' es (if i = 0 then None else Some (i - 1))" using step_back [OF at] by blast
  have "iter_scan ops (it_Prev ops) n it' = Some (rev (take i es))"
  proof (cases i)
    case 0
    then show ?thesis using it'(2) at_none Suc.prems(3) by (cases n) auto
  next
    case (Suc j)
    then show ?thesis using Suc.IH [of it' j] it'(2) Suc.prems by (simp add: entry_pos_def)
  qed
  then show ?case using at_some [OF at] it'(1) Suc.prems by (simp add: take_Suc_conv_app_nth)
qed simp

text \<open>The three scans of a client.\<close>

lemma scans:
  assumes it: "rep it es pos" and n: "length es < n"
  shows "scan_forward ops n it = Some es" "scan_backward ops n it = Some (rev es)"
    "good target \<Longrightarrow> scan_from ops target n it = Some (dropWhile (\<lambda>e. cmp (fst e) target < 0) es)"
proof -
  show "scan_forward ops n it = Some es"
    using to_first [OF it] forward [of _ es 0 n] n by (fastforce simp: scan_forward_def)
  obtain it' where it': "it_SeekToLast ops it = Some it'" "rep it' es (last_pos es)" using to_last [OF it] by blast
  show "scan_backward ops n it = Some (rev es)"
  proof (cases "es = []")
    case True
    then show ?thesis using it' at_none n by (cases n) (auto simp: last_pos_def scan_backward_def)
  next
    case False
    then have "rep it' es (entry_pos es (length es - 1))" using it' by (simp add: last_pos_def entry_pos_def)
    then show ?thesis using backward [of it' es "length es - 1" n] it'(1) False n by (simp add: scan_backward_def)
  qed
  assume "good target"
  then show "scan_from ops target n it = Some (dropWhile (\<lambda>e. cmp (fst e) target < 0) es)"
    using to_target [OF it] forward [of _ es "seek_pos cmp es target" n] n by (fastforce simp: drop_seek_pos scan_from_def)
qed

end

end
