(* ===== verification/LdbBlock.thy ===== *)
theory LdbBlock
  imports LdbLogSpec LdbIterator
begin

unbundle bit_operations_syntax

text \<open>
  The blocks of a table file: \<open>table/block_builder.cc\<close> writes them, \<open>table/block.cc\<close> reads them.

  Pointers into the block are offsets; \<open>value_\<close> is the offset and the size of the slice, \<open>None\<close>
  where the slice does not point into the block.  The operations of the iterator return \<open>None\<close>
  where an assertion of the code fails or a read leaves the block.  Quantities the code keeps in
  32 bits are words of that size.
\<close>

section \<open>The builder\<close>

record BlockBuilder =
  bb_buffer :: slice
  bb_restarts :: "u32 list"
  bb_counter :: nat
  bb_finished :: bool
  bb_last_key :: slice

definition BlockBuilder_new :: "nat \<Rightarrow> BlockBuilder option" where
  "BlockBuilder_new block_restart_interval =
     (if 1 \<le> block_restart_interval
      then Some \<lparr>bb_buffer = [], bb_restarts = [0], bb_counter = 0, bb_finished = False, bb_last_key = []\<rparr> else None)"

definition BlockBuilder_Reset :: "BlockBuilder \<Rightarrow> BlockBuilder" where
  "BlockBuilder_Reset b =
     b\<lparr>bb_buffer := [], bb_restarts := [0], bb_counter := 0, bb_finished := False, bb_last_key := []\<rparr>"

definition CurrentSizeEstimate :: "BlockBuilder \<Rightarrow> nat" where
  "CurrentSizeEstimate b = length (bb_buffer b) + length (bb_restarts b) * 4 + 4"

definition BlockBuilder_Finish :: "BlockBuilder \<Rightarrow> slice \<times> BlockBuilder" where
  "BlockBuilder_Finish b =
     (let buffer = fold PutFixed32 (bb_restarts b) (bb_buffer b);
          buffer = PutFixed32 (of_nat (length (bb_restarts b))) buffer;
          b = b\<lparr>bb_buffer := buffer, bb_finished := True\<rparr>
      in (bb_buffer b, b))"

text \<open>The loop that counts the bytes shared with the last key is the one of \<open>diff_index\<close>.\<close>

definition BlockBuilder_Add :: "(slice \<Rightarrow> slice \<Rightarrow> int) \<Rightarrow> nat \<Rightarrow> slice \<Rightarrow> slice \<Rightarrow> BlockBuilder \<Rightarrow> BlockBuilder option" where
  "BlockBuilder_Add cmp block_restart_interval key value b =
     (if bb_finished b \<or> block_restart_interval < bb_counter b \<or> \<not> (bb_buffer b = [] \<or> cmp key (bb_last_key b) > 0) then None
      else
        let (shared, b) =
              (if bb_counter b < block_restart_interval then (diff_index (bb_last_key b) key, b)
               else (0, b\<lparr>bb_restarts := bb_restarts b @ [of_nat (length (bb_buffer b))], bb_counter := 0\<rparr>));
            non_shared = length key - shared;
            buffer = PutVarint32 (of_nat shared) (bb_buffer b);
            buffer = PutVarint32 (of_nat non_shared) buffer;
            buffer = PutVarint32 (of_nat (length value)) buffer;
            buffer = buffer @ drop shared key @ value;
            last_key = take shared (bb_last_key b) @ drop shared key
        in if last_key \<noteq> key then None
           else Some (b\<lparr>bb_buffer := buffer, bb_last_key := last_key, bb_counter := bb_counter b + 1\<rparr>))"

section \<open>Blocks\<close>

record Block =
  b_data :: slice
  b_size :: nat
  restart_offset :: u32

definition NumRestarts :: "slice \<Rightarrow> nat \<Rightarrow> u32 option" where
  "NumRestarts data sz = (if sz < 4 then None else DecodeFixed32 (drop (sz - 4) data))"

definition Block_new :: "slice \<Rightarrow> Block" where
  "Block_new contents =
     (case NumRestarts contents (length contents) of
        None \<Rightarrow> \<lparr>b_data = contents, b_size = 0, restart_offset = 0\<rparr>
      | Some n \<Rightarrow>
          if unat n > (length contents - 4) div 4 then \<lparr>b_data = contents, b_size = 0, restart_offset = 0\<rparr>
          else \<lparr>b_data = contents, b_size = length contents,
                restart_offset = of_nat (length contents) - of_nat (unat (1 + n) * 4)\<rparr>)"

text \<open>The bytes between \<open>p\<close> and \<open>limit\<close>; the result has the bytes behind the three lengths.\<close>

definition DecodeEntry :: "slice \<Rightarrow> (u32 \<times> u32 \<times> u32 \<times> slice) option" where
  "DecodeEntry ps =
     (if length ps < 3 then None
      else
        let shared = ucast (ps ! 0) :: u32; non_shared = ucast (ps ! 1) :: u32; value_length = ucast (ps ! 2) :: u32
        in case (if (shared OR non_shared OR value_length) < 128 then Some (shared, non_shared, value_length, drop 3 ps)
                 else
                   case GetVarint32Ptr ps of None \<Rightarrow> None | Some (shared, ps) \<Rightarrow>
                   (case GetVarint32Ptr ps of None \<Rightarrow> None | Some (non_shared, ps) \<Rightarrow>
                   (case GetVarint32Ptr ps of None \<Rightarrow> None | Some (value_length, ps) \<Rightarrow>
                      Some (shared, non_shared, value_length, ps))))
           of None \<Rightarrow> None
            | Some (shared, non_shared, value_length, ps) \<Rightarrow>
                if of_nat (length ps) < non_shared + value_length then None
                else Some (shared, non_shared, value_length, ps))"

section \<open>The iterator\<close>

record BlockIter =
  bi_data :: slice
  bi_restarts :: u32
  num_restarts :: u32
  bi_current :: u32
  restart_index :: u32
  bi_key :: slice
  bi_value :: "(nat \<times> nat) option"
  bi_status :: status

definition BlockIter_new :: "slice \<Rightarrow> u32 \<Rightarrow> u32 \<Rightarrow> BlockIter option" where
  "BlockIter_new data restarts num =
     (if num > 0
      then Some \<lparr>bi_data = data, bi_restarts = restarts, num_restarts = num, bi_current = restarts,
                 restart_index = num, bi_key = [], bi_value = None, bi_status = Status_OK\<rparr>
      else None)"

text \<open>
  The iterators \<open>NewIterator\<close> gives: one over the entries, or the \<open>EmptyIterator\<close> of \<open>table/iterator.cc\<close> with
  its status.
\<close>

datatype block_iterator = EmptyIterator status | Iter BlockIter

definition Block_NewIterator :: "Block \<Rightarrow> block_iterator option" where
  "Block_NewIterator b =
     (if b_size b < 4 then Some (EmptyIterator (Corruption (str ''bad block contents'') []))
      else case NumRestarts (b_data b) (b_size b) of
          None \<Rightarrow> None
        | Some n \<Rightarrow> if n = 0 then Some (EmptyIterator Status_OK)
            else map_option Iter (BlockIter_new (b_data b) (restart_offset b) n))"

definition NextEntryOffset :: "BlockIter \<Rightarrow> u32 option" where
  "NextEntryOffset it = map_option (\<lambda>(p, n). of_nat (p + n)) (bi_value it)"

definition GetRestartPoint :: "BlockIter \<Rightarrow> u32 \<Rightarrow> u32 option" where
  "GetRestartPoint it index =
     (if index < num_restarts it then DecodeFixed32 (drop (unat (bi_restarts it) + unat index * 4) (bi_data it)) else None)"

definition SeekToRestartPoint :: "BlockIter \<Rightarrow> u32 \<Rightarrow> BlockIter option" where
  "SeekToRestartPoint it index =
     map_option (\<lambda>offset. it\<lparr>bi_key := [], restart_index := index, bi_value := Some (unat offset, 0)\<rparr>)
       (GetRestartPoint it index)"

definition BlockIter_Valid :: "BlockIter \<Rightarrow> bool" where
  "BlockIter_Valid it \<longleftrightarrow> bi_current it < bi_restarts it"

definition BlockIter_key :: "BlockIter \<Rightarrow> slice option" where
  "BlockIter_key it = (if BlockIter_Valid it then Some (bi_key it) else None)"

definition BlockIter_value :: "BlockIter \<Rightarrow> slice option" where
  "BlockIter_value it =
     (case bi_value it of
        Some (p, n) \<Rightarrow> if BlockIter_Valid it \<and> p + n \<le> length (bi_data it) then Some (take n (drop p (bi_data it))) else None
      | None \<Rightarrow> None)"

definition CorruptionError :: "BlockIter \<Rightarrow> BlockIter" where
  "CorruptionError it =
     it\<lparr>bi_current := bi_restarts it, restart_index := num_restarts it,
        bi_status := Corruption (str ''bad entry in block'') [], bi_key := [], bi_value := None\<rparr>"

lemma unat_suc_less: "(x :: u32) + 1 < n \<Longrightarrow> x \<noteq> - 1 \<Longrightarrow> unat (x + 1) = unat x + 1"
  by (metis add.commute unatSuc Suc_eq_plus1 add_eq_0_iff)

function skip_restarts :: "BlockIter \<Rightarrow> BlockIter option" where
  "skip_restarts it =
     (if restart_index it + 1 < num_restarts it then
        (case GetRestartPoint it (restart_index it + 1) of
           None \<Rightarrow> None
         | Some p \<Rightarrow> if p < bi_current it then skip_restarts (it\<lparr>restart_index := restart_index it + 1\<rparr>) else Some it)
      else Some it)"
  by pat_completeness auto
termination
proof (relation "measure (\<lambda>it. if restart_index it = - 1 then 2 ^ 33 else unat (num_restarts it) - unat (restart_index it))", goal_cases)
  case (2 it p)
  show ?case
  proof (cases "restart_index it = - 1")
    case True
    have "unat (num_restarts it) < 2 ^ 33" using unat_u32 [of "num_restarts it"] by simp
    then show ?thesis using True by simp
  next
    case False
    then have "unat (restart_index it + 1) = unat (restart_index it) + 1" "unat (restart_index it + 1) < unat (num_restarts it)"
      using 2(1) unat_suc_less by (auto simp: word_less_nat_alt)
    moreover have "restart_index it + 1 \<noteq> - 1" using 2(1) by (metis word_order.extremum_strict)
    ultimately show ?thesis using False by simp
  qed
qed simp

declare skip_restarts.simps [simp del]

definition ParseNextKey :: "BlockIter \<Rightarrow> (bool \<times> BlockIter) option" where
  "ParseNextKey it =
     (case NextEntryOffset it of
        None \<Rightarrow> None
      | Some current \<Rightarrow>
          let it = it\<lparr>bi_current := current\<rparr>; limit = unat (bi_restarts it)
          in if limit \<le> unat current
             then Some (False, it\<lparr>bi_current := bi_restarts it, restart_index := num_restarts it\<rparr>)
             else
               case DecodeEntry (take (limit - unat current) (drop (unat current) (bi_data it))) of
                 None \<Rightarrow> Some (False, CorruptionError it)
               | Some (shared, non_shared, value_length, rest) \<Rightarrow>
                   if length (bi_key it) < unat shared then Some (False, CorruptionError it)
                   else
                     let p = limit - length rest
                     in if length (bi_data it) < p + unat non_shared then None
                        else
                          map_option (Pair True)
                            (skip_restarts (it\<lparr>bi_key := take (unat shared) (bi_key it) @ take (unat non_shared) (drop p (bi_data it)),
                               bi_value := Some (p + unat non_shared, unat value_length)\<rparr>)))"

text \<open>Every entry takes bytes of the block, also where the sum of its lengths wraps around.\<close>

lemma DecodeEntry_progress:
  assumes "DecodeEntry ps = Some (shared, non_shared, value_length, rest)"
  shows "suffix rest ps" "length rest < length ps" "non_shared + value_length \<le> of_nat (length rest)"
proof -
  have step: "suffix rest ps \<and> length rest < length ps" if "GetVarint32Ptr ps = Some (v, rest)" for ps v rest
    using GetVarint32_progress [of ps v rest] that by (simp add: GetVarint32_def)
  have suf: "suffix (drop 3 ps) ps" by (rule suffix_drop)
  show "suffix rest ps" "length rest < length ps"
    using assms by (auto simp: DecodeEntry_def Let_def suf split: if_splits option.splits dest!: step)
      (metis suffix_order.trans)
  show "non_shared + value_length \<le> of_nat (length rest)"
    using assms by (auto simp: DecodeEntry_def Let_def not_less split: if_splits option.splits)
qed

lemma skip_restarts_same:
  "skip_restarts it = Some it' \<Longrightarrow> \<exists>r. it' = it\<lparr>restart_index := r\<rparr>"
proof (induction it rule: skip_restarts.induct)
  case (1 it)
  then show ?case
    by (auto simp: skip_restarts.simps [of it] split: if_splits option.splits intro: exI [of _ "restart_index it"])
qed

lemma ParseNextKey_progress:
  assumes "ParseNextKey it = Some (True, it')"
  shows "\<exists>a b. NextEntryOffset it = Some a \<and> NextEntryOffset it' = Some b \<and> unat a < unat b \<and>
    unat b \<le> unat (bi_restarts it) \<and> bi_restarts it' = bi_restarts it"
proof -
  obtain a where a: "NextEntryOffset it = Some a" "unat a < unat (bi_restarts it)"
    using assms by (auto simp: ParseNextKey_def Let_def split: option.splits if_splits)
  define limit where "limit = unat (bi_restarts it)"
  obtain sh ns vl rest where dec: "DecodeEntry (take (limit - unat a) (drop (unat a) (bi_data it))) = Some (sh, ns, vl, rest)"
    and it': "bi_value it' = Some (limit - length rest + unat ns, unat vl)" "bi_restarts it' = bi_restarts it"
    using assms a by (auto simp: ParseNextKey_def Let_def limit_def split: option.splits if_splits prod.splits dest!: skip_restarts_same)
  have rest: "length rest < limit - unat a" "ns + vl \<le> of_nat (length rest)"
    using DecodeEntry_progress [OF dec] by auto
  have limit: "limit < 2 ^ 32" unfolding limit_def by (rule unat_u32)
  then have sum: "unat (ns + vl) \<le> length rest" using rest by (simp add: word_le_nat_alt unat_of_nat_u32)
  have "NextEntryOffset it' = Some (of_nat (limit - length rest) + (ns + vl))"
    by (simp add: NextEntryOffset_def it' add.assoc)
  moreover have "unat (of_nat (limit - length rest) + (ns + vl) :: u32) = limit - length rest + unat (ns + vl)"
  proof -
    have p: "unat (of_nat (limit - length rest) :: u32) = limit - length rest" using limit by (intro unat_of_nat_u32) simp
    then have "unat (of_nat (limit - length rest) :: u32) + unat (ns + vl) < 2 ^ LENGTH(32)" using sum rest limit by simp
    then show ?thesis by (subst unat_add_lem [THEN iffD1]) (simp_all only: p)
  qed
  ultimately show ?thesis using a it' sum rest limit_def by auto
qed

definition BlockIter_Next :: "BlockIter \<Rightarrow> BlockIter option" where
  "BlockIter_Next it = (if BlockIter_Valid it then map_option snd (ParseNextKey it) else None)"

definition to_parse :: "BlockIter \<Rightarrow> nat" where
  "to_parse it = (case NextEntryOffset it of None \<Rightarrow> 0 | Some a \<Rightarrow> unat (bi_restarts it) - unat a)"

lemma ParseNextKey_to_parse: "ParseNextKey it = Some (True, it') \<Longrightarrow> to_parse it' < to_parse it"
  using ParseNextKey_progress [of it it'] by (auto simp: to_parse_def)

text \<open>The loops of \<open>Prev\<close> and \<open>SeekToLast\<close> that parse until an entry ends at or behind an offset.\<close>

function parse_to :: "u32 \<Rightarrow> BlockIter \<Rightarrow> BlockIter option" where
  "parse_to offset it =
     (case ParseNextKey it of
        None \<Rightarrow> None
      | Some (ok, it') \<Rightarrow>
          if ok then
            (case NextEntryOffset it' of
               None \<Rightarrow> None
             | Some n \<Rightarrow> if n < offset then parse_to offset it' else Some it')
          else Some it')"
  by pat_completeness auto
termination
  by (relation "measure (\<lambda>(offset, it). to_parse it)") (auto dest: ParseNextKey_to_parse)

declare parse_to.simps [simp del]

text \<open>The scan of \<open>Prev\<close> over the restart points; \<open>None\<close> inside where it has passed the first one.\<close>

function prev_restart :: "BlockIter \<Rightarrow> u32 \<Rightarrow> u32 \<Rightarrow> u32 option option" where
  "prev_restart it original index =
     (case GetRestartPoint it index of
        None \<Rightarrow> None
      | Some p \<Rightarrow>
          if original \<le> p then if index = 0 then Some None else prev_restart it original (index - 1)
          else Some (Some index))"
  by pat_completeness auto
termination
  by (relation "measure (\<lambda>(it, original, index). unat index)") (auto intro!: word_less_nat_alt [THEN iffD1] measure_unat)

declare prev_restart.simps [simp del]

definition BlockIter_Prev :: "BlockIter \<Rightarrow> BlockIter option" where
  "BlockIter_Prev it =
     (if \<not> BlockIter_Valid it then None
      else
        let original = bi_current it
        in case prev_restart it original (restart_index it) of
             None \<Rightarrow> None
           | Some None \<Rightarrow> Some (it\<lparr>bi_current := bi_restarts it, restart_index := num_restarts it\<rparr>)
           | Some (Some index) \<Rightarrow> Option.bind (SeekToRestartPoint it index) (parse_to original))"

text \<open>The binary search of \<open>Seek\<close>; \<open>Inr\<close> is the early return after a corruption.\<close>

partial_function (option) seek_restart ::
    "(slice \<Rightarrow> slice \<Rightarrow> int) \<Rightarrow> slice \<Rightarrow> BlockIter \<Rightarrow> u32 \<Rightarrow> u32 \<Rightarrow> (u32 + BlockIter) option" where
  "seek_restart cmp target it left right =
     (if left < right then
        let mid = (left + right + 1) div 2
        in case GetRestartPoint it mid of
             None \<Rightarrow> None
           | Some region_offset \<Rightarrow>
               (case DecodeEntry (take (unat (bi_restarts it) - unat region_offset) (drop (unat region_offset) (bi_data it))) of
                  None \<Rightarrow> Some (Inr (CorruptionError it))
                | Some (shared, non_shared, value_length, rest) \<Rightarrow>
                    if shared \<noteq> 0 then Some (Inr (CorruptionError it))
                    else
                      let p = unat (bi_restarts it) - length rest
                      in if length (bi_data it) < p + unat non_shared then None
                         else if cmp (take (unat non_shared) (drop p (bi_data it))) target < 0
                         then seek_restart cmp target it mid right
                         else seek_restart cmp target it left (mid - 1))
      else Some (Inl left))"

function seek_scan :: "(slice \<Rightarrow> slice \<Rightarrow> int) \<Rightarrow> slice \<Rightarrow> BlockIter \<Rightarrow> BlockIter option" where
  "seek_scan cmp target it =
     (case ParseNextKey it of
        None \<Rightarrow> None
      | Some (ok, it') \<Rightarrow> if \<not> ok \<or> cmp (bi_key it') target \<ge> 0 then Some it' else seek_scan cmp target it')"
  by pat_completeness auto
termination
  by (relation "measure (\<lambda>(cmp, target, it). to_parse it)") (auto dest: ParseNextKey_to_parse)

declare seek_scan.simps [simp del]

definition BlockIter_Seek :: "(slice \<Rightarrow> slice \<Rightarrow> int) \<Rightarrow> slice \<Rightarrow> BlockIter \<Rightarrow> BlockIter option" where
  "BlockIter_Seek cmp target it =
     (case seek_restart cmp target it 0 (num_restarts it - 1) of
        None \<Rightarrow> None
      | Some (Inr it) \<Rightarrow> Some it
      | Some (Inl left) \<Rightarrow> Option.bind (SeekToRestartPoint it left) (seek_scan cmp target))"

definition BlockIter_SeekToFirst :: "BlockIter \<Rightarrow> BlockIter option" where
  "BlockIter_SeekToFirst it = Option.bind (SeekToRestartPoint it 0) (\<lambda>it. map_option snd (ParseNextKey it))"

definition BlockIter_SeekToLast :: "BlockIter \<Rightarrow> BlockIter option" where
  "BlockIter_SeekToLast it = Option.bind (SeekToRestartPoint it (num_restarts it - 1)) (parse_to (bi_restarts it))"

section \<open>The iterator interface\<close>

fun lift_op :: "(BlockIter \<Rightarrow> BlockIter option) \<Rightarrow> block_iterator \<Rightarrow> block_iterator option" where
  "lift_op f (Iter it) = map_option Iter (f it)"
| "lift_op f (EmptyIterator s) = None"

fun lift_seek :: "(BlockIter \<Rightarrow> BlockIter option) \<Rightarrow> block_iterator \<Rightarrow> block_iterator option" where
  "lift_seek f (Iter it) = map_option Iter (f it)"
| "lift_seek f (EmptyIterator s) = Some (EmptyIterator s)"

definition block_ops :: "(slice \<Rightarrow> slice \<Rightarrow> int) \<Rightarrow> block_iterator Iterator" where
  "block_ops cmp =
     \<lparr>it_Valid = (\<lambda>i. case i of Iter it \<Rightarrow> BlockIter_Valid it | EmptyIterator _ \<Rightarrow> False),
      it_key = (\<lambda>i. case i of Iter it \<Rightarrow> BlockIter_key it | EmptyIterator _ \<Rightarrow> None),
      it_value = (\<lambda>i. case i of Iter it \<Rightarrow> BlockIter_value it | EmptyIterator _ \<Rightarrow> None),
      it_status = (\<lambda>i. case i of Iter it \<Rightarrow> bi_status it | EmptyIterator s \<Rightarrow> s),
      it_SeekToFirst = lift_seek BlockIter_SeekToFirst, it_SeekToLast = lift_seek BlockIter_SeekToLast,
      it_Seek = (\<lambda>target. lift_seek (BlockIter_Seek cmp target)),
      it_Next = lift_op BlockIter_Next, it_Prev = lift_op BlockIter_Prev\<rparr>"

end
