(* ===== verification/LdbBlockSpec.thy ===== *)
theory LdbBlockSpec
  imports LdbBlock
begin

unbundle bit_operations_syntax

text \<open>
  The format of a block, and the proof that the builder writes it and the iterator reads it.

  An entry of the format is the number of key bytes it shares with its predecessor, its key and its
  value; \<open>offset es i\<close> is where entry \<open>i\<close> starts.  \<open>layout es rs\<close> says that the entries \<open>es\<close> and the
  restart points \<open>rs\<close> (indices of entries) fit together.
\<close>

section \<open>The format\<close>

type_synonym block_entry = "nat \<times> slice \<times> slice"

fun entry_bytes :: "block_entry \<Rightarrow> slice" where
  "entry_bytes (s, k, v) = EncodeVarint32 (of_nat s) @ EncodeVarint32 (of_nat (length k - s)) @
     EncodeVarint32 (of_nat (length v)) @ drop s k @ v"

definition body :: "block_entry list \<Rightarrow> slice" where
  "body es = concat (map entry_bytes es)"

definition offset :: "block_entry list \<Rightarrow> nat \<Rightarrow> nat" where
  "offset es i = length (body (take i es))"

abbreviation shared_at :: "block_entry list \<Rightarrow> nat \<Rightarrow> nat" where
  "shared_at es i \<equiv> fst (es ! i)"

abbreviation key_of :: "block_entry list \<Rightarrow> nat \<Rightarrow> slice" where
  "key_of es i \<equiv> fst (snd (es ! i))"

abbreviation val_of :: "block_entry list \<Rightarrow> nat \<Rightarrow> slice" where
  "val_of es i \<equiv> snd (snd (es ! i))"

definition layout :: "block_entry list \<Rightarrow> nat list \<Rightarrow> bool" where
  "layout es rs \<longleftrightarrow> rs \<noteq> [] \<and> rs ! 0 = 0 \<and> sorted_wrt (<) rs \<and> (\<forall>r\<in>set rs. r = 0 \<or> r < length es) \<and>
     (\<forall>i<length es. shared_at es i \<le> length (key_of es i) \<and> (i \<in> set rs \<longrightarrow> shared_at es i = 0) \<and>
        (0 < i \<longrightarrow> shared_at es i \<le> length (key_of es (i - 1)) \<and>
           take (shared_at es i) (key_of es (i - 1)) = take (shared_at es i) (key_of es i)))"

definition restart_bytes :: "block_entry list \<Rightarrow> nat list \<Rightarrow> slice" where
  "restart_bytes es rs = concat (map (\<lambda>r. EncodeFixed32 (of_nat (offset es r))) rs)"

definition block_bytes :: "block_entry list \<Rightarrow> nat list \<Rightarrow> slice" where
  "block_bytes es rs = body es @ restart_bytes es rs @ EncodeFixed32 (of_nat (length rs))"

lemma body_simps [simp]: "body [] = []" "body (e # es) = entry_bytes e @ body es" "body (es @ fs) = body es @ body fs"
  by (simp_all add: body_def)

lemma length_EncodeFixed32 [simp]: "length (EncodeFixed32 v) = 4"
  by (simp add: EncodeFixed32_def)

lemma length_restart_bytes [simp]: "length (restart_bytes es rs) = 4 * length rs"
  by (simp add: restart_bytes_def length_concat sum_list_triv comp_def)

lemma length_EncodeVarint32: "0 < length (EncodeVarint32 v)"
  using ldb_varint32.put_nonempty [of v] by (simp add: PutVarint32_def)

lemma length_entry: "3 + (length k - s) + length v \<le> length (entry_bytes (s, k, v))"
  using length_EncodeVarint32 [of "of_nat s"] length_EncodeVarint32 [of "of_nat (length k - s)"] length_EncodeVarint32 [of "of_nat (length v)"]
  by (simp del: length_greater_0_conv)

lemma offset_0 [simp]: "offset es 0 = 0"
  by (simp add: offset_def)

lemma offset_Suc: "i < length es \<Longrightarrow> offset es (Suc i) = offset es i + length (entry_bytes (es ! i))"
  by (simp add: offset_def take_Suc_conv_app_nth)

lemma offset_length: "offset es (length es) = length (body es)"
  by (simp add: offset_def)

lemma offset_step: "i < length es \<Longrightarrow> offset es i < offset es (Suc i)"
  using length_entry [of "key_of es i" "shared_at es i" "val_of es i"] by (simp add: offset_Suc del: length_greater_0_conv)

lemma offset_less: "i < j \<Longrightarrow> j \<le> length es \<Longrightarrow> offset es i < offset es j"
proof (induction j)
  case (Suc j)
  then show ?case using offset_step [of j es] by (cases "i = j") auto
qed simp

lemma offset_less_iff: "i \<le> length es \<Longrightarrow> j \<le> length es \<Longrightarrow> offset es i < offset es j \<longleftrightarrow> i < j"
  by (metis offset_less linorder_neqE_nat less_irrefl order_less_trans)

lemma offset_le: "i \<le> length es \<Longrightarrow> offset es i \<le> length (body es)"
  using offset_less [of i "length es" es] by (cases "i = length es") (auto simp: offset_length)

lemma drop_offset: "i < length es \<Longrightarrow> drop (offset es i) (body es) = entry_bytes (es ! i) @ body (drop (Suc i) es)"
proof -
  assume i: "i < length es"
  have "body es = body (take i es) @ body (drop i es)" by (metis append_take_drop_id body_simps(3))
  then show ?thesis using i by (simp add: offset_def Cons_nth_drop_Suc [symmetric])
qed

text \<open>A key is no longer than the block up to the end of its entry.\<close>

lemma layout_zero: "layout es rs \<Longrightarrow> 0 \<in> set rs"
  by (metis layout_def length_greater_0_conv nth_mem)

lemma layout_shared:
  assumes "layout es rs" "i < length es"
  shows "shared_at es i \<le> length (key_of es i)" "i \<in> set rs \<Longrightarrow> shared_at es i = 0"
    "0 < i \<Longrightarrow> shared_at es i \<le> length (key_of es (i - 1))"
    "0 < i \<Longrightarrow> take (shared_at es i) (key_of es (i - 1)) = take (shared_at es i) (key_of es i)"
  using assms by (auto simp: layout_def)

lemma entry_eta: "entry_bytes (es ! i) = entry_bytes (shared_at es i, key_of es i, val_of es i)"
  by simp

lemma key_length: "layout es rs \<Longrightarrow> i < length es \<Longrightarrow> length (key_of es i) \<le> offset es (Suc i)"
proof (induction i)
  case 0
  then have "shared_at es 0 = 0" using layout_shared(2) [OF 0] layout_zero by blast
  moreover have "length (key_of es 0) - shared_at es 0 \<le> length (entry_bytes (es ! 0))"
    using length_entry [of "key_of es 0" "shared_at es 0" "val_of es 0"] by simp
  ultimately show ?case using 0 by (simp add: offset_Suc)
next
  case (Suc i)
  let ?s = "shared_at es (Suc i)" and ?k = "key_of es (Suc i)"
  have "?s \<le> length (key_of es i)" "?s \<le> length ?k" using Suc.prems by (auto simp: layout_def)
  moreover have "length (key_of es i) \<le> offset es (Suc i)" using Suc by simp
  moreover have "length ?k - ?s \<le> length (entry_bytes (es ! Suc i))" using length_entry [of ?k ?s "val_of es (Suc i)"] by simp
  ultimately show ?case using Suc.prems by (simp add: offset_Suc)
qed

section \<open>Decoding an entry\<close>

definition slow_header :: "slice \<Rightarrow> (u32 \<times> u32 \<times> u32 \<times> slice) option" where
  "slow_header ps =
     (case GetVarint32Ptr ps of None \<Rightarrow> None | Some (shared, ps) \<Rightarrow>
     (case GetVarint32Ptr ps of None \<Rightarrow> None | Some (non_shared, ps) \<Rightarrow>
     (case GetVarint32Ptr ps of None \<Rightarrow> None | Some (value_length, ps) \<Rightarrow> Some (shared, non_shared, value_length, ps))))"

lemma small_byte_and: "\<not> bit (ucast p :: u32) 7 \<Longrightarrow> GetVarint32Ptr (p # ps) = Some (ucast p, ps)"
  by (simp add: GetVarint32Ptr_def and_80_eq)

text \<open>The fast path computes what the three varint readers compute.\<close>

lemma fast_header:
  assumes "3 \<le> length ps" "(ucast (ps ! 0) OR ucast (ps ! 1) OR ucast (ps ! 2) :: u32) < 128"
  shows "slow_header ps = Some (ucast (ps ! 0), ucast (ps ! 1), ucast (ps ! 2), drop 3 ps)"
proof -
  obtain a b c rest where ps: "ps = a # b # c # rest"
    using assms(1) by (auto simp: numeral_3_eq_3 Suc_le_length_iff)
  have "\<not> bit (ucast (ps ! 0) OR ucast (ps ! 1) OR ucast (ps ! 2) :: u32) 7"
    using assms(2) bit_bounded [of _ 7 7] by (auto simp: word_less_nat_alt)
  then show ?thesis by (simp add: ps slow_header_def small_byte_and bit_or_iff)
qed

lemma DecodeEntry_slow:
  "3 \<le> length ps \<Longrightarrow> slow_header ps = Some (s, n, vl, rest) \<Longrightarrow> n + vl \<le> of_nat (length rest) \<Longrightarrow>
    DecodeEntry ps = Some (s, n, vl, rest)"
  using fast_header [of ps] by (auto simp: DecodeEntry_def slow_header_def Let_def not_le split: option.splits if_splits)

lemma GetVarint32Ptr_put [simp]: "GetVarint32Ptr (EncodeVarint32 v @ rest) = Some (v, rest)"
  using GetVarint32_bytes [of v rest] by (simp add: GetVarint32_def EncodeVarint32_eq)

lemma DecodeEntry_entry:
  assumes "length (entry_bytes (s, k, v) @ rest) < 2 ^ 32"
  shows "DecodeEntry (entry_bytes (s, k, v) @ rest) = Some (of_nat s, of_nat (length k - s), of_nat (length v), drop s k @ v @ rest)"
proof (rule DecodeEntry_slow)
  show "3 \<le> length (entry_bytes (s, k, v) @ rest)" using length_entry [of k s v] by simp
  show "slow_header (entry_bytes (s, k, v) @ rest) = Some (of_nat s, of_nat (length k - s), of_nat (length v), drop s k @ v @ rest)"
    by (simp add: slow_header_def)
  have "of_nat (length k - s) + of_nat (length v) = (of_nat (length k - s + length v) :: u32)" by simp
  moreover have "(length k - s) + length v + length rest < 2 ^ 32" using assms length_entry [of k s v] by simp
  ultimately show "of_nat (length k - s) + of_nat (length v) \<le> (of_nat (length (drop s k @ v @ rest)) :: u32)"
    by (simp only: word_le_nat_alt) (simp add: unat_of_nat_u32 del: of_nat_add)
qed

section \<open>The position of the iterator\<close>

definition block_iter :: "block_entry list \<Rightarrow> nat list \<Rightarrow> BlockIter \<Rightarrow> bool" where
  "block_iter es rs it \<longleftrightarrow> layout es rs \<and> length (block_bytes es rs) < 2 ^ 32 \<and> bi_data it = block_bytes es rs \<and>
     bi_restarts it = of_nat (length (body es)) \<and> num_restarts it = of_nat (length rs) \<and> bi_status it = Status_OK"

definition in_restart :: "nat list \<Rightarrow> nat \<Rightarrow> u32 \<Rightarrow> bool" where
  "in_restart rs i r \<longleftrightarrow> unat r < length rs \<and> rs ! unat r \<le> i"

definition before :: "block_entry list \<Rightarrow> nat list \<Rightarrow> nat \<Rightarrow> BlockIter \<Rightarrow> bool" where
  "before es rs i it \<longleftrightarrow> block_iter es rs it \<and> i \<le> length es \<and> (\<exists>p n. bi_value it = Some (p, n) \<and> p + n = offset es i) \<and>
     in_restart rs i (restart_index it) \<and>
     (i < length es \<longrightarrow> shared_at es i = 0 \<or> 0 < i \<and> bi_key it = key_of es (i - 1))"

definition at_entry :: "block_entry list \<Rightarrow> nat list \<Rightarrow> nat \<Rightarrow> BlockIter \<Rightarrow> bool" where
  "at_entry es rs i it \<longleftrightarrow> block_iter es rs it \<and> i < length es \<and> bi_current it = of_nat (offset es i) \<and>
     bi_key it = key_of es i \<and>
     bi_value it = Some (offset es (Suc i) - length (val_of es i), length (val_of es i)) \<and>
     in_restart rs i (restart_index it)"

definition at_end :: "block_entry list \<Rightarrow> nat list \<Rightarrow> BlockIter \<Rightarrow> bool" where
  "at_end es rs it \<longleftrightarrow> block_iter es rs it \<and> bi_current it = bi_restarts it"

lemma block_iter_upd [simp]:
  "block_iter es rs (it\<lparr>bi_current := c\<rparr>) = block_iter es rs it" "block_iter es rs (it\<lparr>restart_index := r\<rparr>) = block_iter es rs it"
  "block_iter es rs (it\<lparr>bi_key := k\<rparr>) = block_iter es rs it" "block_iter es rs (it\<lparr>bi_value := v\<rparr>) = block_iter es rs it"
  by (simp_all add: block_iter_def)

lemma length_block_bytes: "length (block_bytes es rs) = length (body es) + 4 * length rs + 4"
  by (simp add: block_bytes_def)

lemma block_iter_bounds:
  assumes "block_iter es rs it"
  shows "length (body es) < 2 ^ 32" "length rs < 2 ^ 32" "unat (bi_restarts it) = length (body es)" "unat (num_restarts it) = length rs"
  using assms by (auto simp: block_iter_def length_block_bytes unat_of_nat_u32)

lemma unat_offset:
  assumes "block_iter es rs it" "i \<le> length es" shows "unat (of_nat (offset es i) :: u32) = offset es i"
  using block_iter_bounds(1) [OF assms(1)] offset_le [OF assms(2)] by (intro unat_of_nat_u32) simp

lemma GetRestartPoint_iter:
  assumes it: "block_iter es rs it" and r: "unat r < length rs"
  shows "GetRestartPoint it r = Some (of_nat (offset es (rs ! unat r)))"
proof -
  have "drop (4 * j) (restart_bytes es rs) = EncodeFixed32 (of_nat (offset es (rs ! j))) @ drop (4 * Suc j) (restart_bytes es rs)"
    if "j < length rs" for j
    using that
  proof (induction rs arbitrary: j)
    case (Cons r rs)
    then show ?case by (cases j) (simp_all add: restart_bytes_def)
  qed simp
  from this [OF r] have "drop (unat (bi_restarts it) + unat r * 4) (bi_data it) =
      EncodeFixed32 (of_nat (offset es (rs ! unat r))) @ drop (4 * Suc (unat r)) (restart_bytes es rs) @ EncodeFixed32 (of_nat (length rs))"
    using it r block_iter_bounds(3) [OF it] by (simp add: block_iter_def block_bytes_def mult.commute)
  moreover have "r < num_restarts it" using r block_iter_bounds(4) [OF it] by (simp add: word_less_nat_alt)
  ultimately show ?thesis by (simp add: GetRestartPoint_def) (simp add: EncodeFixed32_def)
qed

lemma restart_le: "layout es rs \<Longrightarrow> j < length rs \<Longrightarrow> rs ! j \<le> length es"
  using nth_mem [of j rs] unfolding layout_def by (metis less_imp_le_nat zero_le)

lemma layout_mono: "layout es rs \<Longrightarrow> j < k \<Longrightarrow> k < length rs \<Longrightarrow> rs ! j < rs ! k"
  by (auto simp: layout_def sorted_wrt_iff_nth_less)

lemma SeekToRestartPoint_before:
  assumes it: "block_iter es rs it" and r: "unat r < length rs"
  shows "\<exists>it'. SeekToRestartPoint it r = Some it' \<and> before es rs (rs ! unat r) it'"
proof -
  have lay: "layout es rs" using it by (simp add: block_iter_def)
  have "rs ! unat r < length es \<Longrightarrow> shared_at es (rs ! unat r) = 0" using layout_shared(2) [OF lay] r by simp
  then show ?thesis
    using it r restart_le [OF lay r] unat_offset [OF it restart_le [OF lay r]]
    by (auto simp: SeekToRestartPoint_def GetRestartPoint_iter before_def in_restart_def)
qed

lemma skip_restarts_in:
  "block_iter es rs it \<Longrightarrow> i < length es \<Longrightarrow> bi_current it = of_nat (offset es i) \<Longrightarrow> in_restart rs i (restart_index it) \<Longrightarrow>
    \<exists>r. skip_restarts it = Some (it\<lparr>restart_index := r\<rparr>) \<and> in_restart rs i r"
proof (induction it rule: skip_restarts.induct)
  case (1 it)
  let ?r = "restart_index it + 1"
  show ?case
  proof (cases "?r < num_restarts it")
    case False
    then show ?thesis using 1 by (intro exI [of _ "restart_index it"]) (simp add: skip_restarts.simps [of it])
  next
    case True
    then have r: "unat ?r < length rs" using block_iter_bounds(4) [OF "1.prems"(1)] by (simp add: word_less_nat_alt)
    note p = GetRestartPoint_iter [OF "1.prems"(1) r]
    have lay: "layout es rs" using "1.prems"(1) by (simp add: block_iter_def)
    show ?thesis
    proof (cases "(of_nat (offset es (rs ! unat ?r)) :: u32) < bi_current it")
      case less: True
      then have "rs ! unat ?r < i"
        using "1.prems"(1-3) restart_le [OF lay r]
        by (simp add: word_less_nat_alt unat_offset [OF "1.prems"(1)] offset_less_iff)
      then have "in_restart rs i ?r" using r by (simp add: in_restart_def)
      then show ?thesis
        using "1.IH" [OF True p less] "1.prems" True p less by (auto simp: skip_restarts.simps [of it])
    next
      case False
      then show ?thesis using 1 p True by (intro exI [of _ "restart_index it"]) (simp add: skip_restarts.simps [of it])
    qed
  qed
qed

lemma at_entry_before: "at_entry es rs i it \<Longrightarrow> before es rs (Suc i) it"
proof -
  assume at: "at_entry es rs i it"
  then have i: "i < length es" by (simp add: at_entry_def)
  then have "length (val_of es i) \<le> offset es (Suc i)"
    using length_entry [of "key_of es i" "shared_at es i" "val_of es i"] by (simp add: offset_Suc)
  then show ?thesis using at by (auto simp: at_entry_def before_def in_restart_def)
qed

lemma NextEntryOffset_before: "before es rs i it \<Longrightarrow> NextEntryOffset it = Some (of_nat (offset es i))"
  by (auto simp: before_def NextEntryOffset_def simp flip: of_nat_add)

lemma entry_in_block:
  assumes it: "block_iter es rs it" and i: "i < length es"
  shows "DecodeEntry (take (length (body es) - offset es i) (drop (offset es i) (bi_data it))) =
    Some (of_nat (shared_at es i), of_nat (length (key_of es i) - shared_at es i), of_nat (length (val_of es i)),
      drop (shared_at es i) (key_of es i) @ val_of es i @ body (drop (Suc i) es))"
proof -
  have ps: "take (length (body es) - offset es i) (drop (offset es i) (bi_data it)) = entry_bytes (es ! i) @ body (drop (Suc i) es)"
    using it i offset_le [of i es] by (simp add: block_iter_def block_bytes_def drop_offset [symmetric])
  have "length (entry_bytes (es ! i) @ body (drop (Suc i) es)) < 2 ^ 32"
    using block_iter_bounds(1) [OF it] by (simp add: drop_offset [OF i, symmetric])
  then show ?thesis
    using DecodeEntry_entry [of "shared_at es i" "key_of es i" "val_of es i" "body (drop (Suc i) es)"] by (simp add: ps del: entry_bytes.simps)
qed

text \<open>The key and value bytes that \<open>ParseNextKey\<close> takes from the block.\<close>

lemma entry_pieces:
  assumes it: "block_iter es rs it" and i: "i < length es"
  defines "n \<equiv> length (key_of es i) - shared_at es i"
    and "p \<equiv> length (body es) - length (drop (shared_at es i) (key_of es i) @ val_of es i @ body (drop (Suc i) es))"
  shows "p + n = offset es (Suc i) - length (val_of es i)" "take n (drop p (bi_data it)) = drop (shared_at es i) (key_of es i)"
    "p + n \<le> length (bi_data it)"
proof -
  let ?hd = "EncodeVarint32 (of_nat (shared_at es i)) @ EncodeVarint32 (of_nat n) @ EncodeVarint32 (of_nat (length (val_of es i)))"
  have entry: "entry_bytes (es ! i) = ?hd @ drop (shared_at es i) (key_of es i) @ val_of es i"
    by (subst entry_eta) (simp only: entry_bytes.simps n_def append.assoc)
  have body: "body es = body (take i es) @ ?hd @ drop (shared_at es i) (key_of es i) @ val_of es i @ body (drop (Suc i) es)"
  proof -
    have "body es = body (take i es @ es ! i # drop (Suc i) es)" using id_take_nth_drop [OF i] by simp
    then show ?thesis by (simp only: body_simps entry append.assoc)
  qed
  then have p: "p = offset es i + length ?hd" by (simp add: p_def offset_def)
  show "p + n = offset es (Suc i) - length (val_of es i)"
    using i by (simp add: p offset_Suc entry n_def)
  show "take n (drop p (bi_data it)) = drop (shared_at es i) (key_of es i)"
    using it by (simp add: p block_iter_def block_bytes_def body offset_def n_def)
  show "p + n \<le> length (bi_data it)"
    using it by (simp add: p block_iter_def block_bytes_def body offset_def n_def)
qed

lemma ParseNextKey_entry:
  assumes b: "before es rs i it" and i: "i < length es"
  shows "\<exists>it'. ParseNextKey it = Some (True, it') \<and> at_entry es rs i it'"
proof -
  have it: "block_iter es rs it" and lay: "layout es rs" using b by (auto simp: before_def block_iter_def)
  let ?s = "shared_at es i" and ?k = "key_of es i" and ?v = "val_of es i"
  let ?rest = "drop ?s ?k @ ?v @ body (drop (Suc i) es)"
  have bounds: "unat (of_nat ?s :: u32) = ?s" "unat (of_nat (length ?k - ?s) :: u32) = length ?k - ?s" "unat (of_nat (length ?v) :: u32) = length ?v"
  proof -
    have "offset es (Suc i) < 2 ^ 32" using offset_le [of "Suc i" es] block_iter_bounds(1) [OF it] i by simp
    moreover have "length ?v \<le> offset es (Suc i)" using length_entry [of ?k ?s ?v] i by (simp add: offset_Suc)
    ultimately show "unat (of_nat ?s :: u32) = ?s" "unat (of_nat (length ?k - ?s) :: u32) = length ?k - ?s" "unat (of_nat (length ?v) :: u32) = length ?v"
      using key_length [OF lay i] layout_shared(1) [OF lay i] by (auto intro!: unat_of_nat_u32 simp del: of_nat_diff)
  qed
  have key: "?s \<le> length (bi_key it)" "take ?s (bi_key it) @ drop ?s ?k = ?k"
    using b i layout_shared [OF lay i] by (auto simp: before_def)
  note limit = block_iter_bounds(3) [OF it] and off = unat_offset [OF it less_imp_le [OF i]]
  let ?it = "it\<lparr>bi_current := of_nat (offset es i), bi_key := ?k, bi_value := Some (offset es (Suc i) - length ?v, length ?v)\<rparr>"
  have "ParseNextKey it = map_option (Pair True) (skip_restarts ?it)"
    using NextEntryOffset_before [OF b] entry_in_block [OF it i] entry_pieces [OF it i] key bounds offset_less [OF i order_refl]
    by (simp add: ParseNextKey_def Let_def limit off offset_length) 
  moreover obtain r where "skip_restarts ?it = Some (?it\<lparr>restart_index := r\<rparr>)" "in_restart rs i r"
    using skip_restarts_in [of es rs ?it i] it i b by (auto simp: before_def)
  ultimately show ?thesis using it i by (simp add: at_entry_def)
qed

lemma ParseNextKey_end:
  assumes b: "before es rs (length es) it"
  shows "\<exists>it'. ParseNextKey it = Some (False, it') \<and> at_end es rs it'"
proof -
  have it: "block_iter es rs it" using b by (simp add: before_def)
  then show ?thesis
    using NextEntryOffset_before [OF b] block_iter_bounds(3) [OF it] unat_offset [OF it order_refl]
    by (simp add: ParseNextKey_def Let_def offset_length at_end_def)
qed

section \<open>The operations of the iterator\<close>

lemma at_entry_valid: "at_entry es rs i it \<Longrightarrow> BlockIter_Valid it"
proof -
  assume at: "at_entry es rs i it"
  then have it: "block_iter es rs it" and i: "i < length es" by (auto simp: at_entry_def)
  then show ?thesis
    using at offset_less [OF i order_refl] block_iter_bounds(3) [OF it] unat_offset [OF it less_imp_le [OF i]]
    by (simp add: at_entry_def BlockIter_Valid_def word_less_nat_alt offset_length)
qed

lemma at_end_invalid: "at_end es rs it \<Longrightarrow> \<not> BlockIter_Valid it"
  by (simp add: at_end_def BlockIter_Valid_def)

text \<open>What the user of an iterator sees: the entry it is at, or that it is at none.\<close>

definition positioned :: "block_entry list \<Rightarrow> nat list \<Rightarrow> nat option \<Rightarrow> BlockIter \<Rightarrow> bool" where
  "positioned es rs pos it \<longleftrightarrow> (case pos of None \<Rightarrow> at_end es rs it | Some i \<Rightarrow> at_entry es rs i it)"

lemma parse_step:
  assumes "before es rs i it"
  shows "\<exists>it'. ParseNextKey it = Some (i < length es, it') \<and> positioned es rs (entry_pos es i) it'"
proof (cases "i < length es")
  case True
  then show ?thesis using ParseNextKey_entry [OF assms True] by (simp add: positioned_def entry_pos_def)
next
  case False
  then have "i = length es" using assms by (simp add: before_def)
  then show ?thesis using ParseNextKey_end assms by (simp add: positioned_def entry_pos_def)
qed

lemma SeekToFirst_correct:
  assumes it: "block_iter es rs it"
  shows "\<exists>it'. BlockIter_SeekToFirst it = Some it' \<and> positioned es rs (entry_pos es 0) it'"
proof -
  have "unat (0 :: u32) < length rs" "rs ! 0 = 0" using it by (auto simp: block_iter_def layout_def)
  then obtain it1 where "SeekToRestartPoint it 0 = Some it1" "before es rs 0 it1"
    using SeekToRestartPoint_before [OF it, of 0] by auto
  then show ?thesis using parse_step [of es rs 0 it1] by (auto simp: BlockIter_SeekToFirst_def)
qed

lemma BlockIter_Next_correct:
  assumes "at_entry es rs i it"
  shows "\<exists>it'. BlockIter_Next it = Some it' \<and> positioned es rs (entry_pos es (Suc i)) it'"
  using parse_step [OF at_entry_before [OF assms]] at_entry_valid [OF assms] by (auto simp: BlockIter_Next_def)

lemma parse_to_correct:
  "before es rs i it \<Longrightarrow> i \<le> m \<Longrightarrow> m < length es \<Longrightarrow>
    \<exists>it'. parse_to (of_nat (offset es (Suc m))) it = Some it' \<and> at_entry es rs m it'"
proof (induction "m - i" arbitrary: i it)
  case 0
  then have "i = m" by simp
  then show ?case
    using 0 ParseNextKey_entry [of es rs m it] NextEntryOffset_before [OF at_entry_before]
    by (auto simp: parse_to.simps [of _ it])
next
  case (Suc d)
  obtain it1 where it1: "ParseNextKey it = Some (True, it1)" "at_entry es rs i it1"
    using ParseNextKey_entry [OF Suc.prems(1)] Suc.prems by auto
  note b = at_entry_before [OF it1(2)]
  have it: "block_iter es rs it" using Suc.prems(1) by (simp add: before_def)
  have "(of_nat (offset es (Suc i)) :: u32) < of_nat (offset es (Suc m))"
    using Suc.hyps(2) Suc.prems unat_offset [OF it] offset_less [of "Suc i" "Suc m" es] by (simp add: word_less_nat_alt)
  then have "parse_to (of_nat (offset es (Suc m))) it = parse_to (of_nat (offset es (Suc m))) it1"
    using it1(1) NextEntryOffset_before [OF b] by (simp add: parse_to.simps [of _ it])
  then show ?case using Suc.hyps(1) [OF _ b] Suc.hyps(2) Suc.prems by simp
qed

lemma last_restart:
  assumes it: "block_iter es rs it" shows "unat (num_restarts it - 1) = length rs - 1"
proof -
  have num: "num_restarts it = of_nat (length rs)" "0 < length rs" using it by (auto simp: block_iter_def layout_def)
  then have "num_restarts it - 1 = of_nat (length rs - 1)" by (metis Suc_leI One_nat_def of_nat_1 of_nat_diff)
  then show ?thesis using block_iter_bounds(2) [OF it] by (simp only:) (rule unat_of_nat_u32, simp)
qed

lemma SeekToLast_correct:
  assumes it: "block_iter es rs it"
  shows "\<exists>it'. BlockIter_SeekToLast it = Some it' \<and> positioned es rs (last_pos es) it'"
proof -
  have lay: "layout es rs" and num: "num_restarts it = of_nat (length rs)" using it by (auto simp: block_iter_def)
  have rs: "0 < length rs" using lay by (simp add: layout_def)
  have last: "unat (num_restarts it - 1) = length rs - 1" using last_restart [OF it] .
  obtain it1 where it1: "SeekToRestartPoint it (num_restarts it - 1) = Some it1" "before es rs (rs ! (length rs - 1)) it1"
    using SeekToRestartPoint_before [OF it, of "num_restarts it - 1"] rs last by auto
  have limit: "bi_restarts it = of_nat (offset es (length es))" using it by (simp add: block_iter_def offset_length)
  show ?thesis
  proof (cases "es = []")
    case True
    then have "rs ! (length rs - 1) = 0" using restart_le [OF lay, of "length rs - 1"] rs by simp
    then show ?thesis
      using it1 parse_step [of es rs 0 it1] True
      by (auto simp: BlockIter_SeekToLast_def parse_to.simps entry_pos_def last_pos_def)
  next
    case False
    then have "rs ! (length rs - 1) \<le> length es - 1"
      using nth_mem [of "length rs - 1" rs] lay rs unfolding layout_def by fastforce
    then show ?thesis
      using parse_to_correct [OF it1(2), of "length es - 1"] False it1(1) by (auto simp: BlockIter_SeekToLast_def limit positioned_def last_pos_def)
  qed
qed

lemma prev_restart_correct:
  assumes it: "block_iter es rs it" and i: "i < length es"
  shows "unat r < length rs \<Longrightarrow> \<exists>res. prev_restart it (of_nat (offset es i)) r = Some res \<and>
    (case res of None \<Rightarrow> i = 0 | Some r' \<Rightarrow> unat r' < length rs \<and> rs ! unat r' < i)"
proof (induction "unat r" arbitrary: r)
  case 0
  have r: "r = 0" using 0 by (simp add: unat_eq_0)
  have zero: "rs ! 0 = 0" using it by (simp add: block_iter_def layout_def)
  show ?case
    using GetRestartPoint_iter [OF it 0(2)] r zero unat_offset [OF it less_imp_le [OF i]] offset_less_iff [of 0 es i] i 0(2)
    by (auto simp: prev_restart.simps [of it _ 0] word_le_nat_alt)
next
  case (Suc n)
  have lay: "layout es rs" using it by (simp add: block_iter_def)
  have n: "n = unat (r - 1)" using Suc.hyps(2) by (metis diff_Suc_1 unat_minus_one unat_0 nat.distinct(1))
  have le: "(of_nat (offset es i) :: u32) \<le> of_nat (offset es (rs ! unat r)) \<longleftrightarrow> \<not> rs ! unat r < i"
    using unat_offset [OF it] offset_less_iff [of "rs ! unat r" es i] restart_le [OF lay Suc.prems] i by (simp add: word_le_nat_alt not_less [symmetric])
  show ?case
    using GetRestartPoint_iter [OF it Suc.prems] le Suc.hyps(1) [OF n] Suc.hyps(2) n Suc.prems
    by (auto simp: prev_restart.simps [of it _ r])
qed

lemma BlockIter_Prev_correct:
  assumes at: "at_entry es rs i it"
  shows "\<exists>it'. BlockIter_Prev it = Some it' \<and> positioned es rs (if i = 0 then None else Some (i - 1)) it'"
proof -
  have it: "block_iter es rs it" and i: "i < length es" and cur: "bi_current it = of_nat (offset es i)"
    and r: "unat (restart_index it) < length rs"
    using at by (auto simp: at_entry_def in_restart_def)
  obtain res where res: "prev_restart it (of_nat (offset es i)) (restart_index it) = Some res"
    "case res of None \<Rightarrow> i = 0 | Some r' \<Rightarrow> unat r' < length rs \<and> rs ! unat r' < i"
    using prev_restart_correct [OF it i r] by blast
  show ?thesis
  proof (cases res)
    case None
    then show ?thesis
      using res at_entry_valid [OF at] it by (auto simp: BlockIter_Prev_def cur positioned_def at_end_def)
  next
    case (Some r')
    then obtain it1 where it1: "SeekToRestartPoint it r' = Some it1" "before es rs (rs ! unat r') it1"
      using SeekToRestartPoint_before [OF it, of r'] res(2) by auto
    have "\<exists>it'. parse_to (of_nat (offset es i)) it1 = Some it' \<and> at_entry es rs (i - 1) it'"
      using parse_to_correct [OF it1(2), of "i - 1"] res(2) Some i by auto
    then show ?thesis
      using res Some it1(1) at_entry_valid [OF at] by (auto simp: BlockIter_Prev_def cur positioned_def)
  qed
qed

lemma seek_scan_correct:
  "before es rs i it \<Longrightarrow> i \<le> seek_pos cmp (map snd es) target \<Longrightarrow>
    \<exists>it'. seek_scan cmp target it = Some it' \<and> positioned es rs (entry_pos es (seek_pos cmp (map snd es) target)) it'"
proof (induction "seek_pos cmp (map snd es) target - i" arbitrary: i it)
  case 0
  then have i: "i = seek_pos cmp (map snd es) target" by simp
  obtain it1 where it1: "ParseNextKey it = Some (i < length es, it1)" "positioned es rs (entry_pos es i) it1"
    using parse_step [OF 0(2)] by blast
  have "i < length es \<Longrightarrow> bi_key it1 = key_of es i" using it1(2) by (simp add: positioned_def entry_pos_def at_entry_def)
  then show ?case using it1 i seek_pos_at [of cmp "map snd es" target] by (auto simp: seek_scan.simps [of cmp target it] not_less)
next
  case (Suc d)
  then have i: "i < length es" "cmp (key_of es i) target < 0"
    using seek_pos_le [of cmp "map snd es" target] seek_pos_less [of i cmp "map snd es" target] by auto
  obtain it1 where it1: "ParseNextKey it = Some (True, it1)" "at_entry es rs i it1"
    using ParseNextKey_entry [OF Suc.prems(1) i(1)] by auto
  then have "seek_scan cmp target it = seek_scan cmp target it1"
    using i(2) by (simp add: seek_scan.simps [of cmp target it] at_entry_def)
  then show ?case using Suc.hyps(1) [OF _ at_entry_before [OF it1(2)]] Suc.hyps(2) by simp
qed

lemma seek_restart_correct:
  "block_iter es rs it \<Longrightarrow> left \<le> right \<Longrightarrow> unat right < length rs \<Longrightarrow>
    left = 0 \<or> rs ! unat left < length es \<and> cmp (key_of es (rs ! unat left)) target < 0 \<Longrightarrow>
    \<exists>l. seek_restart cmp target it left right = Some (Inl l) \<and> unat l < length rs \<and>
      (l = 0 \<or> rs ! unat l < length es \<and> cmp (key_of es (rs ! unat l)) target < 0)"
proof (induction "unat right - unat left" arbitrary: left right rule: less_induct)
  case less
  show ?case
  proof (cases "left < right")
    case False
    then have "seek_restart cmp target it left right = Some (Inl left)" by (simp add: seek_restart.simps [of cmp target it left right])
    then show ?thesis using less.prems by (auto simp: word_le_nat_alt)
  next
    case True
    note it = less.prems(1)
    have lay: "layout es rs" using it by (simp add: block_iter_def)
    define mid where "mid = (left + right + 1) div 2"
    have "4 * length rs < 2 ^ 32" using it by (simp add: block_iter_def length_block_bytes)
    then have mid: "unat mid = (unat left + unat right + 1) div 2"
      using less.prems True unfolding mid_def by (simp add: unat_div unat_word_ariths word_less_nat_alt)
    then have bounds: "unat left < unat mid" "unat mid \<le> unat right" using True by (auto simp: word_less_nat_alt)
    then have m: "unat mid < length rs" using less.prems(3) by simp
    let ?i = "rs ! unat mid"
    have i: "?i < length es" "?i \<in> set rs" using layout_mono [OF lay _ m, of 0] bounds lay nth_mem [OF m] by (auto simp: layout_def)
    note limit = block_iter_bounds(3) [OF it] and off = unat_offset [OF it less_imp_le [OF i(1)]]
    have s0: "shared_at es ?i = 0" using layout_shared(2) [OF lay i] .
    have len: "unat (of_nat (length (key_of es ?i)) :: u32) = length (key_of es ?i)"
      using key_length [OF lay i(1)] offset_le [of "Suc ?i" es] block_iter_bounds(1) [OF it] i(1) by (intro unat_of_nat_u32) simp
    have pred: "unat (mid - 1) = unat mid - 1" using bounds by (metis unat_minus_one unat_0 not_less_zero)
    have unf: "seek_restart cmp target it left right =
       (if cmp (key_of es ?i) target < 0 then seek_restart cmp target it mid right else seek_restart cmp target it left (mid - 1))"
      using True GetRestartPoint_iter [OF it m] entry_in_block [OF it i(1)] entry_pieces [OF it i(1)]
      by (simp add: seek_restart.simps [of cmp target it left right] Let_def mid_def [symmetric] limit off s0 len)
    show ?thesis
    proof (cases "cmp (key_of es ?i) target < 0")
      case True
      then show ?thesis using less.hyps [of right mid] less.prems bounds i unf by (auto simp: word_le_nat_alt)
    next
      case False
      then show ?thesis using less.hyps [of "mid - 1" left] less.prems bounds pred unf by (auto simp: word_le_nat_alt)
    qed
  qed
qed

context comparator
begin

lemma sorted_below:
  assumes "sorted_wrt (\<lambda>a b. compare (fst a) (fst b) < 0) es" "\<forall>e\<in>set es. valid (fst e)" "valid target"
    and "i < length es" "compare (fst (es ! i)) target < 0"
  shows "i < seek_pos compare es target"
proof (rule ccontr)
  let ?m = "seek_pos compare es target"
  assume "\<not> i < ?m"
  then have m: "?m \<le> i" by simp
  then have at: "\<not> compare (fst (es ! ?m)) target < 0" using seek_pos_at [of compare es target] assms(4) by simp
  then have "?m \<noteq> i" using assms(5) by metis
  then have "compare (fst (es ! ?m)) (fst (es ! i)) < 0"
    using m assms(1,4) by (simp add: sorted_wrt_iff_nth_less)
  moreover have "valid (fst (es ! ?m))" "valid (fst (es ! i))" using assms(2,4) m by auto
  ultimately show False using at less_trans assms(3,5) by blast
qed

end

text \<open>A block iterator over the pairs \<open>kvs\<close>.\<close>

definition block_rep :: "(slice \<Rightarrow> slice \<Rightarrow> int) \<Rightarrow> (slice \<Rightarrow> bool) \<Rightarrow> block_iterator \<Rightarrow> kv list \<Rightarrow> nat option \<Rightarrow> bool" where
  "block_rep cmp good it kvs pos \<longleftrightarrow> sorted_wrt (\<lambda>a b. cmp (fst a) (fst b) < 0) kvs \<and> (\<forall>e\<in>set kvs. good (fst e)) \<and>
     (\<exists>es rs bit. it = Iter bit \<and> map snd es = kvs \<and> positioned es rs pos bit)"

lemma positioned_iter: "positioned es rs pos it \<Longrightarrow> block_iter es rs it"
  by (auto simp: positioned_def at_end_def at_entry_def split: option.splits)

lemma at_entry_value:
  assumes "at_entry es rs i it"
  shows "BlockIter_value it = Some (val_of es i)" "BlockIter_key it = Some (key_of es i)"
proof -
  have it: "block_iter es rs it" and i: "i < length es" using assms by (auto simp: at_entry_def)
  let ?v = "val_of es i" and ?p = "offset es (Suc i) - length (val_of es i)"
  have v: "length ?v \<le> offset es (Suc i)" "offset es (Suc i) \<le> length (body es)"
    using length_entry [of "key_of es i" "shared_at es i" ?v] i offset_le [of "Suc i" es] by (auto simp: offset_Suc)
  have "\<exists>ys. entry_bytes e = ys @ snd (snd e)" for e by (cases e) auto
  then obtain ys where "entry_bytes (es ! i) = ys @ ?v" by blast
  then obtain xs where xs: "body (take (Suc i) es) = xs @ ?v" using i by (simp add: take_Suc_conv_app_nth)
  have "body es = body (take (Suc i) es) @ body (drop (Suc i) es)" by (metis append_take_drop_id body_simps(3))
  then have "bi_data it = xs @ ?v @ body (drop (Suc i) es) @ restart_bytes es rs @ EncodeFixed32 (of_nat (length rs))"
    using it xs by (simp add: block_iter_def block_bytes_def)
  moreover have "?p = length xs" using xs by (simp add: offset_def)
  ultimately have "take (length ?v) (drop ?p (bi_data it)) = ?v" by simp
  moreover have "?p + length ?v \<le> length (bi_data it)" using v it by (simp add: block_iter_def length_block_bytes)
  ultimately show "BlockIter_value it = Some ?v" using assms at_entry_valid [OF assms] by (simp add: BlockIter_value_def at_entry_def)
  show "BlockIter_key it = Some (key_of es i)" using assms at_entry_valid [OF assms] by (simp add: BlockIter_key_def at_entry_def)
qed

lemma BlockIter_Seek_correct:
  assumes cmp: "comparator cmp good" and it: "block_iter es rs it" and target: "good target"
    and es: "sorted_wrt (\<lambda>a b. cmp (fst a) (fst b) < 0) (map snd es)" "\<forall>e\<in>set (map snd es). good (fst e)"
  shows "\<exists>it'. BlockIter_Seek cmp target it = Some it' \<and> positioned es rs (entry_pos es (seek_pos cmp (map snd es) target)) it'"
proof -
  have rs: "0 < length rs" using it by (simp add: block_iter_def layout_def)
  have last: "unat (num_restarts it - 1) = length rs - 1" using last_restart [OF it] .
  then obtain l where l: "seek_restart cmp target it 0 (num_restarts it - 1) = Some (Inl l)" "unat l < length rs"
    "l = 0 \<or> rs ! unat l < length es \<and> cmp (key_of es (rs ! unat l)) target < 0"
    using seek_restart_correct [OF it, of 0 "num_restarts it - 1" cmp target] rs by auto
  obtain it1 where it1: "SeekToRestartPoint it l = Some it1" "before es rs (rs ! unat l) it1"
    using SeekToRestartPoint_before [OF it l(2)] by blast
  have "rs ! unat l \<le> seek_pos cmp (map snd es) target"
  proof (cases "l = 0")
    case True
    then show ?thesis using it by (simp add: block_iter_def layout_def)
  next
    case False
    then show ?thesis using comparator.sorted_below [OF cmp es target, of "rs ! unat l"] l(3) by simp
  qed
  from seek_scan_correct [OF it1(2) this] show ?thesis using l(1) it1(1) by (simp add: BlockIter_Seek_def)
qed

lemma block_iterator:
  assumes "comparator cmp good"
  shows "iterator (block_ops cmp) (block_rep cmp good) cmp good"
proof
  fix it kvs i
  assume "block_rep cmp good it kvs (Some i)"
  then obtain es rs bit where es: "map snd es = kvs" "at_entry es rs i bit" and it: "it = Iter bit"
    and ord: "sorted_wrt (\<lambda>a b. cmp (fst a) (fst b) < 0) kvs" "\<forall>e\<in>set kvs. good (fst e)"
    by (auto simp: block_rep_def positioned_def)
  have i: "i < length es" using es(2) by (simp add: at_entry_def)
  show "i < length kvs \<and> it_Valid (block_ops cmp) it \<and> it_key (block_ops cmp) it = Some (fst (kvs ! i)) \<and>
      it_value (block_ops cmp) it = Some (snd (kvs ! i))"
    using i at_entry_valid [OF es(2)] at_entry_value [OF es(2)] by (simp add: it block_ops_def es(1) [symmetric])
  have len: "entry_pos es n = entry_pos kvs n" for n using es(1) by (auto simp: entry_pos_def)
  show "\<exists>it'. it_Next (block_ops cmp) it = Some it' \<and> block_rep cmp good it' kvs (entry_pos kvs (Suc i))"
    using BlockIter_Next_correct [OF es(2)] es(1) ord len by (fastforce simp: block_rep_def it block_ops_def)
  show "\<exists>it'. it_Prev (block_ops cmp) it = Some it' \<and> block_rep cmp good it' kvs (if i = 0 then None else Some (i - 1))"
    using BlockIter_Prev_correct [OF es(2)] es(1) ord by (fastforce simp: block_rep_def it block_ops_def)
next
  fix it kvs pos
  assume "block_rep cmp good it kvs pos"
  then obtain es rs bit where es: "map snd es = kvs" "block_iter es rs bit" and it: "it = Iter bit"
    and ord: "sorted_wrt (\<lambda>a b. cmp (fst a) (fst b) < 0) kvs" "\<forall>e\<in>set kvs. good (fst e)"
    by (auto simp: block_rep_def dest: positioned_iter)
  have len: "entry_pos es n = entry_pos kvs n" "last_pos es = last_pos kvs" for n using es(1) by (auto simp: entry_pos_def last_pos_def)
  show "it_status (block_ops cmp) it = Status_OK" using es(2) by (simp add: it block_ops_def block_iter_def)
  show "\<exists>it'. it_SeekToFirst (block_ops cmp) it = Some it' \<and> block_rep cmp good it' kvs (entry_pos kvs 0)"
    using SeekToFirst_correct [OF es(2)] es(1) ord len by (fastforce simp: block_rep_def it block_ops_def)
  show "\<exists>it'. it_SeekToLast (block_ops cmp) it = Some it' \<and> block_rep cmp good it' kvs (last_pos kvs)"
    using SeekToLast_correct [OF es(2)] es(1) ord len by (fastforce simp: block_rep_def it block_ops_def)
  fix target
  assume "good target"
  then show "\<exists>it'. it_Seek (block_ops cmp) target it = Some it' \<and> block_rep cmp good it' kvs (entry_pos kvs (seek_pos cmp kvs target))"
    using BlockIter_Seek_correct [OF assms es(2), of target] es(1) ord len by (fastforce simp: block_rep_def it block_ops_def)
qed (auto simp: block_rep_def positioned_def block_ops_def dest: at_end_invalid)

interpretation bytewise_block: iterator "block_ops BytewiseCompare" "block_rep BytewiseCompare (\<lambda>_. True)" BytewiseCompare "\<lambda>_. True"
  by (rule block_iterator) (rule bytewise.comparator_axioms)

interpretation internal_block: iterator "block_ops (InternalKeyCompare BytewiseCompare)"
    "block_rep (InternalKeyCompare BytewiseCompare) (valid_ikey (\<lambda>_. True))" "InternalKeyCompare BytewiseCompare" "valid_ikey (\<lambda>_. True)"
  by (rule block_iterator) (rule internal_bytewise.comparator_axioms)

section \<open>The builder writes the format\<close>

definition builder_rep :: "nat \<Rightarrow> BlockBuilder \<Rightarrow> block_entry list \<Rightarrow> nat list \<Rightarrow> bool" where
  "builder_rep interval b es rs \<longleftrightarrow> layout es rs \<and> bb_buffer b = body es \<and>
     bb_restarts b = map (\<lambda>r. of_nat (offset es r)) rs \<and> bb_last_key b = (if es = [] then [] else fst (snd (last es))) \<and>
     \<not> bb_finished b \<and> bb_counter b \<le> interval \<and> (es = [] \<longrightarrow> bb_counter b = 0)"

lemma builder_rep_new: "BlockBuilder_new interval = Some b \<Longrightarrow> builder_rep interval b [] [0]"
  by (auto simp: BlockBuilder_new_def builder_rep_def layout_def split: if_splits)

lemma offset_append: "r \<le> length es \<Longrightarrow> offset (es @ fs) r = offset es r"
  by (simp add: offset_def)

lemma diff_index_prefix: "diff_index a b \<le> length a \<and> diff_index a b \<le> length b \<and> take (diff_index a b) a = take (diff_index a b) b"
  by (induction a b rule: diff_index.induct) auto

lemma layout_snoc:
  assumes lay: "layout es rs" and s: "s \<le> length k" "es = [] \<Longrightarrow> s = 0"
    "es \<noteq> [] \<Longrightarrow> s \<le> length (key_of es (length es - 1)) \<and> take s (key_of es (length es - 1)) = take s k"
  shows "layout (es @ [(s, k, v)]) rs" and "es \<noteq> [] \<Longrightarrow> s = 0 \<Longrightarrow> layout (es @ [(s, k, v)]) (rs @ [length es])"
proof -
  let ?es = "es @ [(s, k, v)]"
  have "\<forall>i<length ?es. shared_at ?es i \<le> length (key_of ?es i) \<and> (i \<in> set rs \<longrightarrow> shared_at ?es i = 0) \<and>
     (0 < i \<longrightarrow> shared_at ?es i \<le> length (key_of ?es (i - 1)) \<and> take (shared_at ?es i) (key_of ?es (i - 1)) = take (shared_at ?es i) (key_of ?es i))"
  proof (intro allI impI)
    fix i
    assume "i < length ?es"
    then consider "i < length es" | "i = length es" by fastforce
    then show "shared_at ?es i \<le> length (key_of ?es i) \<and> (i \<in> set rs \<longrightarrow> shared_at ?es i = 0) \<and>
      (0 < i \<longrightarrow> shared_at ?es i \<le> length (key_of ?es (i - 1)) \<and> take (shared_at ?es i) (key_of ?es (i - 1)) = take (shared_at ?es i) (key_of ?es i))"
    proof cases
      case 1
      then show ?thesis using layout_shared [OF lay 1] by (simp add: nth_append)
    next
      case 2
      then have "i \<in> set rs \<Longrightarrow> es = []" using lay by (auto simp: layout_def)
      then show ?thesis using s 2 by (auto simp: nth_append)
    qed
  qed
  then show "layout ?es rs" "es \<noteq> [] \<Longrightarrow> s = 0 \<Longrightarrow> layout ?es (rs @ [length es])"
    using lay by (auto simp: layout_def sorted_wrt_append nth_append less_Suc_eq)
qed

lemma entry_bytes_put: "PutVarint32 (of_nat (length v)) (PutVarint32 (of_nat (length k - s)) (PutVarint32 (of_nat s) buf)) @ drop s k @ v =
    buf @ entry_bytes (s, k, v)"
  by (simp add: PutVarint32_def)

lemma Add_builder:
  assumes b: "builder_rep interval b es rs" and i: "1 \<le> interval" and ord: "es \<noteq> [] \<Longrightarrow> cmp key (fst (snd (last es))) > 0"
  shows "\<exists>b' s rs'. BlockBuilder_Add cmp interval key v b = Some b' \<and> builder_rep interval b' (es @ [(s, key, v)]) rs'"
proof -
  have lay: "layout es rs" and last: "bb_last_key b = (if es = [] then [] else key_of es (length es - 1))"
    and guard: "\<not> bb_finished b" "\<not> interval < bb_counter b" "bb_buffer b = [] \<or> cmp key (bb_last_key b) > 0"
    using b ord by (auto simp: builder_rep_def last_conv_nth)
  show ?thesis
  proof (cases "bb_counter b < interval")
    case True
    let ?s = "diff_index (bb_last_key b) key"
    let ?b = "b\<lparr>bb_buffer := bb_buffer b @ entry_bytes (?s, key, v), bb_last_key := key, bb_counter := bb_counter b + 1\<rparr>"
    have "take ?s (bb_last_key b) @ drop ?s key = key" using diff_index_prefix [of "bb_last_key b" key] by simp
    then have "BlockBuilder_Add cmp interval key v b = Some ?b"
      using guard True by (simp add: BlockBuilder_Add_def Let_def entry_bytes_put del: entry_bytes.simps)
    moreover have "layout (es @ [(?s, key, v)]) rs"
      by (rule layout_snoc(1) [OF lay]) (use diff_index_prefix [of "bb_last_key b" key] last in auto)
    moreover have "offset (es @ [(?s, key, v)]) r = offset es r" if "r \<in> set rs" for r
      using lay that by (intro offset_append) (auto simp: layout_def)
    ultimately have "builder_rep interval ?b (es @ [(?s, key, v)]) rs" using b True by (simp add: builder_rep_def del: entry_bytes.simps)
    then show ?thesis using \<open>BlockBuilder_Add cmp interval key v b = Some ?b\<close> by blast
  next
    case False
    then have es: "es \<noteq> []" "bb_counter b = interval" using b i by (auto simp: builder_rep_def)
    let ?b = "b\<lparr>bb_buffer := bb_buffer b @ entry_bytes (0, key, v), bb_restarts := bb_restarts b @ [of_nat (length (bb_buffer b))],
      bb_last_key := key, bb_counter := 1\<rparr>"
    have "BlockBuilder_Add cmp interval key v b = Some ?b"
      using guard es i entry_bytes_put [of v key 0 "bb_buffer b"] by (simp add: BlockBuilder_Add_def Let_def del: entry_bytes.simps)
    moreover have "layout (es @ [(0, key, v)]) (rs @ [length es])"
      by (rule layout_snoc(2) [OF lay]) (use es in auto)
    moreover have "offset (es @ [(0, key, v)]) r = offset es r" if "r \<in> set rs" for r
      using lay that by (intro offset_append) (auto simp: layout_def)
    moreover have "offset (es @ [(0, key, v)]) (length es) = length (body es)" by (simp add: offset_append offset_length)
    ultimately have "builder_rep interval ?b (es @ [(0, key, v)]) (rs @ [length es])" using b i by (simp add: builder_rep_def del: entry_bytes.simps)
    then show ?thesis using \<open>BlockBuilder_Add cmp interval key v b = Some ?b\<close> by blast
  qed
qed

text \<open>Adding the entries of a block in order, and reading the finished block.\<close>

fun add_entries :: "(slice \<Rightarrow> slice \<Rightarrow> int) \<Rightarrow> nat \<Rightarrow> kv list \<Rightarrow> BlockBuilder \<Rightarrow> BlockBuilder option" where
  "add_entries cmp interval [] b = Some b"
| "add_entries cmp interval ((k, v) # kvs) b = Option.bind (BlockBuilder_Add cmp interval k v b) (add_entries cmp interval kvs)"

lemma add_entries_builder:
  assumes cmp: "comparator cmp good" and i: "1 \<le> interval"
  shows "builder_rep interval b es rs \<Longrightarrow> sorted_wrt (\<lambda>a b. cmp (fst a) (fst b) < 0) (map snd es @ kvs) \<Longrightarrow>
    \<forall>e\<in>set (map snd es @ kvs). good (fst e) \<Longrightarrow>
    \<exists>b' es' rs'. add_entries cmp interval kvs b = Some b' \<and> builder_rep interval b' es' rs' \<and> map snd es' = map snd es @ kvs"
proof (induction kvs arbitrary: b es rs)
  case (Cons kv kvs)
  obtain k v where kv: "kv = (k, v)" by fastforce
  have "cmp k (fst (snd (last es))) > 0" if "es \<noteq> []"
  proof -
    have mem: "last es \<in> set es" using that by simp
    then have "cmp (fst (snd (last es))) k < 0" using Cons.prems(2) by (auto simp: sorted_wrt_append kv)
    moreover have "good (fst (snd (last es)))" "good k" using Cons.prems(3) mem by (auto simp: kv)
    ultimately show ?thesis using comparator.gt_iff [OF cmp] by blast
  qed
  then obtain b1 s rs1 where b1: "BlockBuilder_Add cmp interval k v b = Some b1" "builder_rep interval b1 (es @ [(s, k, v)]) rs1"
    using Add_builder [OF Cons.prems(1) i, of cmp k v] by blast
  then show ?case using Cons.IH [OF b1(2)] Cons.prems(2,3) by (simp add: kv)
qed auto

lemma Finish_bytes:
  assumes "builder_rep interval b es rs" shows "fst (BlockBuilder_Finish b) = block_bytes es rs"
proof -
  have "fold PutFixed32 vs buf = buf @ concat (map EncodeFixed32 vs)" for vs buf
    by (induction vs arbitrary: buf) (simp_all add: PutFixed32_def)
  then show ?thesis
    using assms by (simp add: BlockBuilder_Finish_def Let_def builder_rep_def block_bytes_def restart_bytes_def PutFixed32_def comp_def)
qed

lemma NewIterator_block:
  assumes lay: "layout es rs" and len: "length (block_bytes es rs) < 2 ^ 32"
  shows "\<exists>it. Block_NewIterator (Block_new (block_bytes es rs)) = Some (Iter it) \<and> positioned es rs None it"
proof -
  let ?n = "of_nat (length rs) :: u32" and ?bs = "block_bytes es rs"
  have n: "unat ?n = length rs" "0 < length rs" using len lay by (auto simp: length_block_bytes unat_of_nat_u32 layout_def)
  have num: "NumRestarts ?bs (length ?bs) = Some ?n"
    by (simp add: NumRestarts_def length_block_bytes) (simp add: block_bytes_def EncodeFixed32_def)
  have succ: "unat (1 + ?n) = length rs + 1"
    using n(1) len by (simp add: unat_word_ariths length_block_bytes)
  have "Block_new ?bs = \<lparr>b_data = ?bs, b_size = length ?bs, restart_offset = of_nat (length (body es))\<rparr>"
    unfolding Block_new_def num option.case succ n(1) by (simp add: length_block_bytes algebra_simps)
  moreover have "?n \<noteq> 0" using n by (metis unat_0 less_irrefl)
  ultimately show ?thesis
    using num lay len by (simp add: Block_NewIterator_def BlockIter_new_def length_block_bytes word_neq_0_conv [symmetric]
        positioned_def at_end_def block_iter_def)
qed

section \<open>The size of a block\<close>

lemma length_EncodeVarint32_le: "length (EncodeVarint32 v) \<le> 5"
  by (simp add: EncodeVarint32_def Let_def)

lemma length_body_le: "length (body es) \<le> (\<Sum>(k, v)\<leftarrow>map snd es. length k + length v + 15)"
proof (induction es)
  case (Cons e es)
  obtain s k v where e: "e = (s, k, v)" by (metis prod_cases3)
  show ?case
    using Cons length_EncodeVarint32_le [of "of_nat s"] length_EncodeVarint32_le [of "of_nat (length k - s)"] length_EncodeVarint32_le [of "of_nat (length v)"]
    by (simp add: e)
qed simp

lemma length_restarts_le: "layout es rs \<Longrightarrow> length rs \<le> Suc (length es)"
proof -
  assume lay: "layout es rs"
  then have "distinct rs" by (auto simp: layout_def strict_sorted_iff)
  moreover have "set rs \<subseteq> {..length es}" using lay by (auto simp: layout_def)
  ultimately show ?thesis using card_mono [of "{..length es}" "set rs"] by (simp add: distinct_card)
qed

lemma length_block_bytes_le:
  assumes "layout es rs" shows "length (block_bytes es rs) \<le> (\<Sum>(k, v)\<leftarrow>map snd es. length k + length v + 19) + 8"
proof -
  have "(\<Sum>(k, v)\<leftarrow>map snd es. length k + length v + 19) = (\<Sum>(k, v)\<leftarrow>map snd es. length k + length v + 15) + 4 * length es"
    by (induction es) auto
  then show ?thesis using length_body_le [of es] length_restarts_le [OF assms] by (simp add: length_block_bytes)
qed

text \<open>A finished block, read.\<close>

lemma Finish_rep:
  assumes b: "builder_rep interval b es rs"
    and kvs: "sorted_wrt (\<lambda>a b. cmp (fst a) (fst b) < 0) (map snd es)" "\<forall>e\<in>set (map snd es). good (fst e)"
    and size: "(\<Sum>(k, v)\<leftarrow>map snd es. length k + length v + 19) + 8 < 2 ^ 32"
  shows "\<exists>it. Block_NewIterator (Block_new (fst (BlockBuilder_Finish b))) = Some it \<and> block_rep cmp good it (map snd es) None"
proof -
  have lay: "layout es rs" using b by (simp add: builder_rep_def)
  have "length (block_bytes es rs) < 2 ^ 32" using length_block_bytes_le [OF lay] size by simp
  then show ?thesis using NewIterator_block [OF lay] Finish_bytes [OF b] kvs by (fastforce simp: block_rep_def)
qed

text \<open>
  A block stores a sorted table.  With any comparator that keeps its contract and any restart interval,
  adding strictly increasing keys never fails an assertion, and an iterator over the finished
  block, prefix compression and restart points included, yields exactly the entries: in order by
  \<open>Next\<close> from \<open>SeekToFirst\<close>, in reverse by \<open>Prev\<close> from \<open>SeekToLast\<close>, and from the first key that is not
  below the target after \<open>Seek\<close>, whose binary search ends.
\<close>

theorem block_round_trip:
  assumes cmp: "comparator cmp good" and b0: "BlockBuilder_new interval = Some b0"
    and kvs: "sorted_wrt (\<lambda>a b. cmp (fst a) (fst b) < 0) kvs" "\<forall>e\<in>set kvs. good (fst e)" and target: "good target"
    and size: "(\<Sum>(k, v)\<leftarrow>kvs. length k + length v + 19) + 8 < 2 ^ 32"
  shows "\<exists>b it. add_entries cmp interval kvs b0 = Some b \<and>
    Block_NewIterator (Block_new (fst (BlockBuilder_Finish b))) = Some it \<and>
    scan_forward (block_ops cmp) (Suc (length kvs)) it = Some kvs \<and>
    scan_backward (block_ops cmp) (Suc (length kvs)) it = Some (rev kvs) \<and>
    scan_from (block_ops cmp) target (Suc (length kvs)) it = Some (dropWhile (\<lambda>e. cmp (fst e) target < 0) kvs)"
proof -
  have "1 \<le> interval" using b0 by (simp add: BlockBuilder_new_def split: if_splits)
  then obtain b es rs where b: "add_entries cmp interval kvs b0 = Some b" "builder_rep interval b es rs" "map snd es = kvs"
    using add_entries_builder [OF cmp _ builder_rep_new [OF b0], of kvs] kvs by auto
  obtain it where it: "Block_NewIterator (Block_new (fst (BlockBuilder_Finish b))) = Some it" "block_rep cmp good it kvs None"
    using Finish_rep [OF b(2)] kvs size b(3) by blast
  note scan = iterator.scans [OF block_iterator [OF cmp] it(2) lessI]
  show ?thesis using b(1) it(1) scan(1,2) scan(3) [OF target] by blast
qed

theorem block_round_trip_witness:
  "\<exists>b0 b it. BlockBuilder_new 2 = Some b0 \<and> add_entries BytewiseCompare 2 [([1], [7]), ([1, 2], []), ([3], [9, 9])] b0 = Some b \<and>
    Block_NewIterator (Block_new (fst (BlockBuilder_Finish b))) = Some it \<and>
    scan_forward (block_ops BytewiseCompare) 4 it = Some [([1], [7]), ([1, 2], []), ([3], [9, 9])] \<and>
    scan_backward (block_ops BytewiseCompare) 4 it = Some [([3], [9, 9]), ([1, 2], []), ([1], [7])] \<and>
    scan_from (block_ops BytewiseCompare) [2] 4 it = Some [([3], [9, 9])]"
proof -
  let ?kvs = "[([1], [7]), ([1, 2], []), ([3], [9, 9])] :: kv list"
  obtain b0 where b0: "BlockBuilder_new 2 = Some b0" by (simp add: BlockBuilder_new_def)
  have sorted: "sorted_wrt (\<lambda>a b. BytewiseCompare (fst a) (fst b) < 0) ?kvs" by code_simp
  have drop: "dropWhile (\<lambda>e. BytewiseCompare (fst e) [2] < 0) ?kvs = [([3], [9, 9])]" by code_simp
  have shape: "Suc (length ?kvs) = 4" "rev ?kvs = [([3], [9, 9]), ([1, 2], []), ([1], [7])]" by simp_all
  have size: "(\<Sum>(k, v)\<leftarrow>?kvs. length k + length v + 19) + 8 < 2 ^ 32" by simp
  show ?thesis
    using block_round_trip [OF bytewise.comparator_axioms b0 sorted _ TrueI size, of "[2]", unfolded shape drop] b0 by blast
qed

text \<open>
  C36: \<open>DecodeEntry\<close> adds the two lengths of an entry in 32 bits before it compares them with the bytes that
  are left.  A block of 16 bytes whose only entry announces a key of 1 byte and a value of
  4294967295 bytes passes the check: the iterator is valid and its status is OK, and \<open>value\<close> is a slice
  that leaves the block.
\<close>

theorem block_value_overflow:
  "\<exists>it it'. Block_NewIterator (Block_new [0, 1, 0xFF, 0xFF, 0xFF, 0xFF, 0x0F, 0x61, 0, 0, 0, 0, 1, 0, 0, 0]) = Some (Iter it) \<and>
    BlockIter_SeekToFirst it = Some it' \<and> BlockIter_Valid it' \<and> bi_status it' = Status_OK \<and> BlockIter_key it' = Some [0x61] \<and>
    bi_value it' = Some (8, 4294967295) \<and> BlockIter_value it' = None"
proof -
  let ?bs = "[0, 1, 0xFF, 0xFF, 0xFF, 0xFF, 0x0F, 0x61, 0, 0, 0, 0, 1, 0, 0, 0] :: slice"
  let ?it = "\<lparr>bi_data = ?bs, bi_restarts = 8, num_restarts = 1, bi_current = 8, restart_index = 1, bi_key = [], bi_value = None,
    bi_status = Status_OK\<rparr>"
  let ?it' = "?it\<lparr>bi_current := 0, restart_index := 0, bi_key := [0x61], bi_value := Some (8, 4294967295)\<rparr>"
  have "Block_NewIterator (Block_new ?bs) = Some (Iter ?it)" by code_simp
  moreover have "BlockIter_SeekToFirst ?it = Some ?it'"
  proof -
    have dec: "DecodeEntry [0, 1, 0xFF, 0xFF, 0xFF, 0xFF, 0x0F, 0x61] = Some (0, 1, 0xFFFFFFFF, [0x61])" by code_simp
    have "GetRestartPoint ?it 0 = Some 0" by code_simp
    then show ?thesis
      by (simp add: BlockIter_SeekToFirst_def SeekToRestartPoint_def ParseNextKey_def NextEntryOffset_def Let_def dec skip_restarts.simps)
  qed
  moreover have "BlockIter_value ?it' = None" by (simp add: BlockIter_value_def)
  ultimately show ?thesis by (intro exI [of _ ?it] exI [of _ ?it']) (simp add: BlockIter_Valid_def BlockIter_key_def)
qed

end
