(* ===== verification/LdbFormat.thy ===== *)
theory LdbFormat
  imports LdbBlockSpec
begin

unbundle bit_operations_syntax

text \<open>
  The frame of a table file: block handles, the footer and the stored form of a block
  (\<open>table/format.h\<close>, \<open>table/format.cc\<close>), over the random-access files of \<open>util/env_posix.cc\<close>.

  A random-access file is its contents, with a flag for the variant that maps the file into memory.
  Reading returns \<open>None\<close> where the slice it gives out leaves the mapped region.  The Snappy library is
  the parameter \<open>uncompress\<close>.  Allocation succeeds.
\<close>

section \<open>Random-access files\<close>

record RandomAccessFile =
  raf_name :: slice
  raf_data :: slice
  raf_mmap :: bool
  raf_fails :: bool
  raf_error :: slice

text \<open>The result says whether the slice points to other memory than \<open>scratch\<close>.\<close>

definition MmapReadableFile_Read :: "u64 \<Rightarrow> u64 \<Rightarrow> RandomAccessFile \<Rightarrow> (status \<times> slice \<times> bool) option" where
  "MmapReadableFile_Read off n f =
     (if off + n > of_nat (length (raf_data f)) then Some (IOError (raf_name f) (raf_error f), [], True)
      else if unat off + unat n \<le> length (raf_data f)
      then Some (Status_OK, take (unat n) (drop (unat off) (raf_data f)), True) else None)"

definition PreadFile_Read :: "u64 \<Rightarrow> u64 \<Rightarrow> RandomAccessFile \<Rightarrow> status \<times> slice \<times> bool" where
  "PreadFile_Read off n f =
     (if raf_fails f \<or> 2 ^ 63 \<le> unat off then (IOError (raf_name f) (raf_error f), [], False)
      else (Status_OK, take (unat n) (drop (unat off) (raf_data f)), False))"

definition RandomAccessFile_Read :: "u64 \<Rightarrow> u64 \<Rightarrow> RandomAccessFile \<Rightarrow> (status \<times> slice \<times> bool) option" where
  "RandomAccessFile_Read off n f = (if raf_mmap f then MmapReadableFile_Read off n f else Some (PreadFile_Read off n f))"

section \<open>Block handles and the footer\<close>

record BlockHandle =
  bh_offset :: u64
  bh_size :: u64

definition BlockHandle_new :: BlockHandle where
  "BlockHandle_new = \<lparr>bh_offset = NOT 0, bh_size = NOT 0\<rparr>"

definition BlockHandle_EncodeTo :: "BlockHandle \<Rightarrow> slice \<Rightarrow> slice option" where
  "BlockHandle_EncodeTo h dst =
     (if bh_offset h = NOT 0 \<or> bh_size h = NOT 0 then None else Some (PutVarint64 (bh_size h) (PutVarint64 (bh_offset h) dst)))"

definition BlockHandle_DecodeFrom :: "BlockHandle \<Rightarrow> slice \<Rightarrow> status \<times> BlockHandle \<times> slice" where
  "BlockHandle_DecodeFrom h input =
     (let bad = Corruption (str ''bad block handle'') [] in
      case GetVarint64 input of
        None \<Rightarrow> (bad, h, input)
      | Some (off, input) \<Rightarrow>
          (case GetVarint64 input of
             None \<Rightarrow> (bad, h\<lparr>bh_offset := off\<rparr>, input)
           | Some (sz, input) \<Rightarrow> (Status_OK, \<lparr>bh_offset = off, bh_size = sz\<rparr>, input)))"

definition kMaxEncodedLength :: nat where "kMaxEncodedLength = 10 + 10"

definition kEncodedLength :: nat where "kEncodedLength = 2 * kMaxEncodedLength + 8"

definition kTableMagicNumber :: u64 where "kTableMagicNumber = 0xdb4775248b80fb57"

definition kBlockTrailerSize :: nat where "kBlockTrailerSize = 5"

record Footer =
  metaindex_handle :: BlockHandle
  index_handle :: BlockHandle

definition string_resize :: "nat \<Rightarrow> slice \<Rightarrow> slice" where
  "string_resize n s = take n s @ replicate (n - length s) 0"

definition Footer_EncodeTo :: "Footer \<Rightarrow> slice \<Rightarrow> slice option" where
  "Footer_EncodeTo f dst =
     (case BlockHandle_EncodeTo (metaindex_handle f) dst of
        None \<Rightarrow> None
      | Some d \<Rightarrow>
          (case BlockHandle_EncodeTo (index_handle f) d of
             None \<Rightarrow> None
           | Some d \<Rightarrow>
               let d = string_resize (2 * kMaxEncodedLength) d;
                   d = PutFixed32 (ucast (kTableMagicNumber AND 0xFFFFFFFF)) d;
                   d = PutFixed32 (ucast (drop_bit 32 kTableMagicNumber)) d
               in if length d = length dst + kEncodedLength then Some d else None))"

text \<open>The bytes in front of the magic number have to be there; the rest of the input is skipped to its end.\<close>

definition Footer_DecodeFrom :: "Footer \<Rightarrow> slice \<Rightarrow> (status \<times> Footer \<times> slice) option" where
  "Footer_DecodeFrom f input =
     (case (DecodeFixed32 (drop (kEncodedLength - 8) input), DecodeFixed32 (drop (kEncodedLength - 4) input)) of
        (Some magic_lo, Some magic_hi) \<Rightarrow>
          let magic = push_bit 32 (ucast magic_hi) OR ucast magic_lo :: u64
          in if magic \<noteq> kTableMagicNumber then Some (Corruption (str ''not an sstable (bad magic number)'') [], f, input)
             else
               let (result, mh, rest) = BlockHandle_DecodeFrom (metaindex_handle f) input; f = f\<lparr>metaindex_handle := mh\<rparr>
               in if \<not> Status_ok result then Some (result, f, rest)
                  else
                    let (result, ih, rest) = BlockHandle_DecodeFrom (index_handle f) rest; f = f\<lparr>index_handle := ih\<rparr>
                    in Some (result, f, if Status_ok result then drop kEncodedLength input else rest)
      | _ \<Rightarrow> None)"

section \<open>Reading a block\<close>

definition kNoCompression :: u8 where "kNoCompression = 0"

definition kSnappyCompression :: u8 where "kSnappyCompression = 1"

record BlockContents =
  bc_data :: slice
  cachable :: bool
  heap_allocated :: bool

definition no_contents :: BlockContents where
  "no_contents = \<lparr>bc_data = [], cachable = False, heap_allocated = False\<rparr>"

definition ReadBlock :: "(slice \<Rightarrow> slice option) \<Rightarrow> RandomAccessFile \<Rightarrow> bool \<Rightarrow> BlockHandle \<Rightarrow> (status \<times> BlockContents) option" where
  "ReadBlock uncompress file verify_checksums handle =
     (let n = unat (bh_size handle); total = bh_size handle + of_nat kBlockTrailerSize in
      case RandomAccessFile_Read (bh_offset handle) total file of
        None \<Rightarrow> None
      | Some (s, contents, other) \<Rightarrow>
          if \<not> Status_ok s then Some (s, no_contents)
          else if length contents \<noteq> unat total then Some (Corruption (str ''truncated block read'') [], no_contents)
          else if length contents < n + kBlockTrailerSize then None
          else if verify_checksums \<and> Value 0 (take (n + 1) contents) \<noteq> Unmask (the (DecodeFixed32 (drop (n + 1) contents)))
          then Some (Corruption (str ''block checksum mismatch'') [], no_contents)
          else if contents ! n = kNoCompression
          then Some (Status_OK, \<lparr>bc_data = take n contents, cachable = \<not> other, heap_allocated = \<not> other\<rparr>)
          else if contents ! n = kSnappyCompression
          then (case uncompress (take n contents) of
                  None \<Rightarrow> Some (Corruption (str ''corrupted compressed block contents'') [], no_contents)
                | Some data \<Rightarrow> Some (Status_OK, \<lparr>bc_data = data, cachable = True, heap_allocated = True\<rparr>))
          else Some (Corruption (str ''bad block type'') [], no_contents))"

section \<open>Round trips\<close>

lemma GetVarint64_put [simp]: "GetVarint64 (EncodeVarint64 v @ rest) = Some (v, rest)"
  using GetVarint64_bytes [of v rest] by (simp add: EncodeVarint64_eq)

lemma length_EncodeVarint64: "length (EncodeVarint64 v) \<le> 10"
  using length_varint_bytes [of v 10] unat_u64 [of v] by (simp add: EncodeVarint64_eq)

lemma BlockHandle_decode:
  "BlockHandle_EncodeTo h dst = Some d \<Longrightarrow> BlockHandle_DecodeFrom h0 (drop (length dst) d @ rest) = (Status_OK, h, rest)"
  by (auto simp: BlockHandle_EncodeTo_def BlockHandle_DecodeFrom_def PutVarint64_def split: if_splits)

lemma BlockHandle_encode:
  "bh_offset h \<noteq> NOT 0 \<Longrightarrow> bh_size h \<noteq> NOT 0 \<Longrightarrow>
    BlockHandle_EncodeTo h dst = Some (dst @ EncodeVarint64 (bh_offset h) @ EncodeVarint64 (bh_size h))"
  by (simp add: BlockHandle_EncodeTo_def PutVarint64_def)

lemma magic_words:
  "push_bit 32 (ucast (ucast (drop_bit 32 kTableMagicNumber) :: u32)) OR ucast (ucast (kTableMagicNumber AND 0xFFFFFFFF) :: u32) = (kTableMagicNumber :: u64)"
  by (simp add: kTableMagicNumber_def)

lemma DecodeFixed32_put [simp]: "DecodeFixed32 (EncodeFixed32 v @ rest) = Some v"
  by (simp add: EncodeFixed32_def)

text \<open>The footer always takes 48 bytes, and decoding it gives back both handles and skips to its end.\<close>

lemma Footer_codec:
  assumes "bh_offset (metaindex_handle f) \<noteq> NOT 0" "bh_size (metaindex_handle f) \<noteq> NOT 0"
    and "bh_offset (index_handle f) \<noteq> NOT 0" "bh_size (index_handle f) \<noteq> NOT 0"
  shows "\<exists>d. Footer_EncodeTo f [] = Some d \<and> length d = kEncodedLength \<and> Footer_DecodeFrom f0 (d @ rest) = Some (Status_OK, f, rest)"
proof -
  let ?m = "metaindex_handle f" and ?i = "index_handle f"
  define hs where "hs = EncodeVarint64 (bh_offset ?m) @ EncodeVarint64 (bh_size ?m) @ EncodeVarint64 (bh_offset ?i) @ EncodeVarint64 (bh_size ?i)"
  have len: "length hs \<le> 40"
    using length_EncodeVarint64 [of "bh_offset ?m"] length_EncodeVarint64 [of "bh_size ?m"]
      length_EncodeVarint64 [of "bh_offset ?i"] length_EncodeVarint64 [of "bh_size ?i"] by (simp add: hs_def)
  define pad where "pad = hs @ replicate (40 - length hs) 0"
  define d where "d = pad @ EncodeFixed32 (ucast (kTableMagicNumber AND 0xFFFFFFFF)) @ EncodeFixed32 (ucast (drop_bit 32 kTableMagicNumber))"
  have pad: "length pad = 40" using len by (simp add: pad_def)
  have "Footer_EncodeTo f [] = Some d"
    using assms len by (simp add: Footer_EncodeTo_def BlockHandle_encode Let_def string_resize_def kMaxEncodedLength_def kEncodedLength_def
        PutFixed32_def d_def pad_def hs_def)
  moreover have "length d = kEncodedLength" using pad by (simp add: d_def kEncodedLength_def kMaxEncodedLength_def)
  moreover have "Footer_DecodeFrom f0 (d @ rest) = Some (Status_OK, f, rest)"
  proof -
    have drops: "drop 40 (d @ rest) = EncodeFixed32 (ucast (kTableMagicNumber AND 0xFFFFFFFF)) @ EncodeFixed32 (ucast (drop_bit 32 kTableMagicNumber)) @ rest"
      "drop 44 (d @ rest) = EncodeFixed32 (ucast (drop_bit 32 kTableMagicNumber)) @ rest" "drop 48 (d @ rest) = rest"
      using pad by (simp_all add: d_def)
    have handles: "BlockHandle_DecodeFrom h (EncodeVarint64 (bh_offset x) @ EncodeVarint64 (bh_size x) @ more) = (Status_OK, x, more)" for h x more
      by (simp add: BlockHandle_DecodeFrom_def)
    have "\<exists>more. d @ rest = (EncodeVarint64 (bh_offset ?m) @ EncodeVarint64 (bh_size ?m) @ EncodeVarint64 (bh_offset ?i) @ EncodeVarint64 (bh_size ?i) @ more)"
      by (simp add: d_def pad_def hs_def)
    then obtain more where more: "BlockHandle_DecodeFrom h (d @ rest) = (Status_OK, ?m, EncodeVarint64 (bh_offset ?i) @ EncodeVarint64 (bh_size ?i) @ more)" for h
      using handles by metis
    show ?thesis
      by (simp add: Footer_DecodeFrom_def kEncodedLength_def kMaxEncodedLength_def drops magic_words more handles Let_def del: drop_append DecodeFixed32.simps)
  qed
  ultimately show ?thesis by blast
qed

section \<open>Stored blocks\<close>

text \<open>The stored form of a block: its contents, the type of compression and the masked checksum of both.\<close>

definition stored_block :: "u8 \<Rightarrow> slice \<Rightarrow> slice" where
  "stored_block type contents = contents @ [type] @ EncodeFixed32 (Mask (Value 0 (contents @ [type])))"

lemma length_stored_block [simp]: "length (stored_block type contents) = length contents + kBlockTrailerSize"
  by (simp add: stored_block_def kBlockTrailerSize_def)

text \<open>The file holds the bytes \<open>bs\<close> at the handle.\<close>

definition holds_at :: "RandomAccessFile \<Rightarrow> BlockHandle \<Rightarrow> slice \<Rightarrow> bool" where
  "holds_at f h bs \<longleftrightarrow> \<not> raf_fails f \<and> length (raf_data f) < 2 ^ 63 \<and> unat (bh_offset h) + length bs \<le> length (raf_data f) \<and>
     take (length bs) (drop (unat (bh_offset h)) (raf_data f)) = bs"

lemma Read_holds:
  assumes h: "holds_at f h bs" and n: "unat n = length bs"
  shows "RandomAccessFile_Read (bh_offset h) n f = Some (Status_OK, bs, raf_mmap f)"
proof -
  have bounds: "unat (bh_offset h) + unat n \<le> length (raf_data f)" "length (raf_data f) < 2 ^ 63" using h n by (auto simp: holds_at_def)
  then have "\<not> bh_offset h + n > of_nat (length (raf_data f))"
    by (simp add: word_less_nat_alt unat_word_ariths)
  then show ?thesis
    using h n bounds by (auto simp: RandomAccessFile_Read_def MmapReadableFile_Read_def PreadFile_Read_def holds_at_def)
qed

text \<open>What \<open>ReadBlock\<close> makes of the bytes it finds.\<close>

lemma ReadBlock_frame:
  assumes h: "holds_at f h (c @ t # cs)" and cs: "length cs = 4" and sz: "unat (bh_size h) = length c"
  shows "ReadBlock uncompress f verify h =
    (if verify \<and> Value 0 (c @ [t]) \<noteq> Unmask (le_word cs) then Some (Corruption (str ''block checksum mismatch'') [], no_contents)
     else if t = kNoCompression then Some (Status_OK, \<lparr>bc_data = c, cachable = \<not> raf_mmap f, heap_allocated = \<not> raf_mmap f\<rparr>)
     else if t = kSnappyCompression
     then (case uncompress c of
             None \<Rightarrow> Some (Corruption (str ''corrupted compressed block contents'') [], no_contents)
           | Some data \<Rightarrow> Some (Status_OK, \<lparr>bc_data = data, cachable = True, heap_allocated = True\<rparr>))
     else Some (Corruption (str ''bad block type'') [], no_contents))"
proof -
  have "length c + 5 < 2 ^ 63" using h cs by (simp add: holds_at_def)
  then have total: "unat (bh_size h + of_nat kBlockTrailerSize) = length (c @ t # cs)"
    using sz cs by (simp add: unat_word_ariths kBlockTrailerSize_def)
  show ?thesis
    unfolding ReadBlock_def Let_def Read_holds [OF h total] option.case prod.case total sz
    using cs by (simp add: kBlockTrailerSize_def)
qed

lemma crc_word: "le_word (EncodeFixed32 v) = v"
  by (simp add: EncodeFixed32_def)

lemma ReadBlock_stored:
  assumes "holds_at f h (stored_block t c)" "unat (bh_size h) = length c"
    and "t = kNoCompression \<and> raw = c \<or> t = kSnappyCompression \<and> uncompress c = Some raw"
  shows "\<exists>ca ha. ReadBlock uncompress f verify h = Some (Status_OK, \<lparr>bc_data = raw, cachable = ca, heap_allocated = ha\<rparr>)"
  using ReadBlock_frame [of f h c t _ uncompress verify] assms
  by (auto simp: stored_block_def crc_word kSnappyCompression_def kNoCompression_def)



text \<open>
  The bounds check of a mapped file adds the offset and the length in 64 bits: an offset near the end of the
  range wraps around and passes the check, and the slice handed out lies outside the mapping.
\<close>

theorem mmap_read_wraps:
  "MmapReadableFile_Read 0xFFFFFFFFFFFFFFFF 2 \<lparr>raf_name = [], raf_data = [7, 8, 9], raf_mmap = True, raf_fails = False, raf_error = []\<rparr> = None"
  by (simp add: MmapReadableFile_Read_def)

end
