(* ===== verification/LdbFilterBlock.thy ===== *)
theory LdbFilterBlock
  imports LdbFormat
begin

unbundle bit_operations_syntax

text \<open>
  The filter block of a table (\<open>table/filter_block.cc\<close>): one filter for the keys of all data blocks that start
  in the same 2 KB of the file.  The policy is a parameter, its contract the locale \<open>filter_policy\<close>.
  \<open>None\<close> stands for a failed assertion, and in the reader for a shift by 64 bits or more or a read outside
  the block.
\<close>

section \<open>The builder\<close>

definition kFilterBaseLg :: nat where "kFilterBaseLg = 11"

definition kFilterBase :: nat where "kFilterBase = 2 ^ kFilterBaseLg"

record FilterBlockBuilder =
  fb_keys :: slice
  fb_start :: "nat list"
  fb_result :: slice
  filter_offsets :: "u32 list"

definition FilterBlockBuilder_new :: FilterBlockBuilder where
  "FilterBlockBuilder_new = \<lparr>fb_keys = [], fb_start = [], fb_result = [], filter_offsets = []\<rparr>"

definition tmp_keys :: "slice \<Rightarrow> nat list \<Rightarrow> slice list" where
  "tmp_keys keys start = map (\<lambda>i. take (start ! (i + 1) - start ! i) (drop (start ! i) keys)) [0..<length start - 1]"

definition GenerateFilter :: "(slice list \<Rightarrow> slice \<Rightarrow> slice) \<Rightarrow> FilterBlockBuilder \<Rightarrow> FilterBlockBuilder" where
  "GenerateFilter create b =
     (let b' = b\<lparr>filter_offsets := filter_offsets b @ [of_nat (length (fb_result b))]\<rparr> in
      if fb_start b = [] then b'
      else
        let start = fb_start b @ [length (fb_keys b)]
        in b'\<lparr>fb_result := create (tmp_keys (fb_keys b) start) (fb_result b), fb_keys := [], fb_start := []\<rparr>)"

function generate_to :: "(slice list \<Rightarrow> slice \<Rightarrow> slice) \<Rightarrow> nat \<Rightarrow> FilterBlockBuilder \<Rightarrow> FilterBlockBuilder" where
  "generate_to create filter_index b =
     (if length (filter_offsets b) < filter_index then generate_to create filter_index (GenerateFilter create b) else b)"
  by pat_completeness auto
termination
  by (relation "measure (\<lambda>(_, n, b). n - length (filter_offsets b))") (auto simp: GenerateFilter_def Let_def)

declare generate_to.simps [simp del]

definition StartBlock :: "(slice list \<Rightarrow> slice \<Rightarrow> slice) \<Rightarrow> u64 \<Rightarrow> FilterBlockBuilder \<Rightarrow> FilterBlockBuilder option" where
  "StartBlock create blk_offset b =
     (let filter_index = unat blk_offset div kFilterBase
      in if filter_index < length (filter_offsets b) then None else Some (generate_to create filter_index b))"

definition FilterBlock_AddKey :: "slice \<Rightarrow> FilterBlockBuilder \<Rightarrow> FilterBlockBuilder" where
  "FilterBlock_AddKey key b = b\<lparr>fb_start := fb_start b @ [length (fb_keys b)], fb_keys := fb_keys b @ key\<rparr>"

definition FilterBlock_Finish :: "(slice list \<Rightarrow> slice \<Rightarrow> slice) \<Rightarrow> FilterBlockBuilder \<Rightarrow> slice \<times> FilterBlockBuilder" where
  "FilterBlock_Finish create b =
     (let b = (if fb_start b \<noteq> [] then GenerateFilter create b else b);
          array_offset = of_nat (length (fb_result b)) :: u32;
          result = fold PutFixed32 (filter_offsets b) (fb_result b);
          result = PutFixed32 array_offset result;
          result = result @ [of_nat kFilterBaseLg]
      in (result, b\<lparr>fb_result := result\<rparr>))"

section \<open>The reader\<close>

text \<open>\<open>fr_offset\<close> is \<open>offset_ - data_\<close>; \<open>base_lg_\<close> is read from a signed \<open>char\<close>.\<close>

record FilterBlockReader =
  fr_data :: slice
  fr_offset :: nat
  fr_num :: nat
  base_lg :: u64

definition FilterBlockReader_new :: "slice \<Rightarrow> FilterBlockReader" where
  "FilterBlockReader_new contents =
     (let n = length contents; r = \<lparr>fr_data = [], fr_offset = 0, fr_num = 0, base_lg = 0\<rparr> in
      if n < 5 then r
      else
        let r = r\<lparr>base_lg := scast (contents ! (n - 1))\<rparr>;
            last_word = unat (the (DecodeFixed32 (drop (n - 5) contents)))
        in if last_word > n - 5 then r
           else r\<lparr>fr_data := contents, fr_offset := last_word, fr_num := (n - 5 - last_word) div 4\<rparr>)"

definition FilterBlock_KeyMayMatch :: "(slice \<Rightarrow> slice \<Rightarrow> bool) \<Rightarrow> FilterBlockReader \<Rightarrow> u64 \<Rightarrow> slice \<Rightarrow> bool option" where
  "FilterBlock_KeyMayMatch may_match r blk_offset key =
     (if 64 \<le> base_lg r then None
      else
        let index = unat (drop_bit (unat (base_lg r)) blk_offset) in
        if index < fr_num r then
          (case (DecodeFixed32 (drop (fr_offset r + index * 4) (fr_data r)), DecodeFixed32 (drop (fr_offset r + index * 4 + 4) (fr_data r))) of
             (Some start, Some limit) \<Rightarrow>
               if start \<le> limit \<and> unat limit \<le> fr_offset r
               then Some (may_match key (take (unat limit - unat start) (drop (unat start) (fr_data r))))
               else if start = limit then Some False
               else Some True
           | _ \<Rightarrow> None)
        else Some True)"

section \<open>What the builder stands for\<close>

text \<open>The filters written so far, by the keys they are made of, and the keys added since.\<close>

definition filter_of :: "(slice list \<Rightarrow> slice \<Rightarrow> slice) \<Rightarrow> slice list \<Rightarrow> slice" where
  "filter_of create ks = (if ks = [] then [] else create ks [])"

definition filters :: "(slice list \<Rightarrow> slice \<Rightarrow> slice) \<Rightarrow> slice list list \<Rightarrow> slice" where
  "filters create gs = concat (map (filter_of create) gs)"

definition filter_starts :: "(slice list \<Rightarrow> slice \<Rightarrow> slice) \<Rightarrow> slice list list \<Rightarrow> u32 list" where
  "filter_starts create gs = map (\<lambda>i. of_nat (length (filters create (take i gs)))) [0..<length gs]"

definition key_starts :: "slice list \<Rightarrow> nat list" where
  "key_starts ks = map (\<lambda>i. length (concat (take i ks))) [0..<length ks]"

definition filter_rep :: "(slice list \<Rightarrow> slice \<Rightarrow> slice) \<Rightarrow> FilterBlockBuilder \<Rightarrow> slice list list \<Rightarrow> slice list \<Rightarrow> bool" where
  "filter_rep create b gs cur \<longleftrightarrow> fb_result b = filters create gs \<and> filter_offsets b = filter_starts create gs \<and>
     fb_keys b = concat cur \<and> fb_start b = key_starts cur"

lemma filters_simps [simp]: "filters create [] = []" "filters create (gs @ hs) = filters create gs @ filters create hs"
  "filters create (g # gs) = filter_of create g @ filters create gs"
  by (simp_all add: filters_def)

lemma filter_starts_snoc: "filter_starts create (gs @ [g]) = filter_starts create gs @ [of_nat (length (filters create gs))]"
  by (simp add: filter_starts_def)

lemma length_filter_starts [simp]: "length (filter_starts create gs) = length gs"
  by (simp add: filter_starts_def)

lemma key_starts_snoc: "key_starts (ks @ [k]) = key_starts ks @ [length (concat ks)]"
  by (simp add: key_starts_def)

lemma length_key_starts [simp]: "length (key_starts ks) = length ks"
  by (simp add: key_starts_def)

lemma key_starts_empty [simp]: "key_starts ks = [] \<longleftrightarrow> ks = []" "key_starts [] = []"
  by (simp_all add: key_starts_def)

lemma tmp_keys_concat: "tmp_keys (concat ks) (key_starts ks @ [length (concat ks)]) = ks"
proof (rule nth_equalityI)
  fix i
  assume "i < length (tmp_keys (concat ks) (key_starts ks @ [length (concat ks)]))"
  then have i: "i < length ks" by (simp add: tmp_keys_def key_starts_def)
  have at: "(key_starts ks @ [length (concat ks)]) ! j = length (concat (take j ks))" if "j \<le> length ks" for j
    using that by (cases "j = length ks") (simp_all add: key_starts_def nth_append)
  have "concat ks = concat (take i ks) @ ks ! i @ concat (drop (Suc i) ks)"
    using arg_cong [OF id_take_nth_drop [OF i], of concat] by simp
  then have "take (length (ks ! i)) (drop (length (concat (take i ks))) (concat ks)) = ks ! i" by simp
  then show "tmp_keys (concat ks) (key_starts ks @ [length (concat ks)]) ! i = ks ! i"
    using i at [of i] at [of "Suc i"] by (simp add: tmp_keys_def take_Suc_conv_app_nth)
qed (simp add: tmp_keys_def key_starts_def)

lemma filter_rep_new: "filter_rep create FilterBlockBuilder_new [] []"
  by (simp add: filter_rep_def FilterBlockBuilder_new_def filter_starts_def)

lemma AddKey_rep: "filter_rep create b gs cur \<Longrightarrow> filter_rep create (FilterBlock_AddKey key b) gs (cur @ [key])"
  by (simp add: filter_rep_def FilterBlock_AddKey_def key_starts_snoc)

context filter_policy
begin

lemma GenerateFilter_rep: "filter_rep create b gs cur \<Longrightarrow> filter_rep create (GenerateFilter create b) (gs @ [cur]) []"
  using create_append [of cur "filters create gs"]
  by (cases "cur = []") (auto simp: filter_rep_def GenerateFilter_def Let_def tmp_keys_concat filter_starts_snoc filter_of_def)

lemma generate_to_rep:
  "filter_rep create b gs cur \<Longrightarrow> length gs \<le> n \<Longrightarrow>
    \<exists>gs' cur'. filter_rep create (generate_to create n b) gs' cur' \<and> length gs' = n \<and>
      gs' @ [cur'] = gs @ [cur] @ replicate (n - length gs) []"
proof (induction "n - length gs" arbitrary: b gs cur)
  case 0
  then have "length (filter_offsets b) = n" by (simp add: filter_rep_def)
  then have "generate_to create n b = b" by (simp add: generate_to.simps [of create n b])
  then show ?case using 0 by auto
next
  case (Suc d)
  then have "length (filter_offsets b) < n" by (simp add: filter_rep_def)
  then have "generate_to create n b = generate_to create n (GenerateFilter create b)" by (simp add: generate_to.simps [of create n b])
  moreover have "n - length gs = Suc (n - length (gs @ [cur]))" using Suc.hyps(2) by simp
  ultimately show ?case
    using Suc.hyps(1) [OF _ GenerateFilter_rep [OF Suc.prems(1)]] Suc.hyps(2) by simp
qed

lemma StartBlock_rep:
  assumes "filter_rep create b gs cur" "length gs \<le> unat off div kFilterBase"
  shows "\<exists>b' gs' cur'. StartBlock create off b = Some b' \<and> filter_rep create b' gs' cur' \<and> length gs' = unat off div kFilterBase \<and>
    gs' @ [cur'] = gs @ [cur] @ replicate (length gs' - length gs) []"
proof -
  have "\<not> unat off div kFilterBase < length (filter_offsets b)" using assms by (simp add: filter_rep_def)
  then show ?thesis using generate_to_rep [OF assms] by (fastforce simp: StartBlock_def)
qed

end

text \<open>The finished block: the filters, the array of their offsets with the offset of the array as last entry, the base.\<close>

definition offset_array :: "(slice list \<Rightarrow> slice \<Rightarrow> slice) \<Rightarrow> slice list list \<Rightarrow> u32 list" where
  "offset_array create gs = filter_starts create gs @ [of_nat (length (filters create gs))]"

lemma length_offset_array [simp]: "length (offset_array create gs) = Suc (length gs)"
  by (simp add: offset_array_def)

lemma nth_offset_array: "i \<le> length gs \<Longrightarrow> offset_array create gs ! i = of_nat (length (filters create (take i gs)))"
  by (auto simp: offset_array_def filter_starts_def nth_append)

definition filter_bytes_of :: "(slice list \<Rightarrow> slice \<Rightarrow> slice) \<Rightarrow> slice list list \<Rightarrow> slice" where
  "filter_bytes_of create gs =
     filters create gs @ concat (map EncodeFixed32 (offset_array create gs)) @ [of_nat kFilterBaseLg]"

lemma fold_PutFixed32: "fold PutFixed32 vs buf = buf @ concat (map EncodeFixed32 vs)"
  by (induction vs arbitrary: buf) (simp_all add: PutFixed32_def)

context filter_policy
begin

lemma Finish_filter_bytes:
  assumes "filter_rep create b gs cur"
  shows "fst (FilterBlock_Finish create b) = filter_bytes_of create (if cur = [] then gs else gs @ [cur])"
  using assms GenerateFilter_rep [OF assms]
  by (auto simp: FilterBlock_Finish_def Let_def filter_rep_def fold_PutFixed32 PutFixed32_def filter_bytes_of_def offset_array_def)

end

lemma DecodeFixed32_array:
  "i < length vs \<Longrightarrow> DecodeFixed32 (drop (i * 4) (concat (map EncodeFixed32 vs) @ rest)) = Some (vs ! i)"
proof (induction vs arbitrary: i)
  case (Cons v vs)
  then show ?case by (cases i) (auto simp: EncodeFixed32_def simp del: DecodeFixed32.simps, simp)
qed simp

lemma length_fixed_array [simp]: "length (concat (map EncodeFixed32 vs)) = 4 * length vs"
  by (induction vs) simp_all

section \<open>What the reader finds\<close>

lemma filters_nth:
  "i < length gs \<Longrightarrow> filters create gs = filters create (take i gs) @ filter_of create (gs ! i) @ filters create (drop (Suc i) gs)"
  using arg_cong [OF id_take_nth_drop [of i gs], of "filters create"] by simp

lemma FilterBlockReader_bytes:
  assumes "length (filters create gs) < 2 ^ 32"
  shows "FilterBlockReader_new (filter_bytes_of create gs) =
    \<lparr>fr_data = filter_bytes_of create gs, fr_offset = length (filters create gs), fr_num = length gs, base_lg = 11\<rparr>"
proof -
  let ?vs = "offset_array create gs" and ?F = "length (filters create gs)"
  let ?c = "filter_bytes_of create gs"
  have len: "length ?c = ?F + 4 * length gs + 5" by (simp add: filter_bytes_of_def)
  have "drop (length ?c - 5) ?c = drop (length gs * 4) (concat (map EncodeFixed32 ?vs) @ [of_nat kFilterBaseLg])"
    by (simp add: len) (simp add: filter_bytes_of_def mult.commute)
  then have "DecodeFixed32 (drop (length ?c - 5) ?c) = Some (of_nat ?F)"
    using DecodeFixed32_array [of "length gs" ?vs "[of_nat kFilterBaseLg]"] by (simp del: DecodeFixed32.simps add: nth_offset_array)
  moreover have "?c ! (length ?c - 1) = 11" by (simp add: filter_bytes_of_def kFilterBaseLg_def nth_append)
  moreover have "scast (11 :: u8) = (11 :: u64)" by simp
  ultimately show ?thesis using assms unfolding FilterBlockReader_new_def by (simp add: len unat_of_nat_u32 Let_def del: DecodeFixed32.simps)
qed

lemma KeyMayMatch_bytes:
  assumes F: "length (filters create gs) < 2 ^ 32" and i: "unat off div kFilterBase < length gs"
  shows "FilterBlock_KeyMayMatch may_match (FilterBlockReader_new (filter_bytes_of create gs)) off key =
    Some (may_match key (filter_of create (gs ! (unat off div kFilterBase))))"
proof -
  let ?i = "unat off div kFilterBase" and ?F = "length (filters create gs)"
  let ?vs = "offset_array create gs"
  let ?s = "length (filters create (take ?i gs))" and ?l = "length (filters create (take (Suc ?i) gs))"
  have index: "unat (drop_bit (unat (11 :: u64)) off) = ?i" by (simp add: unat_drop_bit_div kFilterBase_def kFilterBaseLg_def)
  have drop: "drop (?F + j) (filter_bytes_of create gs) = drop j (concat (map EncodeFixed32 ?vs) @ [of_nat kFilterBaseLg])" for j
    by (simp add: filter_bytes_of_def)
  have at: "DecodeFixed32 (drop (?F + ?i * 4) (filter_bytes_of create gs)) = Some (of_nat ?s)"
    "DecodeFixed32 (drop (?F + ?i * 4 + 4) (filter_bytes_of create gs)) = Some (of_nat ?l)"
    using DecodeFixed32_array [of ?i ?vs "[of_nat kFilterBaseLg]"] DecodeFixed32_array [of "Suc ?i" ?vs "[of_nat kFilterBaseLg]"] i drop [of "?i * 4"] drop [of "Suc ?i * 4"]
    by (simp_all del: DecodeFixed32.simps add: nth_offset_array ac_simps)
  have split: "filters create gs = filters create (take ?i gs) @ filter_of create (gs ! ?i) @ filters create (drop (Suc ?i) gs)"
    using i by (rule filters_nth)
  have l: "?l = ?s + length (filter_of create (gs ! ?i))" "?l \<le> ?F"
    using arg_cong [OF split, of length] i by (simp_all add: take_Suc_conv_app_nth)
  then have w: "unat (of_nat ?s :: u32) = ?s" "unat (of_nat ?l :: u32) = ?l" using F by (intro unat_of_nat_u32; linarith)+
  have "take (?l - ?s) (drop ?s (filter_bytes_of create gs)) = filter_of create (gs ! ?i)"
    unfolding filter_bytes_of_def by (subst split) (simp add: l)
  then show ?thesis
    unfolding FilterBlock_KeyMayMatch_def FilterBlockReader_bytes [OF F] FilterBlockReader.select_convs Let_def index at
    using i l w by (simp add: word_le_nat_alt)
qed

section \<open>No false negatives\<close>

text \<open>Building a filter block: the keys of each data block, with the offset the block starts at.\<close>

fun build_filter :: "(slice list \<Rightarrow> slice \<Rightarrow> slice) \<Rightarrow> (u64 \<times> slice list) list \<Rightarrow> FilterBlockBuilder \<Rightarrow> FilterBlockBuilder option" where
  "build_filter create [] b = Some b"
| "build_filter create ((off, keys) # bs) b =
     Option.bind (StartBlock create off b) (\<lambda>b. build_filter create bs (fold FilterBlock_AddKey keys b))"

lemma AddKeys_rep: "filter_rep create b gs cur \<Longrightarrow> filter_rep create (fold FilterBlock_AddKey keys b) gs (cur @ keys)"
proof (induction keys arbitrary: b cur)
  case (Cons k keys)
  then show ?case using Cons.IH [OF AddKey_rep [OF Cons.prems]] by simp
qed simp

text \<open>The keys recorded for the filter with the given index.\<close>

definition recorded :: "slice list list \<Rightarrow> slice list \<Rightarrow> nat \<Rightarrow> slice set" where
  "recorded gs cur i = (if i < Suc (length gs) then set ((gs @ [cur]) ! i) else {})"

context filter_policy
begin

lemma StartBlock_recorded:
  assumes "filter_rep create b gs cur" "length gs \<le> unat off div kFilterBase"
  shows "\<exists>b' gs' cur'. StartBlock create off b = Some b' \<and> filter_rep create b' gs' cur' \<and> length gs' = unat off div kFilterBase \<and>
    (\<forall>i. recorded gs cur i \<subseteq> recorded gs' cur' i) \<and> length (concat (gs' @ [cur'])) = length (concat (gs @ [cur]))"
proof -
  obtain b' gs' cur' where b': "StartBlock create off b = Some b'" "filter_rep create b' gs' cur'" "length gs' = unat off div kFilterBase"
    and eq: "gs' @ [cur'] = gs @ [cur] @ replicate (length gs' - length gs) []"
    using StartBlock_rep [OF assms] by blast
  have "recorded gs cur i \<subseteq> recorded gs' cur' i" for i
    using assms(2) b'(3) unfolding recorded_def eq by (auto simp: nth_append less_Suc_eq)
  moreover have "length (concat (gs' @ [cur'])) = length (concat (gs @ [cur]))" unfolding eq by simp
  ultimately show ?thesis using b' by blast
qed

lemma build_filter_rep:
  "filter_rep create b gs cur \<Longrightarrow> sorted (map fst bs) \<Longrightarrow> (bs \<noteq> [] \<Longrightarrow> length gs \<le> unat (fst (hd bs)) div kFilterBase) \<Longrightarrow>
    \<exists>b' gs' cur'. build_filter create bs b = Some b' \<and> filter_rep create b' gs' cur' \<and> (\<forall>i. recorded gs cur i \<subseteq> recorded gs' cur' i) \<and>
      (\<forall>(off, keys)\<in>set bs. set keys \<subseteq> recorded gs' cur' (unat off div kFilterBase)) \<and>
      length (concat (gs' @ [cur'])) = length (concat (gs @ [cur])) + length (concat (map snd bs))"
proof (induction bs arbitrary: b gs cur)
  case (Cons e bs)
  obtain off keys where e: "e = (off, keys)" by fastforce
  obtain b1 gs1 cur1 where b1: "StartBlock create off b = Some b1" "filter_rep create b1 gs1 cur1" "length gs1 = unat off div kFilterBase"
    and rec: "\<And>i. recorded gs cur i \<subseteq> recorded gs1 cur1 i" and len: "length (concat (gs1 @ [cur1])) = length (concat (gs @ [cur]))"
    using StartBlock_recorded [OF Cons.prems(1), of off] Cons.prems(3) e by auto
  have "length gs1 \<le> unat (fst (hd bs)) div kFilterBase" if "bs \<noteq> []"
    using Cons.prems(2) b1(3) that e by (cases bs) (auto simp: word_le_nat_alt div_le_mono)
  then obtain b' gs' cur' where b': "build_filter create bs (fold FilterBlock_AddKey keys b1) = Some b'" "filter_rep create b' gs' cur'"
    and rec': "\<And>i. recorded gs1 (cur1 @ keys) i \<subseteq> recorded gs' cur' i"
    and keys: "\<forall>(off, keys)\<in>set bs. set keys \<subseteq> recorded gs' cur' (unat off div kFilterBase)"
    and len': "length (concat (gs' @ [cur'])) = length (concat (gs1 @ [cur1 @ keys])) + length (concat (map snd bs))"
    using Cons.IH [OF AddKeys_rep [OF b1(2), of keys]] Cons.prems(2) by auto
  have "recorded gs1 cur1 i \<subseteq> recorded gs1 (cur1 @ keys) i" for i by (auto simp: recorded_def nth_append less_Suc_eq)
  then have "recorded gs cur i \<subseteq> recorded gs' cur' i" for i using rec rec' by blast
  moreover have "set keys \<subseteq> recorded gs' cur' (unat off div kFilterBase)"
    using rec' [of "length gs1"] b1(3) by (auto simp: recorded_def nth_append)
  ultimately show ?case using b1(1) b' keys len len' by (intro exI [of _ b'] exI [of _ gs'] exI [of _ cur']) (simp add: e)
qed auto

text \<open>What the builder recorded for a block is found by the reader.\<close>

lemma recorded_match:
  assumes b: "filter_rep create b gs cur" and key: "key \<in> recorded gs cur (unat off div kFilterBase)"
    and size: "length (fst (FilterBlock_Finish create b)) < 2 ^ 32"
    and adm: "\<forall>ks. length ks \<le> length (concat (gs @ [cur])) \<longrightarrow> admissible ks"
  shows "FilterBlock_KeyMayMatch may_match (FilterBlockReader_new (fst (FilterBlock_Finish create b))) off key = Some True"
proof -
  let ?i = "unat off div kFilterBase" and ?gs = "if cur = [] then gs else gs @ [cur]"
  have i: "?i < length ?gs" "key \<in> set (?gs ! ?i)" using key by (auto simp: recorded_def nth_append split: if_splits)
  have F: "length (filters create ?gs) < 2 ^ 32" using size unfolding Finish_filter_bytes [OF b] by (simp add: filter_bytes_of_def)
  have "length (?gs ! ?i) \<le> length (concat ?gs)"
    using i(1) arg_cong [OF id_take_nth_drop [OF i(1)], of "\<lambda>x. length (concat x)"] by simp
  also have "\<dots> \<le> length (concat (gs @ [cur]))" by simp
  finally have "may_match key (filter_of create (?gs ! ?i))"
    using adm no_false_negative [of "?gs ! ?i" key] i(2) by (auto simp: filter_of_def)
  then show ?thesis unfolding Finish_filter_bytes [OF b] KeyMayMatch_bytes [OF F i(1)] by simp
qed

lemma filter_block:
  assumes "sorted (map fst bs)" and adm: "\<forall>ks. length ks \<le> length (concat (map snd bs)) \<longrightarrow> admissible ks"
  shows "\<exists>b. build_filter create bs FilterBlockBuilder_new = Some b \<and>
    (length (fst (FilterBlock_Finish create b)) < 2 ^ 32 \<longrightarrow>
      (\<forall>(off, keys)\<in>set bs. \<forall>key\<in>set keys.
        FilterBlock_KeyMayMatch may_match (FilterBlockReader_new (fst (FilterBlock_Finish create b))) off key = Some True))"
proof -
  obtain b gs cur where b: "build_filter create bs FilterBlockBuilder_new = Some b" "filter_rep create b gs cur"
    and keys: "\<forall>(off, keys)\<in>set bs. set keys \<subseteq> recorded gs cur (unat off div kFilterBase)"
    and len: "length (concat (gs @ [cur])) = length (concat (map snd bs))"
    using build_filter_rep [OF filter_rep_new assms(1)] by auto
  show ?thesis
    using b(1) recorded_match [OF b(2)] keys adm unfolding len by fastforce
qed

end

text \<open>
  C33: A table never loses a key to its filter block.  When the data blocks are announced in the order of
  their offsets, the assertion of \<open>StartBlock\<close> never fails, and the reader of the finished block matches
  every key for the offset of the block that holds it, however many blocks share a filter and however
  many filters stay empty.
\<close>

theorem filter_block_no_false_negative:
  assumes "sorted (map fst bs)" and "length (concat (map snd bs)) * unat bpk + 7 < 2 ^ 64"
  shows "\<exists>b. build_filter (CreateFilter (BloomFilterPolicy_new bpk k)) bs FilterBlockBuilder_new = Some b \<and>
    (length (fst (FilterBlock_Finish (CreateFilter (BloomFilterPolicy_new bpk k)) b)) < 2 ^ 32 \<longrightarrow>
      (\<forall>(off, keys)\<in>set bs. \<forall>key\<in>set keys.
        FilterBlock_KeyMayMatch KeyMayMatch
          (FilterBlockReader_new (fst (FilterBlock_Finish (CreateFilter (BloomFilterPolicy_new bpk k)) b))) off key = Some True))"
proof (rule bloom.filter_block [OF assms(1)])
  show "\<forall>ks. length ks \<le> length (concat (map snd bs)) \<longrightarrow> length ks * unat bpk + 7 < 2 ^ 64"
    using assms(2) by (meson add_le_mono1 le_less_trans mult_le_mono1)
qed

theorem filter_block_no_false_negative_witness:
  "\<exists>b. build_filter (CreateFilter (BloomFilterPolicy_new 10 6)) [(0, [[1]]), (2500, [[2], [3, 4]])] FilterBlockBuilder_new = Some b \<and>
    FilterBlock_KeyMayMatch KeyMayMatch
      (FilterBlockReader_new (fst (FilterBlock_Finish (CreateFilter (BloomFilterPolicy_new 10 6)) b))) 2500 [3, 4] = Some True"
proof -
  let ?bs = "[(0, [[1]]), (2500, [[2], [3, 4]])] :: (u64 \<times> slice list) list"
  have "map_option (\<lambda>b. length (fst (FilterBlock_Finish (CreateFilter (BloomFilterPolicy_new 10 6)) b)))
      (build_filter (CreateFilter (BloomFilterPolicy_new 10 6)) ?bs FilterBlockBuilder_new) = Some 31" by code_simp
  then show ?thesis using filter_block_no_false_negative [of ?bs 10 6] by auto
qed

text \<open>
  The last byte of a filter block is the logarithm of the range one filter covers.  The reader takes it as
  it is, although it means to treat errors as potential matches: a damaged block whose last byte is 64
  or more makes \<open>KeyMayMatch\<close> shift a 64-bit offset by that much, which is undefined.
\<close>

theorem filter_block_bad_base:
  "FilterBlock_KeyMayMatch may_match (FilterBlockReader_new [0, 0, 0, 0, 64]) off key = None"
  by (simp add: FilterBlockReader_new_def FilterBlock_KeyMayMatch_def Let_def)

end
