(* ===== verification/LdbTwoLevel.thy ===== *)
theory LdbTwoLevel
  imports LdbIterator
begin

text \<open>
  The two-level iterator (\<open>table/two_level_iterator.cc\<close>) with the wrappers of \<open>table/iterator_wrapper.h\<close>:
  an index iterator whose values name blocks, and an iterator over the block the index stands
  at.  Both levels are iterators of the interface \<open>iterator\<close>; the locale \<open>two_level\<close> proves that
  together they keep the same contract over the concatenation of the blocks.
\<close>

section \<open>Wrappers\<close>

record 'i IteratorWrapper =
  iw_iter :: "'i option"
  iw_valid :: bool
  iw_key :: slice

definition Wrapper_Update :: "'i Iterator \<Rightarrow> 'i \<Rightarrow> 'i IteratorWrapper \<Rightarrow> 'i IteratorWrapper option" where
  "Wrapper_Update ops it w =
     (let w = w\<lparr>iw_iter := Some it, iw_valid := it_Valid ops it\<rparr>
      in if it_Valid ops it then map_option (\<lambda>k. w\<lparr>iw_key := k\<rparr>) (it_key ops it) else Some w)"

definition Wrapper_Set :: "'i Iterator \<Rightarrow> 'i option \<Rightarrow> 'i IteratorWrapper \<Rightarrow> 'i IteratorWrapper option" where
  "Wrapper_Set ops i w =
     (case i of None \<Rightarrow> Some (w\<lparr>iw_iter := None, iw_valid := False\<rparr>) | Some it \<Rightarrow> Wrapper_Update ops it w)"

definition Wrapper_key :: "'i IteratorWrapper \<Rightarrow> slice option" where
  "Wrapper_key w = (if iw_valid w then Some (iw_key w) else None)"

definition Wrapper_value :: "'i Iterator \<Rightarrow> 'i IteratorWrapper \<Rightarrow> slice option" where
  "Wrapper_value ops w = (if iw_valid w then Option.bind (iw_iter w) (it_value ops) else None)"

definition Wrapper_status :: "'i Iterator \<Rightarrow> 'i IteratorWrapper \<Rightarrow> status option" where
  "Wrapper_status ops w = map_option (it_status ops) (iw_iter w)"

text \<open>The five operations that move the iterator have the same shape.\<close>

definition Wrapper_move :: "'i Iterator \<Rightarrow> ('i \<Rightarrow> 'i option) \<Rightarrow> 'i IteratorWrapper \<Rightarrow> 'i IteratorWrapper option" where
  "Wrapper_move ops f w = Option.bind (iw_iter w) (\<lambda>it. Option.bind (f it) (\<lambda>it. Wrapper_Update ops it w))"

section \<open>The iterator\<close>

record ('i, 'd) TwoLevelIterator =
  tl_status :: status
  index_iter :: "'i IteratorWrapper"
  data_iter :: "'d IteratorWrapper"
  data_block_handle :: slice

definition TwoLevelIterator_new :: "'i Iterator \<Rightarrow> 'i \<Rightarrow> ('i, 'd) TwoLevelIterator option" where
  "TwoLevelIterator_new iops i =
     map_option (\<lambda>w. \<lparr>tl_status = Status_OK, index_iter = w, data_iter = \<lparr>iw_iter = None, iw_valid = False, iw_key = []\<rparr>,
         data_block_handle = []\<rparr>)
       (Wrapper_Set iops (Some i) \<lparr>iw_iter = None, iw_valid = False, iw_key = []\<rparr>)"

definition SaveError :: "status \<Rightarrow> ('i, 'd) TwoLevelIterator \<Rightarrow> ('i, 'd) TwoLevelIterator" where
  "SaveError s t = (if Status_ok (tl_status t) \<and> \<not> Status_ok s then t\<lparr>tl_status := s\<rparr> else t)"

definition SetDataIterator :: "'d Iterator \<Rightarrow> 'd option \<Rightarrow> ('i, 'd) TwoLevelIterator \<Rightarrow> ('i, 'd) TwoLevelIterator option" where
  "SetDataIterator dops d t =
     (let t = (case Wrapper_status dops (data_iter t) of None \<Rightarrow> t | Some s \<Rightarrow> SaveError s t)
      in map_option (\<lambda>w. t\<lparr>data_iter := w\<rparr>) (Wrapper_Set dops d (data_iter t)))"

definition InitDataBlock ::
    "'i Iterator \<Rightarrow> 'd Iterator \<Rightarrow> (slice \<Rightarrow> 'd option) \<Rightarrow> ('i, 'd) TwoLevelIterator \<Rightarrow> ('i, 'd) TwoLevelIterator option" where
  "InitDataBlock iops dops block_function t =
     (if \<not> iw_valid (index_iter t) then SetDataIterator dops None t
      else
        case Wrapper_value iops (index_iter t) of
          None \<Rightarrow> None
        | Some handle \<Rightarrow>
            if iw_iter (data_iter t) \<noteq> None \<and> Slice_compare handle (data_block_handle t) = 0 then Some t
            else
              (case block_function handle of
                 None \<Rightarrow> None
               | Some d \<Rightarrow> SetDataIterator dops (Some d) (t\<lparr>data_block_handle := handle\<rparr>)))"

text \<open>\<open>if (data_iter_.iter() != NULL) data_iter_.f()\<close>\<close>

definition on_data ::
    "'d Iterator \<Rightarrow> ('d \<Rightarrow> 'd option) \<Rightarrow> ('i, 'd) TwoLevelIterator \<Rightarrow> ('i, 'd) TwoLevelIterator option" where
  "on_data dops f t =
     (if iw_iter (data_iter t) = None then Some t
      else map_option (\<lambda>w. t\<lparr>data_iter := w\<rparr>) (Wrapper_move dops f (data_iter t)))"

definition move_index ::
    "'i Iterator \<Rightarrow> ('i \<Rightarrow> 'i option) \<Rightarrow> ('i, 'd) TwoLevelIterator \<Rightarrow> ('i, 'd) TwoLevelIterator option" where
  "move_index iops f t = map_option (\<lambda>w. t\<lparr>index_iter := w\<rparr>) (Wrapper_move iops f (index_iter t))"

partial_function (option) SkipEmptyDataBlocksForward ::
    "'i Iterator \<Rightarrow> 'd Iterator \<Rightarrow> (slice \<Rightarrow> 'd option) \<Rightarrow> ('i, 'd) TwoLevelIterator \<Rightarrow> ('i, 'd) TwoLevelIterator option" where
  "SkipEmptyDataBlocksForward iops dops bf t =
     (if iw_iter (data_iter t) = None \<or> \<not> iw_valid (data_iter t) then
        if \<not> iw_valid (index_iter t) then SetDataIterator dops None t
        else
          Option.bind (move_index iops (it_Next iops) t) (\<lambda>t.
          Option.bind (InitDataBlock iops dops bf t) (\<lambda>t.
          Option.bind (on_data dops (it_SeekToFirst dops) t) (\<lambda>t. SkipEmptyDataBlocksForward iops dops bf t)))
      else Some t)"

partial_function (option) SkipEmptyDataBlocksBackward ::
    "'i Iterator \<Rightarrow> 'd Iterator \<Rightarrow> (slice \<Rightarrow> 'd option) \<Rightarrow> ('i, 'd) TwoLevelIterator \<Rightarrow> ('i, 'd) TwoLevelIterator option" where
  "SkipEmptyDataBlocksBackward iops dops bf t =
     (if iw_iter (data_iter t) = None \<or> \<not> iw_valid (data_iter t) then
        if \<not> iw_valid (index_iter t) then SetDataIterator dops None t
        else
          Option.bind (move_index iops (it_Prev iops) t) (\<lambda>t.
          Option.bind (InitDataBlock iops dops bf t) (\<lambda>t.
          Option.bind (on_data dops (it_SeekToLast dops) t) (\<lambda>t. SkipEmptyDataBlocksBackward iops dops bf t)))
      else Some t)"

definition TwoLevel_Seek ::
    "'i Iterator \<Rightarrow> 'd Iterator \<Rightarrow> (slice \<Rightarrow> 'd option) \<Rightarrow> slice \<Rightarrow> ('i, 'd) TwoLevelIterator \<Rightarrow> ('i, 'd) TwoLevelIterator option" where
  "TwoLevel_Seek iops dops bf target t =
     Option.bind (move_index iops (it_Seek iops target) t) (\<lambda>t.
     Option.bind (InitDataBlock iops dops bf t) (\<lambda>t.
     Option.bind (on_data dops (it_Seek dops target) t) (SkipEmptyDataBlocksForward iops dops bf)))"

definition TwoLevel_SeekToFirst ::
    "'i Iterator \<Rightarrow> 'd Iterator \<Rightarrow> (slice \<Rightarrow> 'd option) \<Rightarrow> ('i, 'd) TwoLevelIterator \<Rightarrow> ('i, 'd) TwoLevelIterator option" where
  "TwoLevel_SeekToFirst iops dops bf t =
     Option.bind (move_index iops (it_SeekToFirst iops) t) (\<lambda>t.
     Option.bind (InitDataBlock iops dops bf t) (\<lambda>t.
     Option.bind (on_data dops (it_SeekToFirst dops) t) (SkipEmptyDataBlocksForward iops dops bf)))"

definition TwoLevel_SeekToLast ::
    "'i Iterator \<Rightarrow> 'd Iterator \<Rightarrow> (slice \<Rightarrow> 'd option) \<Rightarrow> ('i, 'd) TwoLevelIterator \<Rightarrow> ('i, 'd) TwoLevelIterator option" where
  "TwoLevel_SeekToLast iops dops bf t =
     Option.bind (move_index iops (it_SeekToLast iops) t) (\<lambda>t.
     Option.bind (InitDataBlock iops dops bf t) (\<lambda>t.
     Option.bind (on_data dops (it_SeekToLast dops) t) (SkipEmptyDataBlocksBackward iops dops bf)))"

definition TwoLevel_Next ::
    "'i Iterator \<Rightarrow> 'd Iterator \<Rightarrow> (slice \<Rightarrow> 'd option) \<Rightarrow> ('i, 'd) TwoLevelIterator \<Rightarrow> ('i, 'd) TwoLevelIterator option" where
  "TwoLevel_Next iops dops bf t =
     (if iw_valid (data_iter t)
      then Option.bind (on_data dops (it_Next dops) t) (SkipEmptyDataBlocksForward iops dops bf) else None)"

definition TwoLevel_Prev ::
    "'i Iterator \<Rightarrow> 'd Iterator \<Rightarrow> (slice \<Rightarrow> 'd option) \<Rightarrow> ('i, 'd) TwoLevelIterator \<Rightarrow> ('i, 'd) TwoLevelIterator option" where
  "TwoLevel_Prev iops dops bf t =
     (if iw_valid (data_iter t)
      then Option.bind (on_data dops (it_Prev dops) t) (SkipEmptyDataBlocksBackward iops dops bf) else None)"

definition TwoLevel_status :: "'i Iterator \<Rightarrow> 'd Iterator \<Rightarrow> ('i, 'd) TwoLevelIterator \<Rightarrow> status" where
  "TwoLevel_status iops dops t =
     (case Wrapper_status iops (index_iter t) of
        Some s \<Rightarrow>
          if \<not> Status_ok s then s
          else
            (case Wrapper_status dops (data_iter t) of
               Some s \<Rightarrow> if \<not> Status_ok s then s else tl_status t
             | None \<Rightarrow> tl_status t)
      | None \<Rightarrow> tl_status t)"

definition two_level_ops :: "'i Iterator \<Rightarrow> 'd Iterator \<Rightarrow> (slice \<Rightarrow> 'd option) \<Rightarrow> ('i, 'd) TwoLevelIterator Iterator" where
  "two_level_ops iops dops bf =
     \<lparr>it_Valid = (\<lambda>t. iw_valid (data_iter t)), it_key = (\<lambda>t. Wrapper_key (data_iter t)),
      it_value = (\<lambda>t. Wrapper_value dops (data_iter t)), it_status = TwoLevel_status iops dops,
      it_SeekToFirst = TwoLevel_SeekToFirst iops dops bf, it_SeekToLast = TwoLevel_SeekToLast iops dops bf,
      it_Seek = TwoLevel_Seek iops dops bf, it_Next = TwoLevel_Next iops dops bf, it_Prev = TwoLevel_Prev iops dops bf\<rparr>"

section \<open>What a wrapper and a two-level iterator stand for\<close>

definition wrap_rep :: "('i \<Rightarrow> kv list \<Rightarrow> nat option \<Rightarrow> bool) \<Rightarrow> 'i IteratorWrapper \<Rightarrow> kv list \<Rightarrow> nat option \<Rightarrow> bool" where
  "wrap_rep rep w es pos \<longleftrightarrow> (\<exists>it. iw_iter w = Some it \<and> rep it es pos) \<and>
     iw_valid w = (pos \<noteq> None) \<and> (\<forall>i. pos = Some i \<longrightarrow> iw_key w = fst (es ! i))"

context iterator
begin

lemma Wrapper_Update_rep: "rep it es pos \<Longrightarrow> \<exists>w'. Wrapper_Update ops it w = Some w' \<and> wrap_rep rep w' es pos"
  using at_none [of it es] at_some [of it es] by (cases pos) (fastforce simp: Wrapper_Update_def wrap_rep_def Let_def)+

lemma Wrapper_move_rep:
  assumes "wrap_rep rep w es pos" and "\<And>it. rep it es pos \<Longrightarrow> \<exists>it'. f it = Some it' \<and> rep it' es pos'"
  shows "\<exists>w'. Wrapper_move ops f w = Some w' \<and> wrap_rep rep w' es pos'"
  using assms Wrapper_Update_rep [of _ es pos' w] unfolding wrap_rep_def [of rep w es pos] Wrapper_move_def by fastforce

lemma Wrapper_value_rep: "wrap_rep rep w es (Some i) \<Longrightarrow> i < length es \<and> Wrapper_value ops w = Some (snd (es ! i))"
  by (auto simp: wrap_rep_def Wrapper_value_def dest: at_some)

lemma Wrapper_key_rep: "wrap_rep rep w es (Some i) \<Longrightarrow> Wrapper_key w = Some (fst (es ! i))"
  by (auto simp: wrap_rep_def Wrapper_key_def)

lemma Wrapper_status_rep: "wrap_rep rep w es pos \<Longrightarrow> Wrapper_status ops w = Some Status_OK"
  by (auto simp: wrap_rep_def Wrapper_status_def status)

end

text \<open>The entries of all blocks the index names, and the position of the first entry of a block.\<close>

definition flat :: "(slice \<Rightarrow> kv list) \<Rightarrow> kv list \<Rightarrow> kv list" where
  "flat blk ixs = concat (map (\<lambda>ix. blk (snd ix)) ixs)"

definition base :: "(slice \<Rightarrow> kv list) \<Rightarrow> kv list \<Rightarrow> nat \<Rightarrow> nat" where
  "base blk ixs i = length (flat blk (take i ixs))"

lemma flat_simps [simp]: "flat blk [] = []" "flat blk (ix # ixs) = blk (snd ix) @ flat blk ixs" "flat blk (xs @ ys) = flat blk xs @ flat blk ys"
  by (simp_all add: flat_def)

lemma base_simps [simp]: "base blk ixs 0 = 0" "base blk (ix # ixs) (Suc i) = length (blk (snd ix)) + base blk ixs i"
  by (simp_all add: base_def)

lemma base_Suc: "i < length ixs \<Longrightarrow> base blk ixs (Suc i) = base blk ixs i + length (blk (snd (ixs ! i)))"
  by (simp add: base_def take_Suc_conv_app_nth)

lemma base_length: "length ixs \<le> i \<Longrightarrow> base blk ixs i = length (flat blk ixs)"
  by (simp add: base_def)

lemma base_le: "base blk ixs i \<le> length (flat blk ixs)"
  by (induction ixs arbitrary: i) (auto simp: base_def take_Cons split: nat.split)

lemma flat_nth:
  assumes "i < length ixs" "q < length (blk (snd (ixs ! i)))"
  shows "base blk ixs i + q < length (flat blk ixs)" "flat blk ixs ! (base blk ixs i + q) = blk (snd (ixs ! i)) ! q"
proof -
  have ixs: "ixs = take i ixs @ ixs ! i # drop (Suc i) ixs" using assms(1) by (rule id_take_nth_drop)
  have "flat blk ixs = flat blk (take i ixs) @ blk (snd (ixs ! i)) @ flat blk (drop (Suc i) ixs)"
    by (subst ixs) simp
  then show "base blk ixs i + q < length (flat blk ixs)" "flat blk ixs ! (base blk ixs i + q) = blk (snd (ixs ! i)) ! q"
    using assms(2) by (simp_all add: base_def nth_append)
qed

text \<open>
  The contract of the index (\<open>doc/table_format.txt\<close>): the key of an entry is not below the keys of its block and
  below the keys of the blocks that follow.
\<close>

fun separated :: "(slice \<Rightarrow> slice \<Rightarrow> int) \<Rightarrow> (slice \<Rightarrow> bool) \<Rightarrow> (slice \<Rightarrow> kv list) \<Rightarrow> kv list \<Rightarrow> bool" where
  "separated cmp good blk [] = True"
| "separated cmp good blk (ix # ixs) =
     (good (fst ix) \<and> (\<forall>e\<in>set (blk (snd ix)). good (fst e) \<and> cmp (fst e) (fst ix) \<le> 0) \<and>
      (\<forall>e\<in>set (flat blk ixs). cmp (fst ix) (fst e) < 0) \<and> separated cmp good blk ixs)"

definition at_block ::
    "(slice \<Rightarrow> bool) \<Rightarrow> (slice \<Rightarrow> kv list) \<Rightarrow> ('i \<Rightarrow> kv list \<Rightarrow> nat option \<Rightarrow> bool) \<Rightarrow> ('d \<Rightarrow> kv list \<Rightarrow> nat option \<Rightarrow> bool) \<Rightarrow>
      ('i, 'd) TwoLevelIterator \<Rightarrow> kv list \<Rightarrow> nat option \<Rightarrow> nat option \<Rightarrow> bool" where
  "at_block ok blk irep drep t ixs j q \<longleftrightarrow> tl_status t = Status_OK \<and> (\<forall>ix\<in>set ixs. ok (snd ix)) \<and> wrap_rep irep (index_iter t) ixs j \<and>
     (case j of None \<Rightarrow> iw_iter (data_iter t) = None \<and> \<not> iw_valid (data_iter t)
      | Some i \<Rightarrow> data_block_handle t = snd (ixs ! i) \<and> wrap_rep drep (data_iter t) (blk (snd (ixs ! i))) q)"

text \<open>Between the two levels: the index stands anywhere and the data iterator is still on an earlier block.\<close>

definition between ::
    "(slice \<Rightarrow> bool) \<Rightarrow> (slice \<Rightarrow> kv list) \<Rightarrow> ('i \<Rightarrow> kv list \<Rightarrow> nat option \<Rightarrow> bool) \<Rightarrow> ('d \<Rightarrow> kv list \<Rightarrow> nat option \<Rightarrow> bool) \<Rightarrow>
      ('i, 'd) TwoLevelIterator \<Rightarrow> kv list \<Rightarrow> nat option \<Rightarrow> bool" where
  "between ok blk irep drep t ixs j \<longleftrightarrow> tl_status t = Status_OK \<and> (\<forall>ix\<in>set ixs. ok (snd ix)) \<and> wrap_rep irep (index_iter t) ixs j \<and>
     (iw_iter (data_iter t) = None \<and> \<not> iw_valid (data_iter t) \<or> (\<exists>q. wrap_rep drep (data_iter t) (blk (data_block_handle t)) q))"

definition two_rep ::
    "(slice \<Rightarrow> slice \<Rightarrow> int) \<Rightarrow> (slice \<Rightarrow> bool) \<Rightarrow> (slice \<Rightarrow> bool) \<Rightarrow> (slice \<Rightarrow> kv list) \<Rightarrow> ('i \<Rightarrow> kv list \<Rightarrow> nat option \<Rightarrow> bool) \<Rightarrow>
      ('d \<Rightarrow> kv list \<Rightarrow> nat option \<Rightarrow> bool) \<Rightarrow> ('i, 'd) TwoLevelIterator \<Rightarrow> kv list \<Rightarrow> nat option \<Rightarrow> bool" where
  "two_rep cmp good ok blk irep drep t es pos \<longleftrightarrow>
     (\<exists>ixs j. es = flat blk ixs \<and> separated cmp good blk ixs \<and>
        (case pos of None \<Rightarrow> between ok blk irep drep t ixs j \<and> iw_iter (data_iter t) = None
         | Some p \<Rightarrow> \<exists>i q. j = Some i \<and> p = base blk ixs i + q \<and> at_block ok blk irep drep t ixs j (Some q)))"

lemma at_block_between: "at_block ok blk irep drep t ixs j q \<Longrightarrow> between ok blk irep drep t ixs j"
  by (cases j) (auto simp: at_block_def between_def)

locale two_level = index: iterator iops irep cmp good + data: iterator dops drep cmp good
  for iops :: "'i Iterator" and irep and dops :: "'d Iterator" and drep and cmp good +
  fixes block_function :: "slice \<Rightarrow> 'd option"
    and blk :: "slice \<Rightarrow> kv list"
    and ok :: "slice \<Rightarrow> bool"
  assumes order: "comparator cmp good"
    and block: "ok h \<Longrightarrow> \<exists>d. block_function h = Some d \<and> drep d (blk h) None"
begin

lemma SetDataIterator_None:
  "between ok blk irep drep t ixs j \<Longrightarrow>
    \<exists>t'. SetDataIterator dops None t = Some t' \<and> between ok blk irep drep t' ixs j \<and> iw_iter (data_iter t') = None"
  using data.Wrapper_status_rep
  by (fastforce simp: between_def SetDataIterator_def Wrapper_status_def Wrapper_Set_def SaveError_def Let_def Status_ok_def Status_OK_def)

lemma InitDataBlock_rep:
  assumes t: "between ok blk irep drep t ixs j"
  shows "\<exists>t' q. InitDataBlock iops dops block_function t = Some t' \<and> at_block ok blk irep drep t' ixs j q"
proof (cases j)
  case None
  then have "\<not> iw_valid (index_iter t)" using t by (simp add: between_def wrap_rep_def)
  then show ?thesis
    using SetDataIterator_None [OF t] None by (fastforce simp: InitDataBlock_def at_block_def between_def wrap_rep_def)
next
  case (Some i)
  have ix: "i < length ixs" "Wrapper_value iops (index_iter t) = Some (snd (ixs ! i))" "iw_valid (index_iter t)"
    using t Some index.Wrapper_value_rep by (auto simp: between_def wrap_rep_def)
  then have okh: "ok (snd (ixs ! i))" using t by (simp add: between_def)
  show ?thesis
  proof (cases "iw_iter (data_iter t) \<noteq> None \<and> Slice_compare (snd (ixs ! i)) (data_block_handle t) = 0")
    case True
    then have "snd (ixs ! i) = data_block_handle t" by (simp add: Slice_compare_order split: if_splits)
    then show ?thesis using True t Some ix by (auto simp: InitDataBlock_def at_block_def between_def)
  next
    case False
    obtain d where d: "block_function (snd (ixs ! i)) = Some d" "drep d (blk (snd (ixs ! i))) None" using block [OF okh] by blast
    obtain w where w: "Wrapper_Update dops d (data_iter t) = Some w" "wrap_rep drep w (blk (snd (ixs ! i))) None"
      using data.Wrapper_Update_rep [OF d(2)] by blast
    have st: "Wrapper_status dops (data_iter t) \<in> {None, Some Status_OK}"
      using t data.Wrapper_status_rep by (auto simp: between_def Wrapper_status_def)
    have "InitDataBlock iops dops block_function t = SetDataIterator dops (Some d) (t\<lparr>data_block_handle := snd (ixs ! i)\<rparr>)"
      using False ix d(1) by (auto simp: InitDataBlock_def)
    also have "\<dots> = Some (t\<lparr>data_block_handle := snd (ixs ! i), data_iter := w\<rparr>)"
      using st w(1) by (auto simp: SetDataIterator_def SaveError_def Status_ok_def Status_OK_def Wrapper_Set_def)
    finally show ?thesis using t w(2) Some by (auto simp: at_block_def between_def)
  qed
qed

lemma move_index_rep:
  assumes "between ok blk irep drep t ixs j" and "\<And>it. irep it ixs j \<Longrightarrow> \<exists>it'. f it = Some it' \<and> irep it' ixs j'"
  shows "\<exists>t'. move_index iops f t = Some t' \<and> between ok blk irep drep t' ixs j'"
  using index.Wrapper_move_rep [of "index_iter t" ixs j f j'] assms by (fastforce simp: move_index_def between_def)

lemma on_data_rep:
  assumes "at_block ok blk irep drep t ixs (Some i) q"
    and "\<And>it. drep it (blk (snd (ixs ! i))) q \<Longrightarrow> \<exists>it'. f it = Some it' \<and> drep it' (blk (snd (ixs ! i))) q'"
  shows "\<exists>t'. on_data dops f t = Some t' \<and> at_block ok blk irep drep t' ixs (Some i) q'"
  using data.Wrapper_move_rep [of "data_iter t" "blk (snd (ixs ! i))" q f q'] assms by (fastforce simp: on_data_def at_block_def wrap_rep_def)

lemma on_data_None: "at_block ok blk irep drep t ixs None q \<Longrightarrow> on_data dops f t = Some t"
  by (simp add: at_block_def on_data_def)

text \<open>One turn of the loops that skip blocks: the index moves, the data iterator is created and placed.\<close>

lemma turn_rep:
  assumes t: "between ok blk irep drep t ixs j" and f: "\<And>it. irep it ixs j \<Longrightarrow> \<exists>it'. f it = Some it' \<and> irep it' ixs j'"
    and g: "\<And>it es q. drep it es q \<Longrightarrow> \<exists>it'. g it = Some it' \<and> drep it' es (pos es)"
  shows "\<exists>t'. Option.bind (move_index iops f t) (\<lambda>t. Option.bind (InitDataBlock iops dops block_function t) (on_data dops g)) = Some t' \<and>
    at_block ok blk irep drep t' ixs j' (case j' of None \<Rightarrow> None | Some i \<Rightarrow> pos (blk (snd (ixs ! i))))"
proof -
  obtain t1 where t1: "move_index iops f t = Some t1" "between ok blk irep drep t1 ixs j'" using move_index_rep [OF t, of f j'] f by blast
  obtain t2 q where t2: "InitDataBlock iops dops block_function t1 = Some t2" "at_block ok blk irep drep t2 ixs j' q"
    using InitDataBlock_rep [OF t1(2)] by blast
  show ?thesis
  proof (cases j')
    case None
    then show ?thesis using t1(1) t2 on_data_None by (auto simp: at_block_def)
  next
    case (Some i)
    then show ?thesis using t1(1) t2(1) on_data_rep [OF t2(2) [unfolded Some], of g "pos (blk (snd (ixs ! i)))"] g by auto
  qed
qed

lemma bind3: "Option.bind (Option.bind x (\<lambda>t. Option.bind (f t) g)) h = Option.bind x (\<lambda>t. Option.bind (f t) (\<lambda>t. Option.bind (g t) h))"
  by (cases x) auto

lemma Skip_stop:
  assumes "at_block ok blk irep drep t ixs (Some i) (Some q)"
  shows "SkipEmptyDataBlocksForward iops dops block_function t = Some t" "SkipEmptyDataBlocksBackward iops dops block_function t = Some t"
  using assms
  by (auto simp: at_block_def wrap_rep_def SkipEmptyDataBlocksForward.simps [of _ _ _ t] SkipEmptyDataBlocksBackward.simps [of _ _ _ t])

lemma Skip_end:
  assumes t: "at_block ok blk irep drep t ixs None q" and ixs: "separated cmp good blk ixs"
  shows "\<exists>t'. SkipEmptyDataBlocksForward iops dops block_function t = Some t' \<and> two_rep cmp good ok blk irep drep t' (flat blk ixs) None"
    "\<exists>t'. SkipEmptyDataBlocksBackward iops dops block_function t = Some t' \<and> two_rep cmp good ok blk irep drep t' (flat blk ixs) None"
proof -
  have "iw_iter (data_iter t) = None" "\<not> iw_valid (index_iter t)" using t by (simp_all add: at_block_def wrap_rep_def)
  then show
    "\<exists>t'. SkipEmptyDataBlocksForward iops dops block_function t = Some t' \<and> two_rep cmp good ok blk irep drep t' (flat blk ixs) None"
    "\<exists>t'. SkipEmptyDataBlocksBackward iops dops block_function t = Some t' \<and> two_rep cmp good ok blk irep drep t' (flat blk ixs) None"
    using SetDataIterator_None [OF at_block_between [OF t]] ixs
    by (auto simp: SkipEmptyDataBlocksForward.simps [of _ _ _ t] SkipEmptyDataBlocksBackward.simps [of _ _ _ t] two_rep_def)
qed

lemma two_rep_at:
  "at_block ok blk irep drep t ixs (Some i) (Some q) \<Longrightarrow> separated cmp good blk ixs \<Longrightarrow>
    two_rep cmp good ok blk irep drep t (flat blk ixs) (Some (base blk ixs i + q))"
  by (auto simp: two_rep_def)

lemma at_block_Some: "at_block ok blk irep drep t ixs (Some i) q \<Longrightarrow> i < length ixs"
  using index.Wrapper_value_rep by (auto simp: at_block_def)

lemma at_block_entry:
  "at_block ok blk irep drep t ixs (Some i) (Some q) \<Longrightarrow> q < length (blk (snd (ixs ! i)))"
  using data.Wrapper_value_rep by (auto simp: at_block_def)

text \<open>Skipping forward ends at the first entry of a later block, skipping backward at the last one of an earlier block.\<close>

lemma SkipForward_rep:
  assumes "at_block ok blk irep drep t ixs (Some i) q" and ixs: "separated cmp good blk ixs"
  shows "\<exists>t'. SkipEmptyDataBlocksForward iops dops block_function t = Some t' \<and>
    two_rep cmp good ok blk irep drep t' (flat blk ixs)
      (case q of Some q \<Rightarrow> Some (base blk ixs i + q) | None \<Rightarrow> entry_pos (flat blk ixs) (base blk ixs (Suc i)))"
  using assms(1)
proof (induction "length ixs - i" arbitrary: t i q rule: less_induct)
  case less
  note t = less.prems and i = at_block_Some [OF less.prems]
  show ?case
  proof (cases q)
    case (Some q')
    then show ?thesis using t Skip_stop(1) two_rep_at [OF _ ixs] by auto
  next
    case None
    have stop: "\<not> iw_valid (data_iter t)" "iw_valid (index_iter t)" using t None by (simp_all add: at_block_def wrap_rep_def)
    obtain t' where turn: "Option.bind (move_index iops (it_Next iops) t) (\<lambda>t. Option.bind (InitDataBlock iops dops block_function t) (on_data dops (it_SeekToFirst dops))) = Some t'"
      and t': "at_block ok blk irep drep t' ixs (entry_pos ixs (Suc i)) (case entry_pos ixs (Suc i) of None \<Rightarrow> None | Some i \<Rightarrow> entry_pos (blk (snd (ixs ! i))) 0)"
      using turn_rep [OF at_block_between [OF t], of "it_Next iops" "entry_pos ixs (Suc i)" "it_SeekToFirst dops" "\<lambda>es. entry_pos es 0"]
        index.step data.to_first by blast
    have skip: "SkipEmptyDataBlocksForward iops dops block_function t = SkipEmptyDataBlocksForward iops dops block_function t'"
      using stop arg_cong [OF turn, of "\<lambda>x. Option.bind x (SkipEmptyDataBlocksForward iops dops block_function)"]
      by (simp add: SkipEmptyDataBlocksForward.simps [of _ _ _ t] bind3)
    show ?thesis
    proof (cases "Suc i < length ixs")
      case True
      then have at: "at_block ok blk irep drep t' ixs (Some (Suc i)) (entry_pos (blk (snd (ixs ! Suc i))) 0)" using t' by (simp add: entry_pos_def)
      show ?thesis
        using less.hyps [OF _ at] i skip None True flat_nth(1) [OF True, of 0 blk]
        by (cases "blk (snd (ixs ! Suc i)) = []") (auto simp: entry_pos_def base_Suc [OF True])
    next
      case False
      then show ?thesis using t' skip None Skip_end(1) [OF _ ixs] base_length [of ixs "Suc i" blk] by (simp add: entry_pos_def)
    qed
  qed
qed

lemma SkipBackward_rep:
  assumes "at_block ok blk irep drep t ixs (Some i) q" and ixs: "separated cmp good blk ixs"
  shows "\<exists>t'. SkipEmptyDataBlocksBackward iops dops block_function t = Some t' \<and>
    two_rep cmp good ok blk irep drep t' (flat blk ixs)
      (case q of Some q \<Rightarrow> Some (base blk ixs i + q) | None \<Rightarrow> if base blk ixs i = 0 then None else Some (base blk ixs i - 1))"
  using assms(1)
proof (induction i arbitrary: t q rule: less_induct)
  case (less i)
  note t = less.prems and i = at_block_Some [OF less.prems]
  show ?case
  proof (cases q)
    case (Some q')
    then show ?thesis using t Skip_stop(2) two_rep_at [OF _ ixs] by auto
  next
    case None
    let ?j = "if i = 0 then None else Some (i - 1)"
    have stop: "\<not> iw_valid (data_iter t)" "iw_valid (index_iter t)" using t None by (simp_all add: at_block_def wrap_rep_def)
    obtain t' where turn: "Option.bind (move_index iops (it_Prev iops) t) (\<lambda>t. Option.bind (InitDataBlock iops dops block_function t) (on_data dops (it_SeekToLast dops))) = Some t'"
      and t': "at_block ok blk irep drep t' ixs ?j (case ?j of None \<Rightarrow> None | Some i \<Rightarrow> last_pos (blk (snd (ixs ! i))))"
      using turn_rep [OF at_block_between [OF t], of "it_Prev iops" ?j "it_SeekToLast dops" last_pos] index.step_back data.to_last by blast
    have skip: "SkipEmptyDataBlocksBackward iops dops block_function t = SkipEmptyDataBlocksBackward iops dops block_function t'"
      using stop arg_cong [OF turn, of "\<lambda>x. Option.bind x (SkipEmptyDataBlocksBackward iops dops block_function)"]
      by (simp add: SkipEmptyDataBlocksBackward.simps [of _ _ _ t] bind3)
    show ?thesis
    proof (cases i)
      case 0
      then show ?thesis using t' skip None Skip_end(2) [OF _ ixs] by simp
    next
      case (Suc k)
      then have at: "at_block ok blk irep drep t' ixs (Some k) (last_pos (blk (snd (ixs ! k))))" using t' by simp
      show ?thesis
        using less.IH [OF _ at] i skip None Suc
        by (cases "blk (snd (ixs ! k))") (auto simp: last_pos_def base_Suc)
    qed
  qed
qed

text \<open>The position in the concatenation that skipping reaches from position \<open>q\<close> of block \<open>j\<close>.\<close>

definition forward_pos :: "kv list \<Rightarrow> nat option \<Rightarrow> nat option \<Rightarrow> nat option" where
  "forward_pos ixs j q =
     (case j of None \<Rightarrow> None
      | Some i \<Rightarrow> (case q of Some q \<Rightarrow> Some (base blk ixs i + q) | None \<Rightarrow> entry_pos (flat blk ixs) (base blk ixs (Suc i))))"

definition backward_pos :: "kv list \<Rightarrow> nat option \<Rightarrow> nat option \<Rightarrow> nat option" where
  "backward_pos ixs j q =
     (case j of None \<Rightarrow> None
      | Some i \<Rightarrow> (case q of Some q \<Rightarrow> Some (base blk ixs i + q) | None \<Rightarrow> if base blk ixs i = 0 then None else Some (base blk ixs i - 1)))"

lemma Skip_rep:
  assumes "at_block ok blk irep drep t ixs j q" "separated cmp good blk ixs"
  shows "\<exists>t'. SkipEmptyDataBlocksForward iops dops block_function t = Some t' \<and>
      two_rep cmp good ok blk irep drep t' (flat blk ixs) (forward_pos ixs j q)"
    "\<exists>t'. SkipEmptyDataBlocksBackward iops dops block_function t = Some t' \<and>
      two_rep cmp good ok blk irep drep t' (flat blk ixs) (backward_pos ixs j q)"
  using assms Skip_end SkipForward_rep SkipBackward_rep by (cases j; simp add: forward_pos_def backward_pos_def)+

lemma forward_pos_entry:
  "i < length ixs \<Longrightarrow> n \<le> length (blk (snd (ixs ! i))) \<Longrightarrow>
    forward_pos ixs (Some i) (entry_pos (blk (snd (ixs ! i))) n) = entry_pos (flat blk ixs) (base blk ixs i + n)"
  using flat_nth(1) [of i ixs n blk] by (auto simp: forward_pos_def entry_pos_def base_Suc)

lemma backward_pos_last:
  "i < length ixs \<Longrightarrow> backward_pos ixs (Some i) (last_pos (blk (snd (ixs ! i)))) = (if base blk ixs (Suc i) = 0 then None else Some (base blk ixs (Suc i) - 1))"
  by (cases "blk (snd (ixs ! i))") (auto simp: backward_pos_def last_pos_def base_Suc)

text \<open>\<open>Seek\<close> in the index and then in the block is \<open>Seek\<close> in the concatenation.\<close>

lemma seek_pos_Cons: "seek_pos cmp (e # es) target = (if cmp (fst e) target < 0 then Suc (seek_pos cmp es target) else 0)"
  by (simp add: seek_pos_def)

lemma seek_pos_append:
  "seek_pos cmp (xs @ ys) target = (if seek_pos cmp xs target < length xs then seek_pos cmp xs target else length xs + seek_pos cmp ys target)"
  by (induction xs) (auto simp: seek_pos_Cons seek_pos_def)

lemma separated_good: "separated cmp good blk ixs \<Longrightarrow> e \<in> set (flat blk ixs) \<Longrightarrow> good (fst e)"
  by (induction ixs) auto

lemma seek_flat:
  assumes "separated cmp good blk ixs" and target: "good target"
  shows "seek_pos cmp (flat blk ixs) target =
    (let j = seek_pos cmp ixs target in base blk ixs j + (if j < length ixs then seek_pos cmp (blk (snd (ixs ! j))) target else 0))"
  using assms(1)
proof (induction ixs)
  case Nil
  show ?case by (simp add: seek_pos_def)
next
  case (Cons ix ixs)
  show ?case
  proof (cases "cmp (fst ix) target < 0")
    case True
    have "cmp (fst e) target < 0" if "e \<in> set (blk (snd ix))" for e
      using comparator.le_less_trans [OF order, of "fst e" "fst ix" target] True that Cons.prems target by auto
    then have "seek_pos cmp (blk (snd ix)) target = length (blk (snd ix))"
      unfolding seek_pos_def by (metis (no_types, lifting) takeWhile_eq_all_conv)
    then show ?thesis using Cons True by (simp add: seek_pos_append seek_pos_Cons Let_def)
  next
    case False
    have "seek_pos cmp (flat blk ixs) target = 0"
    proof (cases "flat blk ixs")
      case (Cons e es)
      then have e: "cmp (fst ix) (fst e) < 0" "good (fst e)" "good (fst ix)"
        using Cons.prems separated_good [of ixs e] by auto
      have "\<not> cmp (fst e) target < 0"
        using comparator.le_trans [OF order, of target "fst ix" "fst e"] comparator.not_less [OF order] False e target by auto
      then show ?thesis using Cons by (simp add: seek_pos_Cons)
    qed (simp add: seek_pos_def)
    then show ?thesis using False seek_pos_le [of cmp "blk (snd ix)" target] by (auto simp: seek_pos_append seek_pos_Cons)
  qed
qed

lemma two_rep_between:
  "two_rep cmp good ok blk irep drep t es pos \<Longrightarrow> \<exists>ixs j. es = flat blk ixs \<and> separated cmp good blk ixs \<and> between ok blk irep drep t ixs j"
  using at_block_between unfolding two_rep_def by (cases pos) fastforce+

text \<open>The two-level iterator keeps the contract of an iterator over the entries of all blocks.\<close>

lemma two_level_iterator: "iterator (two_level_ops iops dops block_function) (two_rep cmp good ok blk irep drep) cmp good"
proof (unfold_locales, goal_cases)
  case (1 t es)
  then show ?case by (auto simp: two_rep_def between_def wrap_rep_def two_level_ops_def)
next
  case (2 t es p)
  then obtain ixs i q where t: "es = flat blk ixs" "p = base blk ixs i + q" "at_block ok blk irep drep t ixs (Some i) (Some q)"
    by (auto simp: two_rep_def)
  then have "wrap_rep drep (data_iter t) (blk (snd (ixs ! i))) (Some q)" by (simp add: at_block_def)
  then show ?case
    using t flat_nth [of i ixs q blk] at_block_Some [OF t(3)] at_block_entry [OF t(3)] data.Wrapper_value_rep data.Wrapper_key_rep
    by (simp add: two_level_ops_def wrap_rep_def)
next
  case (3 t es pos)
  then have "TwoLevel_status iops dops t = Status_OK"
    using two_rep_between [OF 3] index.Wrapper_status_rep data.Wrapper_status_rep
    by (fastforce simp: between_def TwoLevel_status_def Status_ok_def Status_OK_def Wrapper_status_def)
  then show ?case by (simp add: two_level_ops_def)
next
  case (4 t es pos)
  then obtain ixs j where ixs: "es = flat blk ixs" "separated cmp good blk ixs" and t: "between ok blk irep drep t ixs j"
    using two_rep_between by blast
  obtain t' where "Option.bind (move_index iops (it_SeekToFirst iops) t)
        (\<lambda>t. Option.bind (InitDataBlock iops dops block_function t) (on_data dops (it_SeekToFirst dops))) = Some t'"
    and t': "at_block ok blk irep drep t' ixs (entry_pos ixs 0) (case entry_pos ixs 0 of None \<Rightarrow> None | Some i \<Rightarrow> entry_pos (blk (snd (ixs ! i))) 0)"
    using turn_rep [OF t, of "it_SeekToFirst iops" "entry_pos ixs 0" "it_SeekToFirst dops" "\<lambda>es. entry_pos es 0"]
      index.to_first data.to_first by blast
  then have "TwoLevel_SeekToFirst iops dops block_function t = SkipEmptyDataBlocksForward iops dops block_function t'"
    unfolding TwoLevel_SeekToFirst_def bind3 [symmetric] by simp
  moreover have "forward_pos ixs (entry_pos ixs 0) (case entry_pos ixs 0 of None \<Rightarrow> None | Some i \<Rightarrow> entry_pos (blk (snd (ixs ! i))) 0) = entry_pos es 0"
    using forward_pos_entry [of 0 ixs 0] ixs(1) by (cases ixs) (simp_all add: entry_pos_def forward_pos_def)
  ultimately show ?case using Skip_rep(1) [OF t' ixs(2)] ixs(1) by (simp add: two_level_ops_def)
next
  case (5 t es pos)
  then obtain ixs j where ixs: "es = flat blk ixs" "separated cmp good blk ixs" and t: "between ok blk irep drep t ixs j"
    using two_rep_between by blast
  obtain t' where "Option.bind (move_index iops (it_SeekToLast iops) t)
        (\<lambda>t. Option.bind (InitDataBlock iops dops block_function t) (on_data dops (it_SeekToLast dops))) = Some t'"
    and t': "at_block ok blk irep drep t' ixs (last_pos ixs) (case last_pos ixs of None \<Rightarrow> None | Some i \<Rightarrow> last_pos (blk (snd (ixs ! i))))"
    using turn_rep [OF t, of "it_SeekToLast iops" "last_pos ixs" "it_SeekToLast dops" last_pos] index.to_last data.to_last by blast
  then have "TwoLevel_SeekToLast iops dops block_function t = SkipEmptyDataBlocksBackward iops dops block_function t'"
    unfolding TwoLevel_SeekToLast_def bind3 [symmetric] by simp
  moreover have "backward_pos ixs (last_pos ixs) (case last_pos ixs of None \<Rightarrow> None | Some i \<Rightarrow> last_pos (blk (snd (ixs ! i)))) = last_pos es"
    using backward_pos_last [of "length ixs - 1" ixs] ixs(1) base_length [of ixs "length ixs" blk]
    by (cases "ixs = []") (simp_all add: last_pos_def backward_pos_def)
  ultimately show ?case using Skip_rep(2) [OF t' ixs(2)] ixs(1) by (simp add: two_level_ops_def)
next
  case (6 t es pos target)
  then obtain ixs j where ixs: "es = flat blk ixs" "separated cmp good blk ixs" and t: "between ok blk irep drep t ixs j"
    using two_rep_between by blast
  let ?j = "seek_pos cmp ixs target"
  obtain t' where "Option.bind (move_index iops (it_Seek iops target) t)
        (\<lambda>t. Option.bind (InitDataBlock iops dops block_function t) (on_data dops (it_Seek dops target))) = Some t'"
    and t': "at_block ok blk irep drep t' ixs (entry_pos ixs ?j)
      (case entry_pos ixs ?j of None \<Rightarrow> None | Some i \<Rightarrow> entry_pos (blk (snd (ixs ! i))) (seek_pos cmp (blk (snd (ixs ! i))) target))"
    using turn_rep [OF t, of "it_Seek iops target" "entry_pos ixs ?j" "it_Seek dops target" "\<lambda>es. entry_pos es (seek_pos cmp es target)"]
      index.to_target data.to_target 6(2) by blast
  then have seek: "TwoLevel_Seek iops dops block_function target t = SkipEmptyDataBlocksForward iops dops block_function t'"
    unfolding TwoLevel_Seek_def bind3 [symmetric] by simp
  let ?q = "\<lambda>i. entry_pos (blk (snd (ixs ! i))) (seek_pos cmp (blk (snd (ixs ! i))) target)"
  have "forward_pos ixs (entry_pos ixs ?j) (case entry_pos ixs ?j of None \<Rightarrow> None | Some i \<Rightarrow> ?q i) = entry_pos es (seek_pos cmp es target)"
  proof (cases "?j < length ixs")
    case True
    then show ?thesis
      using forward_pos_entry [OF True seek_pos_le] seek_flat [OF ixs(2) 6(2)] ixs(1) by (simp add: entry_pos_def [of ixs] Let_def)
  next
    case False
    then show ?thesis
      using seek_flat [OF ixs(2) 6(2)] base_length [of ixs ?j blk] ixs(1) by (simp add: entry_pos_def forward_pos_def Let_def)
  qed
  then show ?case using Skip_rep(1) [OF t' ixs(2)] seek ixs(1) by (simp add: two_level_ops_def)
next
  case (7 t es p)
  then obtain ixs i q where ixs: "es = flat blk ixs" "separated cmp good blk ixs" and p: "p = base blk ixs i + q"
    and t: "at_block ok blk irep drep t ixs (Some i) (Some q)" by (auto simp: two_rep_def)
  obtain t' where t': "on_data dops (it_Next dops) t = Some t'"
    "at_block ok blk irep drep t' ixs (Some i) (entry_pos (blk (snd (ixs ! i))) (Suc q))"
    using on_data_rep [OF t, of "it_Next dops" "entry_pos (blk (snd (ixs ! i))) (Suc q)"] data.step by blast
  have "iw_valid (data_iter t)" using t by (simp add: at_block_def wrap_rep_def)
  then show ?case
    using t'(1) ixs(1) p Skip_rep(1) [OF t'(2) ixs(2)] forward_pos_entry [OF at_block_Some [OF t] Suc_leI [OF at_block_entry [OF t]]]
    by (simp add: two_level_ops_def TwoLevel_Next_def)
next
  case (8 t es p)
  then obtain ixs i q where ixs: "es = flat blk ixs" "separated cmp good blk ixs" and p: "p = base blk ixs i + q"
    and t: "at_block ok blk irep drep t ixs (Some i) (Some q)" by (auto simp: two_rep_def)
  obtain t' where t': "on_data dops (it_Prev dops) t = Some t'"
    "at_block ok blk irep drep t' ixs (Some i) (if q = 0 then None else Some (q - 1))"
    using on_data_rep [OF t, of "it_Prev dops" "if q = 0 then None else Some (q - 1)"] data.step_back by blast
  have "iw_valid (data_iter t)" using t by (simp add: at_block_def wrap_rep_def)
  then show ?case
    using t' ixs p Skip_rep(2) [OF t'(2) ixs(2)] by (cases q) (auto simp: two_level_ops_def TwoLevel_Prev_def backward_pos_def)
qed

end

end
