(* ===== verification/LdbTable.thy ===== *)
theory LdbTable
  imports LdbFilterBlock LdbTwoLevel
begin

unbundle bit_operations_syntax

text \<open>
  Table files: \<open>table/table_builder.cc\<close> writes them, \<open>table/table.cc\<close> reads them.

  A comparator and a filter policy are records of their functions.  Operations return \<open>None\<close>
  where an assertion fails, a null pointer is dereferenced or memory outside a block is read.  The Snappy
  functions of the port are the parameters \<open>compress\<close> and \<open>uncompress\<close>.  The block cache is what its \<open>Lookup\<close>
  finds when a block is asked for; what the table inserts is part of the result.
\<close>

section \<open>Options\<close>

record Comparator =
  cmp_id :: nat
  Compare :: "slice \<Rightarrow> slice \<Rightarrow> int"
  FindShortestSeparator :: "slice \<Rightarrow> slice \<Rightarrow> slice"
  FindShortSuccessor :: "slice \<Rightarrow> slice"

record FilterPolicy =
  policy_Name :: slice
  policy_CreateFilter :: "slice list \<Rightarrow> slice \<Rightarrow> slice"
  policy_KeyMayMatch :: "slice \<Rightarrow> slice \<Rightarrow> bool"

record Options =
  opt_comparator :: Comparator
  paranoid_checks :: bool
  opt_block_size :: nat
  block_restart_interval :: nat
  compression :: u8
  opt_filter_policy :: "FilterPolicy option"

record ReadOptions =
  verify_checksums :: bool
  fill_cache :: bool

text \<open>The comparators and filter policies of the library, and the default options; the build has no Snappy.\<close>

definition BytewiseComparator :: Comparator where
  "BytewiseComparator =
     \<lparr>cmp_id = 0, Compare = BytewiseCompare, FindShortestSeparator = BytewiseShortestSeparator, FindShortSuccessor = BytewiseShortSuccessor\<rparr>"

definition InternalKeyComparator :: "Comparator \<Rightarrow> Comparator" where
  "InternalKeyComparator c =
     \<lparr>cmp_id = Suc (cmp_id c), Compare = InternalKeyCompare (Compare c),
      FindShortestSeparator = InternalShortestSeparator (Compare c) (FindShortestSeparator c),
      FindShortSuccessor = InternalShortSuccessor (Compare c) (FindShortSuccessor c)\<rparr>"

definition NewBloomFilterPolicy :: "u64 \<Rightarrow> nat \<Rightarrow> FilterPolicy" where
  "NewBloomFilterPolicy bpk k =
     \<lparr>policy_Name = str ''leveldb.BuiltinBloomFilter2'', policy_CreateFilter = CreateFilter (BloomFilterPolicy_new bpk k),
      policy_KeyMayMatch = KeyMayMatch\<rparr>"

definition InternalFilterPolicy :: "FilterPolicy \<Rightarrow> FilterPolicy" where
  "InternalFilterPolicy p =
     \<lparr>policy_Name = policy_Name p, policy_CreateFilter = InternalCreateFilter (policy_CreateFilter p),
      policy_KeyMayMatch = InternalKeyMayMatch (policy_KeyMayMatch p)\<rparr>"

definition Options_new :: Options where
  "Options_new =
     \<lparr>opt_comparator = BytewiseComparator, paranoid_checks = False, opt_block_size = 4096, block_restart_interval = 16,
      compression = kSnappyCompression, opt_filter_policy = None\<rparr>"

definition Snappy_Compress :: "slice \<Rightarrow> slice option" where
  "Snappy_Compress input = None"

definition Snappy_Uncompress :: "slice \<Rightarrow> slice option" where
  "Snappy_Uncompress input = None"

section \<open>The builder\<close>

text \<open>The filter block keeps the policy it was created with.\<close>

record TableBuilder =
  tb_options :: Options
  index_block_options :: Options
  tb_file :: WritableFile
  tb_offset :: u64
  tb_status :: status
  data_block :: BlockBuilder
  index_block :: BlockBuilder
  last_key :: slice
  num_entries :: nat
  closed :: bool
  filter_block :: "(FilterPolicy \<times> FilterBlockBuilder) option"
  pending_index_entry :: bool
  pending_handle :: BlockHandle

definition TableBuilder_ok :: "TableBuilder \<Rightarrow> bool" where
  "TableBuilder_ok r = Status_ok (tb_status r)"

definition filter_StartBlock :: "u64 \<Rightarrow> TableBuilder \<Rightarrow> TableBuilder option" where
  "filter_StartBlock off r =
     (case filter_block r of
        None \<Rightarrow> Some r
      | Some (fp, fb) \<Rightarrow> map_option (\<lambda>fb. r\<lparr>filter_block := Some (fp, fb)\<rparr>) (StartBlock (policy_CreateFilter fp) off fb))"

definition TableBuilder_new :: "Options \<Rightarrow> WritableFile \<Rightarrow> TableBuilder option" where
  "TableBuilder_new options file =
     (case (BlockBuilder_new (block_restart_interval options), BlockBuilder_new (block_restart_interval options)) of
        (Some data, Some index) \<Rightarrow>
          filter_StartBlock 0
            \<lparr>tb_options = options, index_block_options = options\<lparr>block_restart_interval := 1\<rparr>, tb_file = file, tb_offset = 0,
             tb_status = Status_OK, data_block = data, index_block = index, last_key = [], num_entries = 0, closed = False,
             filter_block = map_option (\<lambda>fp. (fp, FilterBlockBuilder_new)) (opt_filter_policy options),
             pending_index_entry = False, pending_handle = BlockHandle_new\<rparr>
      | _ \<Rightarrow> None)"

definition ChangeOptions :: "Options \<Rightarrow> TableBuilder \<Rightarrow> status \<times> TableBuilder" where
  "ChangeOptions options r =
     (if cmp_id (opt_comparator options) \<noteq> cmp_id (opt_comparator (tb_options r))
      then (InvalidArgument (str ''changing comparator while building table'') [], r)
      else (Status_OK, r\<lparr>tb_options := options, index_block_options := options\<lparr>block_restart_interval := 1\<rparr>\<rparr>))"

definition WriteRawBlock :: "slice \<Rightarrow> u8 \<Rightarrow> TableBuilder \<Rightarrow> BlockHandle \<times> TableBuilder" where
  "WriteRawBlock block_contents type r =
     (let handle = \<lparr>bh_offset = tb_offset r, bh_size = of_nat (length block_contents)\<rparr>;
          (s, f) = WritableFile_Append block_contents (tb_file r);
          r = r\<lparr>tb_file := f, tb_status := s\<rparr>
      in (handle,
          if Status_ok s then
            let crc = Value 0 block_contents;
                crc = Extend 0 crc [type];
                trailer = type # EncodeFixed32 (Mask crc);
                (s, f) = WritableFile_Append trailer (tb_file r);
                r = r\<lparr>tb_file := f, tb_status := s\<rparr>
            in if Status_ok s then r\<lparr>tb_offset := tb_offset r + of_nat (length block_contents) + of_nat kBlockTrailerSize\<rparr> else r
          else r))"

text \<open>The choice of the stored form; an unknown compression type leaves the contents empty.\<close>

definition compress_block :: "(slice \<Rightarrow> slice option) \<Rightarrow> u8 \<Rightarrow> slice \<Rightarrow> slice \<times> u8" where
  "compress_block compress type raw =
     (if type = kNoCompression then (raw, type)
      else if type = kSnappyCompression
      then (case compress raw of
              Some compressed \<Rightarrow> if length compressed < length raw - length raw div 8 then (compressed, type) else (raw, kNoCompression)
            | None \<Rightarrow> (raw, kNoCompression))
      else ([], type))"

definition WriteBlock :: "(slice \<Rightarrow> slice option) \<Rightarrow> BlockBuilder \<Rightarrow> TableBuilder \<Rightarrow> (BlockHandle \<times> BlockBuilder \<times> TableBuilder) option" where
  "WriteBlock compress block r =
     (if \<not> TableBuilder_ok r then None
      else
        let (raw, block) = BlockBuilder_Finish block;
            (block_contents, type) = compress_block compress (compression (tb_options r)) raw;
            (handle, r) = WriteRawBlock block_contents type r
        in Some (handle, BlockBuilder_Reset block, r))"

definition TableBuilder_Flush :: "(slice \<Rightarrow> slice option) \<Rightarrow> TableBuilder \<Rightarrow> TableBuilder option" where
  "TableBuilder_Flush compress r =
     (if closed r then None
      else if \<not> TableBuilder_ok r then Some r
      else if bb_buffer (data_block r) = [] then Some r
      else if pending_index_entry r then None
      else
        case WriteBlock compress (data_block r) r of
          None \<Rightarrow> None
        | Some (handle, block, r) \<Rightarrow>
            let r = r\<lparr>data_block := block, pending_handle := handle\<rparr>;
                r = (if TableBuilder_ok r then r\<lparr>pending_index_entry := True, tb_status := WritableFile_Flush (tb_file r)\<rparr> else r)
            in filter_StartBlock (tb_offset r) r)"

text \<open>Adding the entry of the last block to the index, under the key \<open>last_key\<close>.\<close>

definition add_index_entry :: "TableBuilder \<Rightarrow> TableBuilder option" where
  "add_index_entry r =
     (case BlockHandle_EncodeTo (pending_handle r) [] of
        None \<Rightarrow> None
      | Some handle_encoding \<Rightarrow>
          map_option (\<lambda>b. r\<lparr>index_block := b, pending_index_entry := False\<rparr>)
            (BlockBuilder_Add (Compare (opt_comparator (index_block_options r))) (block_restart_interval (index_block_options r))
               (last_key r) handle_encoding (index_block r)))"

definition TableBuilder_Add :: "(slice \<Rightarrow> slice option) \<Rightarrow> slice \<Rightarrow> slice \<Rightarrow> TableBuilder \<Rightarrow> TableBuilder option" where
  "TableBuilder_Add compress key value r =
     (if closed r then None
      else if \<not> TableBuilder_ok r then Some r
      else if 0 < num_entries r \<and> \<not> Compare (opt_comparator (tb_options r)) key (last_key r) > 0 then None
      else
        Option.bind
          (if pending_index_entry r then
             if bb_buffer (data_block r) \<noteq> [] then None
             else add_index_entry (r\<lparr>last_key := FindShortestSeparator (opt_comparator (tb_options r)) (last_key r) key\<rparr>)
           else Some r)
          (\<lambda>r. let r = r\<lparr>filter_block := map_option (\<lambda>(fp, fb). (fp, FilterBlock_AddKey key fb)) (filter_block r),
                        last_key := key, num_entries := num_entries r + 1\<rparr>
               in case BlockBuilder_Add (Compare (opt_comparator (tb_options r))) (block_restart_interval (tb_options r)) key value (data_block r) of
                    None \<Rightarrow> None
                  | Some b \<Rightarrow>
                      let r = r\<lparr>data_block := b\<rparr>
                      in if CurrentSizeEstimate b \<ge> opt_block_size (tb_options r) then TableBuilder_Flush compress r else Some r))"

text \<open>The steps of \<open>Finish\<close> after the last data block was flushed.\<close>

definition write_filter :: "TableBuilder \<Rightarrow> BlockHandle \<times> TableBuilder" where
  "write_filter r =
     (case filter_block r of
        Some (fp, fb) \<Rightarrow>
          if TableBuilder_ok r
          then let (bytes, fb) = FilterBlock_Finish (policy_CreateFilter fp) fb
               in WriteRawBlock bytes kNoCompression (r\<lparr>filter_block := Some (fp, fb)\<rparr>)
          else (BlockHandle_new, r)
      | None \<Rightarrow> (BlockHandle_new, r))"

definition meta_index :: "BlockHandle \<Rightarrow> TableBuilder \<Rightarrow> BlockBuilder option" where
  "meta_index filter_handle r =
     Option.bind (BlockBuilder_new (block_restart_interval (tb_options r))) (\<lambda>b.
       case filter_block r of
         None \<Rightarrow> Some b
       | Some _ \<Rightarrow>
           (case (opt_filter_policy (tb_options r), BlockHandle_EncodeTo filter_handle []) of
              (Some fp, Some handle_encoding) \<Rightarrow>
                BlockBuilder_Add (Compare (opt_comparator (tb_options r))) (block_restart_interval (tb_options r))
                  (str ''filter.'' @ policy_Name fp) handle_encoding b
            | _ \<Rightarrow> None))"

definition write_metaindex :: "(slice \<Rightarrow> slice option) \<Rightarrow> BlockHandle \<Rightarrow> TableBuilder \<Rightarrow> (BlockHandle \<times> TableBuilder) option" where
  "write_metaindex compress filter_handle r =
     (if TableBuilder_ok r
      then Option.bind (meta_index filter_handle r) (\<lambda>b. map_option (\<lambda>(h, _, r). (h, r)) (WriteBlock compress b r))
      else Some (BlockHandle_new, r))"

definition write_index :: "(slice \<Rightarrow> slice option) \<Rightarrow> TableBuilder \<Rightarrow> (BlockHandle \<times> TableBuilder) option" where
  "write_index compress r =
     (if TableBuilder_ok r
      then Option.bind
             (if pending_index_entry r
              then add_index_entry (r\<lparr>last_key := FindShortSuccessor (opt_comparator (tb_options r)) (last_key r)\<rparr>) else Some r)
             (\<lambda>r. map_option (\<lambda>(h, b, r). (h, r\<lparr>index_block := b\<rparr>)) (WriteBlock compress (index_block r) r))
      else Some (BlockHandle_new, r))"

definition write_footer :: "BlockHandle \<Rightarrow> BlockHandle \<Rightarrow> TableBuilder \<Rightarrow> TableBuilder option" where
  "write_footer metaindex index r =
     (if TableBuilder_ok r
      then map_option
             (\<lambda>footer_encoding.
                let (s, f) = WritableFile_Append footer_encoding (tb_file r); r = r\<lparr>tb_file := f, tb_status := s\<rparr>
                in if Status_ok s then r\<lparr>tb_offset := tb_offset r + of_nat (length footer_encoding)\<rparr> else r)
             (Footer_EncodeTo \<lparr>metaindex_handle = metaindex, index_handle = index\<rparr> [])
      else Some r)"

definition TableBuilder_Finish :: "(slice \<Rightarrow> slice option) \<Rightarrow> TableBuilder \<Rightarrow> TableBuilder option" where
  "TableBuilder_Finish compress r =
     Option.bind (TableBuilder_Flush compress r) (\<lambda>r.
       if closed r then None
       else
         let (filter_handle, r) = write_filter (r\<lparr>closed := True\<rparr>)
         in Option.bind (write_metaindex compress filter_handle r) (\<lambda>(metaindex, r).
            Option.bind (write_index compress r) (\<lambda>(index, r). write_footer metaindex index r)))"

definition TableBuilder_Abandon :: "TableBuilder \<Rightarrow> TableBuilder option" where
  "TableBuilder_Abandon r = (if closed r then None else Some (r\<lparr>closed := True\<rparr>))"

definition FileSize :: "TableBuilder \<Rightarrow> u64" where
  "FileSize r = tb_offset r"

section \<open>The reader\<close>

record Table =
  tab_options :: Options
  tab_file :: RandomAccessFile
  cache_id :: u64
  tab_filter :: "(FilterPolicy \<times> FilterBlockReader) option"
  tab_metaindex_handle :: BlockHandle
  tab_index_block :: Block

definition ReadFilter :: "(slice \<Rightarrow> slice option) \<Rightarrow> slice \<Rightarrow> FilterPolicy \<Rightarrow> Table \<Rightarrow> Table option" where
  "ReadFilter uncompress filter_handle_value fp t =
     (let (s, filter_handle, v) = BlockHandle_DecodeFrom BlockHandle_new filter_handle_value in
      if \<not> Status_ok s then Some t
      else
        map_option (\<lambda>(s, blk). if Status_ok s then t\<lparr>tab_filter := Some (fp, FilterBlockReader_new (bc_data blk))\<rparr> else t)
          (ReadBlock uncompress (tab_file t) (paranoid_checks (tab_options t)) filter_handle))"

definition ReadMeta :: "(slice \<Rightarrow> slice option) \<Rightarrow> Footer \<Rightarrow> Table \<Rightarrow> Table option" where
  "ReadMeta uncompress footer t =
     (case opt_filter_policy (tab_options t) of
        None \<Rightarrow> Some t
      | Some fp \<Rightarrow>
          Option.bind (ReadBlock uncompress (tab_file t) (paranoid_checks (tab_options t)) (metaindex_handle footer)) (\<lambda>(s, contents).
            if \<not> Status_ok s then Some t
            else
              let key = str ''filter.'' @ policy_Name fp; ops = block_ops BytewiseCompare
              in Option.bind (Block_NewIterator (Block_new (bc_data contents))) (\<lambda>iter.
                 Option.bind (it_Seek ops key iter) (\<lambda>iter.
                   if it_Valid ops iter then
                     Option.bind (it_key ops iter) (\<lambda>k.
                       if Slice_eq k key then Option.bind (it_value ops iter) (\<lambda>v. ReadFilter uncompress v fp t) else Some t)
                   else Some t))))"

definition Table_Open :: "(slice \<Rightarrow> slice option) \<Rightarrow> u64 \<Rightarrow> Options \<Rightarrow> RandomAccessFile \<Rightarrow> u64 \<Rightarrow> (status \<times> Table option) option" where
  "Table_Open uncompress new_id options file sz =
     (if sz < of_nat kEncodedLength then Some (Corruption (str ''file is too short to be an sstable'') [], None)
      else
        Option.bind (RandomAccessFile_Read (sz - of_nat kEncodedLength) (of_nat kEncodedLength) file) (\<lambda>(s, footer_input, _).
          if \<not> Status_ok s then Some (s, None)
          else
            Option.bind (Footer_DecodeFrom \<lparr>metaindex_handle = BlockHandle_new, index_handle = BlockHandle_new\<rparr> footer_input) (\<lambda>(s, footer, _).
              if \<not> Status_ok s then Some (s, None)
              else
                Option.bind (ReadBlock uncompress file (paranoid_checks options) (index_handle footer)) (\<lambda>(s, contents).
                  if \<not> Status_ok s then Some (s, None)
                  else
                    map_option (\<lambda>t. (s, Some t))
                      (ReadMeta uncompress footer
                         \<lparr>tab_options = options, tab_file = file, cache_id = new_id, tab_filter = None,
                          tab_metaindex_handle = metaindex_handle footer, tab_index_block = Block_new (bc_data contents)\<rparr>)))))"

text \<open>
  \<open>BlockReader\<close>: the iterator over the block an index value names, and the block it puts into the cache.
  The cache is absent or the function \<open>Lookup\<close>.
\<close>

definition cache_key :: "Table \<Rightarrow> BlockHandle \<Rightarrow> slice" where
  "cache_key t handle = EncodeFixed64 (cache_id t) @ EncodeFixed64 (bh_offset handle)"

definition BlockReader ::
    "(slice \<Rightarrow> slice option) \<Rightarrow> (slice \<Rightarrow> Block option) option \<Rightarrow> Table \<Rightarrow> ReadOptions \<Rightarrow> slice \<Rightarrow>
      (block_iterator \<times> (slice \<times> Block) option) option" where
  "BlockReader uncompress block_cache t options index_value =
     (let (s, handle, input) = BlockHandle_DecodeFrom BlockHandle_new index_value in
      if \<not> Status_ok s then Some (EmptyIterator s, None)
      else
        let read =
              map_option (\<lambda>(s, contents). if Status_ok s then (s, Some (Block_new (bc_data contents)), cachable contents) else (s, None, False))
                (ReadBlock uncompress (tab_file t) (verify_checksums options) handle)
        in Option.bind
             (case block_cache of
                None \<Rightarrow> map_option (\<lambda>(s, blk, _). (s, blk, None)) read
              | Some Lookup \<Rightarrow>
                  (case Lookup (cache_key t handle) of
                     Some blk \<Rightarrow> Some (s, Some blk, None)
                   | None \<Rightarrow>
                       map_option
                         (\<lambda>(s, blk, can). (s, blk, if can \<and> fill_cache options then map_option (Pair (cache_key t handle)) blk else None))
                         read))
             (\<lambda>(s, blk, ins).
                case blk of
                  Some b \<Rightarrow> map_option (\<lambda>iter. (iter, ins)) (Block_NewIterator b)
                | None \<Rightarrow> Some (EmptyIterator s, None)))"

definition table_block ::
    "(slice \<Rightarrow> slice option) \<Rightarrow> (slice \<Rightarrow> Block option) option \<Rightarrow> Table \<Rightarrow> ReadOptions \<Rightarrow> slice \<Rightarrow> block_iterator option" where
  "table_block uncompress block_cache t options index_value = map_option fst (BlockReader uncompress block_cache t options index_value)"

definition Table_NewIterator :: "Table \<Rightarrow> (block_iterator, block_iterator) TwoLevelIterator option" where
  "Table_NewIterator t =
     Option.bind (Block_NewIterator (tab_index_block t)) (TwoLevelIterator_new (block_ops (Compare (opt_comparator (tab_options t)))))"

definition table_ops ::
    "(slice \<Rightarrow> slice option) \<Rightarrow> (slice \<Rightarrow> Block option) option \<Rightarrow> Table \<Rightarrow> ReadOptions \<Rightarrow> (block_iterator, block_iterator) TwoLevelIterator Iterator" where
  "table_ops uncompress block_cache t options =
     two_level_ops (block_ops (Compare (opt_comparator (tab_options t)))) (block_ops (Compare (opt_comparator (tab_options t))))
       (table_block uncompress block_cache t options)"

text \<open>\<open>InternalGet\<close> returns the pair handed to \<open>saver\<close>, if any.\<close>

definition InternalGet ::
    "(slice \<Rightarrow> slice option) \<Rightarrow> (slice \<Rightarrow> Block option) option \<Rightarrow> Table \<Rightarrow> ReadOptions \<Rightarrow> slice \<Rightarrow>
      (status \<times> kv option \<times> (slice \<times> Block) option) option" where
  "InternalGet uncompress block_cache t options k =
     (let ops = block_ops (Compare (opt_comparator (tab_options t))) in
      Option.bind (Block_NewIterator (tab_index_block t)) (\<lambda>iiter.
      Option.bind (it_Seek ops k iiter) (\<lambda>iiter.
      map_option (\<lambda>(s, saved, ins). (if Status_ok s then it_status ops iiter else s, saved, ins))
        (if it_Valid ops iiter then
           Option.bind (it_value ops iiter) (\<lambda>handle_value.
           Option.bind
             (case tab_filter t of
                None \<Rightarrow> Some True
              | Some (fp, reader) \<Rightarrow>
                  let (s, handle, _) = BlockHandle_DecodeFrom BlockHandle_new handle_value
                  in if Status_ok s then FilterBlock_KeyMayMatch (policy_KeyMayMatch fp) reader (bh_offset handle) k else Some True)
             (\<lambda>may.
                if \<not> may then Some (Status_OK, None, None)
                else
                  Option.bind (BlockReader uncompress block_cache t options handle_value) (\<lambda>(block_iter, ins).
                  Option.bind (it_Seek ops k block_iter) (\<lambda>block_iter.
                    if it_Valid ops block_iter then
                      (case (it_key ops block_iter, it_value ops block_iter) of
                         (Some key, Some value) \<Rightarrow> Some (it_status ops block_iter, Some (key, value), ins)
                       | _ \<Rightarrow> None)
                    else Some (it_status ops block_iter, None, ins)))))
         else Some (Status_OK, None, None)))))"

definition ApproximateOffsetOf :: "Table \<Rightarrow> slice \<Rightarrow> u64 option" where
  "ApproximateOffsetOf t key =
     (let ops = block_ops (Compare (opt_comparator (tab_options t))) in
      Option.bind (Block_NewIterator (tab_index_block t)) (\<lambda>index_iter.
      Option.bind (it_Seek ops key index_iter) (\<lambda>index_iter.
        if it_Valid ops index_iter then
          map_option
            (\<lambda>input. let (s, handle, _) = BlockHandle_DecodeFrom BlockHandle_new input
                     in if Status_ok s then bh_offset handle else bh_offset (tab_metaindex_handle t))
            (it_value ops index_iter)
        else Some (bh_offset (tab_metaindex_handle t)))))"

end
