(* ===== verification/LdbTableSpec.thy ===== *)
theory LdbTableSpec
  imports LdbTable
begin

unbundle bit_operations_syntax

text \<open>
  What a table file stands for.  A builder in a good state has written a list of blocks, each with the key
  that separates it from the next; the invariant \<open>tb_rep\<close> ties them to the bytes of the file, the index
  block, the filter block and the entries added so far.  A finished file, opened, is an iterator over
  these entries and answers lookups.
\<close>

section \<open>Stored blocks\<close>

definition bytes_at :: "slice \<Rightarrow> nat \<Rightarrow> slice \<Rightarrow> bool" where
  "bytes_at data off bs \<longleftrightarrow> off + length bs \<le> length data \<and> take (length bs) (drop off data) = bs"

lemma bytes_at_append: "bytes_at data off bs \<Longrightarrow> bytes_at (data @ xs) off bs"
  by (auto simp: bytes_at_def)

lemma bytes_at_end: "bytes_at (data @ bs) (length data) bs"
  by (simp add: bytes_at_def)

text \<open>The stored form \<open>c\<close> of type \<open>t\<close> of the bytes \<open>raw\<close>.\<close>

definition stored_as :: "(slice \<Rightarrow> slice option) \<Rightarrow> u8 \<Rightarrow> slice \<Rightarrow> slice \<Rightarrow> bool" where
  "stored_as uncompress t c raw \<longleftrightarrow> t = kNoCompression \<and> raw = c \<or> t = kSnappyCompression \<and> uncompress c = Some raw"

definition raw_at :: "(slice \<Rightarrow> slice option) \<Rightarrow> slice \<Rightarrow> BlockHandle \<Rightarrow> slice \<Rightarrow> bool" where
  "raw_at uncompress data h raw \<longleftrightarrow>
     (\<exists>t c. bytes_at data (unat (bh_offset h)) (stored_block t c) \<and> unat (bh_size h) = length c \<and> stored_as uncompress t c raw)"

definition block_at :: "(slice \<Rightarrow> slice option) \<Rightarrow> slice \<Rightarrow> BlockHandle \<Rightarrow> kv list \<Rightarrow> bool" where
  "block_at uncompress data h kvs \<longleftrightarrow>
     (\<exists>es rs. layout es rs \<and> map snd es = kvs \<and> length (block_bytes es rs) < 2 ^ 32 \<and> raw_at uncompress data h (block_bytes es rs))"

lemma raw_at_append: "raw_at uncompress data h raw \<Longrightarrow> raw_at uncompress (data @ xs) h raw"
  by (auto simp: raw_at_def intro: bytes_at_append)

lemma block_at_append: "block_at uncompress data h kvs \<Longrightarrow> block_at uncompress (data @ xs) h kvs"
  by (auto simp: block_at_def intro: raw_at_append)

lemma raw_at_offset: "raw_at uncompress data h raw \<Longrightarrow> unat (bh_offset h) < length data"
  by (auto simp: raw_at_def bytes_at_def kBlockTrailerSize_def)

lemma block_at_offset: "block_at uncompress data h kvs \<Longrightarrow> unat (bh_offset h) < length data"
  by (auto simp: block_at_def dest: raw_at_offset)

definition opened :: "slice \<Rightarrow> RandomAccessFile \<Rightarrow> bool" where
  "opened data f \<longleftrightarrow> raf_data f = data \<and> \<not> raf_fails f \<and> length data < 2 ^ 63"

lemma ReadBlock_raw:
  assumes "raw_at uncompress data h raw" "opened data f"
  shows "\<exists>ca ha. ReadBlock uncompress f verify h = Some (Status_OK, \<lparr>bc_data = raw, cachable = ca, heap_allocated = ha\<rparr>)"
  using assms ReadBlock_stored [of f h] by (fastforce simp: raw_at_def stored_as_def opened_def holds_at_def bytes_at_def)

lemma block_at_iterator:
  assumes "block_at uncompress data h kvs" "opened data f"
    and "sorted_wrt (\<lambda>a b. cmp (fst a) (fst b) < 0) kvs" "\<forall>e\<in>set kvs. good (fst e)"
  shows "\<exists>c it. (\<forall>verify. \<exists>ca ha. ReadBlock uncompress f verify h = Some (Status_OK, \<lparr>bc_data = c, cachable = ca, heap_allocated = ha\<rparr>)) \<and>
    Block_NewIterator (Block_new c) = Some it \<and> block_rep cmp good it kvs None"
proof -
  obtain es rs where es: "layout es rs" "map snd es = kvs" "length (block_bytes es rs) < 2 ^ 32" "raw_at uncompress data h (block_bytes es rs)"
    using assms(1) by (auto simp: block_at_def)
  obtain it where "Block_NewIterator (Block_new (block_bytes es rs)) = Some (Iter it)" "positioned es rs None it"
    using NewIterator_block [OF es(1,3)] by blast
  then show ?thesis using ReadBlock_raw [OF es(4) assms(2)] es(2) assms(3,4) by (fastforce simp: block_rep_def)
qed

section \<open>Writing blocks\<close>

text \<open>The file of a builder: room for \<open>S\<close> bytes in all; an error comes from a full disk or a failed flush.\<close>

definition file_rep :: "nat \<Rightarrow> bool \<Rightarrow> TableBuilder \<Rightarrow> bool" where
  "file_rep S F r \<longleftrightarrow> S < 2 ^ 32 \<and> length (wf_data (tb_file r)) + wf_space (tb_file r) = S \<and> wf_flushes (tb_file r) = F \<and>
     (if TableBuilder_ok r then tb_offset r = of_nat (length (wf_data (tb_file r))) else wf_space (tb_file r) = 0 \<or> \<not> F)"

lemma IOError_not_ok [simp]: "\<not> Status_ok (IOError a b)" "Status_ok Status_OK"
  by (simp_all add: Status_ok_def IOError_def Status_new_def Status_OK_def Let_def)

lemma trailer_stored: "c @ type # EncodeFixed32 (Mask (Extend 0 (Value 0 c) [type])) = stored_block type c"
  using Extend_Extend [of 0 0 0 c "[type]" 0] by (simp add: stored_block_def Value_def)

lemma WriteRawBlock_rep:
  assumes r: "file_rep S F r" "TableBuilder_ok r" and w: "WriteRawBlock c t r = (h, r')"
  shows "r' = r\<lparr>tb_file := tb_file r', tb_status := tb_status r', tb_offset := tb_offset r'\<rparr>" "file_rep S F r'"
    "h = \<lparr>bh_offset = of_nat (length (wf_data (tb_file r))), bh_size = of_nat (length c)\<rparr>"
    "TableBuilder_ok r' \<Longrightarrow> wf_data (tb_file r') = wf_data (tb_file r) @ stored_block t c"
    "\<not> TableBuilder_ok r' \<Longrightarrow> tb_offset r' = tb_offset r"
proof -
  show "r' = r\<lparr>tb_file := tb_file r', tb_status := tb_status r', tb_offset := tb_offset r'\<rparr>"
    "h = \<lparr>bh_offset = of_nat (length (wf_data (tb_file r))), bh_size = of_nat (length c)\<rparr>"
    "\<not> TableBuilder_ok r' \<Longrightarrow> tb_offset r' = tb_offset r"
    using w r by (auto simp: WriteRawBlock_def Let_def TableBuilder_ok_def file_rep_def split: prod.splits if_splits)
  show data: "TableBuilder_ok r' \<Longrightarrow> wf_data (tb_file r') = wf_data (tb_file r) @ stored_block t c"
    using w r trailer_stored [of c t]
    by (auto simp: WriteRawBlock_def WritableFile_Append_def Let_def TableBuilder_ok_def min_def split: if_splits)
  show "file_rep S F r'"
    using w r
    by (auto simp: WriteRawBlock_def WritableFile_Append_def Let_def TableBuilder_ok_def file_rep_def min_def kBlockTrailerSize_def split: if_splits)
qed

section \<open>The environment of a table\<close>

text \<open>
  What the builder and the reader rely on: the comparator orders the keys and shortens them without making
  them longer, Snappy gives back what it compressed, the filter policy has no false negatives for up to
  \<open>cap\<close> keys.
\<close>

locale table_env =
  fixes opts :: Options
    and good :: "slice \<Rightarrow> bool"
    and compress uncompress :: "slice \<Rightarrow> slice option"
    and cap :: nat
  assumes order: "key_comparator (Compare (opt_comparator opts)) good
      (FindShortestSeparator (opt_comparator opts)) (FindShortSuccessor (opt_comparator opts))"
    and separator_length: "length (FindShortestSeparator (opt_comparator opts) a b) \<le> length a"
    and successor_length: "length (FindShortSuccessor (opt_comparator opts) a) \<le> length a"
    and snappy: "compress raw = Some c \<Longrightarrow> uncompress c = Some raw"
    and compression_type: "compression opts = kNoCompression \<or> compression opts = kSnappyCompression"
    and interval: "1 \<le> block_restart_interval opts"
    and policy: "opt_filter_policy opts = Some fp \<Longrightarrow>
      filter_policy (policy_CreateFilter fp) (policy_KeyMayMatch fp) (\<lambda>ks. length ks \<le> cap) \<and> length (policy_Name fp) < 2 ^ 31"

section \<open>What a builder stands for\<close>

text \<open>
  \<open>fin\<close> are the blocks with an index entry, with their separator; \<open>pend\<close> is the block whose index entry is
  pending, \<open>cur\<close> the entries of the open block.
\<close>

definition all_blocks :: "(slice \<times> BlockHandle \<times> kv list) list \<Rightarrow> (BlockHandle \<times> kv list) option \<Rightarrow> (BlockHandle \<times> kv list) list" where
  "all_blocks fin pend = map snd fin @ (case pend of None \<Rightarrow> [] | Some b \<Rightarrow> [b])"

definition entries :: "(BlockHandle \<times> kv list) list \<Rightarrow> kv list" where
  "entries bs = concat (map snd bs)"

lemma entries_simps [simp]: "entries [] = []" "entries (b # bs) = snd b @ entries bs" "entries (as @ bs) = entries as @ entries bs"
  by (simp_all add: entries_def)

definition handle_bytes :: "BlockHandle \<Rightarrow> slice" where
  "handle_bytes h = EncodeVarint64 (bh_offset h) @ EncodeVarint64 (bh_size h)"

text \<open>Separators: not below the keys of their block, below all later keys.\<close>

definition sep_blocks :: "(slice \<Rightarrow> slice \<Rightarrow> int) \<Rightarrow> (slice \<Rightarrow> bool) \<Rightarrow> (slice \<times> kv list) list \<Rightarrow> bool" where
  "sep_blocks cmp good sb \<longleftrightarrow> sorted_wrt (\<lambda>a b. \<forall>e\<in>set (snd b). cmp (fst a) (fst e) < 0) sb \<and>
     (\<forall>(s, es)\<in>set sb. good s \<and> (\<forall>e\<in>set es. good (fst e) \<and> cmp (fst e) s \<le> 0))"

definition blocks_ok :: "(slice \<Rightarrow> slice option) \<Rightarrow> slice \<Rightarrow> (BlockHandle \<times> kv list) list \<Rightarrow> bool" where
  "blocks_ok uncompress data bs \<longleftrightarrow> distinct (map fst bs) \<and> (\<forall>(h, es)\<in>set bs. block_at uncompress data h es \<and> es \<noteq> [])"

definition data_ok :: "Options \<Rightarrow> BlockBuilder \<Rightarrow> kv list \<Rightarrow> bool" where
  "data_ok opts b cur \<longleftrightarrow> (\<exists>es rs. builder_rep (block_restart_interval opts) b es rs \<and> map snd es = cur)"

definition index_ok :: "(slice \<Rightarrow> slice \<Rightarrow> int) \<Rightarrow> (slice \<Rightarrow> bool) \<Rightarrow> BlockBuilder \<Rightarrow> (slice \<times> BlockHandle \<times> kv list) list \<Rightarrow> bool" where
  "index_ok cmp good b fin \<longleftrightarrow> (\<exists>es rs. builder_rep 1 b es rs \<and> map snd es = map (\<lambda>(s, h, _). (s, handle_bytes h)) fin) \<and>
     sep_blocks cmp good (map (\<lambda>(s, _, es). (s, es)) fin) \<and> (\<forall>(s, h, es)\<in>set fin. length s \<le> length (fst (last es)))"

definition filter_ok :: "Options \<Rightarrow> (FilterPolicy \<times> FilterBlockBuilder) option \<Rightarrow> u64 \<Rightarrow> (BlockHandle \<times> kv list) list \<Rightarrow> kv list \<Rightarrow> bool" where
  "filter_ok opts fbo off bs cur \<longleftrightarrow>
     (case fbo of
        None \<Rightarrow> opt_filter_policy opts = None
      | Some (fp, fb) \<Rightarrow>
          opt_filter_policy opts = Some fp \<and>
          (\<exists>gs c. filter_rep (policy_CreateFilter fp) fb gs c \<and> length gs = unat off div kFilterBase \<and>
             length (concat (gs @ [c])) = length (entries bs @ cur) \<and>
             (\<forall>(h, es)\<in>set bs. \<forall>e\<in>set es. fst e \<in> recorded gs c (unat (bh_offset h) div kFilterBase)) \<and>
             (\<forall>e\<in>set cur. fst e \<in> recorded gs c (unat off div kFilterBase))))"

definition tb_rep ::
    "Options \<Rightarrow> (slice \<Rightarrow> bool) \<Rightarrow> (slice \<Rightarrow> slice option) \<Rightarrow> TableBuilder \<Rightarrow> (slice \<times> BlockHandle \<times> kv list) list \<Rightarrow>
      (BlockHandle \<times> kv list) option \<Rightarrow> kv list \<Rightarrow> bool" where
  "tb_rep opts good uncompress r fin pend cur \<longleftrightarrow>
     TableBuilder_ok r \<and> \<not> closed r \<and> tb_options r = opts \<and> index_block_options r = opts\<lparr>block_restart_interval := 1\<rparr> \<and>
     blocks_ok uncompress (wf_data (tb_file r)) (all_blocks fin pend) \<and> data_ok opts (data_block r) cur \<and>
     index_ok (Compare (opt_comparator opts)) good (index_block r) fin \<and>
     filter_ok opts (filter_block r) (tb_offset r) (all_blocks fin pend) cur \<and>
     pending_index_entry r = (pend \<noteq> None) \<and> (\<forall>h es. pend = Some (h, es) \<longrightarrow> pending_handle r = h \<and> cur = []) \<and>
     (pend = None \<and> cur = [] \<longrightarrow> fin = []) \<and>
     num_entries r = length (entries (all_blocks fin pend) @ cur) \<and>
     (entries (all_blocks fin pend) @ cur \<noteq> [] \<longrightarrow> last_key r = fst (last (entries (all_blocks fin pend) @ cur))) \<and>
     (\<forall>(s, _)\<in>set fin. \<forall>e\<in>set (entries (all_blocks [] pend) @ cur). Compare (opt_comparator opts) s (fst e) < 0) \<and>
     sorted_wrt (\<lambda>a b. Compare (opt_comparator opts) (fst a) (fst b) < 0) (entries (all_blocks fin pend) @ cur) \<and>
     (\<forall>e\<in>set (entries (all_blocks fin pend) @ cur). good (fst e))"

lemma tb_rep_entries:
  assumes "tb_rep opts good uncompress r fin pend cur"
  shows "num_entries r = length (entries (all_blocks fin pend) @ cur)"
    "entries (all_blocks fin pend) @ cur \<noteq> [] \<Longrightarrow> last_key r = fst (last (entries (all_blocks fin pend) @ cur))"
    "sorted_wrt (\<lambda>a b. Compare (opt_comparator opts) (fst a) (fst b) < 0) (entries (all_blocks fin pend) @ cur)"
    "\<forall>e\<in>set (entries (all_blocks fin pend) @ cur). good (fst e)"
    "TableBuilder_ok r" "\<not> closed r" "tb_options r = opts" "index_block_options r = opts\<lparr>block_restart_interval := 1\<rparr>"
  using assms unfolding tb_rep_def by blast+

lemma body_empty: "body es = [] \<longleftrightarrow> es = []"
proof (cases es)
  case (Cons e fs)
  have "entry_bytes e \<noteq> []" by (cases e) (simp add: EncodeVarint32_def Let_def)
  then show ?thesis by (simp add: Cons)
qed simp

lemma data_ok_empty: "data_ok opts b cur \<Longrightarrow> bb_buffer b = [] \<longleftrightarrow> cur = []"
  using body_empty by (fastforce simp: data_ok_def builder_rep_def)

lemma builder_rep_Reset: "builder_rep n (BlockBuilder_Reset b) [] [0]"
  by (simp add: builder_rep_def BlockBuilder_Reset_def layout_def)

lemma recorded_AddKey: "recorded gs c i \<subseteq> recorded gs (c @ [key]) i" "key \<in> recorded gs (c @ [key]) (length gs)"
  by (auto simp: recorded_def nth_append less_Suc_eq)

lemma filter_AddKey_ok:
  assumes "filter_ok opts fbo off bs cur"
  shows "filter_ok opts (map_option (\<lambda>(fp, fb). (fp, FilterBlock_AddKey key fb)) fbo) off bs (cur @ [(key, v)])"
proof (cases fbo)
  case None
  then show ?thesis using assms by (simp add: filter_ok_def)
next
  case (Some p)
  obtain fp fb where p: "p = (fp, fb)" by fastforce
  obtain gs c where gs: "opt_filter_policy opts = Some fp" "filter_rep (policy_CreateFilter fp) fb gs c" "length gs = unat off div kFilterBase"
    "length (concat (gs @ [c])) = length (entries bs @ cur)"
    and bs: "\<forall>(h, es)\<in>set bs. \<forall>e\<in>set es. fst e \<in> recorded gs c (unat (bh_offset h) div kFilterBase)"
    and cur: "\<forall>e\<in>set cur. fst e \<in> recorded gs c (unat off div kFilterBase)"
    using assms unfolding filter_ok_def Some p option.case prod.case by blast
  have "\<forall>(h, es)\<in>set bs. \<forall>e\<in>set es. fst e \<in> recorded gs (c @ [key]) (unat (bh_offset h) div kFilterBase)"
    "\<forall>e\<in>set cur. fst e \<in> recorded gs (c @ [key]) (unat off div kFilterBase)"
    using bs cur recorded_AddKey(1) by blast+
  then show ?thesis
    unfolding filter_ok_def Some p option.map option.case prod.case
    using gs AddKey_rep [OF gs(2), of key] recorded_AddKey(2) [of key gs c] by (intro conjI exI [of _ gs] exI [of _ "c @ [key]"]) simp_all
qed

text \<open>A bound on the sizes of all blocks together.\<close>

definition table_size :: "kv list \<Rightarrow> nat" where
  "table_size kvs = (\<Sum>(k, v)\<leftarrow>kvs. length k + length v + 39) + 8"

lemma table_size_append: "table_size (as @ bs) = table_size as + (\<Sum>(k, v)\<leftarrow>bs. length k + length v + 39)"
  by (simp add: table_size_def)

lemma entry_size_le: "(\<Sum>(k, v)\<leftarrow>es. length k + length v + 19) \<le> (\<Sum>(k, v)\<leftarrow>es. length k + length v + (39 :: nat))"
  by (induction es) auto

context table_env
begin

lemma compress_block_stored: "compress_block compress (compression opts) raw = (c, t) \<Longrightarrow> stored_as uncompress t c raw"
  using compression_type snappy [of raw]
  by (auto simp: compress_block_def stored_as_def kNoCompression_def kSnappyCompression_def split: if_splits option.splits)

text \<open>Writing a block that was built: the new state, and where the block is.\<close>

lemma WriteBlock_rep:
  assumes r: "file_rep S F r" "TableBuilder_ok r" "tb_options r = opts" and b: "builder_rep n b es rs" and len: "length (block_bytes es rs) < 2 ^ 32"
  shows "\<exists>h b' r'. WriteBlock compress b r = Some (h, b', r') \<and> builder_rep m b' [] [0] \<and>
    r' = r\<lparr>tb_file := tb_file r', tb_status := tb_status r', tb_offset := tb_offset r'\<rparr> \<and> file_rep S F r' \<and>
    bh_offset h = tb_offset r \<and>
    (TableBuilder_ok r' \<longrightarrow> (\<exists>more. wf_data (tb_file r') = wf_data (tb_file r) @ more) \<and> block_at uncompress (wf_data (tb_file r')) h (map snd es)) \<and>
    (\<not> TableBuilder_ok r' \<longrightarrow> tb_offset r' = tb_offset r)"
proof -
  obtain c t where ct: "compress_block compress (compression opts) (block_bytes es rs) = (c, t)" by fastforce
  obtain h r' where w: "WriteRawBlock c t r = (h, r')" by fastforce
  note raw = WriteRawBlock_rep [OF r(1,2) w]
  have eq: "WriteBlock compress b r = Some (h, BlockBuilder_Reset (snd (BlockBuilder_Finish b)), r')"
    using r(2,3) ct w Finish_bytes [OF b] by (cases "BlockBuilder_Finish b") (simp add: WriteBlock_def)
  have at: "block_at uncompress (wf_data (tb_file r')) h (map snd es)" if ok: "TableBuilder_ok r'"
  proof -
    let ?d = "wf_data (tb_file r)"
    have S: "length (wf_data (tb_file r')) \<le> S" "S < 2 ^ 32" using raw(2) by (auto simp: file_rep_def)
    then have "length ?d < 2 ^ 64" "length c < 2 ^ 64" using raw(4) [OF ok] by simp_all
    then have "unat (bh_offset h) = length ?d" "unat (bh_size h) = length c" using raw(3) by simp_all
    then have "raw_at uncompress (wf_data (tb_file r')) h (block_bytes es rs)"
      using raw(4) [OF ok] compress_block_stored [OF ct] bytes_at_end [of ?d "stored_block t c"] by (auto simp: raw_at_def)
    then show ?thesis using b len by (auto simp: block_at_def builder_rep_def)
  qed
  have "bh_offset h = tb_offset r" using raw(3) r(1,2) by (simp add: file_rep_def)
  then show ?thesis using eq raw at builder_rep_Reset [of m] by blast
qed

lemma filter_StartBlock_ok:
  assumes f: "filter_ok opts (filter_block r) off0 bs cur" and off: "unat off0 \<le> unat off"
  shows "\<exists>fbo. filter_StartBlock off r = Some (r\<lparr>filter_block := fbo\<rparr>) \<and>
    (\<forall>h. bh_offset h = off0 \<longrightarrow> filter_ok opts fbo off (bs @ [(h, cur)]) []) \<and> (cur = [] \<longrightarrow> filter_ok opts fbo off bs [])"
proof (cases "filter_block r")
  case None
  then show ?thesis using f by (cases r) (auto simp: filter_StartBlock_def filter_ok_def intro!: exI [of _ None])
next
  case (Some p)
  obtain fp fb where p: "p = (fp, fb)" by fastforce
  have fp: "opt_filter_policy opts = Some fp" using f Some p by (simp add: filter_ok_def)
  obtain gs c where gs: "filter_rep (policy_CreateFilter fp) fb gs c" "length gs = unat off0 div kFilterBase"
    "length (concat (gs @ [c])) = length (entries bs @ cur)"
    and bs: "\<forall>(h, es)\<in>set bs. \<forall>e\<in>set es. fst e \<in> recorded gs c (unat (bh_offset h) div kFilterBase)"
    and cur: "\<forall>e\<in>set cur. fst e \<in> recorded gs c (unat off0 div kFilterBase)"
    using f unfolding filter_ok_def Some p option.case prod.case by blast
  have "length gs \<le> unat off div kFilterBase" using gs(2) off by (simp add: div_le_mono)
  then obtain fb' gs' c' where fb': "StartBlock (policy_CreateFilter fp) off fb = Some fb'" "filter_rep (policy_CreateFilter fp) fb' gs' c'"
      "length gs' = unat off div kFilterBase" "length (concat (gs' @ [c'])) = length (concat (gs @ [c]))"
    and mono: "\<And>i. recorded gs c i \<subseteq> recorded gs' c' i"
    using filter_policy.StartBlock_recorded [OF conjunct1 [OF policy [OF fp]] gs(1), of off] by blast
  have bs': "\<forall>(h, es)\<in>set bs. \<forall>e\<in>set es. fst e \<in> recorded gs' c' (unat (bh_offset h) div kFilterBase)"
    and cur': "\<forall>e\<in>set cur. fst e \<in> recorded gs' c' (unat off0 div kFilterBase)"
    using bs cur mono by blast+
  have "filter_ok opts (Some (fp, fb')) off (bs @ [(h, cur)]) []" if "bh_offset h = off0" for h
    unfolding filter_ok_def option.case prod.case using fp fb'(2-4) gs(3) bs' cur' that by (intro conjI exI [of _ gs'] exI [of _ c']) simp_all
  moreover have "filter_ok opts (Some (fp, fb')) off bs []" if "cur = []"
    unfolding filter_ok_def option.case prod.case using fp fb'(2-4) gs(3) bs' that by (intro conjI exI [of _ gs'] exI [of _ c']) simp_all
  ultimately show ?thesis using fb'(1) Some p by (auto simp: filter_StartBlock_def)
qed

lemma Flush_rep:
  assumes r: "tb_rep opts good uncompress r fin None cur" "file_rep S F r" and size: "(\<Sum>(k, v)\<leftarrow>cur. length k + length v + 19) + 8 < 2 ^ 32"
  shows "\<exists>r'. TableBuilder_Flush compress r = Some r' \<and> file_rep S F r' \<and> \<not> closed r' \<and>
    (TableBuilder_ok r' \<longrightarrow> (\<exists>pend. tb_rep opts good uncompress r' fin pend [] \<and> entries (all_blocks fin pend) = entries (all_blocks fin None) @ cur))"
proof (cases "cur = []")
  case True
  then have "bb_buffer (data_block r) = []" using r(1) data_ok_empty [of opts "data_block r" cur] by (simp add: tb_rep_def)
  then show ?thesis using r True by (auto simp: TableBuilder_Flush_def tb_rep_def)
next
  case False
  obtain es rs where es: "builder_rep (block_restart_interval opts) (data_block r) es rs" "map snd es = cur"
    using r(1) by (auto simp: tb_rep_def data_ok_def)
  have st: "TableBuilder_ok r" "\<not> closed r" "\<not> pending_index_entry r" "tb_options r = opts" "bb_buffer (data_block r) \<noteq> []"
    using r(1) False data_ok_empty [of opts "data_block r" cur] by (auto simp: tb_rep_def)
  have "length (block_bytes es rs) < 2 ^ 32" using length_block_bytes_le [of es rs] es size by (simp add: builder_rep_def)
  then obtain h b' r1 where w: "WriteBlock compress (data_block r) r = Some (h, b', r1)"
    and b': "builder_rep (block_restart_interval opts) b' [] [0]"
    and r1: "r1 = r\<lparr>tb_file := tb_file r1, tb_status := tb_status r1, tb_offset := tb_offset r1\<rparr>" "file_rep S F r1" "bh_offset h = tb_offset r"
    and ok1: "TableBuilder_ok r1 \<longrightarrow> (\<exists>more. wf_data (tb_file r1) = wf_data (tb_file r) @ more) \<and> block_at uncompress (wf_data (tb_file r1)) h cur"
    and bad1: "\<not> TableBuilder_ok r1 \<longrightarrow> tb_offset r1 = tb_offset r"
    using WriteBlock_rep [OF r(2) st(1,4) es(1), of "block_restart_interval opts"] es(2) by auto
  let ?r2 = "r1\<lparr>data_block := b', pending_handle := h\<rparr>"
  let ?r3 = "if TableBuilder_ok ?r2 then ?r2\<lparr>pending_index_entry := True, tb_status := WritableFile_Flush (tb_file ?r2)\<rparr> else ?r2"
  have flush: "TableBuilder_Flush compress r = filter_StartBlock (tb_offset ?r3) ?r3"
    using st w by (simp add: TableBuilder_Flush_def Let_def)
  have len: "length (wf_data (tb_file r)) < 2 ^ 64" "length (wf_data (tb_file r1)) < 2 ^ 64" using r(2) r1(2) by (auto simp: file_rep_def)
  have "unat (tb_offset r) = length (wf_data (tb_file r))" "TableBuilder_ok r1 \<Longrightarrow> unat (tb_offset r1) = length (wf_data (tb_file r1))"
    using r(2) r1(2) st(1) len by (simp_all add: file_rep_def)
  then have off: "unat (tb_offset r) \<le> unat (tb_offset ?r3)" using ok1 bad1 by (cases "TableBuilder_ok r1") auto
  have fields: "filter_block ?r3 = filter_block r" "tb_offset ?r3 = tb_offset r1" "tb_file ?r3 = tb_file r1" "closed ?r3 = closed r"
    "tb_options ?r3 = tb_options r" "index_block_options ?r3 = index_block_options r" "index_block ?r3 = index_block r" "data_block ?r3 = b'"
    "num_entries ?r3 = num_entries r" "last_key ?r3 = last_key r" "pending_handle ?r3 = h"
    by (subst r1(1), simp)+
  have "filter_ok opts (filter_block ?r3) (tb_offset r) (all_blocks fin None) cur" using r(1) fields(1) by (simp add: tb_rep_def)
  from filter_StartBlock_ok [OF this off]
  obtain fbo where fbo: "filter_StartBlock (tb_offset ?r3) ?r3 = Some (?r3\<lparr>filter_block := fbo\<rparr>)"
    "filter_ok opts fbo (tb_offset ?r3) (all_blocks fin (Some (h, cur))) []"
    using r1(3) by (auto simp: all_blocks_def)
  have frep: "file_rep S F (?r3\<lparr>filter_block := fbo\<rparr>)"
    using r1(2) by (auto simp: file_rep_def TableBuilder_ok_def WritableFile_Flush_def)
  have "tb_rep opts good uncompress (?r3\<lparr>filter_block := fbo\<rparr>) fin (Some (h, cur)) []" if ok: "TableBuilder_ok (?r3\<lparr>filter_block := fbo\<rparr>)"
  proof -
    have ok': "TableBuilder_ok r1" using ok by (auto simp: TableBuilder_ok_def split: if_splits)
    obtain xs where xs: "wf_data (tb_file r1) = wf_data (tb_file r) @ xs" "block_at uncompress (wf_data (tb_file r1)) h cur" using ok1 ok' by blast
    have old: "blocks_ok uncompress (wf_data (tb_file r)) (map snd fin)" using r(1) by (simp add: tb_rep_def all_blocks_def)
    have "h \<noteq> h'" if "(s, h', es) \<in> set fin" for s h' es
    proof -
      have "unat (bh_offset h') < length (wf_data (tb_file r))" using old that by (force simp: blocks_ok_def dest: block_at_offset)
      then show ?thesis using r1(3) r(2) st(1) len by (auto simp: file_rep_def)
    qed
    then have "blocks_ok uncompress (wf_data (tb_file r1)) (all_blocks fin (Some (h, cur)))"
      using old xs False by (force simp: blocks_ok_def all_blocks_def intro: block_at_append)
    moreover have "data_ok opts b' []" using b' by (auto simp: data_ok_def)
    ultimately show ?thesis
      using r(1) [unfolded tb_rep_def] ok ok' fbo(2) fields False
      unfolding tb_rep_def by (intro conjI) (simp_all add: all_blocks_def TableBuilder_ok_def)
  qed
  then show ?thesis
    using flush fbo(1) frep fields(4) st(2)
    by (intro exI [of _ "?r3\<lparr>filter_block := fbo\<rparr>"] conjI impI exI [of _ "Some (h, cur)"]) (simp_all add: all_blocks_def)
qed

abbreviation "cmp \<equiv> Compare (opt_comparator opts)"

lemma cmp_contract: "comparator cmp good"
  using order by (simp add: key_comparator_def)

lemma handle_bounds:
  assumes "raw_at uncompress data h raw" "length data < 2 ^ 32"
  shows "bh_offset h \<noteq> NOT 0" "bh_size h \<noteq> NOT 0"
proof -
  have "unat (bh_offset h) < 2 ^ 32" "unat (bh_size h) < 2 ^ 32" using assms by (auto simp: raw_at_def bytes_at_def)
  then show "bh_offset h \<noteq> NOT 0" "bh_size h \<noteq> NOT 0" by (auto simp: unsigned_minus_1_eq_mask mask_eq_exp_minus_1)
qed

lemma EncodeTo_raw: "raw_at uncompress data h raw \<Longrightarrow> length data < 2 ^ 32 \<Longrightarrow> BlockHandle_EncodeTo h [] = Some (handle_bytes h)"
  using handle_bounds [of data h raw] by (simp add: BlockHandle_EncodeTo_def handle_bytes_def PutVarint64_def)

lemma EncodeTo_handle: "block_at uncompress data h es \<Longrightarrow> length data < 2 ^ 32 \<Longrightarrow> BlockHandle_EncodeTo h [] = Some (handle_bytes h)"
  by (auto simp: block_at_def dest: EncodeTo_raw)

lemma add_index_entry_ok:
  assumes ix: "index_ok cmp good (index_block r) fin" "index_block_options r = opts\<lparr>block_restart_interval := 1\<rparr>"
    and h: "BlockHandle_EncodeTo (pending_handle r) [] = Some (handle_bytes h)"
    and es: "es \<noteq> []" "\<forall>e\<in>set es. good (fst e) \<and> cmp (fst e) (last_key r) \<le> 0" "\<forall>(s, _)\<in>set fin. \<forall>e\<in>set es. cmp s (fst e) < 0"
    and key: "good (last_key r)" "length (last_key r) \<le> length (fst (last es))"
  shows "\<exists>b. add_index_entry r = Some (r\<lparr>index_block := b, pending_index_entry := False\<rparr>) \<and> index_ok cmp good b (fin @ [(last_key r, h, es)])"
proof -
  obtain ies irs where b: "builder_rep 1 (index_block r) ies irs" "map snd ies = map (\<lambda>(s, h, _). (s, handle_bytes h)) fin"
    and sb: "sep_blocks cmp good (map (\<lambda>(s, _, es). (s, es)) fin)" "\<forall>(s, h, es)\<in>set fin. length s \<le> length (fst (last es))"
    using ix(1) by (auto simp: index_ok_def)
  have "cmp (last_key r) (fst (snd (last ies))) > 0" if "ies \<noteq> []"
  proof -
    have fin: "fin \<noteq> []" using b(2) that by auto
    then have last: "snd (last ies) = (\<lambda>(s, h, _). (s, handle_bytes h)) (last fin)"
      using arg_cong [OF b(2), of last] that by (simp add: last_map)
    obtain s h' fs where l: "last fin = (s, h', fs)" by (metis prod_cases3)
    have mem: "(s, h', fs) \<in> set fin" using fin l by (metis last_in_set)
    have s: "good s" using sb(1) mem by (force simp: sep_blocks_def)
    obtain e where e: "e \<in> set es" using es(1) by (cases es) auto
    have "cmp s (fst e) < 0" using es(3) mem e by blast
    then have "cmp s (last_key r) < 0" using comparator.less_le_trans [OF cmp_contract s _ key(1)] es(2) e by blast
    then show ?thesis using comparator.gt_iff [OF cmp_contract key(1) s] last l by simp
  qed
  with Add_builder [OF b(1), of cmp "last_key r" "handle_bytes h"]
  obtain b' k irs' where b': "BlockBuilder_Add cmp 1 (last_key r) (handle_bytes h) (index_block r) = Some b'"
    "builder_rep 1 b' (ies @ [(k, last_key r, handle_bytes h)]) irs'" by auto
  have "sep_blocks cmp good (map (\<lambda>(s, _, es). (s, es)) (fin @ [(last_key r, h, es)]))"
    using sb(1) es(2,3) key(1) by (fastforce simp: sep_blocks_def sorted_wrt_append)
  then have "index_ok cmp good b' (fin @ [(last_key r, h, es)])" using b'(2) b(2) sb(2) key(2) by (fastforce simp: index_ok_def)
  moreover have "add_index_entry r = Some (r\<lparr>index_block := b', pending_index_entry := False\<rparr>)"
    using h b'(1) ix(2) by (simp add: add_index_entry_def)
  ultimately show ?thesis by blast
qed

lemma sorted_last:
  assumes "sorted_wrt (\<lambda>a b. cmp (fst a) (fst b) < 0) es" "\<forall>e\<in>set es. good (fst e)" "e \<in> set es"
  shows "cmp (fst e) (fst (last es)) \<le> 0"
proof -
  obtain i where i: "i < length es" "e = es ! i" using assms(3) by (metis in_set_conv_nth)
  have last: "last es = es ! (length es - 1)" using assms(3) by (cases es) (simp_all add: last_conv_nth)
  show ?thesis
  proof (cases "i = length es - 1")
    case True
    then show ?thesis using comparator.refl [OF cmp_contract] assms(2,3) i last by simp
  next
    case False
    then have "i < length es - 1" "length es - 1 < length es" using i by simp_all
    then show ?thesis using sorted_wrt_nth_less [OF assms(1), of i "length es - 1"] i last by auto
  qed
qed

text \<open>
  The state in front of a new key: the index entry that was pending has been written, under a separator below
  the key.  \<open>open_rep\<close> is what holds there.
\<close>

definition open_rep :: "TableBuilder \<Rightarrow> (slice \<times> BlockHandle \<times> kv list) list \<Rightarrow> kv list \<Rightarrow> bool" where
  "open_rep r fin cur \<longleftrightarrow>
     TableBuilder_ok r \<and> \<not> closed r \<and> tb_options r = opts \<and> index_block_options r = opts\<lparr>block_restart_interval := 1\<rparr> \<and>
     blocks_ok uncompress (wf_data (tb_file r)) (all_blocks fin None) \<and> data_ok opts (data_block r) cur \<and> index_ok cmp good (index_block r) fin \<and>
     filter_ok opts (filter_block r) (tb_offset r) (all_blocks fin None) cur \<and> \<not> pending_index_entry r \<and>
     num_entries r = length (entries (all_blocks fin None) @ cur) \<and> (\<forall>(s, _)\<in>set fin. \<forall>e\<in>set cur. cmp s (fst e) < 0)"

lemma settle_rep:
  assumes r: "tb_rep opts good uncompress r fin pend cur" "file_rep S F r" and key: "good key"
    and ord: "\<forall>e\<in>set (entries (all_blocks fin pend) @ cur). cmp (fst e) key < 0"
  shows "\<exists>r' fin'. (if pending_index_entry r then
             if bb_buffer (data_block r) \<noteq> [] then None
             else add_index_entry (r\<lparr>last_key := FindShortestSeparator (opt_comparator opts) (last_key r) key\<rparr>)
           else Some r) = Some r' \<and> file_rep S F r' \<and> entries (all_blocks fin' None) = entries (all_blocks fin pend) \<and>
    (\<forall>(s, _)\<in>set fin'. cmp s key < 0) \<and> open_rep r' fin' cur"
proof (cases pend)
  case None
  have "cmp s key < 0" if s: "(s, b) \<in> set fin" for s b
  proof -
    have "cur \<noteq> []" using r(1) None s by (auto simp: tb_rep_def)
    then obtain e where e: "e \<in> set cur" by (cases cur) auto
    then have "cmp s (fst e) < 0" "good (fst e)" "cmp (fst e) key < 0" using r(1) None s ord by (auto simp: tb_rep_def)
    moreover have "good s" using r(1) s by (fastforce simp: tb_rep_def index_ok_def sep_blocks_def)
    ultimately show ?thesis using comparator.less_trans [OF cmp_contract] key by blast
  qed
  then show ?thesis using r None by (intro exI [of _ r] exI [of _ fin]) (auto simp: tb_rep_def open_rep_def all_blocks_def)
next
  case (Some p)
  obtain h es where p: "p = (h, es)" by fastforce
  have st: "cur = []" "pending_handle r = h" "pending_index_entry r" "bb_buffer (data_block r) = []"
    using r(1) Some p data_ok_empty [of opts "data_block r" cur] by (auto simp: tb_rep_def)
  have es: "es \<noteq> []" "block_at uncompress (wf_data (tb_file r)) h es" "\<forall>e\<in>set es. good (fst e)" "sorted_wrt (\<lambda>a b. cmp (fst a) (fst b) < 0) es"
    using r(1) Some p st(1) by (auto simp: tb_rep_def blocks_ok_def all_blocks_def sorted_wrt_append)
  have last: "last_key r = fst (last es)" using r(1) Some p st(1) es(1) by (simp add: tb_rep_def all_blocks_def)
  let ?s = "FindShortestSeparator (opt_comparator opts) (last_key r) key"
  have "good (fst (last es))" "cmp (fst (last es)) key < 0" using es(1,3) ord Some p by (auto simp: all_blocks_def)
  then have s: "good ?s" "cmp (fst (last es)) ?s \<le> 0" "cmp ?s key < 0"
    using key_comparator.separator_bounds [OF order _ key, of "fst (last es)"] last by auto
  have le: "cmp (fst e) ?s \<le> 0" if "e \<in> set es" for e
    using comparator.le_trans [OF cmp_contract _ _ s(1) sorted_last [OF es(4,3) that] s(2)] es(1,3) that by auto
  have "length (wf_data (tb_file r)) < 2 ^ 32" using r(2) by (simp add: file_rep_def)
  from add_index_entry_ok [of "r\<lparr>last_key := ?s\<rparr>" fin h es] EncodeTo_handle [OF es(2) this]
  obtain b where b: "add_index_entry (r\<lparr>last_key := ?s\<rparr>) = Some (r\<lparr>last_key := ?s, index_block := b, pending_index_entry := False\<rparr>)"
    "index_ok cmp good b (fin @ [(?s, h, es)])"
    using r(1) Some p st(1,2) es(1,3) s(1) le last separator_length [of "fst (last es)" key] by (auto simp: tb_rep_def all_blocks_def)
  have below: "cmp s' key < 0" if s': "(s', b') \<in> set fin" for s' b'
  proof -
    have "last es \<in> set es" using es(1) by simp
    then have "cmp s' (fst (last es)) < 0" using r(1) Some p s' by (auto simp: tb_rep_def all_blocks_def)
    moreover have "good s'" using r(1) s' by (fastforce simp: tb_rep_def index_ok_def sep_blocks_def)
    ultimately show ?thesis
      using comparator.less_trans [OF cmp_contract] key \<open>good (fst (last es))\<close> \<open>cmp (fst (last es)) key < 0\<close> by blast
  qed
  let ?r = "r\<lparr>last_key := ?s, index_block := b, pending_index_entry := False\<rparr>"
  have all: "all_blocks (fin @ [(?s, h, es)]) None = all_blocks fin pend" by (simp add: all_blocks_def Some p)
  have "open_rep ?r (fin @ [(?s, h, es)]) cur"
    using r(1) b(2) st(1) unfolding open_rep_def all by (auto simp: tb_rep_def TableBuilder_ok_def)
  moreover have "file_rep S F ?r" using r(2) by (simp add: file_rep_def TableBuilder_ok_def)
  ultimately show ?thesis
    using b(1) st(3,4) s(3) below all by (intro exI [of _ ?r] exI [of _ "fin @ [(?s, h, es)]"]) auto
qed

lemma open_Add_rep:
  assumes r: "open_rep r fin cur" and key: "good key" "\<forall>(s, _)\<in>set fin. cmp s key < 0"
    and kvs: "sorted_wrt (\<lambda>a b. cmp (fst a) (fst b) < 0) (entries (all_blocks fin None) @ cur @ [(key, v)])"
      "\<forall>e\<in>set (entries (all_blocks fin None) @ cur). good (fst e)"
  shows "\<exists>b. BlockBuilder_Add cmp (block_restart_interval opts) key v (data_block r) = Some b \<and>
    tb_rep opts good uncompress
      (r\<lparr>filter_block := map_option (\<lambda>(fp, fb). (fp, FilterBlock_AddKey key fb)) (filter_block r), last_key := key,
         num_entries := num_entries r + 1, data_block := b\<rparr>) fin None (cur @ [(key, v)])"
proof -
  obtain es rs where es: "builder_rep (block_restart_interval opts) (data_block r) es rs" "map snd es = cur"
    using r by (auto simp: open_rep_def data_ok_def)
  have "cmp key (fst (snd (last es))) > 0" if "es \<noteq> []"
  proof -
    have "snd (last es) \<in> set cur" using es(2) that by auto
    then show ?thesis using kvs key(1) comparator.gt_iff [OF cmp_contract] by (auto simp: sorted_wrt_append)
  qed
  then obtain b s rs' where b: "BlockBuilder_Add cmp (block_restart_interval opts) key v (data_block r) = Some b"
    "builder_rep (block_restart_interval opts) b (es @ [(s, key, v)]) rs'"
    using Add_builder [OF es(1) interval, of cmp key v] by blast
  have "data_ok opts b (cur @ [(key, v)])" using b(2) es(2) by (fastforce simp: data_ok_def)
  moreover have "filter_ok opts (map_option (\<lambda>(fp, fb). (fp, FilterBlock_AddKey key fb)) (filter_block r)) (tb_offset r) (all_blocks fin None) (cur @ [(key, v)])"
    using r by (intro filter_AddKey_ok) (simp add: open_rep_def)
  ultimately show ?thesis
    using b(1) r kvs key unfolding tb_rep_def open_rep_def
    by (intro exI [of _ b] conjI) (auto simp: TableBuilder_ok_def all_blocks_def)
qed

lemma Add_rep:
  assumes r: "tb_rep opts good uncompress r fin pend cur" "file_rep S F r" and key: "good key"
    and ord: "\<forall>e\<in>set (entries (all_blocks fin pend) @ cur). cmp (fst e) key < 0"
    and size: "table_size (entries (all_blocks fin pend) @ cur @ [(key, v)]) < 2 ^ 32"
  shows "\<exists>r'. TableBuilder_Add compress key v r = Some r' \<and> file_rep S F r' \<and> \<not> closed r' \<and>
    (TableBuilder_ok r' \<longrightarrow> (\<exists>fin' pend' cur'. tb_rep opts good uncompress r' fin' pend' cur' \<and>
      entries (all_blocks fin' pend') @ cur' = entries (all_blocks fin pend) @ cur @ [(key, v)]))"
proof -
  obtain r1 fin' where settle: "(if pending_index_entry r then
             if bb_buffer (data_block r) \<noteq> [] then None
             else add_index_entry (r\<lparr>last_key := FindShortestSeparator (opt_comparator opts) (last_key r) key\<rparr>)
           else Some r) = Some r1" and r1: "file_rep S F r1" "open_rep r1 fin' cur"
    and fin': "entries (all_blocks fin' None) = entries (all_blocks fin pend)" "\<forall>(s, _)\<in>set fin'. cmp s key < 0"
    using settle_rep [OF r key ord] by blast
  have kvs: "sorted_wrt (\<lambda>a b. cmp (fst a) (fst b) < 0) (entries (all_blocks fin' None) @ cur @ [(key, v)])"
    "\<forall>e\<in>set (entries (all_blocks fin' None) @ cur). good (fst e)"
    using tb_rep_entries(3,4) [OF r(1)] ord fin'(1) by (auto simp: sorted_wrt_append)
  obtain b where b: "BlockBuilder_Add cmp (block_restart_interval opts) key v (data_block r1) = Some b"
    and r2: "tb_rep opts good uncompress
      (r1\<lparr>filter_block := map_option (\<lambda>(fp, fb). (fp, FilterBlock_AddKey key fb)) (filter_block r1), last_key := key,
         num_entries := num_entries r1 + 1, data_block := b\<rparr>) fin' None (cur @ [(key, v)])" (is "tb_rep _ _ _ ?r2 _ _ _")
    using open_Add_rep [OF r1(2) key fin'(2) kvs] by blast
  have f2: "file_rep S F ?r2" using r1(1) by (simp add: file_rep_def TableBuilder_ok_def)
  have guard: "TableBuilder_ok r" "\<not> closed r" "tb_options r = opts" "tb_options r1 = opts"
    "\<not> (0 < num_entries r \<and> \<not> cmp key (last_key r) > 0)"
  proof -
    show "TableBuilder_ok r" "\<not> closed r" "tb_options r = opts" "tb_options r1 = opts"
      using tb_rep_entries [OF r(1)] r1(2) by (simp_all add: open_rep_def)
    have "cmp key (last_key r) > 0" if "0 < num_entries r"
    proof -
      let ?l = "last (entries (all_blocks fin pend) @ cur)"
      have ne: "entries (all_blocks fin pend) @ cur \<noteq> []" using tb_rep_entries(1) [OF r(1)] that by (metis length_0_conv less_irrefl)
      then have mem: "?l \<in> set (entries (all_blocks fin pend) @ cur)" by (rule last_in_set)
      then have "cmp (fst ?l) key < 0" "good (fst ?l)" using ord tb_rep_entries(4) [OF r(1)] by blast+
      then show ?thesis using key comparator.gt_iff [OF cmp_contract] tb_rep_entries(2) [OF r(1) ne] by simp
    qed
    then show "\<not> (0 < num_entries r \<and> \<not> cmp key (last_key r) > 0)" by blast
  qed
  have add: "TableBuilder_Add compress key v r =
      (if CurrentSizeEstimate b \<ge> opt_block_size opts then TableBuilder_Flush compress ?r2 else Some ?r2)"
    unfolding TableBuilder_Add_def guard(3) settle using guard(1,2,4,5) b by (auto simp: Let_def)
  show ?thesis
  proof (cases "CurrentSizeEstimate b \<ge> opt_block_size opts")
    case True
    have "(\<Sum>(k, v)\<leftarrow>cur @ [(key, v)]. length k + length v + 19) + 8 < 2 ^ 32"
      using size entry_size_le [of "cur @ [(key, v)]"] by (simp add: table_size_def)
    then obtain r' where r': "TableBuilder_Flush compress ?r2 = Some r'" "file_rep S F r'" "\<not> closed r'"
      and ok: "TableBuilder_ok r' \<Longrightarrow> \<exists>pend. tb_rep opts good uncompress r' fin' pend [] \<and>
        entries (all_blocks fin' pend) = entries (all_blocks fin' None) @ cur @ [(key, v)]"
      using Flush_rep [OF r2 f2] by blast
    show ?thesis
    proof (intro exI [of _ r'] conjI impI)
      assume "TableBuilder_ok r'"
      then show "\<exists>fin' pend' cur'. tb_rep opts good uncompress r' fin' pend' cur' \<and>
          entries (all_blocks fin' pend') @ cur' = entries (all_blocks fin pend) @ cur @ [(key, v)]"
        using ok fin'(1) by (metis append_Nil2)
    qed (use add True r' in auto)
  next
    case False
    then show ?thesis using add r2 f2 fin'(1) tb_rep_entries(6) [OF r2] by (intro exI [of _ ?r2]) auto
  qed
qed

lemma TableBuilder_new_rep:
  assumes f: "wf_data f = []" "wf_space f < 2 ^ 32"
  shows "\<exists>r. TableBuilder_new opts f = Some r \<and> file_rep (wf_space f) (wf_flushes f) r \<and> tb_rep opts good uncompress r [] None []"
proof -
  obtain b where b: "BlockBuilder_new (block_restart_interval opts) = Some b" using interval by (simp add: BlockBuilder_new_def)
  let ?r = "\<lparr>tb_options = opts, index_block_options = opts\<lparr>block_restart_interval := 1\<rparr>, tb_file = f, tb_offset = 0,
     tb_status = Status_OK, data_block = b, index_block = b, last_key = [], num_entries = 0, closed = False,
     filter_block = map_option (\<lambda>fp. (fp, FilterBlockBuilder_new)) (opt_filter_policy opts), pending_index_entry = False,
     pending_handle = BlockHandle_new\<rparr>"
  have "filter_ok opts (filter_block ?r) 0 [] []"
    by (cases "opt_filter_policy opts") (auto simp: filter_ok_def intro!: exI [of _ "[]"] filter_rep_new)
  from filter_StartBlock_ok [OF this, of 0]
  obtain fbo where fbo: "filter_StartBlock 0 ?r = Some (?r\<lparr>filter_block := fbo\<rparr>)" "filter_ok opts fbo 0 [] []" by auto
  have "builder_rep n b [] [0]" for n using b by (auto simp: BlockBuilder_new_def builder_rep_def layout_def split: if_splits)
  then have "data_ok opts b []" "index_ok cmp good b []" by (auto simp: data_ok_def index_ok_def sep_blocks_def)
  then have "tb_rep opts good uncompress (?r\<lparr>filter_block := fbo\<rparr>) [] None []"
    using fbo(2) by (simp add: tb_rep_def TableBuilder_ok_def all_blocks_def blocks_ok_def)
  moreover have "file_rep (wf_space f) (wf_flushes f) (?r\<lparr>filter_block := fbo\<rparr>)" using f by (simp add: file_rep_def TableBuilder_ok_def)
  ultimately show ?thesis using fbo(1) b by (simp add: TableBuilder_new_def)
qed

end

text \<open>Adding all entries of a table.\<close>

fun table_adds :: "(slice \<Rightarrow> slice option) \<Rightarrow> kv list \<Rightarrow> TableBuilder \<Rightarrow> TableBuilder option" where
  "table_adds compress [] r = Some r"
| "table_adds compress ((k, v) # kvs) r = Option.bind (TableBuilder_Add compress k v r) (table_adds compress kvs)"

context table_env
begin

lemma table_adds_dead: "\<not> TableBuilder_ok r \<Longrightarrow> \<not> closed r \<Longrightarrow> table_adds compress kvs r = Some r"
  by (induction kvs) (auto simp: TableBuilder_Add_def)

lemma table_adds_rep:
  "file_rep S F r \<Longrightarrow> tb_rep opts good uncompress r fin pend cur \<Longrightarrow>
    sorted_wrt (\<lambda>a b. cmp (fst a) (fst b) < 0) (entries (all_blocks fin pend) @ cur @ kvs) \<Longrightarrow> \<forall>e\<in>set kvs. good (fst e) \<Longrightarrow>
    table_size (entries (all_blocks fin pend) @ cur @ kvs) < 2 ^ 32 \<Longrightarrow>
    \<exists>r'. table_adds compress kvs r = Some r' \<and> file_rep S F r' \<and> \<not> closed r' \<and>
      (TableBuilder_ok r' \<longrightarrow> (\<exists>fin' pend' cur'. tb_rep opts good uncompress r' fin' pend' cur' \<and>
        entries (all_blocks fin' pend') @ cur' = entries (all_blocks fin pend) @ cur @ kvs))"
proof (induction kvs arbitrary: r fin pend cur)
  case Nil
  then show ?case using tb_rep_entries(6) [OF Nil(2)] by auto
next
  case (Cons e kvs)
  obtain k v where e: "e = (k, v)" by fastforce
  let ?E = "entries (all_blocks fin pend) @ cur"
  have ord: "\<forall>e\<in>set ?E. cmp (fst e) k < 0" using Cons.prems(3) by (auto simp: sorted_wrt_append e)
  have size: "table_size (entries (all_blocks fin pend) @ cur @ [(k, v)]) < 2 ^ 32" using Cons.prems(5) by (simp add: table_size_def e)
  obtain r1 where r1: "TableBuilder_Add compress k v r = Some r1" "file_rep S F r1" "\<not> closed r1"
    and ok: "TableBuilder_ok r1 \<Longrightarrow> \<exists>fin' pend' cur'. tb_rep opts good uncompress r1 fin' pend' cur' \<and>
      entries (all_blocks fin' pend') @ cur' = entries (all_blocks fin pend) @ cur @ [(k, v)]"
    using Add_rep [OF Cons.prems(2,1) _ ord size] Cons.prems(4) by (auto simp: e)
  show ?case
  proof (cases "TableBuilder_ok r1")
    case True
    then obtain fin1 pend1 cur1 where rep: "tb_rep opts good uncompress r1 fin1 pend1 cur1"
      and eq: "entries (all_blocks fin1 pend1) @ cur1 = ?E @ [(k, v)]" using ok by auto
    have eq': "entries (all_blocks fin1 pend1) @ cur1 @ kvs = entries (all_blocks fin pend) @ cur @ e # kvs"
      using arg_cong [OF eq, of "\<lambda>x. x @ kvs"] by (simp add: e)
    from Cons.IH [OF r1(2) rep] show ?thesis using Cons.prems(3-5) r1(1) unfolding eq' by (simp add: e)
  next
    case False
    then show ?thesis using r1 table_adds_dead [OF False r1(3)] by (simp add: e)
  qed
qed

end

section \<open>The finished file\<close>

definition filter_at ::
    "(slice \<Rightarrow> slice option) \<Rightarrow> Options \<Rightarrow> slice \<Rightarrow> BlockHandle \<Rightarrow> (BlockHandle \<times> kv list) list \<Rightarrow> bool" where
  "filter_at uncompress opts data mh bs \<longleftrightarrow>
     (case opt_filter_policy opts of
        None \<Rightarrow> True
      | Some fp \<Rightarrow>
          \<exists>fh fb gs c. block_at uncompress data mh [(str ''filter.'' @ policy_Name fp, handle_bytes fh)] \<and>
            raw_at uncompress data fh (fst (FilterBlock_Finish (policy_CreateFilter fp) fb)) \<and>
            length (fst (FilterBlock_Finish (policy_CreateFilter fp) fb)) < 2 ^ 32 \<and>
            filter_rep (policy_CreateFilter fp) fb gs c \<and> length (concat (gs @ [c])) = length (entries bs) \<and>
            (\<forall>(h, es)\<in>set bs. \<forall>e\<in>set es. fst e \<in> recorded gs c (unat (bh_offset h) div kFilterBase)))"

definition index_entries :: "(slice \<times> BlockHandle \<times> kv list) list \<Rightarrow> kv list" where
  "index_entries fin = map (\<lambda>(s, h, _). (s, handle_bytes h)) fin"

definition table_file ::
    "Options \<Rightarrow> (slice \<Rightarrow> bool) \<Rightarrow> (slice \<Rightarrow> slice option) \<Rightarrow> slice \<Rightarrow> BlockHandle \<Rightarrow> (slice \<times> BlockHandle \<times> kv list) list \<Rightarrow> bool" where
  "table_file opts good uncompress data mh fin \<longleftrightarrow>
     (\<exists>ih pre foot. Footer_EncodeTo \<lparr>metaindex_handle = mh, index_handle = ih\<rparr> [] = Some foot \<and> data = pre @ foot \<and> length data < 2 ^ 32 \<and>
        bh_offset mh \<noteq> NOT 0 \<and> bh_size mh \<noteq> NOT 0 \<and> bh_offset ih \<noteq> NOT 0 \<and> bh_size ih \<noteq> NOT 0 \<and>
        block_at uncompress data ih (index_entries fin)) \<and>
     blocks_ok uncompress data (map snd fin) \<and> sep_blocks (Compare (opt_comparator opts)) good (map (\<lambda>(s, _, es). (s, es)) fin) \<and>
     sorted_wrt (\<lambda>a b. Compare (opt_comparator opts) (fst a) (fst b) < 0) (entries (map snd fin)) \<and>
     (\<forall>e\<in>set (entries (map snd fin)). good (fst e)) \<and>
     filter_at uncompress opts data mh (map snd fin)"

lemma blocks_ok_append: "blocks_ok uncompress data bs \<Longrightarrow> blocks_ok uncompress (data @ xs) bs"
  by (auto simp: blocks_ok_def intro: block_at_append)

lemma filter_at_append: "filter_at uncompress opts data mh bs \<Longrightarrow> filter_at uncompress opts (data @ xs) mh bs"
  unfolding filter_at_def by (cases "opt_filter_policy opts"; simp) (blast intro: block_at_append raw_at_append)

lemma length_handle_bytes: "length (handle_bytes h) \<le> 20"
  using length_EncodeVarint64 [of "bh_offset h"] length_EncodeVarint64 [of "bh_size h"] by (simp add: handle_bytes_def)

lemma index_size:
  "\<forall>(s, h, es)\<in>set fin. es \<noteq> [] \<and> length s \<le> length (fst (last es)) \<Longrightarrow>
    (\<Sum>(k, v)\<leftarrow>index_entries fin. length k + length v + 19) \<le> (\<Sum>(k, v)\<leftarrow>entries (map snd fin). length k + length v + 39)"
proof (induction fin)
  case (Cons x fin)
  obtain s h es where x: "x = (s, h, es)" by (metis prod_cases3)
  then have es: "es \<noteq> []" "length s \<le> length (fst (last es))" using Cons.prems by auto
  have "es = butlast es @ [last es]" using es(1) by simp
  then have "(\<Sum>(k, v)\<leftarrow>es. length k + length v + 39) = (\<Sum>(k, v)\<leftarrow>butlast es. length k + length v + 39) + (length (fst (last es)) + length (snd (last es)) + 39)"
    by (metis (mono_tags, lifting) map_append sum_list.append list.simps(8,9) sum_list.Cons sum_list.Nil add_0_right case_prod_beta)
  then show ?case using Cons es length_handle_bytes [of h] by (simp add: index_entries_def x)
qed (simp add: index_entries_def)

context table_env
begin

lemma write_filter_rep:
  assumes r: "file_rep S F r" "TableBuilder_ok r" "tb_options r = opts" "filter_ok opts (filter_block r) (tb_offset r) bs []"
    and w: "write_filter r = (fh, r')"
  shows "file_rep S F r'" "r' = r\<lparr>tb_file := tb_file r', tb_status := tb_status r', tb_offset := tb_offset r', filter_block := filter_block r'\<rparr>"
    "(filter_block r' = None) = (filter_block r = None)"
    "TableBuilder_ok r' \<Longrightarrow> \<exists>xs. wf_data (tb_file r') = wf_data (tb_file r) @ xs"
    "filter_block r = Some (fp, fb) \<Longrightarrow> TableBuilder_ok r' \<Longrightarrow> raw_at uncompress (wf_data (tb_file r')) fh (fst (FilterBlock_Finish (policy_CreateFilter fp) fb))"
    "filter_block r = Some (fp, fb) \<Longrightarrow> TableBuilder_ok r' \<Longrightarrow> length (fst (FilterBlock_Finish (policy_CreateFilter fp) fb)) < 2 ^ 32"
proof -
  let ?G = "file_rep S F r' \<and> r' = r\<lparr>tb_file := tb_file r', tb_status := tb_status r', tb_offset := tb_offset r', filter_block := filter_block r'\<rparr> \<and>
    (filter_block r' = None) = (filter_block r = None) \<and> (TableBuilder_ok r' \<longrightarrow> (\<exists>xs. wf_data (tb_file r') = wf_data (tb_file r) @ xs)) \<and>
    (filter_block r = Some (fp, fb) \<and> TableBuilder_ok r' \<longrightarrow>
      raw_at uncompress (wf_data (tb_file r')) fh (fst (FilterBlock_Finish (policy_CreateFilter fp) fb)) \<and>
      length (fst (FilterBlock_Finish (policy_CreateFilter fp) fb)) < 2 ^ 32)"
  have ?G
  proof (cases "filter_block r")
    case None
    then show ?thesis using w r(1) by (simp add: write_filter_def)
  next
    case (Some p)
    obtain fp' fb' where p: "p = (fp', fb')" by fastforce
    obtain bytes fb'' where fin: "FilterBlock_Finish (policy_CreateFilter fp') fb' = (bytes, fb'')" by fastforce
    let ?r = "r\<lparr>filter_block := Some (fp', fb'')\<rparr>"
    have w': "WriteRawBlock bytes kNoCompression ?r = (fh, r')" using w r(2) Some p fin by (simp add: write_filter_def)
    have "file_rep S F ?r" "TableBuilder_ok ?r" using r by (simp_all add: file_rep_def TableBuilder_ok_def)
    note raw = WriteRawBlock_rep [OF this w']
    have "raw_at uncompress (wf_data (tb_file r')) fh bytes \<and> length bytes < 2 ^ 32" if ok: "TableBuilder_ok r'"
    proof -
      let ?d = "wf_data (tb_file r)"
      have S: "length (wf_data (tb_file r')) \<le> S" "S < 2 ^ 32" using raw(2) by (auto simp: file_rep_def)
      then have len: "length ?d < 2 ^ 64" "length bytes < 2 ^ 32" using raw(4) [OF ok] by simp_all
      then have "unat (bh_offset fh) = length ?d" "unat (bh_size fh) = length bytes" using raw(3) by simp_all
      then show ?thesis
        using raw(4) [OF ok] bytes_at_end [of ?d "stored_block kNoCompression bytes"] len by (auto simp: raw_at_def stored_as_def)
    qed
    moreover have "r' = r\<lparr>tb_file := tb_file r', tb_status := tb_status r', tb_offset := tb_offset r', filter_block := filter_block r'\<rparr>" "filter_block r' \<noteq> None"
      by (subst raw(1), simp)+
    ultimately show ?thesis using raw(2,4) Some p fin by auto
  qed
  then show "file_rep S F r'" "r' = r\<lparr>tb_file := tb_file r', tb_status := tb_status r', tb_offset := tb_offset r', filter_block := filter_block r'\<rparr>"
    "(filter_block r' = None) = (filter_block r = None)"
    "TableBuilder_ok r' \<Longrightarrow> \<exists>xs. wf_data (tb_file r') = wf_data (tb_file r) @ xs"
    "filter_block r = Some (fp, fb) \<Longrightarrow> TableBuilder_ok r' \<Longrightarrow> raw_at uncompress (wf_data (tb_file r')) fh (fst (FilterBlock_Finish (policy_CreateFilter fp) fb))"
    "filter_block r = Some (fp, fb) \<Longrightarrow> TableBuilder_ok r' \<Longrightarrow> length (fst (FilterBlock_Finish (policy_CreateFilter fp) fb)) < 2 ^ 32"
    by blast+
qed

definition meta_entries :: "BlockHandle \<Rightarrow> kv list" where
  "meta_entries fh = (case opt_filter_policy opts of None \<Rightarrow> [] | Some fp \<Rightarrow> [(str ''filter.'' @ policy_Name fp, handle_bytes fh)])"

lemma meta_index_rep:
  assumes r: "tb_options r = opts" "(filter_block r = None) = (opt_filter_policy opts = None)" "length (wf_data (tb_file r)) < 2 ^ 32"
    and fh: "opt_filter_policy opts \<noteq> None \<Longrightarrow> raw_at uncompress (wf_data (tb_file r)) fh raw"
  shows "\<exists>b es rs. meta_index fh r = Some b \<and> builder_rep (block_restart_interval opts) b es rs \<and> map snd es = meta_entries fh \<and>
    length (block_bytes es rs) < 2 ^ 32"
proof -
  obtain b where b: "BlockBuilder_new (block_restart_interval opts) = Some b" using interval by (simp add: BlockBuilder_new_def)
  note rep = builder_rep_new [OF b]
  have size: "length (block_bytes es rs) < 2 ^ 32" if "layout es rs" "map snd es = meta_entries fh" for es rs
  proof -
    have "length (block_bytes es rs) \<le> (\<Sum>(k, v)\<leftarrow>meta_entries fh. length k + length v + 19) + 8"
      using length_block_bytes_le [OF that(1)] that(2) by simp
    also have "\<dots> < 2 ^ 32"
      using policy length_handle_bytes [of fh] by (auto simp: meta_entries_def str_def split: option.split)
    finally show ?thesis .
  qed
  show ?thesis
  proof (cases "opt_filter_policy opts")
    case None
    then show ?thesis
      using r b rep size [of "[]" "[0]"] by (intro exI [of _ b] exI [of _ "[]"] exI [of _ "[0]"]) (simp add: meta_index_def meta_entries_def builder_rep_def)
  next
    case (Some fp)
    let ?key = "str ''filter.'' @ policy_Name fp"
    obtain b' k rs' where b': "BlockBuilder_Add cmp (block_restart_interval opts) ?key (handle_bytes fh) b = Some b'"
      "builder_rep (block_restart_interval opts) b' ([] @ [(k, ?key, handle_bytes fh)]) rs'"
      using Add_builder [OF rep interval, of cmp ?key "handle_bytes fh"] by blast
    have enc: "BlockHandle_EncodeTo fh [] = Some (handle_bytes fh)" using EncodeTo_raw [OF fh r(3)] Some by simp
    have lay: "layout [(k, ?key, handle_bytes fh)] rs'" using b'(2) by (simp add: builder_rep_def)
    have "meta_index fh r = Some b'" using r(1,2) b b'(1) enc Some by (auto simp: meta_index_def split: option.split)
    then show ?thesis
      using b'(2) size [OF lay] Some
      by (intro exI [of _ b'] exI [of _ "[(k, ?key, handle_bytes fh)]"] exI [of _ rs']) (simp add: meta_entries_def)
  qed
qed

lemma write_metaindex_rep:
  assumes r: "file_rep S F r" "TableBuilder_ok r" "tb_options r = opts" "(filter_block r = None) = (opt_filter_policy opts = None)"
    and fh: "opt_filter_policy opts \<noteq> None \<Longrightarrow> raw_at uncompress (wf_data (tb_file r)) fh raw"
  shows "\<exists>mh r'. write_metaindex compress fh r = Some (mh, r') \<and> file_rep S F r' \<and>
    r' = r\<lparr>tb_file := tb_file r', tb_status := tb_status r', tb_offset := tb_offset r'\<rparr> \<and>
    (TableBuilder_ok r' \<longrightarrow> (\<exists>xs. wf_data (tb_file r') = wf_data (tb_file r) @ xs) \<and> block_at uncompress (wf_data (tb_file r')) mh (meta_entries fh))"
proof -
  have "length (wf_data (tb_file r)) < 2 ^ 32" using r(1) by (simp add: file_rep_def)
  then obtain b es rs where b: "meta_index fh r = Some b" "builder_rep (block_restart_interval opts) b es rs" "map snd es = meta_entries fh"
    "length (block_bytes es rs) < 2 ^ 32"
    using meta_index_rep [OF r(3,4) _ fh] by blast
  then show ?thesis using WriteBlock_rep [OF r(1-3) b(2,4)] r(2) by (fastforce simp: write_metaindex_def)
qed

lemma write_index_rep:
  assumes r: "file_rep S F r" "TableBuilder_ok r" "tb_rep opts good uncompress r0 fin pend []"
      "r = r0\<lparr>closed := closed r, tb_file := tb_file r, tb_status := tb_status r, tb_offset := tb_offset r, filter_block := filter_block r\<rparr>"
      "wf_data (tb_file r) = wf_data (tb_file r0) @ xs"
    and size: "table_size (entries (all_blocks fin pend)) < 2 ^ 32"
  shows "\<exists>ih r' fin'. write_index compress r = Some (ih, r') \<and> file_rep S F r' \<and> map snd fin' = all_blocks fin pend \<and>
    sep_blocks cmp good (map (\<lambda>(s, _, es). (s, es)) fin') \<and>
    (TableBuilder_ok r' \<longrightarrow> (\<exists>xs. wf_data (tb_file r') = wf_data (tb_file r) @ xs) \<and> block_at uncompress (wf_data (tb_file r')) ih (index_entries fin'))"
proof -
  have st: "tb_options r = opts" "index_block_options r = opts\<lparr>block_restart_interval := 1\<rparr>" "pending_index_entry r = (pend \<noteq> None)"
    "index_ok cmp good (index_block r) fin" "blocks_ok uncompress (wf_data (tb_file r)) (all_blocks fin pend)"
    "\<forall>h es. pend = Some (h, es) \<longrightarrow> pending_handle r = h" "last_key r = last_key r0"
    using r(3) blocks_ok_append unfolding r(5) by ((subst r(4))?, force simp: tb_rep_def)+
  have "\<exists>r1 fin'. (if pending_index_entry r then add_index_entry (r\<lparr>last_key := FindShortSuccessor (opt_comparator (tb_options r)) (last_key r)\<rparr>) else Some r) = Some r1 \<and>
    file_rep S F r1 \<and> TableBuilder_ok r1 \<and> tb_options r1 = opts \<and> tb_file r1 = tb_file r \<and> map snd fin' = all_blocks fin pend \<and> index_ok cmp good (index_block r1) fin'"
  proof (cases pend)
    case None
    then show ?thesis using r(1,2) st by (auto simp: all_blocks_def)
  next
    case (Some p)
    obtain h es where p: "p = (h, es)" by fastforce
    have es: "es \<noteq> []" "block_at uncompress (wf_data (tb_file r)) h es" "pending_handle r = h"
      using st Some p by (auto simp: blocks_ok_def all_blocks_def)
    have srt: "\<forall>e\<in>set es. good (fst e)" "sorted_wrt (\<lambda>a b. cmp (fst a) (fst b) < 0) es" "last_key r = fst (last es)"
      using tb_rep_entries(2-4) [OF r(3)] Some p es(1) st(7) by (auto simp: all_blocks_def sorted_wrt_append)
    have below: "\<forall>(s, _)\<in>set fin. \<forall>e\<in>set es. cmp s (fst e) < 0"
      using r(3) Some p unfolding tb_rep_def by (simp add: all_blocks_def)
    let ?s = "FindShortSuccessor (opt_comparator opts) (last_key r)"
    have s: "good ?s" "cmp (fst (last es)) ?s \<le> 0"
      using key_comparator.successor_bounds [OF order, of "fst (last es)"] srt es(1) by auto
    have le: "cmp (fst e) ?s \<le> 0" if "e \<in> set es" for e
      using comparator.le_trans [OF cmp_contract _ _ s(1) sorted_last [OF srt(2,1) that] s(2)] es(1) srt(1) that by auto
    have "length (wf_data (tb_file r)) < 2 ^ 32" using r(1) by (simp add: file_rep_def)
    from add_index_entry_ok [of "r\<lparr>last_key := ?s\<rparr>" fin h es] EncodeTo_handle [OF es(2) this]
    obtain b where b: "add_index_entry (r\<lparr>last_key := ?s\<rparr>) = Some (r\<lparr>last_key := ?s, index_block := b, pending_index_entry := False\<rparr>)"
      "index_ok cmp good b (fin @ [(?s, h, es)])"
      using st es srt s(1) le below successor_length [of "fst (last es)"] by auto
    let ?r = "r\<lparr>last_key := ?s, index_block := b, pending_index_entry := False\<rparr>"
    have "file_rep S F ?r" "TableBuilder_ok ?r" using r(1,2) by (simp_all add: file_rep_def TableBuilder_ok_def)
    then show ?thesis
      using b st(1,3) Some p by (intro exI [of _ ?r] exI [of _ "fin @ [(?s, h, es)]"]) (simp add: all_blocks_def)
  qed
  then obtain r1 fin' where step: "(if pending_index_entry r then add_index_entry (r\<lparr>last_key := FindShortSuccessor (opt_comparator (tb_options r)) (last_key r)\<rparr>) else Some r) = Some r1"
    and r1: "file_rep S F r1" "TableBuilder_ok r1" "tb_options r1 = opts" "tb_file r1 = tb_file r"
    and fin': "map snd fin' = all_blocks fin pend" "index_ok cmp good (index_block r1) fin'" by blast
  obtain es rs where es: "builder_rep 1 (index_block r1) es rs" "map snd es = index_entries fin'"
    using fin'(2) by (auto simp: index_ok_def index_entries_def)
  have "\<forall>(s, h, es)\<in>set fin'. es \<noteq> [] \<and> length s \<le> length (fst (last es))"
  proof (clarify, intro conjI)
    fix s h es
    assume mem: "(s, h, es) \<in> set fin'"
    then have "(h, es) \<in> set (all_blocks fin pend)" unfolding fin'(1) [symmetric] by force
    then show "es \<noteq> []" using st(5) by (auto simp: blocks_ok_def)
    show "length s \<le> length (fst (last es))" using fin'(2) mem by (auto simp: index_ok_def)
  qed
  from index_size [OF this] have "length (block_bytes es rs) < 2 ^ 32"
    using length_block_bytes_le [of es rs] es size fin'(1) by (simp add: builder_rep_def table_size_def)
  then obtain ih b' r2 where w: "WriteBlock compress (index_block r1) r1 = Some (ih, b', r2)" "file_rep S F r2"
    "TableBuilder_ok r2 \<longrightarrow> (\<exists>xs. wf_data (tb_file r2) = wf_data (tb_file r1) @ xs) \<and> block_at uncompress (wf_data (tb_file r2)) ih (map snd es)"
    using WriteBlock_rep [OF r1(1-3) es(1), of 1] by blast
  have "write_index compress r = Some (ih, r2\<lparr>index_block := b'\<rparr>)" unfolding write_index_def step using r(2) w(1) by simp
  moreover have "file_rep S F (r2\<lparr>index_block := b'\<rparr>)" using w(2) by (simp add: file_rep_def TableBuilder_ok_def)
  moreover have "sep_blocks cmp good (map (\<lambda>(s, _, es). (s, es)) fin')" using fin'(2) by (simp add: index_ok_def)
  ultimately show ?thesis
    using fin'(1) w(3) es(2) r1(4) by (intro exI [of _ ih] exI [of _ "r2\<lparr>index_block := b'\<rparr>"] exI [of _ fin']) (simp add: TableBuilder_ok_def)
qed

lemma finish_dead:
  assumes "\<not> TableBuilder_ok r"
  shows "write_filter r = (BlockHandle_new, r)" "write_metaindex compress fh r = Some (BlockHandle_new, r)"
    "write_index compress r = Some (BlockHandle_new, r)" "write_footer mh ih r = Some r"
  using assms by (auto simp: write_filter_def write_metaindex_def write_index_def write_footer_def split: option.split)

lemma write_footer_rep:
  assumes r: "file_rep S F r" "TableBuilder_ok r"
    and h: "bh_offset mh \<noteq> NOT 0" "bh_size mh \<noteq> NOT 0" "bh_offset ih \<noteq> NOT 0" "bh_size ih \<noteq> NOT 0"
  shows "\<exists>r'. write_footer mh ih r = Some r' \<and> file_rep S F r' \<and>
    (TableBuilder_ok r' \<longrightarrow> (\<exists>foot. Footer_EncodeTo \<lparr>metaindex_handle = mh, index_handle = ih\<rparr> [] = Some foot \<and> wf_data (tb_file r') = wf_data (tb_file r) @ foot))"
proof -
  obtain foot where foot: "Footer_EncodeTo \<lparr>metaindex_handle = mh, index_handle = ih\<rparr> [] = Some foot" using Footer_codec [of "\<lparr>metaindex_handle = mh, index_handle = ih\<rparr>"] h by auto
  then show ?thesis
    using r by (auto simp: write_footer_def WritableFile_Append_def Let_def TableBuilder_ok_def file_rep_def min_def)
qed

lemma block_at_bounds: "block_at uncompress data h es \<Longrightarrow> length data < 2 ^ 32 \<Longrightarrow> bh_offset h \<noteq> NOT 0 \<and> bh_size h \<noteq> NOT 0"
  using handle_bounds by (auto simp: block_at_def)

lemma filter_at_written:
  assumes fok: "filter_ok opts fbo off bs []" and meta: "block_at uncompress data mh (meta_entries fh)"
    and raw: "\<And>fp fb. fbo = Some (fp, fb) \<Longrightarrow> raw_at uncompress data fh (fst (FilterBlock_Finish (policy_CreateFilter fp) fb)) \<and>
      length (fst (FilterBlock_Finish (policy_CreateFilter fp) fb)) < 2 ^ 32"
  shows "filter_at uncompress opts data mh bs"
proof (cases fbo)
  case None
  then show ?thesis using fok by (simp add: filter_ok_def filter_at_def)
next
  case (Some p)
  obtain fp fb where p: "p = (fp, fb)" by fastforce
  have fp: "opt_filter_policy opts = Some fp" using fok Some p by (simp add: filter_ok_def)
  obtain gs c where gs: "filter_rep (policy_CreateFilter fp) fb gs c" "length (concat (gs @ [c])) = length (entries bs @ [])"
    "\<forall>(h, es)\<in>set bs. \<forall>e\<in>set es. fst e \<in> recorded gs c (unat (bh_offset h) div kFilterBase)"
    using fok unfolding filter_ok_def Some p option.case prod.case by blast
  show ?thesis
    unfolding filter_at_def fp option.case
    by (intro exI [of _ fh] exI [of _ fb] exI [of _ gs] exI [of _ c]) (use raw [of fp fb] meta gs Some p fp in \<open>simp add: meta_entries_def\<close>)
qed

lemma finish_tail:
  assumes r: "file_rep S F r" "TableBuilder_ok r" "tb_rep opts good uncompress r0 fin pend []" "r = r0\<lparr>closed := True\<rparr>"
    and size: "table_size (entries (all_blocks fin pend)) < 2 ^ 32" and w: "write_filter r = (fh, r1)"
  shows "\<exists>r'. Option.bind (write_metaindex compress fh r1) (\<lambda>(metaindex, r).
      Option.bind (write_index compress r) (\<lambda>(index, r). write_footer metaindex index r)) = Some r' \<and> file_rep S F r' \<and>
    (TableBuilder_ok r' \<longrightarrow> (\<exists>mh fin'. table_file opts good uncompress (wf_data (tb_file r')) mh fin' \<and> map snd fin' = all_blocks fin pend))"
proof (cases "TableBuilder_ok r1")
  case False
  have "tb_options r = opts" "filter_ok opts (filter_block r) (tb_offset r) (all_blocks fin pend) []" using r(3,4) by (simp_all add: tb_rep_def)
  then show ?thesis using False finish_dead [OF False] write_filter_rep(1) [OF r(1,2) _ _ w] by auto
next
  case ok1: True
  have opt: "tb_options r = opts" and fok: "filter_ok opts (filter_block r) (tb_offset r) (all_blocks fin pend) []"
    and old: "blocks_ok uncompress (wf_data (tb_file r)) (all_blocks fin pend)"
    using r(3,4) by (simp_all add: tb_rep_def)
  note wf = write_filter_rep [OF r(1,2) opt fok w]
  obtain xs where xs: "wf_data (tb_file r1) = wf_data (tb_file r) @ xs" using wf(4) ok1 by blast
  have pol: "(filter_block r1 = None) = (opt_filter_policy opts = None)" using wf(3) fok by (auto simp: filter_ok_def split: option.splits)
  have "\<exists>raw. opt_filter_policy opts \<noteq> None \<longrightarrow> raw_at uncompress (wf_data (tb_file r1)) fh raw"
    using wf(3,5) ok1 pol by (cases "filter_block r") auto
  then obtain raw where raw: "opt_filter_policy opts \<noteq> None \<Longrightarrow> raw_at uncompress (wf_data (tb_file r1)) fh raw" by blast
  have o1: "tb_options r1 = opts" by (subst wf(2)) (simp add: opt)
  obtain mh r2 where r2: "write_metaindex compress fh r1 = Some (mh, r2)" "file_rep S F r2"
    "r2 = r1\<lparr>tb_file := tb_file r2, tb_status := tb_status r2, tb_offset := tb_offset r2\<rparr>"
    and ok2: "TableBuilder_ok r2 \<longrightarrow> (\<exists>xs. wf_data (tb_file r2) = wf_data (tb_file r1) @ xs) \<and> block_at uncompress (wf_data (tb_file r2)) mh (meta_entries fh)"
    using write_metaindex_rep [OF wf(1) ok1 o1 pol raw] by blast
  show ?thesis
  proof (cases "TableBuilder_ok r2")
    case False
    then show ?thesis using False finish_dead [OF False] r2(1,2) by auto
  next
    case True
    then obtain ys where ys: "wf_data (tb_file r2) = wf_data (tb_file r1) @ ys" and mh: "block_at uncompress (wf_data (tb_file r2)) mh (meta_entries fh)"
      using ok2 by blast
    have eq: "r2 = r0\<lparr>closed := closed r2, tb_file := tb_file r2, tb_status := tb_status r2, tb_offset := tb_offset r2, filter_block := filter_block r2\<rparr>"
      using r2(3) wf(2) r(4) by (cases r0; cases r1; cases r2) simp
    have d: "wf_data (tb_file r2) = wf_data (tb_file r0) @ (xs @ ys)" using xs ys r(4) by simp
    obtain ih r3 fin' where r3: "write_index compress r2 = Some (ih, r3)" "file_rep S F r3"
      and fin': "map snd fin' = all_blocks fin pend" "sep_blocks cmp good (map (\<lambda>(s, _, es). (s, es)) fin')"
      and ok3: "TableBuilder_ok r3 \<longrightarrow> (\<exists>xs. wf_data (tb_file r3) = wf_data (tb_file r2) @ xs) \<and> block_at uncompress (wf_data (tb_file r3)) ih (index_entries fin')"
      using write_index_rep [OF r2(2) True r(3) eq d size] by blast
    show ?thesis
    proof (cases "TableBuilder_ok r3")
      case False
      then show ?thesis using False finish_dead(4) [OF False] r2(1) r3 by auto
    next
      case True
      then obtain zs where zs: "wf_data (tb_file r3) = wf_data (tb_file r2) @ zs" and ih: "block_at uncompress (wf_data (tb_file r3)) ih (index_entries fin')"
        using ok3 by blast
      have mh3: "block_at uncompress (wf_data (tb_file r3)) mh (meta_entries fh)" using mh zs by (simp add: block_at_append)
      have len: "length (wf_data (tb_file r3)) < 2 ^ 32" using r3(2) by (simp add: file_rep_def)
      note mb = block_at_bounds [OF mh3 len] and ib = block_at_bounds [OF ih len]
      obtain r' where r': "write_footer mh ih r3 = Some r'" "file_rep S F r'"
        and ok': "TableBuilder_ok r' \<longrightarrow> (\<exists>foot. Footer_EncodeTo \<lparr>metaindex_handle = mh, index_handle = ih\<rparr> [] = Some foot \<and> wf_data (tb_file r') = wf_data (tb_file r3) @ foot)"
        using write_footer_rep [OF r3(2) True] mb ib by blast
      have "filter_at uncompress opts (wf_data (tb_file r3)) mh (map snd fin')"
        unfolding fin'(1) using fok mh3 by (rule filter_at_written) (use wf(5,6) ok1 ys zs raw_at_append in auto)
      moreover have "blocks_ok uncompress (wf_data (tb_file r3)) (map snd fin')"
        unfolding fin'(1) xs ys zs using old by (simp add: blocks_ok_append)
      ultimately have "table_file opts good uncompress (wf_data (tb_file r')) mh fin'" if ok: "TableBuilder_ok r'"
        using ok' ok mb ib ih fin' r'(2) tb_rep_entries(3,4) [OF r(3)] blocks_ok_append filter_at_append block_at_append
        by (fastforce simp: table_file_def file_rep_def)
      then show ?thesis using r2(1) r3(1) r' fin'(1) by auto
    qed
  qed
qed

end

end
