(* ===== verification/LdbTableRead.thy ===== *)
theory LdbTableRead
  imports LdbTableSpec
begin

unbundle bit_operations_syntax

text \<open>
  Reading a table: what \<open>Table::Open\<close> makes of a finished file, and the iterator and the lookups over it.
\<close>

section \<open>Opening\<close>

text \<open>What an opened table knows about the file: its index, and a filter that matches every key of a block.\<close>

definition table_rep ::
    "Options \<Rightarrow> (slice \<Rightarrow> bool) \<Rightarrow> RandomAccessFile \<Rightarrow> BlockHandle \<Rightarrow> (slice \<times> BlockHandle \<times> kv list) list \<Rightarrow> Table \<Rightarrow> bool" where
  "table_rep opts good f mh fin t \<longleftrightarrow> tab_options t = opts \<and> tab_file t = f \<and> tab_metaindex_handle t = mh \<and>
     (\<exists>it. Block_NewIterator (tab_index_block t) = Some it \<and> block_rep (Compare (opt_comparator opts)) good it (index_entries fin) None) \<and>
     (\<forall>fp reader. tab_filter t = Some (fp, reader) \<longrightarrow>
       (\<forall>off key. FilterBlock_KeyMayMatch (policy_KeyMayMatch fp) reader off key \<noteq> None) \<and>
       (\<forall>(s, h, es)\<in>set fin. \<forall>e\<in>set es. FilterBlock_KeyMayMatch (policy_KeyMayMatch fp) reader (bh_offset h) (fst e) = Some True))"

lemma decode_handle: "BlockHandle_DecodeFrom h0 (handle_bytes h) = (Status_OK, h, [])"
  using GetVarint64_put [of "bh_size h" "[]"] by (simp add: BlockHandle_DecodeFrom_def handle_bytes_def)

lemma KeyMayMatch_total:
  assumes "length (filters create gs) < 2 ^ 32"
  shows "FilterBlock_KeyMayMatch may_match (FilterBlockReader_new (filter_bytes_of create gs)) off key \<noteq> None"
proof (cases "unat off div kFilterBase < length gs")
  case True
  then show ?thesis using KeyMayMatch_bytes [OF assms True] by simp
next
  case False
  moreover have "unat (drop_bit (unat (11 :: u64)) off) = unat off div kFilterBase" by (simp add: unat_drop_bit_div kFilterBase_def kFilterBaseLg_def)
  ultimately show ?thesis
    unfolding FilterBlock_KeyMayMatch_def FilterBlockReader_bytes [OF assms] FilterBlockReader.select_convs Let_def by simp
qed

context table_env
begin

lemma index_sorted:
  assumes "sep_blocks cmp good (map (\<lambda>(s, _, es). (s, es)) fin)" "blocks_ok uncompress data (map snd fin)"
  shows "sorted_wrt (\<lambda>a b. cmp (fst a) (fst b) < 0) (index_entries fin)" "\<forall>e\<in>set (index_entries fin). good (fst e)"
proof -
  have srt: "sorted_wrt (\<lambda>a b. \<forall>e\<in>set (snd (snd b)). cmp (fst a) (fst e) < 0) fin"
    and sep: "\<And>s h es. (s, h, es) \<in> set fin \<Longrightarrow> good s \<and> (\<forall>e\<in>set es. good (fst e) \<and> cmp (fst e) s \<le> 0)"
    using assms(1) by (force simp: sep_blocks_def sorted_wrt_map case_prod_beta)+
  have "sorted_wrt (\<lambda>a b. cmp (fst a) (fst b) < 0) fin"
  proof (rule sorted_wrt_mono_rel [OF _ srt])
    fix x y
    assume mem: "x \<in> set fin" "y \<in> set fin" and lt: "\<forall>e\<in>set (snd (snd y)). cmp (fst x) (fst e) < 0"
    have "snd (snd y) \<noteq> []" using assms(2) mem(2) by (auto simp: blocks_ok_def)
    then obtain e where e: "e \<in> set (snd (snd y))" by (cases "snd (snd y)") auto
    have "good (fst x)" "good (fst y)" "good (fst e)" "cmp (fst e) (fst y) \<le> 0"
      using sep [of "fst x" "fst (snd x)" "snd (snd x)"] sep [of "fst y" "fst (snd y)" "snd (snd y)"] mem e by auto
    then show "cmp (fst x) (fst y) < 0" using lt e comparator.less_le_trans [OF cmp_contract] by blast
  qed
  then show "sorted_wrt (\<lambda>a b. cmp (fst a) (fst b) < 0) (index_entries fin)" "\<forall>e\<in>set (index_entries fin). good (fst e)"
    using sep by (auto simp: index_entries_def sorted_wrt_map case_prod_beta)
qed

lemma ReadMeta_rep:
  assumes f: "opened data f" and fat: "filter_at uncompress opts data mh (map snd fin)" and cap: "length (entries (map snd fin)) \<le> cap"
    and t: "tab_options t = opts" "tab_file t = f" "tab_filter t = None"
  shows "\<exists>flt. ReadMeta uncompress \<lparr>metaindex_handle = mh, index_handle = ih\<rparr> t = Some (t\<lparr>tab_filter := flt\<rparr>) \<and>
    (\<forall>fp reader. flt = Some (fp, reader) \<longrightarrow>
       (\<forall>off key. FilterBlock_KeyMayMatch (policy_KeyMayMatch fp) reader off key \<noteq> None) \<and>
       (\<forall>(s, h, es)\<in>set fin. \<forall>e\<in>set es. FilterBlock_KeyMayMatch (policy_KeyMayMatch fp) reader (bh_offset h) (fst e) = Some True))"
proof (cases "opt_filter_policy opts")
  case None
  then show ?thesis using t by (intro exI [of _ None]) (cases t, simp add: ReadMeta_def)
next
  case (Some fp)
  let ?key = "str ''filter.'' @ policy_Name fp"
  obtain fh fb gs c where meta: "block_at uncompress data mh [(?key, handle_bytes fh)]"
    and raw: "raw_at uncompress data fh (fst (FilterBlock_Finish (policy_CreateFilter fp) fb))" "length (fst (FilterBlock_Finish (policy_CreateFilter fp) fb)) < 2 ^ 32"
    and gs: "filter_rep (policy_CreateFilter fp) fb gs c" "length (concat (gs @ [c])) = length (entries (map snd fin))"
    and rec: "\<forall>(h, es)\<in>set (map snd fin). \<forall>e\<in>set es. fst e \<in> recorded gs c (unat (bh_offset h) div kFilterBase)"
    using fat unfolding filter_at_def Some option.case by blast
  have fp: "filter_policy (policy_CreateFilter fp) (policy_KeyMayMatch fp) (\<lambda>ks. length ks \<le> cap)" using policy [OF Some] by blast
  obtain cont it where it: "Block_NewIterator (Block_new cont) = Some it" "block_rep BytewiseCompare (\<lambda>_. True) it [(?key, handle_bytes fh)] None"
    and cont: "\<forall>verify. \<exists>ca ha. ReadBlock uncompress f verify mh = Some (Status_OK, \<lparr>bc_data = cont, cachable = ca, heap_allocated = ha\<rparr>)"
    using block_at_iterator [OF meta f, of BytewiseCompare "\<lambda>_. True"] by auto
  have "seek_pos BytewiseCompare [(?key, handle_bytes fh)] ?key = 0" by (simp add: seek_pos_def BytewiseCompare_def Slice_compare_order)
  then obtain it' where it': "it_Seek (block_ops BytewiseCompare) ?key it = Some it'"
    "block_rep BytewiseCompare (\<lambda>_. True) it' [(?key, handle_bytes fh)] (Some 0)"
    using bytewise_block.to_target [OF it(2), of ?key] by (auto simp: entry_pos_def)
  note at = bytewise_block.at_some [OF it'(2)]
  let ?reader = "FilterBlockReader_new (fst (FilterBlock_Finish (policy_CreateFilter fp) fb))"
  obtain ca ha where rf: "ReadBlock uncompress f (paranoid_checks opts) fh = Some (Status_OK, \<lparr>bc_data = fst (FilterBlock_Finish (policy_CreateFilter fp) fb), cachable = ca, heap_allocated = ha\<rparr>)"
    using ReadBlock_raw [OF raw(1) f] by blast
  obtain ca' ha' where rm: "ReadBlock uncompress f (paranoid_checks opts) mh = Some (Status_OK, \<lparr>bc_data = cont, cachable = ca', heap_allocated = ha'\<rparr>)"
    using cont by blast
  have "ReadMeta uncompress \<lparr>metaindex_handle = mh, index_handle = ih\<rparr> t = Some (t\<lparr>tab_filter := Some (fp, ?reader)\<rparr>)"
    using Some t it(1) it'(1) at rf rm by (simp add: ReadMeta_def ReadFilter_def decode_handle Slice_eq_def memcmp_0)
  moreover have "FilterBlock_KeyMayMatch (policy_KeyMayMatch fp) ?reader off key \<noteq> None" for off key
  proof -
    have "length (filters (policy_CreateFilter fp) (if c = [] then gs else gs @ [c])) < 2 ^ 32"
      using raw(2) unfolding filter_policy.Finish_filter_bytes [OF fp gs(1)] by (simp add: filter_bytes_of_def)
    then show ?thesis unfolding filter_policy.Finish_filter_bytes [OF fp gs(1)] by (rule KeyMayMatch_total)
  qed
  moreover have "FilterBlock_KeyMayMatch (policy_KeyMayMatch fp) ?reader (bh_offset h) (fst e) = Some True"
    if "(s, h, es) \<in> set fin" "e \<in> set es" for s h es e
  proof -
    have "(h, es) \<in> set (map snd fin)" using that(1) by force
    then have "fst e \<in> recorded gs c (unat (bh_offset h) div kFilterBase)" using rec that(2) by blast
    then show ?thesis using filter_policy.recorded_match [OF fp gs(1) _ raw(2)] gs(2) cap by simp
  qed
  ultimately show ?thesis by (intro exI [of _ "Some (fp, ?reader)"]) auto
qed

lemma Open_rep:
  assumes tf: "table_file opts good uncompress data mh fin" and f: "opened data f" and cap: "length (entries (map snd fin)) \<le> cap"
  shows "\<exists>t. Table_Open uncompress new_id opts f (of_nat (length data)) = Some (Status_OK, Some t) \<and> table_rep opts good f mh fin t"
proof -
  obtain ih pre foot where foot: "Footer_EncodeTo \<lparr>metaindex_handle = mh, index_handle = ih\<rparr> [] = Some foot" "data = pre @ foot"
    and h: "bh_offset mh \<noteq> NOT 0" "bh_size mh \<noteq> NOT 0" "bh_offset ih \<noteq> NOT 0" "bh_size ih \<noteq> NOT 0"
    and ih: "block_at uncompress data ih (index_entries fin)" and len: "length data < 2 ^ 32"
    using tf unfolding table_file_def by blast
  have blk: "sep_blocks cmp good (map (\<lambda>(s, _, es). (s, es)) fin)" "blocks_ok uncompress data (map snd fin)" "filter_at uncompress opts data mh (map snd fin)"
    using tf unfolding table_file_def by blast+
  let ?empty = "\<lparr>metaindex_handle = BlockHandle_new, index_handle = BlockHandle_new\<rparr>" and ?F = "\<lparr>metaindex_handle = mh, index_handle = ih\<rparr>"
  have dec: "length foot = kEncodedLength" "Footer_DecodeFrom ?empty foot = Some (Status_OK, ?F, [])"
    using Footer_codec [of ?F ?empty "[]"] h foot(1) by auto
  have k: "kEncodedLength = 48" by (simp add: kEncodedLength_def kMaxEncodedLength_def)
  have sz: "length data = length pre + 48" using foot(2) dec(1) k by simp
  have eq: "of_nat (length data) - of_nat kEncodedLength = (of_nat (length pre) :: u64)" by (simp add: sz k)
  have pre: "unat (of_nat (length pre) :: u64) = length pre" "unat (of_nat kEncodedLength :: u64) = length foot"
    using sz len k dec(1) by simp_all
  have "unat (of_nat (length data) :: u64) = length data" using len by simp
  then have long: "\<not> (of_nat (length data) :: u64) < of_nat kEncodedLength"
    using sz k dec(1) pre(2) unfolding word_less_nat_alt by linarith
  have "holds_at f \<lparr>bh_offset = of_nat (length pre), bh_size = 0\<rparr> foot"
    using f foot(2) pre(1) by (simp add: holds_at_def opened_def)
  from Read_holds [OF this pre(2)]
  have read: "RandomAccessFile_Read (of_nat (length data) - of_nat kEncodedLength) (of_nat kEncodedLength) f = Some (Status_OK, foot, raf_mmap f)"
    by (simp add: eq)
  obtain cont it where it: "Block_NewIterator (Block_new cont) = Some it" "block_rep cmp good it (index_entries fin) None"
    and cont: "\<forall>verify. \<exists>ca ha. ReadBlock uncompress f verify ih = Some (Status_OK, \<lparr>bc_data = cont, cachable = ca, heap_allocated = ha\<rparr>)"
    using block_at_iterator [OF ih f index_sorted [OF blk(1,2)]] by blast
  let ?t = "\<lparr>tab_options = opts, tab_file = f, cache_id = new_id, tab_filter = None, tab_metaindex_handle = mh, tab_index_block = Block_new cont\<rparr>"
  obtain flt where flt: "ReadMeta uncompress ?F ?t = Some (?t\<lparr>tab_filter := flt\<rparr>)"
    "\<forall>fp reader. flt = Some (fp, reader) \<longrightarrow>
       (\<forall>off key. FilterBlock_KeyMayMatch (policy_KeyMayMatch fp) reader off key \<noteq> None) \<and>
       (\<forall>(s, h, es)\<in>set fin. \<forall>e\<in>set es. FilterBlock_KeyMayMatch (policy_KeyMayMatch fp) reader (bh_offset h) (fst e) = Some True)"
    using ReadMeta_rep [OF f blk(3) cap, of ?t ih] by auto
  obtain ca ha where ri: "ReadBlock uncompress f (paranoid_checks opts) ih = Some (Status_OK, \<lparr>bc_data = cont, cachable = ca, heap_allocated = ha\<rparr>)"
    using cont by blast
  have "Table_Open uncompress new_id opts f (of_nat (length data)) = Some (Status_OK, Some (?t\<lparr>tab_filter := flt\<rparr>))"
    using flt(1) by (simp add: Table_Open_def read long dec(2) ri)
  moreover have "table_rep opts good f mh fin (?t\<lparr>tab_filter := flt\<rparr>)" using it flt(2) by (simp add: table_rep_def)
  ultimately show ?thesis by blast
qed

end

section \<open>Blocks through the cache\<close>

text \<open>What the cache returns for a block of the table is that block.\<close>

definition cache_coherent ::
    "(slice \<Rightarrow> slice option) \<Rightarrow> Table \<Rightarrow> BlockHandle set \<Rightarrow> (slice \<Rightarrow> Block option) option \<Rightarrow> bool" where
  "cache_coherent uncompress t hs cache \<longleftrightarrow>
     (\<forall>Lookup h b v c. cache = Some Lookup \<longrightarrow> h \<in> hs \<longrightarrow> Lookup (cache_key t h) = Some b \<longrightarrow>
        ReadBlock uncompress (tab_file t) v h = Some (Status_OK, c) \<longrightarrow> b = Block_new (bc_data c))"

definition table_blk :: "(slice \<times> BlockHandle \<times> kv list) list \<Rightarrow> slice \<Rightarrow> kv list" where
  "table_blk fin v = (case map_of (map snd fin) (fst (snd (BlockHandle_DecodeFrom BlockHandle_new v))) of Some es \<Rightarrow> es | None \<Rightarrow> [])"

lemma table_blk_nth: "distinct (map fst (map snd fin)) \<Longrightarrow> (s, h, es) \<in> set fin \<Longrightarrow> table_blk fin (handle_bytes h) = es"
  by (subgoal_tac "(h, es) \<in> set (map snd fin)") (simp_all add: table_blk_def decode_handle, force)

lemma entries_member:
  assumes "(h, es) \<in> set bs" "sorted_wrt P (entries bs)"
  shows "sorted_wrt P es" "set es \<subseteq> set (entries bs)"
proof -
  obtain as cs where "bs = as @ (h, es) # cs" using split_list [OF assms(1)] by blast
  then show "sorted_wrt P es" "set es \<subseteq> set (entries bs)" using assms(2) by (auto simp: sorted_wrt_append)
qed

context table_env
begin

lemma BlockReader_rep:
  assumes tf: "table_file opts good uncompress data mh fin" and f: "opened data f" and t: "table_rep opts good f mh fin t"
    and mem: "(s, h, es) \<in> set fin" and cache: "cache_coherent uncompress t (fst ` snd ` set fin) cache"
  shows "\<exists>d ins. BlockReader uncompress cache t ro (handle_bytes h) = Some (d, ins) \<and> block_rep cmp good d es None"
proof -
  have "block_at uncompress data h es" using tf mem by (force simp: table_file_def blocks_ok_def)
  moreover have "sorted_wrt (\<lambda>a b. cmp (fst a) (fst b) < 0) es" "\<forall>e\<in>set es. good (fst e)"
    using entries_member [of h es "map snd fin"] tf mem unfolding table_file_def by force+
  ultimately obtain cont it where it: "Block_NewIterator (Block_new cont) = Some it" "block_rep cmp good it es None"
    and cont: "\<forall>verify. \<exists>ca ha. ReadBlock uncompress f verify h = Some (Status_OK, \<lparr>bc_data = cont, cachable = ca, heap_allocated = ha\<rparr>)"
    using block_at_iterator [OF _ f] by blast
  have tfile: "tab_file t = f" using t by (simp add: table_rep_def)
  obtain ca ha where rb: "ReadBlock uncompress f (verify_checksums ro) h = Some (Status_OK, \<lparr>bc_data = cont, cachable = ca, heap_allocated = ha\<rparr>)"
    using cont by blast
  have hs: "h \<in> fst ` snd ` set fin" using mem by force
  show ?thesis
  proof (cases "\<exists>Lookup b. cache = Some Lookup \<and> Lookup (cache_key t h) = Some b")
    case True
    then obtain Lookup b where lk: "cache = Some Lookup" "Lookup (cache_key t h) = Some b" by blast
    then have "b = Block_new cont" using cache hs rb tfile unfolding cache_coherent_def by fastforce
    then show ?thesis using lk it rb tfile by (simp add: BlockReader_def decode_handle Let_def)
  next
    case False
    then show ?thesis using it rb tfile by (auto simp: BlockReader_def decode_handle Let_def split: option.split)
  qed
qed

end

section \<open>The iterator over a table\<close>

definition block_readable ::
    "(slice \<Rightarrow> slice option) \<Rightarrow> (slice \<Rightarrow> slice \<Rightarrow> int) \<Rightarrow> (slice \<Rightarrow> bool) \<Rightarrow> (slice \<Rightarrow> Block option) option \<Rightarrow> Table \<Rightarrow> ReadOptions \<Rightarrow>
      (slice \<times> BlockHandle \<times> kv list) list \<Rightarrow> slice \<Rightarrow> bool" where
  "block_readable uncompress cmp good cache t ro fin v \<longleftrightarrow>
     (\<exists>d. table_block uncompress cache t ro v = Some d \<and> block_rep cmp good d (table_blk fin v) None)"

lemma table_two_level:
  assumes "comparator cmp good"
  shows "two_level (block_ops cmp) (block_rep cmp good) (block_ops cmp) (block_rep cmp good) cmp good
    (table_block uncompress cache t ro) (table_blk fin) (block_readable uncompress cmp good cache t ro fin)"
  using assms block_iterator [OF assms] by (simp add: two_level_def two_level_axioms_def block_readable_def)

interpretation bytewise_table: two_level "block_ops BytewiseCompare" "block_rep BytewiseCompare (\<lambda>_. True)"
    "block_ops BytewiseCompare" "block_rep BytewiseCompare (\<lambda>_. True)" BytewiseCompare "\<lambda>_. True"
    "table_block uncompress cache t ro" "table_blk fin" "block_readable uncompress BytewiseCompare (\<lambda>_. True) cache t ro fin"
  for uncompress cache t ro fin
  by (rule table_two_level) (rule bytewise.comparator_axioms)

interpretation internal_table: two_level "block_ops (InternalKeyCompare BytewiseCompare)"
    "block_rep (InternalKeyCompare BytewiseCompare) (valid_ikey (\<lambda>_. True))" "block_ops (InternalKeyCompare BytewiseCompare)"
    "block_rep (InternalKeyCompare BytewiseCompare) (valid_ikey (\<lambda>_. True))" "InternalKeyCompare BytewiseCompare" "valid_ikey (\<lambda>_. True)"
    "table_block uncompress cache t ro" "table_blk fin"
    "block_readable uncompress (InternalKeyCompare BytewiseCompare) (valid_ikey (\<lambda>_. True)) cache t ro fin"
  for uncompress cache t ro fin
  by (rule table_two_level) (rule internal_bytewise.comparator_axioms)

lemma flat_index:
  "\<forall>(s, h, es)\<in>set fin. blk (handle_bytes h) = es \<Longrightarrow> flat blk (index_entries fin) = entries (map snd fin)"
  by (induction fin) (auto simp: index_entries_def)

lemma separated_index:
  "\<forall>(s, h, es)\<in>set fin. blk (handle_bytes h) = es \<Longrightarrow> sep_blocks cmp good (map (\<lambda>(s, _, es). (s, es)) fin) \<Longrightarrow>
    separated cmp good blk (index_entries fin)"
proof (induction fin)
  case (Cons x fin)
  obtain s h es where x: "x = (s, h, es)" by (metis prod_cases3)
  have "flat blk (index_entries fin) = entries (map snd fin)" using Cons.prems(1) by (intro flat_index) auto
  moreover have "\<forall>e\<in>set (entries (map snd fin)). cmp s (fst e) < 0" "good s" "\<forall>e\<in>set es. good (fst e) \<and> cmp (fst e) s \<le> 0"
    using Cons.prems(2) by (force simp: sep_blocks_def x entries_def)+
  moreover have "separated cmp good blk (index_entries fin)" using Cons by (auto simp: sep_blocks_def x)
  ultimately show ?case using Cons.prems(1) by (simp add: index_entries_def x)
qed (simp add: index_entries_def)

lemma separated_later:
  "separated cmp good blk ixs \<Longrightarrow> j < length ixs \<Longrightarrow> base blk ixs (Suc j) \<le> i \<Longrightarrow> i < length (flat blk ixs) \<Longrightarrow>
    cmp (fst (ixs ! j)) (fst (flat blk ixs ! i)) < 0"
proof (induction ixs arbitrary: i j)
  case (Cons ix ixs)
  let ?n = "length (blk (snd ix))"
  have i: "?n \<le> i" "i - ?n < length (flat blk ixs)" using Cons.prems(3,4) by auto
  show ?case
  proof (cases j)
    case 0
    then show ?thesis using Cons.prems(1) i nth_mem [OF i(2)] by (auto simp: nth_append)
  next
    case (Suc j')
    then show ?thesis using Cons.IH [of j' "i - ?n"] Cons.prems i by (simp add: nth_append)
  qed
qed simp

context table_env
begin

lemma table_file_blk:
  "table_file opts good uncompress data mh fin \<Longrightarrow> \<forall>(s, h, es)\<in>set fin. table_blk fin (handle_bytes h) = es"
  using table_blk_nth [of fin] by (fastforce simp: table_file_def blocks_ok_def)

lemma NewIterator_rep:
  assumes tf: "table_file opts good uncompress data mh fin" and f: "opened data f" and t: "table_rep opts good f mh fin t"
    and cache: "cache_coherent uncompress t (fst ` snd ` set fin) cache"
  shows "\<exists>it. Table_NewIterator t = Some it \<and>
    two_rep cmp good (block_readable uncompress cmp good cache t ro fin) (table_blk fin) (block_rep cmp good) (block_rep cmp good) it
      (entries (map snd fin)) None"
proof -
  obtain i where i: "Block_NewIterator (tab_index_block t) = Some i" "block_rep cmp good i (index_entries fin) None"
    using t by (auto simp: table_rep_def)
  note blk = table_file_blk [OF tf]
  obtain w where w: "Wrapper_Update (block_ops cmp) i \<lparr>iw_iter = None, iw_valid = False, iw_key = []\<rparr> = Some w" "wrap_rep (block_rep cmp good) w (index_entries fin) None"
    using iterator.Wrapper_Update_rep [OF block_iterator [OF cmp_contract] i(2)] by blast
  have ok: "block_readable uncompress cmp good cache t ro fin (handle_bytes h)" if "(s, h, es) \<in> set fin" for s h es
    using BlockReader_rep [OF tf f t that cache, of ro] that blk by (fastforce simp: block_readable_def table_block_def)
  let ?it = "\<lparr>tl_status = Status_OK, index_iter = w, data_iter = \<lparr>iw_iter = None, iw_valid = False, iw_key = []\<rparr>, data_block_handle = []\<rparr>"
  have "Table_NewIterator t = Some ?it"
    using i(1) w(1) t by (simp add: Table_NewIterator_def TwoLevelIterator_new_def Wrapper_Set_def table_rep_def)
  moreover have "between (block_readable uncompress cmp good cache t ro fin) (table_blk fin) (block_rep cmp good) (block_rep cmp good) ?it (index_entries fin) None"
    using w(2) ok by (auto simp: between_def index_entries_def)
  moreover have "separated cmp good (table_blk fin) (index_entries fin)" using separated_index [OF blk] tf by (simp add: table_file_def)
  ultimately show ?thesis
    using flat_index [OF blk] unfolding two_rep_def option.case
    by (intro exI [of _ ?it] conjI exI [of _ "index_entries fin"] exI [of _ None]) simp_all
qed

lemma table_scans:
  assumes tf: "table_file opts good uncompress data mh fin" and f: "opened data f" and t: "table_rep opts good f mh fin t"
    and cache: "cache_coherent uncompress t (fst ` snd ` set fin) cache"
  shows "\<exists>it. Table_NewIterator t = Some it \<and>
    scan_forward (table_ops uncompress cache t ro) (Suc (length (entries (map snd fin)))) it = Some (entries (map snd fin)) \<and>
    scan_backward (table_ops uncompress cache t ro) (Suc (length (entries (map snd fin)))) it = Some (rev (entries (map snd fin))) \<and>
    (\<forall>target. good target \<longrightarrow>
      scan_from (table_ops uncompress cache t ro) target (Suc (length (entries (map snd fin)))) it =
        Some (dropWhile (\<lambda>e. cmp (fst e) target < 0) (entries (map snd fin))))"
proof -
  obtain it where it: "Table_NewIterator t = Some it"
    "two_rep cmp good (block_readable uncompress cmp good cache t ro fin) (table_blk fin) (block_rep cmp good) (block_rep cmp good) it (entries (map snd fin)) None"
    using NewIterator_rep [OF assms] by blast
  have ops: "table_ops uncompress cache t ro = two_level_ops (block_ops cmp) (block_ops cmp) (table_block uncompress cache t ro)"
    using t by (simp add: table_ops_def table_rep_def)
  have "iterator (table_ops uncompress cache t ro)
      (two_rep cmp good (block_readable uncompress cmp good cache t ro fin) (table_blk fin) (block_rep cmp good) (block_rep cmp good)) cmp good"
    unfolding ops by (rule two_level.two_level_iterator) (rule table_two_level [OF cmp_contract])
  note scan = iterator.scans [OF this, OF it(2) lessI]
  show ?thesis using it(1) scan(1,2,3) by blast
qed

end

section \<open>Lookups\<close>

context table_env
begin

text \<open>The search in the block the index names, without the filter.\<close>

lemma get_block:
  assumes tf: "table_file opts good uncompress data mh fin" and f: "opened data f" and t: "table_rep opts good f mh fin t"
    and cache: "cache_coherent uncompress t (fst ` snd ` set fin) cache" and k: "good k" and mem: "(s, h, es) \<in> set fin"
  shows "\<exists>ins. Option.bind (BlockReader uncompress cache t ro (handle_bytes h)) (\<lambda>(block_iter, ins).
      Option.bind (it_Seek (block_ops cmp) k block_iter) (\<lambda>block_iter.
        if it_Valid (block_ops cmp) block_iter then
          (case (it_key (block_ops cmp) block_iter, it_value (block_ops cmp) block_iter) of
             (Some key, Some value) \<Rightarrow> Some (it_status (block_ops cmp) block_iter, Some (key, value), ins)
           | _ \<Rightarrow> None)
        else Some (it_status (block_ops cmp) block_iter, None, ins))) =
    Some (Status_OK, if seek_pos cmp es k < length es then Some (es ! seek_pos cmp es k) else None, ins)"
proof -
  obtain d ins where d: "BlockReader uncompress cache t ro (handle_bytes h) = Some (d, ins)" "block_rep cmp good d es None"
    using BlockReader_rep [OF tf f t mem cache] by blast
  note blk = block_iterator [OF cmp_contract]
  obtain d' where d': "it_Seek (block_ops cmp) k d = Some d'" "block_rep cmp good d' es (entry_pos es (seek_pos cmp es k))"
    using iterator.to_target [OF blk, OF d(2) k] by blast
  have st: "it_status (block_ops cmp) d' = Status_OK" using iterator.status [OF blk, OF d'(2)] .
  show ?thesis
  proof (cases "seek_pos cmp es k < length es")
    case True
    then have "block_rep cmp good d' es (Some (seek_pos cmp es k))" using d'(2) by (simp add: entry_pos_def)
    from iterator.at_some [OF blk, OF this] show ?thesis using d(1) d'(1) st True by simp
  next
    case False
    then have "block_rep cmp good d' es None" using d'(2) by (simp add: entry_pos_def)
    from iterator.at_none [OF blk, OF this] show ?thesis using d(1) d'(1) st False by simp
  qed
qed

lemma seek_pos_key:
  assumes "sorted_wrt (\<lambda>a b. cmp (fst a) (fst b) < 0) kvs" "i < length kvs" "good (fst (kvs ! i))"
  shows "seek_pos cmp kvs (fst (kvs ! i)) = i"
proof -
  let ?p = "seek_pos cmp kvs (fst (kvs ! i))"
  have "\<not> i < ?p" using seek_pos_less [of i cmp kvs "fst (kvs ! i)"] comparator.refl [OF cmp_contract assms(3)] by auto
  moreover have "\<not> ?p < i"
    using seek_pos_at [of cmp kvs "fst (kvs ! i)"] sorted_wrt_nth_less [OF assms(1), of ?p i] assms(2) by auto
  ultimately show ?thesis by simp
qed

lemma InternalGet_rep:
  assumes tf: "table_file opts good uncompress data mh fin" and f: "opened data f" and t: "table_rep opts good f mh fin t"
    and cache: "cache_coherent uncompress t (fst ` snd ` set fin) cache" and k: "good k"
  defines "kvs \<equiv> entries (map snd fin)"
  shows "\<exists>saved ins. InternalGet uncompress cache t ro k = Some (Status_OK, saved, ins) \<and>
    (saved = None \<or> seek_pos cmp kvs k < length kvs \<and> saved = Some (kvs ! seek_pos cmp kvs k)) \<and>
    (k \<in> fst ` set kvs \<longrightarrow> saved = Some (kvs ! seek_pos cmp kvs k))"
proof -
  let ?ixs = "index_entries fin" and ?blk = "table_blk fin"
  note blk = table_file_blk [OF tf] and bi = block_iterator [OF cmp_contract]
  have flat: "flat ?blk ?ixs = kvs" and sep: "separated cmp good ?blk ?ixs"
    using flat_index [OF blk] separated_index [OF blk] tf by (simp_all add: table_file_def kvs_def)
  have srt: "sorted_wrt (\<lambda>a b. cmp (fst a) (fst b) < 0) kvs" "\<forall>e\<in>set kvs. good (fst e)" using tf unfolding table_file_def kvs_def by blast+
  have opt: "tab_options t = opts" using t by (simp add: table_rep_def)
  obtain it where it: "Block_NewIterator (tab_index_block t) = Some it" "block_rep cmp good it ?ixs None" using t by (auto simp: table_rep_def)
  let ?j = "seek_pos cmp ?ixs k"
  obtain it' where it': "it_Seek (block_ops cmp) k it = Some it'" "block_rep cmp good it' ?ixs (entry_pos ?ixs ?j)"
    using iterator.to_target [OF bi, OF it(2) k] by blast
  have st: "it_status (block_ops cmp) it' = Status_OK" using iterator.status [OF bi, OF it'(2)] .
  have pos: "seek_pos cmp kvs k = base ?blk ?ixs ?j + (if ?j < length ?ixs then seek_pos cmp (?blk (snd (?ixs ! ?j))) k else 0)"
    using two_level.seek_flat [OF table_two_level [OF cmp_contract], OF sep k] flat by (simp add: Let_def)
  have key: "seek_pos cmp kvs k < length kvs \<and> fst (kvs ! seek_pos cmp kvs k) = k" if kk: "k \<in> fst ` set kvs"
  proof -
    obtain i where "i < length kvs" "fst (kvs ! i) = k" using kk by (metis imageE in_set_conv_nth)
    then show ?thesis using seek_pos_key [OF srt(1), of i] k by simp
  qed
  show ?thesis
  proof (cases "?j < length ?ixs")
    case False
    then have none: "\<not> it_Valid (block_ops cmp) it'" using iterator.at_none [OF bi] it'(2) by (simp add: entry_pos_def)
    have "k \<notin> fst ` set kvs" using key pos False base_length [of ?ixs ?j ?blk] flat by auto
    then show ?thesis using it(1) it'(1) none st opt by (simp add: InternalGet_def)
  next
    case True
    then obtain s h es where mem: "fin ! ?j = (s, h, es)" "(s, h, es) \<in> set fin"
      by (metis index_entries_def length_map nth_mem prod_cases3)
    have ix: "?ixs ! ?j = (s, handle_bytes h)" "?blk (handle_bytes h) = es" using True mem blk by (auto simp: index_entries_def)
    have at: "it_Valid (block_ops cmp) it'" "it_value (block_ops cmp) it' = Some (handle_bytes h)"
      using iterator.at_some [OF bi, of it' ?ixs ?j] it'(2) True ix(1) by (auto simp: entry_pos_def)
    let ?q = "seek_pos cmp es k"
    let ?get = "if ?q < length es then Some (es ! ?q) else None"
    have pos': "seek_pos cmp kvs k = base ?blk ?ixs ?j + ?q" using pos True ix by simp
    have found: "?get = Some (kvs ! seek_pos cmp kvs k) \<and> seek_pos cmp kvs k < length kvs" if "?q < length es"
      using flat_nth [OF True, of ?q ?blk] that ix flat pos' by simp
    have here: "?q < length es" if kk: "k \<in> fst ` set kvs"
    proof (rule ccontr)
      assume "\<not> ?q < length es"
      then have "base ?blk ?ixs (Suc ?j) \<le> seek_pos cmp kvs k" using pos' base_Suc [OF True, of ?blk] ix by simp
      then have "cmp s k < 0" using separated_later [OF sep True] key [OF kk] flat ix(1) by fastforce
      then show False using seek_pos_at [OF True] ix(1) by simp
    qed
    obtain ins where body: "Option.bind (BlockReader uncompress cache t ro (handle_bytes h)) (\<lambda>(block_iter, ins).
      Option.bind (it_Seek (block_ops cmp) k block_iter) (\<lambda>block_iter.
        if it_Valid (block_ops cmp) block_iter then
          (case (it_key (block_ops cmp) block_iter, it_value (block_ops cmp) block_iter) of
             (Some key, Some value) \<Rightarrow> Some (it_status (block_ops cmp) block_iter, Some (key, value), ins)
           | _ \<Rightarrow> None)
        else Some (it_status (block_ops cmp) block_iter, None, ins))) = Some (Status_OK, ?get, ins)"
      using get_block [OF tf f t cache k mem(2)] by blast
    define may where "may = (case tab_filter t of None \<Rightarrow> Some True
        | Some (fp, reader) \<Rightarrow> FilterBlock_KeyMayMatch (policy_KeyMayMatch fp) reader (bh_offset h) k)"
    have mayN: "may \<noteq> None" using t by (auto simp: may_def table_rep_def split: option.split)
    have mayT: "may = Some True" if kk: "k \<in> fst ` set kvs"
    proof -
      have "es ! ?q \<in> set es" using here [OF kk] by (rule nth_mem)
      moreover have "fst (es ! ?q) = k" using here [OF kk] found key [OF kk] by auto
      ultimately show ?thesis using t mem(2) by (fastforce simp: may_def table_rep_def split: option.split)
    qed
    have get: "InternalGet uncompress cache t ro k =
        (if the may then Some (Status_OK, ?get, ins) else Some (Status_OK, None, None))"
      using it(1) it'(1) at st opt mayN body
      by (auto simp: InternalGet_def may_def decode_handle Let_def split: option.splits)
    show ?thesis
    proof (cases "the may")
      case True
      then show ?thesis using get found here by auto
    next
      case False
      then have "k \<notin> fst ` set kvs" using mayT by (metis option.sel)
      then show ?thesis using get False by simp
    qed
  qed
qed

end

section \<open>A table written and read\<close>

context table_env
begin

lemma Flush_any:
  assumes r: "tb_rep opts good uncompress r fin pend cur" "file_rep S F r" and size: "table_size (entries (all_blocks fin pend) @ cur) < 2 ^ 32"
  shows "\<exists>r'. TableBuilder_Flush compress r = Some r' \<and> file_rep S F r' \<and> \<not> closed r' \<and>
    (TableBuilder_ok r' \<longrightarrow> (\<exists>pend'. tb_rep opts good uncompress r' fin pend' [] \<and> entries (all_blocks fin pend') = entries (all_blocks fin pend) @ cur))"
proof (cases pend)
  case None
  have "(\<Sum>(k, v)\<leftarrow>cur. length k + length v + 19) + 8 < 2 ^ 32"
    using size entry_size_le [of cur] by (simp add: table_size_def)
  from Flush_rep [OF r(1) [unfolded None] r(2) this] show ?thesis by (simp add: None)
next
  case (Some p)
  then have cur: "cur = []" using r(1) by (cases p) (simp add: tb_rep_def)
  then have "bb_buffer (data_block r) = []" using r(1) data_ok_empty [of opts "data_block r" cur] by (simp add: tb_rep_def)
  then have "TableBuilder_Flush compress r = Some r" using tb_rep_entries(5,6) [OF r(1)] by (simp add: TableBuilder_Flush_def)
  then show ?thesis using r cur tb_rep_entries(6) [OF r(1)] by auto
qed

lemma build_table:
  assumes f: "wf_data f = []" "wf_space f < 2 ^ 32"
    and kvs: "sorted_wrt (\<lambda>a b. cmp (fst a) (fst b) < 0) kvs" "\<forall>e\<in>set kvs. good (fst e)" "table_size kvs < 2 ^ 32"
  shows "\<exists>r0 r1 r. TableBuilder_new opts f = Some r0 \<and> table_adds compress kvs r0 = Some r1 \<and> TableBuilder_Finish compress r1 = Some r \<and>
    file_rep (wf_space f) (wf_flushes f) r \<and>
    (TableBuilder_ok r \<longrightarrow> (\<exists>mh fin. table_file opts good uncompress (wf_data (tb_file r)) mh fin \<and> entries (map snd fin) = kvs))"
proof -
  let ?S = "wf_space f" and ?F = "wf_flushes f"
  obtain r0 where r0: "TableBuilder_new opts f = Some r0" "file_rep ?S ?F r0" "tb_rep opts good uncompress r0 [] None []"
    using TableBuilder_new_rep [OF f] by blast
  have nil: "entries (all_blocks [] None) = []" by (simp add: all_blocks_def)
  obtain r1 where r1: "table_adds compress kvs r0 = Some r1" "file_rep ?S ?F r1" "\<not> closed r1"
    and ok1: "TableBuilder_ok r1 \<Longrightarrow> \<exists>fin pend cur. tb_rep opts good uncompress r1 fin pend cur \<and> entries (all_blocks fin pend) @ cur = kvs"
    using table_adds_rep [OF r0(2,3), of kvs, unfolded nil append_Nil] kvs by blast
  have dead: "TableBuilder_Finish compress r1 = Some (r2\<lparr>closed := True\<rparr>)"
    if "TableBuilder_Flush compress r1 = Some r2" "\<not> closed r2" "\<not> TableBuilder_ok r2" for r2
    using that finish_dead [of "r2\<lparr>closed := True\<rparr>"] by (simp add: TableBuilder_Finish_def TableBuilder_ok_def)
  have closed: "file_rep ?S ?F (r\<lparr>closed := True\<rparr>) = file_rep ?S ?F r" "TableBuilder_ok (r\<lparr>closed := True\<rparr>) = TableBuilder_ok r" for r
    by (simp_all add: file_rep_def TableBuilder_ok_def)
  have "\<exists>r. TableBuilder_Finish compress r1 = Some r \<and> file_rep ?S ?F r \<and>
    (TableBuilder_ok r \<longrightarrow> (\<exists>mh fin. table_file opts good uncompress (wf_data (tb_file r)) mh fin \<and> entries (map snd fin) = kvs))"
  proof (cases "TableBuilder_ok r1")
    case False
    then have "TableBuilder_Flush compress r1 = Some r1" using r1(3) by (simp add: TableBuilder_Flush_def)
    then show ?thesis using dead [of r1] r1 False closed by auto
  next
    case True
    then obtain fin pend cur where rep: "tb_rep opts good uncompress r1 fin pend cur" "entries (all_blocks fin pend) @ cur = kvs" using ok1 by blast
    obtain r2 where r2: "TableBuilder_Flush compress r1 = Some r2" "file_rep ?S ?F r2" "\<not> closed r2"
      and ok2: "TableBuilder_ok r2 \<Longrightarrow> \<exists>pend. tb_rep opts good uncompress r2 fin pend [] \<and> entries (all_blocks fin pend) = kvs"
      using Flush_any [OF rep(1) r1(2)] rep(2) kvs(3) by auto
    show ?thesis
    proof (cases "TableBuilder_ok r2")
      case False
      then show ?thesis using dead [OF r2(1,3) False] r2 closed by auto
    next
      case ok: True
      then obtain pend' where p: "tb_rep opts good uncompress r2 fin pend' []" "entries (all_blocks fin pend') = kvs" using ok2 by blast
      obtain fh r3 where w: "write_filter (r2\<lparr>closed := True\<rparr>) = (fh, r3)" by fastforce
      have "table_size (entries (all_blocks fin pend')) < 2 ^ 32" using kvs(3) p(2) by simp
      from finish_tail [OF _ _ p(1) refl this w] show ?thesis
        using r2 ok closed p(2) w by (fastforce simp: TableBuilder_Finish_def)
    qed
  qed
  then show ?thesis using r0(1) r1(1) by blast
qed

end

section \<open>The tables of the database\<close>

text \<open>
  The environments the library provides: the default options with any block size and restart interval and
  with or without a Bloom filter, for user keys and for internal keys.
\<close>

definition table_options :: "nat \<Rightarrow> nat \<Rightarrow> (u32 \<times> nat) option \<Rightarrow> Options" where
  "table_options n i pol =
     Options_new\<lparr>opt_block_size := n, block_restart_interval := Suc i,
       opt_filter_policy := map_option (\<lambda>(b, k). NewBloomFilterPolicy (ucast b) k) pol\<rparr>"

definition internal_table_options :: "nat \<Rightarrow> nat \<Rightarrow> (u32 \<times> nat) option \<Rightarrow> Options" where
  "internal_table_options n i pol =
     (let o' = table_options n i pol
      in o'\<lparr>opt_comparator := InternalKeyComparator (opt_comparator o'), opt_filter_policy := map_option InternalFilterPolicy (opt_filter_policy o')\<rparr>)"

lemma filter_policy_mono:
  "filter_policy create may_match adm \<Longrightarrow> (\<And>ks. adm' ks \<Longrightarrow> adm ks) \<Longrightarrow> filter_policy create may_match adm'"
  unfolding filter_policy_def by blast

lemma bloom_capacity: "length (ks :: slice list) \<le> 2 ^ 31 \<Longrightarrow> length ks * unat (ucast (b :: u32) :: u64) + 7 < 2 ^ 64"
proof -
  assume "length ks \<le> 2 ^ 31"
  then have "length ks * unat b \<le> 2 ^ 31 * 2 ^ 32" using unat_u32 [of b] by (intro mult_le_mono) simp_all
  then show ?thesis by simp
qed

lemma bytewise_separator_length: "length (BytewiseShortestSeparator a b) \<le> length a"
  using ShortestSeparator_cases [of a b] by auto

lemma internal_separator_length:
  "length (InternalShortestSeparator BytewiseCompare BytewiseShortestSeparator a b) \<le> length a"
  "length (InternalShortSuccessor BytewiseCompare BytewiseShortSuccessor a) \<le> length a"
  by (auto simp: InternalShortestSeparator_def InternalShortSuccessor_def Let_def PutFixed64_def ExtractUserKey_def EncodeFixed64_def)

lemmas table_option_defs = table_options_def internal_table_options_def Options_new_def BytewiseComparator_def InternalKeyComparator_def
  NewBloomFilterPolicy_def InternalFilterPolicy_def Snappy_Compress_def str_def Let_def

interpretation user_table_env: table_env "table_options n i pol" "\<lambda>_. True" Snappy_Compress Snappy_Uncompress "2 ^ 31" for n i pol
proof (rule table_env.intro, goal_cases)
  case 1
  then show ?case using bytewise.key_comparator_axioms by (simp add: table_option_defs)
next
  case (7 fp)
  then show ?case
    using filter_policy_mono [OF bloom.filter_policy_axioms bloom_capacity] by (auto simp: table_option_defs)
qed (simp_all add: table_option_defs bytewise_separator_length ShortSuccessor_length)

interpretation internal_table_env: table_env "internal_table_options n i pol" "valid_ikey (\<lambda>_. True)" Snappy_Compress Snappy_Uncompress "2 ^ 31"
  for n i pol
proof (rule table_env.intro, goal_cases)
  case 1
  then show ?case using internal_bytewise.key_comparator_axioms by (simp add: table_option_defs)
next
  case (7 fp)
  have adm: "length ks \<le> 2 ^ 31 \<Longrightarrow> length (map ExtractUserKey ks) * unat (ucast (b :: u32) :: u64) + 7 < 2 ^ 64" for ks b
    using bloom_capacity [of ks b] by simp
  show ?case using 7 filter_policy_mono [OF internal_bloom.filter_policy_axioms adm] by (auto simp: table_option_defs)
qed (simp_all add: table_option_defs internal_separator_length)

text \<open>
  C31: A table file is a faithful store.  With any comparator, block size, restart interval, compression and filter
  that keep their contracts, adding strictly increasing keys and finishing never fails an assertion.
  An error is reported only when the disk is full or a flush fails; otherwise opening the file
  succeeds and the two-level iterator yields exactly the entries: in order, in reverse, and from any
  target on.
\<close>

theorem table_round_trip:
  assumes env: "table_env opts good compress uncompress cap" and f: "wf_data f = []" "wf_space f < 2 ^ 32"
    and kvs: "sorted_wrt (\<lambda>a b. Compare (opt_comparator opts) (fst a) (fst b) < 0) kvs" "\<forall>e\<in>set kvs. good (fst e)"
      "length kvs \<le> cap" "(\<Sum>(k, v)\<leftarrow>kvs. length k + length v + 39) + 8 < 2 ^ 32"
    and target: "good target"
  shows "\<exists>r0 r1 r. TableBuilder_new opts f = Some r0 \<and> table_adds compress kvs r0 = Some r1 \<and> TableBuilder_Finish compress r1 = Some r \<and>
    (wf_flushes f \<and> 0 < wf_space (tb_file r) \<longrightarrow> TableBuilder_ok r) \<and> length (wf_data (tb_file r)) \<le> wf_space f \<and>
    (TableBuilder_ok r \<longrightarrow> (\<forall>rf. opened (wf_data (tb_file r)) rf \<longrightarrow>
      (\<exists>t it. Table_Open uncompress new_id opts rf (FileSize r) = Some (Status_OK, Some t) \<and> Table_NewIterator t = Some it \<and>
        scan_forward (table_ops uncompress None t ro) (Suc (length kvs)) it = Some kvs \<and>
        scan_backward (table_ops uncompress None t ro) (Suc (length kvs)) it = Some (rev kvs) \<and>
        scan_from (table_ops uncompress None t ro) target (Suc (length kvs)) it =
          Some (dropWhile (\<lambda>e. Compare (opt_comparator opts) (fst e) target < 0) kvs))))"
proof -
  obtain r0 r1 r where b: "TableBuilder_new opts f = Some r0" "table_adds compress kvs r0 = Some r1" "TableBuilder_Finish compress r1 = Some r"
    and frep: "file_rep (wf_space f) (wf_flushes f) r"
    and ok: "TableBuilder_ok r \<Longrightarrow> \<exists>mh fin. table_file opts good uncompress (wf_data (tb_file r)) mh fin \<and> entries (map snd fin) = kvs"
    using table_env.build_table [OF env f kvs(1,2) kvs(4) [folded table_size_def]] by blast
  have read: "\<exists>t it. Table_Open uncompress new_id opts rf (FileSize r) = Some (Status_OK, Some t) \<and> Table_NewIterator t = Some it \<and>
        scan_forward (table_ops uncompress None t ro) (Suc (length kvs)) it = Some kvs \<and>
        scan_backward (table_ops uncompress None t ro) (Suc (length kvs)) it = Some (rev kvs) \<and>
        scan_from (table_ops uncompress None t ro) target (Suc (length kvs)) it =
          Some (dropWhile (\<lambda>e. Compare (opt_comparator opts) (fst e) target < 0) kvs)"
    if good: "TableBuilder_ok r" and rf: "opened (wf_data (tb_file r)) rf" for rf
  proof -
    obtain mh fin where tf: "table_file opts good uncompress (wf_data (tb_file r)) mh fin" "entries (map snd fin) = kvs" using ok [OF good] by blast
    have "FileSize r = of_nat (length (wf_data (tb_file r)))" using frep good by (simp add: FileSize_def file_rep_def)
    then obtain t where t: "Table_Open uncompress new_id opts rf (FileSize r) = Some (Status_OK, Some t)" "table_rep opts good rf mh fin t"
      using table_env.Open_rep [OF env tf(1) rf, of new_id] tf(2) kvs(3) by auto
    have "cache_coherent uncompress t (fst ` snd ` set fin) None" by (simp add: cache_coherent_def)
    from table_env.table_scans [OF env tf(1) rf t(2) this, of ro, unfolded tf(2)] show ?thesis using t(1) target by blast
  qed
  have "wf_flushes f \<and> 0 < wf_space (tb_file r) \<longrightarrow> TableBuilder_ok r" "length (wf_data (tb_file r)) \<le> wf_space f"
    using frep by (auto simp: file_rep_def split: if_splits)
  then show ?thesis using b read by blast
qed

text \<open>A small table of two data blocks: nothing fails while it is written.\<close>

definition small_kvs :: "kv list" where
  "small_kvs = [([1], [7]), ([1, 2], []), ([3], [9, 9])]"

definition small_file :: WritableFile where
  "small_file = \<lparr>wf_name = [], wf_data = [], wf_space = 250, wf_flushes = True, wf_error = []\<rparr>"

lemma small_table:
  "map_option (\<lambda>r. wf_space (tb_file r) = 0)
     (Option.bind (TableBuilder_new (table_options 15 1 None) small_file)
       (\<lambda>r. Option.bind (table_adds Snappy_Compress small_kvs r) (TableBuilder_Finish Snappy_Compress))) = Some False"
  by code_simp

lemma small_kvs_ok:
  "sorted_wrt (\<lambda>a b. Compare (opt_comparator (table_options 15 1 None)) (fst a) (fst b) < 0) small_kvs"
  "(\<Sum>(k, v)\<leftarrow>small_kvs. length k + length v + 39) + 8 < 2 ^ 32" "length small_kvs \<le> 2 ^ 31"
  "wf_data small_file = []" "wf_space small_file < 2 ^ 32" "wf_flushes small_file"
  "rev small_kvs = [([3], [9, 9]), ([1, 2], []), ([1], [7])]"
  "dropWhile (\<lambda>e. Compare (opt_comparator (table_options 15 1 None)) (fst e) [2] < 0) small_kvs = [([3], [9, 9])]"
  by (simp_all add: small_kvs_def small_file_def table_option_defs BytewiseCompare_def)

theorem table_round_trip_witness:
  "\<exists>r0 r1 r t it. TableBuilder_new (table_options 15 1 None) small_file = Some r0 \<and> table_adds Snappy_Compress small_kvs r0 = Some r1 \<and>
    TableBuilder_Finish Snappy_Compress r1 = Some r \<and> TableBuilder_ok r \<and>
    Table_Open Snappy_Uncompress 5 (table_options 15 1 None)
      \<lparr>raf_name = [], raf_data = wf_data (tb_file r), raf_mmap = False, raf_fails = False, raf_error = []\<rparr> (FileSize r) = Some (Status_OK, Some t) \<and>
    Table_NewIterator t = Some it \<and>
    scan_forward (table_ops Snappy_Uncompress None t \<lparr>verify_checksums = True, fill_cache = True\<rparr>) 4 it = Some small_kvs \<and>
    scan_backward (table_ops Snappy_Uncompress None t \<lparr>verify_checksums = True, fill_cache = True\<rparr>) 4 it = Some [([3], [9, 9]), ([1, 2], []), ([1], [7])] \<and>
    scan_from (table_ops Snappy_Uncompress None t \<lparr>verify_checksums = True, fill_cache = True\<rparr>) [2] 4 it = Some [([3], [9, 9])]"
proof -
  let ?o = "table_options 15 1 None" and ?ro = "\<lparr>verify_checksums = True, fill_cache = True\<rparr>"
  have n: "Suc (length small_kvs) = 4" by (simp add: small_kvs_def)
  obtain r0 r1 r where b: "TableBuilder_new ?o small_file = Some r0" "table_adds Snappy_Compress small_kvs r0 = Some r1"
      "TableBuilder_Finish Snappy_Compress r1 = Some r"
    and ok: "wf_flushes small_file \<and> 0 < wf_space (tb_file r) \<longrightarrow> TableBuilder_ok r" "length (wf_data (tb_file r)) \<le> wf_space small_file"
    and read: "TableBuilder_ok r \<longrightarrow> (\<forall>rf. opened (wf_data (tb_file r)) rf \<longrightarrow>
      (\<exists>t it. Table_Open Snappy_Uncompress 5 ?o rf (FileSize r) = Some (Status_OK, Some t) \<and> Table_NewIterator t = Some it \<and>
        scan_forward (table_ops Snappy_Uncompress None t ?ro) 4 it = Some small_kvs \<and>
        scan_backward (table_ops Snappy_Uncompress None t ?ro) 4 it = Some (rev small_kvs) \<and>
        scan_from (table_ops Snappy_Uncompress None t ?ro) [2] 4 it =
          Some (dropWhile (\<lambda>e. Compare (opt_comparator ?o) (fst e) [2] < 0) small_kvs)))"
    using table_round_trip [OF user_table_env.table_env_axioms small_kvs_ok(4,5,1) _ small_kvs_ok(3,2) TrueI, of 5 ?ro "[2]", unfolded n] by blast
  have "0 < wf_space (tb_file r)" using small_table b by simp
  then have good: "TableBuilder_ok r" using ok(1) small_kvs_ok(6) by blast
  let ?rf = "\<lparr>raf_name = [], raf_data = wf_data (tb_file r), raf_mmap = False, raf_fails = False, raf_error = []\<rparr>"
  have "opened (wf_data (tb_file r)) ?rf" using ok(2) by (simp add: opened_def small_file_def)
  then show ?thesis using b good read unfolding small_kvs_ok(7,8) by blast
qed

text \<open>
  C32: Lookups in a table agree with its contents, with or without a filter and through any cache that returns the
  blocks it was given: a key that was added is found with its value, and whatever \<open>InternalGet\<close> hands to
  the caller is an entry of the table that is not below the key.
\<close>

theorem table_get:
  assumes env: "table_env opts good compress uncompress cap" and f: "wf_data f = []" "wf_space f < 2 ^ 32"
    and kvs: "sorted_wrt (\<lambda>a b. Compare (opt_comparator opts) (fst a) (fst b) < 0) kvs" "\<forall>e\<in>set kvs. good (fst e)"
      "length kvs \<le> cap" "(\<Sum>(k, v)\<leftarrow>kvs. length k + length v + 39) + 8 < 2 ^ 32"
    and r: "TableBuilder_new opts f = Some r0" "table_adds compress kvs r0 = Some r1" "TableBuilder_Finish compress r1 = Some r"
      "TableBuilder_ok r" "opened (wf_data (tb_file r)) rf"
  shows "\<exists>t hs. Table_Open uncompress new_id opts rf (FileSize r) = Some (Status_OK, Some t) \<and>
    (\<forall>cache k. cache_coherent uncompress t hs cache \<longrightarrow> good k \<longrightarrow>
      (\<exists>saved ins. InternalGet uncompress cache t ro k = Some (Status_OK, saved, ins) \<and>
        (\<forall>v. (k, v) \<in> set kvs \<longrightarrow> saved = Some (k, v)) \<and>
        (\<forall>e. saved = Some e \<longrightarrow> e \<in> set kvs \<and> \<not> Compare (opt_comparator opts) (fst e) k < 0)))"
proof -
  have frep: "file_rep (wf_space f) (wf_flushes f) r"
    and "\<exists>mh fin. table_file opts good uncompress (wf_data (tb_file r)) mh fin \<and> entries (map snd fin) = kvs"
    using table_env.build_table [OF env f kvs(1,2) kvs(4) [folded table_size_def]] r(1-4) by auto
  then obtain mh fin where tf: "table_file opts good uncompress (wf_data (tb_file r)) mh fin" "entries (map snd fin) = kvs" by blast
  have "FileSize r = of_nat (length (wf_data (tb_file r)))" using frep r(4) by (simp add: FileSize_def file_rep_def)
  then obtain t where t: "Table_Open uncompress new_id opts rf (FileSize r) = Some (Status_OK, Some t)" "table_rep opts good rf mh fin t"
    using table_env.Open_rep [OF env tf(1) r(5), of new_id] tf(2) kvs(3) by auto
  let ?cmp = "Compare (opt_comparator opts)"
  have "\<exists>saved ins. InternalGet uncompress cache t ro k = Some (Status_OK, saved, ins) \<and>
        (\<forall>v. (k, v) \<in> set kvs \<longrightarrow> saved = Some (k, v)) \<and> (\<forall>e. saved = Some e \<longrightarrow> e \<in> set kvs \<and> \<not> ?cmp (fst e) k < 0)"
    if cache: "cache_coherent uncompress t (fst ` snd ` set fin) cache" and k: "good k" for cache k
  proof -
    let ?p = "seek_pos ?cmp kvs k"
    obtain saved ins where get: "InternalGet uncompress cache t ro k = Some (Status_OK, saved, ins)"
      and saved: "saved = None \<or> ?p < length kvs \<and> saved = Some (kvs ! ?p)" "k \<in> fst ` set kvs \<longrightarrow> saved = Some (kvs ! ?p)"
      using table_env.InternalGet_rep [OF env tf(1) r(5) t(2) cache k, of ro, unfolded tf(2)] by blast
    have "saved = Some (k, v)" if mem: "(k, v) \<in> set kvs" for v
    proof -
      obtain i where i: "i < length kvs" "kvs ! i = (k, v)" using mem by (auto simp: in_set_conv_nth)
      then have "?p = i" using table_env.seek_pos_key [OF env kvs(1) i(1)] k by simp
      moreover have "k \<in> fst ` set kvs" using mem by force
      ultimately show ?thesis using saved(2) i(2) by simp
    qed
    moreover have "e \<in> set kvs \<and> \<not> ?cmp (fst e) k < 0" if "saved = Some e" for e
      using that saved(1) seek_pos_at [of ?cmp kvs k] by auto
    ultimately show ?thesis using get by blast
  qed
  then show ?thesis using t(1) by blast
qed

theorem table_get_witness:
  "\<exists>r0 r1 r t ins. TableBuilder_new (table_options 15 1 None) small_file = Some r0 \<and> table_adds Snappy_Compress small_kvs r0 = Some r1 \<and>
    TableBuilder_Finish Snappy_Compress r1 = Some r \<and> TableBuilder_ok r \<and>
    Table_Open Snappy_Uncompress 5 (table_options 15 1 None)
      \<lparr>raf_name = [], raf_data = wf_data (tb_file r), raf_mmap = True, raf_fails = False, raf_error = []\<rparr> (FileSize r) = Some (Status_OK, Some t) \<and>
    InternalGet Snappy_Uncompress (Some (\<lambda>_. None)) t \<lparr>verify_checksums = True, fill_cache = True\<rparr> [1, 2] = Some (Status_OK, Some ([1, 2], []), ins)"
proof -
  let ?o = "table_options 15 1 None" and ?ro = "\<lparr>verify_checksums = True, fill_cache = True\<rparr>"
  obtain r0 r1 r where b: "TableBuilder_new ?o small_file = Some r0" "table_adds Snappy_Compress small_kvs r0 = Some r1"
      "TableBuilder_Finish Snappy_Compress r1 = Some r" and frep: "file_rep (wf_space small_file) (wf_flushes small_file) r"
    using user_table_env.build_table [OF small_kvs_ok(4,5,1) _ small_kvs_ok(2) [folded table_size_def]] by blast
  have "0 < wf_space (tb_file r)" using small_table b by simp
  then have good: "TableBuilder_ok r" using frep small_kvs_ok(6) by (simp add: file_rep_def split: if_splits)
  let ?rf = "\<lparr>raf_name = [], raf_data = wf_data (tb_file r), raf_mmap = True, raf_fails = False, raf_error = []\<rparr>"
  have op: "opened (wf_data (tb_file r)) ?rf" using frep by (simp add: opened_def file_rep_def)
  have all: "\<forall>e\<in>set small_kvs. True" by simp
  obtain t hs where t: "Table_Open Snappy_Uncompress 5 ?o ?rf (FileSize r) = Some (Status_OK, Some t)"
    and get: "\<forall>cache k. cache_coherent Snappy_Uncompress t hs cache \<longrightarrow> True \<longrightarrow>
      (\<exists>saved ins. InternalGet Snappy_Uncompress cache t ?ro k = Some (Status_OK, saved, ins) \<and>
        (\<forall>v. (k, v) \<in> set small_kvs \<longrightarrow> saved = Some (k, v)) \<and>
        (\<forall>e. saved = Some e \<longrightarrow> e \<in> set small_kvs \<and> \<not> Compare (opt_comparator ?o) (fst e) k < 0))"
    using table_get [OF user_table_env.table_env_axioms small_kvs_ok(4,5,1) all small_kvs_ok(3,2) b good op, of 5 ?ro]
    by (elim exE conjE) (rule that)
  have "cache_coherent Snappy_Uncompress t hs (Some (\<lambda>_. None))" "([1, 2], []) \<in> set small_kvs"
    by (simp_all add: cache_coherent_def small_kvs_def)
  then show ?thesis using b good t get [rule_format, of "Some (\<lambda>_. None)" "[1, 2]"] by blast
qed


end
