(* ===== verification/LdbEnv.thy ===== *)
theory LdbEnv
  imports LdbLog LdbFormat "HOL-Library.AList"
begin

text \<open>
  The POSIX environment (\<open>util/env_posix.cc\<close>) and the helpers of \<open>util/env.cc\<close>.

  The operating system is the record \<open>os\<close>: the files by path, the directories, the \<open>fcntl\<close> locks
  this process and other processes hold, and the schedule \<open>faults\<close> of the coming system calls:
  an entry \<open>Some (e, k)\<close> makes a call fail with \<open>errno = e\<close>, after \<open>k\<close> bytes where it transfers
  bytes; past its end no call fails.  A file records whether its contents were forced to the disk
  since the last write.  \<open>history\<close> lists the file tables after each call that changed them, which
  are the states a crash can leave behind (the contents of a file that was not synced are then
  unknown).  A path ends at its first zero byte (\<open>c_str\<close>).

  The fields of \<open>PosixEnv\<close> itself, the lock table, the mmap limit and the queue of the background
  thread, extend that record.  A file opened for writing keeps the bytes its \<open>FILE\<close> has buffered and
  acts on the file with the path it was opened with.
\<close>

section \<open>The operating system\<close>

record inode =
  f_data :: slice
  f_synced :: bool

type_synonym file_table = "(slice \<times> inode) list"

record os =
  files :: file_table
  dirs :: "slice list"
  own_locks :: "slice list"
  other_locks :: "slice list"
  faults :: "(int \<times> nat) option list"
  history :: "file_table list"
  strerror :: "int \<Rightarrow> slice"

definition ENOENT :: int where "ENOENT = 2"
definition EAGAIN :: int where "EAGAIN = 35"
definition EINVAL :: int where "EINVAL = 22"
definition EEXIST :: int where "EEXIST = 17"

definition c_str :: "slice \<Rightarrow> slice" where
  "c_str s = takeWhile (\<lambda>b. b \<noteq> 0) s"

definition syscall :: "'a os_scheme \<Rightarrow> (int \<times> nat) option \<times> 'a os_scheme" where
  "syscall os = (case faults os of [] \<Rightarrow> (None, os) | f # fs \<Rightarrow> (f, os\<lparr>faults := fs\<rparr>))"

definition set_files :: "file_table \<Rightarrow> 'a os_scheme \<Rightarrow> 'a os_scheme" where
  "set_files fs os = os\<lparr>files := fs, history := history os @ [fs]\<rparr>"

definition set_file :: "slice \<Rightarrow> inode \<Rightarrow> 'a os_scheme \<Rightarrow> 'a os_scheme" where
  "set_file path f os = set_files (AList.update path f (files os)) os"

abbreviation lookup :: "'a os_scheme \<Rightarrow> slice \<Rightarrow> inode option" where
  "lookup os path \<equiv> map_of (files os) path"

text \<open>\<open>fopen (path, ''w'')\<close>, \<open>unlink\<close> and \<open>rename\<close> return \<open>errno\<close> when they fail.\<close>

definition fopen_w :: "slice \<Rightarrow> 'a os_scheme \<Rightarrow> int option \<times> 'a os_scheme" where
  "fopen_w path os =
     (case syscall os of
        (Some (e, _), os) \<Rightarrow> (Some e, os)
      | (None, os) \<Rightarrow> (None, set_file path \<lparr>f_data = [], f_synced = False\<rparr> os))"

definition sys_unlink :: "slice \<Rightarrow> 'a os_scheme \<Rightarrow> int option \<times> 'a os_scheme" where
  "sys_unlink path os =
     (case syscall os of
        (Some (e, _), os) \<Rightarrow> (Some e, os)
      | (None, os) \<Rightarrow>
          if lookup os path = None then (Some ENOENT, os)
          else (None, set_files (AList.delete path (files os)) os))"

definition sys_rename :: "slice \<Rightarrow> slice \<Rightarrow> 'a os_scheme \<Rightarrow> int option \<times> 'a os_scheme" where
  "sys_rename src target os =
     (case syscall os of
        (Some (e, _), os) \<Rightarrow> (Some e, os)
      | (None, os) \<Rightarrow>
          (case lookup os src of
             None \<Rightarrow> (Some ENOENT, os)
           | Some f \<Rightarrow> (None, set_files (AList.update target f (AList.delete src (files os))) os)))"

section \<open>Writable files\<close>

definition posix_IOError :: "'a os_scheme \<Rightarrow> slice \<Rightarrow> int \<Rightarrow> status" where
  "posix_IOError os context err_number = IOError context (strerror os err_number)"

record PosixWritableFile =
  pwf_name :: slice
  pwf_buf :: slice
  pwf_open :: bool

text \<open>The bytes \<open>bs\<close> reach the file: they are not on the disk yet.\<close>

definition write_out :: "slice \<Rightarrow> slice \<Rightarrow> 'a os_scheme \<Rightarrow> 'a os_scheme" where
  "write_out path bs os =
     (case lookup os path of
        None \<Rightarrow> os
      | Some f \<Rightarrow> if bs = [] then os else set_file path \<lparr>f_data = f_data f @ bs, f_synced = False\<rparr> os)"

text \<open>\<open>fwrite\<close> into the buffer, \<open>fflush\<close> and \<open>fclose\<close> of a writable file.\<close>

definition PosixWritableFile_Append ::
  "slice \<Rightarrow> PosixWritableFile \<Rightarrow> 'a os_scheme \<Rightarrow> status \<times> PosixWritableFile \<times> 'a os_scheme" where
  "PosixWritableFile_Append data w os =
     (case syscall os of
        (None, os) \<Rightarrow> (Status_OK, w\<lparr>pwf_buf := pwf_buf w @ data\<rparr>, os)
      | (Some (e, k), os) \<Rightarrow>
          (if k < length data then posix_IOError os (pwf_name w) e else Status_OK,
           w\<lparr>pwf_buf := pwf_buf w @ take k data\<rparr>, os))"

definition fflush :: "PosixWritableFile \<Rightarrow> 'a os_scheme \<Rightarrow> int option \<times> PosixWritableFile \<times> 'a os_scheme" where
  "fflush w os =
     (case syscall os of
        (None, os) \<Rightarrow> (None, w\<lparr>pwf_buf := []\<rparr>, write_out (c_str (pwf_name w)) (pwf_buf w) os)
      | (Some (e, k), os) \<Rightarrow>
          (Some e, w\<lparr>pwf_buf := drop k (pwf_buf w)\<rparr>, write_out (c_str (pwf_name w)) (take k (pwf_buf w)) os))"

definition PosixWritableFile_Flush ::
  "PosixWritableFile \<Rightarrow> 'a os_scheme \<Rightarrow> status \<times> PosixWritableFile \<times> 'a os_scheme" where
  "PosixWritableFile_Flush w os =
     (case fflush w os of
        (None, w, os) \<Rightarrow> (Status_OK, w, os)
      | (Some e, w, os) \<Rightarrow> (posix_IOError os (pwf_name w) e, w, os))"

definition PosixWritableFile_Close ::
  "PosixWritableFile \<Rightarrow> 'a os_scheme \<Rightarrow> status \<times> PosixWritableFile \<times> 'a os_scheme" where
  "PosixWritableFile_Close w os =
     (case fflush w os of
        (None, w, os) \<Rightarrow> (Status_OK, w\<lparr>pwf_buf := [], pwf_open := False\<rparr>, os)
      | (Some e, w, os) \<Rightarrow> (posix_IOError os (pwf_name w) e, w\<lparr>pwf_buf := [], pwf_open := False\<rparr>, os))"

definition PosixWritableFile_delete :: "PosixWritableFile \<Rightarrow> 'a os_scheme \<Rightarrow> 'a os_scheme" where
  "PosixWritableFile_delete w os = (if pwf_open w then snd (snd (fflush w os)) else os)"

text \<open>The directory and the last component of a path, as found by \<open>strrchr (f, '/')\<close>.\<close>

definition split_path :: "slice \<Rightarrow> slice \<times> slice" where
  "split_path f =
     (if 47 \<in> set f
      then (take (length f - Suc (length (takeWhile (\<lambda>b. b \<noteq> 47) (rev f)))) f, rev (takeWhile (\<lambda>b. b \<noteq> 47) (rev f)))
      else (str ''.'', f))"

definition SyncDirIfManifest :: "PosixWritableFile \<Rightarrow> 'a os_scheme \<Rightarrow> status \<times> 'a os_scheme" where
  "SyncDirIfManifest w os =
     (let (dir, basename) = split_path (c_str (pwf_name w)) in
      if starts_with basename (str ''MANIFEST'')
      then (case syscall os of
              (Some (e, _), os) \<Rightarrow> (posix_IOError os dir e, os)
            | (None, os) \<Rightarrow>
                (case syscall os of
                   (Some (e, _), os) \<Rightarrow> (posix_IOError os dir e, os)
                 | (None, os) \<Rightarrow> (Status_OK, os)))
      else (Status_OK, os))"

definition fdatasync :: "PosixWritableFile \<Rightarrow> 'a os_scheme \<Rightarrow> int option \<times> 'a os_scheme" where
  "fdatasync w os =
     (case syscall os of
        (Some (e, _), os) \<Rightarrow> (Some e, os)
      | (None, os) \<Rightarrow>
          (None, case lookup os (c_str (pwf_name w)) of
                   None \<Rightarrow> os
                 | Some f \<Rightarrow> set_file (c_str (pwf_name w)) (f\<lparr>f_synced := True\<rparr>) os))"

definition PosixWritableFile_Sync ::
  "PosixWritableFile \<Rightarrow> 'a os_scheme \<Rightarrow> status \<times> PosixWritableFile \<times> 'a os_scheme" where
  "PosixWritableFile_Sync w os =
     (let (s, os) = SyncDirIfManifest w os in
      if \<not> Status_ok s then (s, w, os)
      else case fflush w os of
             (Some e, w, os) \<Rightarrow> (IOError (pwf_name w) (strerror os e), w, os)
           | (None, w, os) \<Rightarrow>
               (case fdatasync w os of
                  (Some e, os) \<Rightarrow> (IOError (pwf_name w) (strerror os e), w, os)
                | (None, os) \<Rightarrow> (s, w, os)))"

section \<open>Opening, removing and renaming files\<close>

definition NewWritableFile :: "slice \<Rightarrow> 'a os_scheme \<Rightarrow> status \<times> PosixWritableFile option \<times> 'a os_scheme" where
  "NewWritableFile fname os =
     (case fopen_w (c_str fname) os of
        (Some e, os) \<Rightarrow> (posix_IOError os fname e, None, os)
      | (None, os) \<Rightarrow> (Status_OK, Some \<lparr>pwf_name = fname, pwf_buf = [], pwf_open = True\<rparr>, os))"

text \<open>The second scheduled entry is the state of the device the file is read from.\<close>

definition NewSequentialFile :: "slice \<Rightarrow> 'a os_scheme \<Rightarrow> status \<times> SequentialFile option \<times> 'a os_scheme" where
  "NewSequentialFile fname os =
     (case syscall os of
        (Some (e, _), os) \<Rightarrow> (posix_IOError os fname e, None, os)
      | (None, os) \<Rightarrow>
          (case lookup os (c_str fname) of
             None \<Rightarrow> (posix_IOError os fname ENOENT, None, os)
           | Some f \<Rightarrow>
               (case syscall os of
                  (None, os) \<Rightarrow> (Status_OK, Some \<lparr>sf_name = fname, sf_data = f_data f, sf_fails = False, sf_error = []\<rparr>, os)
                | (Some (e, k), os) \<Rightarrow>
                    (Status_OK, Some \<lparr>sf_name = fname, sf_data = take k (f_data f), sf_fails = True, sf_error = strerror os e\<rparr>, os))))"

definition FileExists :: "slice \<Rightarrow> 'a os_scheme \<Rightarrow> bool \<times> 'a os_scheme" where
  "FileExists fname os =
     (case syscall os of
        (Some _, os) \<Rightarrow> (False, os)
      | (None, os) \<Rightarrow> (lookup os (c_str fname) \<noteq> None \<or> c_str fname \<in> set (dirs os), os))"

definition GetFileSize :: "slice \<Rightarrow> 'a os_scheme \<Rightarrow> status \<times> u64 \<times> 'a os_scheme" where
  "GetFileSize fname os =
     (case syscall os of
        (Some (e, _), os) \<Rightarrow> (posix_IOError os fname e, 0, os)
      | (None, os) \<Rightarrow>
          (case lookup os (c_str fname) of
             None \<Rightarrow> (posix_IOError os fname ENOENT, 0, os)
           | Some f \<Rightarrow> (Status_OK, of_nat (length (f_data f)), os)))"

definition env_DeleteFile :: "slice \<Rightarrow> 'a os_scheme \<Rightarrow> status \<times> 'a os_scheme" where
  "env_DeleteFile fname os =
     (case sys_unlink (c_str fname) os of
        (None, os) \<Rightarrow> (Status_OK, os)
      | (Some e, os) \<Rightarrow> (posix_IOError os fname e, os))"

definition RenameFile :: "slice \<Rightarrow> slice \<Rightarrow> 'a os_scheme \<Rightarrow> status \<times> 'a os_scheme" where
  "RenameFile src target os =
     (case sys_rename (c_str src) (c_str target) os of
        (None, os) \<Rightarrow> (Status_OK, os)
      | (Some e, os) \<Rightarrow> (posix_IOError os src e, os))"

definition CreateDir :: "slice \<Rightarrow> 'a os_scheme \<Rightarrow> status \<times> 'a os_scheme" where
  "CreateDir name os =
     (case syscall os of
        (Some (e, _), os) \<Rightarrow> (posix_IOError os name e, os)
      | (None, os) \<Rightarrow>
          if c_str name \<in> set (dirs os) \<or> lookup os (c_str name) \<noteq> None then (posix_IOError os name EEXIST, os)
          else (Status_OK, os\<lparr>dirs := c_str name # dirs os\<rparr>))"

text \<open>The paths of the files in a directory.\<close>

definition children :: "slice \<Rightarrow> 'a os_scheme \<Rightarrow> slice list" where
  "children dir os =
     map (drop (length dir + 1)) (filter (\<lambda>p. starts_with p (dir @ [47]) \<and> 47 \<notin> set (drop (length dir + 1) p)) (map fst (files os)))"

definition DeleteDir :: "slice \<Rightarrow> 'a os_scheme \<Rightarrow> status \<times> 'a os_scheme" where
  "DeleteDir name os =
     (case syscall os of
        (Some (e, _), os) \<Rightarrow> (posix_IOError os name e, os)
      | (None, os) \<Rightarrow>
          if c_str name \<notin> set (dirs os) then (posix_IOError os name ENOENT, os)
          else if children (c_str name) os \<noteq> [] then (posix_IOError os name EEXIST, os)
          else (Status_OK, os\<lparr>dirs := removeAll (c_str name) (dirs os)\<rparr>))"

definition GetChildren :: "slice \<Rightarrow> 'a os_scheme \<Rightarrow> status \<times> slice list \<times> 'a os_scheme" where
  "GetChildren dir os =
     (case syscall os of
        (Some (e, _), os) \<Rightarrow> (posix_IOError os dir e, [], os)
      | (None, os) \<Rightarrow>
          if c_str dir \<notin> set (dirs os) then (posix_IOError os dir ENOENT, [], os)
          else (Status_OK, [str ''.'', str ''..''] @ children (c_str dir) os, os))"

section \<open>Whole files\<close>

definition DoWriteStringToFile :: "slice \<Rightarrow> slice \<Rightarrow> bool \<Rightarrow> 'a os_scheme \<Rightarrow> status \<times> 'a os_scheme" where
  "DoWriteStringToFile data fname should_sync os =
     (case NewWritableFile fname os of
        (s, None, os) \<Rightarrow> (s, os)
      | (s, Some w, os) \<Rightarrow>
          let (s, w, os) = PosixWritableFile_Append data w os;
              (s, w, os) = (if Status_ok s \<and> should_sync then PosixWritableFile_Sync w os else (s, w, os));
              (s, w, os) = (if Status_ok s then PosixWritableFile_Close w os else (s, w, os));
              os = PosixWritableFile_delete w os;
              os = (if \<not> Status_ok s then snd (env_DeleteFile fname os) else os)
          in (s, os))"

definition WriteStringToFile :: "slice \<Rightarrow> slice \<Rightarrow> 'a os_scheme \<Rightarrow> status \<times> 'a os_scheme" where
  "WriteStringToFile data fname os = DoWriteStringToFile data fname False os"

definition WriteStringToFileSync :: "slice \<Rightarrow> slice \<Rightarrow> 'a os_scheme \<Rightarrow> status \<times> 'a os_scheme" where
  "WriteStringToFileSync data fname os = DoWriteStringToFile data fname True os"

function read_fragments :: "nat \<Rightarrow> SequentialFile \<Rightarrow> slice \<Rightarrow> status \<times> slice" where
  "read_fragments n f data =
     (let (s, fragment, f) = SequentialFile_Read n f in
      if \<not> Status_ok s then (s, data)
      else if fragment = [] then (s, data)
      else read_fragments n f (data @ fragment))"
  by pat_completeness auto
termination
  by (relation "measure (\<lambda>(n, f, data). length (sf_data f))") (auto simp: SequentialFile_Read_def Let_def)

declare read_fragments.simps [simp del]

definition ReadFileToString :: "slice \<Rightarrow> 'a os_scheme \<Rightarrow> status \<times> slice \<times> 'a os_scheme" where
  "ReadFileToString fname os =
     (case NewSequentialFile fname os of
        (s, None, os) \<Rightarrow> (s, [], os)
      | (s, Some f, os) \<Rightarrow> (let (s, data) = read_fragments 8192 f [] in (s, data, os)))"

section \<open>Locks, memory maps and the background thread\<close>

text \<open>\<open>queue_\<close> holds the scheduled functions with their arguments, here as numbers.\<close>

record PosixEnv = os +
  started_bgthread :: bool
  bg_queue :: "(nat \<times> nat) list"
  locked_files :: "slice list"
  mmap_allowed :: int

definition LockTable_Insert :: "slice \<Rightarrow> PosixEnv \<Rightarrow> bool \<times> PosixEnv" where
  "LockTable_Insert fname env =
     (if fname \<in> set (locked_files env) then (False, env) else (True, env\<lparr>locked_files := fname # locked_files env\<rparr>))"

definition LockTable_Remove :: "slice \<Rightarrow> PosixEnv \<Rightarrow> PosixEnv" where
  "LockTable_Remove fname env = env\<lparr>locked_files := removeAll fname (locked_files env)\<rparr>"

text \<open>
  \<open>close\<close> of any descriptor of a file drops the \<open>fcntl\<close> locks the process holds on it
  (POSIX, \<open>fcntl\<close>).
\<close>

definition sys_close :: "slice \<Rightarrow> 'a os_scheme \<Rightarrow> 'a os_scheme" where
  "sys_close path os = os\<lparr>own_locks := removeAll path (own_locks os)\<rparr>"

definition LockOrUnlock :: "slice \<Rightarrow> bool \<Rightarrow> 'a os_scheme \<Rightarrow> int option \<times> 'a os_scheme" where
  "LockOrUnlock path lock os =
     (case syscall os of
        (Some (e, _), os) \<Rightarrow> (Some e, os)
      | (None, os) \<Rightarrow>
          if lock \<and> path \<in> set (other_locks os) then (Some EAGAIN, os)
          else if lock then (None, os\<lparr>own_locks := path # removeAll path (own_locks os)\<rparr>)
          else (None, os\<lparr>own_locks := removeAll path (own_locks os)\<rparr>))"

definition open_create :: "slice \<Rightarrow> 'a os_scheme \<Rightarrow> int option \<times> 'a os_scheme" where
  "open_create path os =
     (case syscall os of
        (Some (e, _), os) \<Rightarrow> (Some e, os)
      | (None, os) \<Rightarrow>
          (None, if lookup os path = None then set_file path \<lparr>f_data = [], f_synced = False\<rparr> os else os))"

definition LockFile :: "slice \<Rightarrow> PosixEnv \<Rightarrow> status \<times> slice option \<times> PosixEnv" where
  "LockFile fname env =
     (case open_create (c_str fname) env of
        (Some e, env) \<Rightarrow> (posix_IOError env fname e, None, env)
      | (None, env) \<Rightarrow>
          (case LockTable_Insert fname env of
             (False, env) \<Rightarrow>
               (IOError (str ''lock '' @ fname) (str ''already held by process''), None, sys_close (c_str fname) env)
           | (True, env) \<Rightarrow>
               (case LockOrUnlock (c_str fname) True env of
                  (Some e, env) \<Rightarrow>
                    (posix_IOError env (str ''lock '' @ fname) e, None,
                     LockTable_Remove fname (sys_close (c_str fname) env))
                | (None, env) \<Rightarrow> (Status_OK, Some fname, env))))"

definition UnlockFile :: "slice \<Rightarrow> PosixEnv \<Rightarrow> status \<times> PosixEnv" where
  "UnlockFile name env =
     (let (e, env) = LockOrUnlock (c_str name) False env;
          result = (case e of Some e \<Rightarrow> posix_IOError env (str ''unlock'') e | None \<Rightarrow> Status_OK);
          env = LockTable_Remove name env
      in (result, sys_close (c_str name) env))"

definition MmapLimiter_new :: int where
  "MmapLimiter_new = 1000"

definition MmapLimiter_Acquire :: "PosixEnv \<Rightarrow> bool \<times> PosixEnv" where
  "MmapLimiter_Acquire env =
     (if mmap_allowed env \<le> 0 then (False, env) else (True, env\<lparr>mmap_allowed := mmap_allowed env - 1\<rparr>))"

definition MmapLimiter_Release :: "PosixEnv \<Rightarrow> PosixEnv" where
  "MmapLimiter_Release env = env\<lparr>mmap_allowed := mmap_allowed env + 1\<rparr>"

definition NewRandomAccessFile :: "slice \<Rightarrow> PosixEnv \<Rightarrow> status \<times> RandomAccessFile option \<times> PosixEnv" where
  "NewRandomAccessFile fname env =
     (case syscall env of
        (Some (e, _), env) \<Rightarrow> (posix_IOError env fname e, None, env)
      | (None, env) \<Rightarrow>
          (case lookup env (c_str fname) of
             None \<Rightarrow> (posix_IOError env fname ENOENT, None, env)
           | Some f \<Rightarrow>
               (case MmapLimiter_Acquire env of
                  (True, env) \<Rightarrow>
                    (case GetFileSize fname env of
                       (s, sz, env) \<Rightarrow>
                         if Status_ok s
                         then (case syscall env of
                                 (Some (e, _), env) \<Rightarrow>
                                   (posix_IOError env fname e, None, MmapLimiter_Release (sys_close (c_str fname) env))
                               | (None, env) \<Rightarrow>
                                   if sz = 0
                                   then (posix_IOError env fname EINVAL, None, MmapLimiter_Release (sys_close (c_str fname) env))
                                   else
                                   (s, Some \<lparr>raf_name = fname, raf_data = take (unat sz) (f_data f), raf_mmap = True,
                                             raf_fails = False, raf_error = strerror env EINVAL\<rparr>,
                                    sys_close (c_str fname) env))
                         else (s, None, MmapLimiter_Release (sys_close (c_str fname) env)))
                | (False, env) \<Rightarrow>
                    (case syscall env of
                       (dev, env) \<Rightarrow>
                         (Status_OK,
                          Some \<lparr>raf_name = fname, raf_data = f_data f, raf_mmap = False, raf_fails = dev \<noteq> None,
                                raf_error = (case dev of Some (e, _) \<Rightarrow> strerror env e | None \<Rightarrow> [])\<rparr>,
                          env)))))"

definition RandomAccessFile_delete :: "RandomAccessFile \<Rightarrow> PosixEnv \<Rightarrow> PosixEnv" where
  "RandomAccessFile_delete f env =
     (if raf_mmap f then MmapLimiter_Release env else sys_close (c_str (raf_name f)) env)"

definition Schedule :: "nat \<Rightarrow> nat \<Rightarrow> PosixEnv \<Rightarrow> PosixEnv" where
  "Schedule f arg env = env\<lparr>started_bgthread := True, bg_queue := bg_queue env @ [(f, arg)]\<rparr>"

text \<open>One round of the loop of \<open>BGThread\<close>; with an empty queue the thread waits.\<close>

definition BGThread_step :: "PosixEnv \<Rightarrow> ((nat \<times> nat) \<times> PosixEnv) option" where
  "BGThread_step env =
     (case bg_queue env of [] \<Rightarrow> None | item # items \<Rightarrow> Some (item, env\<lparr>bg_queue := items\<rparr>))"

section \<open>What the calls leave alone\<close>

text \<open>
  \<open>only p os os'\<close>: from \<open>os\<close> to \<open>os'\<close> no file but the one at \<open>p\<close> changed, at no point of the
  history.
\<close>

definition only :: "slice \<Rightarrow> 'a os_scheme \<Rightarrow> 'a os_scheme \<Rightarrow> bool" where
  "only p os os' \<longleftrightarrow>
     (\<exists>h. history os' = history os @ h \<and> (\<forall>ft\<in>set h. \<forall>q. q \<noteq> p \<longrightarrow> map_of ft q = lookup os q)) \<and>
     (\<forall>q. q \<noteq> p \<longrightarrow> lookup os' q = lookup os q)"

lemma only_refl [simp]: "only p os os"
  by (simp add: only_def)

lemma only_trans [trans]: "only p a b \<Longrightarrow> only p b c \<Longrightarrow> only p a c"
  by (fastforce simp: only_def)

lemma syscall_files [simp]:
  "files (snd (syscall os)) = files os" "history (snd (syscall os)) = history os"
  "strerror (snd (syscall os)) = strerror os"
  by (simp_all add: syscall_def split: list.splits)

lemma syscall_eq:
  assumes "syscall os = (r, os')"
  shows "files os' = files os" "history os' = history os" "strerror os' = strerror os"
    "faults os = [] \<Longrightarrow> r = None" "faults os = [] \<Longrightarrow> faults os' = []"
  using assms syscall_files [of os] by (auto simp: syscall_def split: list.splits)

lemma posix_IOError_not_ok [simp]: "\<not> Status_ok (IOError m m2)" "\<not> Status_ok (posix_IOError os m e)"
  by (simp_all add: Status_ok_def IOError_def posix_IOError_def Status_new_def Let_def)

lemma OK_ok [simp]: "Status_ok Status_OK"
  by (simp add: Status_ok_def Status_OK_def)

lemma syscall_SomeD: "syscall os = (Some x, os') \<Longrightarrow> faults os \<noteq> []"
  by (auto simp: syscall_def)

lemma only_syscall: "syscall os = (r, os') \<Longrightarrow> only p os os'"
  by (simp add: only_def syscall_eq)

lemma only_set_file: "only p os (set_file p f os)"
  by (auto simp: only_def set_file_def set_files_def update_conv)

lemma lookup_set_file [simp]: "lookup (set_file p f os) q = (if q = p then Some f else lookup os q)"
  by (simp add: set_file_def set_files_def update_conv)

lemma set_file_simps [simp]:
  "faults (set_file p f os) = faults os" "strerror (set_file p f os) = strerror os"
  by (simp_all add: set_file_def set_files_def)

lemma only_write_out: "only p os (write_out p bs os)"
  by (auto simp: write_out_def only_set_file split: option.splits)

text \<open>What the operations on a writable file do to its own file and to the others.\<close>

lemma write_out_simps [simp]:
  "faults (write_out p bs os) = faults os" "strerror (write_out p bs os) = strerror os"
  by (auto simp: write_out_def split: option.splits)

lemma write_out_data:
  "lookup os p = Some f \<Longrightarrow> \<exists>b. lookup (write_out p bs os) p = Some \<lparr>f_data = f_data f @ bs, f_synced = b\<rparr>"
  by (cases f) (auto simp: write_out_def)

lemma write_out_Nil [simp]: "write_out p [] os = os"
  by (simp add: write_out_def split: option.splits)

lemma fopen_w_file:
  assumes "fopen_w p os = (r, os')"
  shows "only p os os'" and "r = None \<Longrightarrow> lookup os' p = Some \<lparr>f_data = [], f_synced = False\<rparr>"
    and "faults os = [] \<Longrightarrow> r = None \<and> faults os' = []"
  using assms
  by (auto simp: fopen_w_def syscall_eq split: prod.splits option.splits
      intro: only_trans [OF only_syscall only_set_file] only_syscall dest: syscall_SomeD)

lemma fflush_file:
  assumes "fflush w os = (r, w', os')"
  shows "only (c_str (pwf_name w)) os os'" and "pwf_name w' = pwf_name w" and "pwf_open w' = pwf_open w"
    and "faults os = [] \<Longrightarrow> r = None \<and> faults os' = []"
    and "r = None \<Longrightarrow> pwf_buf w' = [] \<and>
           (pwf_buf w = [] \<longrightarrow> lookup os' = lookup os) \<and>
           (\<forall>f. lookup os (c_str (pwf_name w)) = Some f \<longrightarrow>
              (\<exists>b. lookup os' (c_str (pwf_name w)) = Some \<lparr>f_data = f_data f @ pwf_buf w, f_synced = b\<rparr>))"
  using assms
  by (auto simp: fflush_def syscall_eq write_out_data split: prod.splits option.splits
      intro: only_trans [OF only_syscall only_write_out] dest: syscall_SomeD)

lemma SyncDirIfManifest_file:
  assumes "SyncDirIfManifest w os = (s, os')"
  shows "files os' = files os" and "only p os os'" and "faults os = [] \<Longrightarrow> Status_ok s \<and> faults os' = []"
  using assms
  by (auto simp: SyncDirIfManifest_def syscall_eq
      split: prod.splits option.splits if_splits intro: only_trans [OF only_syscall only_syscall] only_syscall dest: syscall_SomeD)

lemma fdatasync_file:
  assumes "fdatasync w os = (r, os')"
  shows "only (c_str (pwf_name w)) os os'" and "faults os = [] \<Longrightarrow> r = None \<and> faults os' = []"
    and "r = None \<Longrightarrow> lookup os (c_str (pwf_name w)) = Some f \<Longrightarrow>
           lookup os' (c_str (pwf_name w)) = Some (f\<lparr>f_synced := True\<rparr>)"
  using assms
  by (auto simp: fdatasync_def syscall_eq split: prod.splits option.splits
      intro: only_trans [OF only_syscall only_set_file] only_syscall dest: syscall_SomeD)

lemma Append_file:
  assumes "PosixWritableFile_Append data w os = (s, w', os')"
  shows "only p os os'" and "pwf_name w' = pwf_name w" and "pwf_open w' = pwf_open w" and "files os' = files os"
    and "faults os = [] \<Longrightarrow> Status_ok s \<and> faults os' = []"
    and "Status_ok s \<Longrightarrow> pwf_buf w' = pwf_buf w @ data"
  using assms
  by (auto simp: PosixWritableFile_Append_def syscall_eq split: prod.splits option.splits if_splits intro: only_syscall dest: syscall_SomeD)

lemma Sync_file:
  assumes "PosixWritableFile_Sync w os = (s, w', os')"
  shows "only (c_str (pwf_name w)) os os'" and "pwf_name w' = pwf_name w" and "pwf_open w' = pwf_open w"
    and "faults os = [] \<Longrightarrow> Status_ok s \<and> faults os' = []"
    and "Status_ok s \<Longrightarrow> lookup os (c_str (pwf_name w)) = Some f \<Longrightarrow>
      pwf_buf w' = [] \<and> lookup os' (c_str (pwf_name w)) = Some \<lparr>f_data = f_data f @ pwf_buf w, f_synced = True\<rparr>"
proof -
  obtain s1 os1 where 1: "SyncDirIfManifest w os = (s1, os1)" by (metis surj_pair)
  note d = SyncDirIfManifest_file [OF 1]
  obtain r2 w2 os2 where 2: "fflush w os1 = (r2, w2, os2)" by (metis surj_pair)
  note fl = fflush_file [OF 2]
  obtain r3 os3 where 3: "fdatasync w2 os2 = (r3, os3)" by (metis surj_pair)
  note ds = fdatasync_file [OF 3, unfolded fl]
  note cases = assms [unfolded PosixWritableFile_Sync_def, simplified 1 2 3 Let_def split]
  have o2: "only (c_str (pwf_name w)) os os2" using d(2) fl(1) by (rule only_trans)
  then have o3: "only (c_str (pwf_name w)) os os3" using ds(1) by (rule only_trans)
  show "only (c_str (pwf_name w)) os os'"
    using cases d o2 o3 by (auto simp: 2 3 split: if_splits option.splits)
  show "pwf_name w' = pwf_name w" "pwf_open w' = pwf_open w"
    using cases fl by (auto simp: 2 3 split: if_splits option.splits)
  show "faults os = [] \<Longrightarrow> Status_ok s \<and> faults os' = []"
    using cases d(3) fl(4) ds(2) by (auto simp: 2 3 split: if_splits option.splits)
  show "pwf_buf w' = [] \<and> lookup os' (c_str (pwf_name w)) = Some \<lparr>f_data = f_data f @ pwf_buf w, f_synced = True\<rparr>"
    if "Status_ok s" "lookup os (c_str (pwf_name w)) = Some f"
    using cases fl(5) ds(3) that d(1) by (auto simp: 2 3 split: if_splits option.splits)
qed

lemma Close_file:
  assumes "PosixWritableFile_Close w os = (s, w', os')"
  shows "only (c_str (pwf_name w)) os os'" and "pwf_name w' = pwf_name w" and "\<not> pwf_open w'"
    and "faults os = [] \<Longrightarrow> Status_ok s \<and> faults os' = []"
    and "Status_ok s \<Longrightarrow>
           (pwf_buf w = [] \<longrightarrow> lookup os' = lookup os) \<and>
           (\<forall>f. lookup os (c_str (pwf_name w)) = Some f \<longrightarrow>
              (\<exists>b. lookup os' (c_str (pwf_name w)) = Some \<lparr>f_data = f_data f @ pwf_buf w, f_synced = b\<rparr>))"
  using assms
  by (auto simp: PosixWritableFile_Close_def split: prod.splits option.splits dest: fflush_file)

lemma only_delete: "only (c_str (pwf_name w)) os (PosixWritableFile_delete w os)"
  by (cases "fflush w os") (auto simp: PosixWritableFile_delete_def dest: fflush_file(1))

lemma only_DeleteFile: "only (c_str fname) os (snd (env_DeleteFile fname os))"
proof -
  obtain r os1 where 1: "syscall os = (r, os1)" by (metis surj_pair)
  have "only (c_str fname) os1 (set_files (AList.delete (c_str fname) (files os1)) os1)"
    by (auto simp: only_def set_files_def delete_conv)
  then show ?thesis
    using only_syscall [OF 1] by (auto simp: env_DeleteFile_def sys_unlink_def 1 split: option.split intro: only_trans)
qed

lemma NewWritableFile_file:
  assumes "NewWritableFile fname os = (s, r, os')"
  shows "only (c_str fname) os os'" and "r = None \<Longrightarrow> \<not> Status_ok s"
    and "r = Some w \<Longrightarrow> w = \<lparr>pwf_name = fname, pwf_buf = [], pwf_open = True\<rparr> \<and>
           lookup os' (c_str fname) = Some \<lparr>f_data = [], f_synced = False\<rparr>"
    and "faults os = [] \<Longrightarrow> r \<noteq> None \<and> faults os' = []"
  using assms by (auto simp: NewWritableFile_def split: prod.splits option.splits dest: fopen_w_file)

section \<open>Writing a whole file\<close>

text \<open>The part of \<open>DoWriteStringToFile\<close> between opening the file and the check of the status.\<close>

lemma write_body:
  assumes 1: "PosixWritableFile_Append data w os = (s1, w1, os1)"
    and 2: "(if Status_ok s1 \<and> sync then PosixWritableFile_Sync w1 os1 else (s1, w1, os1)) = (s2, w2, os2)"
    and 3: "(if Status_ok s2 then PosixWritableFile_Close w2 os2 else (s2, w2, os2)) = (s3, w3, os3)"
    and w: "w = \<lparr>pwf_name = fname, pwf_buf = [], pwf_open = True\<rparr>"
    and f: "lookup os (c_str fname) = Some \<lparr>f_data = [], f_synced = False\<rparr>"
  shows "only (c_str fname) os (PosixWritableFile_delete w3 os3)"
    and "Status_ok s3 \<Longrightarrow> \<exists>b. lookup (PosixWritableFile_delete w3 os3) (c_str fname) = Some \<lparr>f_data = data, f_synced = b\<rparr> \<and> (sync \<longrightarrow> b)"
    and "faults os = [] \<Longrightarrow> Status_ok s3 \<and> faults (PosixWritableFile_delete w3 os3) = []"
proof -
  note A = Append_file [OF 1]
  have n1: "pwf_name w1 = fname" "pwf_open w1" using A w by auto
  have o2: "only (c_str fname) os1 os2" and n2: "pwf_name w2 = fname"
    using 2 n1 by (auto split: if_splits dest: Sync_file)
  have o3: "only (c_str fname) os2 os3" and n3: "pwf_name w3 = fname"
    using 3 n2 by (auto split: if_splits dest: Close_file)
  show "only (c_str fname) os (PosixWritableFile_delete w3 os3)"
    using A(1) o2 o3 only_delete [of w3 os3] n3 by (metis only_trans)
  have ok2: "Status_ok s1 \<and> sync \<longrightarrow> PosixWritableFile_Sync w1 os1 = (s2, w2, os2)"
    "\<not> (Status_ok s1 \<and> sync) \<longrightarrow> s2 = s1 \<and> w2 = w1 \<and> os2 = os1"
    using 2 by (auto split: if_splits)
  have closed: "PosixWritableFile_delete w3 os3 = os3" if "Status_ok s2"
    using 3 that by (auto simp: PosixWritableFile_delete_def dest: Close_file(3))
  have f1: "lookup os1 (c_str fname) = Some \<lparr>f_data = [], f_synced = False\<rparr>" using A(4) f by simp
  show "\<exists>b. lookup (PosixWritableFile_delete w3 os3) (c_str fname) = Some \<lparr>f_data = data, f_synced = b\<rparr> \<and> (sync \<longrightarrow> b)"
    if ok: "Status_ok s3"
  proof -
    have s2: "Status_ok s2" using 3 ok by (auto split: if_splits)
    have s1: "Status_ok s1" using ok2 s2 by (cases "Status_ok s1 \<and> sync") auto
    have b1: "pwf_buf w1 = data" using A(6) s1 w by simp
    have C: "PosixWritableFile_Close w2 os2 = (s3, w3, os3)" using 3 s2 by simp
    note C = Close_file(5) [OF C ok]
    show ?thesis
    proof (cases sync)
      case True
      then have S: "PosixWritableFile_Sync w1 os1 = (s2, w2, os2)" using ok2 s1 by simp
      from Sync_file(5) [OF S s2, unfolded n1, OF f1] have
        "pwf_buf w2 = []" "lookup os2 (c_str fname) = Some \<lparr>f_data = data, f_synced = True\<rparr>" using b1 by auto
      then show ?thesis using C closed [OF s2] by auto
    next
      case False
      then have "w2 = w1" "os2 = os1" using ok2 by auto
      then show ?thesis using C closed [OF s2] f1 b1 n1 False by auto
    qed
  qed
  show "Status_ok s3 \<and> faults (PosixWritableFile_delete w3 os3) = []" if q: "faults os = []"
  proof -
    have 1: "Status_ok s1" "faults os1 = []" using A(5) q by auto
    have 2: "Status_ok s2" "faults os2 = []" using ok2 1 Sync_file(4) by (cases sync; blast)+
    then show ?thesis using 3 closed by (auto dest: Close_file(4))
  qed
qed

lemma DoWriteStringToFile_file:
  assumes "DoWriteStringToFile data fname sync os = (s, os')"
  shows "only (c_str fname) os os'"
    and "Status_ok s \<Longrightarrow> \<exists>b. lookup os' (c_str fname) = Some \<lparr>f_data = data, f_synced = b\<rparr> \<and> (sync \<longrightarrow> b)"
    and "faults os = [] \<Longrightarrow> Status_ok s \<and> faults os' = []"
proof -
  obtain s0 r os0 where 0: "NewWritableFile fname os = (s0, r, os0)" by (metis surj_pair)
  note N = NewWritableFile_file [OF 0]
  show "only (c_str fname) os os'"
    and "Status_ok s \<Longrightarrow> \<exists>b. lookup os' (c_str fname) = Some \<lparr>f_data = data, f_synced = b\<rparr> \<and> (sync \<longrightarrow> b)"
    and "faults os = [] \<Longrightarrow> Status_ok s \<and> faults os' = []"
  proof (atomize (full), cases r)
    case None
    then have "s = s0" "os' = os0" using assms by (simp_all add: DoWriteStringToFile_def 0)
    then show "only (c_str fname) os os' \<and>
      (Status_ok s \<longrightarrow> (\<exists>b. lookup os' (c_str fname) = Some \<lparr>f_data = data, f_synced = b\<rparr> \<and> (sync \<longrightarrow> b))) \<and>
      (faults os = [] \<longrightarrow> Status_ok s \<and> faults os' = [])" using N None by auto
  next
    case (Some w)
    obtain s1 w1 os1 where 1: "PosixWritableFile_Append data w os0 = (s1, w1, os1)" by (metis surj_pair)
    obtain s2 w2 os2 where 2: "(if Status_ok s1 \<and> sync then PosixWritableFile_Sync w1 os1 else (s1, w1, os1)) = (s2, w2, os2)"
      by (metis surj_pair)
    obtain s3 w3 os3 where 3: "(if Status_ok s2 then PosixWritableFile_Close w2 os2 else (s2, w2, os2)) = (s3, w3, os3)"
      by (metis surj_pair)
    note B = write_body [OF 1 2 3] 
    let ?os = "PosixWritableFile_delete w3 os3"
    have e: "s = s3" "os' = (if \<not> Status_ok s3 then snd (env_DeleteFile fname ?os) else ?os)"
      using assms by (auto simp: DoWriteStringToFile_def 0 Some 1 2 3 Let_def)
    have "only (c_str fname) os ?os" using N(1) B(1) N(3) [OF Some] by (blast intro: only_trans)
    then have "only (c_str fname) os os'" using only_DeleteFile [of fname ?os] e by (auto intro: only_trans)
    then show "only (c_str fname) os os' \<and>
      (Status_ok s \<longrightarrow> (\<exists>b. lookup os' (c_str fname) = Some \<lparr>f_data = data, f_synced = b\<rparr> \<and> (sync \<longrightarrow> b))) \<and>
      (faults os = [] \<longrightarrow> Status_ok s \<and> faults os' = [])"
      using B(2,3) N(3) [OF Some] N(4) e by auto
  qed
qed

section \<open>Reading a whole file\<close>

lemma read_fragments_all:
  "0 < n \<Longrightarrow> \<not> sf_fails f \<Longrightarrow> read_fragments n f data = (Status_OK, data @ sf_data f)"
proof (induction n f data rule: read_fragments.induct)
  case (1 n f data)
  show ?case
    using 1 by (subst read_fragments.simps) (auto simp: SequentialFile_Read_def Let_def)
qed

text \<open>A device that fails is reported, and what was read before is a prefix of the file.\<close>

lemma read_fragments_fails:
  "0 < n \<Longrightarrow> sf_fails f \<Longrightarrow> \<exists>k. read_fragments n f data = (IOError (sf_name f) (sf_error f), data @ take k (sf_data f))"
proof (induction n f data rule: read_fragments.induct)
  case (1 n f data)
  show ?case
  proof (cases "length (sf_data f) < n")
    case True
    then show ?thesis
      by (subst read_fragments.simps) (auto simp: SequentialFile_Read_def Let_def 1 intro: exI [of _ 0])
  next
    case False
    let ?g = "f\<lparr>sf_data := drop n (sf_data f)\<rparr>"
    have r: "SequentialFile_Read n f = (Status_OK, take n (sf_data f), ?g)"
      using False by (simp add: SequentialFile_Read_def Let_def)
    obtain k where "read_fragments n ?g (data @ take n (sf_data f)) =
        (IOError (sf_name f) (sf_error f), (data @ take n (sf_data f)) @ take k (drop n (sf_data f)))"
      using 1(1) [OF r [symmetric] refl] 1(2,3) False by (cases "sf_data f = []") auto
    then show ?thesis
      using False 1(2) by (subst read_fragments.simps) (auto simp: r Let_def take_add [symmetric] intro: exI [of _ "n + k"])
  qed
qed

lemma ReadFileToString_ok:
  assumes "faults os = []" and "lookup os (c_str fname) = Some f"
  shows "ReadFileToString fname os = (Status_OK, f_data f, os)"
  using assms by (simp add: ReadFileToString_def NewSequentialFile_def syscall_def read_fragments_all)

section \<open>Locks\<close>

text \<open>
  A lock is exclusive between processes: it is granted only while no other process holds it, and the
  operating system then records it for this process.
\<close>

lemma LockFile_granted:
  assumes "LockFile fname env = (s, Some l, env')"
  shows "Status_ok s \<and> l = fname \<and> c_str fname \<in> set (own_locks env') \<and> c_str fname \<notin> set (other_locks env') \<and>
    fname \<notin> set (locked_files env) \<and> fname \<in> set (locked_files env')"
  using assms
  by (auto simp: LockFile_def LockOrUnlock_def LockTable_Insert_def open_create_def syscall_def set_file_def set_files_def
      split: prod.splits option.splits if_splits list.splits bool.splits)

text \<open>
  A second \<open>LockFile\<close> of the same path in the process is refused, but its \<open>close\<close> gives up the lock
  the first one holds.
\<close>

lemma LockFile_twice:
  assumes "fname \<in> set (locked_files env)" and "faults env = []"
  shows "\<exists>s env'. LockFile fname env = (s, None, env') \<and> \<not> Status_ok s \<and> fname \<in> set (locked_files env') \<and>
    c_str fname \<notin> set (own_locks env')"
  using assms
  by (auto simp: LockFile_def LockTable_Insert_def open_create_def syscall_def set_file_def set_files_def sys_close_def)

end
