(* ===== verification/LdbLogging.thy ===== *)
theory LdbLogging
  imports LdbBase
begin

text \<open>
  Decimal numbers and escaped strings (\<open>util/logging.cc\<close>).

  \<open>decimal\<close> is the conversion \<open>%llu\<close> of \<open>snprintf\<close>; the functions cut its output to the size of
  the buffer the source declares.  \<open>ConsumeDecimalNumber\<close> returns the result, the rest of the
  input and what was stored through \<open>val\<close> (\<open>None\<close>: nothing was stored).
\<close>

section \<open>Printing\<close>

definition decimal :: "nat \<Rightarrow> slice" where
  "decimal n = str (digits n)"

definition AppendNumberTo :: "slice \<Rightarrow> u64 \<Rightarrow> slice" where
  "AppendNumberTo s num = s @ take 29 (decimal (unat num))"

definition NumberToString :: "u64 \<Rightarrow> slice" where
  "NumberToString num = AppendNumberTo [] num"

definition hex_digit :: "u8 \<Rightarrow> u8" where
  "hex_digit d = (if d < 10 then 48 + d else 87 + d)"

text \<open>The comparison is on \<open>char\<close>, which is signed on the target.\<close>

primrec AppendEscapedStringTo :: "slice \<Rightarrow> slice \<Rightarrow> slice" where
  "AppendEscapedStringTo s [] = s"
| "AppendEscapedStringTo s (c # cs) =
     AppendEscapedStringTo
       (if sint c \<ge> 32 \<and> sint c \<le> 126 then s @ [c]
        else s @ take 9 (str [CHR 0x5C, CHR ''x''] @ [hex_digit (drop_bit 4 c), hex_digit (c AND 15)])) cs"

definition EscapeString :: "slice \<Rightarrow> slice" where
  "EscapeString s = AppendEscapedStringTo [] s"

section \<open>Reading\<close>

fun consume_digits :: "slice \<Rightarrow> u64 \<Rightarrow> nat \<Rightarrow> bool \<times> slice \<times> u64 option" where
  "consume_digits [] v n = (0 < n, [], Some v)"
| "consume_digits (c # cs) v n =
     (if sint c \<ge> 48 \<and> sint c \<le> 57
      then let delta = ucast c - 48 :: u64; kMaxUint64 = NOT 0 :: u64
           in if v > kMaxUint64 div 10 \<or> (v = kMaxUint64 div 10 \<and> delta > kMaxUint64 mod 10)
              then (False, c # cs, None)
              else consume_digits cs (v * 10 + delta) (n + 1)
      else (0 < n, c # cs, Some v))"

definition ConsumeDecimalNumber :: "slice \<Rightarrow> bool \<times> slice \<times> u64 option" where
  "ConsumeDecimalNumber s = consume_digits s 0 0"

section \<open>Digits and their value\<close>

definition is_digit :: "u8 \<Rightarrow> bool" where
  "is_digit c \<longleftrightarrow> 48 \<le> unat c \<and> unat c \<le> 57"

text \<open>The value of a digit string, from the left, starting with \<open>acc\<close>.\<close>

primrec digits_val :: "nat \<Rightarrow> slice \<Rightarrow> nat" where
  "digits_val acc [] = acc"
| "digits_val acc (c # cs) = digits_val (acc * 10 + (unat c - 48)) cs"

lemma digits_val_append: "digits_val acc (xs @ ys) = digits_val (digits_val acc xs) ys"
  by (induction xs arbitrary: acc) auto

lemma digits_val_mono: "acc \<le> digits_val acc ds"
proof (induction ds arbitrary: acc)
  case (Cons c ds)
  from Cons [of "acc * 10 + (unat c - 48)"] show ?case by simp
qed simp

lemma sint_digit: "sint (c :: u8) \<ge> 48 \<and> sint c \<le> 57 \<longleftrightarrow> is_digit c"
proof -
  have u: "unat c < 256" using unsigned_less [of c] by simp
  define n where "n = uint c"
  have n: "0 \<le> n" "n < 256" "n = int (unat c)" 
    using u uint_lt2p [of c] by (simp_all add: n_def)
  have b: "odd (n div 128) \<longleftrightarrow> 128 \<le> n" using n(1,2) by presburger
  have "sint c = take_bit 8 n - 256 * of_bool (odd (n div 128))"
    by (simp add: sint_uint signed_take_bit_eq_take_bit_minus n_def bit_iff_odd)
  also have "take_bit 8 n = n" using n(1,2) by (simp add: take_bit_int_eq_self)
  finally have s: "sint c = (if 128 \<le> n then n - 256 else n)" by (simp add: b)
  have "unat c = nat n" unfolding n(3) by (simp only: nat_int)
  then show ?thesis using n(1,2) by (auto simp: s is_digit_def)
qed

lemma of_char_digit: "k < 10 \<Longrightarrow> (of_char (char_of (48 + k)) :: u8) = of_nat (48 + k)"
proof -
  assume "k < 10"
  then have "(of_char (char_of (48 + k)) :: nat) = 48 + k" by (simp add: of_char_of)
  then show ?thesis by (metis of_nat_of_char)
qed

lemma decimal_rec:
  "decimal n = (if n < 10 then [of_nat (48 + n)] else decimal (n div 10) @ [of_nat (48 + n mod 10)])"
  by (subst decimal_def, subst digits.simps) (simp add: str_def decimal_def of_char_digit del: of_nat_add)

lemma unat_digit: "k < 10 \<Longrightarrow> unat (of_nat (48 + k) :: u8) = 48 + k"
  by (simp add: unat_of_nat take_bit_nat_eq_self del: of_nat_add)

lemma decimal_digits: "list_all is_digit (decimal n) \<and> decimal n \<noteq> []"
proof (induction n rule: digits.induct)
  case (1 n)
  have d: "is_digit (of_nat (48 + k))" if "k < 10" for k
    using unat_digit [OF that] that by (simp add: is_digit_def)
  show ?case
    using 1 d [of n] d [of "n mod 10"] by (subst (1 2) decimal_rec) auto
qed

lemma digits_val_decimal: "digits_val 0 (decimal n) = n"
proof (induction n rule: digits.induct)
  case (1 n)
  have d: "unat (of_nat (48 + k) :: u8) - 48 = k" if "k < 10" for k
    using unat_digit [OF that] by simp
  show ?case
    using 1 d [of n] d [of "n mod 10"] by (subst decimal_rec) (auto simp: digits_val_append)
qed

lemma length_decimal: "n < 10 ^ k \<Longrightarrow> 0 < k \<Longrightarrow> length (decimal n) \<le> k"
proof (induction n arbitrary: k rule: digits.induct)
  case (1 n)
  show ?case
  proof (cases "n < 10")
    case True
    then show ?thesis using 1 by (subst decimal_rec) simp
  next
    case False
    then obtain j where k: "k = Suc (Suc j)" using 1
      by (metis One_nat_def not0_implies_Suc not_gr_zero power_Suc0_right not_less_iff_gr_or_eq)
    have "length (decimal (n div 10)) \<le> Suc j"
      using 1 False k by (intro 1) (auto simp: less_mult_imp_div_less)
    with False k show ?thesis by (subst decimal_rec) simp
  qed
qed

lemma length_decimal_u64: "length (decimal (unat (v :: u64))) \<le> 20"
  by (rule length_decimal) (use unat_u64 [of v] in simp_all)

lemma NumberToString_decimal: "NumberToString v = decimal (unat v)"
  using length_decimal_u64 [of v] by (simp add: NumberToString_def AppendNumberTo_def)

text \<open>A leading run of zeros does not change the value.\<close>

lemma digits_val_zeros: "digits_val 0 (replicate k 48 @ ds) = digits_val 0 ds"
  by (induction k) auto

section \<open>The reader against the value\<close>

definition ends_number :: "slice \<Rightarrow> bool" where
  "ends_number rest \<longleftrightarrow> (case rest of [] \<Rightarrow> True | c # _ \<Rightarrow> \<not> is_digit c)"

lemma max_u64: "(NOT 0 :: u64) div 10 = 1844674407370955161" "(NOT 0 :: u64) mod 10 = 5"
  by (simp_all add: not_one_eq)

lemma digit_step:
  fixes v :: u64
  assumes c: "is_digit c"
  defines "delta \<equiv> ucast c - 48 :: u64"
  shows "(v > (NOT 0 :: u64) div 10 \<or> (v = (NOT 0 :: u64) div 10 \<and> delta > (NOT 0 :: u64) mod 10)) \<longleftrightarrow>
           2 ^ 64 \<le> unat v * 10 + (unat c - 48)" 
    and "unat v * 10 + (unat c - 48) < 2 ^ 64 \<Longrightarrow> unat (v * 10 + delta) = unat v * 10 + (unat c - 48)"
proof -
  have uc: "unat (ucast c :: u64) = unat c" 
    using c by (simp add: unsigned_ucast_eq take_bit_nat_eq_self is_digit_def)
  have d: "unat delta = unat c - 48"
    using c by (simp add: delta_def unat_sub word_le_nat_alt uc is_digit_def)
  have dd: "unat c - 48 \<le> 9" using c by (auto simp: is_digit_def)
  show "(v > (NOT 0 :: u64) div 10 \<or> (v = (NOT 0 :: u64) div 10 \<and> delta > (NOT 0 :: u64) mod 10)) \<longleftrightarrow>
      2 ^ 64 \<le> unat v * 10 + (unat c - 48)"
    using dd d by (auto simp: max_u64 word_less_nat_alt word_unat_eq_iff)
  assume b: "unat v * 10 + (unat c - 48) < 2 ^ 64"
  then have "unat (v * 10) = unat v * 10" by (subst unat_mult_lem [THEN iffD1]) simp_all
  with b d show "unat (v * 10 + delta) = unat v * 10 + (unat c - 48)"
    by (subst unat_add_lem [THEN iffD1]) simp_all
qed

lemma consume_digits_ok:
  "list_all is_digit ds \<Longrightarrow> ends_number rest \<Longrightarrow> digits_val (unat v) ds < 2 ^ 64 \<Longrightarrow>
   consume_digits (ds @ rest) v k = (0 < k + length ds, rest, Some (of_nat (digits_val (unat v) ds)))"
proof (induction ds arbitrary: v k)
  case Nil
  then show ?case by (cases rest) (auto simp: ends_number_def sint_digit)
next
  case (Cons c ds)
  let ?w = "v * 10 + (ucast c - 48)"
  have c: "is_digit c" using Cons.prems by simp
  have lt: "unat v * 10 + (unat c - 48) < 2 ^ 64"
    using Cons.prems digits_val_mono [of "unat v * 10 + (unat c - 48)" ds] by simp
  have w: "unat ?w = unat v * 10 + (unat c - 48)"
    using digit_step(2) [OF c, of v] lt by simp
  have "consume_digits ((c # ds) @ rest) v k = consume_digits (ds @ rest) ?w (k + 1)"
    using digit_step(1) [OF c, of v] lt c by (auto simp: sint_digit Let_def)
  also have "\<dots> = (0 < k + 1 + length ds, rest, Some (of_nat (digits_val (unat ?w) ds)))"
    using Cons.prems w by (intro Cons.IH) simp_all
  finally show ?case using w by simp
qed

lemma consume_digits_overflow:
  "list_all is_digit ds \<Longrightarrow> 2 ^ 64 \<le> digits_val (unat v) ds \<Longrightarrow>
   \<exists>s. consume_digits (ds @ rest) v k = (False, s, None)"
proof (induction ds arbitrary: v k)
  case Nil
  then show ?case using unat_u64 [of v] by simp
next
  case (Cons c ds)
  have c: "is_digit c" using Cons.prems by simp
  show ?case
  proof (cases "2 ^ 64 \<le> unat v * 10 + (unat c - 48)")
    case True
    then show ?thesis using digit_step(1) [OF c, of v] c by (auto simp: sint_digit Let_def)
  next
    case False
    then have "unat (v * 10 + (ucast c - 48)) = unat v * 10 + (unat c - 48)"
      using digit_step(2) [OF c] by simp
    then show ?thesis
      using digit_step(1) [OF c, of v] Cons False c by (auto simp: sint_digit Let_def)
  qed
qed

lemma ConsumeDecimalNumber_ok:
  "list_all is_digit ds \<Longrightarrow> ds \<noteq> [] \<Longrightarrow> ends_number rest \<Longrightarrow> digits_val 0 ds < 2 ^ 64 \<Longrightarrow>
   ConsumeDecimalNumber (ds @ rest) = (True, rest, Some (of_nat (digits_val 0 ds)))"
  using consume_digits_ok [of ds rest 0 0] by (simp add: ConsumeDecimalNumber_def)

lemma ConsumeDecimalNumber_none: "ends_number s \<Longrightarrow> ConsumeDecimalNumber s = (False, s, Some 0)"
  using consume_digits_ok [of "[]" s 0 0] by (simp add: ConsumeDecimalNumber_def)

text \<open>Every input is a run of digits followed by something else.\<close>

lemma split_digits: "\<exists>ds rest. s = ds @ rest \<and> list_all is_digit ds \<and> ends_number rest"
proof (induction s)
  case Nil
  then show ?case by (auto simp: ends_number_def)
next
  case (Cons c s)
  then obtain ds rest where s: "s = ds @ rest" "list_all is_digit ds" "ends_number rest" by auto
  show ?case
  proof (cases "is_digit c")
    case True
    then have "c # s = (c # ds) @ rest \<and> list_all is_digit (c # ds) \<and> ends_number rest"
      using s by simp
    then show ?thesis by blast
  next
    case False
    then have "c # s = [] @ c # s \<and> list_all is_digit [] \<and> ends_number (c # s)"
      by (simp add: ends_number_def)
    then show ?thesis by blast
  qed
qed

lemma ConsumeDecimalNumber_iff:
  "ConsumeDecimalNumber s = (True, rest, Some v) \<longleftrightarrow>
   (\<exists>ds. s = ds @ rest \<and> ds \<noteq> [] \<and> list_all is_digit ds \<and> ends_number rest \<and> digits_val 0 ds < 2 ^ 64 \<and>
         v = of_nat (digits_val 0 ds))" (is "?l \<longleftrightarrow> ?r")
proof
  assume l: ?l
  obtain ds r where s: "s = ds @ r" "list_all is_digit ds" "ends_number r"
    using split_digits [of s] by blast
  have lt: "digits_val 0 ds < 2 ^ 64"
    using consume_digits_overflow [of ds 0 r 0] l s by (fastforce simp: ConsumeDecimalNumber_def)
  have "ds \<noteq> []" using l s ConsumeDecimalNumber_none [of s] by auto
  with s lt l ConsumeDecimalNumber_ok [of ds r] show ?r by auto
next
  assume ?r
  then show ?l using ConsumeDecimalNumber_ok by blast
qed

end
