(* ===== verification/LdbFilename.thy ===== *)
theory LdbFilename
  imports LdbEnv LdbLogging
begin

text \<open>
  The files of a database (\<open>db/filename.h\<close>, \<open>db/filename.cc\<close>): their names, the classification of a
  name found in the directory, and the switch of the \<open>CURRENT\<close> file to a new manifest.

  Functions that assert a positive file number return \<open>None\<close> for zero; \<open>ParseFileName\<close> returns
  \<open>None\<close> where the source returns false (it has then stored nothing).
\<close>

section \<open>Names\<close>

datatype FileType =
  kLogFile | kDBLockFile | kTableFile | kDescriptorFile | kCurrentFile | kTempFile | kInfoLogFile

text \<open>The conversion \<open>%06llu\<close>.\<close>

definition decimal6 :: "nat \<Rightarrow> slice" where
  "decimal6 n = replicate (6 - length (decimal n)) 48 @ decimal n"

definition MakeFileName :: "slice \<Rightarrow> u64 \<Rightarrow> slice \<Rightarrow> slice" where
  "MakeFileName name num sfx = name @ take 99 ([47] @ decimal6 (unat num) @ [46] @ sfx)"

definition LogFileName :: "slice \<Rightarrow> u64 \<Rightarrow> slice option" where
  "LogFileName name num = (if num > 0 then Some (MakeFileName name num (str ''log'')) else None)"

definition TableFileName :: "slice \<Rightarrow> u64 \<Rightarrow> slice option" where
  "TableFileName name num = (if num > 0 then Some (MakeFileName name num (str ''ldb'')) else None)"

definition SSTTableFileName :: "slice \<Rightarrow> u64 \<Rightarrow> slice option" where
  "SSTTableFileName name num = (if num > 0 then Some (MakeFileName name num (str ''sst'')) else None)"

definition DescriptorFileName :: "slice \<Rightarrow> u64 \<Rightarrow> slice option" where
  "DescriptorFileName dbname num =
     (if num > 0 then Some (dbname @ take 99 (str ''/MANIFEST-'' @ decimal6 (unat num))) else None)"

definition CurrentFileName :: "slice \<Rightarrow> slice" where
  "CurrentFileName dbname = dbname @ str ''/CURRENT''"

definition LockFileName :: "slice \<Rightarrow> slice" where
  "LockFileName dbname = dbname @ str ''/LOCK''"

definition TempFileName :: "slice \<Rightarrow> u64 \<Rightarrow> slice option" where
  "TempFileName dbname num = (if num > 0 then Some (MakeFileName dbname num (str ''dbtmp'')) else None)"

definition InfoLogFileName :: "slice \<Rightarrow> slice" where
  "InfoLogFileName dbname = dbname @ str ''/LOG''"

definition OldInfoLogFileName :: "slice \<Rightarrow> slice" where
  "OldInfoLogFileName dbname = dbname @ str ''/LOG.old''"

definition ParseFileName :: "slice \<Rightarrow> (u64 \<times> FileType) option" where
  "ParseFileName fname =
     (let rest = fname in
      if Slice_eq rest (str ''CURRENT'') then Some (0, kCurrentFile)
      else if Slice_eq rest (str ''LOCK'') then Some (0, kDBLockFile)
      else if Slice_eq rest (str ''LOG'') \<or> Slice_eq rest (str ''LOG.old'') then Some (0, kInfoLogFile)
      else if starts_with rest (str ''MANIFEST-'')
      then (case ConsumeDecimalNumber (drop (length (str ''MANIFEST-'')) rest) of
              (True, rest, Some num) \<Rightarrow> if rest \<noteq> [] then None else Some (num, kDescriptorFile)
            | _ \<Rightarrow> None)
      else (case ConsumeDecimalNumber rest of
              (True, sfx, Some num) \<Rightarrow>
                if Slice_eq sfx (str ''.log'') then Some (num, kLogFile)
                else if Slice_eq sfx (str ''.sst'') \<or> Slice_eq sfx (str ''.ldb'') then Some (num, kTableFile)
                else if Slice_eq sfx (str ''.dbtmp'') then Some (num, kTempFile)
                else None
            | _ \<Rightarrow> None))"

section \<open>The CURRENT file\<close>

definition SetCurrentFile :: "slice \<Rightarrow> u64 \<Rightarrow> 'a os_scheme \<Rightarrow> (status \<times> 'a os_scheme) option" where
  "SetCurrentFile dbname descriptor_number os =
     (case DescriptorFileName dbname descriptor_number of
        None \<Rightarrow> None
      | Some manifest \<Rightarrow>
          if \<not> starts_with manifest (dbname @ str ''/'') then None
          else case (remove_prefix (length dbname + 1) manifest, TempFileName dbname descriptor_number) of
            (Some contents, Some tmp) \<Rightarrow>
              let (s, os) = WriteStringToFileSync (contents @ [10]) tmp os;
                  (s, os) = (if Status_ok s then RenameFile tmp (CurrentFileName dbname) os else (s, os));
                  os = (if \<not> Status_ok s then snd (env_DeleteFile tmp os) else os)
              in Some (s, os)
          | _ \<Rightarrow> None)"

section \<open>Names and their classification\<close>

lemma decimal6_digits: "list_all is_digit (decimal6 n)" "decimal6 n \<noteq> []" "digits_val 0 (decimal6 n) = n"
  using decimal_digits [of n]
  by (auto simp: decimal6_def digits_val_zeros digits_val_decimal list_all_iff is_digit_def)

lemma length_decimal6: "length (decimal6 (unat (v :: u64))) \<le> 20"
  using length_decimal_u64 [of v] by (simp add: decimal6_def)

lemma Slice_eq_eq [simp]: "Slice_eq x y \<longleftrightarrow> x = y"
  by (auto simp: Slice_eq_def memcmp_0)

text \<open>
  The file names a database owns, as the comment before \<open>ParseFileName\<close> lists them (with the
  temporary files, which it leaves out).
\<close>

definition owned_name :: "slice \<Rightarrow> u64 \<Rightarrow> FileType \<Rightarrow> bool" where
  "owned_name fname num t \<longleftrightarrow>
     (fname = str ''CURRENT'' \<and> num = 0 \<and> t = kCurrentFile) \<or>
     (fname = str ''LOCK'' \<and> num = 0 \<and> t = kDBLockFile) \<or>
     (fname \<in> {str ''LOG'', str ''LOG.old''} \<and> num = 0 \<and> t = kInfoLogFile) \<or>
     (\<exists>ds. ds \<noteq> [] \<and> list_all is_digit ds \<and> digits_val 0 ds < 2 ^ 64 \<and> num = of_nat (digits_val 0 ds) \<and>
        (fname = str ''MANIFEST-'' @ ds \<and> t = kDescriptorFile \<or>
         fname = ds @ str ''.log'' \<and> t = kLogFile \<or>
         fname \<in> {ds @ str ''.sst'', ds @ str ''.ldb''} \<and> t = kTableFile \<or>
         fname = ds @ str ''.dbtmp'' \<and> t = kTempFile))"

lemma str_eqs:
  "str ''CURRENT'' = [67, 85, 82, 82, 69, 78, 84]" "str ''LOCK'' = [76, 79, 67, 75]"
  "str ''LOG'' = [76, 79, 71]" "str ''LOG.old'' = [76, 79, 71, 46, 111, 108, 100]"
  "str ''MANIFEST-'' = [77, 65, 78, 73, 70, 69, 83, 84, 45]"
  "str ''.log'' = [46, 108, 111, 103]" "str ''.sst'' = [46, 115, 115, 116]" "str ''.ldb'' = [46, 108, 100, 98]"
  "str ''.dbtmp'' = [46, 100, 98, 116, 109, 112]"
  by (simp_all add: str_def of_char_def)

lemma digits_hd: "ds \<noteq> [] \<Longrightarrow> list_all is_digit ds \<Longrightarrow> \<exists>c cs. ds = c # cs \<and> is_digit c"
  by (cases ds) auto

lemma not_digit [simp]: "\<not> is_digit 67" "\<not> is_digit 76" "\<not> is_digit 77" "\<not> is_digit 46"
  by (simp_all add: is_digit_def)

lemma ends_number_simps [simp]: "ends_number []" "ends_number (46 # xs)"
  by (simp_all add: ends_number_def)

lemma consume_case:
  "(case ConsumeDecimalNumber s of (True, r, Some num) \<Rightarrow> P r num | _ \<Rightarrow> None) = Some z \<longleftrightarrow>
   (\<exists>r num. ConsumeDecimalNumber s = (True, r, Some num) \<and> P r num = Some z)"
  by (auto split: prod.splits bool.splits option.splits)

lemma ParseFileName_manifest:
  "ParseFileName (str ''MANIFEST-'' @ s) =
     (case ConsumeDecimalNumber s of (True, rest, Some num) \<Rightarrow> if rest \<noteq> [] then None else Some (num, kDescriptorFile) | _ \<Rightarrow> None)"
  by (simp add: ParseFileName_def starts_with_prefix str_eqs)

lemma ParseFileName_digits:
  assumes "list_all is_digit ds" "ds \<noteq> []" "ends_number sfx" "digits_val 0 ds < 2 ^ 64"
  shows "ParseFileName (ds @ sfx) =
    (let num = of_nat (digits_val 0 ds) in
     if sfx = str ''.log'' then Some (num, kLogFile)
     else if sfx = str ''.sst'' \<or> sfx = str ''.ldb'' then Some (num, kTableFile)
     else if sfx = str ''.dbtmp'' then Some (num, kTempFile) else None)"
proof -
  obtain c cs where ds: "ds = c # cs" "is_digit c" using digits_hd assms by blast
  have "c \<noteq> 67" "c \<noteq> 76" "c \<noteq> 77" using ds(2) by auto
  then show ?thesis
    using ConsumeDecimalNumber_ok [OF assms]
    by (simp add: ParseFileName_def ds starts_with_prefix str_eqs Let_def)
qed

lemma ParseFileName_owned: "owned_name f num t \<Longrightarrow> ParseFileName f = Some (num, t)"
proof (unfold owned_name_def, elim disjE exE conjE)
  fix ds assume ds: "ds \<noteq> []" "list_all is_digit ds" "digits_val 0 ds < 2 ^ 64" and n: "num = of_nat (digits_val 0 ds)"
  note P = ParseFileName_digits [OF ds(2,1) _ ds(3), unfolded Let_def, folded n]
  show "f = str ''MANIFEST-'' @ ds \<Longrightarrow> t = kDescriptorFile \<Longrightarrow> ParseFileName f = Some (num, t)"
    using ConsumeDecimalNumber_ok [OF ds(2,1) _ ds(3), of "[]"] by (simp add: ParseFileName_manifest n)
  show "f = ds @ str ''.log'' \<Longrightarrow> t = kLogFile \<Longrightarrow> ParseFileName f = Some (num, t)"
    by (simp add: P str_eqs)
  show "f \<in> {ds @ str ''.sst'', ds @ str ''.ldb''} \<Longrightarrow> t = kTableFile \<Longrightarrow> ParseFileName f = Some (num, t)"
    by (auto simp: P str_eqs)
  show "f = ds @ str ''.dbtmp'' \<Longrightarrow> t = kTempFile \<Longrightarrow> ParseFileName f = Some (num, t)"
    by (simp add: P str_eqs)
qed (auto simp: ParseFileName_def str_eqs)

lemma owned_ParseFileName: "ParseFileName f = Some (num, t) \<Longrightarrow> owned_name f num t"
  unfolding ParseFileName_def Let_def Slice_eq_eq
proof (split if_split_asm, goal_cases)
  case 2
  then show ?case
    by (auto simp: consume_case ConsumeDecimalNumber_iff owned_name_def starts_with_prefix prefix_def split: if_split_asm)
qed (auto simp: owned_name_def)

text \<open>
  C40: \<open>ParseFileName\<close> recognises exactly the names a database owns, with the type and the number
  they stand for: for every name and every result.
\<close>

theorem ParseFileName_exact: "ParseFileName fname = Some (num, t) \<longleftrightarrow> owned_name fname num t"
  using ParseFileName_owned owned_ParseFileName by blast

lemma MakeFileName_eq:
  "length sfx \<le> 5 \<Longrightarrow> MakeFileName name num sfx = name @ [47] @ decimal6 (unat num) @ [46] @ sfx"
  using length_decimal6 [of num] by (simp add: MakeFileName_def)

lemma DescriptorFileName_eq:
  "num > 0 \<Longrightarrow> DescriptorFileName db num = Some (db @ [47] @ str ''MANIFEST-'' @ decimal6 (unat num))"
  using length_decimal6 [of num] by (simp add: DescriptorFileName_def str_def of_char_def)

lemma length_str [simp]: "length (str s) = length s"
  by (simp add: str_def)

text \<open>The name a function makes for a file, below the directory of the database.\<close>

definition below :: "slice \<Rightarrow> slice \<Rightarrow> slice" where
  "below db path = drop (length db + 1) path"

text \<open>
  The name each of the functions builds for a positive number begins with the name of the
  database and a slash, and \<open>ParseFileName\<close> gives back the number and the type from the rest.
\<close>

theorem filename_round_trip:
  assumes "num > 0"
  shows "map_option (\<lambda>p. ParseFileName (below db p)) (LogFileName db num) = Some (Some (num, kLogFile)) \<and>
    map_option (\<lambda>p. ParseFileName (below db p)) (TableFileName db num) = Some (Some (num, kTableFile)) \<and>
    map_option (\<lambda>p. ParseFileName (below db p)) (SSTTableFileName db num) = Some (Some (num, kTableFile)) \<and>
    map_option (\<lambda>p. ParseFileName (below db p)) (TempFileName db num) = Some (Some (num, kTempFile)) \<and>
    map_option (\<lambda>p. ParseFileName (below db p)) (DescriptorFileName db num) = Some (Some (num, kDescriptorFile)) \<and>
    ParseFileName (below db (CurrentFileName db)) = Some (0, kCurrentFile) \<and>
    ParseFileName (below db (LockFileName db)) = Some (0, kDBLockFile) \<and>
    ParseFileName (below db (InfoLogFileName db)) = Some (0, kInfoLogFile) \<and>
    ParseFileName (below db (OldInfoLogFileName db)) = Some (0, kInfoLogFile)"
proof -
  let ?d = "decimal6 (unat num)"
  have d: "digits_val 0 ?d < 2 ^ 64" "of_nat (digits_val 0 ?d) = num"
    using unat_u64 [of num] by (simp_all add: decimal6_digits)
  have owned: "owned_name f num t" if "f = str ''MANIFEST-'' @ ?d \<and> t = kDescriptorFile \<or>
         f = ?d @ str ''.log'' \<and> t = kLogFile \<or> f \<in> {?d @ str ''.sst'', ?d @ str ''.ldb''} \<and> t = kTableFile \<or>
         f = ?d @ str ''.dbtmp'' \<and> t = kTempFile" for f t
    unfolding owned_name_def using that
    by (intro disjI2 exI [of _ ?d]) (simp only: decimal6_digits(1,2) d not_False_eq_True simp_thms)
  have s: "str (c # cs) = of_char c # str cs" for c cs by (simp add: str_def)
  have dot: "below db (MakeFileName db num (str x)) = ?d @ str (CHR ''.'' # x)" if "length x \<le> 5" for x
    using that by (simp add: below_def MakeFileName_eq s of_char_def)
  have m: "map_option (\<lambda>p. ParseFileName (below db p)) (DescriptorFileName db num) = Some (Some (num, kDescriptorFile))"
    using assms owned by (simp add: DescriptorFileName_eq below_def ParseFileName_owned)
  have fixed: "owned_name (str ''CURRENT'') 0 kCurrentFile" "owned_name (str ''LOCK'') 0 kDBLockFile"
    "owned_name (str ''LOG'') 0 kInfoLogFile" "owned_name (str ''LOG.old'') 0 kInfoLogFile"
    by (simp_all add: owned_name_def)
  have b: "below db (db @ str (CHR ''/'' # x)) = str x" for x by (simp add: below_def s)
  show ?thesis
    using assms m
    by (simp add: LogFileName_def TableFileName_def SSTTableFileName_def TempFileName_def dot CurrentFileName_def
        LockFileName_def InfoLogFileName_def OldInfoLogFileName_def b fixed [THEN ParseFileName_owned]
        owned [THEN ParseFileName_owned])
qed

text \<open>The round trip for file number 7 of the database \<open>db\<close>.\<close>

theorem filename_round_trip_witness:
  "TableFileName (str ''db'') 7 = Some (str ''db/000007.ldb'') \<and>
   ParseFileName (below (str ''db'') (str ''db/000007.ldb'')) = Some (7, kTableFile)"
proof -
  have r: "replicate 5 (48 :: u8) = [48, 48, 48, 48, 48]" by (simp add: numeral_eq_Suc)
  have "decimal6 7 = [48, 48, 48, 48, 48, 55]" by (simp add: decimal6_def decimal_rec r)
  then have t: "TableFileName (str ''db'') 7 = Some (str ''db/000007.ldb'')"
    by (simp add: TableFileName_def MakeFileName_def str_def of_char_def)
  show ?thesis using filename_round_trip [of 7 "str ''db''"] by (simp add: t)
qed

section \<open>Switching CURRENT\<close>

lemma c_str_id: "0 \<notin> set s \<Longrightarrow> c_str s = s"
  unfolding c_str_def by (rule takeWhile_eq_all_conv [THEN iffD2]) auto

lemma digit_nonzero: "list_all is_digit ds \<Longrightarrow> 0 \<notin> set ds"
  by (auto simp: list_all_iff is_digit_def)

lemma name_no_zero:
  assumes "0 \<notin> set db"
  shows "TempFileName db num = Some tmp \<Longrightarrow> 0 \<notin> set tmp" and "0 \<notin> set (CurrentFileName db)"
  using assms digit_nonzero [OF decimal6_digits(1) [of "unat num"]]
  by (auto simp: TempFileName_def MakeFileName_eq CurrentFileName_def str_def of_char_def split: if_splits)

lemma TempFileName_eq: "num > 0 \<Longrightarrow> TempFileName db num = Some (db @ 47 # decimal6 (unat num) @ str ''.dbtmp'')"
  by (simp add: TempFileName_def MakeFileName_eq str_def of_char_def)

lemma temp_not_current: "TempFileName db num = Some tmp \<Longrightarrow> tmp \<noteq> CurrentFileName db"
proof -
  assume t: "TempFileName db num = Some tmp"
  obtain c cs where d: "decimal6 (unat num) = c # cs" "is_digit c" using digits_hd decimal6_digits by blast
  then have "c \<noteq> 67" by auto
  then show ?thesis
    using t d by (auto simp: TempFileName_def MakeFileName_eq CurrentFileName_def str_def of_char_def split: if_splits)
qed

text \<open>The directory entry of \<open>CURRENT\<close> once it names the manifest.\<close>

definition current_entry :: "u64 \<Rightarrow> inode" where
  "current_entry num = \<lparr>f_data = str ''MANIFEST-'' @ decimal6 (unat num) @ [10], f_synced = True\<rparr>"

lemma RenameFile_file:
  assumes "RenameFile src target os = (s, os')" and "lookup os (c_str src) = Some f" and "c_str src \<noteq> c_str target"
  shows "if Status_ok s
     then \<exists>ft. history os' = history os @ [ft] \<and> files os' = ft \<and>
       map_of ft = (map_of (files os))(c_str src := None, c_str target \<mapsto> f)
     else history os' = history os \<and> files os' = files os"
    and "faults os = [] \<Longrightarrow> Status_ok s \<and> faults os' = []"
  using assms
  by (auto simp: RenameFile_def sys_rename_def syscall_eq set_files_def update_conv' delete_conv'
      restrict_map_def split: prod.splits option.splits dest: syscall_SomeD)

lemma only_current:
  assumes "only tmp os os'" and "tmp \<noteq> cur"
  obtains h where "history os' = history os @ h" and "\<forall>ft\<in>set h. map_of ft cur = lookup os cur"
    and "lookup os' cur = lookup os cur"
  using assms unfolding only_def by metis

lemma SetCurrentFile_eq:
  fixes db :: slice
  assumes num: "num > 0"
  defines "tmp \<equiv> db @ 47 # decimal6 (unat num) @ str ''.dbtmp''"
  shows "SetCurrentFile db num os =
    (let (s, os) = DoWriteStringToFile (f_data (current_entry num)) tmp True os;
         (s, os) = (if Status_ok s then RenameFile tmp (CurrentFileName db) os else (s, os));
         os = (if \<not> Status_ok s then snd (env_DeleteFile tmp os) else os)
     in Some (s, os))"
proof -
  have "prefix (db @ str ''/'') (db @ [47] @ m)" for m
    by (simp add: str_def of_char_def)
  then show ?thesis
    unfolding tmp_def using num
    by (simp add: SetCurrentFile_def DescriptorFileName_eq TempFileName_eq starts_with_prefix remove_prefix_def
        WriteStringToFileSync_def current_entry_def)
qed

lemma only_trans_current:
  assumes "\<forall>ft\<in>set h. map_of ft cur = P \<or> map_of ft cur = Q" and "history os1 = history os @ h"
    and "only tmp os1 os2" and "tmp \<noteq> cur" and "lookup os1 cur = P \<or> lookup os1 cur = Q"
  shows "\<exists>h. history os2 = history os @ h \<and> (\<forall>ft\<in>set h. map_of ft cur = P \<or> map_of ft cur = Q)"
proof -
  obtain h' where "history os2 = history os1 @ h'" "\<forall>ft\<in>set h'. map_of ft cur = lookup os1 cur"
    using only_current [OF assms(3,4)] by metis
  then show ?thesis using assms by (intro exI [of _ "h @ h'"]) auto
qed

text \<open>What is left after the temporary file was written and, if that went well, renamed.\<close>

lemma write_rename:
  fixes os :: "'a os_scheme"
  assumes 1: "DoWriteStringToFile (f_data new) tmp True os = (s1, os1)"
    and 2: "(if Status_ok s1 then RenameFile tmp cur os1 else (s1, os1)) = (s2, os2)"
    and ct: "c_str tmp = tmp" and cc: "c_str cur = cur" and ne: "tmp \<noteq> cur" and new_def: "new = current_entry num"
  shows "(\<exists>h. history os2 = history os @ h \<and> (\<forall>ft\<in>set h. map_of ft cur = lookup os cur \<or> map_of ft cur = Some new)) \<and>
      lookup os2 cur = (if Status_ok s2 then Some new else lookup os cur) \<and>
      (\<forall>q. q \<noteq> cur \<and> q \<noteq> tmp \<longrightarrow> lookup os2 q = lookup os q)" (is ?written)
    and "faults os = [] \<longrightarrow> Status_ok s2"
proof -
  note W = DoWriteStringToFile_file [OF 1, unfolded ct]
  obtain h1 where h1: "history os1 = history os @ h1" "\<forall>ft\<in>set h1. map_of ft cur = lookup os cur"
    "lookup os1 cur = lookup os cur" using only_current [OF W(1) ne] by metis
  show ?written
  proof (cases "Status_ok s1")
    case True
    then have R: "RenameFile tmp cur os1 = (s2, os2)" using 2 by simp
    have f: "lookup os1 (c_str tmp) = Some new" using W(2) [OF True] ct by (auto simp: new_def current_entry_def)
    note R = RenameFile_file(1) [OF R f, unfolded ct cc, OF ne]
    show ?thesis
    proof (cases "Status_ok s2")
      case True
      then obtain ft where "history os2 = history os1 @ [ft]" "files os2 = ft"
        "map_of ft = (map_of (files os1))(tmp := None, cur \<mapsto> new)" using R by auto
      then show ?thesis using True h1 ne W(1) by (auto simp: only_def)
    next
      case False
      then show ?thesis using R h1 W(1) by (auto simp: only_def)
    qed
  next
    case False
    then show ?thesis using 2 h1 W(1) by (auto simp: only_def)
  qed
  show "faults os = [] \<longrightarrow> Status_ok s2"
  proof
    assume "faults os = []"
    then have "Status_ok s1" "faults os1 = []" using W(3) by auto
    then show "Status_ok s2"
      using 2 RenameFile_file(2) [of tmp cur os1 s2 os2 new] W(2) ne by (auto simp: ct cc new_def current_entry_def)
  qed
qed

text \<open>
  C37: \<open>SetCurrentFile\<close> switches atomically, whichever of the system calls fail: in every state of
  the file system from the call to its return, so also after a crash at any point, \<open>CURRENT\<close> is
  either as it was or holds the complete and synced name of the new manifest.  It holds the new
  name when the status is ok, it is unchanged otherwise, files other than \<open>CURRENT\<close> and the
  temporary file are untouched, and without faults the call succeeds.
\<close>

theorem SetCurrentFile_atomic:
  fixes os :: "'a os_scheme"
  assumes num: "num > 0" and db: "0 \<notin> set db"
  defines "cur \<equiv> CurrentFileName db" and "new \<equiv> current_entry num"
  shows "\<exists>s os' h. SetCurrentFile db num os = Some (s, os') \<and>
    history os' = history os @ h \<and> (\<forall>ft\<in>set h. map_of ft cur = lookup os cur \<or> map_of ft cur = Some new) \<and>
    lookup os' cur = (if Status_ok s then Some new else lookup os cur) \<and>
    (\<forall>q. q \<noteq> cur \<and> Some q \<noteq> TempFileName db num \<longrightarrow> lookup os' q = lookup os q) \<and>
    (faults os = [] \<longrightarrow> Status_ok s)"
proof -
  define tmp where "tmp = db @ 47 # decimal6 (unat num) @ str ''.dbtmp''"
  have T: "TempFileName db num = Some tmp" using num by (simp add: TempFileName_eq tmp_def)
  have ct: "c_str tmp = tmp" and cc: "c_str cur = cur"
    using name_no_zero [OF db] T by (auto simp: cur_def intro!: c_str_id)
  have ne: "tmp \<noteq> cur" using temp_not_current [OF T] by (simp add: cur_def)
  obtain s1 os1 where 1: "DoWriteStringToFile (f_data new) tmp True os = (s1, os1)" by (metis surj_pair)
  obtain s2 os2 where 2: "(if Status_ok s1 then RenameFile tmp cur os1 else (s1, os1)) = (s2, os2)" by (metis surj_pair)
  define os3 where "os3 = (if \<not> Status_ok s2 then snd (env_DeleteFile tmp os2) else os2)"
  have eq: "SetCurrentFile db num os = Some (s2, os3)"
    unfolding SetCurrentFile_eq [OF num, of db os, folded tmp_def new_def cur_def]
    by (simp only: Let_def 1 2 prod.case os3_def)
  have o3: "only tmp os2 os3" using only_DeleteFile [of tmp os2] by (simp add: os3_def ct)
  have "new = current_entry num" by (simp add: new_def)
  note wr = write_rename [OF 1 2 ct cc ne this]
  then obtain h2 where h2: "history os2 = history os @ h2" "\<forall>ft\<in>set h2. map_of ft cur = lookup os cur \<or> map_of ft cur = Some new"
    by blast
  have "lookup os2 cur = lookup os cur \<or> lookup os2 cur = Some new" using wr(1) by auto
  with only_trans_current [OF h2(2,1) o3 ne] obtain h where
    h: "history os3 = history os @ h" "\<forall>ft\<in>set h. map_of ft cur = lookup os cur \<or> map_of ft cur = Some new" by blast
  have l3: "lookup os3 q = lookup os2 q" if "q \<noteq> tmp" for q using o3 that by (simp add: only_def)
  show ?thesis
    using eq h wr l3 ne by (intro exI [of _ s2] exI [of _ os3] exI [of _ h]) (auto simp: T)
qed

text \<open>Two faults: the first sync of the temporary file fails, and so does its removal.\<close>

theorem SetCurrentFile_atomic_witness:
  "\<exists>s os'. SetCurrentFile (str ''db'') 5
      \<lparr>files = [(str ''db/CURRENT'', current_entry 3)], dirs = [], own_locks = [], other_locks = [],
       faults = [None, None, None, Some (5, 0), None, Some (5, 0)], history = [], strerror = (\<lambda>_. [])\<rparr> = Some (s, os') \<and>
    \<not> Status_ok s \<and> lookup os' (str ''db/CURRENT'') = Some (current_entry 3)"
proof -
  let ?os = "\<lparr>files = [(str ''db/CURRENT'', current_entry 3)], dirs = [], own_locks = [], other_locks = [],
       faults = [None, None, None, Some (5, 0), None, Some (5, 0)], history = [], strerror = (\<lambda>_. [])\<rparr>"
  have cur: "CurrentFileName (str ''db'') = str ''db/CURRENT''" by (simp add: CurrentFileName_def str_def)
  have z: "0 \<notin> set (str ''db'')" by (simp add: str_def of_char_def)
  obtain s os' where
    1: "SetCurrentFile (str ''db'') 5 ?os = Some (s, os')" and
    2: "lookup os' (str ''db/CURRENT'') = (if Status_ok s then Some (current_entry 5) else lookup ?os (str ''db/CURRENT''))"
    using SetCurrentFile_atomic [of 5 "str ''db''" ?os, OF _ z] by (auto simp: cur)
  have "fst (the (SetCurrentFile (str ''db'') 5 ?os)) \<noteq> None"
    by code_simp
  then have "\<not> Status_ok s" using 1 by (simp add: Status_ok_def)
  with 1 2 show ?thesis by (intro exI [of _ s] exI [of _ os']) simp
qed

end
