(* ===== verification/LdbVersionEdit.thy ===== *)
theory LdbVersionEdit
  imports LdbKeys LdbLogging "HOL-Library.Product_Lexorder"
begin

text \<open>
  Version edits (\<open>db/version_edit.h\<close>, \<open>db/version_edit.cc\<close>), the records of the manifest, and the
  printing of internal keys (\<open>db/dbformat.cc\<close>).

  \<open>std::set\<close> is the ascending list of its elements.  \<open>EncodeTo\<close> is \<open>None\<close> where the assertion of
  \<open>InternalKey::Encode\<close> fails.
\<close>

section \<open>Printing of keys\<close>

definition ParsedInternalKey_DebugString :: "ParsedInternalKey \<Rightarrow> slice" where
  "ParsedInternalKey_DebugString p =
     [39] @ EscapeString (pk_user_key p) @
     take 49 ([39] @ str '' @ '' @ decimal (unat (pk_sequence p)) @ str '' : '' @ decimal (unat (pk_type p)))"

definition InternalKey_DebugString :: "InternalKey \<Rightarrow> slice" where
  "InternalKey_DebugString rep =
     (case ParseInternalKey rep of
        Some parsed \<Rightarrow> ParsedInternalKey_DebugString parsed
      | None \<Rightarrow> str ''(bad)'' @ EscapeString rep)"

section \<open>Edits\<close>

definition kNumLevels :: int where "kNumLevels = 7"

record FileMetaData =
  fm_refs :: int
  fm_allowed_seeks :: int
  fm_number :: u64
  fm_file_size :: u64
  fm_smallest :: InternalKey
  fm_largest :: InternalKey

record VersionEdit =
  ve_comparator :: slice
  ve_log_number :: u64
  ve_prev_log_number :: u64
  ve_next_file_number :: u64
  ve_last_sequence :: u64
  has_comparator :: bool
  has_log_number :: bool
  has_prev_log_number :: bool
  has_next_file_number :: bool
  has_last_sequence :: bool
  compact_pointers :: "(int \<times> InternalKey) list"
  deleted_files :: "(int \<times> u64) list"
  new_files :: "(int \<times> FileMetaData) list"

text \<open>The constructor of \<open>FileMetaData\<close> and the assignments that follow it.\<close>

definition FileMetaData_new :: "u64 \<Rightarrow> u64 \<Rightarrow> InternalKey \<Rightarrow> InternalKey \<Rightarrow> FileMetaData" where
  "FileMetaData_new num file_size smallest largest =
     \<lparr>fm_refs = 0, fm_allowed_seeks = 2 ^ 30, fm_number = num, fm_file_size = file_size, fm_smallest = smallest, fm_largest = largest\<rparr>"

definition VersionEdit_Clear :: "VersionEdit \<Rightarrow> VersionEdit" where
  "VersionEdit_Clear e =
     e\<lparr>ve_comparator := [], ve_log_number := 0, ve_prev_log_number := 0, ve_last_sequence := 0, ve_next_file_number := 0,
       has_comparator := False, has_log_number := False, has_prev_log_number := False, has_next_file_number := False,
       has_last_sequence := False, deleted_files := [], new_files := []\<rparr>"

definition VersionEdit_new :: VersionEdit where
  "VersionEdit_new =
     \<lparr>ve_comparator = [], ve_log_number = 0, ve_prev_log_number = 0, ve_next_file_number = 0, ve_last_sequence = 0,
      has_comparator = False, has_log_number = False, has_prev_log_number = False, has_next_file_number = False,
      has_last_sequence = False, compact_pointers = [], deleted_files = [], new_files = []\<rparr>"

definition SetComparatorName :: "slice \<Rightarrow> VersionEdit \<Rightarrow> VersionEdit" where
  "SetComparatorName name e = e\<lparr>has_comparator := True, ve_comparator := name\<rparr>"

definition SetLogNumber :: "u64 \<Rightarrow> VersionEdit \<Rightarrow> VersionEdit" where
  "SetLogNumber num e = e\<lparr>has_log_number := True, ve_log_number := num\<rparr>"

definition SetPrevLogNumber :: "u64 \<Rightarrow> VersionEdit \<Rightarrow> VersionEdit" where
  "SetPrevLogNumber num e = e\<lparr>has_prev_log_number := True, ve_prev_log_number := num\<rparr>"

definition SetNextFile :: "u64 \<Rightarrow> VersionEdit \<Rightarrow> VersionEdit" where
  "SetNextFile num e = e\<lparr>has_next_file_number := True, ve_next_file_number := num\<rparr>"

definition SetLastSequence :: "u64 \<Rightarrow> VersionEdit \<Rightarrow> VersionEdit" where
  "SetLastSequence seq e = e\<lparr>has_last_sequence := True, ve_last_sequence := seq\<rparr>"

definition SetCompactPointer :: "int \<Rightarrow> InternalKey \<Rightarrow> VersionEdit \<Rightarrow> VersionEdit" where
  "SetCompactPointer level key e = e\<lparr>compact_pointers := compact_pointers e @ [(level, key)]\<rparr>"

definition AddFile :: "int \<Rightarrow> u64 \<Rightarrow> u64 \<Rightarrow> InternalKey \<Rightarrow> InternalKey \<Rightarrow> VersionEdit \<Rightarrow> VersionEdit" where
  "AddFile level num file_size smallest largest e =
     e\<lparr>new_files := new_files e @ [(level, FileMetaData_new num file_size smallest largest)]\<rparr>"

definition edit_DeleteFile :: "int \<Rightarrow> u64 \<Rightarrow> VersionEdit \<Rightarrow> VersionEdit" where
  "edit_DeleteFile level num e = e\<lparr>deleted_files := insort_insert (level, num) (deleted_files e)\<rparr>"

section \<open>Encoding\<close>

definition kComparator :: u32 where "kComparator = 1"
definition kLogNumber :: u32 where "kLogNumber = 2"
definition kNextFileNumber :: u32 where "kNextFileNumber = 3"
definition kLastSequence :: u32 where "kLastSequence = 4"
definition kCompactPointer :: u32 where "kCompactPointer = 5"
definition kDeletedFile :: u32 where "kDeletedFile = 6"
definition kNewFile :: u32 where "kNewFile = 7"
definition kPrevLogNumber :: u32 where "kPrevLogNumber = 9"

lemmas tag_defs = kComparator_def kLogNumber_def kNextFileNumber_def kLastSequence_def kCompactPointer_def
  kDeletedFile_def kNewFile_def kPrevLogNumber_def

definition put_key :: "InternalKey \<Rightarrow> slice \<Rightarrow> slice option" where
  "put_key k dst = map_option (\<lambda>s. PutLengthPrefixedSlice s dst) (InternalKey_Encode k)"

primrec put_compact_pointers :: "(int \<times> InternalKey) list \<Rightarrow> slice \<Rightarrow> slice option" where
  "put_compact_pointers [] dst = Some dst"
| "put_compact_pointers (p # ps) dst =
     (case put_key (snd p) (PutVarint32 (of_int (fst p)) (PutVarint32 kCompactPointer dst)) of
        None \<Rightarrow> None
      | Some dst \<Rightarrow> put_compact_pointers ps dst)"

primrec put_deleted_files :: "(int \<times> u64) list \<Rightarrow> slice \<Rightarrow> slice" where
  "put_deleted_files [] dst = dst"
| "put_deleted_files (d # ds) dst =
     put_deleted_files ds (PutVarint64 (snd d) (PutVarint32 (of_int (fst d)) (PutVarint32 kDeletedFile dst)))"

primrec put_new_files :: "(int \<times> FileMetaData) list \<Rightarrow> slice \<Rightarrow> slice option" where
  "put_new_files [] dst = Some dst"
| "put_new_files (n # ns) dst =
     (let f = snd n;
          dst = PutVarint64 (fm_file_size f) (PutVarint64 (fm_number f) (PutVarint32 (of_int (fst n)) (PutVarint32 kNewFile dst)))
      in case put_key (fm_smallest f) dst of
           None \<Rightarrow> None
         | Some dst \<Rightarrow>
             (case put_key (fm_largest f) dst of
                None \<Rightarrow> None
              | Some dst \<Rightarrow> put_new_files ns dst))"

definition VersionEdit_EncodeTo :: "VersionEdit \<Rightarrow> slice \<Rightarrow> slice option" where
  "VersionEdit_EncodeTo e dst =
     (let dst = (if has_comparator e then PutLengthPrefixedSlice (ve_comparator e) (PutVarint32 kComparator dst) else dst);
          dst = (if has_log_number e then PutVarint64 (ve_log_number e) (PutVarint32 kLogNumber dst) else dst);
          dst = (if has_prev_log_number e then PutVarint64 (ve_prev_log_number e) (PutVarint32 kPrevLogNumber dst) else dst);
          dst = (if has_next_file_number e then PutVarint64 (ve_next_file_number e) (PutVarint32 kNextFileNumber dst) else dst);
          dst = (if has_last_sequence e then PutVarint64 (ve_last_sequence e) (PutVarint32 kLastSequence dst) else dst)
      in case put_compact_pointers (compact_pointers e) dst of
           None \<Rightarrow> None
         | Some dst \<Rightarrow> put_new_files (new_files e) (put_deleted_files (deleted_files e) dst))"

section \<open>Decoding\<close>

definition GetInternalKey :: "slice \<Rightarrow> (InternalKey \<times> slice) option" where
  "GetInternalKey input =
     (case GetLengthPrefixedSlice input of None \<Rightarrow> None | Some (s, input) \<Rightarrow> Some (InternalKey_DecodeFrom s, input))"

definition GetLevel :: "slice \<Rightarrow> (int \<times> slice) option" where
  "GetLevel input =
     (case GetVarint32 input of
        None \<Rightarrow> None
      | Some (v, input) \<Rightarrow> if v < of_int kNumLevels then Some (int (unat v), input) else None)"

text \<open>One case of the \<open>switch\<close>: the message of a failure, or the edit and the rest of the input.\<close>

definition decode_edit_field :: "u32 \<Rightarrow> slice \<Rightarrow> VersionEdit \<Rightarrow> string + (slice \<times> VersionEdit)" where
  "decode_edit_field tag input e =
     (if tag = kComparator
      then (case GetLengthPrefixedSlice input of
              Some (s, input) \<Rightarrow> Inr (input, e\<lparr>ve_comparator := s, has_comparator := True\<rparr>)
            | None \<Rightarrow> Inl ''comparator name'')
      else if tag = kLogNumber
      then (case GetVarint64 input of
              Some (v, input) \<Rightarrow> Inr (input, e\<lparr>ve_log_number := v, has_log_number := True\<rparr>)
            | None \<Rightarrow> Inl ''log number'')
      else if tag = kPrevLogNumber
      then (case GetVarint64 input of
              Some (v, input) \<Rightarrow> Inr (input, e\<lparr>ve_prev_log_number := v, has_prev_log_number := True\<rparr>)
            | None \<Rightarrow> Inl ''previous log number'')
      else if tag = kNextFileNumber
      then (case GetVarint64 input of
              Some (v, input) \<Rightarrow> Inr (input, e\<lparr>ve_next_file_number := v, has_next_file_number := True\<rparr>)
            | None \<Rightarrow> Inl ''next file number'')
      else if tag = kLastSequence
      then (case GetVarint64 input of
              Some (v, input) \<Rightarrow> Inr (input, e\<lparr>ve_last_sequence := v, has_last_sequence := True\<rparr>)
            | None \<Rightarrow> Inl ''last sequence number'')
      else if tag = kCompactPointer
      then (case Option.bind (GetLevel input) (\<lambda>(level, input).
                 map_option (\<lambda>(key, input). (level, key, input)) (GetInternalKey input)) of
              Some (level, key, input) \<Rightarrow> Inr (input, e\<lparr>compact_pointers := compact_pointers e @ [(level, key)]\<rparr>)
            | None \<Rightarrow> Inl ''compaction pointer'')
      else if tag = kDeletedFile
      then (case Option.bind (GetLevel input) (\<lambda>(level, input).
                 map_option (\<lambda>(num, input). (level, num, input)) (GetVarint64 input)) of
              Some (level, num, input) \<Rightarrow> Inr (input, e\<lparr>deleted_files := insort_insert (level, num) (deleted_files e)\<rparr>)
            | None \<Rightarrow> Inl ''deleted file'')
      else if tag = kNewFile
      then (case Option.bind (GetLevel input) (\<lambda>(level, input).
                 Option.bind (GetVarint64 input) (\<lambda>(num, input).
                 Option.bind (GetVarint64 input) (\<lambda>(file_size, input).
                 Option.bind (GetInternalKey input) (\<lambda>(smallest, input).
                 map_option (\<lambda>(largest, input). (level, FileMetaData_new num file_size smallest largest, input))
                   (GetInternalKey input))))) of
              Some (level, f, input) \<Rightarrow> Inr (input, e\<lparr>new_files := new_files e @ [(level, f)]\<rparr>)
            | None \<Rightarrow> Inl ''new-file entry'')
      else Inl ''unknown tag'')"

lemma GetInternalKey_progress: "GetInternalKey bs = Some (k, rest) \<Longrightarrow> length rest < length bs"
  by (auto simp: GetInternalKey_def split: option.splits dest: length_prefixed.get_progress)

lemma GetLevel_progress: "GetLevel bs = Some (l, rest) \<Longrightarrow> length rest < length bs"
  by (auto simp: GetLevel_def split: option.splits if_splits dest: ldb_varint32.get_progress)

lemmas get_progress = GetInternalKey_progress GetLevel_progress length_prefixed.get_progress
  ldb_varint64.get_progress ldb_varint32.get_progress

lemma decode_edit_field_progress: "decode_edit_field tag input e = Inr (rest, e') \<Longrightarrow> length rest < length input"
  by (auto simp: decode_edit_field_def bind_eq_Some_conv split: if_splits option.splits dest!: get_progress)

function decode_edit_loop :: "slice \<Rightarrow> VersionEdit \<Rightarrow> string option \<times> VersionEdit" where
  "decode_edit_loop input e =
     (case GetVarint32 input of
        None \<Rightarrow> (if input \<noteq> [] then Some ''invalid tag'' else None, e)
      | Some (tag, input') \<Rightarrow>
          (case decode_edit_field tag input' e of
             Inl msg \<Rightarrow> (Some msg, e)
           | Inr (rest, e') \<Rightarrow> decode_edit_loop rest e'))"
  by pat_completeness auto
termination
  by (relation "measure (\<lambda>(input, e). length input)")
     (auto dest!: decode_edit_field_progress ldb_varint32.get_progress)

declare decode_edit_loop.simps [simp del]

definition VersionEdit_DecodeFrom :: "slice \<Rightarrow> VersionEdit \<Rightarrow> status \<times> VersionEdit" where
  "VersionEdit_DecodeFrom src e =
     (case decode_edit_loop src (VersionEdit_Clear e) of
        (Some msg, e) \<Rightarrow> (Corruption (str ''VersionEdit'') (str msg), e)
      | (None, e) \<Rightarrow> (Status_OK, e))"

definition VersionEdit_DebugString :: "VersionEdit \<Rightarrow> slice" where
  "VersionEdit_DebugString e =
     (let nl = \<lambda>s. 10 # str s; num = \<lambda>b s v. if b then nl s @ NumberToString v else [] in
      str ''VersionEdit {'' @
      (if has_comparator e then nl ''  Comparator: '' @ ve_comparator e else []) @
      num (has_log_number e) ''  LogNumber: '' (ve_log_number e) @
      num (has_prev_log_number e) ''  PrevLogNumber: '' (ve_prev_log_number e) @
      num (has_next_file_number e) ''  NextFile: '' (ve_next_file_number e) @
      num (has_last_sequence e) ''  LastSeq: '' (ve_last_sequence e) @
      concat (map (\<lambda>(level, k). nl ''  CompactPointer: '' @ NumberToString (of_int level) @ str '' '' @ InternalKey_DebugString k)
        (compact_pointers e)) @
      concat (map (\<lambda>(level, n). nl ''  DeleteFile: '' @ NumberToString (of_int level) @ str '' '' @ NumberToString n)
        (deleted_files e)) @
      concat (map (\<lambda>(level, f). nl ''  AddFile: '' @ NumberToString (of_int level) @ str '' '' @ NumberToString (fm_number f) @
          str '' '' @ NumberToString (fm_file_size f) @ str '' '' @ InternalKey_DebugString (fm_smallest f) @ str '' .. '' @
          InternalKey_DebugString (fm_largest f))
        (new_files e)) @
      [10] @ str ''}'' @ [10])"

section \<open>Well-formed edits\<close>

text \<open>
  \<open>edit_ok\<close> is what every edit satisfies; \<open>edit_keys\<close> is what encoding needs beyond it, that the keys are not
  empty.
\<close>

definition level_ok :: "int \<Rightarrow> bool" where
  "level_ok level \<longleftrightarrow> 0 \<le> level \<and> level < kNumLevels"

definition file_ok :: "FileMetaData \<Rightarrow> bool" where
  "file_ok f \<longleftrightarrow> fm_refs f = 0 \<and> fm_allowed_seeks f = 2 ^ 30 \<and> length (fm_smallest f) < 2 ^ 32 \<and> length (fm_largest f) < 2 ^ 32"

definition edit_ok :: "VersionEdit \<Rightarrow> bool" where
  "edit_ok e \<longleftrightarrow>
     length (ve_comparator e) < 2 ^ 32 \<and>
     (\<not> has_comparator e \<longrightarrow> ve_comparator e = []) \<and> (\<not> has_log_number e \<longrightarrow> ve_log_number e = 0) \<and>
     (\<not> has_prev_log_number e \<longrightarrow> ve_prev_log_number e = 0) \<and> (\<not> has_next_file_number e \<longrightarrow> ve_next_file_number e = 0) \<and>
     (\<not> has_last_sequence e \<longrightarrow> ve_last_sequence e = 0) \<and>
     (\<forall>(level, k)\<in>set (compact_pointers e). level_ok level \<and> length k < 2 ^ 32) \<and>
     (\<forall>(level, n)\<in>set (deleted_files e). level_ok level) \<and> sorted (deleted_files e) \<and> distinct (deleted_files e) \<and>
     (\<forall>(level, f)\<in>set (new_files e). level_ok level \<and> file_ok f)"

definition edit_keys :: "VersionEdit \<Rightarrow> bool" where
  "edit_keys e \<longleftrightarrow>
     (\<forall>(level, k)\<in>set (compact_pointers e). k \<noteq> []) \<and>
     (\<forall>(level, f)\<in>set (new_files e). fm_smallest f \<noteq> [] \<and> fm_largest f \<noteq> [])"

section \<open>Every edit is well-formed\<close>

lemma GetLengthPrefixedSlice_length: "GetLengthPrefixedSlice bs = Some (s, rest) \<Longrightarrow> length s < 2 ^ 32"
  using unat_u32 by (fastforce simp: GetLengthPrefixedSlice_def split: option.splits if_splits)

lemma GetInternalKey_length: "GetInternalKey bs = Some (k, rest) \<Longrightarrow> length k < 2 ^ 32"
  by (auto simp: GetInternalKey_def InternalKey_DecodeFrom_def split: option.splits dest: GetLengthPrefixedSlice_length)

lemma GetLevel_ok: "GetLevel bs = Some (l, rest) \<Longrightarrow> level_ok l"
  by (auto simp: GetLevel_def level_ok_def kNumLevels_def word_less_def split: option.splits if_splits)

text \<open>The updates that \<open>decode_edit_field\<close> and the setters make.\<close>

lemma edit_ok_updates:
  assumes "edit_ok e"
  shows "length s < 2 ^ 32 \<Longrightarrow> edit_ok (e\<lparr>ve_comparator := s, has_comparator := True\<rparr>)"
    and "edit_ok (e\<lparr>ve_log_number := v, has_log_number := True\<rparr>)"
    and "edit_ok (e\<lparr>ve_prev_log_number := v, has_prev_log_number := True\<rparr>)"
    and "edit_ok (e\<lparr>ve_next_file_number := v, has_next_file_number := True\<rparr>)"
    and "edit_ok (e\<lparr>ve_last_sequence := v, has_last_sequence := True\<rparr>)"
    and "level_ok l \<Longrightarrow> length k < 2 ^ 32 \<Longrightarrow> edit_ok (e\<lparr>compact_pointers := compact_pointers e @ [(l, k)]\<rparr>)"
    and "level_ok l \<Longrightarrow> edit_ok (e\<lparr>deleted_files := insort_insert (l, v) (deleted_files e)\<rparr>)"
    and "level_ok l \<Longrightarrow> length k < 2 ^ 32 \<Longrightarrow> length k' < 2 ^ 32 \<Longrightarrow>
      edit_ok (e\<lparr>new_files := new_files e @ [(l, FileMetaData_new v z k k')]\<rparr>)"
  using assms
  by (simp_all add: edit_ok_def file_ok_def FileMetaData_new_def set_insort_insert sorted_insort_insert distinct_insort_insert)

lemma decode_edit_field_ok: "decode_edit_field tag input e = Inr (rest, e') \<Longrightarrow> edit_ok e \<Longrightarrow> edit_ok e'"
  by (auto simp: decode_edit_field_def bind_eq_Some_conv split: if_split_asm option.split_asm intro!: edit_ok_updates
      dest: GetLevel_ok GetInternalKey_length GetLengthPrefixedSlice_length)

lemma decode_edit_loop_ok: "edit_ok e \<Longrightarrow> edit_ok (snd (decode_edit_loop input e))"
proof (induction input e rule: decode_edit_loop.induct)
  case (1 input e)
  show ?case
  proof (cases "GetVarint32 input")
    case None
    then show ?thesis using 1(2) by (simp add: decode_edit_loop.simps [of input])
  next
    case (Some p)
    obtain tag input' where p: "p = (tag, input')" by (cases p)
    show ?thesis
      using 1(2) decode_edit_field_ok [of tag input' e] 1(1) [OF Some p [symmetric]]
      by (cases "decode_edit_field tag input' e") (auto simp: decode_edit_loop.simps [of input] Some p)
  qed
qed

lemma setters:
  "SetComparatorName name e = e\<lparr>ve_comparator := name, has_comparator := True\<rparr>"
  "SetLogNumber n e = e\<lparr>ve_log_number := n, has_log_number := True\<rparr>"
  "SetPrevLogNumber n e = e\<lparr>ve_prev_log_number := n, has_prev_log_number := True\<rparr>"
  "SetNextFile n e = e\<lparr>ve_next_file_number := n, has_next_file_number := True\<rparr>"
  "SetLastSequence n e = e\<lparr>ve_last_sequence := n, has_last_sequence := True\<rparr>"
  by (simp_all add: SetComparatorName_def SetLogNumber_def SetPrevLogNumber_def SetNextFile_def SetLastSequence_def)

lemma Clear_ok: "edit_ok e \<Longrightarrow> edit_ok (VersionEdit_Clear e)"
  by (simp add: edit_ok_def VersionEdit_Clear_def)

text \<open>
  C39: Whatever bytes it is given, \<open>DecodeFrom\<close> leaves a well-formed edit behind, whether it succeeds or
  not: levels below \<open>kNumLevels\<close>, the deleted files in ascending order without duplicates, and the
  number fields zero where their flag is not set.  The operations that build an edit keep that too,
  for levels in range.
\<close>

theorem edit_operations_ok:
  assumes "edit_ok e"
  shows "edit_ok VersionEdit_new \<and> edit_ok (snd (VersionEdit_DecodeFrom src e)) \<and> edit_ok (VersionEdit_Clear e) \<and>
    edit_ok (SetLogNumber n e) \<and> edit_ok (SetPrevLogNumber n e) \<and> edit_ok (SetNextFile n e) \<and> edit_ok (SetLastSequence n e) \<and>
    (length name < 2 ^ 32 \<longrightarrow> edit_ok (SetComparatorName name e)) \<and>
    (level_ok level \<longrightarrow> edit_ok (edit_DeleteFile level n e)) \<and>
    (level_ok level \<and> length k < 2 ^ 32 \<longrightarrow> edit_ok (SetCompactPointer level k e)) \<and>
    (level_ok level \<and> length k < 2 ^ 32 \<and> length k' < 2 ^ 32 \<longrightarrow> edit_ok (AddFile level n sz k k' e))"
proof -
  have "edit_ok (snd (VersionEdit_DecodeFrom src e))"
    using decode_edit_loop_ok [OF Clear_ok [OF assms], of src]
    by (auto simp: VersionEdit_DecodeFrom_def split: prod.splits option.splits)
  moreover have "edit_ok VersionEdit_new" by (simp add: edit_ok_def VersionEdit_new_def)
  ultimately show ?thesis
    using edit_ok_updates [OF assms] Clear_ok [OF assms]
    by (simp add: setters edit_DeleteFile_def SetCompactPointer_def AddFile_def)
qed

text \<open>A truncated record after a good one: the edit keeps what was decoded.\<close>

theorem edit_operations_ok_witness:
  "edit_ok (snd (VersionEdit_DecodeFrom [2, 9, 6, 1, 5, 6, 7] VersionEdit_new)) \<and>
   VersionEdit_DecodeFrom [2, 9, 6, 1, 5, 6, 7] VersionEdit_new =
     (Corruption (str ''VersionEdit'') (str ''deleted file''),
      VersionEdit_new\<lparr>ve_log_number := 9, has_log_number := True, deleted_files := [(1, 5)]\<rparr>)"
proof -
  have "edit_ok VersionEdit_new" by (simp add: edit_ok_def VersionEdit_new_def)
  from edit_operations_ok [OF this, of "[2, 9, 6, 1, 5, 6, 7]"]
  have "edit_ok (snd (VersionEdit_DecodeFrom [2, 9, 6, 1, 5, 6, 7] VersionEdit_new))" by blast
  moreover have "VersionEdit_DecodeFrom [2, 9, 6, 1, 5, 6, 7] VersionEdit_new =
     (Corruption (str ''VersionEdit'') (str ''deleted file''),
      VersionEdit_new\<lparr>ve_log_number := 9, has_log_number := True, deleted_files := [(1, 5)]\<rparr>)" by code_simp
  ultimately show ?thesis by blast
qed

section \<open>The round trip\<close>

text \<open>\<open>decodes bs f\<close>: the bytes \<open>bs\<close>, whatever follows, take the loop from the edit \<open>e\<close> to the edit \<open>f e\<close>.\<close>

definition decodes :: "slice \<Rightarrow> (VersionEdit \<Rightarrow> VersionEdit) \<Rightarrow> bool" where
  "decodes bs f \<longleftrightarrow> (\<forall>rest e. decode_edit_loop (bs @ rest) e = decode_edit_loop rest (f e))"

lemma decodes_Nil [simp]: "decodes [] (\<lambda>e. e)"
  by (simp add: decodes_def)

lemma decodes_append: "decodes bs f \<Longrightarrow> decodes cs g \<Longrightarrow> decodes (bs @ cs) (\<lambda>e. g (f e))"
  by (simp add: decodes_def)

lemma decodes_if: "(b \<Longrightarrow> decodes bs f) \<Longrightarrow> decodes (if b then bs else []) (\<lambda>e. if b then f e else e)"
  by (simp add: decodes_def)

lemma decodes_field:
  assumes "\<And>rest e. decode_edit_field tag (bs @ rest) e = Inr (rest, f e)"
  shows "decodes (PutVarint32 tag [] @ bs) f"
  using ldb_varint32.get_put [of tag] by (simp add: decodes_def decode_edit_loop.simps [of "_ @ _"] assms)

lemma GetLevel_put: "level_ok l \<Longrightarrow> GetLevel (PutVarint32 (of_int l) [] @ rest) = Some (l, rest)"
proof -
  assume l: "level_ok l"
  have "unat (of_int l :: u32) = nat l"
    using l by (simp add: level_ok_def kNumLevels_def unat_eq_nat_uint uint_word_of_int take_bit_int_eq_self)
  then show ?thesis
    using l ldb_varint32.get_put [of "of_int l :: u32" rest]
    by (auto simp: GetLevel_def level_ok_def kNumLevels_def word_less_nat_alt)
qed

lemma GetInternalKey_put: "length k < 2 ^ 32 \<Longrightarrow> GetInternalKey (PutLengthPrefixedSlice k [] @ rest) = Some (k, rest)"
  by (simp add: GetInternalKey_def length_prefixed.get_put InternalKey_DecodeFrom_def)

lemmas put_get = GetLevel_put GetInternalKey_put length_prefixed.get_put ldb_varint64.get_put

lemma put_key_append: "put_key k dst = (if k = [] then None else Some (dst @ PutLengthPrefixedSlice k []))"
  by (simp add: put_key_def InternalKey_Encode_def length_prefixed.put_append [of k dst])

lemma PutVarint_append: "PutVarint32 v dst = dst @ PutVarint32 v []" "PutVarint64 w dst = dst @ PutVarint64 w []"
  "PutLengthPrefixedSlice s dst = dst @ PutLengthPrefixedSlice s []"
  by (rule ldb_varint32.put_append ldb_varint64.put_append length_prefixed.put_append)+

text \<open>The records, one by one.\<close>

lemma decodes_scalar:
  "length s < 2 ^ 32 \<Longrightarrow>
     decodes (PutVarint32 kComparator [] @ PutLengthPrefixedSlice s []) (\<lambda>e. e\<lparr>ve_comparator := s, has_comparator := True\<rparr>)"
  "decodes (PutVarint32 kLogNumber [] @ PutVarint64 v []) (\<lambda>e. e\<lparr>ve_log_number := v, has_log_number := True\<rparr>)"
  "decodes (PutVarint32 kPrevLogNumber [] @ PutVarint64 v []) (\<lambda>e. e\<lparr>ve_prev_log_number := v, has_prev_log_number := True\<rparr>)"
  "decodes (PutVarint32 kNextFileNumber [] @ PutVarint64 v []) (\<lambda>e. e\<lparr>ve_next_file_number := v, has_next_file_number := True\<rparr>)"
  "decodes (PutVarint32 kLastSequence [] @ PutVarint64 v []) (\<lambda>e. e\<lparr>ve_last_sequence := v, has_last_sequence := True\<rparr>)"
  by (rule decodes_field, simp add: decode_edit_field_def put_get tag_defs)+

lemma decodes_pointer:
  "level_ok l \<Longrightarrow> length k < 2 ^ 32 \<Longrightarrow>
   decodes (PutVarint32 kCompactPointer [] @ PutVarint32 (of_int l) [] @ PutLengthPrefixedSlice k [])
     (\<lambda>e. e\<lparr>compact_pointers := compact_pointers e @ [(l, k)]\<rparr>)"
  by (rule decodes_field) (simp add: decode_edit_field_def put_get tag_defs)

lemma decodes_deleted:
  "level_ok l \<Longrightarrow>
   decodes (PutVarint32 kDeletedFile [] @ PutVarint32 (of_int l) [] @ PutVarint64 n [])
     (\<lambda>e. e\<lparr>deleted_files := insort_insert (l, n) (deleted_files e)\<rparr>)"
  by (rule decodes_field) (simp add: decode_edit_field_def put_get tag_defs)

lemma decodes_new:
  "level_ok l \<Longrightarrow> length k < 2 ^ 32 \<Longrightarrow> length k' < 2 ^ 32 \<Longrightarrow>
   decodes (PutVarint32 kNewFile [] @ PutVarint32 (of_int l) [] @ PutVarint64 n [] @ PutVarint64 z [] @
      PutLengthPrefixedSlice k [] @ PutLengthPrefixedSlice k' [])
     (\<lambda>e. e\<lparr>new_files := new_files e @ [(l, FileMetaData_new n z k k')]\<rparr>)"
  by (rule decodes_field) (simp add: decode_edit_field_def put_get tag_defs)

text \<open>The three lists.\<close>

lemma put_compact_pointers_decodes:
  "\<forall>(l, k)\<in>set ps. level_ok l \<and> length k < 2 ^ 32 \<and> k \<noteq> [] \<Longrightarrow>
   \<exists>bs. (\<forall>dst. put_compact_pointers ps dst = Some (dst @ bs)) \<and>
        decodes bs (\<lambda>e. e\<lparr>compact_pointers := compact_pointers e @ ps\<rparr>)"
proof (induction ps)
  case Nil
  show ?case by (rule exI [of _ "[]"]) (simp add: decodes_def)
next
  case (Cons p ps)
  obtain l k where p: "p = (l, k)" by (cases p)
  obtain bs where bs: "\<forall>dst. put_compact_pointers ps dst = Some (dst @ bs)"
    "decodes bs (\<lambda>e. e\<lparr>compact_pointers := compact_pointers e @ ps\<rparr>)" using Cons by auto
  let ?b = "PutVarint32 kCompactPointer [] @ PutVarint32 (of_int l) [] @ PutLengthPrefixedSlice k []"
  have "decodes (?b @ bs) (\<lambda>e. e\<lparr>compact_pointers := compact_pointers e @ p # ps\<rparr>)"
    using decodes_append [OF decodes_pointer bs(2), of l k] Cons.prems p by simp
  moreover have "put_compact_pointers (p # ps) dst = Some (dst @ ?b @ bs)" for dst
    using Cons.prems p bs(1) PutVarint_append(1) [of _ "_ @ _"] PutVarint_append(1) [of _ dst]
    by (simp add: put_key_append)
  ultimately show ?case by blast
qed

lemma insort_insert_snoc: "\<forall>y\<in>set xs. y < x \<Longrightarrow> insort_insert x xs = xs @ [x]"
  by (induction xs) (auto simp: insort_insert_key_def)

lemma fold_insort_insert: "sorted (xs @ ds) \<Longrightarrow> distinct (xs @ ds) \<Longrightarrow> fold insort_insert ds xs = xs @ ds"
proof (induction ds arbitrary: xs)
  case (Cons d ds)
  have "insort_insert d xs = xs @ [d]"
    using Cons.prems by (intro insort_insert_snoc) (auto simp: sorted_append order.strict_iff_order)
  with Cons show ?case by simp
qed simp

lemma put_deleted_files_decodes:
  "\<forall>(l, n)\<in>set ds. level_ok l \<Longrightarrow>
   \<exists>bs. (\<forall>dst. put_deleted_files ds dst = dst @ bs) \<and>
        decodes bs (\<lambda>e. e\<lparr>deleted_files := fold insort_insert ds (deleted_files e)\<rparr>)"
proof (induction ds)
  case Nil
  show ?case by (rule exI [of _ "[]"]) (simp add: decodes_def)
next
  case (Cons d ds)
  obtain l n where d: "d = (l, n)" by (cases d)
  obtain bs where bs: "\<forall>dst. put_deleted_files ds dst = dst @ bs"
    "decodes bs (\<lambda>e. e\<lparr>deleted_files := fold insort_insert ds (deleted_files e)\<rparr>)" using Cons by auto
  let ?b = "PutVarint32 kDeletedFile [] @ PutVarint32 (of_int l) [] @ PutVarint64 n []"
  have "decodes (?b @ bs) (\<lambda>e. e\<lparr>deleted_files := fold insort_insert (d # ds) (deleted_files e)\<rparr>)"
    using decodes_append [OF decodes_deleted bs(2), of l n] Cons.prems d by simp
  moreover have "put_deleted_files (d # ds) dst = dst @ ?b @ bs" for dst
    using d bs(1) by simp (metis append.assoc PutVarint_append(1,2))
  ultimately show ?case by blast
qed

lemma file_ok_new: "file_ok f \<Longrightarrow> FileMetaData_new (fm_number f) (fm_file_size f) (fm_smallest f) (fm_largest f) = f"
  by (simp add: file_ok_def FileMetaData_new_def)

lemma put_new_files_decodes:
  "\<forall>(l, f)\<in>set ns. level_ok l \<and> file_ok f \<and> fm_smallest f \<noteq> [] \<and> fm_largest f \<noteq> [] \<Longrightarrow>
   \<exists>bs. (\<forall>dst. put_new_files ns dst = Some (dst @ bs)) \<and> decodes bs (\<lambda>e. e\<lparr>new_files := new_files e @ ns\<rparr>)"
proof (induction ns)
  case Nil
  show ?case by (rule exI [of _ "[]"]) (simp add: decodes_def)
next
  case (Cons n ns)
  obtain l f where n: "n = (l, f)" by (cases n)
  have f: "level_ok l" "file_ok f" "fm_smallest f \<noteq> []" "fm_largest f \<noteq> []"
    "length (fm_smallest f) < 2 ^ 32" "length (fm_largest f) < 2 ^ 32" using Cons.prems n by (auto simp: file_ok_def)
  obtain bs where bs: "\<forall>dst. put_new_files ns dst = Some (dst @ bs)" "decodes bs (\<lambda>e. e\<lparr>new_files := new_files e @ ns\<rparr>)"
    using Cons by auto
  let ?b = "PutVarint32 kNewFile [] @ PutVarint32 (of_int l) [] @ PutVarint64 (fm_number f) [] @ PutVarint64 (fm_file_size f) [] @
      PutLengthPrefixedSlice (fm_smallest f) [] @ PutLengthPrefixedSlice (fm_largest f) []"
  have "decodes (?b @ bs) (\<lambda>e. e\<lparr>new_files := new_files e @ n # ns\<rparr>)"
    using decodes_append [OF decodes_new [OF f(1,5,6), of "fm_number f" "fm_file_size f"] bs(2)] n
    by (simp add: file_ok_new [OF f(2)])
  moreover have "put_new_files (n # ns) dst = Some (dst @ ?b @ bs)" for dst
    unfolding put_new_files.simps put_key_append PutVarint_append(1) [of _ "_ @ _"] PutVarint_append(2) [of _ "_ @ _"]
    using n bs(1) f(3,4) by (simp add: Let_def) (metis append.assoc PutVarint_append(1,2))
  ultimately show ?case by blast
qed

text \<open>The fields before the lists.\<close>

definition put_scalars :: "VersionEdit \<Rightarrow> slice" where
  "put_scalars e =
     (if has_comparator e then PutVarint32 kComparator [] @ PutLengthPrefixedSlice (ve_comparator e) [] else []) @
     (if has_log_number e then PutVarint32 kLogNumber [] @ PutVarint64 (ve_log_number e) [] else []) @
     (if has_prev_log_number e then PutVarint32 kPrevLogNumber [] @ PutVarint64 (ve_prev_log_number e) [] else []) @
     (if has_next_file_number e then PutVarint32 kNextFileNumber [] @ PutVarint64 (ve_next_file_number e) [] else []) @
     (if has_last_sequence e then PutVarint32 kLastSequence [] @ PutVarint64 (ve_last_sequence e) [] else [])"

lemma EncodeTo_eq:
  "VersionEdit_EncodeTo e dst =
     (case put_compact_pointers (compact_pointers e) (dst @ put_scalars e) of
        None \<Rightarrow> None
      | Some dst \<Rightarrow> put_new_files (new_files e) (put_deleted_files (deleted_files e) dst))"
proof -
  have P: "PutLengthPrefixedSlice s (PutVarint32 t d) = d @ PutVarint32 t [] @ PutLengthPrefixedSlice s []"
    "PutVarint64 v (PutVarint32 t d) = d @ PutVarint32 t [] @ PutVarint64 v []" for s t v d
    by (metis append.assoc PutVarint_append)+
  have if_app: "(if b then d @ x else d) = d @ (if b then x else [])" for b and d x :: slice by simp
  show ?thesis unfolding VersionEdit_EncodeTo_def Let_def P if_app put_scalars_def append.assoc ..
qed

lemma put_scalars_decodes:
  "edit_ok e \<Longrightarrow> decodes (put_scalars e)
     (\<lambda>e'. let e' = (if has_comparator e then e'\<lparr>ve_comparator := ve_comparator e, has_comparator := True\<rparr> else e');
              e' = (if has_log_number e then e'\<lparr>ve_log_number := ve_log_number e, has_log_number := True\<rparr> else e');
              e' = (if has_prev_log_number e then e'\<lparr>ve_prev_log_number := ve_prev_log_number e, has_prev_log_number := True\<rparr> else e');
              e' = (if has_next_file_number e then e'\<lparr>ve_next_file_number := ve_next_file_number e, has_next_file_number := True\<rparr> else e')
          in if has_last_sequence e then e'\<lparr>ve_last_sequence := ve_last_sequence e, has_last_sequence := True\<rparr> else e')"
  unfolding put_scalars_def Let_def
  by (intro decodes_append decodes_if decodes_scalar) (simp add: edit_ok_def)

text \<open>
  C38: An edit written by \<open>EncodeTo\<close> is read back by \<open>DecodeFrom\<close>.  The compaction pointers that the
  edit had before are kept in front of the new ones: \<open>Clear\<close> does not remove them.
\<close>

theorem version_edit_round_trip:
  assumes ok: "edit_ok e" and keys: "edit_keys e"
  shows "\<exists>bs. VersionEdit_EncodeTo e dst = Some (dst @ bs) \<and>
    VersionEdit_DecodeFrom bs e0 = (Status_OK, e\<lparr>compact_pointers := compact_pointers e0 @ compact_pointers e\<rparr>)"
proof -
  obtain c where c: "\<And>dst. put_compact_pointers (compact_pointers e) dst = Some (dst @ c)"
    "decodes c (\<lambda>e'. e'\<lparr>compact_pointers := compact_pointers e' @ compact_pointers e\<rparr>)"
    using put_compact_pointers_decodes [of "compact_pointers e"] ok keys by (fastforce simp: edit_ok_def edit_keys_def)
  obtain d where d: "\<And>dst. put_deleted_files (deleted_files e) dst = dst @ d"
    "decodes d (\<lambda>e'. e'\<lparr>deleted_files := fold insort_insert (deleted_files e) (deleted_files e')\<rparr>)"
    using put_deleted_files_decodes [of "deleted_files e"] ok by (auto simp: edit_ok_def)
  obtain n where n: "\<And>dst. put_new_files (new_files e) dst = Some (dst @ n)"
    "decodes n (\<lambda>e'. e'\<lparr>new_files := new_files e' @ new_files e\<rparr>)"
    using put_new_files_decodes [of "new_files e"] ok keys by (fastforce simp: edit_ok_def edit_keys_def)
  let ?bs = "put_scalars e @ c @ d @ n"
  have enc: "VersionEdit_EncodeTo e dst = Some (dst @ ?bs)" by (simp add: EncodeTo_eq c d n)
  have f: "fold insort_insert (deleted_files e) [] = deleted_files e"
    using ok fold_insort_insert [of "[]" "deleted_files e"] by (simp add: edit_ok_def)
  have "decode_edit_loop (?bs @ []) (VersionEdit_Clear e0) =
      decode_edit_loop [] (e\<lparr>compact_pointers := compact_pointers e0 @ compact_pointers e\<rparr>)"
    using decodes_append [OF put_scalars_decodes [OF ok] decodes_append [OF c(2) decodes_append [OF d(2) n(2)]]] ok f
    by (simp only: decodes_def) (rule arg_cong [where f = "decode_edit_loop []"], auto simp: VersionEdit_Clear_def edit_ok_def Let_def)
  moreover have "decode_edit_loop [] e' = (None, e')" for e'
    by (auto simp: decode_edit_loop.simps [of "[]"] split: option.split dest!: ldb_varint32.get_progress)
  ultimately have "VersionEdit_DecodeFrom ?bs e0 = (Status_OK, e\<lparr>compact_pointers := compact_pointers e0 @ compact_pointers e\<rparr>)"
    by (simp add: VersionEdit_DecodeFrom_def)
  with enc show ?thesis by blast
qed

text \<open>An edit with one field of each kind, decoded into an edit that has a compaction pointer already.\<close>

theorem version_edit_round_trip_witness:
  "\<exists>bs. VersionEdit_EncodeTo (AddFile 2 8 100 [97] [98] (edit_DeleteFile 1 5 (SetCompactPointer 3 [99] (SetLogNumber 9 VersionEdit_new)))) [] = Some bs \<and>
     compact_pointers (snd (VersionEdit_DecodeFrom bs (SetCompactPointer 0 [100] VersionEdit_new))) = [(0, [100]), (3, [99])]"
proof -
  let ?e = "AddFile 2 8 100 [97] [98] (edit_DeleteFile 1 5 (SetCompactPointer 3 [99] (SetLogNumber 9 VersionEdit_new)))"
  have "edit_ok ?e" "edit_keys ?e"
    by (simp_all add: edit_ok_def edit_keys_def file_ok_def level_ok_def kNumLevels_def AddFile_def edit_DeleteFile_def
        SetCompactPointer_def SetLogNumber_def VersionEdit_new_def FileMetaData_new_def insort_insert_key_def)
  from version_edit_round_trip [OF this, of "[]" "SetCompactPointer 0 [100] VersionEdit_new"]
  show ?thesis by (auto simp: SetCompactPointer_def AddFile_def edit_DeleteFile_def SetLogNumber_def VersionEdit_new_def)
qed

text \<open>
  An edit that adds a file with empty keys: \<open>DecodeFrom\<close> accepts it, the assertion of \<open>Encode\<close> fails when it is
  written again.
\<close>

lemma empty_key_accepted:
  "fst (VersionEdit_DecodeFrom [7, 0, 5, 9, 0, 0] VersionEdit_new) = Status_OK \<and>
   VersionEdit_EncodeTo (snd (VersionEdit_DecodeFrom [7, 0, 5, 9, 0, 0] VersionEdit_new)) [] = None"
  by code_simp

end
