(* ===== verification/LdbMerger.thy ===== *)
theory LdbMerger
  imports LdbTwoLevel LdbBlockSpec
begin

text \<open>
  The merging iterator (\<open>table/merger.cc\<close>): several iterators over sorted entries, presented as one.

  The children are iterators of the interface \<open>iterator\<close> over a common state type (the record of
  operations dispatches).  The locale \<open>merging\<close> shows that the merging iterator keeps the same
  interface over the merge of the entries, with changes of direction in the middle, provided no
  key occurs in two children.
\<close>

section \<open>The iterator\<close>

datatype Direction = kForward | kReverse

record 'i MergingIterator =
  mi_children :: "'i IteratorWrapper list"
  mi_current :: "nat option"
  mi_direction :: Direction

text \<open>The loops over the children; a failed assertion in one of them is \<open>None\<close>.\<close>

primrec each_child :: "(nat \<Rightarrow> 'i IteratorWrapper \<Rightarrow> 'i IteratorWrapper option) \<Rightarrow> nat \<Rightarrow> 'i IteratorWrapper list \<Rightarrow> 'i IteratorWrapper list option" where
  "each_child f i [] = Some []"
| "each_child f i (w # ws) = Option.bind (f i w) (\<lambda>w. map_option ((#) w) (each_child f (Suc i) ws))"

text \<open>The loop of \<open>FindSmallest\<close> and \<open>FindLargest\<close>: the first child that no other one beats.\<close>

primrec pick :: "(slice \<Rightarrow> slice \<Rightarrow> bool) \<Rightarrow> (nat \<times> 'i IteratorWrapper) list \<Rightarrow> (nat \<times> slice) option \<Rightarrow> (nat \<times> slice) option" where
  "pick better [] best = best"
| "pick better (c # cs) best =
     pick better cs
       (if iw_valid (snd c)
        then (case best of
                None \<Rightarrow> Some (fst c, iw_key (snd c))
              | Some (_, k) \<Rightarrow> if better (iw_key (snd c)) k then Some (fst c, iw_key (snd c)) else best)
        else best)"

definition FindSmallest :: "(slice \<Rightarrow> slice \<Rightarrow> int) \<Rightarrow> 'i MergingIterator \<Rightarrow> 'i MergingIterator" where
  "FindSmallest cmp m =
     m\<lparr>mi_current := map_option fst (pick (\<lambda>a b. cmp a b < 0) (enumerate 0 (mi_children m)) None)\<rparr>"

definition FindLargest :: "(slice \<Rightarrow> slice \<Rightarrow> int) \<Rightarrow> 'i MergingIterator \<Rightarrow> 'i MergingIterator" where
  "FindLargest cmp m =
     m\<lparr>mi_current := map_option fst (pick (\<lambda>a b. cmp a b > 0) (rev (enumerate 0 (mi_children m))) None)\<rparr>"

definition MergingIterator_new :: "'i Iterator \<Rightarrow> 'i list \<Rightarrow> 'i MergingIterator option" where
  "MergingIterator_new ops its =
     map_option (\<lambda>ws. \<lparr>mi_children = ws, mi_current = None, mi_direction = kForward\<rparr>)
       (each_child (\<lambda>i w. Wrapper_Set ops (Some (its ! i)) w) 0
          (replicate (length its) \<lparr>iw_iter = None, iw_valid = False, iw_key = []\<rparr>))"

definition Merging_key :: "'i MergingIterator \<Rightarrow> slice option" where
  "Merging_key m = (case mi_current m of None \<Rightarrow> None | Some c \<Rightarrow> Wrapper_key (mi_children m ! c))"

definition Merging_value :: "'i Iterator \<Rightarrow> 'i MergingIterator \<Rightarrow> slice option" where
  "Merging_value ops m = (case mi_current m of None \<Rightarrow> None | Some c \<Rightarrow> Wrapper_value ops (mi_children m ! c))"

primrec Merging_status :: "'i Iterator \<Rightarrow> 'i IteratorWrapper list \<Rightarrow> status \<Rightarrow> status" where
  "Merging_status ops [] s = s"
| "Merging_status ops (w # ws) s =
     (case Wrapper_status ops w of
        None \<Rightarrow> Merging_status ops ws s
      | Some s \<Rightarrow> if \<not> Status_ok s then s else Merging_status ops ws s)"

definition Merging_SeekToFirst :: "'i Iterator \<Rightarrow> (slice \<Rightarrow> slice \<Rightarrow> int) \<Rightarrow> 'i MergingIterator \<Rightarrow> 'i MergingIterator option" where
  "Merging_SeekToFirst ops cmp m =
     map_option (\<lambda>ws. (FindSmallest cmp (m\<lparr>mi_children := ws\<rparr>))\<lparr>mi_direction := kForward\<rparr>)
       (each_child (\<lambda>_. Wrapper_move ops (it_SeekToFirst ops)) 0 (mi_children m))"

definition Merging_SeekToLast :: "'i Iterator \<Rightarrow> (slice \<Rightarrow> slice \<Rightarrow> int) \<Rightarrow> 'i MergingIterator \<Rightarrow> 'i MergingIterator option" where
  "Merging_SeekToLast ops cmp m =
     map_option (\<lambda>ws. (FindLargest cmp (m\<lparr>mi_children := ws\<rparr>))\<lparr>mi_direction := kReverse\<rparr>)
       (each_child (\<lambda>_. Wrapper_move ops (it_SeekToLast ops)) 0 (mi_children m))"

definition Merging_Seek :: "'i Iterator \<Rightarrow> (slice \<Rightarrow> slice \<Rightarrow> int) \<Rightarrow> slice \<Rightarrow> 'i MergingIterator \<Rightarrow> 'i MergingIterator option" where
  "Merging_Seek ops cmp target m =
     map_option (\<lambda>ws. (FindSmallest cmp (m\<lparr>mi_children := ws\<rparr>))\<lparr>mi_direction := kForward\<rparr>)
       (each_child (\<lambda>_. Wrapper_move ops (it_Seek ops target)) 0 (mi_children m))"

text \<open>The bodies of the loops that turn the other children around, in \<open>Next\<close> and in \<open>Prev\<close>.\<close>

definition turn_forward :: "'i Iterator \<Rightarrow> (slice \<Rightarrow> slice \<Rightarrow> int) \<Rightarrow> nat \<Rightarrow> slice \<Rightarrow> nat \<Rightarrow> 'i IteratorWrapper \<Rightarrow> 'i IteratorWrapper option" where
  "turn_forward ops cmp c key i w =
     (if i = c then Some w
      else Option.bind (Wrapper_move ops (it_Seek ops key) w) (\<lambda>w.
        if iw_valid w \<and> cmp key (iw_key w) = 0 then Wrapper_move ops (it_Next ops) w else Some w))"

definition turn_backward :: "'i Iterator \<Rightarrow> nat \<Rightarrow> slice \<Rightarrow> nat \<Rightarrow> 'i IteratorWrapper \<Rightarrow> 'i IteratorWrapper option" where
  "turn_backward ops c key i w =
     (if i = c then Some w
      else Option.bind (Wrapper_move ops (it_Seek ops key) w) (\<lambda>w.
        if iw_valid w then Wrapper_move ops (it_Prev ops) w else Wrapper_move ops (it_SeekToLast ops) w))"

definition move_current :: "'i Iterator \<Rightarrow> ('i \<Rightarrow> 'i option) \<Rightarrow> nat \<Rightarrow> 'i IteratorWrapper list \<Rightarrow> 'i IteratorWrapper list option" where
  "move_current ops f c ws = map_option (\<lambda>w. ws[c := w]) (Wrapper_move ops f (ws ! c))"

definition Merging_Next :: "'i Iterator \<Rightarrow> (slice \<Rightarrow> slice \<Rightarrow> int) \<Rightarrow> 'i MergingIterator \<Rightarrow> 'i MergingIterator option" where
  "Merging_Next ops cmp m =
     (case mi_current m of
        None \<Rightarrow> None
      | Some c \<Rightarrow>
          Option.bind (Merging_key m) (\<lambda>key.
          Option.bind (if mi_direction m \<noteq> kForward then each_child (turn_forward ops cmp c key) 0 (mi_children m)
                       else Some (mi_children m)) (\<lambda>ws.
          map_option (\<lambda>ws. FindSmallest cmp (m\<lparr>mi_children := ws, mi_direction := kForward\<rparr>))
            (move_current ops (it_Next ops) c ws))))"

definition Merging_Prev :: "'i Iterator \<Rightarrow> (slice \<Rightarrow> slice \<Rightarrow> int) \<Rightarrow> 'i MergingIterator \<Rightarrow> 'i MergingIterator option" where
  "Merging_Prev ops cmp m =
     (case mi_current m of
        None \<Rightarrow> None
      | Some c \<Rightarrow>
          Option.bind (Merging_key m) (\<lambda>key.
          Option.bind (if mi_direction m \<noteq> kReverse then each_child (turn_backward ops c key) 0 (mi_children m)
                       else Some (mi_children m)) (\<lambda>ws.
          map_option (\<lambda>ws. FindLargest cmp (m\<lparr>mi_children := ws, mi_direction := kReverse\<rparr>))
            (move_current ops (it_Prev ops) c ws))))"

definition merging_ops :: "'i Iterator \<Rightarrow> (slice \<Rightarrow> slice \<Rightarrow> int) \<Rightarrow> 'i MergingIterator Iterator" where
  "merging_ops ops cmp =
     \<lparr>it_Valid = (\<lambda>m. mi_current m \<noteq> None), it_key = Merging_key, it_value = Merging_value ops,
      it_status = (\<lambda>m. Merging_status ops (mi_children m) Status_OK),
      it_SeekToFirst = Merging_SeekToFirst ops cmp, it_SeekToLast = Merging_SeekToLast ops cmp,
      it_Seek = Merging_Seek ops cmp, it_Next = Merging_Next ops cmp, it_Prev = Merging_Prev ops cmp\<rparr>"

text \<open>\<open>NewMergingIterator\<close> returns an empty iterator, the only child, or a merging iterator.\<close>

datatype 'i Merged = MergedNone | MergedOne 'i | MergedMany "'i MergingIterator"

definition NewMergingIterator :: "'i Iterator \<Rightarrow> 'i list \<Rightarrow> 'i Merged option" where
  "NewMergingIterator ops its =
     (case its of [] \<Rightarrow> Some MergedNone | [it] \<Rightarrow> Some (MergedOne it) | _ \<Rightarrow> map_option MergedMany (MergingIterator_new ops its))"

definition merged_move :: "('i \<Rightarrow> 'i option) \<Rightarrow> ('i MergingIterator \<Rightarrow> 'i MergingIterator option) \<Rightarrow> 'i Merged option \<Rightarrow> 'i Merged \<Rightarrow> 'i Merged option" where
  "merged_move f g e m =
     (case m of MergedNone \<Rightarrow> e | MergedOne it \<Rightarrow> map_option MergedOne (f it) | MergedMany mi \<Rightarrow> map_option MergedMany (g mi))"

definition merged_read :: "('i \<Rightarrow> 'a) \<Rightarrow> ('i MergingIterator \<Rightarrow> 'a) \<Rightarrow> 'a \<Rightarrow> 'i Merged \<Rightarrow> 'a" where
  "merged_read f g e m = (case m of MergedNone \<Rightarrow> e | MergedOne it \<Rightarrow> f it | MergedMany mi \<Rightarrow> g mi)"

definition merged_ops :: "'i Iterator \<Rightarrow> (slice \<Rightarrow> slice \<Rightarrow> int) \<Rightarrow> 'i Merged Iterator" where
  "merged_ops ops cmp =
     (let mops = merging_ops ops cmp in
      \<lparr>it_Valid = merged_read (it_Valid ops) (it_Valid mops) False,
       it_key = merged_read (it_key ops) (it_key mops) None, it_value = merged_read (it_value ops) (it_value mops) None,
       it_status = merged_read (it_status ops) (it_status mops) Status_OK,
       it_SeekToFirst = merged_move (it_SeekToFirst ops) (it_SeekToFirst mops) (Some MergedNone),
       it_SeekToLast = merged_move (it_SeekToLast ops) (it_SeekToLast mops) (Some MergedNone),
       it_Seek = (\<lambda>t. merged_move (it_Seek ops t) (it_Seek mops t) (Some MergedNone)),
       it_Next = merged_move (it_Next ops) (it_Next mops) None, it_Prev = merged_move (it_Prev ops) (it_Prev mops) None\<rparr>)"

section \<open>Merged lists\<close>

text \<open>
  A merge is the merged list \<open>es\<close> and, for each entry, the child \<open>own\<close> it comes from.  \<open>sub\<close> are the
  entries of a child, \<open>cut\<close> is how many of them are among the first \<open>j\<close> entries of the merge.
\<close>

definition sub :: "nat list \<Rightarrow> 'a list \<Rightarrow> nat \<Rightarrow> 'a list" where
  "sub own es i = map snd (filter (\<lambda>oe. fst oe = i) (zip own es))"

definition cut :: "nat list \<Rightarrow> nat \<Rightarrow> nat \<Rightarrow> nat" where
  "cut own i j = length (filter (\<lambda>x. x = i) (take j own))"

definition merges :: "(slice \<Rightarrow> slice \<Rightarrow> int) \<Rightarrow> (slice \<Rightarrow> bool) \<Rightarrow> nat list \<Rightarrow> kv list \<Rightarrow> nat \<Rightarrow> bool" where
  "merges cmp good own es n \<longleftrightarrow>
     length own = length es \<and> (\<forall>c\<in>set own. c < n) \<and> (\<forall>e\<in>set es. good (fst e)) \<and>
     sorted_wrt (\<lambda>a b. cmp (fst a) (fst b) < 0) es"

lemma cut_0 [simp]: "cut own i 0 = 0"
  by (simp add: cut_def)

lemma cut_Suc: "j < length own \<Longrightarrow> cut own i (Suc j) = cut own i j + (if own ! j = i then 1 else 0)"
  by (simp add: cut_def take_Suc_conv_app_nth)

lemma cut_Cons: "cut (c # own) i (Suc j) = (if c = i then 1 else 0) + cut own i j"
  by (simp add: cut_def)

lemma sub_Cons: "sub (c # own) (e # es) i = (if c = i then [e] else []) @ sub own es i"
  by (simp add: sub_def)

lemma cut_mono: "j \<le> k \<Longrightarrow> cut own i j \<le> cut own i k"
proof -
  assume "j \<le> k"
  then have "take k own = take j own @ take (k - j) (drop j own)" by (metis le_add_diff_inverse take_add)
  then show ?thesis by (simp add: cut_def)
qed

lemma cut_all: "length own = length es \<Longrightarrow> cut own i (length es) = length (sub own es i)"
proof (induction own es rule: list_induct2)
  case Nil
  show ?case by (simp add: sub_def)
next
  case (Cons c own e es)
  then show ?case by (simp add: cut_Cons sub_Cons)
qed

lemma sub_nth:
  "length own = length es \<Longrightarrow> j < length es \<Longrightarrow> own ! j = i \<Longrightarrow> cut own i j < length (sub own es i) \<and> sub own es i ! cut own i j = es ! j"
proof (induction own es arbitrary: j rule: list_induct2)
  case (Cons c own e es)
  then show ?case by (cases j) (auto simp: cut_Cons sub_Cons)
qed simp

lemma sub_index:
  "length own = length es \<Longrightarrow> p < length (sub own es i) \<Longrightarrow> \<exists>g<length es. own ! g = i \<and> cut own i g = p"
proof (induction own es arbitrary: p rule: list_induct2)
  case Nil
  then show ?case by (simp add: sub_def)
next
  case (Cons c own e es)
  show ?case
  proof (cases "c = i \<and> p = 0")
    case True
    then show ?thesis by (intro exI [of _ 0]) simp
  next
    case False
    then have "p - (if c = i then 1 else 0) < length (sub own es i)" using Cons.prems by (auto simp: sub_Cons split: if_splits)
    then obtain g where "g < length es" "own ! g = i" "cut own i g = p - (if c = i then 1 else 0)" using Cons.IH by blast
    then show ?thesis using False by (intro exI [of _ "Suc g"]) (auto simp: cut_Cons)
  qed
qed

lemma sub_from:
  assumes "length own = length es" and "cut own i j < length (sub own es i)"
  shows "\<exists>g. j \<le> g \<and> g < length es \<and> own ! g = i \<and> sub own es i ! cut own i j = es ! g"
proof -
  obtain g where g: "g < length es" "own ! g = i" "cut own i g = cut own i j" using sub_index [OF assms] by blast
  have "j \<le> g"
  proof (rule ccontr)
    assume "\<not> j \<le> g"
    then have "cut own i (Suc g) \<le> cut own i j" by (intro cut_mono) simp
    then show False using g assms(1) by (simp add: cut_Suc)
  qed
  then show ?thesis using g sub_nth [OF assms(1) g(1,2)] by auto
qed

lemma sub_before:
  assumes "length own = length es" and "p < cut own i j" and "j \<le> length es"
  shows "\<exists>g<j. own ! g = i \<and> cut own i g = p \<and> p < length (sub own es i) \<and> sub own es i ! p = es ! g"
proof -
  have "p < length (sub own es i)" using assms cut_mono [of j "length es" own i] cut_all [OF assms(1), of i] by simp
  then obtain g where g: "g < length es" "own ! g = i" "cut own i g = p" using sub_index [OF assms(1)] by blast
  then have "g < j" using cut_mono [of j g own i] assms(2) by (meson leI not_le)
  then show ?thesis using g sub_nth [OF assms(1) g(1,2)] by auto
qed

lemma sub_set: "length own = length es \<Longrightarrow> set (sub own es i) \<subseteq> set es"
  by (auto simp: sub_def dest: set_zip_rightD)

section \<open>Picking a child\<close>

lemma pick_wins:
  assumes "(c, w) \<in> set cs" and "iw_valid w" and "\<not> better (iw_key w) (iw_key w)" and "distinct (map fst cs)"
    and "\<And>i w'. (i, w') \<in> set cs \<Longrightarrow> iw_valid w' \<Longrightarrow> i \<noteq> c \<Longrightarrow> better (iw_key w) (iw_key w') \<and> \<not> better (iw_key w') (iw_key w)"
    and "best = None \<or> (\<exists>i k. best = Some (i, k) \<and> better (iw_key w) k) "
  shows "pick better cs best = Some (c, iw_key w)"
proof -
  have keep: "pick better ds (Some (c, iw_key w)) = Some (c, iw_key w)"
    if "\<forall>d\<in>set ds. iw_valid (snd d) \<longrightarrow> \<not> better (iw_key (snd d)) (iw_key w)" for ds
    using that by (induction ds) auto
  show ?thesis
    using assms
  proof (induction cs arbitrary: best)
    case (Cons d cs)
    show ?case
    proof (cases "d = (c, w)")
      case True
      have "\<forall>d\<in>set cs. iw_valid (snd d) \<longrightarrow> \<not> better (iw_key (snd d)) (iw_key w)"
        using Cons.prems(4,5) True by force
      then show ?thesis using keep [of cs] Cons.prems(2,6) True by auto
    next
      case False
      then have c: "(c, w) \<in> set cs" using Cons.prems(1) by auto
      have "c \<in> fst ` set cs" using c by force
      then have "fst d \<noteq> c" using Cons.prems(4) by auto
      then have "iw_valid (snd d) \<longrightarrow> better (iw_key w) (iw_key (snd d))" using Cons.prems(5) [of "fst d" "snd d"] by auto
      then show ?thesis
        using Cons.IH [OF c Cons.prems(2,3)] Cons.prems(4,5,6) by (auto split: option.split)
    qed
  qed simp
qed

lemma pick_none: "\<forall>c\<in>set cs. \<not> iw_valid (snd c) \<Longrightarrow> pick better cs None = None"
  by (induction cs) auto

lemma in_enumerate: "(i, w) \<in> set (enumerate 0 ws) \<longleftrightarrow> i < length ws \<and> w = ws ! i"
  by (auto simp: in_set_enumerate_eq)

lemma each_child_all:
  assumes "\<And>i. i < length ws \<Longrightarrow> \<exists>w'. f (k + i) (ws ! i) = Some w' \<and> P i w'"
  shows "\<exists>ws'. each_child f k ws = Some ws' \<and> length ws' = length ws \<and> (\<forall>i<length ws. P i (ws' ! i))"
  using assms
proof (induction ws arbitrary: k P)
  case (Cons w ws)
  obtain w' where w': "f k w = Some w'" "P 0 w'" using Cons.prems [of 0] by auto
  obtain ws' where "each_child f (Suc k) ws = Some ws'" "length ws' = length ws" "\<forall>i<length ws. P (Suc i) (ws' ! i)"
    using Cons.IH [of "Suc k" "\<lambda>i. P (Suc i)"] Cons.prems [of "Suc _"] by auto
  then show ?case using w' by (auto simp: nth_Cons split: nat.split)
qed simp

section \<open>The contract\<close>

definition prev_pos :: "nat \<Rightarrow> nat option" where
  "prev_pos p = (if p = 0 then None else Some (p - 1))"

lemma prev_pos_simps [simp]: "prev_pos 0 = None" "prev_pos (Suc p) = Some p"
  by (simp_all add: prev_pos_def)

text \<open>
  All children stand at their first entry among the entries of the merge from \<open>j\<close> on, or at their
  last one before \<open>j\<close>.
\<close>

definition ahead :: "('i \<Rightarrow> kv list \<Rightarrow> nat option \<Rightarrow> bool) \<Rightarrow> nat list \<Rightarrow> kv list \<Rightarrow> nat \<Rightarrow> 'i IteratorWrapper list \<Rightarrow> bool" where
  "ahead rep own es j ws \<longleftrightarrow>
     (\<forall>i<length ws. wrap_rep rep (ws ! i) (sub own es i) (entry_pos (sub own es i) (cut own i j)))"

definition behind :: "('i \<Rightarrow> kv list \<Rightarrow> nat option \<Rightarrow> bool) \<Rightarrow> nat list \<Rightarrow> kv list \<Rightarrow> nat \<Rightarrow> 'i IteratorWrapper list \<Rightarrow> bool" where
  "behind rep own es j ws \<longleftrightarrow> (\<forall>i<length ws. wrap_rep rep (ws ! i) (sub own es i) (prev_pos (cut own i j)))"

definition anywhere :: "('i \<Rightarrow> kv list \<Rightarrow> nat option \<Rightarrow> bool) \<Rightarrow> nat list \<Rightarrow> kv list \<Rightarrow> 'i IteratorWrapper list \<Rightarrow> bool" where
  "anywhere rep own es ws \<longleftrightarrow> (\<forall>i<length ws. \<exists>p. wrap_rep rep (ws ! i) (sub own es i) p)"

definition merge_rep ::
    "(slice \<Rightarrow> slice \<Rightarrow> int) \<Rightarrow> (slice \<Rightarrow> bool) \<Rightarrow> ('i \<Rightarrow> kv list \<Rightarrow> nat option \<Rightarrow> bool) \<Rightarrow> 'i MergingIterator \<Rightarrow> kv list \<Rightarrow> nat option \<Rightarrow> bool" where
  "merge_rep cmp good rep m es pos \<longleftrightarrow>
     (\<exists>own. merges cmp good own es (length (mi_children m)) \<and>
        (case pos of
           None \<Rightarrow> mi_current m = None \<and> anywhere rep own es (mi_children m)
         | Some j \<Rightarrow> j < length es \<and> mi_current m = Some (own ! j) \<and>
             (case mi_direction m of
                kForward \<Rightarrow> ahead rep own es j (mi_children m)
              | kReverse \<Rightarrow> behind rep own es (Suc j) (mi_children m))))"

fun merged_rep ::
    "(slice \<Rightarrow> slice \<Rightarrow> int) \<Rightarrow> (slice \<Rightarrow> bool) \<Rightarrow> ('i \<Rightarrow> kv list \<Rightarrow> nat option \<Rightarrow> bool) \<Rightarrow> 'i Merged \<Rightarrow> kv list \<Rightarrow> nat option \<Rightarrow> bool" where
  "merged_rep cmp good rep MergedNone es pos = (es = [] \<and> pos = None)"
| "merged_rep cmp good rep (MergedOne it) es pos = rep it es pos"
| "merged_rep cmp good rep (MergedMany m) es pos = merge_rep cmp good rep m es pos"

locale merging = child: iterator ops rep cmp good + order: comparator cmp good
  for ops :: "'i Iterator" and rep cmp good
begin

lemma merges_less:
  assumes "merges cmp good own es n" and "i < j" and "j < length es"
  shows "cmp (fst (es ! i)) (fst (es ! j)) < 0" "\<not> cmp (fst (es ! j)) (fst (es ! i)) < 0"
    "cmp (fst (es ! j)) (fst (es ! i)) > 0" "\<not> cmp (fst (es ! i)) (fst (es ! j)) > 0"
proof -
  show 1: "cmp (fst (es ! i)) (fst (es ! j)) < 0" using assms by (simp add: merges_def sorted_wrt_iff_nth_less)
  have g: "good (fst (es ! i))" "good (fst (es ! j))" using assms by (auto simp: merges_def)
  show "cmp (fst (es ! j)) (fst (es ! i)) > 0" using 1 order.gt_iff [OF g(2,1)] by simp
  then show "\<not> cmp (fst (es ! j)) (fst (es ! i)) < 0" by simp
  show "\<not> cmp (fst (es ! i)) (fst (es ! j)) > 0" using 1 by simp
qed

lemma ahead_anywhere: "ahead rep own es j ws \<Longrightarrow> anywhere rep own es ws"
  by (auto simp: ahead_def anywhere_def)

lemma behind_anywhere: "behind rep own es j ws \<Longrightarrow> anywhere rep own es ws"
  by (auto simp: behind_def anywhere_def)

lemma ahead_key:
  assumes m: "merges cmp good own es (length ws)" and a: "ahead rep own es j ws" and i: "i < length ws" and v: "iw_valid (ws ! i)"
  obtains g where "j \<le> g" "g < length es" "own ! g = i" "iw_key (ws ! i) = fst (es ! g)"
proof -
  have l: "length own = length es" using m by (simp add: merges_def)
  have c: "cut own i j < length (sub own es i)" and k: "iw_key (ws ! i) = fst (sub own es i ! cut own i j)"
    using a i v by (auto simp: ahead_def wrap_rep_def entry_pos_def split: if_splits)
  show ?thesis using sub_from [OF l c] that k by auto
qed

lemma behind_key:
  assumes m: "merges cmp good own es (length ws)" and a: "behind rep own es j ws" and i: "i < length ws" and v: "iw_valid (ws ! i)"
    and j: "j \<le> length es"
  obtains g where "g < j" "own ! g = i" "iw_key (ws ! i) = fst (es ! g)"
proof -
  have l: "length own = length es" using m by (simp add: merges_def)
  obtain p where p: "cut own i j = Suc p" "iw_key (ws ! i) = fst (sub own es i ! p)"
    using a i v by (cases "cut own i j") (auto simp: behind_def wrap_rep_def)
  show ?thesis using sub_before [OF l, of p i j] p j that by auto
qed

lemma FindSmallest_ahead:
  assumes m: "merges cmp good own es (length (mi_children m))" and a: "ahead rep own es j (mi_children m)" and j: "j \<le> length es"
  shows "FindSmallest cmp m = m\<lparr>mi_current := if j < length es then Some (own ! j) else None\<rparr>"
proof (cases "j < length es")
  case True
  let ?ws = "mi_children m" and ?c = "own ! j"
  have l: "length own = length es" and c: "?c < length ?ws" using m True by (auto simp: merges_def)
  have w: "wrap_rep rep (?ws ! ?c) (sub own es ?c) (Some (cut own ?c j))" "sub own es ?c ! cut own ?c j = es ! j"
    using a c sub_nth [OF l True refl] by (auto simp: ahead_def entry_pos_def split: if_splits)
  then have v: "iw_valid (?ws ! ?c)" and k: "iw_key (?ws ! ?c) = fst (es ! j)" by (auto simp: wrap_rep_def)
  have gk: "good (fst (es ! j))" using m True by (simp add: merges_def)
  have "pick (\<lambda>a b. cmp a b < 0) (enumerate 0 ?ws) None = Some (?c, iw_key (?ws ! ?c))"
  proof (rule pick_wins)
    fix i w' assume iw: "(i, w') \<in> set (enumerate 0 ?ws)" "iw_valid w'" "i \<noteq> ?c"
    then obtain g where g: "j \<le> g" "g < length es" "own ! g = i" "iw_key w' = fst (es ! g)"
      using ahead_key [OF m a] by (auto simp: in_enumerate)
    then have "j < g" using iw(3) by (cases "j = g") auto
    then show "cmp (iw_key (?ws ! ?c)) (iw_key w') < 0 \<and> \<not> cmp (iw_key w') (iw_key (?ws ! ?c)) < 0"
      using merges_less [OF m _ g(2)] k g(4) by auto
  qed (use c v k gk in \<open>auto simp: in_enumerate distinct_enumerate\<close>)
  then show ?thesis using True by (simp add: FindSmallest_def)
next
  case False
  have "\<not> iw_valid (mi_children m ! i)" if "i < length (mi_children m)" for i
    using ahead_key [OF m a that] False by fastforce
  then have "pick (\<lambda>a b. cmp a b < 0) (enumerate 0 (mi_children m)) None = None"
    by (intro pick_none) (auto simp: in_enumerate)
  then show ?thesis using False by (simp add: FindSmallest_def)
qed

lemma FindLargest_behind:
  assumes m: "merges cmp good own es (length (mi_children m))" and a: "behind rep own es j (mi_children m)" and j: "j \<le> length es"
  shows "FindLargest cmp m = m\<lparr>mi_current := if j = 0 then None else Some (own ! (j - 1))\<rparr>"
proof (cases j)
  case 0
  have "\<not> iw_valid (mi_children m ! i)" if "i < length (mi_children m)" for i
    using behind_key [OF m a that _ j] 0 by fastforce
  then have "pick (\<lambda>a b. cmp a b > 0) (rev (enumerate 0 (mi_children m))) None = None"
    by (intro pick_none) (auto simp: in_enumerate)
  then show ?thesis using 0 by (simp add: FindLargest_def)
next
  case (Suc k)
  let ?ws = "mi_children m" and ?c = "own ! k"
  have l: "length own = length es" and k: "k < length es" and c: "?c < length ?ws" using m j Suc by (auto simp: merges_def)
  have "wrap_rep rep (?ws ! ?c) (sub own es ?c) (Some (cut own ?c k))" "sub own es ?c ! cut own ?c k = es ! k"
    using a c k sub_nth [OF l k refl] Suc l by (auto simp: behind_def cut_Suc)
  then have v: "iw_valid (?ws ! ?c)" and key: "iw_key (?ws ! ?c) = fst (es ! k)" by (auto simp: wrap_rep_def)
  have gk: "good (fst (es ! k))" using m k by (simp add: merges_def)
  have "pick (\<lambda>a b. cmp a b > 0) (rev (enumerate 0 ?ws)) None = Some (?c, iw_key (?ws ! ?c))"
  proof (rule pick_wins)
    fix i w' assume iw: "(i, w') \<in> set (rev (enumerate 0 ?ws))" "iw_valid w'" "i \<noteq> ?c"
    then obtain g where g: "g < j" "own ! g = i" "iw_key w' = fst (es ! g)"
      using behind_key [OF m a _ _ j] by (auto simp: in_enumerate)
    then have "g < k" using iw(3) Suc by (cases "g = k") auto
    then show "cmp (iw_key (?ws ! ?c)) (iw_key w') > 0 \<and> \<not> cmp (iw_key w') (iw_key (?ws ! ?c)) > 0"
      using merges_less [OF m _ k] key g(3) by auto
  qed (use c v key gk in \<open>auto simp: in_enumerate distinct_enumerate rev_map [symmetric]\<close>)
  then show ?thesis using Suc by (simp add: FindLargest_def)
qed

text \<open>Moving all children.\<close>

lemma each_child_rep:
  assumes "anywhere rep own es ws"
    and "\<forall>it xs p. rep it xs p \<longrightarrow> (\<exists>it'. f it = Some it' \<and> rep it' xs (Q xs))"
  shows "\<exists>ws'. each_child (\<lambda>_. Wrapper_move ops f) 0 ws = Some ws' \<and> length ws' = length ws \<and>
    (\<forall>i<length ws. wrap_rep rep (ws' ! i) (sub own es i) (Q (sub own es i)))"
proof (rule each_child_all)
  fix i assume i: "i < length ws"
  then obtain p where p: "wrap_rep rep (ws ! i) (sub own es i) p" using assms(1) by (auto simp: anywhere_def)
  show "\<exists>w'. Wrapper_move ops f (ws ! i) = Some w' \<and> wrap_rep rep w' (sub own es i) (Q (sub own es i))"
    by (rule child.Wrapper_move_rep [OF p]) (use assms(2) in blast)
qed

lemma ops_laws:
  "\<forall>it xs p. rep it xs p \<longrightarrow> (\<exists>it'. it_SeekToFirst ops it = Some it' \<and> rep it' xs (entry_pos xs 0))"
  "\<forall>it xs p. rep it xs p \<longrightarrow> (\<exists>it'. it_SeekToLast ops it = Some it' \<and> rep it' xs (last_pos xs))"
  "good t \<Longrightarrow> \<forall>it xs p. rep it xs p \<longrightarrow> (\<exists>it'. it_Seek ops t it = Some it' \<and> rep it' xs (entry_pos xs (seek_pos cmp xs t)))"
  using child.to_first child.to_last child.to_target by blast+

lemma seek_pos_sub:
  assumes m: "merges cmp good own es n" and t: "good t"
  shows "seek_pos cmp (sub own es i) t = cut own i (seek_pos cmp es t)" (is "_ = cut own i ?s")
proof -
  have l: "length own = length es" using m by (simp add: merges_def)
  have le: "cut own i ?s \<le> length (sub own es i)"
    using cut_mono [OF seek_pos_le, of own i cmp es t] cut_all [OF l, of i] by simp
  have "takeWhile (\<lambda>e. cmp (fst e) t < 0) (sub own es i) = take (cut own i ?s) (sub own es i)"
  proof (rule takeWhile_eq_take_P_nth)
    fix p assume "p < cut own i ?s" "p < length (sub own es i)"
    then show "cmp (fst (sub own es i ! p)) t < 0"
      using sub_before [OF l, of p i ?s] seek_pos_le [of cmp es t] seek_pos_less [of _ cmp es t] by auto
  next
    assume c: "cut own i ?s < length (sub own es i)"
    obtain g where g: "?s \<le> g" "g < length es" "sub own es i ! cut own i ?s = es ! g" using sub_from [OF l c] by auto
    have s: "\<not> cmp (fst (es ! ?s)) t < 0" using seek_pos_at [of cmp es t] g by simp
    have gd: "good (fst (es ! ?s))" "good (fst (es ! g))" using m g by (auto simp: merges_def)
    have "\<not> cmp (fst (es ! g)) t < 0"
    proof (cases "g = ?s")
      case False
      then have "cmp (fst (es ! ?s)) (fst (es ! g)) < 0" using g merges_less(1) [OF m] by simp
      then show ?thesis using s order.less_le_trans [OF gd t] by auto
    qed (use s in simp)
    then show "\<not> cmp (fst (sub own es i ! cut own i ?s)) t < 0" using g by simp
  qed
  then show ?thesis using le by (simp add: seek_pos_def [of _ "sub own es i"])
qed

lemma seek_pos_self:
  assumes m: "merges cmp good own es n" and j: "j < length es"
  shows "seek_pos cmp es (fst (es ! j)) = j"
proof -
  have g: "good (fst (es ! j))" using m j by (simp add: merges_def)
  have "takeWhile (\<lambda>e. cmp (fst e) (fst (es ! j)) < 0) es = take j es"
    by (rule takeWhile_eq_take_P_nth) (use merges_less(1) [OF m _ j] g in auto)
  then show ?thesis using j by (simp add: seek_pos_def)
qed

text \<open>The results of \<open>FindSmallest\<close> and \<open>FindLargest\<close> stand for the merge again.\<close>

lemma forward_rep:
  assumes m: "merges cmp good own es (length ws)" and a: "ahead rep own es j ws" and j: "j \<le> length es"
  shows "merge_rep cmp good rep (FindSmallest cmp (mi\<lparr>mi_children := ws, mi_direction := kForward\<rparr>)) es (entry_pos es j)"
  using FindSmallest_ahead [of own es "mi\<lparr>mi_children := ws, mi_direction := kForward\<rparr>" j] assms ahead_anywhere [OF a]
  by (auto simp: merge_rep_def entry_pos_def intro!: exI [of _ own])

lemma backward_rep:
  assumes m: "merges cmp good own es (length ws)" and a: "behind rep own es j ws" and j: "j \<le> length es"
  shows "merge_rep cmp good rep (FindLargest cmp (mi\<lparr>mi_children := ws, mi_direction := kReverse\<rparr>)) es (prev_pos j)"
  using FindLargest_behind [of own es "mi\<lparr>mi_children := ws, mi_direction := kReverse\<rparr>" j] assms behind_anywhere [OF a]
  by (cases j) (auto simp: merge_rep_def intro!: exI [of _ own])

lemma Find_direction:
  "(FindSmallest cmp (mi\<lparr>mi_children := ws\<rparr>))\<lparr>mi_direction := d\<rparr> = FindSmallest cmp (mi\<lparr>mi_children := ws, mi_direction := d\<rparr>)"
  "(FindLargest cmp (mi\<lparr>mi_children := ws\<rparr>))\<lparr>mi_direction := d\<rparr> = FindLargest cmp (mi\<lparr>mi_children := ws, mi_direction := d\<rparr>)"
  by (simp_all add: FindSmallest_def FindLargest_def)

lemma merge_rep_anywhere:
  assumes "merge_rep cmp good rep m es pos"
  obtains own where "merges cmp good own es (length (mi_children m))" "anywhere rep own es (mi_children m)"
  using assms ahead_anywhere behind_anywhere unfolding merge_rep_def by (cases pos; cases "mi_direction m"; fastforce)

lemma SeekToFirst_rep:
  assumes "merge_rep cmp good rep m es pos"
  shows "\<exists>m'. Merging_SeekToFirst ops cmp m = Some m' \<and> merge_rep cmp good rep m' es (entry_pos es 0)"
proof -
  obtain own where o: "merges cmp good own es (length (mi_children m))" "anywhere rep own es (mi_children m)"
    using merge_rep_anywhere [OF assms] .
  obtain ws where ws: "each_child (\<lambda>_. Wrapper_move ops (it_SeekToFirst ops)) 0 (mi_children m) = Some ws"
    "length ws = length (mi_children m)" "ahead rep own es 0 ws"
    using each_child_rep [OF o(2), of "it_SeekToFirst ops" "\<lambda>xs. entry_pos xs 0", OF ops_laws(1)] by (auto simp: ahead_def)
  then show ?thesis using forward_rep [of own es ws 0 m] o(1) by (simp add: Merging_SeekToFirst_def Find_direction)
qed

lemma SeekToLast_rep:
  assumes "merge_rep cmp good rep m es pos"
  shows "\<exists>m'. Merging_SeekToLast ops cmp m = Some m' \<and> merge_rep cmp good rep m' es (last_pos es)"
proof -
  obtain own where o: "merges cmp good own es (length (mi_children m))" "anywhere rep own es (mi_children m)"
    using merge_rep_anywhere [OF assms] .
  have l: "length own = length es" using o by (simp add: merges_def)
  have lp: "last_pos xs = prev_pos (length xs)" for xs :: "kv list" by (simp add: last_pos_def prev_pos_def)
  obtain ws where ws: "each_child (\<lambda>_. Wrapper_move ops (it_SeekToLast ops)) 0 (mi_children m) = Some ws"
    "length ws = length (mi_children m)" "behind rep own es (length es) ws"
    using each_child_rep [OF o(2), of "it_SeekToLast ops" "last_pos", OF ops_laws(2)]
    by (auto simp: behind_def cut_all [OF l] lp)
  then show ?thesis using backward_rep [of own es ws "length es" m] o(1) by (simp add: Merging_SeekToLast_def Find_direction lp)
qed

lemma Seek_rep:
  assumes "merge_rep cmp good rep m es pos" and t: "good t"
  shows "\<exists>m'. Merging_Seek ops cmp t m = Some m' \<and> merge_rep cmp good rep m' es (entry_pos es (seek_pos cmp es t))"
proof -
  obtain own where o: "merges cmp good own es (length (mi_children m))" "anywhere rep own es (mi_children m)"
    using merge_rep_anywhere [OF assms(1)] .
  obtain ws where ws: "each_child (\<lambda>_. Wrapper_move ops (it_Seek ops t)) 0 (mi_children m) = Some ws"
    "length ws = length (mi_children m)" "ahead rep own es (seek_pos cmp es t) ws"
    using each_child_rep [OF o(2), of "it_Seek ops t" "\<lambda>xs. entry_pos xs (seek_pos cmp xs t)", OF ops_laws(3) [OF t]]
    by (auto simp: ahead_def seek_pos_sub [OF o(1) t])
  then show ?thesis
    using forward_rep [of own es ws "seek_pos cmp es t" m] o(1) seek_pos_le [of cmp es t] by (simp add: Merging_Seek_def Find_direction)
qed

text \<open>The current child, seen from either direction.\<close>

lemma current_child:
  assumes m: "merges cmp good own es (length ws)" and j: "j < length es"
    and d: "ahead rep own es j ws \<or> behind rep own es (Suc j) ws"
  shows "own ! j < length ws" and "wrap_rep rep (ws ! (own ! j)) (sub own es (own ! j)) (Some (cut own (own ! j) j))"
    and "sub own es (own ! j) ! cut own (own ! j) j = es ! j"
proof -
  have l: "length own = length es" and c: "own ! j < length ws" using m j by (auto simp: merges_def)
  show "own ! j < length ws" by (rule c)
  show "sub own es (own ! j) ! cut own (own ! j) j = es ! j" using sub_nth [OF l j refl] by simp
  show "wrap_rep rep (ws ! (own ! j)) (sub own es (own ! j)) (Some (cut own (own ! j) j))"
    using d
  proof
    assume "ahead rep own es j ws"
    then show ?thesis using c sub_nth [OF l j refl] by (auto simp: ahead_def entry_pos_def)
  next
    assume "behind rep own es (Suc j) ws"
    then show ?thesis using c j l by (auto simp: behind_def cut_Suc)
  qed
qed

lemma Merging_key_rep:
  assumes "merge_rep cmp good rep m es (Some j)"
  shows "Merging_key m = Some (fst (es ! j))" "Merging_value ops m = Some (snd (es ! j))" "j < length es"
proof -
  obtain own where o: "merges cmp good own es (length (mi_children m))" "j < length es" "mi_current m = Some (own ! j)"
    "ahead rep own es j (mi_children m) \<or> behind rep own es (Suc j) (mi_children m)"
    using assms by (cases "mi_direction m") (auto simp: merge_rep_def)
  note c = current_child [OF o(1,2,4)]
  show "j < length es" by (rule o)
  show "Merging_key m = Some (fst (es ! j))" "Merging_value ops m = Some (snd (es ! j))"
    using child.Wrapper_key_rep [OF c(2)] child.Wrapper_value_rep [OF c(2)] c(3) by (simp_all add: Merging_key_def Merging_value_def o(3))
qed

lemma turn_forward_rep:
  assumes m: "merges cmp good own es (length ws)" and j: "j < length es" and b: "behind rep own es (Suc j) ws"
  shows "\<exists>ws'. each_child (turn_forward ops cmp (own ! j) (fst (es ! j))) 0 ws = Some ws' \<and> length ws' = length ws \<and> ahead rep own es j ws'"
proof -
  let ?k = "fst (es ! j)" and ?c = "own ! j"
  have l: "length own = length es" and g: "good ?k" using m j by (auto simp: merges_def)
  have "\<exists>w'. turn_forward ops cmp ?c ?k (0 + i) (ws ! i) = Some w' \<and>
      wrap_rep rep w' (sub own es i) (entry_pos (sub own es i) (cut own i j))" if i: "i < length ws" for i
  proof (cases "i = ?c")
    case True
    then show ?thesis
      using current_child [OF m j disjI2 [OF b]] sub_nth [OF l j refl] by (simp add: turn_forward_def entry_pos_def)
  next
    case False
    obtain p where p: "wrap_rep rep (ws ! i) (sub own es i) p" using b i by (auto simp: behind_def)
    obtain w where w: "Wrapper_move ops (it_Seek ops ?k) (ws ! i) = Some w"
      "wrap_rep rep w (sub own es i) (entry_pos (sub own es i) (cut own i j))"
      using child.Wrapper_move_rep [OF p, of "it_Seek ops ?k"] ops_laws(3) [OF g]
      by (metis seek_pos_sub [OF m g] seek_pos_self [OF m j])
    have "\<not> (iw_valid w \<and> cmp ?k (iw_key w) = 0)"
    proof
      assume v: "iw_valid w \<and> cmp ?k (iw_key w) = 0"
      then have "cut own i j < length (sub own es i)" "iw_key w = fst (sub own es i ! cut own i j)"
        using w(2) by (auto simp: wrap_rep_def entry_pos_def split: if_splits)
      then obtain h where h: "j \<le> h" "h < length es" "own ! h = i" "iw_key w = fst (es ! h)" using sub_from [OF l] by force
      then have "j < h" using False by (cases "j = h") auto
      then show False using merges_less(1) [OF m _ h(2), of j] h v by simp
    qed
    then show ?thesis using w False by (auto simp: turn_forward_def)
  qed
  from each_child_all [of ws "turn_forward ops cmp ?c ?k" 0 "\<lambda>i w'. wrap_rep rep w' (sub own es i) (entry_pos (sub own es i) (cut own i j))", OF this]
  show ?thesis by (auto simp: ahead_def)
qed

lemma turn_backward_rep:
  assumes m: "merges cmp good own es (length ws)" and j: "j < length es" and a: "ahead rep own es j ws"
  shows "\<exists>ws'. each_child (turn_backward ops (own ! j) (fst (es ! j))) 0 ws = Some ws' \<and> length ws' = length ws \<and> behind rep own es (Suc j) ws'"
proof -
  let ?k = "fst (es ! j)" and ?c = "own ! j"
  have l: "length own = length es" and g: "good ?k" using m j by (auto simp: merges_def)
  have "\<exists>w'. turn_backward ops ?c ?k (0 + i) (ws ! i) = Some w' \<and> wrap_rep rep w' (sub own es i) (prev_pos (cut own i (Suc j)))"
    if i: "i < length ws" for i
  proof (cases "i = ?c")
    case True
    then show ?thesis using current_child [OF m j disjI1 [OF a]] j l by (simp add: turn_backward_def cut_Suc)
  next
    case False
    obtain p where p: "wrap_rep rep (ws ! i) (sub own es i) p" using a i by (auto simp: ahead_def)
    obtain w where w: "Wrapper_move ops (it_Seek ops ?k) (ws ! i) = Some w"
      "wrap_rep rep w (sub own es i) (entry_pos (sub own es i) (cut own i j))"
      using child.Wrapper_move_rep [OF p, of "it_Seek ops ?k"] ops_laws(3) [OF g]
      by (metis seek_pos_sub [OF m g] seek_pos_self [OF m j])
    have cs: "cut own i (Suc j) = cut own i j" using j l False by (simp add: cut_Suc)
    show ?thesis
    proof (cases "iw_valid w")
      case True
      then have e: "entry_pos (sub own es i) (cut own i j) = Some (cut own i j)"
        using w(2) by (auto simp: wrap_rep_def entry_pos_def split: if_splits)
      obtain w' where "Wrapper_move ops (it_Prev ops) w = Some w'" "wrap_rep rep w' (sub own es i) (prev_pos (cut own i j))"
        using child.Wrapper_move_rep [OF w(2) [unfolded e], of "it_Prev ops"] child.step_back unfolding prev_pos_def by blast
      then show ?thesis using w True False cs by (simp add: turn_backward_def)
    next
      case invalid: False
      have "cut own i j = length (sub own es i)"
        using w(2) invalid cut_mono [of j "length es" own i] cut_all [OF l, of i] j by (auto simp: wrap_rep_def entry_pos_def split: if_splits)
      moreover obtain w' where "Wrapper_move ops (it_SeekToLast ops) w = Some w'" "wrap_rep rep w' (sub own es i) (last_pos (sub own es i))"
        using child.Wrapper_move_rep [OF w(2), of "it_SeekToLast ops"] child.to_last by blast
      ultimately show ?thesis using w False invalid cs by (auto simp: turn_backward_def last_pos_def prev_pos_def)
    qed
  qed
  from each_child_all [of ws "turn_backward ops ?c ?k" 0 "\<lambda>i w'. wrap_rep rep w' (sub own es i) (prev_pos (cut own i (Suc j)))", OF this]
  show ?thesis by (auto simp: behind_def)
qed

text \<open>The current child moves, the others stay.\<close>

lemma move_current_forward:
  assumes m: "merges cmp good own es (length ws)" and j: "j < length es" and a: "ahead rep own es j ws"
  shows "\<exists>ws'. move_current ops (it_Next ops) (own ! j) ws = Some ws' \<and> length ws' = length ws \<and> ahead rep own es (Suc j) ws'"
proof -
  have l: "length own = length es" using m by (simp add: merges_def)
  note c = current_child [OF m j disjI1 [OF a]]
  obtain w where w: "Wrapper_move ops (it_Next ops) (ws ! (own ! j)) = Some w"
    "wrap_rep rep w (sub own es (own ! j)) (entry_pos (sub own es (own ! j)) (Suc (cut own (own ! j) j)))"
    using child.Wrapper_move_rep [OF c(2), of "it_Next ops"] child.step by blast
  then have "ahead rep own es (Suc j) (ws[own ! j := w])"
    using a c(1) j l by (auto simp: ahead_def cut_Suc nth_list_update)
  then show ?thesis using w by (auto simp: move_current_def)
qed

lemma move_current_backward:
  assumes m: "merges cmp good own es (length ws)" and j: "j < length es" and a: "behind rep own es (Suc j) ws"
  shows "\<exists>ws'. move_current ops (it_Prev ops) (own ! j) ws = Some ws' \<and> length ws' = length ws \<and> behind rep own es j ws'"
proof -
  have l: "length own = length es" using m by (simp add: merges_def)
  note c = current_child [OF m j disjI2 [OF a]]
  obtain w where w: "Wrapper_move ops (it_Prev ops) (ws ! (own ! j)) = Some w"
    "wrap_rep rep w (sub own es (own ! j)) (prev_pos (cut own (own ! j) j))"
    using child.Wrapper_move_rep [OF c(2), of "it_Prev ops"] child.step_back unfolding prev_pos_def by blast
  then have "behind rep own es j (ws[own ! j := w])"
    using a c(1) j l by (auto simp: behind_def cut_Suc nth_list_update)
  then show ?thesis using w by (auto simp: move_current_def)
qed

lemma Next_rep:
  assumes r: "merge_rep cmp good rep m es (Some j)"
  shows "\<exists>m'. Merging_Next ops cmp m = Some m' \<and> merge_rep cmp good rep m' es (entry_pos es (Suc j))"
proof -
  obtain own where o: "merges cmp good own es (length (mi_children m))" "j < length es" "mi_current m = Some (own ! j)"
    "case mi_direction m of kForward \<Rightarrow> ahead rep own es j (mi_children m) | kReverse \<Rightarrow> behind rep own es (Suc j) (mi_children m)"
    using r by (auto simp: merge_rep_def)
  obtain ws where ws: "(if mi_direction m \<noteq> kForward then each_child (turn_forward ops cmp (own ! j) (fst (es ! j))) 0 (mi_children m)
      else Some (mi_children m)) = Some ws" "length ws = length (mi_children m)" "ahead rep own es j ws"
    using turn_forward_rep [OF o(1,2)] o(4) by (cases "mi_direction m") auto
  obtain ws' where ws': "move_current ops (it_Next ops) (own ! j) ws = Some ws'" "length ws' = length ws" "ahead rep own es (Suc j) ws'"
    using move_current_forward [of own es ws j] o(1,2) ws by auto
  have "Merging_Next ops cmp m = Some (FindSmallest cmp (m\<lparr>mi_children := ws', mi_direction := kForward\<rparr>))"
    using Merging_key_rep(1) [OF r] ws(1) ws'(1) by (simp add: Merging_Next_def o(3))
  then show ?thesis using forward_rep [of own es ws' "Suc j" m] o(1,2) ws ws' by simp
qed

lemma Prev_rep:
  assumes r: "merge_rep cmp good rep m es (Some j)"
  shows "\<exists>m'. Merging_Prev ops cmp m = Some m' \<and> merge_rep cmp good rep m' es (if j = 0 then None else Some (j - 1))"
proof -
  obtain own where o: "merges cmp good own es (length (mi_children m))" "j < length es" "mi_current m = Some (own ! j)"
    "case mi_direction m of kForward \<Rightarrow> ahead rep own es j (mi_children m) | kReverse \<Rightarrow> behind rep own es (Suc j) (mi_children m)"
    using r by (auto simp: merge_rep_def)
  obtain ws where ws: "(if mi_direction m \<noteq> kReverse then each_child (turn_backward ops (own ! j) (fst (es ! j))) 0 (mi_children m)
      else Some (mi_children m)) = Some ws" "length ws = length (mi_children m)" "behind rep own es (Suc j) ws"
    using turn_backward_rep [OF o(1,2)] o(4) by (cases "mi_direction m") auto
  obtain ws' where ws': "move_current ops (it_Prev ops) (own ! j) ws = Some ws'" "length ws' = length ws" "behind rep own es j ws'"
    using move_current_backward [of own es ws j] o(1,2) ws by auto
  have "Merging_Prev ops cmp m = Some (FindLargest cmp (m\<lparr>mi_children := ws', mi_direction := kReverse\<rparr>))"
    using Merging_key_rep(1) [OF r] ws(1) ws'(1) by (simp add: Merging_Prev_def o(3))
  then show ?thesis using backward_rep [of own es ws' j m] o(1,2) ws ws' by (simp add: prev_pos_def)
qed

lemma Merging_status_rep: "\<forall>w\<in>set ws. \<exists>xs p. wrap_rep rep w xs p \<Longrightarrow> Merging_status ops ws Status_OK = Status_OK"
proof (induction ws)
  case (Cons w ws)
  then obtain xs p where "wrap_rep rep w xs p" by auto
  from child.Wrapper_status_rep [OF this] Cons show ?case by (simp add: Status_ok_def Status_OK_def)
qed simp

text \<open>The merging iterator is an iterator over the merge.\<close>

lemma merging_iterator: "iterator (merging_ops ops cmp) (merge_rep cmp good rep) cmp good"
proof (unfold_locales, goal_cases)
  case (1 m es)
  then show ?case by (auto simp: merging_ops_def merge_rep_def)
next
  case (2 m es j)
  then show ?case using Merging_key_rep [of m es j] by (auto simp: merging_ops_def merge_rep_def)
next
  case (3 m es pos)
  then obtain own where "anywhere rep own es (mi_children m)" using merge_rep_anywhere by blast
  then have "\<forall>w\<in>set (mi_children m). \<exists>xs p. wrap_rep rep w xs p" by (metis anywhere_def in_set_conv_nth)
  then show ?case by (simp add: merging_ops_def Merging_status_rep)
next
  case (4 m es pos)
  then show ?case using SeekToFirst_rep by (simp add: merging_ops_def)
next
  case (5 m es pos)
  then show ?case using SeekToLast_rep by (simp add: merging_ops_def)
next
  case (6 m es pos t)
  then show ?case using Seek_rep by (simp add: merging_ops_def)
next
  case (7 m es j)
  then show ?case using Next_rep by (simp add: merging_ops_def)
next
  case (8 m es j)
  then show ?case using Prev_rep by (simp add: merging_ops_def)
qed

lemma merged_iterator: "iterator (merged_ops ops cmp) (merged_rep cmp good rep) cmp good"
proof -
  let ?mops = "merging_ops ops cmp" and ?mrep = "merge_rep cmp good rep"
  note M = merging_iterator
  have move: "\<exists>m'. merged_move f g e m = Some m' \<and> merged_rep cmp good rep m' es q"
    if "merged_rep cmp good rep m es pos" and "\<And>it. rep it es pos \<Longrightarrow> \<exists>it'. f it = Some it' \<and> rep it' es q"
      and "\<And>mi. ?mrep mi es pos \<Longrightarrow> \<exists>mi'. g mi = Some mi' \<and> ?mrep mi' es q"
      and "es = [] \<Longrightarrow> pos = None \<Longrightarrow> e = Some MergedNone \<and> q = None" for f g e m es pos q
    using that by (cases m) (fastforce simp: merged_move_def)+
  show ?thesis
  proof (unfold_locales, goal_cases)
    case (1 m es)
    then show ?case using child.at_none iterator.at_none [OF M] by (cases m) (auto simp: merged_ops_def merged_read_def Let_def)
  next
    case (2 m es j)
    then show ?case using child.at_some iterator.at_some [OF M] by (cases m) (auto simp: merged_ops_def merged_read_def Let_def)
  next
    case (3 m es pos)
    then show ?case using child.status iterator.status [OF M] by (cases m) (auto simp: merged_ops_def merged_read_def Let_def)
  next
    case (4 m es pos)
    show ?case unfolding merged_ops_def Let_def Iterator.simps
      by (rule move [OF 4 child.to_first iterator.to_first [OF M]]) (auto simp: entry_pos_def)
  next
    case (5 m es pos)
    show ?case unfolding merged_ops_def Let_def Iterator.simps
      by (rule move [OF 5 child.to_last iterator.to_last [OF M]]) (auto simp: last_pos_def)
  next
    case (6 m es pos t)
    show ?case unfolding merged_ops_def Let_def Iterator.simps
      by (rule move [OF 6(1) child.to_target [OF _ 6(2)] iterator.to_target [OF M _ 6(2)]]) (auto simp: entry_pos_def)
  next
    case (7 m es j)
    show ?case unfolding merged_ops_def Let_def Iterator.simps
      by (rule move [OF 7 child.step iterator.step [OF M]]) auto
  next
    case (8 m es j)
    show ?case unfolding merged_ops_def Let_def Iterator.simps
      by (rule move [OF 8 child.step_back iterator.step_back [OF M]]) auto
  qed
qed

text \<open>A new merging iterator over children that stand for the parts of a merge.\<close>

lemma NewMergingIterator_rep:
  assumes m: "merges cmp good own es (length its)" and r: "\<And>i. i < length its \<Longrightarrow> rep (its ! i) (sub own es i) None"
  shows "\<exists>m. NewMergingIterator ops its = Some m \<and> merged_rep cmp good rep m es None"
proof (cases its)
  case Nil
  then have "es = []" using m by (cases es) (auto simp: merges_def)
  then show ?thesis using Nil by (simp add: NewMergingIterator_def)
next
  case (Cons it rest)
  show ?thesis
  proof (cases rest)
    case Nil
    have "sub own es 0 = es" if "length own = length es" "\<forall>c\<in>set own. c = 0"
      using that by (induction own es rule: list_induct2) (auto simp: sub_Cons, simp add: sub_def)
    then have "sub own es 0 = es" using m Cons Nil by (auto simp: merges_def)
    then show ?thesis using r [of 0] Cons Nil by (simp add: NewMergingIterator_def)
  next
    case (Cons it2 rest2)
    let ?w = "\<lparr>iw_iter = None, iw_valid = False, iw_key = []\<rparr> :: 'a IteratorWrapper"
    have "\<exists>w'. Wrapper_Set ops (Some (its ! (0 + i))) (replicate (length its) ?w ! i) = Some w' \<and> wrap_rep rep w' (sub own es i) None"
      if "i < length (replicate (length its) ?w)" for i
      using child.Wrapper_Update_rep [OF r [of i]] that by (simp add: Wrapper_Set_def)
    from each_child_all [of _ "\<lambda>i w. Wrapper_Set ops (Some (its ! i)) w" 0 "\<lambda>i w'. wrap_rep rep w' (sub own es i) None", OF this]
    obtain ws where ws: "each_child (\<lambda>i w. Wrapper_Set ops (Some (its ! i)) w) 0 (replicate (length its) ?w) = Some ws"
      "length ws = length its" "\<forall>i<length its. wrap_rep rep (ws ! i) (sub own es i) None" by auto
    then have "merge_rep cmp good rep \<lparr>mi_children = ws, mi_current = None, mi_direction = kForward\<rparr> es None"
      using m by (auto simp: merge_rep_def anywhere_def)
    then show ?thesis
      using ws(1) \<open>its = it # rest\<close> Cons by (auto simp: NewMergingIterator_def MergingIterator_new_def)
  qed
qed

end

section \<open>Computing the merge\<close>

text \<open>Insertion by key into the tagged, sorted entries.\<close>

fun merge_insert :: "(slice \<Rightarrow> slice \<Rightarrow> int) \<Rightarrow> nat \<times> kv \<Rightarrow> (nat \<times> kv) list \<Rightarrow> (nat \<times> kv) list" where
  "merge_insert cmp x [] = [x]"
| "merge_insert cmp x (y # ys) = (if cmp (fst (snd x)) (fst (snd y)) < 0 then x # y # ys else y # merge_insert cmp x ys)"

definition merge_lists :: "(slice \<Rightarrow> slice \<Rightarrow> int) \<Rightarrow> kv list list \<Rightarrow> (nat \<times> kv) list" where
  "merge_lists cmp ess = fold (merge_insert cmp) (concat (map (\<lambda>(i, es). map (Pair i) es) (enumerate 0 ess))) []"

definition key_sorted :: "(slice \<Rightarrow> slice \<Rightarrow> int) \<Rightarrow> (nat \<times> kv) list \<Rightarrow> bool" where
  "key_sorted cmp ts \<longleftrightarrow> sorted_wrt (\<lambda>a b. cmp (fst (snd a)) (fst (snd b)) < 0) ts"

text \<open>Keys of a list of tagged entries that differ pairwise.\<close>

definition apart :: "(slice \<Rightarrow> slice \<Rightarrow> int) \<Rightarrow> (slice \<Rightarrow> bool) \<Rightarrow> (nat \<times> kv) list \<Rightarrow> bool" where
  "apart cmp good xs \<longleftrightarrow> (\<forall>x\<in>set xs. good (fst (snd x))) \<and> sorted_wrt (\<lambda>x y. cmp (fst (snd x)) (fst (snd y)) \<noteq> 0) xs"

text \<open>The lists of the children: each sorted, no key in two of them.\<close>

definition mergeable :: "(slice \<Rightarrow> slice \<Rightarrow> int) \<Rightarrow> (slice \<Rightarrow> bool) \<Rightarrow> kv list list \<Rightarrow> bool" where
  "mergeable cmp good ess \<longleftrightarrow>
     (\<forall>es\<in>set ess. (\<forall>e\<in>set es. good (fst e)) \<and> sorted_wrt (\<lambda>a b. cmp (fst a) (fst b) < 0) es) \<and>
     sorted_wrt (\<lambda>as bs. \<forall>a\<in>set as. \<forall>b\<in>set bs. cmp (fst a) (fst b) \<noteq> 0) ess"

lemma snd_tagged: "snd ` set (concat (map (\<lambda>(i, es). map (Pair i) es) (enumerate k ess))) = \<Union> (set ` set ess)"
  by (induction ess arbitrary: k) (simp_all add: image_Un image_image del: set_concat)

lemma set_merge_insert: "set (merge_insert cmp x ys) = insert x (set ys)"
  by (induction ys) auto

lemma set_merge_fold: "set (fold (merge_insert cmp) xs acc) = set xs \<union> set acc"
  by (induction xs arbitrary: acc) (auto simp: set_merge_insert)

lemma merge_insert_last: "\<forall>y\<in>set ys. \<not> cmp (fst (snd x)) (fst (snd y)) < 0 \<Longrightarrow> merge_insert cmp x ys = ys @ [x]"
  by (induction ys) auto

context merging
begin

lemma key_sorted_insert:
  assumes "key_sorted cmp ys" and "good (fst (snd x))" and "\<forall>y\<in>set ys. good (fst (snd y)) \<and> cmp (fst (snd x)) (fst (snd y)) \<noteq> 0"
  shows "key_sorted cmp (merge_insert cmp x ys) \<and>
    filter P (merge_insert cmp x ys) = (if P x then merge_insert cmp x (filter P ys) else filter P ys)"
  using assms
proof (induction ys)
  case (Cons y ys)
  let ?k = "\<lambda>z. fst (snd z)"
  show ?case
  proof (cases "cmp (?k x) (?k y) < 0")
    case True
    have trans: "cmp (?k x) (?k z) < 0" if "z \<in> set ys" for z
    proof -
      have "cmp (?k y) (?k z) < 0" "good (?k y)" "good (?k z)" using that Cons.prems by (auto simp: key_sorted_def)
      then show ?thesis using True order.less_le_trans [of "?k x" "?k y" "?k z"] Cons.prems(2) by simp
    qed
    have all: "merge_insert cmp x zs = x # zs" if "\<forall>z\<in>set zs. cmp (?k x) (?k z) < 0" for zs
      using that by (cases zs) auto
    show ?thesis using True trans all [of "filter P ys"] Cons.prems(1) by (auto simp: key_sorted_def)
  next
    case False
    have g: "good (?k x)" "good (?k y)" "cmp (?k x) (?k y) \<noteq> 0" using Cons.prems by auto
    then have "cmp (?k y) (?k x) < 0" using False order.gt_iff [OF g(1,2)] by auto
    then show ?thesis using Cons False by (auto simp: key_sorted_def set_merge_insert)
  qed
qed (simp add: key_sorted_def)

lemma merge_fold:
  assumes "key_sorted cmp acc" and "\<forall>y\<in>set acc. good (fst (snd y))" and "apart cmp good xs"
    and "\<forall>x\<in>set xs. \<forall>y\<in>set acc. cmp (fst (snd x)) (fst (snd y)) \<noteq> 0"
  shows "key_sorted cmp (fold (merge_insert cmp) xs acc) \<and>
    filter P (fold (merge_insert cmp) xs acc) = fold (merge_insert cmp) (filter P xs) (filter P acc)"
  using assms
proof (induction xs arbitrary: acc)
  case (Cons x xs)
  have x: "good (fst (snd x))" "\<forall>y\<in>set acc. good (fst (snd y)) \<and> cmp (fst (snd x)) (fst (snd y)) \<noteq> 0"
    using Cons.prems by (auto simp: apart_def)
  note ins = key_sorted_insert [OF Cons.prems(1) x]
  have "cmp (fst (snd z)) (fst (snd x)) \<noteq> 0" if "z \<in> set xs" for z
    using that Cons.prems(3) order.eq_sym [of "fst (snd x)" "fst (snd z)"] by (simp add: apart_def)
  then have "\<forall>z\<in>set xs. \<forall>y\<in>set (merge_insert cmp x acc). cmp (fst (snd z)) (fst (snd y)) \<noteq> 0"
    using Cons.prems(4) by (auto simp: set_merge_insert)
  moreover have "\<forall>y\<in>set (merge_insert cmp x acc). good (fst (snd y))" using x by (auto simp: set_merge_insert)
  moreover have "apart cmp good xs" using Cons.prems(3) by (simp add: apart_def)
  ultimately show ?case using Cons.IH [of "merge_insert cmp x acc"] ins by simp
qed simp

lemma merge_fold_sorted: "key_sorted cmp (ys @ xs) \<Longrightarrow> \<forall>x\<in>set (ys @ xs). good (fst (snd x)) \<Longrightarrow> fold (merge_insert cmp) xs ys = ys @ xs"
proof (induction xs arbitrary: ys)
  case (Cons x xs)
  have "\<not> cmp (fst (snd x)) (fst (snd y)) < 0" if "y \<in> set ys" for y
  proof -
    have "cmp (fst (snd y)) (fst (snd x)) < 0" using Cons.prems(1) that by (simp add: key_sorted_def sorted_wrt_append)
    then show ?thesis using order.gt_iff [of "fst (snd x)" "fst (snd y)"] Cons.prems(2) that by auto
  qed
  then have "merge_insert cmp x ys = ys @ [x]" by (intro merge_insert_last) blast
  then show ?case using Cons.IH [of "ys @ [x]"] Cons.prems by simp
qed simp

lemma filter_tagged:
  "filter (\<lambda>t. fst t = i) (concat (map (\<lambda>(i, es). map (Pair i) es) (enumerate k ess))) =
     (if k \<le> i \<and> i < k + length ess then map (Pair i) (ess ! (i - k)) else [])"
proof (induction ess arbitrary: k)
  case (Cons es ess)
  have "filter (\<lambda>t. fst t = i) (map (Pair k) es) = (if k = i then map (Pair i) es else [])"
    by (induction es) auto
  then show ?case using Cons [of "Suc k"] by (auto simp: nth_Cons' not_less_eq_eq)
qed auto

lemma apart_tagged: "mergeable cmp good ess \<Longrightarrow> apart cmp good (concat (map (\<lambda>(i, es). map (Pair i) es) (enumerate k ess)))"
proof (induction ess arbitrary: k)
  case Nil
  show ?case by (simp add: apart_def)
next
  case (Cons es ess)
  let ?ts = "concat (map (\<lambda>(i, es). map (Pair i) es) (enumerate (Suc k) ess))"
  have e: "\<forall>e\<in>set es. good (fst e)" "sorted_wrt (\<lambda>a b. cmp (fst a) (fst b) < 0) es" using Cons.prems by (simp_all add: mergeable_def)
  have "sorted_wrt (\<lambda>a b. cmp (fst a) (fst b) \<noteq> 0) es" by (rule sorted_wrt_mono_rel [OF _ e(2)]) simp
  then have 1: "sorted_wrt (\<lambda>x y. cmp (fst (snd x)) (fst (snd y)) \<noteq> 0) (map (Pair k) es)" by (simp add: sorted_wrt_map)
  have 2: "apart cmp good ?ts" using Cons by (simp add: mergeable_def)
  have "snd t \<in> \<Union> (set ` set ess)" if "t \<in> set ?ts" for t
    using that by (force simp: in_set_enumerate_eq intro: bexI [OF _ nth_mem])
  moreover have "\<forall>a\<in>set es. \<forall>x\<in>\<Union> (set ` set ess). cmp (fst a) (fst x) \<noteq> 0" using Cons.prems by (auto simp: mergeable_def)
  ultimately have "\<forall>a\<in>set es. \<forall>t\<in>set ?ts. cmp (fst a) (fst (snd t)) \<noteq> 0" by blast
  moreover have "apart cmp good (map (Pair k) es @ ts)" if "apart cmp good ts" "\<forall>a\<in>set es. \<forall>t\<in>set ts. cmp (fst a) (fst (snd t)) \<noteq> 0" for ts
    using that 1 e(1) by (auto simp: apart_def sorted_wrt_append)
  ultimately show ?case using 2 by simp
qed

lemma merge_lists_merges:
  assumes "mergeable cmp good ess"
  defines "ts \<equiv> merge_lists cmp ess"
  shows "merges cmp good (map fst ts) (map snd ts) (length ess)" and "\<forall>i<length ess. sub (map fst ts) (map snd ts) i = ess ! i"
proof -
  let ?xs = "concat (map (\<lambda>(i, es). map (Pair i) es) (enumerate 0 ess))"
  note ap = apart_tagged [OF assms(1), of 0]
  note f = merge_fold [of "[]" ?xs, folded merge_lists_def, folded ts_def]
  have st: "set ts = set ?xs" by (simp add: ts_def merge_lists_def set_merge_fold)
  have "key_sorted cmp ts" using f ap by (simp add: key_sorted_def)
  moreover have "\<forall>t\<in>set ts. good (fst (snd t)) \<and> fst t < length ess"
    using st ap by (auto simp: apart_def in_set_enumerate_eq)
  ultimately show "merges cmp good (map fst ts) (map snd ts) (length ess)"
    by (auto simp: merges_def key_sorted_def sorted_wrt_map)
  show "\<forall>i<length ess. sub (map fst ts) (map snd ts) i = ess ! i"
  proof (intro allI impI)
    fix i assume i: "i < length ess"
    have e: "\<forall>e\<in>set (ess ! i). good (fst e)" "sorted_wrt (\<lambda>a b. cmp (fst a) (fst b) < 0) (ess ! i)"
      using assms(1) i by (auto simp: mergeable_def)
    have "filter (\<lambda>t. fst t = i) ts = fold (merge_insert cmp) (map (Pair i) (ess ! i)) []"
      using f [of "\<lambda>t. fst t = i"] ap filter_tagged [of i 0 ess] i by (simp add: key_sorted_def)
    also have "\<dots> = map (Pair i) (ess ! i)"
      using merge_fold_sorted [of "[]" "map (Pair i) (ess ! i)"] e by (simp add: key_sorted_def sorted_wrt_map)
    finally show "sub (map fst ts) (map snd ts) i = ess ! i"
      by (simp add: sub_def zip_map_fst_snd comp_def)
  qed
qed

text \<open>A merging iterator over children with mergeable lists is an iterator over their merge.\<close>

lemma NewMergingIterator_merges:
  assumes "mergeable cmp good ess" and "length its = length ess" and "\<And>i. i < length its \<Longrightarrow> rep (its ! i) (ess ! i) None"
  shows "\<exists>m. NewMergingIterator ops its = Some m \<and> merged_rep cmp good rep m (map snd (merge_lists cmp ess)) None"
  using merge_lists_merges [OF assms(1)] assms by (intro NewMergingIterator_rep [where own = "map fst (merge_lists cmp ess)"]) auto

end

section \<open>Any sequence of moves\<close>

text \<open>The moves of a client, and what they do to a position in the list of entries.\<close>

datatype iter_cmd = ToFirst | ToLast | To slice | Forward | Backward

primrec iter_do :: "'i Iterator \<Rightarrow> iter_cmd \<Rightarrow> 'i \<Rightarrow> 'i option" where
  "iter_do ops ToFirst = it_SeekToFirst ops"
| "iter_do ops ToLast = it_SeekToLast ops"
| "iter_do ops (To t) = it_Seek ops t"
| "iter_do ops Forward = it_Next ops"
| "iter_do ops Backward = it_Prev ops"

text \<open>\<open>Next\<close> and \<open>Prev\<close> require a valid iterator: elsewhere the position is undefined.\<close>

fun pos_do :: "(slice \<Rightarrow> slice \<Rightarrow> int) \<Rightarrow> kv list \<Rightarrow> iter_cmd \<Rightarrow> nat option \<Rightarrow> nat option option" where
  "pos_do cmp es ToFirst pos = Some (entry_pos es 0)"
| "pos_do cmp es ToLast pos = Some (last_pos es)"
| "pos_do cmp es (To t) pos = Some (entry_pos es (seek_pos cmp es t))"
| "pos_do cmp es Forward (Some i) = Some (entry_pos es (Suc i))"
| "pos_do cmp es Backward (Some i) = Some (if i = 0 then None else Some (i - 1))"
| "pos_do cmp es _ None = None"

primrec iter_run :: "'i Iterator \<Rightarrow> iter_cmd list \<Rightarrow> 'i \<Rightarrow> 'i option" where
  "iter_run ops [] it = Some it"
| "iter_run ops (c # cs) it = Option.bind (iter_do ops c it) (iter_run ops cs)"

primrec pos_run :: "(slice \<Rightarrow> slice \<Rightarrow> int) \<Rightarrow> kv list \<Rightarrow> iter_cmd list \<Rightarrow> nat option \<Rightarrow> nat option option" where
  "pos_run cmp es [] pos = Some pos"
| "pos_run cmp es (c # cs) pos = Option.bind (pos_do cmp es c pos) (pos_run cmp es cs)"

definition cmds_ok :: "(slice \<Rightarrow> bool) \<Rightarrow> iter_cmd list \<Rightarrow> bool" where
  "cmds_ok good cs \<longleftrightarrow> (\<forall>t. To t \<in> set cs \<longrightarrow> good t)"

text \<open>What a client sees.\<close>

definition iter_entry :: "'i Iterator \<Rightarrow> 'i \<Rightarrow> kv option" where
  "iter_entry ops it =
     (if it_Valid ops it then (case (it_key ops it, it_value ops it) of (Some k, Some v) \<Rightarrow> Some (k, v) | _ \<Rightarrow> None) else None)"

context iterator
begin

lemma iter_do_rep:
  assumes "rep it es pos" and "pos_do cmp es c pos = Some pos'" and "\<forall>t. c = To t \<longrightarrow> good t"
  shows "\<exists>it'. iter_do ops c it = Some it' \<and> rep it' es pos'"
  using assms to_first to_last to_target step step_back by (cases c; cases pos) auto

lemma iter_run_rep:
  "rep it es pos \<Longrightarrow> pos_run cmp es cs pos = Some pos' \<Longrightarrow> cmds_ok good cs \<Longrightarrow>
   \<exists>it'. iter_run ops cs it = Some it' \<and> rep it' es pos'"
proof (induction cs arbitrary: it pos)
  case (Cons c cs)
  then obtain p where p: "pos_do cmp es c pos = Some p" "pos_run cmp es cs p = Some pos'" by (auto simp: bind_eq_Some_conv)
  obtain it1 where "iter_do ops c it = Some it1" "rep it1 es p"
    using iter_do_rep [OF Cons.prems(1) p(1)] Cons.prems(3) by (auto simp: cmds_ok_def)
  then show ?case using Cons.IH [OF _ p(2)] Cons.prems(3) by (auto simp: cmds_ok_def)
qed simp

lemma iter_entry_rep: "rep it es pos \<Longrightarrow> iter_entry ops it = map_option ((!) es) pos"
  using at_none at_some by (cases pos) (auto simp: iter_entry_def)

end


section \<open>Merged blocks\<close>

interpretation merged_blocks: merging "block_ops BytewiseCompare" "block_rep BytewiseCompare (\<lambda>_. True)" BytewiseCompare "\<lambda>_. True"
  by unfold_locales

interpretation merged_internal_blocks: merging "block_ops (InternalKeyCompare BytewiseCompare)"
    "block_rep (InternalKeyCompare BytewiseCompare) (valid_ikey (\<lambda>_. True))" "InternalKeyCompare BytewiseCompare" "valid_ikey (\<lambda>_. True)"
  by unfold_locales

lemma built_block:
  assumes cmp: "comparator cmp good" and i: "1 \<le> interval"
    and kvs: "sorted_wrt (\<lambda>a b. cmp (fst a) (fst b) < 0) kvs" "\<forall>e\<in>set kvs. good (fst e)"
    and size: "(\<Sum>(k, v)\<leftarrow>kvs. length k + length v + 19) + 8 < 2 ^ 32"
  shows "\<exists>b0 b it. BlockBuilder_new interval = Some b0 \<and> add_entries cmp interval kvs b0 = Some b \<and>
    Block_NewIterator (Block_new (fst (BlockBuilder_Finish b))) = Some it \<and> block_rep cmp good it kvs None"
proof -
  obtain b0 where b0: "BlockBuilder_new interval = Some b0" using i by (simp add: BlockBuilder_new_def)
  obtain b es rs where b: "add_entries cmp interval kvs b0 = Some b" "builder_rep interval b es rs" "map snd es = kvs"
    using add_entries_builder [OF cmp i builder_rep_new [OF b0], of kvs] kvs by auto
  then show ?thesis using Finish_rep [OF b(2)] kvs size b0 by blast
qed


end
