(* ===== verification/LdbDBIter.thy ===== *)
theory LdbDBIter
  imports LdbMerger LdbSkipList
begin

text \<open>
  The iterator of a database (\<open>db/db_iter.cc\<close>): it turns the entries \<open>(user key, sequence, type)\<close> of an
  internal iterator into the user keys that are live at a sequence number.

  \<open>None\<close> stands for a failed assertion or a loop that does not end; both are shown not to happen.
  The keys handed to \<open>DBImpl::RecordReadSample\<close> are collected in \<open>read_samples\<close>.  Freeing the buffer of
  a large value (\<open>ClearSavedValue\<close>) is clearing it.
\<close>

section \<open>The iterator\<close>

record 'i DBIter =
  dbi_iter :: 'i
  dbi_sequence :: u64
  dbi_status :: status
  saved_key :: slice
  saved_value :: slice
  dbi_direction :: Direction
  dbi_valid :: bool
  dbi_rnd :: u32
  bytes_counter :: int
  read_samples :: "slice list"

definition kReadBytesPeriod :: u32 where "kReadBytesPeriod = 1048576"

definition RandomPeriod :: "u32 \<Rightarrow> int \<times> u32" where
  "RandomPeriod rnd = (let (n, rnd) = Random_Uniform (2 * kReadBytesPeriod) rnd in (int (unat n), rnd))"

definition DBIter_new :: "'i \<Rightarrow> u64 \<Rightarrow> u32 \<Rightarrow> 'i DBIter" where
  "DBIter_new it s seed =
     (let (period, rnd) = RandomPeriod (Random_new seed) in
      \<lparr>dbi_iter = it, dbi_sequence = s, dbi_status = Status_OK, saved_key = [], saved_value = [], dbi_direction = kForward,
       dbi_valid = False, dbi_rnd = rnd, bytes_counter = period, read_samples = []\<rparr>)"

definition DBIter_key :: "'i Iterator \<Rightarrow> 'i DBIter \<Rightarrow> slice option" where
  "DBIter_key ops d =
     (if \<not> dbi_valid d then None
      else if dbi_direction d = kForward then map_option ExtractUserKey (it_key ops (dbi_iter d)) else Some (saved_key d))"

definition DBIter_value :: "'i Iterator \<Rightarrow> 'i DBIter \<Rightarrow> slice option" where
  "DBIter_value ops d =
     (if \<not> dbi_valid d then None
      else if dbi_direction d = kForward then it_value ops (dbi_iter d) else Some (saved_value d))"

definition DBIter_status :: "'i Iterator \<Rightarrow> 'i DBIter \<Rightarrow> status" where
  "DBIter_status ops d = (if Status_ok (dbi_status d) then it_status ops (dbi_iter d) else dbi_status d)"

definition ClearSavedValue :: "'i DBIter \<Rightarrow> 'i DBIter" where
  "ClearSavedValue d = d\<lparr>saved_value := []\<rparr>"

text \<open>The sampling loop of \<open>ParseKey\<close>.\<close>

partial_function (option) sample_loop :: "slice \<Rightarrow> u32 \<Rightarrow> int \<Rightarrow> slice list \<Rightarrow> (u32 \<times> int \<times> slice list) option" where
  "sample_loop k rnd counter samples =
     (if counter < 0
      then (let (period, rnd) = RandomPeriod rnd in sample_loop k rnd (counter + period) (samples @ [k]))
      else Some (rnd, counter, samples))"

definition ParseKey :: "'i Iterator \<Rightarrow> 'i DBIter \<Rightarrow> (ParsedInternalKey option \<times> 'i DBIter) option" where
  "ParseKey ops d =
     (case (it_key ops (dbi_iter d), it_value ops (dbi_iter d)) of
        (Some k, Some v) \<Rightarrow>
          (case sample_loop k (dbi_rnd d) (bytes_counter d - int (length k + length v)) (read_samples d) of
             None \<Rightarrow> None
           | Some (rnd, counter, samples) \<Rightarrow>
               let d = d\<lparr>dbi_rnd := rnd, bytes_counter := counter, read_samples := samples\<rparr> in
               case ParseInternalKey k of
                 None \<Rightarrow> Some (None, d\<lparr>dbi_status := Corruption (str ''corrupted internal key in DBIter'') []\<rparr>)
               | Some ikey \<Rightarrow> Some (Some ikey, d))
      | _ \<Rightarrow> None)"

text \<open>
  The \<open>switch\<close> in \<open>FindNextUserEntry\<close>: whether the entry is yielded, and \<open>skipping\<close> and the iterator behind it.
  The caller passes \<open>&saved_key_\<close> for \<open>skip\<close>.
\<close>

definition next_entry :: "(slice \<Rightarrow> slice \<Rightarrow> int) \<Rightarrow> ParsedInternalKey option \<Rightarrow> bool \<Rightarrow> 'i DBIter \<Rightarrow> bool \<times> bool \<times> 'i DBIter" where
  "next_entry ucmp p skipping d =
     (case p of
        None \<Rightarrow> (False, skipping, d)
      | Some ikey \<Rightarrow>
          if pk_sequence ikey \<le> dbi_sequence d then
            if pk_type ikey = kTypeDeletion then (False, True, d\<lparr>saved_key := pk_user_key ikey\<rparr>)
            else if skipping \<and> ucmp (pk_user_key ikey) (saved_key d) \<le> 0 then (False, skipping, d)
            else (True, skipping, d)
          else (False, skipping, d))"

partial_function (option) find_next :: "'i Iterator \<Rightarrow> (slice \<Rightarrow> slice \<Rightarrow> int) \<Rightarrow> bool \<Rightarrow> 'i DBIter \<Rightarrow> 'i DBIter option" where
  "find_next ops ucmp skipping d =
     Option.bind (ParseKey ops d) (\<lambda>(p, d).
       let (found, skipping, d) = next_entry ucmp p skipping d in
       if found then Some (d\<lparr>dbi_valid := True, saved_key := []\<rparr>)
       else Option.bind (it_Next ops (dbi_iter d)) (\<lambda>it.
         if it_Valid ops it then find_next ops ucmp skipping (d\<lparr>dbi_iter := it\<rparr>)
         else Some (d\<lparr>dbi_iter := it, saved_key := [], dbi_valid := False\<rparr>)))"

definition FindNextUserEntry :: "'i Iterator \<Rightarrow> (slice \<Rightarrow> slice \<Rightarrow> int) \<Rightarrow> bool \<Rightarrow> 'i DBIter \<Rightarrow> 'i DBIter option" where
  "FindNextUserEntry ops ucmp skipping d =
     (if it_Valid ops (dbi_iter d) \<and> dbi_direction d = kForward then find_next ops ucmp skipping d else None)"

definition DBIter_Next :: "'i Iterator \<Rightarrow> (slice \<Rightarrow> slice \<Rightarrow> int) \<Rightarrow> 'i DBIter \<Rightarrow> 'i DBIter option" where
  "DBIter_Next ops ucmp d =
     (if \<not> dbi_valid d then None
      else if dbi_direction d = kReverse then
        Option.bind (if \<not> it_Valid ops (dbi_iter d) then it_SeekToFirst ops (dbi_iter d) else it_Next ops (dbi_iter d)) (\<lambda>it.
          let d = d\<lparr>dbi_direction := kForward, dbi_iter := it\<rparr> in
          if \<not> it_Valid ops it then Some (d\<lparr>dbi_valid := False, saved_key := []\<rparr>)
          else FindNextUserEntry ops ucmp True d)
      else
        Option.bind (it_key ops (dbi_iter d)) (\<lambda>k. FindNextUserEntry ops ucmp True (d\<lparr>saved_key := ExtractUserKey k\<rparr>)))"

text \<open>The body of the loop in \<open>FindPrevUserEntry\<close>: \<open>None\<close> is the \<open>break\<close>.\<close>

definition prev_entry :: "'i Iterator \<Rightarrow> (slice \<Rightarrow> slice \<Rightarrow> int) \<Rightarrow> ParsedInternalKey option \<Rightarrow> u8 \<Rightarrow> 'i DBIter \<Rightarrow> (u8 \<times> 'i DBIter) option option" where
  "prev_entry ops ucmp p value_type d =
     (case p of
        None \<Rightarrow> Some (Some (value_type, d))
      | Some ikey \<Rightarrow>
          if pk_sequence ikey \<le> dbi_sequence d then
            if value_type \<noteq> kTypeDeletion \<and> ucmp (pk_user_key ikey) (saved_key d) < 0 then Some None
            else if pk_type ikey = kTypeDeletion then Some (Some (kTypeDeletion, ClearSavedValue (d\<lparr>saved_key := []\<rparr>)))
            else (case (it_key ops (dbi_iter d), it_value ops (dbi_iter d)) of
                    (Some k, Some v) \<Rightarrow> Some (Some (pk_type ikey, d\<lparr>saved_key := ExtractUserKey k, saved_value := v\<rparr>))
                  | _ \<Rightarrow> None)
          else Some (Some (value_type, d)))"

partial_function (option) find_prev :: "'i Iterator \<Rightarrow> (slice \<Rightarrow> slice \<Rightarrow> int) \<Rightarrow> u8 \<Rightarrow> 'i DBIter \<Rightarrow> (u8 \<times> 'i DBIter) option" where
  "find_prev ops ucmp value_type d =
     Option.bind (ParseKey ops d) (\<lambda>(p, d).
       Option.bind (prev_entry ops ucmp p value_type d) (\<lambda>r.
         case r of
           None \<Rightarrow> Some (value_type, d)
         | Some (value_type, d) \<Rightarrow>
             Option.bind (it_Prev ops (dbi_iter d)) (\<lambda>it.
               if it_Valid ops it then find_prev ops ucmp value_type (d\<lparr>dbi_iter := it\<rparr>)
               else Some (value_type, d\<lparr>dbi_iter := it\<rparr>))))"

definition FindPrevUserEntry :: "'i Iterator \<Rightarrow> (slice \<Rightarrow> slice \<Rightarrow> int) \<Rightarrow> 'i DBIter \<Rightarrow> 'i DBIter option" where
  "FindPrevUserEntry ops ucmp d =
     (if dbi_direction d \<noteq> kReverse then None
      else
        map_option (\<lambda>(value_type, d).
            if value_type = kTypeDeletion
            then (ClearSavedValue (d\<lparr>dbi_valid := False, saved_key := []\<rparr>))\<lparr>dbi_direction := kForward\<rparr>
            else d\<lparr>dbi_valid := True\<rparr>)
          (if it_Valid ops (dbi_iter d) then find_prev ops ucmp kTypeDeletion d else Some (kTypeDeletion, d)))"

text \<open>The loop of \<open>Prev\<close> that leaves the entries of the current key; \<open>False\<close>: the internal iterator has reached its end.\<close>

partial_function (option) leave_key :: "'i Iterator \<Rightarrow> (slice \<Rightarrow> slice \<Rightarrow> int) \<Rightarrow> slice \<Rightarrow> 'i \<Rightarrow> (bool \<times> 'i) option" where
  "leave_key ops ucmp key it =
     Option.bind (it_Prev ops it) (\<lambda>it.
       if \<not> it_Valid ops it then Some (False, it)
       else Option.bind (it_key ops it) (\<lambda>k.
         if ucmp (ExtractUserKey k) key < 0 then Some (True, it) else leave_key ops ucmp key it))"

definition DBIter_Prev :: "'i Iterator \<Rightarrow> (slice \<Rightarrow> slice \<Rightarrow> int) \<Rightarrow> 'i DBIter \<Rightarrow> 'i DBIter option" where
  "DBIter_Prev ops ucmp d =
     (if \<not> dbi_valid d then None
      else if dbi_direction d = kForward then
        if \<not> it_Valid ops (dbi_iter d) then None
        else
          Option.bind (it_key ops (dbi_iter d)) (\<lambda>k.
            let d = d\<lparr>saved_key := ExtractUserKey k\<rparr> in
            Option.bind (leave_key ops ucmp (saved_key d) (dbi_iter d)) (\<lambda>(more, it).
              if \<not> more then Some (ClearSavedValue (d\<lparr>dbi_iter := it, dbi_valid := False, saved_key := []\<rparr>))
              else FindPrevUserEntry ops ucmp (d\<lparr>dbi_iter := it, dbi_direction := kReverse\<rparr>)))
      else FindPrevUserEntry ops ucmp d)"

definition DBIter_Seek :: "'i Iterator \<Rightarrow> (slice \<Rightarrow> slice \<Rightarrow> int) \<Rightarrow> slice \<Rightarrow> 'i DBIter \<Rightarrow> 'i DBIter option" where
  "DBIter_Seek ops ucmp target d =
     (let d = ClearSavedValue (d\<lparr>dbi_direction := kForward\<rparr>);
          d = d\<lparr>saved_key := AppendInternalKey [] \<lparr>pk_user_key = target, pk_sequence = dbi_sequence d, pk_type = kValueTypeForSeek\<rparr>\<rparr>
      in Option.bind (it_Seek ops (saved_key d) (dbi_iter d)) (\<lambda>it.
           let d = d\<lparr>dbi_iter := it\<rparr> in
           if it_Valid ops it then FindNextUserEntry ops ucmp False d else Some (d\<lparr>dbi_valid := False\<rparr>)))"

definition DBIter_SeekToFirst :: "'i Iterator \<Rightarrow> (slice \<Rightarrow> slice \<Rightarrow> int) \<Rightarrow> 'i DBIter \<Rightarrow> 'i DBIter option" where
  "DBIter_SeekToFirst ops ucmp d =
     (let d = ClearSavedValue (d\<lparr>dbi_direction := kForward\<rparr>) in
      Option.bind (it_SeekToFirst ops (dbi_iter d)) (\<lambda>it.
        let d = d\<lparr>dbi_iter := it\<rparr> in
        if it_Valid ops it then FindNextUserEntry ops ucmp False d else Some (d\<lparr>dbi_valid := False\<rparr>)))"

definition DBIter_SeekToLast :: "'i Iterator \<Rightarrow> (slice \<Rightarrow> slice \<Rightarrow> int) \<Rightarrow> 'i DBIter \<Rightarrow> 'i DBIter option" where
  "DBIter_SeekToLast ops ucmp d =
     (let d = ClearSavedValue (d\<lparr>dbi_direction := kReverse\<rparr>) in
      Option.bind (it_SeekToLast ops (dbi_iter d)) (\<lambda>it. FindPrevUserEntry ops ucmp (d\<lparr>dbi_iter := it\<rparr>)))"

definition db_ops :: "'i Iterator \<Rightarrow> (slice \<Rightarrow> slice \<Rightarrow> int) \<Rightarrow> 'i DBIter Iterator" where
  "db_ops ops ucmp =
     \<lparr>it_Valid = dbi_valid, it_key = DBIter_key ops, it_value = DBIter_value ops, it_status = DBIter_status ops,
      it_SeekToFirst = DBIter_SeekToFirst ops ucmp, it_SeekToLast = DBIter_SeekToLast ops ucmp, it_Seek = DBIter_Seek ops ucmp,
      it_Next = DBIter_Next ops ucmp, it_Prev = DBIter_Prev ops ucmp\<rparr>"

section \<open>Sampling ends\<close>

text \<open>
  A period of the sampler may be zero, but not twice in a row: the seeds divisible by 2 to the 21
  are followed by one that is not.
\<close>

definition seed_ok :: "u32 \<Rightarrow> bool" where
  "seed_ok seed \<longleftrightarrow> 0 < seed \<and> seed < 2147483647"

lemma seed_ok_simps [simp]: "seed_ok (Random_new v)" "seed_ok seed \<Longrightarrow> seed_ok (Random_Next seed)"
  using Random_Next_correct [of 1 v "SkipList_new ()"] Random_Next_correct [of seed v "SkipList_new ()"]
  by (simp_all add: seed_ok_def)

lemma mult_mod_mersenne:
  assumes k: "0 < k" "k < (1024 :: nat)"
  shows "2097152 * k * 16807 mod 2147483647 mod 2097152 \<noteq> 0"
proof -
  define t where "t = k * 16807"
  define q where "q = t div 1024"
  define r where "r = t mod 1024"
  have t: "t = q * 1024 + r" "r < 1024" by (simp_all add: q_def r_def)
  have q: "16 \<le> q" "q < 32768" using k by (simp_all add: q_def t_def less_eq_div_iff_mult_less_eq div_less_iff_less_mult)
  have "2097152 * k * 16807 = q * 2147483647 + (2097152 * r + q)" using t by (simp add: t_def)
  then have "2097152 * k * 16807 mod 2147483647 = (2097152 * r + q) mod 2147483647" by (simp only: mod_mult_self3)
  also have "\<dots> = 2097152 * r + q" using t(2) q by (intro mod_less) simp
  finally have "2097152 * k * 16807 mod 2147483647 = 2097152 * r + q" .
  moreover have "(2097152 * r + q) mod 2097152 = q" using q by simp
  ultimately show ?thesis using q by simp
qed

lemma RandomPeriod_eq:
  assumes "seed_ok seed"
  shows "RandomPeriod seed = (int (unat (Random_Next seed) mod 2097152), Random_Next seed)"
proof -
  have "unat (Random_Next seed mod (2 * 1048576)) = unat (Random_Next seed) mod 2097152" by (simp add: unat_mod)
  then show ?thesis by (simp only: RandomPeriod_def Random_Uniform_def kReadBytesPeriod_def Let_def prod.case)
qed

lemma period_positive:
  assumes s: "seed_ok seed" and z: "unat seed mod 2097152 = 0"
  shows "unat (Random_Next seed) mod 2097152 \<noteq> 0"
proof -
  obtain k where k: "unat seed = 2097152 * k" using z by (auto simp: mod_eq_0_iff_dvd)
  have b: "0 < unat seed" "unat seed < 2147483647" using s by (simp_all add: seed_ok_def word_less_nat_alt)
  then have "0 < k" "k < 1024" using k by auto
  then show ?thesis
    using Random_Next_mod [of seed] mult_mod_mersenne [of k] s k by (simp add: seed_ok_def)
qed

lemma sample_loop_step:
  assumes "seed_ok rnd" "c < 0"
  shows "sample_loop k rnd c smp =
    sample_loop k (Random_Next rnd) (c + int (unat (Random_Next rnd) mod 2097152)) (smp @ [k])"
  using assms by (subst sample_loop.simps) (simp add: RandomPeriod_eq)

lemma sample_loop_ends:
  "seed_ok rnd \<Longrightarrow> \<exists>rnd' c' smp'. sample_loop k rnd c smp = Some (rnd', c', smp') \<and> seed_ok rnd'"
proof (induction "nat (- c)" arbitrary: rnd c smp rule: less_induct)
  case less
  show ?case
  proof (cases "c < 0")
    case False
    then show ?thesis using less.prems by (subst sample_loop.simps) auto
  next
    case neg: True
    let ?r1 = "Random_Next rnd" and ?c1 = "c + int (unat (Random_Next rnd) mod 2097152)"
    have s1: "sample_loop k rnd c smp = sample_loop k ?r1 ?c1 (smp @ [k])" using sample_loop_step [OF less.prems neg] .
    have ok1: "seed_ok ?r1" using less.prems by simp
    show ?thesis
    proof (cases "unat ?r1 mod 2097152 = 0")
      case False
      then have "nat (- ?c1) < nat (- c)" using neg by auto
      then show ?thesis using less.hyps [OF _ ok1] s1 by simp
    next
      case True
      let ?r2 = "Random_Next ?r1" and ?c2 = "?c1 + int (unat (Random_Next ?r1) mod 2097152)"
      have s2: "sample_loop k rnd c smp = sample_loop k ?r2 ?c2 (smp @ [k] @ [k])"
        using sample_loop_step [OF ok1, of ?c1 k "smp @ [k]"] neg True s1 by simp
      have "nat (- ?c2) < nat (- c)" using period_positive [OF ok1 True] neg True by auto
      then show ?thesis using less.hyps [of ?c2 ?r2] s2 ok1 by simp
    qed
  qed
qed

section \<open>The live entries\<close>

definition ukey :: "kv list \<Rightarrow> nat \<Rightarrow> slice" where
  "ukey es i = ExtractUserKey (fst (es ! i))"

definition visible :: "u64 \<Rightarrow> kv list \<Rightarrow> nat \<Rightarrow> bool" where
  "visible s es i \<longleftrightarrow> drop_bit 8 (key_num (fst (es ! i))) \<le> s"

text \<open>An entry is live when it is the newest visible one for its user key, and a value.\<close>

definition live :: "(slice \<Rightarrow> slice \<Rightarrow> int) \<Rightarrow> u64 \<Rightarrow> kv list \<Rightarrow> nat \<Rightarrow> bool" where
  "live ucmp s es i \<longleftrightarrow> visible s es i \<and> ExtractValueType (fst (es ! i)) = kTypeValue \<and>
     (\<forall>h<i. visible s es h \<longrightarrow> ucmp (ukey es h) (ukey es i) \<noteq> 0)"

definition db_view :: "(slice \<Rightarrow> slice \<Rightarrow> int) \<Rightarrow> u64 \<Rightarrow> kv list \<Rightarrow> kv list" where
  "db_view ucmp s es = map (\<lambda>i. (ukey es i, snd (es ! i))) (filter (live ucmp s es) [0..<length es])"

definition internal_ok :: "(slice \<Rightarrow> slice \<Rightarrow> int) \<Rightarrow> (slice \<Rightarrow> bool) \<Rightarrow> kv list \<Rightarrow> bool" where
  "internal_ok ucmp ugood es \<longleftrightarrow>
     sorted_wrt (\<lambda>a b. InternalKeyCompare ucmp (fst a) (fst b) < 0) es \<and>
     (\<forall>e\<in>set es. valid_ikey ugood (fst e) \<and> ExtractValueType (fst e) \<le> kTypeValue)"

text \<open>The number of live entries before an index.\<close>

definition rank :: "(nat \<Rightarrow> bool) \<Rightarrow> nat \<Rightarrow> nat" where
  "rank P j = length (filter P [0..<j])"

lemma rank_0 [simp]: "rank P 0 = 0"
  by (simp add: rank_def)

lemma rank_Suc: "rank P (Suc j) = rank P j + (if P j then 1 else 0)"
  by (simp add: rank_def)

lemma rank_same: "i \<le> j \<Longrightarrow> \<forall>k. i \<le> k \<and> k < j \<longrightarrow> \<not> P k \<Longrightarrow> rank P j = rank P i"
proof (induction j)
  case (Suc j)
  then show ?case by (cases "i = Suc j") (auto simp: rank_Suc)
qed simp

lemma rank_mono: "i \<le> j \<Longrightarrow> rank P i \<le> rank P j"
  by (induction j) (auto simp: rank_Suc le_Suc_eq)

lemma rank_next: "i < j \<Longrightarrow> P i \<Longrightarrow> \<forall>k. i < k \<and> k < j \<longrightarrow> \<not> P k \<Longrightarrow> rank P j = Suc (rank P i)"
  using rank_same [of "Suc i" j P] by (simp add: rank_Suc Suc_le_eq)

lemma filter_nth_rank: "j < n \<Longrightarrow> P j \<Longrightarrow> rank P j < length (filter P [0..<n]) \<and> filter P [0..<n] ! rank P j = j"
proof -
  assume "j < n" "P j"
  then have "[0..<n] = [0..<j] @ j # [Suc j..<n]" using upt_add_eq_append [of 0 j "n - j"] by (simp add: upt_conv_Cons)
  then show ?thesis using \<open>P j\<close> by (simp add: rank_def nth_append)
qed

lemma filter_index: "p < length (filter P [0..<n]) \<Longrightarrow> \<exists>j<n. P j \<and> rank P j = p"
proof -
  assume p: "p < length (filter P [0..<n])"
  let ?j = "filter P [0..<n] ! p"
  have j: "?j < n" "P ?j" using nth_mem [OF p] by auto
  have "distinct (filter P [0..<n])" by simp
  then have "rank P ?j = p" using filter_nth_rank [where P = P, OF j] p by (meson nth_eq_iff_index_eq)
  then show ?thesis using j by blast
qed

lemma length_db_view: "length (db_view ucmp s es) = rank (live ucmp s es) (length es)"
  by (simp add: db_view_def rank_def)

lemma db_view_nth:
  "j < length es \<Longrightarrow> live ucmp s es j \<Longrightarrow>
   rank (live ucmp s es) j < length (db_view ucmp s es) \<and> db_view ucmp s es ! rank (live ucmp s es) j = (ukey es j, snd (es ! j))"
  using filter_nth_rank [of j "length es" "live ucmp s es"] by (simp add: db_view_def)

section \<open>The contract\<close>

text \<open>
  When the iterator moves backward, the internal iterator stands before all visible entries of the
  current key and behind all visible ones of smaller keys.
\<close>

definition before_key :: "(slice \<Rightarrow> slice \<Rightarrow> int) \<Rightarrow> u64 \<Rightarrow> kv list \<Rightarrow> nat \<Rightarrow> nat option \<Rightarrow> bool" where
  "before_key ucmp s es j q \<longleftrightarrow>
     (\<forall>i. q = Some i \<longrightarrow> ucmp (ukey es i) (ukey es j) < 0) \<and>
     (\<forall>h<length es. (case q of None \<Rightarrow> True | Some i \<Rightarrow> i < h) \<and> visible s es h \<longrightarrow> \<not> ucmp (ukey es h) (ukey es j) < 0)"

definition db_at ::
    "(slice \<Rightarrow> slice \<Rightarrow> int) \<Rightarrow> u64 \<Rightarrow> ('i \<Rightarrow> kv list \<Rightarrow> nat option \<Rightarrow> bool) \<Rightarrow> kv list \<Rightarrow> 'i DBIter \<Rightarrow> nat \<Rightarrow> bool" where
  "db_at ucmp s rep es d j \<longleftrightarrow>
     (if j < length es
      then dbi_valid d \<and> live ucmp s es j \<and>
        (case dbi_direction d of
           kForward \<Rightarrow> rep (dbi_iter d) es (Some j)
         | kReverse \<Rightarrow> saved_key d = ukey es j \<and> saved_value d = snd (es ! j) \<and>
             (\<exists>q. rep (dbi_iter d) es q \<and> before_key ucmp s es j q))
      else \<not> dbi_valid d \<and> (\<exists>q. rep (dbi_iter d) es q))"

definition db_state :: "u64 \<Rightarrow> 'i DBIter \<Rightarrow> bool" where
  "db_state s d \<longleftrightarrow> dbi_sequence d = s \<and> dbi_status d = Status_OK \<and> seed_ok (dbi_rnd d)"

definition db_rep ::
    "(slice \<Rightarrow> slice \<Rightarrow> int) \<Rightarrow> (slice \<Rightarrow> bool) \<Rightarrow> u64 \<Rightarrow> ('i \<Rightarrow> kv list \<Rightarrow> nat option \<Rightarrow> bool) \<Rightarrow> 'i DBIter \<Rightarrow> kv list \<Rightarrow> nat option \<Rightarrow> bool" where
  "db_rep ucmp ugood s rep d vs pos \<longleftrightarrow>
     (\<exists>es j. internal_ok ucmp ugood es \<and> vs = db_view ucmp s es \<and> db_state s d \<and> db_at ucmp s rep es d j \<and> j \<le> length es \<and>
        pos = entry_pos vs (rank (live ucmp s es) j))"

locale db_iter = inner: iterator ops rep "InternalKeyCompare ucmp" "valid_ikey ugood" + user: comparator ucmp ugood
  for ops :: "'i Iterator" and rep and ucmp :: "slice \<Rightarrow> slice \<Rightarrow> int" and ugood +
  fixes s :: u64
  assumes seq: "s \<le> kMaxSequenceNumber"
begin

lemma ukey_good: "internal_ok ucmp ugood es \<Longrightarrow> i < length es \<Longrightarrow> ugood (ukey es i)"
  by (auto simp: internal_ok_def valid_ikey_def ukey_def)

lemma ukey_mono:
  assumes "internal_ok ucmp ugood es" and "i \<le> j" and "j < length es"
  shows "ucmp (ukey es i) (ukey es j) \<le> 0"
proof (cases "i = j")
  case True
  then show ?thesis using ukey_good [OF assms(1,3)] by simp
next
  case False
  then have "InternalKeyCompare ucmp (fst (es ! i)) (fst (es ! j)) < 0"
    using assms by (simp add: internal_ok_def sorted_wrt_iff_nth_less)
  then show ?thesis by (auto simp: InternalKeyCompare_sign ukey_def)
qed

text \<open>Two entries with the same user key have all entries between them with that key.\<close>

lemma ukey_between:
  assumes es: "internal_ok ucmp ugood es" and "h \<le> i" "i \<le> k" "k < length es" and eq: "ucmp (ukey es h) (ukey es k) = 0"
  shows "ucmp (ukey es h) (ukey es i) = 0" "ucmp (ukey es i) (ukey es k) = 0"
proof -
  have g: "ugood (ukey es h)" "ugood (ukey es i)" "ugood (ukey es k)" using ukey_good [OF es] assms by auto
  have 1: "ucmp (ukey es h) (ukey es i) \<le> 0" "ucmp (ukey es i) (ukey es k) \<le> 0" using ukey_mono [OF es] assms by auto
  have 2: "ucmp (ukey es k) (ukey es h) \<le> 0" using eq user.eq_sym [OF g(1,3)] by simp
  show "ucmp (ukey es h) (ukey es i) = 0"
    using user.le_trans [OF g(2,3,1) 1(2) 2] 1(1) user.gt_iff [OF g(2,1)] by (cases "ucmp (ukey es h) (ukey es i)" "0 :: int" rule: linorder_cases) auto
  show "ucmp (ukey es i) (ukey es k) = 0"
    using user.le_trans [OF g(3,1,2) 2 1(1)] 1(2) user.gt_iff [OF g(3,2)] by (cases "ucmp (ukey es i) (ukey es k)" "0 :: int" rule: linorder_cases) auto
qed

lemma parsed:
  assumes "internal_ok ucmp ugood es" and "i < length es"
  shows "ParseInternalKey (fst (es ! i)) =
    Some \<lparr>pk_user_key = ukey es i, pk_sequence = drop_bit 8 (key_num (fst (es ! i))), pk_type = ExtractValueType (fst (es ! i))\<rparr>"
proof -
  have "8 \<le> length (fst (es ! i))" "ExtractValueType (fst (es ! i)) \<le> kTypeValue"
    using assms by (auto simp: internal_ok_def valid_ikey_def)
  then show ?thesis by (simp add: ParseInternalKey_def Let_def ExtractValueType_def ukey_def ExtractUserKey_def)
qed

lemma entry_type: "internal_ok ucmp ugood es \<Longrightarrow> i < length es \<Longrightarrow>
  ExtractValueType (fst (es ! i)) = kTypeDeletion \<or> ExtractValueType (fst (es ! i)) = kTypeValue"
proof -
  assume "internal_ok ucmp ugood es" "i < length es"
  then have "ExtractValueType (fst (es ! i)) \<le> 1" by (auto simp: internal_ok_def kTypeValue_def)
  then have "unat (ExtractValueType (fst (es ! i))) \<le> 1" by (simp add: word_le_nat_alt)
  then show ?thesis by (auto simp: kTypeValue_def kTypeDeletion_def le_Suc_eq word_unat_eq_iff)
qed

lemma ParseKey_rep:
  assumes es: "internal_ok ucmp ugood es" and r: "rep (dbi_iter d) es (Some i)" and d: "db_state s d"
  shows "\<exists>rnd c smp. ParseKey ops d =
      Some (Some \<lparr>pk_user_key = ukey es i, pk_sequence = drop_bit 8 (key_num (fst (es ! i))), pk_type = ExtractValueType (fst (es ! i))\<rparr>,
            d\<lparr>dbi_rnd := rnd, bytes_counter := c, read_samples := smp\<rparr>) \<and>
      db_state s (d\<lparr>dbi_rnd := rnd, bytes_counter := c, read_samples := smp\<rparr>)"
proof -
  have i: "i < length es" "it_key ops (dbi_iter d) = Some (fst (es ! i))" "it_value ops (dbi_iter d) = Some (snd (es ! i))"
    using inner.at_some [OF r] by auto
  obtain rnd c smp where "sample_loop (fst (es ! i)) (dbi_rnd d) (bytes_counter d - int (length (fst (es ! i)) + length (snd (es ! i)))) (read_samples d) =
      Some (rnd, c, smp)" "seed_ok rnd"
    using sample_loop_ends d unfolding db_state_def by blast
  then show ?thesis using i parsed [OF es i(1)] d by (auto simp: ParseKey_def db_state_def Let_def)
qed

subsection \<open>Searching forward\<close>

text \<open>
  The state of the loop at index \<open>i\<close>: \<open>skip\<close> is set when entries are to be skipped.  Visible entries before
  \<open>i\<close> hide the later ones of their key, and no visible entry from \<open>i\<close> on has a key below \<open>skip\<close>.
\<close>

definition hidden :: "slice option \<Rightarrow> kv list \<Rightarrow> nat \<Rightarrow> bool" where
  "hidden skip es k \<longleftrightarrow> (case skip of None \<Rightarrow> False | Some t \<Rightarrow> ucmp (ukey es k) t \<le> 0)"

definition search :: "kv list \<Rightarrow> nat \<Rightarrow> slice option \<Rightarrow> bool" where
  "search es i skip \<longleftrightarrow>
     (\<forall>k h. i \<le> k \<and> k < length es \<and> h < i \<and> visible s es h \<and> ucmp (ukey es h) (ukey es k) = 0 \<longrightarrow> hidden skip es k) \<and>
     (\<forall>t. skip = Some t \<longrightarrow> ugood t \<and> (\<forall>k. i \<le> k \<and> k < length es \<and> visible s es k \<longrightarrow> \<not> ucmp (ukey es k) t < 0))"

lemma search_step:
  assumes es: "internal_ok ucmp ugood es" and i: "i < length es" and S: "search es i skip"
  shows "\<not> visible s es i \<Longrightarrow> search es (Suc i) skip"
    and "visible s es i \<Longrightarrow> search es (Suc i) (Some (ukey es i))"
    and "visible s es i \<Longrightarrow> hidden skip es i \<Longrightarrow> search es (Suc i) skip"
    and "visible s es i \<Longrightarrow> ExtractValueType (fst (es ! i)) = kTypeValue \<Longrightarrow> \<not> hidden skip es i \<Longrightarrow> live ucmp s es i"
proof -
  have hid: "hidden skip es k" if "i \<le> k" "k < length es" "h < i" "visible s es h" "ucmp (ukey es h) (ukey es k) = 0" for k h
    using S that unfolding search_def by blast
  have low: "ugood t" "i \<le> k \<Longrightarrow> k < length es \<Longrightarrow> visible s es k \<Longrightarrow> \<not> ucmp (ukey es k) t < 0" if "skip = Some t" for t k
    using S that unfolding search_def by blast+
  show "search es (Suc i) skip" if "\<not> visible s es i"
    unfolding search_def
  proof (intro conjI allI impI; (elim conjE)?)
    fix k h assume "Suc i \<le> k" "k < length es" "h < Suc i" "visible s es h" "ucmp (ukey es h) (ukey es k) = 0"
    then show "hidden skip es k" using hid [of k h] that by (cases "h = i") auto
  qed (use low in auto)
  show "search es (Suc i) (Some (ukey es i))" if v: "visible s es i"
    unfolding search_def
  proof (intro conjI allI impI; (elim conjE)?)
    fix k h assume k: "Suc i \<le> k" "k < length es" "h < Suc i" and "visible s es h" and eq: "ucmp (ukey es h) (ukey es k) = 0"
    have "ucmp (ukey es i) (ukey es k) = 0" using ukey_between [OF es _ _ k(2) eq, of i] k by simp
    then show "hidden (Some (ukey es i)) es k"
      using user.eq_sym [of "ukey es i" "ukey es k"] ukey_good [OF es] i k by (simp add: hidden_def)
  next
    fix t assume t: "Some (ukey es i) = Some t"
    then show "ugood t" using ukey_good [OF es i] by simp
    fix k assume k: "Suc i \<le> k" "k < length es"
    then show "\<not> ucmp (ukey es k) t < 0"
      using ukey_mono [OF es _ k(2), of i] user.not_less [of "ukey es k" "ukey es i"] ukey_good [OF es] i t by auto
  qed
  show "search es (Suc i) skip" if v: "visible s es i" and h: "hidden skip es i"
    unfolding search_def
  proof (intro conjI allI impI; (elim conjE)?)
    fix k h' assume k: "Suc i \<le> k" "k < length es" "h' < Suc i" "visible s es h'" "ucmp (ukey es h') (ukey es k) = 0"
    show "hidden skip es k"
    proof (cases "h' = i")
      case True
      obtain t where t: "skip = Some t" "ucmp (ukey es i) t \<le> 0" using h by (auto simp: hidden_def split: option.splits)
      have g: "ugood (ukey es k)" "ugood (ukey es i)" "ugood t" using ukey_good [OF es] i k low(1) [OF t(1)] by auto
      have "ucmp (ukey es k) (ukey es i) \<le> 0" using k(5) True user.eq_sym [OF g(2,1)] by simp
      then have "ucmp (ukey es k) t \<le> 0" using user.le_trans [OF g] t(2) by simp
      then show ?thesis using t by (simp add: hidden_def)
    qed (use k hid [of k h'] in auto)
  qed (use low in auto)
  show "live ucmp s es i" if "visible s es i" "ExtractValueType (fst (es ! i)) = kTypeValue" "\<not> hidden skip es i"
    using that hid [of i] i by (auto simp: live_def)
qed

lemma search_live:
  assumes es: "internal_ok ucmp ugood es" and i: "i < length es" and S: "search es i skip" and v: "visible s es i"
    and k: "Suc i \<le> k" "k < length es" "live ucmp s es k"
  shows "\<not> hidden skip es k" and "\<not> hidden (Some (ukey es i)) es k"
proof -
  have ne: "ucmp (ukey es i) (ukey es k) \<noteq> 0" using k v by (auto simp: live_def)
  have g: "ugood (ukey es i)" "ugood (ukey es k)" using ukey_good [OF es] i k by auto
  have lt: "ucmp (ukey es i) (ukey es k) < 0" using ne ukey_mono [OF es _ k(2), of i] k(1) by simp
  then have gt: "\<not> ucmp (ukey es k) (ukey es i) \<le> 0" using user.gt_iff [OF g(2,1)] by simp
  then show "\<not> hidden (Some (ukey es i)) es k" by (simp add: hidden_def)
  show "\<not> hidden skip es k"
  proof
    assume "hidden skip es k"
    then obtain t where t: "skip = Some t" "ucmp (ukey es k) t \<le> 0" by (auto simp: hidden_def split: option.splits)
    have tg: "ugood t" "\<not> ucmp (ukey es i) t < 0" using S t i v unfolding search_def by auto
    then have "ucmp t (ukey es i) \<le> 0" using user.not_less [OF g(1)] by simp
    then show False using user.le_trans [OF g(2) tg(1) g(1) t(2)] gt by simp
  qed
qed

lemma next_entry_visible:
  assumes "db_state s d" and "p = Some \<lparr>pk_user_key = ukey es i, pk_sequence = drop_bit 8 (key_num (fst (es ! i))), pk_type = ty\<rparr>"
    and "hidden skip es i \<longleftrightarrow> skipping \<and> ucmp (ukey es i) (saved_key d) \<le> 0"
  shows "next_entry ucmp p skipping d =
    (if \<not> visible s es i then (False, skipping, d)
     else if ty = kTypeDeletion then (False, True, d\<lparr>saved_key := ukey es i\<rparr>)
     else if hidden skip es i then (False, skipping, d) else (True, skipping, d))"
  using assms by (simp add: next_entry_def visible_def db_state_def)

text \<open>The next live entry that is not skipped, from index \<open>i\<close> on; \<open>length es\<close> when there is none.\<close>

definition next_live :: "kv list \<Rightarrow> nat \<Rightarrow> slice option \<Rightarrow> nat \<Rightarrow> bool" where
  "next_live es i skip j \<longleftrightarrow> i \<le> j \<and> j \<le> length es \<and> (\<forall>k. i \<le> k \<and> k < j \<longrightarrow> \<not> (live ucmp s es k \<and> \<not> hidden skip es k)) \<and>
     (j < length es \<longrightarrow> live ucmp s es j \<and> \<not> hidden skip es j)"

lemma find_next_rep:
  assumes es: "internal_ok ucmp ugood es"
  shows "rep (dbi_iter d) es (Some i) \<Longrightarrow> db_state s d \<Longrightarrow> dbi_direction d = kForward \<Longrightarrow>
    search es i (if skipping then Some (saved_key d) else None) \<Longrightarrow>
    \<exists>d' j. find_next ops ucmp skipping d = Some d' \<and> next_live es i (if skipping then Some (saved_key d) else None) j \<and>
      db_state s d' \<and> dbi_direction d' = kForward \<and> db_at ucmp s rep es d' j"
proof (induction "length es - i" arbitrary: i d skipping rule: less_induct)
  case less
  define skip where "skip = (if skipping then Some (saved_key d) else None)"
  let ?goal = "\<exists>d' j. find_next ops ucmp skipping d = Some d' \<and> next_live es i skip j \<and>
      db_state s d' \<and> dbi_direction d' = kForward \<and> db_at ucmp s rep es d' j"
  note S = less.prems(4) [folded skip_def]
  have i: "i < length es" using inner.at_some [OF less.prems(1)] by simp
  obtain rnd c smp where P: "ParseKey ops d = Some (Some \<lparr>pk_user_key = ukey es i,
        pk_sequence = drop_bit 8 (key_num (fst (es ! i))), pk_type = ExtractValueType (fst (es ! i))\<rparr>,
        d\<lparr>dbi_rnd := rnd, bytes_counter := c, read_samples := smp\<rparr>)"
      and st: "db_state s (d\<lparr>dbi_rnd := rnd, bytes_counter := c, read_samples := smp\<rparr>)"
    using ParseKey_rep [OF es less.prems(1,2)] by blast
  define d1 where "d1 = d\<lparr>dbi_rnd := rnd, bytes_counter := c, read_samples := smp\<rparr>"
  have d1: "db_state s d1" "dbi_iter d1 = dbi_iter d" "dbi_direction d1 = kForward" "saved_key d1 = saved_key d"
    using st less.prems(3) by (simp_all add: d1_def)
  have ne: "next_entry ucmp (Some \<lparr>pk_user_key = ukey es i, pk_sequence = drop_bit 8 (key_num (fst (es ! i))),
        pk_type = ExtractValueType (fst (es ! i))\<rparr>) skipping d1 =
    (if \<not> visible s es i then (False, skipping, d1)
     else if ExtractValueType (fst (es ! i)) = kTypeDeletion then (False, True, d1\<lparr>saved_key := ukey es i\<rparr>)
     else if hidden skip es i then (False, skipping, d1) else (True, skipping, d1))"
    by (rule next_entry_visible [OF d1(1) refl]) (simp add: hidden_def d1 skip_def)
  obtain it where it: "it_Next ops (dbi_iter d) = Some it" "rep it es (entry_pos es (Suc i))"
    using inner.step [OF less.prems(1)] by blast
  note step = search_step [OF es i S] and sl = search_live [OF es i S]
  text \<open>The loop goes on with the next entry.\<close>
  have go: ?goal
    if ent: "next_entry ucmp (Some \<lparr>pk_user_key = ukey es i, pk_sequence = drop_bit 8 (key_num (fst (es ! i))),
        pk_type = ExtractValueType (fst (es ! i))\<rparr>) skipping d1 = (False, sk, d2)"
      and d2: "db_state s d2" "dbi_iter d2 = dbi_iter d" "dbi_direction d2 = kForward"
      and S': "search es (Suc i) (if sk then Some (saved_key d2) else None)"
      and nl: "\<not> (live ucmp s es i \<and> \<not> hidden skip es i)"
      and same: "\<And>k. Suc i \<le> k \<Longrightarrow> k < length es \<Longrightarrow> live ucmp s es k \<Longrightarrow>
        hidden (if sk then Some (saved_key d2) else None) es k = hidden skip es k" for sk d2
  proof -
    have unf: "find_next ops ucmp skipping d = (if it_Valid ops it then find_next ops ucmp sk (d2\<lparr>dbi_iter := it\<rparr>)
        else Some (d2\<lparr>dbi_iter := it, saved_key := [], dbi_valid := False\<rparr>))"
      using P ent it(1) d2(2) by (simp add: find_next.simps [of _ _ _ d] d1_def [symmetric])
    show ?thesis
    proof (cases "Suc i < length es")
      case True
      then have r: "rep it es (Some (Suc i))" using it(2) by (simp add: entry_pos_def)
      then have v: "it_Valid ops it" using inner.at_some by blast
      have "length es - Suc i < length es - i" using i by simp
      moreover have e: "saved_key (d2\<lparr>dbi_iter := it\<rparr>) = saved_key d2" "dbi_iter (d2\<lparr>dbi_iter := it\<rparr>) = it"
        "dbi_direction (d2\<lparr>dbi_iter := it\<rparr>) = kForward" "db_state s (d2\<lparr>dbi_iter := it\<rparr>)" using d2 by (simp_all add: db_state_def)
      ultimately
      obtain d' j where D: "find_next ops ucmp sk (d2\<lparr>dbi_iter := it\<rparr>) = Some d'" "next_live es (Suc i) (if sk then Some (saved_key d2) else None) j"
        "db_state s d' \<and> dbi_direction d' = kForward \<and> db_at ucmp s rep es d' j"
        using less.hyps [of "Suc i" "d2\<lparr>dbi_iter := it\<rparr>" sk, unfolded e] r S' by blast
      have "next_live es i skip j"
      proof -
        note n = D(2) [unfolded next_live_def]
        have "\<not> (live ucmp s es k \<and> \<not> hidden skip es k)" if "i \<le> k" "k < j" for k
          using n that nl same [of k] by (cases "k = i") auto
        moreover have "j < length es \<longrightarrow> live ucmp s es j \<and> \<not> hidden skip es j" using n same [of j] by auto
        ultimately show ?thesis using n by (simp add: next_live_def)
      qed
      then show ?thesis using unf v D by (intro exI [of _ d'] exI [of _ j]) simp
    next
      case False
      then have r: "rep it es None" and n: "length es = Suc i" using it(2) i by (simp_all add: entry_pos_def)
      then have v: "\<not> it_Valid ops it" using inner.at_none by blast
      have "next_live es i skip (length es)" using nl n by (auto simp: next_live_def less_Suc_eq_le)
      moreover have "db_at ucmp s rep es (d2\<lparr>dbi_iter := it, saved_key := [], dbi_valid := False\<rparr>) (length es)"
        using r by (auto simp: db_at_def)
      ultimately show ?thesis using unf v d2 by (auto simp: db_state_def)
    qed
  qed
  have sk: "(if skipping then Some (saved_key d1) else None) = skip" by (simp add: skip_def d1)
  have ?goal
  proof (cases "visible s es i")
    case False
    show ?thesis
      by (rule go [of skipping d1, unfolded sk]) (use False ne d1 step(1) in \<open>simp_all add: live_def\<close>)
  next
    case vis: True
    show ?thesis
    proof (cases "ExtractValueType (fst (es ! i)) = kTypeDeletion")
      case True
      then have "\<not> live ucmp s es i" by (simp add: live_def kTypeDeletion_def kTypeValue_def)
      then show ?thesis
        using go [of True "d1\<lparr>saved_key := ukey es i\<rparr>"] ne vis True d1 step(2) [OF vis] sl [OF vis] by (simp add: db_state_def)
    next
      case False
      then have ty: "ExtractValueType (fst (es ! i)) = kTypeValue" using entry_type [OF es i] by blast
      show ?thesis
      proof (cases "hidden skip es i")
        case True
        show ?thesis
          by (rule go [of skipping d1, unfolded sk]) (use True ne vis False d1 step(3) [OF vis True] in simp_all)
      next
        case nh: False
        have lv: "live ucmp s es i" using step(4) [OF vis ty nh] .
        have "find_next ops ucmp skipping d = Some (d1\<lparr>dbi_valid := True, saved_key := []\<rparr>)"
          using P ne vis False nh by (simp add: find_next.simps [of _ _ _ d] d1_def [symmetric])
        moreover have "next_live es i skip i" using lv nh i by (auto simp: next_live_def)
        moreover have "db_at ucmp s rep es (d1\<lparr>dbi_valid := True, saved_key := []\<rparr>) i"
          using lv i less.prems(1) d1 by (simp add: db_at_def)
        ultimately show ?thesis using d1 by (auto simp: db_state_def)
      qed
    qed
  qed
  then show ?case by (simp only: skip_def)
qed

lemma FindNext_rep:
  assumes es: "internal_ok ucmp ugood es" and r: "rep (dbi_iter d) es (Some i)" and d: "db_state s d" "dbi_direction d = kForward"
    and S: "search es i (if skipping then Some (saved_key d) else None)"
  shows "\<exists>d' j. FindNextUserEntry ops ucmp skipping d = Some d' \<and> next_live es i (if skipping then Some (saved_key d) else None) j \<and>
      db_state s d' \<and> db_at ucmp s rep es d' j"
  using find_next_rep [OF es r d S] inner.at_some [OF r] d(2) by (auto simp: FindNextUserEntry_def)

lemma db_repI:
  "internal_ok ucmp ugood es \<Longrightarrow> db_state s d \<Longrightarrow> db_at ucmp s rep es d j \<Longrightarrow> j \<le> length es \<Longrightarrow>
   pos = entry_pos (db_view ucmp s es) (rank (live ucmp s es) j) \<Longrightarrow> db_rep ucmp ugood s rep d (db_view ucmp s es) pos"
  by (auto simp: db_rep_def)

lemma db_at_rep: "db_at ucmp s rep es d j \<Longrightarrow> \<exists>q. rep (dbi_iter d) es q"
  by (cases "dbi_direction d") (auto simp: db_at_def split: if_splits)

lemma next_live_rank:
  assumes "next_live es i None j"
  shows "rank (live ucmp s es) j = rank (live ucmp s es) i" and "j \<le> length es"
  using assms by (auto simp: next_live_def hidden_def intro!: rank_same)

lemma DBIter_SeekToFirst_rep:
  assumes r: "db_rep ucmp ugood s rep d vs pos"
  shows "\<exists>d'. DBIter_SeekToFirst ops ucmp d = Some d' \<and> db_rep ucmp ugood s rep d' vs (entry_pos vs 0)"
proof -
  obtain es j where es: "internal_ok ucmp ugood es" "vs = db_view ucmp s es" "db_state s d" "db_at ucmp s rep es d j"
    using r by (auto simp: db_rep_def)
  obtain q where q: "rep (dbi_iter d) es q" using db_at_rep [OF es(4)] by blast
  obtain it where it: "it_SeekToFirst ops (dbi_iter d) = Some it" "rep it es (entry_pos es 0)" using inner.to_first [OF q] by blast
  define d1 where "d1 = (ClearSavedValue (d\<lparr>dbi_direction := kForward\<rparr>))\<lparr>dbi_iter := it\<rparr>"
  have d1: "db_state s d1" "dbi_direction d1 = kForward" "dbi_iter d1 = it" using es(3) by (simp_all add: d1_def db_state_def ClearSavedValue_def)
  have eq: "DBIter_SeekToFirst ops ucmp d = (if it_Valid ops it then FindNextUserEntry ops ucmp False d1 else Some (d1\<lparr>dbi_valid := False\<rparr>))"
    using it(1) by (simp add: DBIter_SeekToFirst_def d1_def Let_def ClearSavedValue_def)
  show ?thesis
  proof (cases "es = []")
    case True
    then have "rep it es None" using it(2) by (simp add: entry_pos_def)
    then have "\<not> it_Valid ops it" and "db_at ucmp s rep es (d1\<lparr>dbi_valid := False\<rparr>) 0"
      using inner.at_none True d1 by (auto simp: db_at_def)
    then show ?thesis using eq es d1 db_repI [of es "d1\<lparr>dbi_valid := False\<rparr>" 0] by (simp add: db_state_def)
  next
    case False
    then have r0: "rep (dbi_iter d1) es (Some 0)" using it(2) d1 by (simp add: entry_pos_def)
    have "search es 0 None" by (simp add: search_def)
    then obtain d' j where d': "FindNextUserEntry ops ucmp False d1 = Some d'" "next_live es 0 None j" "db_state s d'" "db_at ucmp s rep es d' j"
      using FindNext_rep [OF es(1) r0 d1(1,2), of False] by auto
    have "it_Valid ops it" using inner.at_some [OF r0] d1 by simp
    then show ?thesis using eq d' es db_repI [OF es(1) d'(3,4)] next_live_rank [OF d'(2)] by simp
  qed
qed

lemma seek_key: "AppendInternalKey [] \<lparr>pk_user_key = t, pk_sequence = s, pk_type = kValueTypeForSeek\<rparr> = InternalKey_new t s kValueTypeForSeek"
  by (simp add: InternalKey_new_def)

lemma visible_num:
  assumes es: "internal_ok ucmp ugood es" and i: "i < length es" and v: "visible s es i"
  shows "key_num (fst (es ! i)) \<le> PackSequenceAndType s kValueTypeForSeek"
proof -
  let ?n = "key_num (fst (es ! i))"
  have t: "ucast (?n AND 0xFF) \<le> kTypeValue" using es i by (auto simp: internal_ok_def ExtractValueType_def)
  have m: "drop_bit 8 ?n \<le> kMaxSequenceNumber" using v seq by (simp add: visible_def)
  have "unat ?n = unat (drop_bit 8 ?n) * 256 + unat (ucast (?n AND 0xFF) :: u8)" using unpack(3) [OF m] by (metis repack)
  also have "\<dots> \<le> unat s * 256 + unat kTypeValue" using t v by (simp add: visible_def word_le_nat_alt add_mono)
  also have "\<dots> = unat (PackSequenceAndType s kValueTypeForSeek)" using unpack(3) [OF seq] by (simp add: kValueTypeForSeek_def)
  finally show ?thesis by (simp add: word_le_nat_alt)
qed

text \<open>Where \<open>Seek\<close> puts the internal iterator.\<close>

lemma seek_internal:
  assumes es: "internal_ok ucmp ugood es" and t: "ugood t"
  defines "i \<equiv> seek_pos (InternalKeyCompare ucmp) es (InternalKey_new t s kValueTypeForSeek)"
  shows "h < i \<Longrightarrow> visible s es h \<Longrightarrow> ucmp (ukey es h) t < 0" and "i \<le> k \<Longrightarrow> k < length es \<Longrightarrow> \<not> ucmp (ukey es k) t < 0"
proof -
  let ?K = "InternalKey_new t s kValueTypeForSeek"
  have il: "i \<le> length es" unfolding i_def by (rule seek_pos_le)
  show "ucmp (ukey es h) t < 0" if h: "h < i" "visible s es h"
  proof -
    have "InternalKeyCompare ucmp (fst (es ! h)) ?K < 0" using h(1) unfolding i_def by (rule seek_pos_less)
    then show ?thesis using visible_num [OF es _ h(2)] h(1) il by (auto simp: InternalKeyCompare_sign ukey_def)
  qed
  show "\<not> ucmp (ukey es k) t < 0" if k: "i \<le> k" "k < length es"
  proof -
    have "\<not> InternalKeyCompare ucmp (fst (es ! i)) ?K < 0" using seek_pos_at [of "InternalKeyCompare ucmp" es ?K] k unfolding i_def by simp
    then have "\<not> ucmp (ukey es i) t < 0" by (auto simp: InternalKeyCompare_sign ukey_def)
    moreover have g: "ugood (ukey es i)" "ugood (ukey es k)" using ukey_good [OF es] k by auto
    ultimately have "ucmp t (ukey es i) \<le> 0" using user.not_less [OF g(1) t] by simp
    then have "ucmp t (ukey es k) \<le> 0" using user.le_trans [OF t g] ukey_mono [OF es k] by simp
    then show ?thesis using user.not_less [OF g(2) t] by simp
  qed
qed

lemma seek_view:
  assumes es: "internal_ok ucmp ugood es" and t: "ugood t"
  defines "i \<equiv> seek_pos (InternalKeyCompare ucmp) es (InternalKey_new t s kValueTypeForSeek)"
  shows "seek_pos ucmp (db_view ucmp s es) t = rank (live ucmp s es) i"
proof -
  let ?v = "db_view ucmp s es" and ?L = "live ucmp s es"
  have il: "i \<le> length es" unfolding i_def by (rule seek_pos_le)
  have le: "rank ?L i \<le> length ?v" using rank_mono [OF il, of ?L] by (simp add: length_db_view)
  have nth: "\<exists>h<length es. ?L h \<and> rank ?L h = p \<and> fst (?v ! p) = ukey es h" if p: "p < length ?v" for p
  proof -
    obtain h where h: "h < length es" "?L h" "rank ?L h = p" using filter_index [of p ?L "length es"] p by (auto simp: db_view_def)
    then show ?thesis using db_view_nth [OF h(1,2)] by auto
  qed
  have "takeWhile (\<lambda>e. ucmp (fst e) t < 0) ?v = take (rank ?L i) ?v"
  proof (rule takeWhile_eq_take_P_nth)
    fix p assume p: "p < rank ?L i" "p < length ?v"
    then obtain h where h: "h < length es" "?L h" "rank ?L h = p" "fst (?v ! p) = ukey es h" using nth by blast
    then have "h < i" using rank_mono [of i h ?L] p(1) by (meson leI not_le)
    then show "ucmp (fst (?v ! p)) t < 0" using seek_internal(1) [OF es t, of h] h by (auto simp: i_def live_def)
  next
    assume "rank ?L i < length ?v"
    then obtain h where h: "h < length es" "?L h" "rank ?L h = rank ?L i" "fst (?v ! rank ?L i) = ukey es h" using nth by blast
    have "i \<le> h"
    proof (rule ccontr)
      assume "\<not> i \<le> h"
      then have "rank ?L (Suc h) \<le> rank ?L i" by (intro rank_mono) simp
      then show False using h by (simp add: rank_Suc)
    qed
    then show "\<not> ucmp (fst (?v ! rank ?L i)) t < 0" using seek_internal(2) [OF es t, of h] h by (auto simp: i_def)
  qed
  then show ?thesis using le by (simp add: seek_pos_def [of ucmp ?v])
qed

lemma search_seek:
  assumes es: "internal_ok ucmp ugood es" and t: "ugood t"
  shows "search es (seek_pos (InternalKeyCompare ucmp) es (InternalKey_new t s kValueTypeForSeek)) None"
  unfolding search_def
proof (intro conjI allI impI; (elim conjE)?)
  fix k h assume k: "seek_pos (InternalKeyCompare ucmp) es (InternalKey_new t s kValueTypeForSeek) \<le> k" "k < length es"
    and h: "h < seek_pos (InternalKeyCompare ucmp) es (InternalKey_new t s kValueTypeForSeek)" "visible s es h" "ucmp (ukey es h) (ukey es k) = 0"
  have "ucmp (ukey es h) t < 0" "\<not> ucmp (ukey es k) t < 0" using seek_internal [OF es t] k h by auto
  moreover have g: "ugood (ukey es h)" "ugood (ukey es k)" using ukey_good [OF es] k h by auto
  moreover have "ucmp (ukey es k) (ukey es h) \<le> 0" using h(3) user.eq_sym [OF g] by simp
  ultimately show "hidden None es k" using user.le_less_trans [OF g(2,1) t] by simp
qed simp_all

lemma DBIter_Seek_rep:
  assumes r: "db_rep ucmp ugood s rep d vs pos" and t: "ugood t"
  shows "\<exists>d'. DBIter_Seek ops ucmp t d = Some d' \<and> db_rep ucmp ugood s rep d' vs (entry_pos vs (seek_pos ucmp vs t))"
proof -
  let ?K = "InternalKey_new t s kValueTypeForSeek"
  obtain es j where es: "internal_ok ucmp ugood es" "vs = db_view ucmp s es" "db_state s d" "db_at ucmp s rep es d j"
    using r by (auto simp: db_rep_def)
  define i where "i = seek_pos (InternalKeyCompare ucmp) es ?K"
  have il: "i \<le> length es" unfolding i_def by (rule seek_pos_le)
  have pos: "seek_pos ucmp vs t = rank (live ucmp s es) i" using seek_view [OF es(1) t] es(2) by (simp add: i_def)
  obtain q where q: "rep (dbi_iter d) es q" using db_at_rep [OF es(4)] by blast
  have "valid_ikey ugood ?K" using t by simp
  then obtain it where it: "it_Seek ops ?K (dbi_iter d) = Some it" "rep it es (entry_pos es i)"
    using inner.to_target [OF q] unfolding i_def by blast
  define d1 where "d1 = d\<lparr>dbi_direction := kForward, saved_value := [], saved_key := ?K, dbi_iter := it\<rparr>"
  have d1: "db_state s d1" "dbi_direction d1 = kForward" "dbi_iter d1 = it" using es(3) by (simp_all add: d1_def db_state_def)
  have eq: "DBIter_Seek ops ucmp t d = (if it_Valid ops it then FindNextUserEntry ops ucmp False d1 else Some (d1\<lparr>dbi_valid := False\<rparr>))"
    using it(1) es(3) by (simp add: DBIter_Seek_def d1_def Let_def ClearSavedValue_def db_state_def seek_key)
  show ?thesis
  proof (cases "i < length es")
    case False
    then have "rep it es None" "i = length es" using it(2) il by (simp_all add: entry_pos_def)
    then have "\<not> it_Valid ops it" and "db_at ucmp s rep es (d1\<lparr>dbi_valid := False\<rparr>) i"
      using inner.at_none d1 by (auto simp: db_at_def)
    then show ?thesis using eq es d1 db_repI [of es "d1\<lparr>dbi_valid := False\<rparr>" i] pos il by (simp add: db_state_def)
  next
    case True
    then have r0: "rep (dbi_iter d1) es (Some i)" using it(2) d1 by (simp add: entry_pos_def)
    obtain d' j where d': "FindNextUserEntry ops ucmp False d1 = Some d'" "next_live es i None j" "db_state s d'" "db_at ucmp s rep es d' j"
      using FindNext_rep [OF es(1) r0 d1(1,2), of False] search_seek [OF es(1) t] by (auto simp: i_def)
    have "it_Valid ops it" using inner.at_some [OF r0] d1 by simp
    then show ?thesis using eq d' es(2) db_repI [OF es(1) d'(3,4)] next_live_rank [OF d'(2)] pos by simp
  qed
qed

lemma search_skip:
  assumes es: "internal_ok ucmp ugood es" and j: "j < length es" "live ucmp s es j"
    and b: "\<forall>h<length es. visible s es h \<and> i \<le> h \<longrightarrow> \<not> ucmp (ukey es h) (ukey es j) < 0" and i: "i \<le> j"
  shows "search es i (Some (ukey es j))"
  unfolding search_def
proof (intro conjI allI impI; (elim conjE)?)
  fix k h assume k: "i \<le> k" "k < length es" and h: "h < i" "visible s es h" "ucmp (ukey es h) (ukey es k) = 0"
  have g: "ugood (ukey es h)" "ugood (ukey es k)" "ugood (ukey es j)" using ukey_good [OF es] k h j by auto
  show "hidden (Some (ukey es j)) es k"
  proof (cases "k \<le> j")
    case True
    then show ?thesis using ukey_mono [OF es True j(1)] by (simp add: hidden_def)
  next
    case False
    then have "ucmp (ukey es h) (ukey es j) = 0" using ukey_between(1) [OF es _ _ k(2) h(3), of j] h(1) i by simp
    then show ?thesis using j(2) h i by (auto simp: live_def)
  qed
qed (use b j ukey_good [OF es j(1)] in auto)

text \<open>From a live entry the next one that is not skipped is the next live one.\<close>

lemma next_live_skip:
  assumes es: "internal_ok ucmp ugood es" and j: "j < length es" "live ucmp s es j" and i: "i \<le> j"
    and n: "next_live es i (Some (ukey es j)) j'"
  shows "rank (live ucmp s es) j' = Suc (rank (live ucmp s es) j)" and "j' \<le> length es"
proof -
  have hid: "hidden (Some (ukey es j)) es k" if "k \<le> j" for k
    using ukey_mono [OF es that j(1)] by (simp add: hidden_def)
  have vis: "\<not> hidden (Some (ukey es j)) es k" if k: "j < k" "k < length es" "live ucmp s es k" for k
  proof -
    have "ucmp (ukey es j) (ukey es k) \<noteq> 0" using k j by (auto simp: live_def)
    then have "ucmp (ukey es j) (ukey es k) < 0" using ukey_mono [OF es _ k(2), of j] k(1) by simp
    then show ?thesis using user.gt_iff [of "ukey es k" "ukey es j"] ukey_good [OF es] j k by (simp add: hidden_def)
  qed
  show "j' \<le> length es" using n by (simp add: next_live_def)
  have "j < j'"
  proof (rule ccontr)
    assume "\<not> j < j'"
    then show False using n hid [of j'] j by (simp add: next_live_def)
  qed
  moreover have "\<not> live ucmp s es k" if "j < k" "k < j'" for k
    using n that vis [of k] i by (auto simp: next_live_def)
  ultimately show "rank (live ucmp s es) j' = Suc (rank (live ucmp s es) j)" using rank_next [of j j' "live ucmp s es"] j(2) by auto
qed

lemma DBIter_Next_rep:
  assumes r: "db_rep ucmp ugood s rep d vs (Some p)"
  shows "\<exists>d'. DBIter_Next ops ucmp d = Some d' \<and> db_rep ucmp ugood s rep d' vs (entry_pos vs (Suc p))"
proof -
  obtain es j where es: "internal_ok ucmp ugood es" "vs = db_view ucmp s es" "db_state s d" "db_at ucmp s rep es d j"
    "j \<le> length es" "Some p = entry_pos vs (rank (live ucmp s es) j)" using r by (auto simp: db_rep_def)
  have j: "j < length es" using es by (cases "j = length es") (auto simp: entry_pos_def length_db_view)
  have p: "p = rank (live ucmp s es) j" using es(6) by (auto simp: entry_pos_def split: if_splits)
  have v: "dbi_valid d" "live ucmp s es j" using es(4) j by (auto simp: db_at_def)
  show ?thesis
  proof (cases "dbi_direction d")
    case kForward
    then have r0: "rep (dbi_iter d) es (Some j)" using es(4) j by (simp add: db_at_def)
    define d1 where "d1 = d\<lparr>saved_key := ukey es j\<rparr>"
    have d1: "db_state s d1" "dbi_direction d1 = kForward" "rep (dbi_iter d1) es (Some j)" "saved_key d1 = ukey es j"
      using es(3) kForward r0 by (simp_all add: d1_def db_state_def)
    have b: "\<forall>h<length es. visible s es h \<and> j \<le> h \<longrightarrow> \<not> ucmp (ukey es h) (ukey es j) < 0"
      using ukey_mono [OF es(1), of j] user.not_less ukey_good [OF es(1)] j by auto
    obtain d' j' where d': "FindNextUserEntry ops ucmp True d1 = Some d'" "next_live es j (Some (ukey es j)) j'" "db_state s d'" "db_at ucmp s rep es d' j'"
      using FindNext_rep [OF es(1) d1(3,1,2), of True] search_skip [OF es(1) j v(2) b] d1(4) by auto
    have "DBIter_Next ops ucmp d = Some d'"
      using d'(1) v(1) kForward inner.at_some [OF r0] by (simp add: DBIter_Next_def d1_def ukey_def)
    then show ?thesis using db_repI [OF es(1) d'(3,4)] next_live_skip [OF es(1) j v(2) _ d'(2)] es(2) p by simp
  next
    case kReverse
    then obtain q where q: "rep (dbi_iter d) es q" "before_key ucmp s es j q" "saved_key d = ukey es j" using es(4) j by (auto simp: db_at_def)
    define i where "i = (case q of None \<Rightarrow> 0 | Some q \<Rightarrow> Suc q)"
    have ij: "i \<le> j"
    proof (cases q)
      case (Some q')
      have lt: "ucmp (ukey es q') (ukey es j) < 0" using q(2) Some by (simp add: before_key_def)
      have "q' < length es" using inner.at_some q(1) Some by blast
      then have "\<not> j \<le> q'" using lt ukey_mono [OF es(1), of j q'] user.not_less [of "ukey es q'" "ukey es j"] ukey_good [OF es(1)] j by auto
      then show ?thesis using Some by (simp add: i_def)
    qed (simp add: i_def)
    obtain it where it: "(if \<not> it_Valid ops (dbi_iter d) then it_SeekToFirst ops (dbi_iter d) else it_Next ops (dbi_iter d)) = Some it"
      "rep it es (entry_pos es i)"
      using q(1) inner.to_first [of "dbi_iter d" es q] inner.step [of "dbi_iter d" es] inner.at_none [of "dbi_iter d" es] inner.at_some [of "dbi_iter d" es]
      by (cases q) (auto simp: i_def)
    define d1 where "d1 = d\<lparr>dbi_direction := kForward, dbi_iter := it\<rparr>"
    have ri: "rep it es (Some i)" using it(2) ij j by (simp add: entry_pos_def)
    have d1: "db_state s d1" "dbi_direction d1 = kForward" "rep (dbi_iter d1) es (Some i)" "saved_key d1 = ukey es j"
      using es(3) ri q(3) by (simp_all add: d1_def db_state_def)
    have b: "\<forall>h<length es. visible s es h \<and> i \<le> h \<longrightarrow> \<not> ucmp (ukey es h) (ukey es j) < 0"
      using q(2) by (auto simp: before_key_def i_def Suc_le_eq split: option.splits)
    obtain d' j' where d': "FindNextUserEntry ops ucmp True d1 = Some d'" "next_live es i (Some (ukey es j)) j'" "db_state s d'" "db_at ucmp s rep es d' j'"
      using FindNext_rep [OF es(1) d1(3,1,2), of True] search_skip [OF es(1) j v(2) b ij] d1(4) by auto
    have "DBIter_Next ops ucmp d = Some d'"
      using d'(1) v(1) kReverse it(1) inner.at_some [OF ri] by (simp add: DBIter_Next_def d1_def)
    then show ?thesis using db_repI [OF es(1) d'(3,4)] next_live_skip [OF es(1) j v(2) ij d'(2)] es(2) p by simp
  qed
qed

subsection \<open>Searching backward\<close>

text \<open>
  The loop has read the entries from \<open>m\<close> up to \<open>n\<close>: either none of them is live (\<open>value_type\<close> is a
  deletion), or the oldest visible one is a saved value and no later one is live.
\<close>

definition candidate :: "kv list \<Rightarrow> nat \<Rightarrow> 'i DBIter \<Rightarrow> nat \<Rightarrow> bool" where
  "candidate es n d c \<longleftrightarrow> c < n \<and> visible s es c \<and> ExtractValueType (fst (es ! c)) = kTypeValue \<and>
     saved_key d = ukey es c \<and> saved_value d = snd (es ! c) \<and> (\<forall>k. c < k \<and> k < n \<longrightarrow> \<not> live ucmp s es k)"

definition read_back :: "kv list \<Rightarrow> nat \<Rightarrow> nat \<Rightarrow> u8 \<Rightarrow> 'i DBIter \<Rightarrow> bool" where
  "read_back es n m ty d \<longleftrightarrow>
     (if ty = kTypeDeletion then \<forall>k. m \<le> k \<and> k < n \<longrightarrow> \<not> live ucmp s es k
      else \<exists>c. m \<le> c \<and> candidate es n d c \<and> (\<forall>k. m \<le> k \<and> k < c \<longrightarrow> \<not> visible s es k))"

definition went_back :: "kv list \<Rightarrow> nat \<Rightarrow> u8 \<Rightarrow> 'i DBIter \<Rightarrow> bool" where
  "went_back es n ty d \<longleftrightarrow>
     (\<exists>q. rep (dbi_iter d) es q \<and>
        (if ty = kTypeDeletion then \<forall>k<n. \<not> live ucmp s es k
         else \<exists>c. candidate es n d c \<and> live ucmp s es c \<and> before_key ucmp s es c q))"

lemma candidate_cong: "saved_key d' = saved_key d \<Longrightarrow> saved_value d' = saved_value d \<Longrightarrow> candidate es n d' c = candidate es n d c"
  by (simp add: candidate_def)

lemma read_back_cong: "saved_key d' = saved_key d \<Longrightarrow> saved_value d' = saved_value d \<Longrightarrow> read_back es n m ty d' = read_back es n m ty d"
  by (simp add: read_back_def candidate_def)

lemma ukey_from: "internal_ok ucmp ugood es \<Longrightarrow> i \<le> j \<Longrightarrow> j < length es \<Longrightarrow> \<not> ucmp (ukey es j) (ukey es i) < 0"
  using ukey_mono [of es i j] user.not_less [of "ukey es j" "ukey es i"] ukey_good [of es] by simp

lemma before_key_none:
  assumes es: "internal_ok ucmp ugood es" and c: "c < length es" "\<forall>k<c. \<not> visible s es k"
  shows "before_key ucmp s es c None"
  using ukey_from [OF es, of c] c by (auto simp: before_key_def) (metis not_less)

lemma read_back_end:
  assumes es: "internal_ok ucmp ugood es" and n: "n \<le> length es" and b: "read_back es n 0 ty d" and r: "rep (dbi_iter d) es None"
  shows "went_back es n ty d"
proof (cases "ty = kTypeDeletion")
  case False
  then obtain c where c: "candidate es n d c" "\<forall>k<c. \<not> visible s es k" using b by (auto simp: read_back_def)
  then have "live ucmp s es c" by (auto simp: candidate_def live_def)
  moreover have "before_key ucmp s es c None" using before_key_none [OF es _ c(2)] c(1) n by (simp add: candidate_def)
  ultimately show ?thesis using c(1) r False by (auto simp: went_back_def)
qed (use b r in \<open>auto simp: read_back_def went_back_def\<close>)

lemma read_back_break:
  assumes es: "internal_ok ucmp ugood es" and n: "n \<le> length es" and b: "read_back es n (Suc i) ty d" and r: "rep (dbi_iter d) es (Some i)"
    and ty: "ty \<noteq> kTypeDeletion" and lt: "ucmp (ukey es i) (saved_key d) < 0"
  shows "went_back es n ty d"
proof -
  obtain c where c: "Suc i \<le> c" "candidate es n d c" "\<forall>k. Suc i \<le> k \<and> k < c \<longrightarrow> \<not> visible s es k"
    using b ty by (auto simp: read_back_def)
  have cn: "c < length es" "saved_key d = ukey es c" using c(2) n by (simp_all add: candidate_def)
  have i: "i < length es" using c(1) cn by simp
  have low: "ucmp (ukey es h) (ukey es c) < 0" if "h \<le> i" for h
    using user.le_less_trans [OF _ _ _ ukey_mono [OF es that i]] lt ukey_good [OF es] that i cn by simp
  have "live ucmp s es c"
    using c low unfolding live_def candidate_def by (metis Suc_leI less_irrefl not_less)
  moreover have "before_key ucmp s es c (Some i)"
    unfolding before_key_def
  proof (intro conjI allI impI; (elim conjE)?)
    fix h assume h: "h < length es" "case Some i of None \<Rightarrow> True | Some i \<Rightarrow> i < h" "visible s es h"
    then have "c \<le> h" using c(3) by (auto simp: not_less [symmetric])
    then show "\<not> ucmp (ukey es h) (ukey es c) < 0" using ukey_from [OF es _ h(1)] by simp
  qed (use low in auto)
  ultimately show ?thesis using c(2) r ty by (auto simp: went_back_def)
qed

text \<open>Reading one more entry.\<close>

lemma read_back_step:
  assumes es: "internal_ok ucmp ugood es" and n: "i < n" "n \<le> length es" and b: "read_back es n (Suc i) ty d"
  shows "\<not> visible s es i \<Longrightarrow> read_back es n i ty d"
    and "visible s es i \<Longrightarrow> ty = kTypeDeletion \<or> \<not> ucmp (ukey es i) (saved_key d) < 0 \<Longrightarrow>
      ExtractValueType (fst (es ! i)) = kTypeDeletion \<Longrightarrow> read_back es n i kTypeDeletion d'"
    and "visible s es i \<Longrightarrow> ty = kTypeDeletion \<or> \<not> ucmp (ukey es i) (saved_key d) < 0 \<Longrightarrow>
      ExtractValueType (fst (es ! i)) = kTypeValue \<Longrightarrow> saved_key d' = ukey es i \<Longrightarrow> saved_value d' = snd (es ! i) \<Longrightarrow>
      read_back es n i kTypeValue d'"
proof -
  show "read_back es n i ty d" if v: "\<not> visible s es i"
  proof (cases "ty = kTypeDeletion")
    case True
    then show ?thesis using b v by (auto simp: read_back_def live_def) (metis Suc_leI le_eq_less_or_eq)
  next
    case False
    then obtain c where c: "Suc i \<le> c" "candidate es n d c" "\<forall>k. Suc i \<le> k \<and> k < c \<longrightarrow> \<not> visible s es k"
      using b by (auto simp: read_back_def)
    have "\<not> visible s es k" if "i \<le> k" "k < c" for k using c(3) v that by (cases "k = i") auto
    then show ?thesis using c False by (auto simp: read_back_def intro!: exI [of _ c])
  qed
  have dead: "\<not> live ucmp s es k" if v: "visible s es i" and le: "ty = kTypeDeletion \<or> \<not> ucmp (ukey es i) (saved_key d) < 0"
    and k: "i < k" "k < n" for k
  proof (cases "ty = kTypeDeletion")
    case True
    then show ?thesis using b k by (auto simp: read_back_def)
  next
    case False
    then obtain c where c: "Suc i \<le> c" "candidate es n d c" "\<forall>k. Suc i \<le> k \<and> k < c \<longrightarrow> \<not> visible s es k"
      using b by (auto simp: read_back_def)
    have "\<not> ucmp (ukey es i) (ukey es c) < 0" using le False c(2) by (simp add: candidate_def)
    then have "ucmp (ukey es i) (ukey es c) = 0" using ukey_mono [OF es, of i c] c n by (simp add: candidate_def)
    then have "\<not> live ucmp s es c" using v c(1) unfolding live_def by (metis Suc_le_lessD)
    then show ?thesis using c k by (cases k c rule: linorder_cases) (auto simp: candidate_def live_def)
  qed
  show "read_back es n i kTypeDeletion d'" if "visible s es i" "ty = kTypeDeletion \<or> \<not> ucmp (ukey es i) (saved_key d) < 0"
    "ExtractValueType (fst (es ! i)) = kTypeDeletion"
  proof -
    have "\<not> live ucmp s es k" if "i \<le> k" "k < n" for k
      using dead [of k] \<open>visible s es i\<close> \<open>ty = kTypeDeletion \<or> _\<close> \<open>ExtractValueType _ = _\<close> that
      by (cases "k = i") (auto simp: live_def kTypeDeletion_def kTypeValue_def)
    then show ?thesis by (simp add: read_back_def)
  qed
  show "read_back es n i kTypeValue d'" if "visible s es i" "ty = kTypeDeletion \<or> \<not> ucmp (ukey es i) (saved_key d) < 0"
    "ExtractValueType (fst (es ! i)) = kTypeValue" "saved_key d' = ukey es i" "saved_value d' = snd (es ! i)"
  proof -
    have "candidate es n d' i" using that dead n by (simp add: candidate_def)
    then show ?thesis by (auto simp: read_back_def kTypeDeletion_def kTypeValue_def intro!: exI [of _ i])
  qed
qed

lemma prev_entry_visible:
  assumes "db_state s d" and "it_key ops (dbi_iter d) = Some (fst (es ! i))" "it_value ops (dbi_iter d) = Some (snd (es ! i))"
  shows "prev_entry ops ucmp (Some \<lparr>pk_user_key = ukey es i, pk_sequence = drop_bit 8 (key_num (fst (es ! i))), pk_type = ty'\<rparr>) ty d =
    Some (if \<not> visible s es i then Some (ty, d)
          else if ty \<noteq> kTypeDeletion \<and> ucmp (ukey es i) (saved_key d) < 0 then None
          else if ty' = kTypeDeletion then Some (kTypeDeletion, d\<lparr>saved_key := [], saved_value := []\<rparr>)
          else Some (ty', d\<lparr>saved_key := ukey es i, saved_value := snd (es ! i)\<rparr>))"
  using assms by (simp add: prev_entry_def visible_def db_state_def ClearSavedValue_def ukey_def)

lemma find_prev_rep:
  assumes es: "internal_ok ucmp ugood es" and n: "n \<le> length es"
  shows "rep (dbi_iter d) es (Some i) \<Longrightarrow> i < n \<Longrightarrow> db_state s d \<Longrightarrow> dbi_direction d = kReverse \<Longrightarrow> read_back es n (Suc i) ty d \<Longrightarrow>
    \<exists>ty' d'. find_prev ops ucmp ty d = Some (ty', d') \<and> db_state s d' \<and> dbi_direction d' = kReverse \<and> went_back es n ty' d'"
proof (induction i arbitrary: d ty rule: less_induct)
  case (less i)
  let ?ty = "ExtractValueType (fst (es ! i))"
  let ?goal = "\<exists>ty' d'. find_prev ops ucmp ty d = Some (ty', d') \<and> db_state s d' \<and> dbi_direction d' = kReverse \<and> went_back es n ty' d'"
  note at = inner.at_some [OF less.prems(1)]
  obtain rnd c smp where P: "ParseKey ops d = Some (Some \<lparr>pk_user_key = ukey es i,
        pk_sequence = drop_bit 8 (key_num (fst (es ! i))), pk_type = ?ty\<rparr>, d\<lparr>dbi_rnd := rnd, bytes_counter := c, read_samples := smp\<rparr>)"
      and st: "db_state s (d\<lparr>dbi_rnd := rnd, bytes_counter := c, read_samples := smp\<rparr>)"
    using ParseKey_rep [OF es less.prems(1,3)] by blast
  define d1 where "d1 = d\<lparr>dbi_rnd := rnd, bytes_counter := c, read_samples := smp\<rparr>"
  have d1: "db_state s d1" "dbi_iter d1 = dbi_iter d" "dbi_direction d1 = kReverse" "saved_key d1 = saved_key d" "saved_value d1 = saved_value d"
    using st less.prems(4) by (simp_all add: d1_def)
  have b1: "read_back es n (Suc i) ty d1" using less.prems(5) read_back_cong [of d1 d] d1 by simp
  have pe: "prev_entry ops ucmp (Some \<lparr>pk_user_key = ukey es i, pk_sequence = drop_bit 8 (key_num (fst (es ! i))), pk_type = ?ty\<rparr>) ty d1 =
    Some (if \<not> visible s es i then Some (ty, d1)
          else if ty \<noteq> kTypeDeletion \<and> ucmp (ukey es i) (saved_key d) < 0 then None
          else if ?ty = kTypeDeletion then Some (kTypeDeletion, d1\<lparr>saved_key := [], saved_value := []\<rparr>)
          else Some (?ty, d1\<lparr>saved_key := ukey es i, saved_value := snd (es ! i)\<rparr>))"
    using prev_entry_visible [OF d1(1), of es i ?ty ty] d1 at by simp
  note unf = find_prev.simps [of ops ucmp ty d, unfolded P, folded d1_def, simplified, unfolded pe, simplified]
  obtain it where it: "it_Prev ops (dbi_iter d) = Some it" "rep it es (if i = 0 then None else Some (i - 1))"
    using inner.step_back [OF less.prems(1)] by blast
  text \<open>The loop goes on with the previous entry.\<close>
  have go: ?goal
    if eq: "find_prev ops ucmp ty d = (if it_Valid ops it then find_prev ops ucmp ty' (d2\<lparr>dbi_iter := it\<rparr>) else Some (ty', d2\<lparr>dbi_iter := it\<rparr>))"
      and d2: "db_state s d2" "dbi_direction d2 = kReverse" and b: "read_back es n i ty' d2" for ty' d2
  proof -
    have d3: "db_state s (d2\<lparr>dbi_iter := it\<rparr>)" "dbi_direction (d2\<lparr>dbi_iter := it\<rparr>) = kReverse" "read_back es n i ty' (d2\<lparr>dbi_iter := it\<rparr>)"
      using d2 b by (simp_all add: db_state_def read_back_cong [of "d2\<lparr>dbi_iter := it\<rparr>" d2])
    show ?thesis
    proof (cases i)
      case 0
      then have "rep it es None" using it(2) by simp
      then show ?thesis using eq d3 inner.at_none read_back_end [OF es n, of ty' "d2\<lparr>dbi_iter := it\<rparr>"] 0 by simp
    next
      case (Suc i')
      then have r: "rep it es (Some i')" using it(2) by simp
      then have "it_Valid ops it" using inner.at_some by blast
      then show ?thesis using eq less.IH [of i' "d2\<lparr>dbi_iter := it\<rparr>" ty'] d3 r Suc less.prems(2) by simp
    qed
  qed
  note step = read_back_step [OF es less.prems(2) n b1]
  show ?case
  proof (cases "visible s es i")
    case False
    then show ?thesis using unf it(1) d1 step(1) by (intro go [of ty d1]) simp_all
  next
    case v: True
    show ?thesis
    proof (cases "ty \<noteq> kTypeDeletion \<and> ucmp (ukey es i) (saved_key d) < 0")
      case True
      then have "find_prev ops ucmp ty d = Some (ty, d1)" using unf v by simp
      moreover have "went_back es n ty d1" using read_back_break [OF es n b1] less.prems(1) d1 True by simp
      ultimately show ?thesis using d1 by simp
    next
      case nb: False
      show ?thesis
      proof (cases "?ty = kTypeDeletion")
        case True
        then show ?thesis
          using unf v nb it(1) d1 step(2) by (intro go [of kTypeDeletion "d1\<lparr>saved_key := [], saved_value := []\<rparr>"]) (auto simp: db_state_def)
      next
        case False
        then have "?ty = kTypeValue" using entry_type [OF es, of i] at by simp
        then show ?thesis
          using unf v nb it(1) d1 step(3) False
          by (intro go [of kTypeValue "d1\<lparr>saved_key := ukey es i, saved_value := snd (es ! i)\<rparr>"]) (auto simp: db_state_def)
      qed
    qed
  qed
qed

text \<open>The index behind the internal iterator's position.\<close>

abbreviation behind :: "nat option \<Rightarrow> nat" where
  "behind q \<equiv> (case q of None \<Rightarrow> 0 | Some i \<Rightarrow> Suc i)"

lemma rep_behind: "rep it es q \<Longrightarrow> behind q \<le> length es"
  using inner.at_some [of it es] by (cases q) (auto simp: Suc_le_eq)

lemma FindPrev_rep:
  assumes es: "internal_ok ucmp ugood es" and r: "rep (dbi_iter d) es q" and d: "db_state s d" "dbi_direction d = kReverse"
  shows "\<exists>d'. FindPrevUserEntry ops ucmp d = Some d' \<and>
    db_rep ucmp ugood s rep d' (db_view ucmp s es)
      (if rank (live ucmp s es) (behind q) = 0 then None else Some (rank (live ucmp s es) (behind q) - 1))"
proof -
  let ?L = "live ucmp s es" and ?n = "behind q"
  define r1 where "r1 = (if it_Valid ops (dbi_iter d) then find_prev ops ucmp kTypeDeletion d else Some (kTypeDeletion, d))"
  have "\<exists>ty d1. r1 = Some (ty, d1) \<and> db_state s d1 \<and> dbi_direction d1 = kReverse \<and> went_back es ?n ty d1"
  proof (cases q)
    case None
    then show ?thesis using r d inner.at_none [of "dbi_iter d" es] by (auto simp: went_back_def r1_def)
  next
    case (Some i)
    then have r': "rep (dbi_iter d) es (Some i)" and n: "Suc i \<le> length es" using r rep_behind [OF r] by simp_all
    have "read_back es (Suc i) (Suc i) kTypeDeletion d" by (auto simp: read_back_def)
    then show ?thesis
      using find_prev_rep [OF es n r' _ d, of kTypeDeletion] inner.at_some [OF r'] Some by (simp add: r1_def)
  qed
  then obtain ty d1 where d1: "r1 = Some (ty, d1)" "db_state s d1" "dbi_direction d1 = kReverse" "went_back es ?n ty d1" by blast
  have eq: "FindPrevUserEntry ops ucmp d = Some
      (if ty = kTypeDeletion then d1\<lparr>dbi_valid := False, saved_key := [], saved_value := [], dbi_direction := kForward\<rparr> else d1\<lparr>dbi_valid := True\<rparr>)"
    using d1(1) d(2) unfolding FindPrevUserEntry_def r1_def [symmetric] by (simp add: ClearSavedValue_def)
  obtain q' where q': "rep (dbi_iter d1) es q'" using d1(4) by (auto simp: went_back_def)
  show ?thesis
  proof (cases "ty = kTypeDeletion")
    case True
    then have "\<forall>k. 0 \<le> k \<and> k < ?n \<longrightarrow> \<not> ?L k" using d1(4) by (auto simp: went_back_def)
    then have 0: "rank ?L ?n = 0" using rank_same [of 0 ?n ?L] by simp
    let ?d = "d1\<lparr>dbi_valid := False, saved_key := [], saved_value := [], dbi_direction := kForward\<rparr>"
    have "db_at ucmp s rep es ?d (length es)" "db_state s ?d" using q' d1(2) by (auto simp: db_at_def db_state_def)
    from db_repI [OF es this(2,1)] show ?thesis using eq True 0 by (simp add: entry_pos_def length_db_view)
  next
    case False
    then obtain c q' where c: "candidate es ?n d1 c" "?L c" "before_key ucmp s es c q'" "rep (dbi_iter d1) es q'"
      using d1(4) by (auto simp: went_back_def)
    have cn: "c < ?n" "c < length es" using c(1) rep_behind [OF r] by (simp_all add: candidate_def)
    have rk: "rank ?L ?n = Suc (rank ?L c)" using rank_next [OF cn(1), of ?L] c(1,2) by (simp add: candidate_def)
    have "db_at ucmp s rep es (d1\<lparr>dbi_valid := True\<rparr>) c" "db_state s (d1\<lparr>dbi_valid := True\<rparr>)"
      using c cn d1(2,3) by (auto simp: db_at_def db_state_def candidate_def)
    from db_repI [OF es this(2,1)] show ?thesis
      using eq False rk cn(2) db_view_nth [OF cn(2) c(2)] by (simp add: entry_pos_def)
  qed
qed

text \<open>Between the internal iterator and the current entry nothing is live.\<close>

lemma rank_behind:
  assumes es: "internal_ok ucmp ugood es" and r: "rep it es q" and b: "before_key ucmp s es j q" and j: "j < length es" "live ucmp s es j"
  shows "rank (live ucmp s es) (behind q) = rank (live ucmp s es) j"
proof -
  have "behind q \<le> j"
  proof (cases q)
    case (Some i)
    then show ?thesis
      using b ukey_from [OF es, of j i] inner.at_some [of it es i] r by (auto simp: before_key_def not_less [symmetric])
  qed simp
  moreover have "\<not> live ucmp s es k" if k: "behind q \<le> k" "k < j" for k
  proof
    assume l: "live ucmp s es k"
    have "(case q of None \<Rightarrow> True | Some i \<Rightarrow> i < k)" using k(1) by (cases q) simp_all
    then have "\<not> ucmp (ukey es k) (ukey es j) < 0" using b k(2) j(1) l by (simp add: before_key_def live_def)
    then have "ucmp (ukey es k) (ukey es j) = 0" using ukey_mono [OF es _ j(1), of k] k(2) by simp
    then show False using j(2) l k(2) by (auto simp: live_def)
  qed
  ultimately show ?thesis using rank_same [of "behind q" j "live ucmp s es"] by simp
qed

lemma leave_key_rep:
  assumes es: "internal_ok ucmp ugood es" and j: "j < length es"
  shows "rep it es (Some i) \<Longrightarrow> i \<le> j \<Longrightarrow> \<forall>k. i \<le> k \<and> k \<le> j \<longrightarrow> \<not> ucmp (ukey es k) (ukey es j) < 0 \<Longrightarrow>
    \<exists>it' q. leave_key ops ucmp (ukey es j) it = Some (q \<noteq> None, it') \<and> rep it' es q \<and> before_key ucmp s es j q"
proof (induction i arbitrary: it rule: less_induct)
  case (less i)
  obtain it' where it': "it_Prev ops it = Some it'" "rep it' es (if i = 0 then None else Some (i - 1))"
    using inner.step_back [OF less.prems(1)] by blast
  have above: "\<not> ucmp (ukey es h) (ukey es j) < 0" if "i \<le> h" "h < length es" for h
    using less.prems(3) ukey_from [OF es _ that(2), of j] that by (cases "h \<le> j") auto
  show ?case
  proof (cases i)
    case 0
    then have "rep it' es None" using it'(2) by simp
    then show ?thesis
      using it'(1) inner.at_none above 0 by (auto simp: leave_key.simps [of _ _ _ it] before_key_def intro!: exI [of _ None])
  next
    case (Suc i')
    then have r: "rep it' es (Some i')" using it'(2) by simp
    note at = inner.at_some [OF r]
    have unf: "leave_key ops ucmp (ukey es j) it =
        (if ucmp (ukey es i') (ukey es j) < 0 then Some (True, it') else leave_key ops ucmp (ukey es j) it')"
      using it'(1) at by (simp add: leave_key.simps [of _ _ _ it] ukey_def)
    show ?thesis
    proof (cases "ucmp (ukey es i') (ukey es j) < 0")
      case True
      then have "before_key ucmp s es j (Some i')" using above Suc by (auto simp: before_key_def)
      then show ?thesis using unf True r by (intro exI [of _ it'] exI [of _ "Some i'"]) simp
    next
      case False
      have "\<not> ucmp (ukey es k) (ukey es j) < 0" if "i' \<le> k" "k \<le> j" for k
        using False less.prems(3) Suc that by (cases "k = i'") auto
      then show ?thesis using unf False less.IH [of i' it'] r Suc less.prems(2) by simp
    qed
  qed
qed

lemma DBIter_Prev_rep:
  assumes r: "db_rep ucmp ugood s rep d vs (Some p)"
  shows "\<exists>d'. DBIter_Prev ops ucmp d = Some d' \<and> db_rep ucmp ugood s rep d' vs (if p = 0 then None else Some (p - 1))"
proof -
  obtain es j where es: "internal_ok ucmp ugood es" "vs = db_view ucmp s es" "db_state s d" "db_at ucmp s rep es d j"
    "j \<le> length es" "Some p = entry_pos vs (rank (live ucmp s es) j)" using r by (auto simp: db_rep_def)
  have j: "j < length es" using es by (cases "j = length es") (auto simp: entry_pos_def length_db_view)
  have p: "p = rank (live ucmp s es) j" using es(6) by (auto simp: entry_pos_def split: if_splits)
  have v: "dbi_valid d" "live ucmp s es j" using es(4) j by (auto simp: db_at_def)
  note rank = rank_behind [OF es(1) _ _ j v(2)]
  show ?thesis
  proof (cases "dbi_direction d")
    case kReverse
    then obtain q where q: "rep (dbi_iter d) es q" "before_key ucmp s es j q" using es(4) j by (auto simp: db_at_def)
    then show ?thesis using FindPrev_rep [OF es(1) q(1) es(3) kReverse, unfolded rank [OF q]] v(1) kReverse es(2) p by (auto simp: DBIter_Prev_def)
  next
    case kForward
    then have r0: "rep (dbi_iter d) es (Some j)" using es(4) j by (simp add: db_at_def)
    have "ugood (ukey es j)" using ukey_good [OF es(1) j] .
    then have "\<forall>k. j \<le> k \<and> k \<le> j \<longrightarrow> \<not> ucmp (ukey es k) (ukey es j) < 0" using ukey_from [OF es(1), of j j] j by auto
    then obtain it q where q: "leave_key ops ucmp (ukey es j) (dbi_iter d) = Some (q \<noteq> None, it)" "rep it es q" "before_key ucmp s es j q"
      using leave_key_rep [OF es(1) j r0] by blast
    define d1 where "d1 = d\<lparr>saved_key := ukey es j, dbi_iter := it, dbi_direction := kReverse\<rparr>"
    have d1: "db_state s d1" "dbi_direction d1 = kReverse" "rep (dbi_iter d1) es q" using es(3) q(2) by (simp_all add: d1_def db_state_def)
    have eq: "DBIter_Prev ops ucmp d =
        (if q = None then Some (d\<lparr>saved_key := [], dbi_iter := it, dbi_valid := False, saved_value := []\<rparr>) else FindPrevUserEntry ops ucmp d1)"
      using v(1) kForward inner.at_some [OF r0] q(1) by (auto simp: DBIter_Prev_def d1_def ClearSavedValue_def ukey_def Let_def)
    show ?thesis
    proof (cases "q = None")
      case True
      let ?d = "d\<lparr>saved_key := [], dbi_iter := it, dbi_valid := False, saved_value := []\<rparr>"
      have "db_at ucmp s rep es ?d (length es)" "db_state s ?d" using q(2) es(3) by (auto simp: db_at_def db_state_def)
      from db_repI [OF es(1) this(2,1)] show ?thesis
        using eq rank [OF q(2,3)] True es(2) p by (simp add: entry_pos_def length_db_view)
    next
      case False
      then show ?thesis using eq FindPrev_rep [OF es(1) d1(3,1,2), unfolded rank [OF q(2,3)]] es(2) p by auto
    qed
  qed
qed

lemma DBIter_SeekToLast_rep:
  assumes r: "db_rep ucmp ugood s rep d vs pos"
  shows "\<exists>d'. DBIter_SeekToLast ops ucmp d = Some d' \<and> db_rep ucmp ugood s rep d' vs (last_pos vs)"
proof -
  obtain es j where es: "internal_ok ucmp ugood es" "vs = db_view ucmp s es" "db_state s d" "db_at ucmp s rep es d j"
    using r by (auto simp: db_rep_def)
  obtain q where q: "rep (dbi_iter d) es q" using db_at_rep [OF es(4)] by blast
  obtain it where it: "it_SeekToLast ops (dbi_iter d) = Some it" "rep it es (last_pos es)" using inner.to_last [OF q] by blast
  define d1 where "d1 = d\<lparr>dbi_direction := kReverse, saved_value := [], dbi_iter := it\<rparr>"
  have d1: "db_state s d1" "dbi_direction d1 = kReverse" "rep (dbi_iter d1) es (last_pos es)" using es(3) it(2) by (simp_all add: d1_def db_state_def)
  have "behind (last_pos es) = length es" by (cases es) (simp_all add: last_pos_def)
  then have "(if rank (live ucmp s es) (behind (last_pos es)) = 0 then None else Some (rank (live ucmp s es) (behind (last_pos es)) - 1)) = last_pos vs"
    using length_db_view [of ucmp s es] es(2) by (auto simp: last_pos_def)
  then show ?thesis
    using FindPrev_rep [OF es(1) d1(3,1,2)] it(1) es(2) by (simp add: DBIter_SeekToLast_def d1_def ClearSavedValue_def)
qed

section \<open>The database iterator is an iterator over the live entries\<close>

lemma db_iterator: "iterator (db_ops ops ucmp) (db_rep ucmp ugood s rep) ucmp ugood"
proof (unfold_locales, goal_cases)
  case (1 d vs)
  then obtain es j where es: "vs = db_view ucmp s es" "db_at ucmp s rep es d j" "None = entry_pos vs (rank (live ucmp s es) j)"
    by (auto simp: db_rep_def)
  then have "\<not> (j < length es \<and> live ucmp s es j)" using db_view_nth [of j es ucmp s] by (auto simp: entry_pos_def)
  then show ?case using es(2) by (auto simp: db_at_def db_ops_def split: if_splits)
next
  case (2 d vs p)
  then obtain es j where es: "vs = db_view ucmp s es" "db_at ucmp s rep es d j" "j \<le> length es" "Some p = entry_pos vs (rank (live ucmp s es) j)"
    by (auto simp: db_rep_def)
  have j: "j < length es" using es by (cases "j = length es") (auto simp: entry_pos_def length_db_view)
  then have l: "dbi_valid d" "live ucmp s es j" using es(2) by (auto simp: db_at_def)
  have p: "p = rank (live ucmp s es) j" using es(4) by (auto simp: entry_pos_def split: if_splits)
  have nth: "p < length vs" "vs ! p = (ukey es j, snd (es ! j))" using db_view_nth [OF j l(2)] p es(1) by auto
  show ?case using nth es(2) j l inner.at_some [of "dbi_iter d" es j]
    by (cases "dbi_direction d") (auto simp: db_ops_def db_at_def DBIter_key_def DBIter_value_def ukey_def)
next
  case (3 d vs pos)
  then obtain es j where "db_at ucmp s rep es d j" and ok: "dbi_status d = Status_OK" by (auto simp: db_rep_def db_state_def)
  then obtain q where "rep (dbi_iter d) es q" using db_at_rep by blast
  then show ?case using inner.status ok by (auto simp: db_ops_def DBIter_status_def)
qed (use DBIter_SeekToFirst_rep DBIter_SeekToLast_rep DBIter_Seek_rep DBIter_Next_rep DBIter_Prev_rep in \<open>auto simp: db_ops_def\<close>)

lemma DBIter_new_rep:
  assumes "internal_ok ucmp ugood es" and "rep it es q"
  shows "db_rep ucmp ugood s rep (DBIter_new it s seed) (db_view ucmp s es) None"
proof (rule db_repI [OF assms(1), where j = "length es"])
  have "seed_ok (Random_new seed)" by simp
  then show "db_state s (DBIter_new it s seed)" by (simp add: db_state_def DBIter_new_def RandomPeriod_eq)
  show "db_at ucmp s rep es (DBIter_new it s seed) (length es)"
    using assms(2) by (auto simp: db_at_def DBIter_new_def split: prod.splits)
qed (simp_all add: entry_pos_def length_db_view)

text \<open>The view without indexes: the newest entry of a user key that is not newer than \<open>s\<close>, when it is a value.\<close>

lemma newest_first:
  assumes es: "internal_ok ucmp ugood es" and h: "h < length es" "i < length es" "ucmp (ukey es h) (ukey es i) = 0"
  shows "h < i \<longleftrightarrow> key_num (fst (es ! i)) < key_num (fst (es ! h))"
proof -
  have less: "key_num (fst (es ! b)) < key_num (fst (es ! a))" if "a < b" "b < length es" "ucmp (ukey es a) (ukey es b) = 0" for a b
  proof -
    have "InternalKeyCompare ucmp (fst (es ! a)) (fst (es ! b)) < 0" using es that by (simp add: internal_ok_def sorted_wrt_iff_nth_less)
    then show ?thesis using that(3) by (simp add: InternalKeyCompare_sign ukey_def)
  qed
  have "ucmp (ukey es i) (ukey es h) = 0" using h user.eq_sym ukey_good [OF es] by simp
  then show ?thesis using less [of h i] less [of i h] h by (cases h i rule: linorder_cases) auto
qed

lemma db_view_mem:
  assumes es: "internal_ok ucmp ugood es"
  shows "(k, v) \<in> set (db_view ucmp s es) \<longleftrightarrow>
    (\<exists>ik. (ik, v) \<in> set es \<and> ExtractUserKey ik = k \<and> ExtractValueType ik = kTypeValue \<and> drop_bit 8 (key_num ik) \<le> s \<and>
       (\<forall>e\<in>set es. ucmp (ExtractUserKey (fst e)) k = 0 \<and> drop_bit 8 (key_num (fst e)) \<le> s \<longrightarrow> key_num (fst e) \<le> key_num ik))"
  (is "_ \<longleftrightarrow> ?new")
proof -
  have eq: "live ucmp s es i \<longleftrightarrow> visible s es i \<and> ExtractValueType (fst (es ! i)) = kTypeValue \<and>
      (\<forall>h<length es. ucmp (ukey es h) (ukey es i) = 0 \<and> visible s es h \<longrightarrow> key_num (fst (es ! h)) \<le> key_num (fst (es ! i)))"
    if i: "i < length es" for i
  proof -
    have "(h < i \<longrightarrow> visible s es h \<longrightarrow> ucmp (ukey es h) (ukey es i) \<noteq> 0) \<longleftrightarrow>
        (ucmp (ukey es h) (ukey es i) = 0 \<and> visible s es h \<longrightarrow> key_num (fst (es ! h)) \<le> key_num (fst (es ! i)))" if "h < length es" for h
      using newest_first [OF es that i] by (auto simp: not_less [symmetric])
    then show ?thesis using i by (auto simp: live_def)
  qed
  have "(k, v) \<in> set (db_view ucmp s es) \<longleftrightarrow> (\<exists>i<length es. live ucmp s es i \<and> ukey es i = k \<and> snd (es ! i) = v)"
    by (auto simp: db_view_def)
  also have "\<dots> \<longleftrightarrow> ?new"
  proof
    assume "\<exists>i<length es. live ucmp s es i \<and> ukey es i = k \<and> snd (es ! i) = v"
    then obtain i where i: "i < length es" "live ucmp s es i" "ukey es i = k" "snd (es ! i) = v" by blast
    have "key_num (fst e) \<le> key_num (fst (es ! i))"
      if e: "e \<in> set es" "ucmp (ExtractUserKey (fst e)) k = 0" "drop_bit 8 (key_num (fst e)) \<le> s" for e
    proof -
      obtain h where "h < length es" "e = es ! h" using e(1) by (auto simp: in_set_conv_nth)
      then show ?thesis using eq [OF i(1)] i e by (auto simp: visible_def ukey_def)
    qed
    moreover have "(fst (es ! i), v) \<in> set es" using nth_mem [OF i(1)] i(4) by (metis prod.collapse)
    ultimately show ?new using eq [OF i(1)] i by (intro exI [of _ "fst (es ! i)"]) (simp add: visible_def ukey_def)
  next
    assume ?new
    then obtain ik where ik: "(ik, v) \<in> set es" "ExtractUserKey ik = k" "ExtractValueType ik = kTypeValue" "drop_bit 8 (key_num ik) \<le> s"
      "\<forall>e\<in>set es. ucmp (ExtractUserKey (fst e)) k = 0 \<and> drop_bit 8 (key_num (fst e)) \<le> s \<longrightarrow> key_num (fst e) \<le> key_num ik" by blast
    obtain i where i: "i < length es" "es ! i = (ik, v)" using ik(1) by (auto simp: in_set_conv_nth)
    then have "live ucmp s es i" using eq [OF i(1)] ik by (auto simp: visible_def ukey_def)
    then show "\<exists>i<length es. live ucmp s es i \<and> ukey es i = k \<and> snd (es ! i) = v" using i ik(2) by (auto simp: ukey_def)
  qed
  finally show ?thesis .
qed

lemma db_view_sorted:
  assumes es: "internal_ok ucmp ugood es"
  shows "sorted_wrt (\<lambda>a b. ucmp (fst a) (fst b) < 0) (db_view ucmp s es)"
proof -
  have "sorted_wrt (\<lambda>i j. ucmp (ukey es i) (ukey es j) < 0) (filter (live ucmp s es) [0..<length es])"
  proof (rule sorted_wrt_mono_rel [where P = "(<)"])
    fix i j assume ij: "i \<in> set (filter (live ucmp s es) [0..<length es])" "j \<in> set (filter (live ucmp s es) [0..<length es])" "i < j"
    then have "ucmp (ukey es i) (ukey es j) \<noteq> 0" by (auto simp: live_def)
    then show "ucmp (ukey es i) (ukey es j) < 0" using ukey_mono [OF es, of i j] ij by auto
  qed (simp add: sorted_wrt_filter)
  then show ?thesis by (simp add: db_view_def sorted_wrt_map)
qed

end

text \<open>
  C10: The iterator of a database is correct over any internal iterator that keeps the iterator contract, whatever the
  user comparator, at every sequence number.  After every legal sequence of moves, with changes of
  direction anywhere, it stands where the same moves lead in the list of live entries and its status is OK.
  That list is sorted by user key and has, for each user key, the value of its newest entry
  that is not newer than the sequence number, unless that entry is a deletion.
\<close>

theorem db_iterator_correct:
  assumes loc: "db_iter ops rep ucmp ugood s" and es: "internal_ok ucmp ugood es" "rep it es None"
  defines "vs \<equiv> db_view ucmp s es"
  shows "(\<forall>cs pos. pos_run ucmp vs cs None = Some pos \<and> cmds_ok ugood cs \<longrightarrow>
      (\<exists>d. iter_run (db_ops ops ucmp) cs (DBIter_new it s seed) = Some d \<and> iter_entry (db_ops ops ucmp) d = map_option ((!) vs) pos \<and>
           it_status (db_ops ops ucmp) d = Status_OK)) \<and>
    sorted_wrt (\<lambda>a b. ucmp (fst a) (fst b) < 0) vs \<and>
    (\<forall>k v. (k, v) \<in> set vs \<longleftrightarrow>
      (\<exists>ik. (ik, v) \<in> set es \<and> ExtractUserKey ik = k \<and> ExtractValueType ik = kTypeValue \<and> drop_bit 8 (key_num ik) \<le> s \<and>
         (\<forall>e\<in>set es. ucmp (ExtractUserKey (fst e)) k = 0 \<and> drop_bit 8 (key_num (fst e)) \<le> s \<longrightarrow> key_num (fst e) \<le> key_num ik)))"
proof (intro conjI)
  note I = db_iter.db_iterator [OF loc]
  have "db_rep ucmp ugood s rep (DBIter_new it s seed) vs None" using db_iter.DBIter_new_rep [OF loc es] by (simp add: vs_def)
  from iterator.iter_run_rep [OF I this]
  show "\<forall>cs pos. pos_run ucmp vs cs None = Some pos \<and> cmds_ok ugood cs \<longrightarrow>
      (\<exists>d. iter_run (db_ops ops ucmp) cs (DBIter_new it s seed) = Some d \<and> iter_entry (db_ops ops ucmp) d = map_option ((!) vs) pos \<and>
           it_status (db_ops ops ucmp) d = Status_OK)"
    using iterator.iter_entry_rep [OF I] iterator.status [OF I] by blast
  show "sorted_wrt (\<lambda>a b. ucmp (fst a) (fst b) < 0) vs" unfolding vs_def by (rule db_iter.db_view_sorted [OF loc es(1)])
qed (unfold vs_def, intro allI db_iter.db_view_mem [OF loc es(1)])

section \<open>Over merged blocks\<close>

lemma db_iter_merged_blocks:
  assumes "s \<le> kMaxSequenceNumber"
  shows "db_iter (merged_ops (block_ops (InternalKeyCompare BytewiseCompare)) (InternalKeyCompare BytewiseCompare))
    (merged_rep (InternalKeyCompare BytewiseCompare) (valid_ikey (\<lambda>_. True)) (block_rep (InternalKeyCompare BytewiseCompare) (valid_ikey (\<lambda>_. True))))
    BytewiseCompare (\<lambda>_. True) s"
  using assms merged_internal_blocks.merged_iterator bytewise.comparator_axioms by (simp add: db_iter_def db_iter_axioms_def)

interpretation db_merged_blocks: db_iter
    "merged_ops (block_ops (InternalKeyCompare BytewiseCompare)) (InternalKeyCompare BytewiseCompare)"
    "merged_rep (InternalKeyCompare BytewiseCompare) (valid_ikey (\<lambda>_. True)) (block_rep (InternalKeyCompare BytewiseCompare) (valid_ikey (\<lambda>_. True)))"
    BytewiseCompare "\<lambda>_. True" kMaxSequenceNumber
  by (rule db_iter_merged_blocks) simp

text \<open>
  Two merged blocks at sequence number 5: the first key was overwritten, the second deleted, the third is newer,
  the fourth was deleted only later.  The iterator moves from the last live key back, off the list and forward again.
\<close>

theorem db_iterator_correct_witness:
  "\<exists>it1 it2 m d. NewMergingIterator (block_ops (InternalKeyCompare BytewiseCompare)) [it1, it2] = Some m \<and>
     iter_run (db_ops (merged_ops (block_ops (InternalKeyCompare BytewiseCompare)) (InternalKeyCompare BytewiseCompare)) BytewiseCompare)
       [ToLast, Backward, Forward, Backward] (DBIter_new m 5 301) = Some d \<and>
     iter_entry (db_ops (merged_ops (block_ops (InternalKeyCompare BytewiseCompare)) (InternalKeyCompare BytewiseCompare)) BytewiseCompare) d
       = Some ([1], [7])"
proof -
  let ?k = "\<lambda>u q t. InternalKey_new [u] q t" and ?ic = "InternalKeyCompare BytewiseCompare" and ?g = "valid_ikey (\<lambda>_. True)"
  let ?a = "[(?k 1 3 kTypeValue, [7]), (?k 2 4 kTypeDeletion, []), (?k 4 6 kTypeDeletion, [])] :: kv list"
  let ?b = "[(?k 1 2 kTypeValue, [8]), (?k 2 1 kTypeValue, [9]), (?k 3 9 kTypeValue, [10]), (?k 4 2 kTypeValue, [11])] :: kv list"
  let ?bops = "block_ops ?ic" and ?ops = "merged_ops (block_ops ?ic) ?ic" and ?es = "map snd (merge_lists ?ic [?a, ?b])"
  have s: "sorted_wrt (\<lambda>a b. ?ic (fst a) (fst b) < 0) ?a" "sorted_wrt (\<lambda>a b. ?ic (fst a) (fst b) < 0) ?b" by code_simp+
  have g: "\<forall>e\<in>set ?a. ?g (fst e)" "\<forall>e\<in>set ?b. ?g (fst e)" by simp_all
  have sz: "(\<Sum>(k, v)\<leftarrow>?a. length k + length v + 19) + 8 < 2 ^ 32" "(\<Sum>(k, v)\<leftarrow>?b. length k + length v + 19) + 8 < 2 ^ 32" by simp_all
  obtain it1 it2 where its: "block_rep ?ic ?g it1 ?a None" "block_rep ?ic ?g it2 ?b None"
    using built_block [OF internal_bytewise.comparator_axioms _ s(1) g(1) sz(1), of 2]
      built_block [OF internal_bytewise.comparator_axioms _ s(2) g(2) sz(2), of 2] by auto
  have "sorted_wrt (\<lambda>as bs. \<forall>a\<in>set as. \<forall>b\<in>set bs. ?ic (fst a) (fst b) \<noteq> 0) [?a, ?b]" by code_simp
  then have m: "mergeable ?ic ?g [?a, ?b]" using s g by (simp add: mergeable_def)
  have rep: "block_rep ?ic ?g ([it1, it2] ! i) ([?a, ?b] ! i) None" if "i < length [it1, it2]" for i
    using its that by (cases i) auto
  obtain m where M: "NewMergingIterator ?bops [it1, it2] = Some m" "merged_rep ?ic ?g (block_rep ?ic ?g) m ?es None"
    using merged_internal_blocks.NewMergingIterator_merges [OF m _ rep] by auto
  have vs: "db_view BytewiseCompare 5 ?es = [([1], [7]), ([4], [11])]" by code_simp
  have es: "internal_ok BytewiseCompare (\<lambda>_. True) ?es" by code_simp
  have p: "pos_run BytewiseCompare [([1], [7]), ([4], [11])] [ToLast, Backward, Forward, Backward] None = Some (Some 0)"
    by (simp add: entry_pos_def last_pos_def)
  have ok: "cmds_ok (\<lambda>_. True) [ToLast, Backward, Forward, Backward]" by (simp add: cmds_ok_def)
  have "(5 :: u64) \<le> kMaxSequenceNumber" by code_simp
  note run = conjunct1 [OF db_iterator_correct [OF db_iter_merged_blocks [OF this], OF es, OF M(2), of 301]]
  have "\<exists>d. iter_run (db_ops ?ops BytewiseCompare) [ToLast, Backward, Forward, Backward] (DBIter_new m 5 301) = Some d \<and>
      iter_entry (db_ops ?ops BytewiseCompare) d = map_option ((!) (db_view BytewiseCompare 5 ?es)) (Some 0)"
    using run [THEN spec, of "[ToLast, Backward, Forward, Backward]", THEN spec, of "Some 0"] p ok unfolding vs by blast
  then obtain d where "iter_run (db_ops ?ops BytewiseCompare) [ToLast, Backward, Forward, Backward] (DBIter_new m 5 301) = Some d"
    "iter_entry (db_ops ?ops BytewiseCompare) d = map_option ((!) [([1], [7]), ([4], [11])]) (Some 0)" unfolding vs by blast
  then show ?thesis using M(1) by (intro exI [of _ it1] exI [of _ it2] exI [of _ m] exI [of _ d]) simp
qed

end
