(* ===== verification/LdbVersion.thy ===== *)
theory LdbVersion
  imports Complex_Main LdbVersionEdit LdbTwoLevel LdbMerger LdbDBIter
begin

text \<open>
  The files of a version (\<open>class Version\<close> in \<open>db/version_set.cc\<close>): the searches over the files of a level,
  the iterator over a level, lookups through the levels and the seek statistics.

  \<open>FileMetaData\<close> objects are shared between versions, so files are pointers into a heap \<open>H\<close>.  The table
  cache is a parameter: \<open>tget\<close> for \<open>TableCache::Get\<close> (it returns the entry handed to the saver) and \<open>titer\<close> for
  \<open>TableCache::NewIterator\<close>.  \<open>None\<close> stands for a failed assertion or a loop that does not end.
\<close>

section \<open>Constants and sizes\<close>

type_synonym fptr = nat
type_synonym file_heap = "fptr \<Rightarrow> FileMetaData"

definition kTargetFileSize :: int where "kTargetFileSize = 2 * 1048576"
definition kMaxGrandParentOverlapBytes :: int where "kMaxGrandParentOverlapBytes = 10 * kTargetFileSize"
definition kExpandedCompactionByteSizeLimit :: int where "kExpandedCompactionByteSizeLimit = 25 * kTargetFileSize"
definition kMaxMemCompactLevel :: nat where "kMaxMemCompactLevel = 2"
definition kL0_CompactionTrigger :: nat where "kL0_CompactionTrigger = 4"

definition MaxFileSizeForLevel :: "nat \<Rightarrow> u64" where
  "MaxFileSizeForLevel level = word_of_int kTargetFileSize"

text \<open>The sum is an \<open>int64_t\<close>; adding a \<open>uint64_t\<close> to it wraps.\<close>

definition TotalFileSize :: "file_heap \<Rightarrow> fptr list \<Rightarrow> int" where
  "TotalFileSize H files = sint (foldl (\<lambda>sum f. sum + fm_file_size (H f)) (0 :: u64) files)"

abbreviation smallest_user_key :: "file_heap \<Rightarrow> fptr \<Rightarrow> slice" where
  "smallest_user_key H f \<equiv> ExtractUserKey (fm_smallest (H f))"

abbreviation largest_user_key :: "file_heap \<Rightarrow> fptr \<Rightarrow> slice" where
  "largest_user_key H f \<equiv> ExtractUserKey (fm_largest (H f))"

section \<open>Searching a level\<close>

text \<open>The bounds of the binary search are 32-bit numbers.\<close>

partial_function (option) find_file :: "(slice \<Rightarrow> slice \<Rightarrow> int) \<Rightarrow> file_heap \<Rightarrow> fptr list \<Rightarrow> slice \<Rightarrow> u32 \<Rightarrow> u32 \<Rightarrow> u32 option" where
  "find_file icmp H files key left right =
     (if left < right then
        let mid = (left + right) div 2 in
        if icmp (fm_largest (H (files ! unat mid))) key < 0
        then find_file icmp H files key (mid + 1) right
        else find_file icmp H files key left mid
      else Some right)"

definition FindFile :: "(slice \<Rightarrow> slice \<Rightarrow> int) \<Rightarrow> file_heap \<Rightarrow> fptr list \<Rightarrow> slice \<Rightarrow> nat option" where
  "FindFile icmp H files key = map_option unat (find_file icmp H files key 0 (of_nat (length files)))"

definition AfterFile :: "(slice \<Rightarrow> slice \<Rightarrow> int) \<Rightarrow> file_heap \<Rightarrow> slice option \<Rightarrow> fptr \<Rightarrow> bool" where
  "AfterFile ucmp H user_key f = (case user_key of None \<Rightarrow> False | Some k \<Rightarrow> ucmp k (largest_user_key H f) > 0)"

definition BeforeFile :: "(slice \<Rightarrow> slice \<Rightarrow> int) \<Rightarrow> file_heap \<Rightarrow> slice option \<Rightarrow> fptr \<Rightarrow> bool" where
  "BeforeFile ucmp H user_key f = (case user_key of None \<Rightarrow> False | Some k \<Rightarrow> ucmp k (smallest_user_key H f) < 0)"

definition SomeFileOverlapsRange ::
    "(slice \<Rightarrow> slice \<Rightarrow> int) \<Rightarrow> file_heap \<Rightarrow> bool \<Rightarrow> fptr list \<Rightarrow> slice option \<Rightarrow> slice option \<Rightarrow> bool option" where
  "SomeFileOverlapsRange ucmp H disjoint_sorted_files files smallest largest =
     (if \<not> disjoint_sorted_files
      then Some (list_ex (\<lambda>f. \<not> (AfterFile ucmp H smallest f \<or> BeforeFile ucmp H largest f)) files)
      else
        Option.bind
          (case smallest of
             None \<Rightarrow> Some 0
           | Some k \<Rightarrow> FindFile (InternalKeyCompare ucmp) H files (InternalKey_new k kMaxSequenceNumber kValueTypeForSeek))
          (\<lambda>index. if index \<ge> length files then Some False else Some (\<not> BeforeFile ucmp H largest (files ! index))))"

text \<open>
  All files of a level that overlap a range.  On level 0 a file that reaches out of the range widens it
  and the loop starts again.
\<close>

definition skips_file :: "(slice \<Rightarrow> slice \<Rightarrow> int) \<Rightarrow> file_heap \<Rightarrow> slice option \<Rightarrow> slice option \<Rightarrow> fptr \<Rightarrow> bool" where
  "skips_file ucmp H user_begin user_end f \<longleftrightarrow>
     (case user_begin of None \<Rightarrow> False | Some b \<Rightarrow> ucmp (largest_user_key H f) b < 0) \<or>
     (case user_end of None \<Rightarrow> False | Some e \<Rightarrow> ucmp (smallest_user_key H f) e > 0)"

definition starts_before :: "(slice \<Rightarrow> slice \<Rightarrow> int) \<Rightarrow> file_heap \<Rightarrow> slice option \<Rightarrow> fptr \<Rightarrow> bool" where
  "starts_before ucmp H user_begin f \<longleftrightarrow> (case user_begin of None \<Rightarrow> False | Some b \<Rightarrow> ucmp (smallest_user_key H f) b < 0)"

definition ends_after :: "(slice \<Rightarrow> slice \<Rightarrow> int) \<Rightarrow> file_heap \<Rightarrow> slice option \<Rightarrow> fptr \<Rightarrow> bool" where
  "ends_after ucmp H user_end f \<longleftrightarrow> (case user_end of None \<Rightarrow> False | Some e \<Rightarrow> ucmp (largest_user_key H f) e > 0)"

partial_function (option) overlapping_loop ::
    "(slice \<Rightarrow> slice \<Rightarrow> int) \<Rightarrow> file_heap \<Rightarrow> bool \<Rightarrow> fptr list \<Rightarrow> slice option \<times> slice option \<Rightarrow> nat \<Rightarrow> fptr list \<Rightarrow> fptr list option" where
  "overlapping_loop ucmp H level0 files r i inputs =
     (if i < length files then
        let f = files ! i; user_begin = fst r; user_end = snd r in
        if skips_file ucmp H user_begin user_end f then overlapping_loop ucmp H level0 files r (i + 1) inputs
        else if level0 \<and> starts_before ucmp H user_begin f
        then overlapping_loop ucmp H level0 files (Some (smallest_user_key H f), user_end) 0 []
        else if level0 \<and> ends_after ucmp H user_end f
        then overlapping_loop ucmp H level0 files (user_begin, Some (largest_user_key H f)) 0 []
        else overlapping_loop ucmp H level0 files r (i + 1) (inputs @ [f])
      else Some inputs)"

declare overlapping_loop.simps [code]

definition GetOverlappingInputs ::
    "(slice \<Rightarrow> slice \<Rightarrow> int) \<Rightarrow> file_heap \<Rightarrow> fptr list list \<Rightarrow> nat \<Rightarrow> InternalKey option \<Rightarrow> InternalKey option \<Rightarrow> fptr list option" where
  "GetOverlappingInputs ucmp H files level kbegin kend =
     (if int level < kNumLevels
      then overlapping_loop ucmp H (level = 0) (files ! level) (map_option ExtractUserKey kbegin, map_option ExtractUserKey kend) 0 []
      else None)"

section \<open>The iterator over the files of a level\<close>

record LevelFileNumIterator =
  lfi_heap :: file_heap
  lfi_flist :: "fptr list"
  lfi_index :: u32

definition LevelFileNumIterator_new :: "file_heap \<Rightarrow> fptr list \<Rightarrow> LevelFileNumIterator" where
  "LevelFileNumIterator_new H flist = \<lparr>lfi_heap = H, lfi_flist = flist, lfi_index = of_nat (length flist)\<rparr>"

definition LevelFile_Valid :: "LevelFileNumIterator \<Rightarrow> bool" where
  "LevelFile_Valid it \<longleftrightarrow> unat (lfi_index it) < length (lfi_flist it)"

definition LevelFile_Seek :: "(slice \<Rightarrow> slice \<Rightarrow> int) \<Rightarrow> slice \<Rightarrow> LevelFileNumIterator \<Rightarrow> LevelFileNumIterator option" where
  "LevelFile_Seek icmp target it =
     map_option (\<lambda>i. it\<lparr>lfi_index := of_nat i\<rparr>) (FindFile icmp (lfi_heap it) (lfi_flist it) target)"

definition LevelFile_SeekToLast :: "LevelFileNumIterator \<Rightarrow> LevelFileNumIterator option" where
  "LevelFile_SeekToLast it =
     Some (it\<lparr>lfi_index := (if lfi_flist it = [] then 0 else of_nat (length (lfi_flist it) - 1))\<rparr>)"

definition LevelFile_Next :: "LevelFileNumIterator \<Rightarrow> LevelFileNumIterator option" where
  "LevelFile_Next it = (if LevelFile_Valid it then Some (it\<lparr>lfi_index := lfi_index it + 1\<rparr>) else None)"

definition LevelFile_Prev :: "LevelFileNumIterator \<Rightarrow> LevelFileNumIterator option" where
  "LevelFile_Prev it =
     (if LevelFile_Valid it
      then Some (it\<lparr>lfi_index := (if lfi_index it = 0 then of_nat (length (lfi_flist it)) else lfi_index it - 1)\<rparr>)
      else None)"

definition LevelFile_key :: "LevelFileNumIterator \<Rightarrow> slice option" where
  "LevelFile_key it =
     (if LevelFile_Valid it then Some (fm_largest (lfi_heap it (lfi_flist it ! unat (lfi_index it)))) else None)"

definition LevelFile_value :: "LevelFileNumIterator \<Rightarrow> slice option" where
  "LevelFile_value it =
     (if LevelFile_Valid it
      then let f = lfi_heap it (lfi_flist it ! unat (lfi_index it)) in Some (EncodeFixed64 (fm_number f) @ EncodeFixed64 (fm_file_size f))
      else None)"

definition level_file_ops :: "(slice \<Rightarrow> slice \<Rightarrow> int) \<Rightarrow> LevelFileNumIterator Iterator" where
  "level_file_ops icmp =
     \<lparr>it_Valid = LevelFile_Valid, it_key = LevelFile_key, it_value = LevelFile_value, it_status = (\<lambda>_. Status_OK),
      it_SeekToFirst = (\<lambda>it. Some (it\<lparr>lfi_index := 0\<rparr>)), it_SeekToLast = LevelFile_SeekToLast, it_Seek = LevelFile_Seek icmp,
      it_Next = LevelFile_Next, it_Prev = LevelFile_Prev\<rparr>"

text \<open>
  The callback of the concatenating iterator.  \<open>new_error\<close> makes the iterator of a status
  (\<open>NewErrorIterator\<close>), of the same type as the iterators of the table cache.
\<close>

definition GetFileIterator :: "(u64 \<Rightarrow> u64 \<Rightarrow> 'd option) \<Rightarrow> (status \<Rightarrow> 'd) \<Rightarrow> slice \<Rightarrow> 'd option" where
  "GetFileIterator titer new_error file_value =
     (if length file_value \<noteq> 16
      then Some (new_error (Corruption (str ''FileReader invoked with unexpected value'') []))
      else
        Option.bind (DecodeFixed64 file_value) (\<lambda>number.
        Option.bind (DecodeFixed64 (drop 8 file_value)) (\<lambda>file_size. titer number file_size)))"

definition NewConcatenatingIterator ::
    "(slice \<Rightarrow> slice \<Rightarrow> int) \<Rightarrow> file_heap \<Rightarrow> fptr list \<Rightarrow> (LevelFileNumIterator, 'd) TwoLevelIterator option" where
  "NewConcatenatingIterator icmp H files = TwoLevelIterator_new (level_file_ops icmp) (LevelFileNumIterator_new H files)"

definition concat_ops ::
    "(slice \<Rightarrow> slice \<Rightarrow> int) \<Rightarrow> 'd Iterator \<Rightarrow> (u64 \<Rightarrow> u64 \<Rightarrow> 'd option) \<Rightarrow> (status \<Rightarrow> 'd) \<Rightarrow> (LevelFileNumIterator, 'd) TwoLevelIterator Iterator" where
  "concat_ops icmp dops titer new_error = two_level_ops (level_file_ops icmp) dops (GetFileIterator titer new_error)"

section \<open>Versions\<close>

text \<open>Values of type \<open>double\<close> are rational numbers; \<open>-1\<close> is the initial score.\<close>

record Version =
  v_refs :: int
  v_files :: "fptr list list"
  v_file_to_compact :: "fptr option"
  v_file_to_compact_level :: int
  v_compaction_score :: rat
  v_compaction_level :: int

definition Version_new :: Version where
  "Version_new = \<lparr>v_refs = 0, v_files = replicate 7 [], v_file_to_compact = None, v_file_to_compact_level = -1, v_compaction_score = -1,
     v_compaction_level = -1\<rparr>"

definition level_files :: "Version \<Rightarrow> nat \<Rightarrow> fptr list" where
  "level_files v level = v_files v ! level"

definition OverlapInLevel :: "(slice \<Rightarrow> slice \<Rightarrow> int) \<Rightarrow> file_heap \<Rightarrow> Version \<Rightarrow> nat \<Rightarrow> slice option \<Rightarrow> slice option \<Rightarrow> bool option" where
  "OverlapInLevel ucmp H v level smallest largest = SomeFileOverlapsRange ucmp H (level > 0) (v_files v ! level) smallest largest"

text \<open>The loop of \<open>PickLevelForMemTableOutput\<close>.\<close>

function pick_level :: "(slice \<Rightarrow> slice \<Rightarrow> int) \<Rightarrow> file_heap \<Rightarrow> Version \<Rightarrow> slice \<Rightarrow> slice \<Rightarrow> nat \<Rightarrow> nat option" where
  "pick_level ucmp H v smallest largest level =
     (if level < kMaxMemCompactLevel then
        Option.bind (OverlapInLevel ucmp H v (level + 1) (Some smallest) (Some largest)) (\<lambda>over.
          if over then Some level
          else if int (level + 2) < kNumLevels then
            Option.bind (GetOverlappingInputs ucmp H (v_files v) (level + 2) (Some (InternalKey_new smallest kMaxSequenceNumber kValueTypeForSeek))
                (Some (InternalKey_new largest 0 kTypeDeletion))) (\<lambda>inputs.
              if TotalFileSize H inputs > kMaxGrandParentOverlapBytes then Some level
              else pick_level ucmp H v smallest largest (level + 1))
          else pick_level ucmp H v smallest largest (level + 1))
      else Some level)"
  by pat_completeness auto

termination
  by (relation "measure (\<lambda>(_, _, _, _, _, level). kMaxMemCompactLevel - level)") auto

declare pick_level.simps [simp del]

definition PickLevelForMemTableOutput :: "(slice \<Rightarrow> slice \<Rightarrow> int) \<Rightarrow> file_heap \<Rightarrow> Version \<Rightarrow> slice \<Rightarrow> slice \<Rightarrow> nat option" where
  "PickLevelForMemTableOutput ucmp H v smallest largest =
     Option.bind (OverlapInLevel ucmp H v 0 (Some smallest) (Some largest)) (\<lambda>over.
       if over then Some 0 else pick_level ucmp H v smallest largest 0)"

section \<open>Lookups\<close>

datatype SaverState = saver_kNotFound | kFound | kDeleted | kCorrupt

record Saver =
  sv_state :: SaverState
  sv_user_key :: slice
  sv_value :: slice

definition SaveValue :: "(slice \<Rightarrow> slice \<Rightarrow> int) \<Rightarrow> slice \<Rightarrow> slice \<Rightarrow> Saver \<Rightarrow> Saver" where
  "SaveValue ucmp ikey v s =
     (case ParseInternalKey ikey of
        None \<Rightarrow> s\<lparr>sv_state := kCorrupt\<rparr>
      | Some parsed_key \<Rightarrow>
          if ucmp (pk_user_key parsed_key) (sv_user_key s) = 0 then
            let s = s\<lparr>sv_state := (if pk_type parsed_key = kTypeValue then kFound else kDeleted)\<rparr>
            in if sv_state s = kFound then s\<lparr>sv_value := v\<rparr> else s
          else s)"

text \<open>\<open>std::sort\<close> by decreasing file number, which is unique.\<close>

definition sort_NewestFirst :: "file_heap \<Rightarrow> fptr list \<Rightarrow> fptr list" where
  "sort_NewestFirst H files = sort_key (\<lambda>f. - uint (fm_number (H f))) files"

definition level0_files :: "(slice \<Rightarrow> slice \<Rightarrow> int) \<Rightarrow> file_heap \<Rightarrow> slice \<Rightarrow> fptr list \<Rightarrow> fptr list" where
  "level0_files ucmp H user_key files =
     sort_NewestFirst H (filter (\<lambda>f. ucmp user_key (smallest_user_key H f) \<ge> 0 \<and> ucmp user_key (largest_user_key H f) \<le> 0) files)"

text \<open>The files to search on a level.\<close>

definition files_to_search :: "(slice \<Rightarrow> slice \<Rightarrow> int) \<Rightarrow> file_heap \<Rightarrow> slice \<Rightarrow> slice \<Rightarrow> Version \<Rightarrow> nat \<Rightarrow> fptr list option" where
  "files_to_search ucmp H user_key ikey v level =
     (let files = v_files v ! level in
      if files = [] then Some []
      else if level = 0 then Some (level0_files ucmp H user_key files)
      else
        map_option (\<lambda>index.
            if index \<ge> length files then []
            else if ucmp user_key (smallest_user_key H (files ! index)) < 0 then [] else [files ! index])
          (FindFile (InternalKeyCompare ucmp) H files ikey))"

record GetStats =
  seek_file :: "fptr option"
  seek_file_level :: int

text \<open>The variables of the loops in \<open>Get\<close>; \<open>gs_cache\<close> is the state of the table cache.\<close>

record 'c get_state =
  gs_value :: slice
  gs_stats :: GetStats
  last_file_read :: "fptr option"
  last_file_read_level :: int
  gs_cache :: 'c

type_synonym 'c table_get = "u64 \<Rightarrow> u64 \<Rightarrow> slice \<Rightarrow> 'c \<Rightarrow> (status \<times> kv option \<times> 'c) option"

text \<open>The body of the loop over the files: the status is there when \<open>Get\<close> returns it.\<close>

definition get_file ::
    "'c table_get \<Rightarrow> (slice \<Rightarrow> slice \<Rightarrow> int) \<Rightarrow> file_heap \<Rightarrow> slice \<Rightarrow> slice \<Rightarrow> nat \<Rightarrow> fptr \<Rightarrow> 'c get_state \<Rightarrow> (status option \<times> 'c get_state) option" where
  "get_file tget ucmp H user_key ikey level f g =
     (let g = (if last_file_read g \<noteq> None \<and> seek_file (gs_stats g) = None
               then g\<lparr>gs_stats := \<lparr>seek_file = last_file_read g, seek_file_level = last_file_read_level g\<rparr>\<rparr> else g);
          g = g\<lparr>last_file_read := Some f, last_file_read_level := int level\<rparr>;
          saver = \<lparr>sv_state = saver_kNotFound, sv_user_key = user_key, sv_value = gs_value g\<rparr>
      in map_option (\<lambda>(s, saved, cache).
           let saver = (case saved of None \<Rightarrow> saver | Some (k, v) \<Rightarrow> SaveValue ucmp k v saver);
               g = g\<lparr>gs_cache := cache, gs_value := sv_value saver\<rparr>
           in if \<not> Status_ok s then (Some s, g)
              else case sv_state saver of
                     saver_kNotFound \<Rightarrow> (None, g)
                   | kFound \<Rightarrow> (Some s, g)
                   | kDeleted \<Rightarrow> (Some (NotFound [] []), g)
                   | kCorrupt \<Rightarrow> (Some (Corruption (str ''corrupted key for '') user_key), g))
         (tget (fm_number (H f)) (fm_file_size (H f)) ikey (gs_cache g)))"

fun get_files ::
    "'c table_get \<Rightarrow> (slice \<Rightarrow> slice \<Rightarrow> int) \<Rightarrow> file_heap \<Rightarrow> slice \<Rightarrow> slice \<Rightarrow> nat \<Rightarrow> fptr list \<Rightarrow> 'c get_state \<Rightarrow> (status option \<times> 'c get_state) option" where
  "get_files tget ucmp H user_key ikey level [] g = Some (None, g)"
| "get_files tget ucmp H user_key ikey level (f # fs) g =
     (case get_file tget ucmp H user_key ikey level f g of
        None \<Rightarrow> None
      | Some (Some s, g) \<Rightarrow> Some (Some s, g)
      | Some (None, g) \<Rightarrow> get_files tget ucmp H user_key ikey level fs g)"

fun get_levels ::
    "'c table_get \<Rightarrow> (slice \<Rightarrow> slice \<Rightarrow> int) \<Rightarrow> file_heap \<Rightarrow> slice \<Rightarrow> slice \<Rightarrow> Version \<Rightarrow> nat list \<Rightarrow> 'c get_state \<Rightarrow> (status \<times> 'c get_state) option" where
  "get_levels tget ucmp H user_key ikey v [] g = Some (NotFound [] [], g)"
| "get_levels tget ucmp H user_key ikey v (level # ls) g =
     Option.bind (files_to_search ucmp H user_key ikey v level) (\<lambda>files.
       case get_files tget ucmp H user_key ikey level files g of
         None \<Rightarrow> None
       | Some (Some s, g) \<Rightarrow> Some (s, g)
       | Some (None, g) \<Rightarrow> get_levels tget ucmp H user_key ikey v ls g)"

definition Version_Get ::
    "'c table_get \<Rightarrow> (slice \<Rightarrow> slice \<Rightarrow> int) \<Rightarrow> file_heap \<Rightarrow> Version \<Rightarrow> LookupKey \<Rightarrow> slice \<Rightarrow> 'c \<Rightarrow> (status \<times> slice \<times> GetStats \<times> 'c) option" where
  "Version_Get tget ucmp H v k val cache =
     map_option (\<lambda>(s, g). (s, gs_value g, gs_stats g, gs_cache g))
       (get_levels tget ucmp H (lookup_user_key k) (internal_key k) v [0..<7]
          \<lparr>gs_value = val, gs_stats = \<lparr>seek_file = None, seek_file_level = -1\<rparr>, last_file_read = None, last_file_read_level = -1, gs_cache = cache\<rparr>)"

section \<open>Seek statistics\<close>

definition UpdateStats :: "GetStats \<Rightarrow> file_heap \<Rightarrow> Version \<Rightarrow> bool \<times> file_heap \<times> Version" where
  "UpdateStats stats H v =
     (case seek_file stats of
        None \<Rightarrow> (False, H, v)
      | Some f \<Rightarrow>
          let H = H(f := (H f)\<lparr>fm_allowed_seeks := fm_allowed_seeks (H f) - 1\<rparr>)
          in if fm_allowed_seeks (H f) \<le> 0 \<and> v_file_to_compact v = None
             then (True, H, v\<lparr>v_file_to_compact := Some f, v_file_to_compact_level := seek_file_level stats\<rparr>)
             else (False, H, v))"

text \<open>\<open>ForEachOverlapping\<close>: \<open>func\<close> returns whether to go on.\<close>

fun for_files :: "('a \<Rightarrow> nat \<Rightarrow> fptr \<Rightarrow> bool \<times> 'a) \<Rightarrow> nat \<Rightarrow> fptr list \<Rightarrow> 'a \<Rightarrow> bool \<times> 'a" where
  "for_files func level [] a = (True, a)"
| "for_files func level (f # fs) a = (let (go, a) = func a level f in if go then for_files func level fs a else (False, a))"

fun for_levels ::
    "('a \<Rightarrow> nat \<Rightarrow> fptr \<Rightarrow> bool \<times> 'a) \<Rightarrow> (slice \<Rightarrow> slice \<Rightarrow> int) \<Rightarrow> file_heap \<Rightarrow> slice \<Rightarrow> slice \<Rightarrow> Version \<Rightarrow> nat list \<Rightarrow> 'a \<Rightarrow> 'a option" where
  "for_levels func ucmp H user_key ikey v [] a = Some a"
| "for_levels func ucmp H user_key ikey v (level # ls) a =
     Option.bind (files_to_search ucmp H user_key ikey v level) (\<lambda>files.
       let (go, a) = for_files func level files a in if go then for_levels func ucmp H user_key ikey v ls a else Some a)"

definition ForEachOverlapping ::
    "('a \<Rightarrow> nat \<Rightarrow> fptr \<Rightarrow> bool \<times> 'a) \<Rightarrow> (slice \<Rightarrow> slice \<Rightarrow> int) \<Rightarrow> file_heap \<Rightarrow> slice \<Rightarrow> slice \<Rightarrow> Version \<Rightarrow> 'a \<Rightarrow> 'a option" where
  "ForEachOverlapping func ucmp H user_key ikey v a = for_levels func ucmp H user_key ikey v [0..<7] a"

definition sample_Match :: "GetStats \<times> nat \<Rightarrow> nat \<Rightarrow> fptr \<Rightarrow> bool \<times> (GetStats \<times> nat)" where
  "sample_Match st level f =
     (let (stats, matches) = st; matches = matches + 1;
          stats = (if matches = 1 then \<lparr>seek_file = Some f, seek_file_level = int level\<rparr> else stats)
      in (matches < 2, (stats, matches)))"

definition RecordReadSample :: "(slice \<Rightarrow> slice \<Rightarrow> int) \<Rightarrow> slice \<Rightarrow> file_heap \<Rightarrow> Version \<Rightarrow> (bool \<times> file_heap \<times> Version) option" where
  "RecordReadSample ucmp ikey H v =
     (case ParseInternalKey ikey of
        None \<Rightarrow> Some (False, H, v)
      | Some p \<Rightarrow>
          map_option (\<lambda>(stats, matches). if matches \<ge> 2 then UpdateStats stats H v else (False, H, v))
            (ForEachOverlapping sample_Match ucmp H (pk_user_key p) ikey v (\<lparr>seek_file = None, seek_file_level = -1\<rparr>, 0)))"

definition file_DebugString :: "file_heap \<Rightarrow> fptr \<Rightarrow> slice" where
  "file_DebugString H f = str '' '' @ NumberToString (fm_number (H f)) @ str '':'' @ NumberToString (fm_file_size (H f)) @ str ''['' @
     InternalKey_DebugString (fm_smallest (H f)) @ str '' .. '' @ InternalKey_DebugString (fm_largest (H f)) @ str '']'' @ [10]"

definition Version_DebugString :: "file_heap \<Rightarrow> Version \<Rightarrow> slice" where
  "Version_DebugString H v = concat (map (\<lambda>level. str ''--- level '' @ NumberToString (of_nat level) @ str '' ---'' @ [10] @
     concat (map (file_DebugString H) (v_files v ! level))) [0..<7])"

section \<open>The binary search is right\<close>

definition level_entries :: "file_heap \<Rightarrow> fptr list \<Rightarrow> kv list" where
  "level_entries H files = map (\<lambda>f. (fm_largest (H f), EncodeFixed64 (fm_number (H f)) @ EncodeFixed64 (fm_file_size (H f)))) files"

lemma level_entries_simps [simp]: "length (level_entries H files) = length files"
  "i < length files \<Longrightarrow> level_entries H files ! i = (fm_largest (H (files ! i)),
     EncodeFixed64 (fm_number (H (files ! i))) @ EncodeFixed64 (fm_file_size (H (files ! i))))"
  by (simp_all add: level_entries_def)

text \<open>Files with increasing last keys; their number fits half of the 32-bit range.\<close>

definition files_sorted :: "(slice \<Rightarrow> slice \<Rightarrow> int) \<Rightarrow> (slice \<Rightarrow> bool) \<Rightarrow> file_heap \<Rightarrow> fptr list \<Rightarrow> bool" where
  "files_sorted icmp good H files \<longleftrightarrow> length files < 2 ^ 31 \<and> (\<forall>f\<in>set files. good (fm_largest (H f))) \<and>
     sorted_wrt (\<lambda>f g. icmp (fm_largest (H f)) (fm_largest (H g)) \<le> 0) files"

lemma mid_bounds:
  assumes "left < (right :: u32)" and "unat right < 2 ^ 31"
  shows "unat ((left + right) div 2) = (unat left + unat right) div 2" and "unat ((left + right) div 2 + 1) = Suc ((unat left + unat right) div 2)"
proof -
  have lt: "unat left < unat right" using assms(1) by (simp add: word_less_nat_alt)
  have "unat (left + right) = unat left + unat right" using assms(2) lt by (intro unat_add_lem [THEN iffD1]) simp
  then show m: "unat ((left + right) div 2) = (unat left + unat right) div 2" by (simp add: unat_div)
  have "(unat left + unat right) div 2 < 2 ^ 31" using lt assms(2) by simp
  then have "unat ((left + right) div 2) + unat (1 :: u32) < 2 ^ 32" using m by simp
  then show "unat ((left + right) div 2 + 1) = Suc ((unat left + unat right) div 2)" using m unat_add_lem [of "(left + right) div 2" 1] by simp
qed

lemma find_file_ends:
  assumes cmp: "comparator icmp good" and files: "files_sorted icmp good H files" and key: "good key"
  shows "unat left \<le> unat right \<Longrightarrow> unat right \<le> length files \<Longrightarrow>
    \<forall>i<unat left. icmp (fm_largest (H (files ! i))) key < 0 \<Longrightarrow>
    \<forall>i<length files. unat right \<le> i \<longrightarrow> \<not> icmp (fm_largest (H (files ! i))) key < 0 \<Longrightarrow>
    \<exists>r. find_file icmp H files key left right = Some r \<and> unat r = seek_pos icmp (level_entries H files) key"
proof (induction "unat right - unat left" arbitrary: left right rule: less_induct)
  case less
  have len: "unat right < 2 ^ 31" using less.prems(2) files by (simp add: files_sorted_def)
  have mono: "\<not> icmp (fm_largest (H (files ! j))) key < 0" if "i \<le> j" "j < length files" "\<not> icmp (fm_largest (H (files ! i))) key < 0" for i j
  proof (cases "i = j")
    case False
    then have le: "icmp (fm_largest (H (files ! i))) (fm_largest (H (files ! j))) \<le> 0" using files that by (simp add: files_sorted_def sorted_wrt_iff_nth_less)
    have g: "good (fm_largest (H (files ! i)))" "good (fm_largest (H (files ! j)))" using files that by (simp_all add: files_sorted_def)
    show ?thesis using comparator.le_less_trans [OF cmp g key le] that(3) by blast
  qed (use that in simp)
  show ?case
  proof (cases "left < right")
    case False
    then have eq: "unat left = unat right" using less.prems(1) by (simp add: word_less_nat_alt)
    have "takeWhile (\<lambda>e. icmp (fst e) key < 0) (level_entries H files) = take (unat right) (level_entries H files)"
      using less.prems eq by (intro takeWhile_eq_take_P_nth) auto
    then have "seek_pos icmp (level_entries H files) key = unat right" using less.prems(2) by (simp add: seek_pos_def)
    then show ?thesis using False by (subst find_file.simps) simp
  next
    case True
    define mid where "mid = (left + right) div 2"
    note m = mid_bounds [OF True len, folded mid_def]
    have lt: "unat left < unat right" using True by (simp add: word_less_nat_alt)
    have unf: "find_file icmp H files key left right =
        (if icmp (fm_largest (H (files ! unat mid))) key < 0 then find_file icmp H files key (mid + 1) right else find_file icmp H files key left mid)"
      using True by (subst find_file.simps) (simp add: mid_def Let_def)
    have ml: "unat left \<le> unat mid" "unat mid < unat right" using m lt by auto
    show ?thesis
    proof (cases "icmp (fm_largest (H (files ! unat mid))) key < 0")
      case below: True
      have "icmp (fm_largest (H (files ! i))) key < 0" if "i < unat (mid + 1)" for i
        using mono [of i "unat mid"] below that m ml less.prems(2) by force
      then show ?thesis using unf below less.hyps [of right "mid + 1"] m ml less.prems by simp
    next
      case False
      then show ?thesis using unf less.hyps [of mid left] ml less.prems mono [OF _ _ False] by simp
    qed
  qed
qed

lemma FindFile_correct:
  assumes "comparator icmp good" and "files_sorted icmp good H files" and "good key"
  shows "FindFile icmp H files key = Some (seek_pos icmp (level_entries H files) key)"
proof -
  have len: "unat (of_nat (length files) :: u32) = length files" using assms(2) by (simp add: files_sorted_def unat_of_nat_u32)
  show ?thesis using find_file_ends [OF assms, of 0 "of_nat (length files)"] len by (auto simp: FindFile_def)
qed

section \<open>The iterator over a level keeps the iterator contract\<close>

definition level_rep :: "(slice \<Rightarrow> slice \<Rightarrow> int) \<Rightarrow> (slice \<Rightarrow> bool) \<Rightarrow> LevelFileNumIterator \<Rightarrow> kv list \<Rightarrow> nat option \<Rightarrow> bool" where
  "level_rep icmp good it es pos \<longleftrightarrow> files_sorted icmp good (lfi_heap it) (lfi_flist it) \<and> es = level_entries (lfi_heap it) (lfi_flist it) \<and>
     unat (lfi_index it) \<le> length (lfi_flist it) \<and> pos = entry_pos es (unat (lfi_index it))"

lemma level_repI:
  "files_sorted icmp good H files \<Longrightarrow> i \<le> length files \<Longrightarrow> lfi_heap it = H \<Longrightarrow> lfi_flist it = files \<Longrightarrow> lfi_index it = of_nat i \<Longrightarrow>
   level_rep icmp good it (level_entries H files) (entry_pos (level_entries H files) i)"
  by (simp add: level_rep_def files_sorted_def unat_of_nat_u32)

lemma level_index: "level_rep icmp good it es pos \<Longrightarrow> lfi_index it = of_nat (unat (lfi_index it))"
  by simp

lemma level_file_iterator:
  assumes cmp: "comparator icmp good"
  shows "iterator (level_file_ops icmp) (level_rep icmp good) icmp good"
proof (unfold_locales, goal_cases)
  case (2 it es i)
  then show ?case by (auto simp: level_rep_def entry_pos_def level_file_ops_def LevelFile_Valid_def LevelFile_key_def LevelFile_value_def Let_def split: if_splits)
next
  case (4 it es pos)
  then show ?case using level_repI [of icmp good "lfi_heap it" "lfi_flist it" 0 "it\<lparr>lfi_index := 0\<rparr>"] by (auto simp: level_rep_def level_file_ops_def)
next
  case (5 it es pos)
  let ?n = "length (lfi_flist it)"
  have "last_pos es = entry_pos es (?n - 1)" using 5 by (auto simp: level_rep_def last_pos_def entry_pos_def level_entries_def)
  then show ?case using 5 level_repI [of icmp good "lfi_heap it" "lfi_flist it" "?n - 1" "it\<lparr>lfi_index := of_nat (?n - 1)\<rparr>"]
    by (auto simp: level_rep_def level_file_ops_def LevelFile_SeekToLast_def)
next
  case (6 it es pos target)
  then have f: "files_sorted icmp good (lfi_heap it) (lfi_flist it)" "es = level_entries (lfi_heap it) (lfi_flist it)" by (simp_all add: level_rep_def)
  have le: "seek_pos icmp es target \<le> length (lfi_flist it)" using seek_pos_le [of icmp es target] f(2) by simp
  show ?case using FindFile_correct [OF cmp f(1) 6(2)] f level_repI [OF f(1) le, of "it\<lparr>lfi_index := of_nat (seek_pos icmp es target)\<rparr>"]
    by (simp add: level_file_ops_def LevelFile_Seek_def)
next
  case (7 it es i)
  then have f: "files_sorted icmp good (lfi_heap it) (lfi_flist it)" "es = level_entries (lfi_heap it) (lfi_flist it)"
    "unat (lfi_index it) = i" "i < length (lfi_flist it)" by (auto simp: level_rep_def entry_pos_def split: if_splits)
  have "lfi_index it = of_nat i" using f(3) by auto
  then have "lfi_index it + 1 = of_nat (Suc i)" by simp
  then show ?case using f level_repI [OF f(1), of "Suc i" "it\<lparr>lfi_index := lfi_index it + 1\<rparr>"]
    by (simp add: level_file_ops_def LevelFile_Next_def LevelFile_Valid_def)
next
  case (8 it es i)
  then have f: "files_sorted icmp good (lfi_heap it) (lfi_flist it)" "es = level_entries (lfi_heap it) (lfi_flist it)"
    "unat (lfi_index it) = i" "i < length (lfi_flist it)" by (auto simp: level_rep_def entry_pos_def split: if_splits)
  define n where "n = (if i = 0 then length (lfi_flist it) else i - 1)"
  have "(if lfi_index it = 0 then of_nat (length (lfi_flist it)) else lfi_index it - 1) = of_nat n"
  proof (cases "i = 0")
    case True
    then show ?thesis using f(3) by (simp add: n_def unat_eq_zero)
  next
    case False
    then have "lfi_index it = of_nat (Suc (i - 1))" "lfi_index it \<noteq> 0" using f(3) by auto
    then show ?thesis using False by (simp add: n_def)
  qed
  moreover have "entry_pos es n = (if i = 0 then None else Some (i - 1))" using f(2,4) by (auto simp: n_def entry_pos_def)
  ultimately show ?case using f level_repI [OF f(1), of n "it\<lparr>lfi_index := of_nat n\<rparr>"]
    by (auto simp: level_file_ops_def LevelFile_Prev_def LevelFile_Valid_def n_def)
qed (auto simp: level_rep_def entry_pos_def level_file_ops_def LevelFile_Valid_def split: if_splits)

section \<open>Overlaps\<close>

definition ikey_ok :: "(slice \<Rightarrow> bool) \<Rightarrow> slice \<Rightarrow> bool" where
  "ikey_ok ugood k \<longleftrightarrow> valid_ikey ugood k \<and> ExtractValueType k \<le> kTypeValue"

lemma ikey_okD: "ikey_ok ugood k \<Longrightarrow> valid_ikey ugood k" "ikey_ok ugood k \<Longrightarrow> ugood (ExtractUserKey k)"
  by (simp_all add: ikey_ok_def valid_ikey_def)

text \<open>The key \<open>SomeFileOverlapsRange\<close> searches for comes before all entries of its user key.\<close>

lemma ikey_num_max: "ikey_ok ugood k \<Longrightarrow> key_num k \<le> PackSequenceAndType kMaxSequenceNumber kValueTypeForSeek"
proof -
  assume "ikey_ok ugood k"
  then have t: "ucast (key_num k AND 0xFF) \<le> kTypeValue" by (simp add: ikey_ok_def ExtractValueType_def)
  have "unat (key_num k) < 2 ^ 64" using unsigned_less [of "key_num k"] by simp
  then have "unat (drop_bit 8 (key_num k)) < 2 ^ 56" by (simp add: drop_bit_eq_div unat_div)
  then have m: "drop_bit 8 (key_num k) \<le> kMaxSequenceNumber" by (simp add: unat_seq_le_max)
  have "unat (key_num k) = unat (drop_bit 8 (key_num k)) * 256 + unat (ucast (key_num k AND 0xFF) :: u8)" using unpack(3) [OF m] by (metis repack)
  also have "\<dots> \<le> unat kMaxSequenceNumber * 256 + unat kTypeValue" using t m by (simp add: word_le_nat_alt add_mono)
  also have "\<dots> = unat (PackSequenceAndType kMaxSequenceNumber kValueTypeForSeek)" using unpack(3) [of kMaxSequenceNumber] by (simp add: kValueTypeForSeek_def)
  finally show ?thesis by (simp add: word_le_nat_alt)
qed

lemma seek_key_first: "ikey_ok ugood k \<Longrightarrow> InternalKeyCompare ucmp k (InternalKey_new u kMaxSequenceNumber kValueTypeForSeek) < 0 \<longleftrightarrow> ucmp (ExtractUserKey k) u < 0"
  using ikey_num_max [of ugood k] by (auto simp: InternalKeyCompare_sign)

text \<open>A level above 0: the files hold disjoint ranges in increasing order.\<close>

definition file_range_ok :: "(slice \<Rightarrow> slice \<Rightarrow> int) \<Rightarrow> (slice \<Rightarrow> bool) \<Rightarrow> file_heap \<Rightarrow> fptr \<Rightarrow> bool" where
  "file_range_ok ucmp ugood H f \<longleftrightarrow> ikey_ok ugood (fm_smallest (H f)) \<and> ikey_ok ugood (fm_largest (H f)) \<and>
     InternalKeyCompare ucmp (fm_smallest (H f)) (fm_largest (H f)) \<le> 0"

definition level_disjoint :: "(slice \<Rightarrow> slice \<Rightarrow> int) \<Rightarrow> (slice \<Rightarrow> bool) \<Rightarrow> file_heap \<Rightarrow> fptr list \<Rightarrow> bool" where
  "level_disjoint ucmp ugood H files \<longleftrightarrow> length files < 2 ^ 31 \<and> (\<forall>f\<in>set files. file_range_ok ucmp ugood H f) \<and>
     sorted_wrt (\<lambda>f g. InternalKeyCompare ucmp (fm_largest (H f)) (fm_smallest (H g)) < 0) files"

text \<open>The contract of \<open>SomeFileOverlapsRange\<close>: a missing bound is no bound.\<close>

definition overlaps :: "(slice \<Rightarrow> slice \<Rightarrow> int) \<Rightarrow> file_heap \<Rightarrow> slice option \<Rightarrow> slice option \<Rightarrow> fptr \<Rightarrow> bool" where
  "overlaps ucmp H lo hi f \<longleftrightarrow> (\<forall>k. lo = Some k \<longrightarrow> ucmp k (largest_user_key H f) \<le> 0) \<and> (\<forall>k. hi = Some k \<longrightarrow> ucmp (smallest_user_key H f) k \<le> 0)"

text \<open>
  A range is closed for some files when each of them that overlaps it lies inside; \<open>covers\<close>: a range reaches at least
  as far as another one, with the same missing bounds.
\<close>

definition closed_range :: "(slice \<Rightarrow> slice \<Rightarrow> int) \<Rightarrow> file_heap \<Rightarrow> fptr list \<Rightarrow> slice option \<times> slice option \<Rightarrow> bool" where
  "closed_range ucmp H files r \<longleftrightarrow> (\<forall>f\<in>set files. \<not> skips_file ucmp H (fst r) (snd r) f \<longrightarrow>
     \<not> starts_before ucmp H (fst r) f \<and> \<not> ends_after ucmp H (snd r) f)"

definition range_good :: "(slice \<Rightarrow> bool) \<Rightarrow> slice option \<times> slice option \<Rightarrow> bool" where
  "range_good ugood r \<longleftrightarrow> (\<forall>k. fst r = Some k \<longrightarrow> ugood k) \<and> (\<forall>k. snd r = Some k \<longrightarrow> ugood k)"

definition bound_le :: "(slice \<Rightarrow> slice \<Rightarrow> int) \<Rightarrow> slice option \<Rightarrow> slice option \<Rightarrow> bool" where
  "bound_le ucmp a b \<longleftrightarrow> (case (a, b) of (None, None) \<Rightarrow> True | (Some x, Some y) \<Rightarrow> ucmp x y \<le> 0 | _ \<Rightarrow> False)"

definition covers :: "(slice \<Rightarrow> slice \<Rightarrow> int) \<Rightarrow> slice option \<times> slice option \<Rightarrow> slice option \<times> slice option \<Rightarrow> bool" where
  "covers ucmp r r' \<longleftrightarrow> bound_le ucmp (fst r) (fst r') \<and> bound_le ucmp (snd r') (snd r)"

lemma bound_le_simps [simp]: "bound_le ucmp a (Some y) \<longleftrightarrow> (\<exists>x. a = Some x \<and> ucmp x y \<le> 0)" "bound_le ucmp (Some x) b \<longleftrightarrow> (\<exists>y. b = Some y \<and> ucmp x y \<le> 0)"
  "bound_le ucmp None b \<longleftrightarrow> b = None" "bound_le ucmp a None \<longleftrightarrow> a = None"
  by (auto simp: bound_le_def split: option.splits)

lemma length_filter_less_of:
  assumes "x \<in> set xs" "P x" and "\<And>y. y \<in> set xs \<Longrightarrow> Q y \<Longrightarrow> P y" and "\<not> Q x"
  shows "length (filter Q xs) < length (filter P xs)"
proof -
  have "filter Q xs = filter Q (filter P xs)" using assms(3) by (auto intro: filter_cong)
  then show ?thesis using length_filter_less [of x "filter P xs" Q] assms by simp
qed

locale version_files = user: comparator ucmp ugood
  for ucmp :: "slice \<Rightarrow> slice \<Rightarrow> int" and ugood :: "slice \<Rightarrow> bool"
begin

lemma internal: "comparator (InternalKeyCompare ucmp) (valid_ikey ugood)"
proof -
  have "user_comparator ucmp ugood (\<lambda>a b. a) (\<lambda>k. k)" by unfold_locales auto
  then show ?thesis using user_comparator.internal_key_comparator key_comparator_def by blast
qed

lemma file_keys:
  assumes "file_range_ok ucmp ugood H f"
  shows "valid_ikey ugood (fm_smallest (H f))" "valid_ikey ugood (fm_largest (H f))" "ugood (smallest_user_key H f)" "ugood (largest_user_key H f)"
    "ucmp (smallest_user_key H f) (largest_user_key H f) \<le> 0"
  using assms by (auto simp: file_range_ok_def ikey_okD InternalKeyCompare_sign)

lemma level_between:
  assumes files: "level_disjoint ucmp ugood H files" and ij: "i < j" "j < length files"
  shows "InternalKeyCompare ucmp (fm_largest (H (files ! i))) (fm_smallest (H (files ! j))) < 0"
  using assms by (simp add: level_disjoint_def sorted_wrt_iff_nth_less)

lemma disjoint_sorted:
  assumes "level_disjoint ucmp ugood H files"
  shows "files_sorted (InternalKeyCompare ucmp) (valid_ikey ugood) H files"
  unfolding files_sorted_def sorted_wrt_iff_nth_less
proof (intro conjI allI impI)
  fix i j assume ij: "i < j" "j < length files"
  then have r: "file_range_ok ucmp ugood H (files ! i)" "file_range_ok ucmp ugood H (files ! j)" using assms by (simp_all add: level_disjoint_def)
  have "InternalKeyCompare ucmp (fm_largest (H (files ! i))) (fm_smallest (H (files ! j))) \<le> 0" using level_between [OF assms ij] by simp
  then show "InternalKeyCompare ucmp (fm_largest (H (files ! i))) (fm_largest (H (files ! j))) \<le> 0"
    using comparator.le_trans [OF internal file_keys(2) [OF r(1)] file_keys(1,2) [OF r(2)]] r(2) by (simp add: file_range_ok_def)
qed (use assms file_keys in \<open>auto simp: level_disjoint_def\<close>)

text \<open>Of two files of a level the first one starts first.\<close>

lemma smallest_mono:
  assumes files: "level_disjoint ucmp ugood H files" and ij: "i \<le> j" "j < length files"
  shows "ucmp (smallest_user_key H (files ! i)) (smallest_user_key H (files ! j)) \<le> 0"
proof (cases "i = j")
  case True
  then show ?thesis using file_keys(3) files ij(2) by (simp add: level_disjoint_def)
next
  case False
  have r: "file_range_ok ucmp ugood H (files ! i)" "file_range_ok ucmp ugood H (files ! j)" using files ij by (simp_all add: level_disjoint_def)
  have "ucmp (largest_user_key H (files ! i)) (smallest_user_key H (files ! j)) \<le> 0"
    using level_between [OF files, of i j] False ij by (auto simp: InternalKeyCompare_sign)
  then show ?thesis using user.le_trans [OF file_keys(3,4) [OF r(1)] file_keys(3) [OF r(2)]] file_keys(5) [OF r(1)] by simp
qed

lemma overlaps_files:
  assumes "file_range_ok ucmp ugood H f" and "\<forall>k. lo = Some k \<longrightarrow> ugood k" and "\<forall>k. hi = Some k \<longrightarrow> ugood k"
  shows "overlaps ucmp H lo hi f \<longleftrightarrow> \<not> AfterFile ucmp H lo f \<and> \<not> BeforeFile ucmp H hi f"
  using assms file_keys(3,4) [OF assms(1)] by (auto simp: overlaps_def AfterFile_def BeforeFile_def user.not_less split: option.splits)

lemma SomeFileOverlaps_any:
  assumes "\<forall>f\<in>set files. file_range_ok ucmp ugood H f" and "\<forall>k. lo = Some k \<longrightarrow> ugood k" and "\<forall>k. hi = Some k \<longrightarrow> ugood k"
  shows "SomeFileOverlapsRange ucmp H False files lo hi = Some (\<exists>f\<in>set files. overlaps ucmp H lo hi f)"
  using assms overlaps_files by (auto simp: SomeFileOverlapsRange_def list_ex_iff)

lemma SomeFileOverlaps_sorted:
  assumes files: "level_disjoint ucmp ugood H files" and lo: "\<forall>k. lo = Some k \<longrightarrow> ugood k" and hi: "\<forall>k. hi = Some k \<longrightarrow> ugood k"
  shows "SomeFileOverlapsRange ucmp H True files lo hi = Some (\<exists>f\<in>set files. overlaps ucmp H lo hi f)"
proof -
  have rng: "file_range_ok ucmp ugood H f" if "f \<in> set files" for f using files that by (simp add: level_disjoint_def)
  define n where "n = length (takeWhile (AfterFile ucmp H lo) files)"
  have idx: "(case lo of None \<Rightarrow> Some 0
      | Some k \<Rightarrow> FindFile (InternalKeyCompare ucmp) H files (InternalKey_new k kMaxSequenceNumber kValueTypeForSeek)) = Some n"
  proof (cases lo)
    case None
    then show ?thesis by (cases files) (simp_all add: n_def AfterFile_def)
  next
    case (Some k)
    let ?K = "InternalKey_new k kMaxSequenceNumber kValueTypeForSeek"
    have "InternalKeyCompare ucmp (fm_largest (H f)) ?K < 0 \<longleftrightarrow> AfterFile ucmp H lo f" if "f \<in> set files" for f
      using seek_key_first [of ugood "fm_largest (H f)" ucmp k] rng [OF that] file_keys(4) [OF rng [OF that]] lo Some user.gt_iff
      by (auto simp: AfterFile_def file_range_ok_def)
    then have "takeWhile (\<lambda>f. InternalKeyCompare ucmp (fm_largest (H f)) ?K < 0) files = takeWhile (AfterFile ucmp H lo) files"
      by (intro takeWhile_cong) simp_all
    then have "seek_pos (InternalKeyCompare ucmp) (level_entries H files) ?K = n"
      by (simp add: seek_pos_def level_entries_def takeWhile_map comp_def n_def)
    then show ?thesis using FindFile_correct [OF internal disjoint_sorted [OF files], of ?K] lo Some by simp
  qed
  have after: "AfterFile ucmp H lo (files ! i)" if "i < n" for i
    using that nth_mem [of i "takeWhile (AfterFile ucmp H lo) files"] takeWhile_nth [of i "AfterFile ucmp H lo" files]
    by (auto simp: n_def dest: set_takeWhileD)
  have eq: "SomeFileOverlapsRange ucmp H True files lo hi = (if length files \<le> n then Some False else Some (\<not> BeforeFile ucmp H hi (files ! n)))"
    using idx by (simp add: SomeFileOverlapsRange_def)
  show ?thesis
  proof (cases "length files \<le> n")
    case True
    then show ?thesis using eq after overlaps_files [OF rng lo hi] by (fastforce simp: in_set_conv_nth)
  next
    case False
    then have notafter: "\<not> AfterFile ucmp H lo (files ! n)" using nth_length_takeWhile [of "AfterFile ucmp H lo" files] by (simp add: n_def)
    have "BeforeFile ucmp H hi (files ! j)" if b: "BeforeFile ucmp H hi (files ! n)" and j: "n \<le> j" "j < length files" for j
    proof -
      obtain k where k: "hi = Some k" "ucmp k (smallest_user_key H (files ! n)) < 0" using b by (auto simp: BeforeFile_def split: option.splits)
      have "ucmp k (smallest_user_key H (files ! j)) < 0"
        using user.less_le_trans [OF _ _ _ k(2) smallest_mono [OF files j]] hi k(1) file_keys(3) [OF rng] j False by simp
      then show ?thesis using k by (simp add: BeforeFile_def)
    qed
    then have "(\<exists>f\<in>set files. overlaps ucmp H lo hi f) \<longleftrightarrow> \<not> BeforeFile ucmp H hi (files ! n)"
      using overlaps_files [OF rng lo hi] notafter after False by (metis in_set_conv_nth leI)
    then show ?thesis using eq False by simp
  qed
qed

subsection \<open>The overlapping inputs\<close>

lemma bound_le_refl: "\<forall>k. a = Some k \<longrightarrow> ugood k \<Longrightarrow> bound_le ucmp a a"
  by (cases a) simp_all

lemma covers_refl: "range_good ugood r \<Longrightarrow> covers ucmp r r"
  using bound_le_refl by (simp add: covers_def range_good_def)

lemma bound_le_trans:
  assumes g: "\<forall>k. a = Some k \<or> b = Some k \<or> c = Some k \<longrightarrow> ugood k" and ab: "bound_le ucmp a b" and bc: "bound_le ucmp b c"
  shows "bound_le ucmp a c"
proof (cases b)
  case None
  then show ?thesis using ab bc by simp
next
  case (Some y)
  then obtain x z where "a = Some x" "c = Some z" "ucmp x y \<le> 0" "ucmp y z \<le> 0" using ab bc by auto
  then show ?thesis using g Some user.le_trans [of x y z] by simp
qed

lemma covers_trans: "range_good ugood a \<Longrightarrow> range_good ugood b \<Longrightarrow> range_good ugood c \<Longrightarrow> covers ucmp a b \<Longrightarrow> covers ucmp b c \<Longrightarrow> covers ucmp a c"
  using bound_le_trans [of "fst a" "fst b" "fst c"] bound_le_trans [of "snd c" "snd b" "snd a"] by (auto simp: covers_def range_good_def)

text \<open>Widening the range by a file that overlaps it.\<close>

lemma widen_begin:
  assumes f: "file_range_ok ucmp ugood H f" and r: "range_good ugood r" and s: "\<not> skips_file ucmp H (fst r) (snd r) f" "starts_before ucmp H (fst r) f"
  defines "r' \<equiv> (Some (smallest_user_key H f), snd r)"
  shows "range_good ugood r'" and "covers ucmp r' r"
    and "range_good ugood R \<Longrightarrow> closed_range ucmp H files R \<Longrightarrow> f \<in> set files \<Longrightarrow> covers ucmp R r \<Longrightarrow> covers ucmp R r'"
proof -
  note g = file_keys(3,4,5) [OF f]
  show r': "range_good ugood r'" using r g by (simp add: range_good_def r'_def)
  show "covers ucmp r' r" using s(2) r bound_le_refl by (auto simp: covers_def r'_def starts_before_def range_good_def split: option.splits)
  show "covers ucmp R r'" if R: "range_good ugood R" "closed_range ucmp H files R" "f \<in> set files" "covers ucmp R r"
  proof -
    obtain b where b: "fst r = Some b" "ucmp (smallest_user_key H f) b < 0" using s(2) by (auto simp: starts_before_def split: option.splits)
    obtain B where B: "fst R = Some B" "ucmp B b \<le> 0" using R(4) b(1) by (auto simp: covers_def)
    have gb: "ugood b" "ugood B" using r R(1) b B by (simp_all add: range_good_def)
    have "\<not> ucmp (largest_user_key H f) B < 0"
    proof
      assume "ucmp (largest_user_key H f) B < 0"
      then have "ucmp (largest_user_key H f) b < 0" using user.less_le_trans [OF g(2) gb(2,1)] B by blast
      then show False using s(1) b by (simp add: skips_file_def)
    qed
    moreover have "\<not> ucmp (smallest_user_key H f) E > 0" if SE: "snd R = Some E" for E
    proof
      assume gt: "ucmp (smallest_user_key H f) E > 0"
      obtain e where e: "snd r = Some e" "ucmp e E \<le> 0" using R(4) SE by (auto simp: covers_def)
      have ge: "ugood e" "ugood E" using r R(1) e SE by (simp_all add: range_good_def)
      have "ucmp e (smallest_user_key H f) < 0" using user.le_less_trans [OF ge g(1) e(2)] gt user.gt_iff [OF g(1) ge(2)] by simp
      then show False using s(1) e user.gt_iff [OF g(1) ge(1)] by (simp add: skips_file_def)
    qed
    ultimately have "\<not> skips_file ucmp H (fst R) (snd R) f" using B by (auto simp: skips_file_def split: option.splits)
    then have "\<not> ucmp (smallest_user_key H f) B < 0" using R(2,3) B by (auto simp: closed_range_def starts_before_def)
    then show ?thesis using R(4) B b user.not_less [OF g(1) gb(2)] by (auto simp: covers_def r'_def split: option.splits)
  qed
qed

lemma widen_end:
  assumes f: "file_range_ok ucmp ugood H f" and r: "range_good ugood r" and s: "\<not> skips_file ucmp H (fst r) (snd r) f" "ends_after ucmp H (snd r) f"
  defines "r' \<equiv> (fst r, Some (largest_user_key H f))"
  shows "range_good ugood r'" and "covers ucmp r' r"
    and "range_good ugood R \<Longrightarrow> closed_range ucmp H files R \<Longrightarrow> f \<in> set files \<Longrightarrow> covers ucmp R r \<Longrightarrow> covers ucmp R r'"
proof -
  note g = file_keys(3,4,5) [OF f]
  show r': "range_good ugood r'" using r g by (simp add: range_good_def r'_def)
  obtain e where e: "snd r = Some e" "ucmp (largest_user_key H f) e > 0" using s(2) by (auto simp: ends_after_def split: option.splits)
  have ge: "ugood e" using r e by (simp add: range_good_def)
  have lt: "ucmp e (largest_user_key H f) < 0" using e(2) user.gt_iff [OF g(2) ge] by simp
  show "covers ucmp r' r" using lt e r bound_le_refl by (auto simp: covers_def r'_def range_good_def)
  show "covers ucmp R r'" if R: "range_good ugood R" "closed_range ucmp H files R" "f \<in> set files" "covers ucmp R r"
  proof -
    obtain E where E: "snd R = Some E" "ucmp e E \<le> 0" using R(4) e(1) by (auto simp: covers_def)
    have gE: "ugood E" using R(1) E by (simp add: range_good_def)
    have "\<not> ucmp (smallest_user_key H f) E > 0"
    proof
      assume "ucmp (smallest_user_key H f) E > 0"
      then have "ucmp e (smallest_user_key H f) < 0" using user.le_less_trans [OF ge gE g(1) E(2)] user.gt_iff [OF g(1) gE] by simp
      then show False using s(1) e user.gt_iff [OF g(1) ge] by (simp add: skips_file_def)
    qed
    moreover have "\<not> ucmp (largest_user_key H f) B < 0" if SB: "fst R = Some B" for B
    proof
      assume lt: "ucmp (largest_user_key H f) B < 0"
      obtain b where b: "fst r = Some b" "ucmp B b \<le> 0" using R(4) SB by (auto simp: covers_def)
      have gb: "ugood b" "ugood B" using r R(1) b SB by (simp_all add: range_good_def)
      show False using s(1) b user.less_le_trans [OF g(2) gb(2,1) lt b(2)] by (simp add: skips_file_def)
    qed
    ultimately have "\<not> skips_file ucmp H (fst R) (snd R) f" using E by (auto simp: skips_file_def split: option.splits)
    then have "\<not> ucmp (largest_user_key H f) E > 0" using R(2,3) E by (auto simp: closed_range_def ends_after_def)
    then show ?thesis using R(4) E e by (auto simp: covers_def r'_def split: option.splits)
  qed
qed

text \<open>Each time the loop starts again fewer files reach out of the range.\<close>

definition sticking_out :: "file_heap \<Rightarrow> fptr list \<Rightarrow> slice option \<times> slice option \<Rightarrow> nat" where
  "sticking_out H files r = length (filter (starts_before ucmp H (fst r)) files) + length (filter (ends_after ucmp H (snd r)) files)"

lemma sticking_out_begin:
  assumes files: "\<forall>g\<in>set files. file_range_ok ucmp ugood H g" and f: "f \<in> set files" "starts_before ucmp H (fst r) f" and r: "range_good ugood r"
  shows "sticking_out H files (Some (smallest_user_key H f), snd r) < sticking_out H files r"
proof -
  obtain b where b: "fst r = Some b" "ucmp (smallest_user_key H f) b < 0" "ugood b"
    using f(2) r by (auto simp: starts_before_def range_good_def split: option.splits)
  have gf: "ugood (smallest_user_key H f)" using files f file_keys(3) by blast
  have "starts_before ucmp H (fst r) g" if "g \<in> set files" "starts_before ucmp H (Some (smallest_user_key H f)) g" for g
  proof -
    have "ucmp (smallest_user_key H g) (smallest_user_key H f) \<le> 0" using that(2) by (simp add: starts_before_def)
    moreover have "ugood (smallest_user_key H g)" using files that(1) file_keys(3) by blast
    ultimately show ?thesis using user.le_less_trans [OF _ gf b(3) _ b(2)] b(1) by (simp add: starts_before_def)
  qed
  moreover have "\<not> starts_before ucmp H (Some (smallest_user_key H f)) f" using gf by (simp add: starts_before_def)
  ultimately show ?thesis using length_filter_less_of [of f files "starts_before ucmp H (fst r)" "starts_before ucmp H (Some (smallest_user_key H f))"] f by (simp add: sticking_out_def)
qed

lemma sticking_out_end:
  assumes files: "\<forall>g\<in>set files. file_range_ok ucmp ugood H g" and f: "f \<in> set files" "ends_after ucmp H (snd r) f" and r: "range_good ugood r"
  shows "sticking_out H files (fst r, Some (largest_user_key H f)) < sticking_out H files r"
proof -
  obtain e where e: "snd r = Some e" "ucmp (largest_user_key H f) e > 0" "ugood e"
    using f(2) r by (auto simp: ends_after_def range_good_def split: option.splits)
  have gf: "ugood (largest_user_key H f)" using files f file_keys(4) by blast
  have "ends_after ucmp H (snd r) g" if "g \<in> set files" "ends_after ucmp H (Some (largest_user_key H f)) g" for g
  proof -
    have gg: "ugood (largest_user_key H g)" using files that(1) file_keys(4) by blast
    have "ucmp (largest_user_key H f) (largest_user_key H g) \<le> 0" using that(2) user.gt_iff [OF gg gf] by (simp add: ends_after_def)
    then have "ucmp e (largest_user_key H g) < 0" using user.less_le_trans [OF e(3) gf gg] e(2) user.gt_iff [OF gf e(3)] by simp
    then show ?thesis using e(1) user.gt_iff [OF gg e(3)] by (simp add: ends_after_def)
  qed
  moreover have "\<not> ends_after ucmp H (Some (largest_user_key H f)) f" using gf by (simp add: ends_after_def)
  ultimately show ?thesis using length_filter_less_of [of f files "ends_after ucmp H (snd r)" "ends_after ucmp H (Some (largest_user_key H f))"] f by (simp add: sticking_out_def)
qed

lemma overlapping_loop_ends:
  assumes files: "\<forall>f\<in>set files. file_range_ok ucmp ugood H f"
  shows "range_good ugood r \<Longrightarrow> i \<le> length files \<Longrightarrow> inputs = filter (\<lambda>f. \<not> skips_file ucmp H (fst r) (snd r) f) (take i files) \<Longrightarrow>
    (level0 \<longrightarrow> (\<forall>f\<in>set inputs. \<not> starts_before ucmp H (fst r) f \<and> \<not> ends_after ucmp H (snd r) f)) \<Longrightarrow>
    \<exists>r'. overlapping_loop ucmp H level0 files r i inputs = Some (filter (\<lambda>f. \<not> skips_file ucmp H (fst r') (snd r') f) files) \<and>
      range_good ugood r' \<and> covers ucmp r' r \<and> (if level0 then closed_range ucmp H files r' else r' = r) \<and>
      (\<forall>R. range_good ugood R \<and> closed_range ucmp H files R \<and> covers ucmp R r \<longrightarrow> covers ucmp R r')"
proof (induction "sticking_out H files r * Suc (length files) + (length files - i)" arbitrary: r i inputs rule: less_induct)
  case less
  let ?goal = "\<lambda>r i inputs. \<exists>r'. overlapping_loop ucmp H level0 files r i inputs = Some (filter (\<lambda>f. \<not> skips_file ucmp H (fst r') (snd r') f) files) \<and>
      range_good ugood r' \<and> covers ucmp r' r \<and> (if level0 then closed_range ucmp H files r' else r' = r) \<and>
      (\<forall>R. range_good ugood R \<and> closed_range ucmp H files R \<and> covers ucmp R r \<longrightarrow> covers ucmp R r')"
  note inputs = less.prems(3,4)
  show ?case
  proof (cases "i < length files")
    case False
    then have "inputs = filter (\<lambda>f. \<not> skips_file ucmp H (fst r) (snd r) f) files" using less.prems(2) inputs(1) by simp
    then show ?thesis using False covers_refl [OF less.prems(1)] less.prems(1) inputs(2)
      by (intro exI [of _ r]) (auto simp: overlapping_loop.simps [of _ _ _ files] closed_range_def)
  next
    case i: True
    define f where "f = files ! i"
    have f: "f \<in> set files" "file_range_ok ucmp ugood H f" using i files by (simp_all add: f_def)
    have take: "take (Suc i) files = take i files @ [f]" using i by (simp add: f_def take_Suc_conv_app_nth)
    have unf: "overlapping_loop ucmp H level0 files r i inputs =
        (if skips_file ucmp H (fst r) (snd r) f then overlapping_loop ucmp H level0 files r (Suc i) inputs
         else if level0 \<and> starts_before ucmp H (fst r) f then overlapping_loop ucmp H level0 files (Some (smallest_user_key H f), snd r) 0 []
         else if level0 \<and> ends_after ucmp H (snd r) f then overlapping_loop ucmp H level0 files (fst r, Some (largest_user_key H f)) 0 []
         else overlapping_loop ucmp H level0 files r (Suc i) (inputs @ [f]))"
      using i by (simp add: overlapping_loop.simps [of _ _ _ files r i] f_def Let_def)
    have again: "?goal r i inputs"
      if eq: "overlapping_loop ucmp H level0 files r i inputs = overlapping_loop ucmp H level0 files r1 0 []" and l0: level0
        and out: "sticking_out H files r1 < sticking_out H files r" and r1: "range_good ugood r1" "covers ucmp r1 r"
        and R1: "\<And>R. range_good ugood R \<Longrightarrow> closed_range ucmp H files R \<Longrightarrow> covers ucmp R r \<Longrightarrow> covers ucmp R r1" for r1
    proof -
      have "Suc (sticking_out H files r1) * Suc (length files) \<le> sticking_out H files r * Suc (length files)" using out by (intro mult_le_mono1) simp
      then have "sticking_out H files r1 * Suc (length files) + (length files - 0) < sticking_out H files r * Suc (length files) + (length files - i)" by simp
      from less.hyps [OF this r1(1)] obtain r' where r': "overlapping_loop ucmp H level0 files r1 0 [] = Some (filter (\<lambda>f. \<not> skips_file ucmp H (fst r') (snd r') f) files)"
        "range_good ugood r'" "covers ucmp r' r1" "closed_range ucmp H files r'"
        "\<forall>R. range_good ugood R \<and> closed_range ucmp H files R \<and> covers ucmp R r1 \<longrightarrow> covers ucmp R r'" using l0 by auto
      moreover have "covers ucmp r' r" by (rule covers_trans [OF r'(2) r1(1) less.prems(1) r'(3) r1(2)])
      ultimately show ?thesis using eq l0 R1 by (intro exI [of _ r']) simp
    qed
    have step: "sticking_out H files r * Suc (length files) + (length files - Suc i) < sticking_out H files r * Suc (length files) + (length files - i)" using i by simp
    show ?thesis
    proof (cases "skips_file ucmp H (fst r) (snd r) f")
      case True
      then show ?thesis using unf less.hyps [OF step less.prems(1)] inputs i take by simp
    next
      case over: False
      show ?thesis
      proof (cases "level0 \<and> starts_before ucmp H (fst r) f")
        case True
        then show ?thesis using unf over widen_begin [OF f(2) less.prems(1) over] f(1) sticking_out_begin [OF files f(1) _ less.prems(1)]
          by (intro again [of "(Some (smallest_user_key H f), snd r)"]) auto
      next
        case nb: False
        show ?thesis
        proof (cases "level0 \<and> ends_after ucmp H (snd r) f")
          case True
          then show ?thesis using unf over nb widen_end [OF f(2) less.prems(1) over] f(1) sticking_out_end [OF files f(1) _ less.prems(1)]
            by (intro again [of "(fst r, Some (largest_user_key H f))"]) auto
        next
          case False
          then show ?thesis using unf over nb less.hyps [OF step less.prems(1), of "inputs @ [f]"] inputs i take by auto
        qed
      qed
    qed
  qed
qed

lemma skips_overlaps:
  assumes "file_range_ok ucmp ugood H f" and "range_good ugood r"
  shows "\<not> skips_file ucmp H (fst r) (snd r) f \<longleftrightarrow> overlaps ucmp H (fst r) (snd r) f"
  using assms file_keys(3,4) [OF assms(1)] user.not_less
  by (auto simp: skips_file_def overlaps_def range_good_def split: option.splits)

lemma inside_range:
  assumes "file_range_ok ucmp ugood H f" and "range_good ugood r"
  shows "\<not> starts_before ucmp H (fst r) f \<and> \<not> ends_after ucmp H (snd r) f \<longleftrightarrow>
    (\<forall>k. fst r = Some k \<longrightarrow> ucmp k (smallest_user_key H f) \<le> 0) \<and> (\<forall>k. snd r = Some k \<longrightarrow> ucmp (largest_user_key H f) k \<le> 0)"
  using assms file_keys(3,4) [OF assms(1)] user.not_less
  by (auto simp: starts_before_def ends_after_def range_good_def split: option.splits)

lemma pick_level_safe:
  assumes lv: "\<And>l. 0 < l \<Longrightarrow> l < 7 \<Longrightarrow> level_disjoint ucmp ugood H (v_files v ! l)" and k: "ugood lo" "ugood hi"
  shows "level \<le> 2 \<Longrightarrow> \<exists>l. pick_level ucmp H v lo hi level = Some l \<and> level \<le> l \<and> l \<le> 2 \<and>
    (\<forall>m. level < m \<and> m \<le> l \<longrightarrow> (\<forall>f\<in>set (v_files v ! m). \<not> overlaps ucmp H (Some lo) (Some hi) f))"
proof (induction "2 - level" arbitrary: level)
  case 0
  then show ?case by (subst pick_level.simps) (auto simp: kMaxMemCompactLevel_def)
next
  case (Suc n)
  let ?over = "\<exists>f\<in>set (v_files v ! (level + 1)). overlaps ucmp H (Some lo) (Some hi) f"
  have ov: "OverlapInLevel ucmp H v (level + 1) (Some lo) (Some hi) = Some ?over"
    using SomeFileOverlaps_sorted [OF lv [of "level + 1"], of "Some lo" "Some hi"] Suc.hyps(2) k by (simp add: OverlapInLevel_def)
  have "level + 2 < 7" and l2: "level < 2" using Suc.hyps(2) by simp_all
  have rg: "range_good ugood (Some lo, Some hi)" using k by (simp add: range_good_def)
  have files: "\<forall>f\<in>set (v_files v ! (level + 2)). file_range_ok ucmp ugood H f" using lv [of "level + 2"] \<open>level + 2 < 7\<close> by (simp add: level_disjoint_def)
  obtain inputs where inp: "GetOverlappingInputs ucmp H (v_files v) (level + 2) (Some (InternalKey_new lo kMaxSequenceNumber kValueTypeForSeek))
      (Some (InternalKey_new hi 0 kTypeDeletion)) = Some inputs"
    using overlapping_loop_ends [OF files rg, of 0 "[]" False] \<open>level + 2 < 7\<close> by (auto simp: GetOverlappingInputs_def kNumLevels_def)
  have unf: "pick_level ucmp H v lo hi level =
      (if ?over then Some level else if TotalFileSize H inputs > kMaxGrandParentOverlapBytes then Some level else pick_level ucmp H v lo hi (level + 1))"
    using l2 ov inp \<open>level + 2 < 7\<close> by (subst pick_level.simps) (simp add: kMaxMemCompactLevel_def kNumLevels_def)
  show ?case
  proof (cases "?over \<or> TotalFileSize H inputs > kMaxGrandParentOverlapBytes")
    case True
    then show ?thesis using unf Suc.prems by auto
  next
    case False
    have n1: "n = 2 - (level + 1)" "level + 1 \<le> 2" using Suc.hyps(2) l2 by simp_all
    obtain l where l: "pick_level ucmp H v lo hi (level + 1) = Some l" "level + 1 \<le> l" "l \<le> 2"
      "\<forall>m. level + 1 < m \<and> m \<le> l \<longrightarrow> (\<forall>f\<in>set (v_files v ! m). \<not> overlaps ucmp H (Some lo) (Some hi) f)"
      using Suc.hyps(1) [of "level + 1"] n1 by blast
    have "\<not> overlaps ucmp H (Some lo) (Some hi) f" if "level < m" "m \<le> l" "f \<in> set (v_files v ! m)" for m f
    proof (cases "m = level + 1")
      case eq: True
      then show ?thesis using that False by blast
    next
      case ne: False
      then have "level + 1 < m" using that(1) by simp
      then show ?thesis using l(4) that(2,3) by blast
    qed
    then show ?thesis using unf False l by auto
  qed
qed

end

section \<open>The searches keep their contracts\<close>

text \<open>
  C7: \<open>SomeFileOverlapsRange\<close> tells whether some file overlaps the range of user keys, for overlapping files and by binary search
  for disjoint ones, with either bound missing.
\<close>

theorem overlap_search_correct:
  assumes "comparator ucmp ugood" and "\<forall>k. lo = Some k \<longrightarrow> ugood k" and "\<forall>k. hi = Some k \<longrightarrow> ugood k"
    and "if disjoint_sorted then level_disjoint ucmp ugood H files else \<forall>f\<in>set files. file_range_ok ucmp ugood H f"
  shows "SomeFileOverlapsRange ucmp H disjoint_sorted files lo hi = Some (\<exists>f\<in>set files. overlaps ucmp H lo hi f)"
  using assms version_files.SomeFileOverlaps_sorted [of ucmp ugood H files lo hi] version_files.SomeFileOverlaps_any [of ucmp ugood files H lo hi]
  by (cases disjoint_sorted) (simp_all add: version_files_def)

text \<open>
  C6: \<open>GetOverlappingInputs\<close> ends and returns the files of the level that overlap a range.  Above level 0 this is the
  given range.  On level 0 the range is widened to the least one that no file sticks out of, so a
  compaction never takes a file and leaves an overlapping one behind.
\<close>

theorem overlapping_inputs_closed:
  assumes cmp: "comparator ucmp ugood" and files: "\<forall>f\<in>set (levels ! level). file_range_ok ucmp ugood H f" and l: "level < 7"
    and r: "range_good ugood (map_option ExtractUserKey lo, map_option ExtractUserKey hi)"
  shows "\<exists>r. GetOverlappingInputs ucmp H levels level lo hi = Some (filter (overlaps ucmp H (fst r) (snd r)) (levels ! level)) \<and>
    covers ucmp r (map_option ExtractUserKey lo, map_option ExtractUserKey hi) \<and>
    (if level = 0
     then closed_range ucmp H (levels ! level) r \<and>
       (\<forall>R. range_good ugood R \<and> closed_range ucmp H (levels ! level) R \<and> covers ucmp R (map_option ExtractUserKey lo, map_option ExtractUserKey hi) \<longrightarrow>
          covers ucmp R r)
     else r = (map_option ExtractUserKey lo, map_option ExtractUserKey hi))"
proof -
  have loc: "version_files ucmp ugood" using cmp by (simp add: version_files_def)
  obtain r' where r': "overlapping_loop ucmp H (level = 0) (levels ! level) (map_option ExtractUserKey lo, map_option ExtractUserKey hi) 0 [] =
      Some (filter (\<lambda>f. \<not> skips_file ucmp H (fst r') (snd r') f) (levels ! level))" "range_good ugood r'"
    "covers ucmp r' (map_option ExtractUserKey lo, map_option ExtractUserKey hi)"
    "if level = 0 then closed_range ucmp H (levels ! level) r' else r' = (map_option ExtractUserKey lo, map_option ExtractUserKey hi)"
    "\<forall>R. range_good ugood R \<and> closed_range ucmp H (levels ! level) R \<and> covers ucmp R (map_option ExtractUserKey lo, map_option ExtractUserKey hi) \<longrightarrow> covers ucmp R r'"
    using version_files.overlapping_loop_ends [OF loc files r, of 0 "[]" "level = 0"] by auto
  have "filter (\<lambda>f. \<not> skips_file ucmp H (fst r') (snd r') f) (levels ! level) = filter (overlaps ucmp H (fst r') (snd r')) (levels ! level)"
    using version_files.skips_overlaps [OF loc _ r'(2)] files by (intro filter_cong) simp_all
  then show ?thesis using r' l by (intro exI [of _ r'], cases "level = 0") (simp_all add: GetOverlappingInputs_def kNumLevels_def)
qed

text \<open>
  C8: The level chosen for the output of a memtable is at most 2 and safe: when it is not 0, no file on levels 0 up to it overlaps
  the output, so the newest data stays on top.
\<close>

theorem memtable_output_level:
  assumes cmp: "comparator ucmp ugood" and k: "ugood lo" "ugood hi" and l0: "\<forall>f\<in>set (v_files v ! 0). file_range_ok ucmp ugood H f"
    and lv: "\<And>l. 0 < l \<Longrightarrow> l < 7 \<Longrightarrow> level_disjoint ucmp ugood H (v_files v ! l)"
  shows "\<exists>l. PickLevelForMemTableOutput ucmp H v lo hi = Some l \<and> l \<le> 2 \<and>
    (l = 0 \<or> (\<forall>m\<le>l. \<forall>f\<in>set (v_files v ! m). \<not> overlaps ucmp H (Some lo) (Some hi) f))"
proof -
  have loc: "version_files ucmp ugood" using cmp by (simp add: version_files_def)
  have ov: "OverlapInLevel ucmp H v 0 (Some lo) (Some hi) = Some (\<exists>f\<in>set (v_files v ! 0). overlaps ucmp H (Some lo) (Some hi) f)"
    using version_files.SomeFileOverlaps_any [OF loc l0, of "Some lo" "Some hi"] k by (simp add: OverlapInLevel_def)
  obtain l where l: "pick_level ucmp H v lo hi 0 = Some l" "l \<le> 2" "\<forall>m. 0 < m \<and> m \<le> l \<longrightarrow> (\<forall>f\<in>set (v_files v ! m). \<not> overlaps ucmp H (Some lo) (Some hi) f)"
    using version_files.pick_level_safe [OF loc lv k, of 0] by auto
  show ?thesis
  proof (cases "\<exists>f\<in>set (v_files v ! 0). overlaps ucmp H (Some lo) (Some hi) f")
    case False
    have "\<not> overlaps ucmp H (Some lo) (Some hi) f" if "m \<le> l" "f \<in> set (v_files v ! m)" for m f
      using that l(3) False by (cases "m = 0") auto
    then show ?thesis using ov False l by (simp add: PickLevelForMemTableOutput_def)
  qed (use ov in \<open>simp add: PickLevelForMemTableOutput_def\<close>)
qed

section \<open>The bytewise comparator\<close>

interpretation bytewise_files: version_files BytewiseCompare "\<lambda>_. True"
  by unfold_locales

text \<open>Three files with a few entries: one on level 0, two on level 1.\<close>

definition sample_file :: "fptr \<Rightarrow> kv list" where
  "sample_file f =
     (if f = 0 then [(InternalKey_new [1] 7 kTypeValue, [70]), (InternalKey_new [2] 6 kTypeDeletion, [])]
      else if f = 1 then [(InternalKey_new [1] 3 kTypeValue, [30])]
      else [(InternalKey_new [2] 2 kTypeValue, [20]), (InternalKey_new [3] 1 kTypeValue, [10])])"

definition sample_heap :: file_heap where
  "sample_heap f = FileMetaData_new (of_nat (f + 10)) 100 (fst (hd (sample_file f))) (fst (last (sample_file f)))"

definition sample_version :: Version where
  "sample_version = Version_new\<lparr>v_files := [[0], [1, 2], [], [], [], [], []]\<rparr>"

lemma sample_levels [simp]: "level_files sample_version 0 = [0]" "level_files sample_version (Suc 0) = [1, 2]"
  "1 < l \<Longrightarrow> l < 7 \<Longrightarrow> level_files sample_version l = []"
  by (auto simp: sample_version_def level_files_def nth_Cons' )

lemma sample_files: "l < 7 \<Longrightarrow> f \<in> set (level_files sample_version l) \<Longrightarrow> f < 3"
  by (cases "l = 0"; cases "l = 1") auto

lemma sample_ranges: "f < 3 \<Longrightarrow> file_range_ok BytewiseCompare (\<lambda>_. True) sample_heap f"
proof -
  assume "f < 3"
  then have "f = 0 \<or> f = 1 \<or> f = 2" by auto
  moreover have "file_range_ok BytewiseCompare (\<lambda>_. True) sample_heap 0" "file_range_ok BytewiseCompare (\<lambda>_. True) sample_heap 1"
    "file_range_ok BytewiseCompare (\<lambda>_. True) sample_heap 2" by code_simp+
  ultimately show ?thesis by auto
qed

lemma sample_disjoint: "0 < l \<Longrightarrow> l < 7 \<Longrightarrow> level_disjoint BytewiseCompare (\<lambda>_. True) sample_heap (level_files sample_version l)"
proof -
  assume l: "0 < l" "l < 7"
  have "InternalKeyCompare BytewiseCompare (fm_largest (sample_heap 1)) (fm_smallest (sample_heap 2)) < 0" by code_simp
  then show ?thesis using l sample_ranges by (cases "l = 1") (simp_all add: level_disjoint_def)
qed

theorem overlap_search_correct_witness:
  "SomeFileOverlapsRange BytewiseCompare sample_heap True [1, 2] (Some [1, 5]) (Some [2, 0]) = Some True \<and>
   SomeFileOverlapsRange BytewiseCompare sample_heap False [0, 2] (Some [4]) None = Some False"
proof -
  have "level_disjoint BytewiseCompare (\<lambda>_. True) sample_heap [1, 2]" using sample_disjoint [of 1] by simp
  then have 1: "SomeFileOverlapsRange BytewiseCompare sample_heap True [1, 2] (Some [1, 5]) (Some [2, 0]) =
      Some (\<exists>f\<in>set [1, 2]. overlaps BytewiseCompare sample_heap (Some [1, 5]) (Some [2, 0]) f)"
    by (intro overlap_search_correct [OF bytewise.comparator_axioms]) simp_all
  have 2: "SomeFileOverlapsRange BytewiseCompare sample_heap False [0, 2] (Some [4]) None =
      Some (\<exists>f\<in>set [0, 2]. overlaps BytewiseCompare sample_heap (Some [4]) None f)"
    by (intro overlap_search_correct [OF bytewise.comparator_axioms]) (simp_all add: sample_ranges)
  have "overlaps BytewiseCompare sample_heap (Some [1, 5]) (Some [2, 0]) 2" "\<not> overlaps BytewiseCompare sample_heap (Some [4]) None 0"
    "\<not> overlaps BytewiseCompare sample_heap (Some [4]) None 2"
    by (simp_all add: overlaps_def sample_heap_def FileMetaData_new_def sample_file_def BytewiseCompare_def)
  then show ?thesis using 1 2 by auto
qed

text \<open>On a level 0 with three files the range of the first one grows until all are in.\<close>

theorem overlapping_inputs_closed_witness:
  "GetOverlappingInputs BytewiseCompare sample_heap [[1, 0, 2]] 0 (Some (InternalKey_new [1] 9 1)) (Some (InternalKey_new [1] 0 1)) = Some [1, 0, 2] \<and>
   (\<exists>r. closed_range BytewiseCompare sample_heap [1, 0, 2] r \<and> filter (overlaps BytewiseCompare sample_heap (fst r) (snd r)) [1, 0, 2] = [1, 0, 2])"
proof -
  have f: "\<forall>f\<in>set ([[1, 0, 2]] ! 0). file_range_ok BytewiseCompare (\<lambda>_. True) sample_heap f" by (simp add: sample_ranges)
  have g: "range_good (\<lambda>_. True) (map_option ExtractUserKey (Some (InternalKey_new [1] 9 1)), map_option ExtractUserKey (Some (InternalKey_new [1] 0 1)))"
    by (simp add: range_good_def)
  have eval: "GetOverlappingInputs BytewiseCompare sample_heap [[1, 0, 2]] 0 (Some (InternalKey_new [1] 9 1)) (Some (InternalKey_new [1] 0 1)) = Some [1, 0, 2]"
    by code_simp
  obtain r where "Some [1, 0, 2] = Some (filter (overlaps BytewiseCompare sample_heap (fst r) (snd r)) [1, 0, 2])" "closed_range BytewiseCompare sample_heap [1, 0, 2] r"
    using overlapping_inputs_closed [OF bytewise.comparator_axioms f _ g, unfolded eval] by auto
  then show ?thesis using eval by (metis option.inject)
qed

theorem memtable_output_level_witness:
  "\<exists>l. PickLevelForMemTableOutput BytewiseCompare sample_heap sample_version [4] [5] = Some l \<and> l \<le> 2 \<and>
     (l = 0 \<or> (\<forall>m\<le>l. \<forall>f\<in>set (v_files sample_version ! m). \<not> overlaps BytewiseCompare sample_heap (Some [4]) (Some [5]) f))"
proof (rule memtable_output_level [OF bytewise.comparator_axioms TrueI TrueI])
  show "\<forall>f\<in>set (v_files sample_version ! 0). file_range_ok BytewiseCompare (\<lambda>_. True) sample_heap f"
    using sample_levels(1) by (simp add: level_files_def sample_ranges)
qed (use sample_disjoint in \<open>simp add: level_files_def\<close>)

end
