(* ===== verification/LdbVersionGet.thy ===== *)
theory LdbVersionGet
  imports LdbVersion
begin

unbundle bit_operations_syntax

text \<open>
  Lookups in a version.  The files of a version are given the lists of entries they hold; the table cache
  is any that answers lookups in a file from its list.  Then \<open>Version::Get\<close> finds the
  newest entry of a user key that is not newer than the sequence number, among all files.
\<close>

section \<open>What the files hold\<close>

definition file_holds :: "(slice \<Rightarrow> slice \<Rightarrow> int) \<Rightarrow> (slice \<Rightarrow> bool) \<Rightarrow> file_heap \<Rightarrow> fptr \<Rightarrow> kv list \<Rightarrow> bool" where
  "file_holds ucmp ugood H f es \<longleftrightarrow> internal_ok ucmp ugood es \<and> es \<noteq> [] \<and> fst (hd es) = fm_smallest (H f) \<and> fst (last es) = fm_largest (H f)"

text \<open>Of a user key in both lists the first one has the newer entries.\<close>

definition newer :: "(slice \<Rightarrow> slice \<Rightarrow> int) \<Rightarrow> kv list \<Rightarrow> kv list \<Rightarrow> bool" where
  "newer ucmp as bs \<longleftrightarrow>
     (\<forall>a\<in>set as. \<forall>b\<in>set bs. ucmp (ExtractUserKey (fst a)) (ExtractUserKey (fst b)) = 0 \<longrightarrow> key_num (fst b) < key_num (fst a))"

text \<open>
  The invariant of a version: every file holds its entries, the levels above 0 are disjoint, and data moves down: an entry on
  a level, or in a level-0 file with a larger number, is newer than the entries of its key further down.
\<close>

definition version_ok :: "(slice \<Rightarrow> slice \<Rightarrow> int) \<Rightarrow> (slice \<Rightarrow> bool) \<Rightarrow> file_heap \<Rightarrow> (fptr \<Rightarrow> kv list) \<Rightarrow> Version \<Rightarrow> bool" where
  "version_ok ucmp ugood H C v \<longleftrightarrow>
     (\<forall>l<7. \<forall>f\<in>set (level_files v l). file_holds ucmp ugood H f (C f)) \<and>
     (\<forall>l. 0 < l \<and> l < 7 \<longrightarrow> level_disjoint ucmp ugood H (level_files v l)) \<and>
     (\<forall>l m. l < m \<and> m < 7 \<longrightarrow> (\<forall>f\<in>set (level_files v l). \<forall>g\<in>set (level_files v m). newer ucmp (C f) (C g))) \<and>
     distinct (map (\<lambda>f. fm_number (H f)) (level_files v 0)) \<and>
     (\<forall>f\<in>set (level_files v 0). \<forall>g\<in>set (level_files v 0). fm_number (H g) < fm_number (H f) \<longrightarrow> newer ucmp (C f) (C g))"

text \<open>
  What \<open>Get\<close> relies on of the table cache: it hands over the first entry that is not below the key, or nothing when the file
  has no entry for the user key (the filter may know).
\<close>

definition table_get_ok ::
    "(slice \<Rightarrow> slice \<Rightarrow> int) \<Rightarrow> (slice \<Rightarrow> bool) \<Rightarrow> 'c table_get \<Rightarrow> ('c \<Rightarrow> bool) \<Rightarrow> FileMetaData \<Rightarrow> kv list \<Rightarrow> bool" where
  "table_get_ok ucmp ugood tget cinv f es \<longleftrightarrow>
     (\<forall>ik c. valid_ikey ugood ik \<and> cinv c \<longrightarrow>
        (\<exists>saved c'. tget (fm_number f) (fm_file_size f) ik c = Some (Status_OK, saved, c') \<and> cinv c' \<and>
           (saved = (let p = seek_pos (InternalKeyCompare ucmp) es ik in if p < length es then Some (es ! p) else None) \<or>
            saved = None \<and> (\<forall>e\<in>set es. ucmp (ExtractUserKey (fst e)) (ExtractUserKey ik) \<noteq> 0))))"

definition shown :: "(slice \<Rightarrow> slice \<Rightarrow> int) \<Rightarrow> slice \<Rightarrow> u64 \<Rightarrow> kv \<Rightarrow> bool" where
  "shown ucmp u s e \<longleftrightarrow> ucmp (ExtractUserKey (fst e)) u = 0 \<and> drop_bit 8 (key_num (fst e)) \<le> s"

definition newest_in :: "(slice \<Rightarrow> slice \<Rightarrow> int) \<Rightarrow> slice \<Rightarrow> u64 \<Rightarrow> kv set \<Rightarrow> kv \<Rightarrow> bool" where
  "newest_in ucmp u s E e \<longleftrightarrow> e \<in> E \<and> shown ucmp u s e \<and> (\<forall>e'\<in>E. shown ucmp u s e' \<longrightarrow> key_num (fst e') \<le> key_num (fst e))"

text \<open>The answer for an entry: its value, or not found when it is a deletion.\<close>

definition answer :: "kv \<Rightarrow> slice \<Rightarrow> status \<Rightarrow> slice \<Rightarrow> bool" where
  "answer e val st val' \<longleftrightarrow>
     (if ExtractValueType (fst e) = kTypeValue then st = Status_OK \<and> val' = snd e else st = NotFound [] [] \<and> val' = val)"

definition searched :: "(slice \<Rightarrow> slice \<Rightarrow> int) \<Rightarrow> slice \<Rightarrow> u64 \<Rightarrow> kv set \<Rightarrow> slice \<Rightarrow> status option \<Rightarrow> slice \<Rightarrow> bool" where
  "searched ucmp u s E val r val' \<longleftrightarrow>
     (case r of None \<Rightarrow> val' = val \<and> (\<forall>e\<in>E. \<not> shown ucmp u s e) | Some st \<Rightarrow> \<exists>e. newest_in ucmp u s E e \<and> answer e val st val')"

lemma version_okD:
  assumes "version_ok ucmp ugood H C v"
  shows "l < 7 \<Longrightarrow> f \<in> set (level_files v l) \<Longrightarrow> file_holds ucmp ugood H f (C f)"
    and "l < 7 \<Longrightarrow> f \<in> set (level_files v l) \<Longrightarrow> internal_ok ucmp ugood (C f)"
    and "0 < l \<Longrightarrow> l < 7 \<Longrightarrow> level_disjoint ucmp ugood H (level_files v l)"
    and "l < m \<Longrightarrow> m < 7 \<Longrightarrow> f \<in> set (level_files v l) \<Longrightarrow> g \<in> set (level_files v m) \<Longrightarrow> newer ucmp (C f) (C g)"
  using assms unfolding version_ok_def file_holds_def by blast+

lemma newest_Un:
  assumes n: "newest_in ucmp u s A e"
    and le: "\<And>b. b \<in> B \<Longrightarrow> shown ucmp u s b \<Longrightarrow> \<exists>a\<in>A. shown ucmp u s a \<and> key_num (fst b) \<le> key_num (fst a)"
  shows "newest_in ucmp u s (A \<union> B) e"
  unfolding newest_in_def
proof (intro conjI ballI impI)
  fix b assume b: "b \<in> A \<union> B" "shown ucmp u s b"
  then obtain a where "a \<in> A" "shown ucmp u s a" "key_num (fst b) \<le> key_num (fst a)" using le by blast
  then show "key_num (fst b) \<le> key_num (fst e)" using n unfolding newest_in_def by (meson order_trans)
qed (use n in \<open>auto simp: newest_in_def\<close>)

lemma newest_skip: "\<forall>a\<in>A. \<not> shown ucmp u s a \<Longrightarrow> newest_in ucmp u s B e \<Longrightarrow> newest_in ucmp u s (A \<union> B) e"
  by (auto simp: newest_in_def)

definition looked_up :: "(slice \<Rightarrow> slice \<Rightarrow> int) \<Rightarrow> slice \<Rightarrow> u64 \<Rightarrow> kv set \<Rightarrow> slice \<Rightarrow> status \<Rightarrow> slice \<Rightarrow> bool" where
  "looked_up ucmp u s E val st val' \<longleftrightarrow>
     (\<exists>e. newest_in ucmp u s E e \<and> answer e val st val') \<or> (\<forall>e\<in>E. \<not> shown ucmp u s e) \<and> st = NotFound [] [] \<and> val' = val"

definition version_entries :: "(fptr \<Rightarrow> kv list) \<Rightarrow> Version \<Rightarrow> kv set" where
  "version_entries C v = (\<Union>l\<in>{..<7}. \<Union>f\<in>set (level_files v l). set (C f))"

lemma searched_SomeI: "newest_in ucmp u s E e \<Longrightarrow> answer e val st val' \<Longrightarrow> searched ucmp u s E val (Some st) val'"
  unfolding searched_def option.case by blast

section \<open>One file\<close>

context version_files
begin

lemma shown_iff:
  assumes k: "ikey_ok ugood k" and s: "s \<le> kMaxSequenceNumber"
  shows "drop_bit 8 (key_num k) \<le> s \<longleftrightarrow> key_num k \<le> PackSequenceAndType s kValueTypeForSeek"
proof -
  have t: "ucast (key_num k AND 0xFF) \<le> kTypeValue" using k by (simp add: ikey_ok_def ExtractValueType_def)
  have m: "drop_bit 8 (key_num k) \<le> kMaxSequenceNumber"
  proof -
    have "unat (key_num k) < 2 ^ 64" using unsigned_less [of "key_num k"] by simp
    then show ?thesis by (simp add: unat_seq_le_max drop_bit_eq_div unat_div)
  qed
  have "PackSequenceAndType s kTypeValue < PackSequenceAndType (drop_bit 8 (key_num k)) (ucast (key_num k AND 0xFF)) \<longleftrightarrow> s < drop_bit 8 (key_num k)"
    using pack_less [OF s m, of kTypeValue "ucast (key_num k AND 0xFF)"] t by auto
  then show ?thesis by (simp add: repack kValueTypeForSeek_def not_less [symmetric])
qed

lemma lookup_less:
  assumes k: "ikey_ok ugood k" and s: "s \<le> kMaxSequenceNumber"
  shows "InternalKeyCompare ucmp k (InternalKey_new u s kValueTypeForSeek) < 0 \<longleftrightarrow>
    ucmp (ExtractUserKey k) u < 0 \<or> ucmp (ExtractUserKey k) u = 0 \<and> \<not> drop_bit 8 (key_num k) \<le> s"
  using shown_iff [OF k s] by (auto simp: InternalKeyCompare_sign)

lemma entry_ok: "internal_ok ucmp ugood es \<Longrightarrow> e \<in> set es \<Longrightarrow> ikey_ok ugood (fst e)"
  by (auto simp: internal_ok_def ikey_ok_def)

lemma entry_good: "internal_ok ucmp ugood es \<Longrightarrow> i < length es \<Longrightarrow> ugood (ExtractUserKey (fst (es ! i)))"
  using entry_ok [of es "es ! i"] ikey_okD(2) by simp

lemma entries_good: "internal_ok ucmp ugood es \<Longrightarrow> e \<in> set es \<Longrightarrow> ugood (ExtractUserKey (fst e))"
  using entry_ok ikey_okD(2) by blast

text \<open>The first entry that is not below the lookup key is the newest one shown, if it has the user key; otherwise none is shown.\<close>

lemma lookup_entry:
  assumes es: "internal_ok ucmp ugood es" and s: "s \<le> kMaxSequenceNumber" and u: "ugood u"
  defines "p \<equiv> seek_pos (InternalKeyCompare ucmp) es (InternalKey_new u s kValueTypeForSeek)"
  shows "p < length es \<Longrightarrow> ucmp (ExtractUserKey (fst (es ! p))) u = 0 \<Longrightarrow> newest_in ucmp u s (set es) (es ! p)"
    and "\<not> (p < length es \<and> ucmp (ExtractUserKey (fst (es ! p))) u = 0) \<Longrightarrow> e \<in> set es \<Longrightarrow> \<not> shown ucmp u s e"
proof -
  let ?K = "InternalKey_new u s kValueTypeForSeek"
  note less = lookup_less [OF entry_ok [OF es] s, of _ u]
  have at: "\<not> InternalKeyCompare ucmp (fst (es ! p)) ?K < 0" if "p < length es"
    using seek_pos_at [of "InternalKeyCompare ucmp" es ?K] that by (simp add: p_def)
  have behind: "p \<le> h" if "h < length es" "shown ucmp u s (es ! h)" for h
    using seek_pos_less [of h "InternalKeyCompare ucmp" es ?K] less [of "es ! h"] that by (auto simp: p_def shown_def not_less [symmetric])
  have order: "InternalKeyCompare ucmp (fst (es ! p)) (fst (es ! h)) < 0" if "p < h" "h < length es" for h
    using es that by (simp add: internal_ok_def sorted_wrt_iff_nth_less)
  show "newest_in ucmp u s (set es) (es ! p)" if p: "p < length es" "ucmp (ExtractUserKey (fst (es ! p))) u = 0"
  proof -
    have "shown ucmp u s (es ! p)" using at [OF p(1)] less [of "es ! p"] p by (auto simp: shown_def)
    moreover have "key_num (fst (es ! h)) \<le> key_num (fst (es ! p))" if h: "h < length es" "shown ucmp u s (es ! h)" for h
    proof (cases "h = p")
      case False
      then have lt: "InternalKeyCompare ucmp (fst (es ! p)) (fst (es ! h)) < 0" using order [of h] behind [OF h] h(1) by simp
      have g: "ugood (ExtractUserKey (fst (es ! p)))" "ugood (ExtractUserKey (fst (es ! h)))" using entry_good [OF es] p h by simp_all
      have "ucmp (ExtractUserKey (fst (es ! h))) (ExtractUserKey (fst (es ! p))) \<le> 0"
        using user.le_trans [OF g(2) u g(1)] h(2) p(2) user.eq_sym [OF g(1) u] by (simp add: shown_def)
      then show ?thesis using lt user.not_less [OF g] by (auto simp: InternalKeyCompare_sign)
    qed simp
    ultimately show ?thesis using p(1) unfolding newest_in_def by (metis in_set_conv_nth nth_mem)
  qed
  show "\<not> shown ucmp u s e" if np: "\<not> (p < length es \<and> ucmp (ExtractUserKey (fst (es ! p))) u = 0)" and e: "e \<in> set es"
  proof
    assume sh: "shown ucmp u s e"
    obtain h where h: "h < length es" "e = es ! h" using e by (auto simp: in_set_conv_nth)
    have ph: "p \<le> h" using behind h sh by simp
    then have ne: "ucmp (ExtractUserKey (fst (es ! p))) u \<noteq> 0" using np h by simp
    have g: "ugood (ExtractUserKey (fst (es ! p)))" "ugood (ExtractUserKey (fst (es ! h)))" using entry_good [OF es] ph h by simp_all
    have "\<not> ucmp (ExtractUserKey (fst (es ! p))) u < 0" using at less [of "es ! p"] ph h by auto
    moreover have "ucmp (ExtractUserKey (fst (es ! p))) (ExtractUserKey (fst (es ! h))) \<le> 0"
      using order [of h] ph h g by (cases "h = p") (auto simp: InternalKeyCompare_sign)
    then have "ucmp (ExtractUserKey (fst (es ! p))) u \<le> 0" using user.le_trans [OF g u] sh h(2) by (simp add: shown_def)
    ultimately show False using ne by simp
  qed
qed

lemma entry_types: "ikey_ok ugood k \<Longrightarrow> ParseInternalKey k = Some \<lparr>pk_user_key = ExtractUserKey k, pk_sequence = drop_bit 8 (key_num k), pk_type = ExtractValueType k\<rparr>"
  by (simp add: ikey_ok_def valid_ikey_def ParseInternalKey_def Let_def ExtractValueType_def ExtractUserKey_def)

lemma get_file_found:
  assumes "tget (fm_number (H f)) (fm_file_size (H f)) ik (gs_cache g) = Some (Status_OK, Some (k, v), c')" and "ikey_ok ugood k"
    and "ucmp (ExtractUserKey k) u = 0"
  shows "\<exists>st g'. get_file tget ucmp H u ik level f g = Some (Some st, g') \<and> gs_cache g' = c' \<and> answer (k, v) (gs_value g) st (gs_value g')"
  using assms(1,3) entry_types [OF assms(2)] by (auto simp: get_file_def Let_def SaveValue_def answer_def)

lemma get_file_miss:
  assumes "tget (fm_number (H f)) (fm_file_size (H f)) ik (gs_cache g) = Some (Status_OK, saved, c')"
    and "\<And>k v. saved = Some (k, v) \<Longrightarrow> ikey_ok ugood k \<and> ucmp (ExtractUserKey k) u \<noteq> 0"
  shows "\<exists>g'. get_file tget ucmp H u ik level f g = Some (None, g') \<and> gs_cache g' = c' \<and> gs_value g' = gs_value g"
  using assms entry_types by (cases saved) (auto simp: get_file_def Let_def SaveValue_def split: prod.splits)

lemma get_file_searches:
  assumes es: "internal_ok ucmp ugood es" and t: "table_get_ok ucmp ugood tget cinv (H f) es" and s: "s \<le> kMaxSequenceNumber" and u: "ugood u"
    and cinv: "cinv (gs_cache g)"
  shows "\<exists>r g'. get_file tget ucmp H u (InternalKey_new u s kValueTypeForSeek) level f g = Some (r, g') \<and> cinv (gs_cache g') \<and>
    searched ucmp u s (set es) (gs_value g) r (gs_value g')"
proof -
  let ?K = "InternalKey_new u s kValueTypeForSeek" and ?p = "seek_pos (InternalKeyCompare ucmp) es (InternalKey_new u s kValueTypeForSeek)"
  have "valid_ikey ugood ?K \<and> cinv (gs_cache g)" using u cinv by simp
  from t [unfolded table_get_ok_def, THEN spec, THEN spec, THEN mp, OF this]
  obtain saved c' where r: "tget (fm_number (H f)) (fm_file_size (H f)) ?K (gs_cache g) = Some (Status_OK, saved, c')" "cinv c'"
    "saved = (if ?p < length es then Some (es ! ?p) else None) \<or> saved = None \<and> (\<forall>e\<in>set es. ucmp (ExtractUserKey (fst e)) u \<noteq> 0)"
    by (auto simp: Let_def)
  note look = lookup_entry [OF es s u]
  show ?thesis
  proof (cases "?p < length es \<and> ucmp (ExtractUserKey (fst (es ! ?p))) u = 0 \<and> saved \<noteq> None")
    case True
    then have sv: "saved = Some (fst (es ! ?p), snd (es ! ?p))" using r(3) by (auto split: if_splits)
    obtain st g' where g': "get_file tget ucmp H u ?K level f g = Some (Some st, g')" "gs_cache g' = c'"
        "answer (fst (es ! ?p), snd (es ! ?p)) (gs_value g) st (gs_value g')"
      using get_file_found [where tget = tget and H = H and f = f and g = g, OF r(1) [unfolded sv], of u level] entry_ok [OF es, of "es ! ?p"] True by auto
    moreover have "newest_in ucmp u s (set es) (es ! ?p)" using look(1) True by simp
    ultimately show ?thesis using searched_SomeI [of ucmp u s "set es" "es ! ?p"] r(2) unfolding prod.collapse by blast
  next
    case False
    have "ikey_ok ugood k \<and> ucmp (ExtractUserKey k) u \<noteq> 0" if sv: "saved = Some (k, v)" for k v
    proof -
      have "?p < length es" "fst (es ! ?p) = k" using r(3) sv by (cases "?p < length es"; simp; metis fst_conv)+
      then show ?thesis using False sv entry_ok [OF es, of "es ! ?p"] by simp
    qed
    moreover have "\<forall>e\<in>set es. \<not> shown ucmp u s e"
    proof (cases "?p < length es \<and> ucmp (ExtractUserKey (fst (es ! ?p))) u = 0")
      case True
      then have "saved = None" using False by blast
      then have "\<forall>e\<in>set es. ucmp (ExtractUserKey (fst e)) u \<noteq> 0" using r(3) True by simp
      then show ?thesis by (simp add: shown_def)
    qed (use look(2) in blast)
    ultimately show ?thesis using get_file_miss [where tget = tget and H = H and f = f and g = g, OF r(1), of u level] r(2) by (auto simp: searched_def)
  qed
qed

section \<open>All files\<close>

lemma searched_Un:
  assumes "searched ucmp u s A val r val'" and "r = None \<Longrightarrow> searched ucmp u s B val r' val''"
    and "\<And>a b. a \<in> A \<Longrightarrow> b \<in> B \<Longrightarrow> shown ucmp u s a \<Longrightarrow> shown ucmp u s b \<Longrightarrow> key_num (fst b) \<le> key_num (fst a)"
  shows "if r = None then searched ucmp u s (A \<union> B) val r' val'' else searched ucmp u s (A \<union> B) val r val'"
proof (cases r)
  case None
  then have "\<forall>a\<in>A. \<not> shown ucmp u s a" using assms(1) by (simp add: searched_def)
  then show ?thesis using None assms(2) newest_skip [of A ucmp u s B] by (auto simp: searched_def split: option.splits)
next
  case (Some st)
  then obtain e where e: "newest_in ucmp u s A e" "answer e val st val'" using assms(1) by (auto simp: searched_def)
  have "newest_in ucmp u s (A \<union> B) e"
    using e(1) assms(3) by (intro newest_Un) (unfold newest_in_def, blast+)
  from searched_SomeI [OF this e(2)] show ?thesis using Some by simp
qed

lemma newer_shown:
  assumes n: "newer ucmp as bs" and ok: "\<forall>e\<in>set as \<union> set bs. ugood (ExtractUserKey (fst e))" and u: "ugood u"
    and a: "a \<in> set as" "shown ucmp u s a" and b: "b \<in> set bs" "shown ucmp u s b"
  shows "key_num (fst b) \<le> key_num (fst a)"
proof -
  have g: "ugood (ExtractUserKey (fst a))" "ugood (ExtractUserKey (fst b))" using ok a(1) b(1) by auto
  have "ucmp (ExtractUserKey (fst a)) (ExtractUserKey (fst b)) \<le> 0" "ucmp (ExtractUserKey (fst b)) (ExtractUserKey (fst a)) \<le> 0"
    using user.le_trans [OF g(1) u g(2)] user.le_trans [OF g(2) u g(1)] a(2) b(2) user.eq_sym [OF g(1) u] user.eq_sym [OF g(2) u] by (simp_all add: shown_def)
  then have "ucmp (ExtractUserKey (fst a)) (ExtractUserKey (fst b)) = 0" using user.not_less [OF g] by simp
  then have "key_num (fst b) < key_num (fst a)" using n a(1) b(1) unfolding newer_def by blast
  then show ?thesis by simp
qed

abbreviation held :: "(fptr \<Rightarrow> kv list) \<Rightarrow> fptr list \<Rightarrow> kv set" where
  "held C fs \<equiv> (\<Union>f\<in>set fs. set (C f))"

lemma get_files_searches:
  assumes s: "s \<le> kMaxSequenceNumber" and u: "ugood u"
  shows "(\<forall>f\<in>set fs. internal_ok ucmp ugood (C f) \<and> table_get_ok ucmp ugood tget cinv (H f) (C f)) \<Longrightarrow> sorted_wrt (\<lambda>f g. newer ucmp (C f) (C g)) fs \<Longrightarrow>
    cinv (gs_cache g) \<Longrightarrow>
    \<exists>r g'. get_files tget ucmp H u (InternalKey_new u s kValueTypeForSeek) level fs g = Some (r, g') \<and> cinv (gs_cache g') \<and>
      searched ucmp u s (held C fs) (gs_value g) r (gs_value g')"
proof (induction fs arbitrary: g)
  case (Cons f fs)
  let ?K = "InternalKey_new u s kValueTypeForSeek"
  have f: "internal_ok ucmp ugood (C f)" "table_get_ok ucmp ugood tget cinv (H f) (C f)" using Cons.prems by simp_all
  obtain r g1 where g1: "get_file tget ucmp H u ?K level f g = Some (r, g1)" "cinv (gs_cache g1)" "searched ucmp u s (set (C f)) (gs_value g) r (gs_value g1)"
    using get_file_searches [where H = H and f = f and tget = tget, OF f s u, of g level] Cons.prems(3) by blast
  have less: "key_num (fst b) \<le> key_num (fst a)" if ab: "a \<in> set (C f)" "b \<in> held C fs" "shown ucmp u s a" "shown ucmp u s b" for a b
  proof -
    obtain h where h: "h \<in> set fs" "b \<in> set (C h)" using ab(2) by blast
    then have "newer ucmp (C f) (C h)" using Cons.prems(2) by simp
    moreover have "\<forall>e\<in>set (C f) \<union> set (C h). ugood (ExtractUserKey (fst e))"
      using entries_good [OF f(1)] entries_good [of "C h"] Cons.prems(1) h(1) by (simp add: ball_Un)
    ultimately show ?thesis by (rule newer_shown [OF _ _ u ab(1,3) h(2) ab(4)])
  qed
  show ?case
  proof (cases r)
    case (Some st)
    have "searched ucmp u s (set (C f) \<union> held C fs) (gs_value g) r (gs_value g1)"
      using searched_Un [OF g1(3), of "held C fs"] less Some by simp
    then show ?thesis using g1 Some by simp
  next
    case None
    then have val: "gs_value g1 = gs_value g" using g1(3) by (simp add: searched_def)
    obtain r' g2 where g2: "get_files tget ucmp H u ?K level fs g1 = Some (r', g2)" "cinv (gs_cache g2)" "searched ucmp u s (held C fs) (gs_value g1) r' (gs_value g2)"
      using Cons.IH [of g1] Cons.prems g1(2) by auto
    have "searched ucmp u s (set (C f) \<union> held C fs) (gs_value g) r' (gs_value g2)"
      using searched_Un [OF g1(3), of "held C fs" r' "gs_value g2"] less None val g2(3) by simp
    then show ?thesis using g1(1) g2 None by simp
  qed
qed (auto simp: searched_def)

section \<open>The levels\<close>

lemma holds_range:
  assumes h: "file_holds ucmp ugood H f es" and e: "e \<in> set es"
  shows "InternalKeyCompare ucmp (fm_smallest (H f)) (fst e) \<le> 0" "InternalKeyCompare ucmp (fst e) (fm_largest (H f)) \<le> 0"
    "ucmp (smallest_user_key H f) (ExtractUserKey (fst e)) \<le> 0" "ucmp (ExtractUserKey (fst e)) (largest_user_key H f) \<le> 0"
proof -
  have es: "internal_ok ucmp ugood es" "es \<noteq> []" "fm_smallest (H f) = fst (es ! 0)" "fm_largest (H f) = fst (es ! (length es - 1))"
    using h hd_conv_nth [of es] last_conv_nth [of es] unfolding file_holds_def by metis+
  obtain i where i: "i < length es" "e = es ! i" using e by (auto simp: in_set_conv_nth)
  have le: "InternalKeyCompare ucmp (fst (es ! a)) (fst (es ! b)) \<le> 0" if "a \<le> b" "b < length es" for a b
  proof (cases "a = b")
    case True
    then show ?thesis using entry_good [OF es(1), of b] that(2) by (auto simp: InternalKeyCompare_sign)
  next
    case False
    then show ?thesis using es(1) that by (simp add: internal_ok_def sorted_wrt_iff_nth_less order_less_imp_le)
  qed
  show 1: "InternalKeyCompare ucmp (fm_smallest (H f)) (fst e) \<le> 0" using le [of 0 i] i es(3) by simp
  show 2: "InternalKeyCompare ucmp (fst e) (fm_largest (H f)) \<le> 0" using le [of i "length es - 1"] i es(4) by simp
  show "ucmp (smallest_user_key H f) (ExtractUserKey (fst e)) \<le> 0" "ucmp (ExtractUserKey (fst e)) (largest_user_key H f) \<le> 0"
    using 1 2 by (auto simp: InternalKeyCompare_sign)
qed

lemma holds_largest: "file_holds ucmp ugood H f es \<Longrightarrow> \<exists>e\<in>set es. fst e = fm_largest (H f)"
  using last_in_set by (auto simp: file_holds_def)

lemma holds_keys:
  assumes "file_holds ucmp ugood H f es"
  shows "ikey_ok ugood (fm_smallest (H f))" "ikey_ok ugood (fm_largest (H f))"
  using assms entry_ok [of es "hd es"] entry_ok [of es "last es"] by (simp_all add: file_holds_def)

text \<open>Level 0: every file that shows an entry of the key is searched, newest first.\<close>

lemma search_level0:
  assumes v: "version_ok ucmp ugood H C v" and u: "ugood u"
  shows "\<exists>fs. files_to_search ucmp H u ik v 0 = Some fs \<and> set fs \<subseteq> set (level_files v 0) \<and> sorted_wrt (\<lambda>f g. newer ucmp (C f) (C g)) fs \<and>
    (\<forall>f\<in>set (level_files v 0). \<forall>e\<in>set (C f). shown ucmp u s e \<longrightarrow> f \<in> set fs)"
proof -
  define fs where "fs = level0_files ucmp H u (level_files v 0)"
  have eq: "files_to_search ucmp H u ik v 0 = Some fs"
    by (auto simp: files_to_search_def fs_def level_files_def Let_def level0_files_def sort_NewestFirst_def)
  have set: "set fs = {f \<in> set (level_files v 0). ucmp u (smallest_user_key H f) \<ge> 0 \<and> ucmp u (largest_user_key H f) \<le> 0}"
    by (simp add: fs_def level0_files_def sort_NewestFirst_def)
  have dist: "distinct (map (\<lambda>f. fm_number (H f)) fs)"
    using v by (simp add: fs_def level0_files_def sort_NewestFirst_def version_ok_def distinct_map_filter distinct_map inj_on_def)
  have sorted: "sorted (map (\<lambda>f. - uint (fm_number (H f))) fs)" by (simp add: fs_def level0_files_def sort_NewestFirst_def)
  have "newer ucmp (C (fs ! i)) (C (fs ! j))" if ij: "i < j" "j < length fs" for i j
  proof -
    have "uint (fm_number (H (fs ! j))) \<le> uint (fm_number (H (fs ! i)))" using sorted ij sorted_nth_mono [OF sorted, of i j] by simp
    moreover have "fm_number (H (fs ! j)) \<noteq> fm_number (H (fs ! i))" using dist ij nth_eq_iff_index_eq [OF dist, of i j] by simp
    ultimately have "fm_number (H (fs ! j)) < fm_number (H (fs ! i))" by (simp add: word_le_def order_less_le)
    moreover have "fs ! i \<in> set (level_files v 0)" "fs ! j \<in> set (level_files v 0)" using nth_mem [of i fs] nth_mem [of j fs] ij set by auto
    ultimately show ?thesis using v by (simp add: version_ok_def)
  qed
  then have srt: "sorted_wrt (\<lambda>f g. newer ucmp (C f) (C g)) fs" by (simp add: sorted_wrt_iff_nth_less)
  have "f \<in> set fs" if f: "f \<in> set (level_files v 0)" and e: "e \<in> set (C f)" "shown ucmp u s e" for f e
  proof -
    have h: "file_holds ucmp ugood H f (C f)" using version_okD(1) [OF v _ f] by simp
    have g: "ugood (ExtractUserKey (fst e))" "ugood (smallest_user_key H f)" "ugood (largest_user_key H f)"
      using entries_good [OF _ e(1)] h holds_keys [OF h] ikey_okD(2) by (simp_all add: file_holds_def)
    have eq: "ucmp (ExtractUserKey (fst e)) u = 0" "ucmp u (ExtractUserKey (fst e)) = 0" using e(2) user.eq_sym [OF g(1) u] by (simp_all add: shown_def)
    have "ucmp (smallest_user_key H f) u \<le> 0" using user.le_trans [OF g(2,1) u] holds_range(3) [OF h e(1)] eq by simp
    moreover have "ucmp u (largest_user_key H f) \<le> 0" using user.le_trans [OF u g(1,3)] holds_range(4) [OF h e(1)] eq by simp
    moreover have "ucmp u (smallest_user_key H f) \<ge> 0" using user.not_less [OF u g(2)] calculation(1) by simp
    ultimately show ?thesis using f set by simp
  qed
  then show ?thesis using eq srt set by blast
qed

text \<open>Deeper levels: the file that is searched has an entry at least as new as any that is shown.\<close>

lemma search_deeper:
  assumes v: "version_ok ucmp ugood H C v" and u: "ugood u" and s: "s \<le> kMaxSequenceNumber" and l: "0 < l" "l < 7"
  shows "\<exists>fs. files_to_search ucmp H u (InternalKey_new u s kValueTypeForSeek) v l = Some fs \<and> set fs \<subseteq> set (level_files v l) \<and>
    sorted_wrt (\<lambda>f g. newer ucmp (C f) (C g)) fs \<and>
    (\<forall>f\<in>set (level_files v l). \<forall>e\<in>set (C f). shown ucmp u s e \<longrightarrow>
       (\<exists>f'\<in>set fs. \<exists>e'\<in>set (C f'). shown ucmp u s e' \<and> key_num (fst e) \<le> key_num (fst e')))"
proof -
  let ?K = "InternalKey_new u s kValueTypeForSeek" and ?files = "level_files v l" and ?icmp = "InternalKeyCompare ucmp"
  have dis: "level_disjoint ucmp ugood H ?files" using version_okD(3) [OF v l] .
  have holds: "file_holds ucmp ugood H f (C f)" if "f \<in> set ?files" for f using version_okD(1) [OF v l(2) that] .
  define p where "p = seek_pos ?icmp (level_entries H ?files) ?K"
  have find: "FindFile ?icmp H ?files ?K = Some p"
    using FindFile_correct [OF internal disjoint_sorted [OF dis], of ?K] u by (simp add: p_def)
  define fs where "fs = (if p \<ge> length ?files then [] else if ucmp u (smallest_user_key H (?files ! p)) < 0 then [] else [?files ! p])"
  have eq: "files_to_search ucmp H u ?K v l = Some fs"
    using find l by (auto simp: files_to_search_def fs_def level_files_def Let_def)
  have sub: "set fs \<subseteq> set ?files" by (auto simp: fs_def)
  have "\<exists>f'\<in>set fs. \<exists>e'\<in>set (C f'). shown ucmp u s e' \<and> key_num (fst e) \<le> key_num (fst e')"
    if f: "f \<in> set ?files" and e: "e \<in> set (C f)" "shown ucmp u s e" for f e
  proof -
    obtain j where j: "j < length ?files" "f = ?files ! j" using f by (auto simp: in_set_conv_nth)
    have hf: "file_holds ucmp ugood H f (C f)" using holds [OF f] .
    have ke: "ikey_ok ugood (fst e)" using entry_ok [OF version_okD(2) [OF v l(2) f] e(1)] .
    have notless: "\<not> ?icmp (fst e) ?K < 0" using e(2) lookup_less [OF ke s, of u] by (auto simp: shown_def)
    have vK: "valid_ikey ugood ?K" using u by simp
    have pj: "p \<le> j"
    proof (rule ccontr)
      assume "\<not> p \<le> j"
      then have "?icmp (fm_largest (H f)) ?K < 0" using seek_pos_less [of j ?icmp "level_entries H ?files" ?K] j by (simp add: p_def)
      then show False using notless holds_range(2) [OF hf e(1)]
          comparator.le_less_trans [OF internal ikey_okD(1) [OF ke] ikey_okD(1) [OF holds_keys(2) [OF hf]] vK] by blast
    qed
    define g where "g = ?files ! p"
    have gin: "g \<in> set ?files" using pj j by (simp add: g_def)
    have hg: "file_holds ucmp ugood H g (C g)" using holds [OF gin] .
    have gu: "ugood (ExtractUserKey (fst e))" "ugood (smallest_user_key H g)" "ugood (largest_user_key H g)"
      using ikey_okD(2) ke holds_keys [OF hg] by auto
    have eu: "ucmp (ExtractUserKey (fst e)) u = 0" "ucmp u (ExtractUserKey (fst e)) = 0" using e(2) user.eq_sym [OF gu(1) u] by (simp_all add: shown_def)
    have "ucmp (smallest_user_key H g) (ExtractUserKey (fst e)) \<le> 0"
    proof (cases "p = j")
      case True
      then show ?thesis using holds_range(3) [OF hf e(1)] j(2) by (simp add: g_def)
    next
      case False
      have gf: "ugood (smallest_user_key H f)" using ikey_okD(2) [OF holds_keys(1) [OF hf]] .
      show ?thesis using user.le_trans [OF gu(2) gf gu(1)] smallest_mono [OF dis pj j(1)] holds_range(3) [OF hf e(1)] j(2) by (simp add: g_def)
    qed
    then have "ucmp (smallest_user_key H g) u \<le> 0" using user.le_trans [OF gu(2,1) u] eu by simp
    then have "\<not> ucmp u (smallest_user_key H g) < 0" using user.not_less [OF u gu(2)] by simp
    then have gfs: "g \<in> set fs" using pj j by (simp add: fs_def g_def)
    show ?thesis
    proof (cases "p = j")
      case True
      then show ?thesis using gfs e j by (auto simp: g_def)
    next
      case False
      obtain e' where e': "e' \<in> set (C g)" "fst e' = fm_largest (H g)" using holds_largest [OF hg] by blast
      have ke': "ikey_ok ugood (fst e')" using holds_keys(2) [OF hg] e'(2) by simp
      have lt: "?icmp (fst e') (fst e) < 0"
        using comparator.less_le_trans [OF internal ikey_okD(1) [OF ke'] ikey_okD(1) [OF holds_keys(1) [OF hf]] ikey_okD(1) [OF ke]]
          level_between [OF dis, of p j] False pj j holds_range(1) [OF hf e(1)] e'(2) by (simp add: g_def)
      have ge: "\<not> ?icmp (fst e') ?K < 0" using seek_pos_at [of ?icmp "level_entries H ?files" ?K] pj j e'(2) by (simp add: p_def g_def)
      have gu': "ugood (ExtractUserKey (fst e'))" using ikey_okD(2) [OF ke'] .
      have "ucmp (ExtractUserKey (fst e')) (ExtractUserKey (fst e)) \<le> 0" using lt by (auto simp: InternalKeyCompare_sign)
      then have le: "ucmp (ExtractUserKey (fst e')) u \<le> 0" using user.le_trans [OF gu' gu(1) u] eu by simp
      then have eu': "ucmp (ExtractUserKey (fst e')) u = 0" "drop_bit 8 (key_num (fst e')) \<le> s" using ge lookup_less [OF ke' s, of u] by auto
      have "ucmp (ExtractUserKey (fst e)) (ExtractUserKey (fst e')) \<le> 0"
        using user.le_trans [OF gu(1) u gu'] eu eu'(1) user.eq_sym [OF gu' u] by simp
      then have "key_num (fst e) < key_num (fst e')" using lt user.not_less [OF gu' gu(1)] by (auto simp: InternalKeyCompare_sign)
      then show ?thesis using gfs e'(1) eu' by (auto simp: shown_def intro!: bexI [of _ g] bexI [of _ e'])
    qed
  qed
  moreover have "sorted_wrt (\<lambda>f g. newer ucmp (C f) (C g)) fs" by (simp add: fs_def)
  ultimately show ?thesis using eq sub by blast
qed

lemma search_level:
  assumes v: "version_ok ucmp ugood H C v" and u: "ugood u" and s: "s \<le> kMaxSequenceNumber" and l: "l < 7"
  shows "\<exists>fs. files_to_search ucmp H u (InternalKey_new u s kValueTypeForSeek) v l = Some fs \<and> set fs \<subseteq> set (level_files v l) \<and>
    sorted_wrt (\<lambda>f g. newer ucmp (C f) (C g)) fs \<and>
    (\<forall>f\<in>set (level_files v l). \<forall>e\<in>set (C f). shown ucmp u s e \<longrightarrow>
       (\<exists>f'\<in>set fs. \<exists>e'\<in>set (C f'). shown ucmp u s e' \<and> key_num (fst e) \<le> key_num (fst e')))"
proof (cases "l = 0")
  case True
  obtain fs where fs: "files_to_search ucmp H u (InternalKey_new u s kValueTypeForSeek) v 0 = Some fs" "set fs \<subseteq> set (level_files v 0)"
    "sorted_wrt (\<lambda>f g. newer ucmp (C f) (C g)) fs" "\<forall>f\<in>set (level_files v 0). \<forall>e\<in>set (C f). shown ucmp u s e \<longrightarrow> f \<in> set fs"
    using search_level0 [OF v u] by blast
  then show ?thesis using True by (intro exI [of _ fs]) (blast intro: order_refl)
qed (use search_deeper [OF v u s _ l] in simp)

lemma get_level_searches:
  assumes v: "version_ok ucmp ugood H C v" and u: "ugood u" and s: "s \<le> kMaxSequenceNumber" and l: "l < 7"
    and t: "\<forall>f\<in>set (level_files v l). table_get_ok ucmp ugood tget cinv (H f) (C f)" and g: "cinv (gs_cache g)"
  shows "\<exists>fs r g'. files_to_search ucmp H u (InternalKey_new u s kValueTypeForSeek) v l = Some fs \<and>
    get_files tget ucmp H u (InternalKey_new u s kValueTypeForSeek) l fs g = Some (r, g') \<and> cinv (gs_cache g') \<and>
    searched ucmp u s (held C (level_files v l)) (gs_value g) r (gs_value g')"
proof -
  let ?K = "InternalKey_new u s kValueTypeForSeek"
  obtain fs where fs: "files_to_search ucmp H u ?K v l = Some fs" "set fs \<subseteq> set (level_files v l)" "sorted_wrt (\<lambda>f g. newer ucmp (C f) (C g)) fs"
    and all: "\<forall>f\<in>set (level_files v l). \<forall>e\<in>set (C f). shown ucmp u s e \<longrightarrow>
       (\<exists>f'\<in>set fs. \<exists>e'\<in>set (C f'). shown ucmp u s e' \<and> key_num (fst e) \<le> key_num (fst e'))"
    using search_level [OF v u s l] by blast
  have le: "\<exists>a\<in>held C fs. shown ucmp u s a \<and> key_num (fst b) \<le> key_num (fst a)" if "b \<in> held C (level_files v l)" "shown ucmp u s b" for b
    using all that by blast
  have ok: "\<forall>f\<in>set fs. internal_ok ucmp ugood (C f) \<and> table_get_ok ucmp ugood tget cinv (H f) (C f)"
    using fs(2) t version_okD(2) [OF v l] by blast
  obtain r g' where g': "get_files tget ucmp H u ?K l fs g = Some (r, g')" "cinv (gs_cache g')" "searched ucmp u s (held C fs) (gs_value g) r (gs_value g')"
    using get_files_searches [OF s u ok fs(3) g, of l] by blast
  have Un: "held C (level_files v l) = held C fs \<union> held C (level_files v l)" using fs(2) by auto
  have "searched ucmp u s (held C (level_files v l)) (gs_value g) r (gs_value g')"
  proof (cases r)
    case None
    then have "\<forall>e\<in>held C fs. \<not> shown ucmp u s e" "gs_value g' = gs_value g" using g'(3) by (simp_all add: searched_def)
    then have "\<forall>e\<in>held C (level_files v l). \<not> shown ucmp u s e" using le by blast
    then show ?thesis using None \<open>gs_value g' = gs_value g\<close> by (simp add: searched_def)
  next
    case (Some st)
    then obtain e where e: "newest_in ucmp u s (held C fs) e" "answer e (gs_value g) st (gs_value g')" using g'(3) by (auto simp: searched_def)
    have "newest_in ucmp u s (held C fs \<union> held C (level_files v l)) e" using newest_Un [OF e(1) le] .
    then show ?thesis using searched_SomeI [OF _ e(2)] Some Un by simp
  qed
  then show ?thesis using fs(1) g' by blast
qed

lemma searched_looked_up:
  "looked_up ucmp u s E val st val' \<longleftrightarrow> searched ucmp u s E val (Some st) val' \<or> searched ucmp u s E val None val' \<and> st = NotFound [] []"
  by (auto simp: looked_up_def searched_def)

lemma get_levels_searches:
  assumes v: "version_ok ucmp ugood H C v" and u: "ugood u" and s: "s \<le> kMaxSequenceNumber"
    and t: "\<forall>l<7. \<forall>f\<in>set (level_files v l). table_get_ok ucmp ugood tget cinv (H f) (C f)"
  shows "cinv (gs_cache g) \<Longrightarrow> sorted_wrt (<) ls \<Longrightarrow> \<forall>l\<in>set ls. l < 7 \<Longrightarrow>
    \<exists>st g'. get_levels tget ucmp H u (InternalKey_new u s kValueTypeForSeek) v ls g = Some (st, g') \<and> cinv (gs_cache g') \<and>
      looked_up ucmp u s (\<Union>l\<in>set ls. held C (level_files v l)) (gs_value g) st (gs_value g')"
proof (induction ls arbitrary: g)
  case Nil
  then show ?case by (simp add: looked_up_def)
next
  case (Cons l ls)
  let ?K = "InternalKey_new u s kValueTypeForSeek" and ?A = "held C (level_files v l)" and ?B = "\<Union>l\<in>set ls. held C (level_files v l)"
  have l: "l < 7" using Cons.prems(3) by simp
  obtain fs r g1 where g1: "files_to_search ucmp H u ?K v l = Some fs" "get_files tget ucmp H u ?K l fs g = Some (r, g1)" "cinv (gs_cache g1)"
    "searched ucmp u s ?A (gs_value g) r (gs_value g1)"
    using get_level_searches [where cinv = cinv and g = g and tget = tget, OF v u s l _ Cons.prems(1)] t l by blast
  have less: "key_num (fst b) \<le> key_num (fst a)" if ab: "a \<in> ?A" "b \<in> ?B" "shown ucmp u s a" "shown ucmp u s b" for a b
  proof -
    obtain f where f: "f \<in> set (level_files v l)" "a \<in> set (C f)" using ab(1) by blast
    obtain m h where h: "m \<in> set ls" "h \<in> set (level_files v m)" "b \<in> set (C h)" using ab(2) by blast
    have m: "l < m" "m < 7" using h(1) Cons.prems(2,3) by auto
    have "newer ucmp (C f) (C h)" using version_okD(4) [OF v m f(1) h(2)] .
    moreover have "\<forall>e\<in>set (C f) \<union> set (C h). ugood (ExtractUserKey (fst e))"
      using entries_good [OF version_okD(2) [OF v l f(1)]] entries_good [OF version_okD(2) [OF v m(2) h(2)]] by (simp add: ball_Un)
    ultimately show ?thesis by (rule newer_shown [OF _ _ u f(2) ab(3) h(3) ab(4)])
  qed
  have Un: "(\<Union>l\<in>set (l # ls). held C (level_files v l)) = ?A \<union> ?B" by simp
  show ?case
  proof (cases r)
    case (Some st)
    have "searched ucmp u s (?A \<union> ?B) (gs_value g) (Some st) (gs_value g1)"
      using searched_Un [OF g1(4), of ?B] less Some by simp
    then show ?thesis using g1 Some unfolding Un by (auto simp: searched_looked_up)
  next
    case None
    then have val: "gs_value g1 = gs_value g" and none: "\<forall>e\<in>?A. \<not> shown ucmp u s e" using g1(4) by (simp_all add: searched_def)
    obtain st g2 where g2: "get_levels tget ucmp H u ?K v ls g1 = Some (st, g2)" "cinv (gs_cache g2)" "looked_up ucmp u s ?B (gs_value g1) st (gs_value g2)"
      using Cons.IH [OF g1(3)] Cons.prems(2,3) by auto
    have "looked_up ucmp u s (?A \<union> ?B) (gs_value g) st (gs_value g2)"
      using g2(3) newest_skip [OF none] none val unfolding looked_up_def by (metis Un_iff)
    then show ?thesis using g1 g2 None unfolding Un by simp
  qed
qed

end


section \<open>The bytewise comparator\<close>

text \<open>A table cache that holds the entries of the sample files by their number.\<close>

definition sample_get :: "nat table_get" where
  "sample_get num file_size ik c =
     (let es = sample_file (unat num - 10); p = seek_pos (InternalKeyCompare BytewiseCompare) es ik
      in Some (Status_OK, if p < length es then Some (es ! p) else None, c + 1))"

lemma sample_holds: "f < 3 \<Longrightarrow> file_holds BytewiseCompare (\<lambda>_. True) sample_heap f (sample_file f)"
proof -
  assume "f < 3"
  then have "f = 0 \<or> f = 1 \<or> f = 2" by auto
  moreover have "internal_ok BytewiseCompare (\<lambda>_. True) (sample_file 0)" "internal_ok BytewiseCompare (\<lambda>_. True) (sample_file 1)"
    "internal_ok BytewiseCompare (\<lambda>_. True) (sample_file 2)" by code_simp+
  ultimately show ?thesis by (auto simp: file_holds_def sample_heap_def FileMetaData_new_def sample_file_def)
qed

lemma sample_get_ok: "f < 3 \<Longrightarrow> table_get_ok BytewiseCompare (\<lambda>_. True) sample_get (\<lambda>_. True) (sample_heap f) (sample_file f)"
proof -
  assume "f < 3"
  then have "f = 0 \<or> f = 1 \<or> f = 2" by auto
  then have "unat (fm_number (sample_heap f)) - 10 = f" by (auto simp: sample_heap_def FileMetaData_new_def)
  then show ?thesis by (simp add: table_get_ok_def sample_get_def Let_def)
qed

lemma sample_version_ok: "version_ok BytewiseCompare (\<lambda>_. True) sample_heap sample_file sample_version"
proof -
  have n: "newer BytewiseCompare (sample_file 0) (sample_file 1)" "newer BytewiseCompare (sample_file 0) (sample_file 2)" by code_simp+
  have dis: "level_disjoint BytewiseCompare (\<lambda>_. True) sample_heap (level_files sample_version l)" if "0 < l" "l < 7" for l
    using sample_disjoint [OF that] .
  have down: "newer BytewiseCompare (sample_file f) (sample_file g)"
    if "l < m" "m < 7" "f \<in> set (level_files sample_version l)" "g \<in> set (level_files sample_version m)" for l m f g
    using n that by (cases "m = 1"; cases "l = 0") auto
  show ?thesis unfolding version_ok_def using sample_holds sample_files dis down by auto
qed

text \<open>Of key 2 only the value from level 1 is shown at sequence number 5.\<close>

lemma sample_shown:
  "(InternalKey_new [2] 2 kTypeValue, [20]) \<in> version_entries sample_file sample_version \<and> shown BytewiseCompare [2] 5 (InternalKey_new [2] 2 kTypeValue, [20])"
  "e \<in> version_entries sample_file sample_version \<Longrightarrow> shown BytewiseCompare [2] 5 e \<Longrightarrow> e = (InternalKey_new [2] 2 kTypeValue, [20])"
proof -
  let ?es = "sample_file 0 @ sample_file 1 @ sample_file 2"
  have "{..<7 :: nat} = {0, 1} \<union> {2..<7}" by auto
  then have E: "version_entries sample_file sample_version = set ?es" by (auto simp: version_entries_def)
  have f: "filter (shown BytewiseCompare [2] 5) ?es = [(InternalKey_new [2] 2 kTypeValue, [20])]" by code_simp
  have "{e \<in> version_entries sample_file sample_version. shown BytewiseCompare [2] 5 e} = {(InternalKey_new [2] 2 kTypeValue, [20])}"
    using arg_cong [OF f, of set] unfolding set_filter E by simp
  then show "(InternalKey_new [2] 2 kTypeValue, [20]) \<in> version_entries sample_file sample_version \<and> shown BytewiseCompare [2] 5 (InternalKey_new [2] 2 kTypeValue, [20])"
    "e \<in> version_entries sample_file sample_version \<Longrightarrow> shown BytewiseCompare [2] 5 e \<Longrightarrow> e = (InternalKey_new [2] 2 kTypeValue, [20])" by blast+
qed


end
