(* ===== verification/LdbLevelIter.thy ===== *)
theory LdbLevelIter
  imports LdbVersionGet
begin

text \<open>
  The iterators over a version (\<open>Version::NewConcatenatingIterator\<close>, \<open>Version::AddIterators\<close>): the files of a
  level above 0 are visited one after the other, opened when the iterator gets there.  Over any table cache whose iterators keep the
  contract this is an iterator over the entries of all files of the level.
\<close>

definition handle_of :: "FileMetaData \<Rightarrow> slice" where
  "handle_of f = EncodeFixed64 (fm_number f) @ EncodeFixed64 (fm_file_size f)"

lemma handle_of_decode:
  "length (handle_of f) = 16" "DecodeFixed64 (handle_of f) = Some (fm_number f)" "DecodeFixed64 (drop 8 (handle_of f)) = Some (fm_file_size f)"
  by (simp_all add: handle_of_def EncodeFixed64_def)

lemma handle_of_inj: "handle_of f = handle_of g \<Longrightarrow> fm_number f = fm_number g"
  using handle_of_decode(2) by (metis option.inject)

definition file_of :: "file_heap \<Rightarrow> (fptr \<Rightarrow> kv list) \<Rightarrow> fptr list \<Rightarrow> slice \<Rightarrow> kv list" where
  "file_of H C files h = the (map_of (map (\<lambda>f. (handle_of (H f), C f)) files) h)"

lemma file_of_nth:
  assumes "distinct (map (\<lambda>f. fm_number (H f)) files)" and "f \<in> set files"
  shows "file_of H C files (handle_of (H f)) = C f"
proof -
  have "inj_on (\<lambda>f. handle_of (H f)) (set files)"
    using assms(1) handle_of_inj unfolding distinct_map inj_on_def by blast
  then have "distinct (map (\<lambda>f. handle_of (H f)) files)" using assms(1) by (simp add: distinct_map)
  then have "distinct (map fst (map (\<lambda>f. (handle_of (H f), C f)) files))" by (simp add: comp_def)
  then have "map_of (map (\<lambda>f. (handle_of (H f), C f)) files) (handle_of (H f)) = Some (C f)" using assms(2) by (intro map_of_is_SomeI) auto
  then show ?thesis by (simp add: file_of_def)
qed

lemma flat_files:
  assumes "\<And>f. f \<in> set fs \<Longrightarrow> blk (handle_of (H f)) = C f"
  shows "flat blk (level_entries H fs) = concat (map C fs)"
  using assms by (induction fs) (auto simp: level_entries_def handle_of_def)

context version_files
begin

lemma separated_files:
  assumes "\<And>f. f \<in> set fs \<Longrightarrow> blk (handle_of (H f)) = C f" and "\<And>f. f \<in> set fs \<Longrightarrow> file_holds ucmp ugood H f (C f)"
    and "sorted_wrt (\<lambda>f g. InternalKeyCompare ucmp (fm_largest (H f)) (fm_smallest (H g)) < 0) fs"
  shows "separated (InternalKeyCompare ucmp) (valid_ikey ugood) blk (level_entries H fs)"
  using assms
proof (induction fs)
  case (Cons f fs)
  have hf: "file_holds ucmp ugood H f (C f)" using Cons.prems(2) by simp
  have vf: "valid_ikey ugood (fm_largest (H f))" using holds_keys(2) [OF hf] ikey_okD(1) by blast
  have in_f: "valid_ikey ugood (fst e) \<and> InternalKeyCompare ucmp (fst e) (fm_largest (H f)) \<le> 0" if "e \<in> set (C f)" for e
    using holds_range(2) [OF hf that] entry_ok [OF _ that] hf ikey_okD(1) by (auto simp: file_holds_def)
  have later: "InternalKeyCompare ucmp (fm_largest (H f)) (fst e) < 0" if e: "g \<in> set fs" "e \<in> set (C g)" for g e
  proof -
    have hg: "file_holds ucmp ugood H g (C g)" using Cons.prems(2) e(1) by simp
    have v: "valid_ikey ugood (fm_smallest (H g))" "valid_ikey ugood (fst e)"
      using holds_keys(1) [OF hg] entry_ok [OF _ e(2)] hg ikey_okD(1) by (auto simp: file_holds_def)
    show ?thesis using comparator.less_le_trans [OF internal vf v] Cons.prems(3) e(1) holds_range(1) [OF hg e(2)] by simp
  qed
  have eq: "level_entries H (f # fs) = (fm_largest (H f), handle_of (H f)) # level_entries H fs" by (simp add: level_entries_def handle_of_def)
  have "flat blk (level_entries H fs) = concat (map C fs)" using Cons.prems(1) by (intro flat_files) simp
  then show ?case
    unfolding eq separated.simps fst_conv snd_conv
    using vf in_f later Cons.IH Cons.prems Cons.prems(1) [of f] by (auto simp: image_iff)
qed (simp add: level_entries_def)

text \<open>The concatenating iterator keeps the contract when the iterators of the files do.\<close>

lemma concat_two_level:
  assumes d: "iterator dops drep (InternalKeyCompare ucmp) (valid_ikey ugood)"
  shows "two_level (level_file_ops (InternalKeyCompare ucmp)) (level_rep (InternalKeyCompare ucmp) (valid_ikey ugood)) dops drep
    (InternalKeyCompare ucmp) (valid_ikey ugood) (GetFileIterator titer new_error) blk
    (\<lambda>h. \<exists>it. GetFileIterator titer new_error h = Some it \<and> drep it (blk h) None)"
  using level_file_iterator [OF internal] d internal by (simp add: two_level_def two_level_axioms_def)

lemma NewConcatenatingIterator_rep:
  assumes d: "iterator dops drep (InternalKeyCompare ucmp) (valid_ikey ugood)"
    and files: "level_disjoint ucmp ugood H files" and blk: "\<And>f. f \<in> set files \<Longrightarrow> blk (handle_of (H f)) = C f"
    and holds: "\<And>f. f \<in> set files \<Longrightarrow> file_holds ucmp ugood H f (C f)"
    and ti: "\<And>f. f \<in> set files \<Longrightarrow> \<exists>it. titer (fm_number (H f)) (fm_file_size (H f)) = Some it \<and> drep it (C f) None"
  shows "\<exists>t. NewConcatenatingIterator (InternalKeyCompare ucmp) H files = Some t \<and>
    two_rep (InternalKeyCompare ucmp) (valid_ikey ugood) (\<lambda>h. \<exists>it. GetFileIterator titer new_error h = Some it \<and> drep it (blk h) None)
      blk (level_rep (InternalKeyCompare ucmp) (valid_ikey ugood)) drep t (concat (map C files)) None"
proof -
  let ?icmp = "InternalKeyCompare ucmp" and ?it = "LevelFileNumIterator_new H files"
  let ?ok = "\<lambda>h. \<exists>it. GetFileIterator titer new_error h = Some it \<and> drep it (blk h) None"
  note srt = disjoint_sorted [OF files]
  have "level_rep ?icmp (valid_ikey ugood) ?it (level_entries H files) (entry_pos (level_entries H files) (length files))"
    by (rule level_repI [OF srt]) (simp_all add: LevelFileNumIterator_new_def)
  then have r: "level_rep ?icmp (valid_ikey ugood) ?it (level_entries H files) None" by (simp add: entry_pos_def)
  obtain w where w: "Wrapper_Update (level_file_ops ?icmp) ?it \<lparr>iw_iter = None, iw_valid = False, iw_key = []\<rparr> = Some w"
    "wrap_rep (level_rep ?icmp (valid_ikey ugood)) w (level_entries H files) None"
    using iterator.Wrapper_Update_rep [OF level_file_iterator [OF internal] r] by blast
  have ok: "?ok (handle_of (H f))" if "f \<in> set files" for f
    using ti [OF that] blk [OF that] by (auto simp: GetFileIterator_def handle_of_decode simp del: DecodeFixed64.simps)
  let ?t = "\<lparr>tl_status = Status_OK, index_iter = w, data_iter = \<lparr>iw_iter = None, iw_valid = False, iw_key = []\<rparr>, data_block_handle = []\<rparr>"
  have "NewConcatenatingIterator ?icmp H files = Some ?t"
    using w(1) by (simp add: NewConcatenatingIterator_def TwoLevelIterator_new_def Wrapper_Set_def)
  moreover have "between ?ok blk (level_rep ?icmp (valid_ikey ugood)) drep ?t (level_entries H files) None"
    using w(2) ok by (auto simp: between_def level_entries_def handle_of_def)
  moreover have "separated ?icmp (valid_ikey ugood) blk (level_entries H files)"
    using separated_files [of files blk H C] blk holds files by (simp add: level_disjoint_def)
  ultimately show ?thesis
    using flat_files [of files blk H C] blk unfolding two_rep_def option.case
    by (intro exI [of _ ?t] conjI exI [of _ "level_entries H files"] exI [of _ None]) simp_all
qed

end

section \<open>All iterators of a version\<close>

text \<open>
  \<open>AddIterators\<close> makes iterators of two kinds, one per file of level 0 and one per deeper level; their sum
  dispatches the calls.
\<close>

definition sum_ops :: "'a Iterator \<Rightarrow> 'b Iterator \<Rightarrow> ('a + 'b) Iterator" where
  "sum_ops aops bops =
     \<lparr>it_Valid = case_sum (it_Valid aops) (it_Valid bops), it_key = case_sum (it_key aops) (it_key bops),
      it_value = case_sum (it_value aops) (it_value bops), it_status = case_sum (it_status aops) (it_status bops),
      it_SeekToFirst = case_sum (map_option Inl \<circ> it_SeekToFirst aops) (map_option Inr \<circ> it_SeekToFirst bops),
      it_SeekToLast = case_sum (map_option Inl \<circ> it_SeekToLast aops) (map_option Inr \<circ> it_SeekToLast bops),
      it_Seek = (\<lambda>t. case_sum (map_option Inl \<circ> it_Seek aops t) (map_option Inr \<circ> it_Seek bops t)),
      it_Next = case_sum (map_option Inl \<circ> it_Next aops) (map_option Inr \<circ> it_Next bops),
      it_Prev = case_sum (map_option Inl \<circ> it_Prev aops) (map_option Inr \<circ> it_Prev bops)\<rparr>"

lemma sum_iterator:
  assumes a: "iterator aops arep cmp good" and b: "iterator bops brep cmp good"
  shows "iterator (sum_ops aops bops) (case_sum arep brep) cmp good"
proof (unfold_locales, goal_cases)
  case (1 it es)
  then show ?case using iterator.at_none [OF a] iterator.at_none [OF b] by (cases it) (auto simp: sum_ops_def)
next
  case (2 it es i)
  then show ?case using iterator.at_some [OF a] iterator.at_some [OF b] by (cases it) (auto simp: sum_ops_def)
next
  case (3 it es pos)
  then show ?case using iterator.status [OF a] iterator.status [OF b] by (cases it) (auto simp: sum_ops_def)
next
  case (4 it es pos)
  then show ?case using iterator.to_first [OF a] iterator.to_first [OF b] by (cases it) (fastforce simp: sum_ops_def)+
next
  case (5 it es pos)
  then show ?case using iterator.to_last [OF a] iterator.to_last [OF b] by (cases it) (fastforce simp: sum_ops_def)+
next
  case (6 it es pos target)
  then show ?case using iterator.to_target [OF a] iterator.to_target [OF b] by (cases it) (fastforce simp: sum_ops_def)+
next
  case (7 it es i)
  then show ?case using iterator.step [OF a] iterator.step [OF b] by (cases it) (fastforce simp: sum_ops_def)+
next
  case (8 it es i)
  then show ?case using iterator.step_back [OF a] iterator.step_back [OF b] by (cases it) (fastforce simp: sum_ops_def)+
qed

primrec new_iterators :: "('a \<Rightarrow> 'b option) \<Rightarrow> 'a list \<Rightarrow> 'b list option" where
  "new_iterators new [] = Some []"
| "new_iterators new (x # xs) = Option.bind (new x) (\<lambda>it. map_option (Cons it) (new_iterators new xs))"

definition AddIterators ::
    "(u64 \<Rightarrow> u64 \<Rightarrow> 'd option) \<Rightarrow> (slice \<Rightarrow> slice \<Rightarrow> int) \<Rightarrow> file_heap \<Rightarrow> Version \<Rightarrow> ('d + (LevelFileNumIterator, 'd) TwoLevelIterator) list \<Rightarrow>
      ('d + (LevelFileNumIterator, 'd) TwoLevelIterator) list option" where
  "AddIterators titer icmp H v iters =
     Option.bind (new_iterators (\<lambda>f. titer (fm_number (H f)) (fm_file_size (H f))) (v_files v ! 0)) (\<lambda>files.
     map_option (\<lambda>levels. iters @ map Inl files @ map Inr levels)
       (new_iterators (NewConcatenatingIterator icmp H) (filter (\<lambda>fs. fs \<noteq> []) (map (\<lambda>level. v_files v ! level) [1..<7]))))"

lemma new_iterators_rep:
  assumes "\<And>x. x \<in> set xs \<Longrightarrow> \<exists>it. new x = Some it \<and> P it x"
  shows "\<exists>its. new_iterators new xs = Some its \<and> list_all2 P its xs"
  using assms by (induction xs) fastforce+

text \<open>
  C9: The concatenating iterator over a level with disjoint files is correct for any table cache whose iterators keep the
  iterator contract: through every legal sequence of moves it follows the concatenation of the files' entries,
  with status OK.
\<close>

theorem concatenating_iterator_correct:
  assumes cmp: "comparator ucmp ugood" and d: "iterator dops drep (InternalKeyCompare ucmp) (valid_ikey ugood)"
    and files: "level_disjoint ucmp ugood H files" "distinct (map (\<lambda>f. fm_number (H f)) files)"
    and holds: "\<And>f. f \<in> set files \<Longrightarrow> file_holds ucmp ugood H f (C f)"
    and ti: "\<And>f. f \<in> set files \<Longrightarrow> \<exists>it. titer (fm_number (H f)) (fm_file_size (H f)) = Some it \<and> drep it (C f) None"
    and cs: "pos_run (InternalKeyCompare ucmp) (concat (map C files)) cs None = Some pos" "cmds_ok (valid_ikey ugood) cs"
  shows "\<exists>t t'. NewConcatenatingIterator (InternalKeyCompare ucmp) H files = Some t \<and>
    iter_run (concat_ops (InternalKeyCompare ucmp) dops titer new_error) cs t = Some t' \<and>
    iter_entry (concat_ops (InternalKeyCompare ucmp) dops titer new_error) t' = map_option ((!) (concat (map C files))) pos \<and>
    it_status (concat_ops (InternalKeyCompare ucmp) dops titer new_error) t' = Status_OK"
proof -
  have loc: "version_files ucmp ugood" using cmp by (simp add: version_files_def)
  note I = two_level.two_level_iterator [OF version_files.concat_two_level [OF loc d, of titer new_error "file_of H C files"], folded concat_ops_def]
  obtain t where t: "NewConcatenatingIterator (InternalKeyCompare ucmp) H files = Some t"
    "two_rep (InternalKeyCompare ucmp) (valid_ikey ugood) (\<lambda>h. \<exists>it. GetFileIterator titer new_error h = Some it \<and> drep it (file_of H C files h) None)
      (file_of H C files) (level_rep (InternalKeyCompare ucmp) (valid_ikey ugood)) drep t (concat (map C files)) None"
    using version_files.NewConcatenatingIterator_rep [OF loc d files(1) file_of_nth [OF files(2)] holds ti] by blast
  show ?thesis using iterator.iter_run_rep [OF I t(2) cs] iterator.iter_entry_rep [OF I] iterator.status [OF I] t(1) by blast
qed

text \<open>The lists the iterators of a version go through.\<close>

definition version_lists :: "(fptr \<Rightarrow> kv list) \<Rightarrow> Version \<Rightarrow> kv list list" where
  "version_lists C v =
     map C (level_files v 0) @ map (\<lambda>fs. concat (map C fs)) (filter (\<lambda>fs. fs \<noteq> []) (map (level_files v) [1..<7]))"

definition version_files_list :: "Version \<Rightarrow> fptr list" where
  "version_files_list v = concat (map (level_files v) [0..<7])"

lemma version_files_mem: "f \<in> set (version_files_list v) \<longleftrightarrow> (\<exists>l<7. f \<in> set (level_files v l))"
  by (auto simp: version_files_list_def)

lemma set_version_lists: "\<Union> (set ` set (version_lists C v)) = version_entries C v"
proof
  have "set (C f) \<subseteq> version_entries C v" if "f \<in> set (level_files v l)" "l < 7" for f l
    using that unfolding version_entries_def by blast
  then show "\<Union> (set ` set (version_lists C v)) \<subseteq> version_entries C v"
    unfolding version_lists_def by (fastforce simp: Suc_le_eq)
  show "version_entries C v \<subseteq> \<Union> (set ` set (version_lists C v))"
  proof
    fix e assume "e \<in> version_entries C v"
    then obtain l f where lf: "l < 7" "f \<in> set (level_files v l)" "e \<in> set (C f)" by (auto simp: version_entries_def)
    show "e \<in> \<Union> (set ` set (version_lists C v))"
    proof (cases "l = 0")
      case True
      then show ?thesis using lf by (auto simp: version_lists_def)
    next
      case False
      then have "concat (map C (level_files v l)) \<in> set (version_lists C v)" using lf by (force simp: version_lists_def)
      moreover have "e \<in> set (concat (map C (level_files v l)))" using lf by auto
      ultimately show ?thesis by blast
    qed
  qed
qed

context version_files
begin

lemma AddIterators_rep:
  assumes v: "version_ok ucmp ugood H C v" and d: "iterator dops drep (InternalKeyCompare ucmp) (valid_ikey ugood)"
    and dist: "distinct (map (\<lambda>f. fm_number (H f)) (version_files_list v))"
    and ti: "\<And>f. f \<in> set (version_files_list v) \<Longrightarrow> \<exists>it. titer (fm_number (H f)) (fm_file_size (H f)) = Some it \<and> drep it (C f) None"
  shows "\<exists>its. AddIterators titer (InternalKeyCompare ucmp) H v [] = Some its \<and>
    list_all2 (\<lambda>it es. case_sum drep (two_rep (InternalKeyCompare ucmp) (valid_ikey ugood)
        (\<lambda>h. \<exists>it. GetFileIterator titer new_error h = Some it \<and> drep it (file_of H C (version_files_list v) h) None)
        (file_of H C (version_files_list v)) (level_rep (InternalKeyCompare ucmp) (valid_ikey ugood)) drep) it es None)
      its (version_lists C v)"
proof -
  let ?crep = "two_rep (InternalKeyCompare ucmp) (valid_ikey ugood)
        (\<lambda>h. \<exists>it. GetFileIterator titer new_error h = Some it \<and> drep it (file_of H C (version_files_list v) h) None)
        (file_of H C (version_files_list v)) (level_rep (InternalKeyCompare ucmp) (valid_ikey ugood)) drep"
  have mem: "f \<in> set (version_files_list v)" if "f \<in> set (level_files v l)" "l < 7" for f l using that version_files_mem by blast
  obtain its0 where its0: "new_iterators (\<lambda>f. titer (fm_number (H f)) (fm_file_size (H f))) (level_files v 0) = Some its0"
    "list_all2 (\<lambda>it f. drep it (C f) None) its0 (level_files v 0)"
    using new_iterators_rep [of "level_files v 0" "\<lambda>f. titer (fm_number (H f)) (fm_file_size (H f))" "\<lambda>it f. drep it (C f) None"] ti mem by auto
  have level: "\<exists>t. NewConcatenatingIterator (InternalKeyCompare ucmp) H fs = Some t \<and> ?crep t (concat (map C fs)) None"
    if fs: "fs \<in> set (filter (\<lambda>fs. fs \<noteq> []) (map (level_files v) [1..<7]))" for fs
  proof -
    obtain l where l: "0 < l" "l < 7" "fs = level_files v l" using fs by (auto simp: Suc_le_eq)
    have sub: "f \<in> set (version_files_list v)" if "f \<in> set fs" for f using mem that l by blast
    show ?thesis unfolding l(3)
    proof (rule NewConcatenatingIterator_rep [OF d version_okD(3) [OF v l(1,2)]])
      show "file_of H C (version_files_list v) (handle_of (H f)) = C f" if "f \<in> set (level_files v l)" for f using file_of_nth [OF dist sub] that l(3) by blast
      show "file_holds ucmp ugood H f (C f)" if "f \<in> set (level_files v l)" for f using version_okD(1) [OF v l(2) that] .
      show "\<exists>it. titer (fm_number (H f)) (fm_file_size (H f)) = Some it \<and> drep it (C f) None" if "f \<in> set (level_files v l)" for f using ti sub that l(3) by blast
    qed
  qed
  then obtain its1 where its1: "new_iterators (NewConcatenatingIterator (InternalKeyCompare ucmp) H) (filter (\<lambda>fs. fs \<noteq> []) (map (level_files v) [1..<7])) = Some its1"
    "list_all2 (\<lambda>t fs. ?crep t (concat (map C fs)) None) its1 (filter (\<lambda>fs. fs \<noteq> []) (map (level_files v) [1..<7]))"
    using new_iterators_rep [of "filter (\<lambda>fs. fs \<noteq> []) (map (level_files v) [1..<7])" "NewConcatenatingIterator (InternalKeyCompare ucmp) H"
      "\<lambda>t fs. ?crep t (concat (map C fs)) None"] by blast
  have "AddIterators titer (InternalKeyCompare ucmp) H v [] = Some (map Inl its0 @ map Inr its1)"
    using its0(1) its1(1) by (simp add: AddIterators_def level_files_def [abs_def])
  moreover have "list_all2 (\<lambda>it es. case_sum drep ?crep it es None) (map Inl its0 @ map Inr its1) (version_lists C v)"
    unfolding version_lists_def using its0(2) its1(2) by (intro list_all2_appendI) (simp_all add: list.rel_map)
  ultimately show ?thesis by blast
qed

text \<open>No key is in two lists.\<close>

lemma newer_differ:
  assumes "newer ucmp as bs \<or> newer ucmp bs as" and "a \<in> set as" "b \<in> set bs" and "ugood (ExtractUserKey (fst a))" "ugood (ExtractUserKey (fst b))"
  shows "InternalKeyCompare ucmp (fst a) (fst b) \<noteq> 0"
proof
  assume z: "InternalKeyCompare ucmp (fst a) (fst b) = 0"
  then have eq: "ucmp (ExtractUserKey (fst a)) (ExtractUserKey (fst b)) = 0" "key_num (fst a) = key_num (fst b)"
    by (auto simp: InternalKeyCompare_def Let_def split: if_splits)
  then have "ucmp (ExtractUserKey (fst b)) (ExtractUserKey (fst a)) = 0" using user.eq_sym [OF assms(4,5)] by simp
  then show False using assms(1,2,3) eq unfolding newer_def by (metis less_irrefl)
qed

lemma concat_ok:
  assumes "\<And>f. f \<in> set fs \<Longrightarrow> file_holds ucmp ugood H f (C f)"
    and "sorted_wrt (\<lambda>f g. InternalKeyCompare ucmp (fm_largest (H f)) (fm_smallest (H g)) < 0) fs"
  shows "internal_ok ucmp ugood (concat (map C fs))"
  using assms
proof (induction fs)
  case (Cons f fs)
  let ?icmp = "InternalKeyCompare ucmp"
  have hf: "file_holds ucmp ugood H f (C f)" using Cons.prems(1) by simp
  have okf: "internal_ok ucmp ugood (C f)" using hf by (simp add: file_holds_def)
  have "?icmp (fst a) (fst b) < 0" if ab: "a \<in> set (C f)" "g \<in> set fs" "b \<in> set (C g)" for a b g
  proof -
    have hg: "file_holds ucmp ugood H g (C g)" using Cons.prems(1) ab(2) by simp
    have okg: "internal_ok ucmp ugood (C g)" using hg by (simp add: file_holds_def)
    have va: "valid_ikey ugood (fst a)" "valid_ikey ugood (fst b)" using entry_ok [OF okf ab(1)] entry_ok [OF okg ab(3)] ikey_okD(1) by blast+
    have vb: "valid_ikey ugood (fm_largest (H f))" "valid_ikey ugood (fm_smallest (H g))" using holds_keys(2) [OF hf] holds_keys(1) [OF hg] ikey_okD(1) by blast+
    have "?icmp (fm_largest (H f)) (fm_smallest (H g)) < 0" using Cons.prems(2) ab(2) by simp
    then have "?icmp (fst a) (fm_smallest (H g)) < 0" using comparator.le_less_trans [OF internal va(1) vb] holds_range(2) [OF hf ab(1)] by blast
    then show ?thesis using comparator.less_le_trans [OF internal va(1) vb(2) va(2)] holds_range(1) [OF hg ab(3)] by blast
  qed
  then have "\<forall>a\<in>set (C f). \<forall>b\<in>set (concat (map C fs)). ?icmp (fst a) (fst b) < 0" by auto
  moreover have "internal_ok ucmp ugood (concat (map C fs))" using Cons by simp
  ultimately show ?case using okf by (auto simp: internal_ok_def sorted_wrt_append)
qed (simp add: internal_ok_def)

lemma version_lists_ok:
  assumes v: "version_ok ucmp ugood H C v" and es: "es \<in> set (version_lists C v)"
  shows "internal_ok ucmp ugood es"
proof -
  consider f where "f \<in> set (level_files v 0)" "es = C f" | l where "0 < l" "l < 7" "es = concat (map C (level_files v l))"
    using es by (auto simp: version_lists_def Suc_le_eq)
  then show ?thesis
  proof cases
    case 1
    then show ?thesis using version_okD(2) [OF v, of 0 f] by simp
  next
    case 2
    have "sorted_wrt (\<lambda>f g. InternalKeyCompare ucmp (fm_largest (H f)) (fm_smallest (H g)) < 0) (level_files v l)"
      using version_okD(3) [OF v 2(1,2)] by (simp add: level_disjoint_def)
    then show ?thesis unfolding 2(3) using version_okD(1) [OF v 2(2)] by (intro concat_ok) auto
  qed
qed

lemma version_mergeable:
  assumes v: "version_ok ucmp ugood H C v"
  shows "mergeable (InternalKeyCompare ucmp) (valid_ikey ugood) (version_lists C v)"
proof -
  let ?apart = "\<lambda>as bs. \<forall>a\<in>set as. \<forall>b\<in>set bs. InternalKeyCompare ucmp (fst a) (fst b) \<noteq> 0"
  have good: "ugood (ExtractUserKey (fst e))" if "l < 7" "f \<in> set (level_files v l)" "e \<in> set (C f)" for l f e
    using entries_good [OF version_okD(2) [OF v that(1,2)] that(3)] .
  have files: "?apart (C f) (C g)" if "newer ucmp (C f) (C g) \<or> newer ucmp (C g) (C f)" "l < 7" "f \<in> set (level_files v l)" "m < 7" "g \<in> set (level_files v m)" for f g l m
    using newer_differ [OF that(1)] good that(2-) by blast
  have dist: "distinct (map (\<lambda>f. fm_number (H f)) (level_files v 0))" using v by (simp add: version_ok_def)
  have 0: "sorted_wrt ?apart (map C (level_files v 0))"
    unfolding sorted_wrt_map unfolding sorted_wrt_iff_nth_less
  proof (intro allI impI)
    fix i j assume ij: "i < j" "j < length (level_files v 0)"
    let ?f = "level_files v 0 ! i" and ?g = "level_files v 0 ! j"
    have "fm_number (H ?f) \<noteq> fm_number (H ?g)" using nth_eq_iff_index_eq [OF dist, of i j] ij by simp
    then have "fm_number (H ?f) < fm_number (H ?g) \<or> fm_number (H ?g) < fm_number (H ?f)" by (rule neq_iff [THEN iffD1])
    moreover have mem: "?f \<in> set (level_files v 0)" "?g \<in> set (level_files v 0)" using ij by simp_all
    ultimately have "newer ucmp (C ?f) (C ?g) \<or> newer ucmp (C ?g) (C ?f)" using v unfolding version_ok_def by blast
    then show "?apart (C ?f) (C ?g)" by (rule files [OF _ _ mem(1) _ mem(2)]) simp_all
  qed
  have down: "?apart (C f) (concat (map C (level_files v m)))" if "l < m" "m < 7" "f \<in> set (level_files v l)" for f l m
  proof (intro ballI)
    fix a b assume a: "a \<in> set (C f)" and "b \<in> set (concat (map C (level_files v m)))"
    then obtain g where g: "g \<in> set (level_files v m)" "b \<in> set (C g)" by auto
    have "l < 7" using that by simp
    from files [OF disjI1 [OF version_okD(4) [OF v that g(1)]] this that(3,2) g(1)]
    show "InternalKeyCompare ucmp (fst a) (fst b) \<noteq> 0" using a g(2) by blast
  qed
  have "sorted_wrt (\<lambda>l m. ?apart (concat (map C (level_files v l))) (concat (map C (level_files v m)))) [1..<7]"
  proof (rule sorted_wrt_mono_rel [OF _ sorted_wrt_upt])
    fix l m assume lm: "l \<in> set [1..<7]" "m \<in> set [1..<7]" "l < m"
    then have "m < 7" by simp
    then show "?apart (concat (map C (level_files v l))) (concat (map C (level_files v m)))" using down [OF lm(3)] by simp
  qed
  then have 1: "sorted_wrt ?apart (map (\<lambda>fs. concat (map C fs)) (filter (\<lambda>fs. fs \<noteq> []) (map (level_files v) [1..<7])))"
    unfolding sorted_wrt_map by (intro sorted_wrt_filter) (simp add: sorted_wrt_map)
  have 2: "\<forall>as\<in>set (map C (level_files v 0)). \<forall>bs\<in>set (map (\<lambda>fs. concat (map C fs)) (filter (\<lambda>fs. fs \<noteq> []) (map (level_files v) [1..<7]))). ?apart as bs"
  proof (intro ballI)
    fix as bs a b assume as: "as \<in> set (map C (level_files v 0))" and
      bs: "bs \<in> set (map (\<lambda>fs. concat (map C fs)) (filter (\<lambda>fs. fs \<noteq> []) (map (level_files v) [1..<7])))" and ab: "a \<in> set as" "b \<in> set bs"
    obtain f where f: "f \<in> set (level_files v 0)" "as = C f" using as by auto
    obtain m where m: "0 < m" "m < 7" "bs = concat (map C (level_files v m))" using bs by (auto simp: Suc_le_eq)
    show "InternalKeyCompare ucmp (fst a) (fst b) \<noteq> 0" using down [OF m(1,2) f(1)] ab f(2) m(3) by blast
  qed
  have "sorted_wrt ?apart (version_lists C v)" unfolding version_lists_def sorted_wrt_append using 0 1 2 by blast
  then show ?thesis using version_lists_ok [OF v] by (auto simp: mergeable_def internal_ok_def)
qed

end

text \<open>The merge of the iterators of a version goes over all its entries, in the order of internal keys.\<close>

lemma version_merged:
  fixes dops :: "'d Iterator" and new_error :: "status \<Rightarrow> 'd"
  assumes cmp: "comparator ucmp ugood" and v: "version_ok ucmp ugood H C v" and d: "iterator dops drep (InternalKeyCompare ucmp) (valid_ikey ugood)"
    and dist: "distinct (map (\<lambda>f. fm_number (H f)) (version_files_list v))"
    and ti: "\<And>f. f \<in> set (version_files_list v) \<Longrightarrow> \<exists>it. titer (fm_number (H f)) (fm_file_size (H f)) = Some it \<and> drep it (C f) None"
  defines "ops \<equiv> sum_ops dops (concat_ops (InternalKeyCompare ucmp) dops titer new_error)"
  obtains its m R es where "AddIterators titer (InternalKeyCompare ucmp) H v [] = Some its" and "NewMergingIterator ops its = Some m"
    and "iterator (merged_ops ops (InternalKeyCompare ucmp)) R (InternalKeyCompare ucmp) (valid_ikey ugood)" and "R m es None"
    and "internal_ok ucmp ugood es" and "set es = version_entries C v"
proof -
  let ?icmp = "InternalKeyCompare ucmp" and ?good = "valid_ikey ugood" and ?ess = "version_lists C v"
  let ?crep = "two_rep ?icmp ?good (\<lambda>h. \<exists>it. GetFileIterator titer new_error h = Some it \<and> drep it (file_of H C (version_files_list v) h) None)
        (file_of H C (version_files_list v)) (level_rep ?icmp ?good) drep"
  have loc: "version_files ucmp ugood" using cmp by (simp add: version_files_def)
  note icmp = version_files.internal [OF loc]
  have crep: "iterator (concat_ops ?icmp dops titer new_error) ?crep ?icmp ?good"
    using two_level.two_level_iterator [OF version_files.concat_two_level [OF loc d, of titer new_error "file_of H C (version_files_list v)"], folded concat_ops_def] .
  have I: "iterator ops (case_sum drep ?crep) ?icmp ?good" unfolding ops_def by (rule sum_iterator [OF d crep])
  have M: "merging ops (case_sum drep ?crep) ?icmp ?good" using I icmp by (simp add: merging_def)
  obtain its where its: "AddIterators titer ?icmp H v [] = Some its" "list_all2 (\<lambda>it es. case_sum drep ?crep it es None) its ?ess"
    using version_files.AddIterators_rep [OF loc v d dist ti] by blast
  have len: "length its = length ?ess" and rep: "case_sum drep ?crep (its ! i) (?ess ! i) None" if "i < length its" for i
    using its(2) that by (auto simp: list_all2_conv_all_nth)
  define es where "es = map snd (merge_lists ?icmp ?ess)"
  have mer: "mergeable ?icmp ?good ?ess" by (rule version_files.version_mergeable [OF loc v])
  obtain m where m: "NewMergingIterator ops its = Some m" "merged_rep ?icmp ?good (case_sum drep ?crep) m es None"
    using merging.NewMergingIterator_merges [OF M mer list_all2_lengthD [OF its(2)] rep] unfolding es_def by blast
  have set: "set es = version_entries C v"
    using snd_tagged [of 0 ?ess] set_version_lists [of C v] by (simp add: es_def merge_lists_def set_merge_fold)
  have "sorted_wrt (\<lambda>a b. ?icmp (fst a) (fst b) < 0) es" using merging.merge_lists_merges(1) [OF M mer] by (simp add: merges_def es_def)
  moreover have "valid_ikey ugood (fst e) \<and> ExtractValueType (fst e) \<le> kTypeValue" if e: "e \<in> set es" for e
  proof -
    obtain xs where "xs \<in> set ?ess" "e \<in> set xs" using e set set_version_lists [of C v] by blast
    then show ?thesis using version_files.version_lists_ok [OF loc v] by (auto simp: internal_ok_def)
  qed
  ultimately have ok: "internal_ok ucmp ugood es" by (simp add: internal_ok_def)
  show ?thesis by (rule that [OF its(1) m(1) merging.merged_iterator [OF M] m(2) ok set])
qed

text \<open>The view of the database iterator, in terms of the newest visible entries.\<close>

lemma db_view_newest:
  assumes cmp: "comparator ucmp ugood" and db: "db_iter ops R ucmp ugood s" and ok: "internal_ok ucmp ugood es"
  shows "(k, val) \<in> set (db_view ucmp s es) \<longleftrightarrow>
    (\<exists>ik. newest_in ucmp k s (set es) (ik, val) \<and> ExtractUserKey ik = k \<and> ExtractValueType ik = kTypeValue)"
proof -
  have loc: "version_files ucmp ugood" using cmp by (simp add: version_files_def)
  have "ucmp k k = 0" if "(ik, val) \<in> set es" "ExtractUserKey ik = k" for ik
    using version_files.entries_good [OF loc ok that(1)] comparator.refl [OF cmp] that(2) by simp
  then show ?thesis unfolding db_iter.db_view_mem [OF db ok] newest_in_def shown_def fst_conv by metis
qed

text \<open>
  C5: The whole stack of iterators is right: the database iterator over the merge of the iterators \<open>AddIterators\<close> makes for a version goes,
  through every legal sequence of moves, over a list that is sorted by user key and holds a pair \<open>(k, v)\<close> exactly when
  the newest entry of \<open>k\<close> in all files that is not newer than the sequence number is a value \<open>v\<close>: it shows
  the same contents as \<open>Version::Get\<close>.
\<close>

theorem version_iterator_correct:
  fixes dops :: "'d Iterator" and new_error :: "status \<Rightarrow> 'd"
  assumes cmp: "comparator ucmp ugood" and v: "version_ok ucmp ugood H C v" and d: "iterator dops drep (InternalKeyCompare ucmp) (valid_ikey ugood)"
    and dist: "distinct (map (\<lambda>f. fm_number (H f)) (version_files_list v))" and s: "s \<le> kMaxSequenceNumber"
    and ti: "\<And>f. f \<in> set (version_files_list v) \<Longrightarrow> \<exists>it. titer (fm_number (H f)) (fm_file_size (H f)) = Some it \<and> drep it (C f) None"
  defines "ops \<equiv> sum_ops dops (concat_ops (InternalKeyCompare ucmp) dops titer new_error)"
  defines "dbops \<equiv> db_ops (merged_ops ops (InternalKeyCompare ucmp)) ucmp"
  shows "\<exists>its m vs. AddIterators titer (InternalKeyCompare ucmp) H v [] = Some its \<and> NewMergingIterator ops its = Some m \<and>
    (\<forall>cs pos. pos_run ucmp vs cs None = Some pos \<and> cmds_ok ugood cs \<longrightarrow>
       (\<exists>db. iter_run dbops cs (DBIter_new m s seed) = Some db \<and> iter_entry dbops db = map_option ((!) vs) pos \<and> it_status dbops db = Status_OK)) \<and>
    sorted_wrt (\<lambda>a b. ucmp (fst a) (fst b) < 0) vs \<and>
    (\<forall>k val. (k, val) \<in> set vs \<longleftrightarrow>
       (\<exists>ik. newest_in ucmp k s (version_entries C v) (ik, val) \<and> ExtractUserKey ik = k \<and> ExtractValueType ik = kTypeValue))"
proof -
  obtain its m R es where its: "AddIterators titer (InternalKeyCompare ucmp) H v [] = Some its" and m: "NewMergingIterator ops its = Some m"
    and R: "iterator (merged_ops ops (InternalKeyCompare ucmp)) R (InternalKeyCompare ucmp) (valid_ikey ugood)" and rep: "R m es None"
    and ok: "internal_ok ucmp ugood es" and set: "set es = version_entries C v"
    using version_merged [OF cmp v d dist ti, of new_error thesis, folded ops_def] by blast
  have db: "db_iter (merged_ops ops (InternalKeyCompare ucmp)) R ucmp ugood s"
    using R cmp s by (simp add: db_iter_def db_iter_axioms_def)
  define vs where "vs = db_view ucmp s es"
  note D = db_iter.db_iterator [OF db]
  have "db_rep ucmp ugood s R (DBIter_new m s seed) vs None"
    unfolding vs_def by (rule db_iter.DBIter_new_rep [OF db, OF ok, OF rep])
  from iterator.iter_run_rep [OF D, OF this]
  have "\<forall>cs pos. pos_run ucmp vs cs None = Some pos \<and> cmds_ok ugood cs \<longrightarrow>
       (\<exists>db. iter_run dbops cs (DBIter_new m s seed) = Some db \<and> iter_entry dbops db = map_option ((!) vs) pos \<and> it_status dbops db = Status_OK)"
    unfolding dbops_def using iterator.iter_entry_rep [OF D] iterator.status [OF D] by blast
  moreover have "sorted_wrt (\<lambda>a b. ucmp (fst a) (fst b) < 0) vs" unfolding vs_def by (rule db_iter.db_view_sorted [OF db ok])
  ultimately show ?thesis using its m db_view_newest [OF cmp db ok, folded vs_def, unfolded set] by blast
qed

section \<open>A level of the sample version\<close>

lemma sample_block:
  assumes "f < 3"
  shows "\<exists>it. block_rep (InternalKeyCompare BytewiseCompare) (valid_ikey (\<lambda>_. True)) it (sample_file f) None"
proof -
  let ?ic = "InternalKeyCompare BytewiseCompare" and ?g = "valid_ikey (\<lambda>_. True)"
  have ok: "internal_ok BytewiseCompare (\<lambda>_. True) (sample_file f)" using sample_holds [OF assms] by (simp add: file_holds_def)
  then have s: "sorted_wrt (\<lambda>a b. ?ic (fst a) (fst b) < 0) (sample_file f)" and g: "\<forall>e\<in>set (sample_file f). ?g (fst e)" by (simp_all add: internal_ok_def)
  have "(\<Sum>(k, v)\<leftarrow>sample_file f. length k + length v + 19) + 8 < 2 ^ 32" by (simp add: sample_file_def)
  from built_block [OF internal_bytewise.comparator_axioms _ s g this, of 2] show ?thesis by auto
qed

text \<open>The two files of level 1 are visited as one list; the iterator goes to its end and one step back.\<close>

theorem concatenating_iterator_correct_witness:
  "\<exists>titer new_error t t'. NewConcatenatingIterator (InternalKeyCompare BytewiseCompare) sample_heap [1, 2] = Some t \<and>
     iter_run (concat_ops (InternalKeyCompare BytewiseCompare) (block_ops (InternalKeyCompare BytewiseCompare)) titer new_error)
       [ToLast, Backward, Backward, Forward] t = Some t' \<and>
     iter_entry (concat_ops (InternalKeyCompare BytewiseCompare) (block_ops (InternalKeyCompare BytewiseCompare)) titer new_error) t' =
       Some (InternalKey_new [2] 2 kTypeValue, [20])"
proof -
  let ?ic = "InternalKeyCompare BytewiseCompare" and ?g = "valid_ikey (\<lambda>_. True)" and ?cs = "[ToLast, Backward, Backward, Forward]"
  obtain it1 it2 where its: "block_rep ?ic ?g it1 (sample_file 1) None" "block_rep ?ic ?g it2 (sample_file 2) None"
    using sample_block [of 1] sample_block [of 2] by auto
  let ?titer = "\<lambda>num file_size :: u64. Some (if num = (11 :: u64) then it1 else it2)"
  have n: "fm_number (sample_heap 1) = 11" "fm_number (sample_heap 2) = 12" by (simp_all add: sample_heap_def FileMetaData_new_def)
  have dis: "level_disjoint BytewiseCompare (\<lambda>_. True) sample_heap [1, 2]" using sample_disjoint [of 1] by simp
  have dist: "distinct (map (\<lambda>f. fm_number (sample_heap f)) [1, 2])" using n by simp
  have h: "file_holds BytewiseCompare (\<lambda>_. True) sample_heap f (sample_file f)" if "f \<in> set [1, 2]" for f
    using that by (intro sample_holds) auto
  have ti: "\<exists>it. ?titer (fm_number (sample_heap f)) (fm_file_size (sample_heap f)) = Some it \<and> block_rep ?ic ?g it (sample_file f) None" if "f \<in> set [1, 2]" for f
    using that its n by auto
  have es: "concat (map sample_file [1, 2]) = [(InternalKey_new [1] 3 kTypeValue, [30]), (InternalKey_new [2] 2 kTypeValue, [20]), (InternalKey_new [3] 1 kTypeValue, [10])]"
    by (simp add: sample_file_def)
  have p: "pos_run ?ic (concat (map sample_file [1, 2])) ?cs None = Some (Some 1)" unfolding es by (simp add: entry_pos_def last_pos_def)
  have ok: "cmds_ok ?g ?cs" by (simp add: cmds_ok_def)
  from concatenating_iterator_correct [OF bytewise.comparator_axioms internal_block.iterator_axioms dis dist h ti p ok, of "\<lambda>_. it1"]
  obtain t t' where "NewConcatenatingIterator ?ic sample_heap [1, 2] = Some t" "iter_run (concat_ops ?ic (block_ops ?ic) ?titer (\<lambda>_. it1)) ?cs t = Some t'"
    "iter_entry (concat_ops ?ic (block_ops ?ic) ?titer (\<lambda>_. it1)) t' = Some (InternalKey_new [2] 2 kTypeValue, [20])"
    unfolding es by auto
  then show ?thesis by blast
qed

lemma sample_newest: "newest_in BytewiseCompare [2] 5 (version_entries sample_file sample_version) (InternalKey_new [2] 2 kTypeValue, [20])"
  unfolding newest_in_def using sample_shown by (metis order_refl)

text \<open>The database iterator over the sample version, as of sequence number 5, finds key 2 as \<open>Version::Get\<close> does.\<close>

theorem version_iterator_correct_witness:
  "\<exists>titer new_error its m db.
     AddIterators titer (InternalKeyCompare BytewiseCompare) sample_heap sample_version [] = Some its \<and>
     NewMergingIterator (sum_ops (block_ops (InternalKeyCompare BytewiseCompare))
       (concat_ops (InternalKeyCompare BytewiseCompare) (block_ops (InternalKeyCompare BytewiseCompare)) titer new_error)) its = Some m \<and>
     iter_run (db_ops (merged_ops (sum_ops (block_ops (InternalKeyCompare BytewiseCompare))
       (concat_ops (InternalKeyCompare BytewiseCompare) (block_ops (InternalKeyCompare BytewiseCompare)) titer new_error))
       (InternalKeyCompare BytewiseCompare)) BytewiseCompare) [To [2]] (DBIter_new m 5 301) = Some db \<and>
     iter_entry (db_ops (merged_ops (sum_ops (block_ops (InternalKeyCompare BytewiseCompare))
       (concat_ops (InternalKeyCompare BytewiseCompare) (block_ops (InternalKeyCompare BytewiseCompare)) titer new_error))
       (InternalKeyCompare BytewiseCompare)) BytewiseCompare) db = Some ([2], [20])"
proof -
  let ?ic = "InternalKeyCompare BytewiseCompare" and ?g = "valid_ikey (\<lambda>_. True)"
  obtain its0 where b: "\<And>f. f < 3 \<Longrightarrow> block_rep ?ic ?g (its0 f) (sample_file f) None"
    using sample_block by metis
  let ?titer = "\<lambda>num file_size :: u64. Some (its0 (unat (num :: u64) - 10))" and ?err = "\<lambda>_ :: status. its0 0"
  have n: "unat (fm_number (sample_heap f)) - 10 = f" if "f < 3" for f
  proof -
    have "f = 0 \<or> f = 1 \<or> f = 2" using that by auto
    then show ?thesis by (auto simp: sample_heap_def FileMetaData_new_def)
  qed
  have fl: "version_files_list sample_version = [0, 1, 2]"
    by (simp add: version_files_list_def upt_rec [of _ "7 :: nat"] numeral_eq_Suc)
  have lt: "f < 3" if "f \<in> set (version_files_list sample_version)" for f using that fl by auto
  have dist: "distinct (map (\<lambda>f. fm_number (sample_heap f)) (version_files_list sample_version))"
    unfolding fl by (simp add: sample_heap_def FileMetaData_new_def)
  have ti: "\<exists>it. ?titer (fm_number (sample_heap f)) (fm_file_size (sample_heap f)) = Some it \<and> block_rep ?ic ?g it (sample_file f) None"
    if "f \<in> set (version_files_list sample_version)" for f using b [OF lt [OF that]] n [OF lt [OF that]] by simp
  have s: "(5 :: u64) \<le> kMaxSequenceNumber" by code_simp
  let ?ops = "sum_ops (block_ops ?ic) (concat_ops ?ic (block_ops ?ic) ?titer ?err)"
  let ?dbops = "db_ops (merged_ops ?ops ?ic) BytewiseCompare"
  obtain its m vs where r: "AddIterators ?titer ?ic sample_heap sample_version [] = Some its" "NewMergingIterator ?ops its = Some m"
    "\<forall>cs pos. pos_run BytewiseCompare vs cs None = Some pos \<and> cmds_ok (\<lambda>_. True) cs \<longrightarrow>
       (\<exists>db. iter_run ?dbops cs (DBIter_new m 5 301) = Some db \<and> iter_entry ?dbops db = map_option ((!) vs) pos \<and> it_status ?dbops db = Status_OK)"
    "sorted_wrt (\<lambda>a b. BytewiseCompare (fst a) (fst b) < 0) vs"
    "\<forall>k val. (k, val) \<in> set vs \<longleftrightarrow>
       (\<exists>ik. newest_in BytewiseCompare k 5 (version_entries sample_file sample_version) (ik, val) \<and> ExtractUserKey ik = k \<and> ExtractValueType ik = kTypeValue)"
    using version_iterator_correct [OF bytewise.comparator_axioms sample_version_ok internal_block.iterator_axioms dist s ti, of ?err 301] by blast
  have "ExtractValueType (InternalKey_new [2] 2 kTypeValue) = kTypeValue" by code_simp
  then have "([2], [20]) \<in> set vs" using r(5) sample_newest by (metis InternalKey_new_parts(1))
  then obtain i where i: "i < length vs" "vs ! i = ([2], [20])" by (auto simp: in_set_conv_nth)
  have "takeWhile (\<lambda>e. BytewiseCompare (fst e) [2] < 0) vs = take i vs"
  proof (rule takeWhile_eq_take_P_nth)
    show "BytewiseCompare (fst (vs ! j)) [2] < 0" if "j < i" for j using sorted_wrt_nth_less [OF r(4) that i(1)] i(2) by simp
    show "\<not> BytewiseCompare (fst (vs ! i)) [2] < 0" using i(2) by (simp add: BytewiseCompare_def)
  qed
  then have "seek_pos BytewiseCompare vs [2] = i" using i(1) by (simp add: seek_pos_def)
  then have "pos_run BytewiseCompare vs [To [2]] None = Some (Some i)" using i(1) by (simp add: entry_pos_def)
  moreover have "cmds_ok (\<lambda>_. True) [To [2]]" by (simp add: cmds_ok_def)
  ultimately obtain db where "iter_run ?dbops [To [2]] (DBIter_new m 5 301) = Some db" "iter_entry ?dbops db = map_option ((!) vs) (Some i)"
    using r(3) by blast
  then show ?thesis using r(1,2) i(2)
    by (intro exI [of _ ?titer] exI [of _ ?err] exI [of _ its] exI [of _ m] exI [of _ db]) simp
qed

end
