(* ===== verification/Spec2Isabelle.thy ===== *)
theory Spec2Isabelle
  imports PbProps LdbBatch LdbLogSpec LdbTableRead LdbFilename LdbLevelIter
begin

text \<open>
  A verification library for the C and C++ code the PWR application ships with its sources: the protocol-buffer runtime
  \<open>nanopb\<close> (\<open>src/PWR/Pods/nanopb\<close>) and the key-value store \<open>leveldb\<close> (\<open>src/PWR/Pods/leveldb-library\<close>).  The application
  itself is written in Swift; its other libraries come as binaries with headers.

  \<^bold>\<open>The program.\<close>  nanopb reads and writes messages described by field descriptors, straight from
  and into C structs.  leveldb keeps a sorted map from user keys to values.  A write is a batch
  that goes to the write-ahead log and then to the memtable, a skip list of internal keys (user key, sequence number,
  type).  A full memtable becomes a table file; a version is the list of table files per level, and version edits in the manifest
  record how it changes.  A read at a sequence number looks into the memtable and then into the files of the version;
  an iterator merges the iterators of all of them and hides overwritten and deleted entries.

  \<^bold>\<open>Conventions.\<close>  Theories \<open>Pb...\<close> treat nanopb, \<open>Ldb...\<close> treat leveldb, \<open>Prelude\<close> is shared.  Machine integers are
  words of their width, 64-bit \<open>size_t\<close> included; C structs of a message live in byte-addressed memory.  In nanopb
  a function returns \<open>Ok\<close>, an error, or \<open>Fault\<close> for undefined behaviour.  In leveldb \<open>None\<close> is a failed assertion, a read outside an
  array or a loop that does not end, and errors are values of type \<open>status\<close>.  Loops are structural or come with a termination
  proof, or are partial functions (or take fuel), in which case a theorem shows that they return.

  \<^bold>\<open>nanopb.\<close>
  \<^item> \<open>PbCommon\<close>: field descriptors of \<open>pb.h\<close> and the field iterator of \<open>pb_common.c\<close>.
  \<^item> \<open>PbWire\<close>, \<open>PbIStream\<close>, \<open>PbOStream\<close>: varints, the stream functions and wire-level readers and writers of \<open>pb_decode.c\<close> and
    \<open>pb_encode.c\<close>.  \<open>PbCodec\<close> states the contract between writer and reader as a locale and interprets it for
    each pair: what one writes the other reads back.
  \<^item> \<open>PbDecode\<close>, \<open>PbEncode\<close>: the field and message coders, with arrays, oneofs, extensions, callbacks and submessages.
  \<^item> \<open>PbSafety\<close>: \<open>pb_decode\<close> on any input stays in the buffer and in the struct, has no undefined behaviour and returns; the fuel,
    the length of the message plus the depth of the descriptor, suffices.
  \<^item> \<open>PbEmit\<close>, \<open>PbMessage\<close>: \<open>pb_encode\<close> writes the serialisation of the records the struct holds, or a prefix of
    it when the stream is full; \<open>pb_get_encoded_size\<close> is exact.
  \<^item> \<open>PbProps\<close>: finding fields, skipping unknown ones, the check of required fields, and two inputs on which the code
    misbehaves (32 required fields; a key cut off by the end of input).

  \<^bold>\<open>leveldb, basics.\<close>
  \<^item> \<open>LdbBase\<close>, \<open>LdbCoding\<close>, \<open>LdbCrc\<close>, \<open>LdbBloom\<close>, \<open>LdbLogging\<close>: slices, statuses, comparators, encodings, the checksum (the
    table-driven code equals the shift register), hashing and Bloom filters, decimal printing.  The locales \<open>comparator\<close>,
    \<open>key_comparator\<close> and \<open>filter_policy\<close> are the interfaces of \<open>comparator.h\<close> and \<open>filter_policy.h\<close>.
  \<^item> \<open>LdbKeys\<close>: internal keys (\<open>db/dbformat.cc\<close>); the internal comparator and filter keep the contracts again.

  \<^bold>\<open>leveldb, write path.\<close>
  \<^item> \<open>LdbSkipList\<close>, \<open>LdbMemTable\<close>, \<open>LdbBatch\<close>: the skip list over a heap of nodes with its invariant, the memtable, and write batches; a memtable
    answers lookups like the history of the operations inserted into it.
  \<^item> \<open>LdbLog\<close>, \<open>LdbLogSpec\<close>: writer and reader of the log over files that can fail; round trip, crash safety, and soundness of
    what the reader returns.
  \<^item> \<open>LdbEnv\<close>, \<open>LdbFilename\<close>: the POSIX environment over a model of the operating system with a schedule of faults and a history of its
    states; file names, and the atomic switch of \<open>CURRENT\<close>.
  \<^item> \<open>LdbVersionEdit\<close>: the records of the manifest, their encoding and decoding.

  \<^bold>\<open>leveldb, tables.\<close>
  \<^item> \<open>LdbIterator\<close>: the interface \<open>iterator.h\<close> as a record of operations and the locale \<open>iterator\<close> (an iterator
    stands at a position of a list).  Every iterator below is shown to keep this contract.
  \<^item> \<open>LdbBlock\<close>, \<open>LdbBlockSpec\<close>, \<open>LdbFormat\<close>, \<open>LdbFilterBlock\<close>, \<open>LdbTwoLevel\<close>: blocks, handles and footer, filter blocks, the
    two-level iterator.
  \<^item> \<open>LdbTable\<close>, \<open>LdbTableSpec\<close>, \<open>LdbTableRead\<close>: builder and reader of table files; a table that was built and opened refines the
    list of its entries, for iteration and for lookups, with any coherent block cache.

  \<^bold>\<open>leveldb, read path.\<close>
  \<^item> \<open>LdbMerger\<close>: the merging iterator, with changes of direction; it keeps the contract over the merge of
    the lists of its children.
  \<^item> \<open>LdbDBIter\<close>: the database iterator; it keeps the contract over the list of live entries at a sequence number.
    The sampling of reads ends because two consecutive random periods are never both zero.
  \<^item> \<open>LdbVersion\<close>: the files of a version, binary search, overlap tests, the inputs of a compaction, the level for a new
    table, seek statistics.
  \<^item> \<open>LdbVersionGet\<close>: \<open>Version::Get\<close> returns the newest visible entry of all files, under the invariant \<open>version_ok\<close>.
  \<^item> \<open>LdbLevelIter\<close>: the concatenating iterator of a level, and the composition of all iterators of the read path over
    a version: it shows exactly the entries \<open>Version::Get\<close> finds.

  \<^bold>\<open>Parameters.\<close>  User callbacks and extensions of nanopb; Snappy compression (and as built without it); the number of Bloom
  probes, which the source computes in floating point; the block cache as the function \<open>Lookup\<close>; the table cache, as its
  lookups and its iterators; random heights come from the modelled generator; faults of system calls from a schedule.
  The theorems state what they need of a parameter, and each has an instance.

  \<^bold>\<open>Not modelled.\<close>  The Swift application, and Firebase, Facebook and Google libraries, of which the repository has headers or
  Objective-C sources.  Of nanopb: \<open>PB_ENABLE_MALLOC\<close> and other options the application does not set.  Of leveldb: the
  database object with its mutex and background thread (\<open>db_impl.cc\<close>), the version set with its builder and the choice of
  compactions (the rest of \<open>version_set.cc\<close>), the LRU and table caches, the arena, repair, the C
  binding, tools, benchmarks and tests; memory barriers of the skip list; reference counts of versions and
  cleanup functions of iterators.
\<close>

end
